(* ===== verification/LK_System.thy ===== *)
theory LK_System
  imports Main
begin

text \<open>
  The interface the components of the kernel share: a state, calls that may be made in it
  subject to the caller's obligations, and an execution that can fail (a failed assertion, a
  panic). A provider shows that its invariant holds initially, that an allowed call in a
  good state ends in a good state, and in which situations one may fail (\<open>faulty\<close>);
  then every reachable state is good and a sequence of allowed calls can only be stopped in
  such a situation. A provider none of whose allowed calls fails is a \<open>guarded_system\<close>.
\<close>

inductive reach :: "('s \<Rightarrow> bool) \<Rightarrow> ('c \<Rightarrow> 's \<Rightarrow> bool) \<Rightarrow> ('c \<Rightarrow> 's \<Rightarrow> 's option) \<Rightarrow> 's \<Rightarrow> bool"
  for start :: "'s \<Rightarrow> bool" and allowed :: "'c \<Rightarrow> 's \<Rightarrow> bool" and exec :: "'c \<Rightarrow> 's \<Rightarrow> 's option"
where
  reach_start: "start s \<Longrightarrow> reach start allowed exec s"
| reach_call: "reach start allowed exec s \<Longrightarrow> allowed c s \<Longrightarrow> exec c s = Some s' \<Longrightarrow>
    reach start allowed exec s'"

inductive_cases reachE: "reach start allowed exec s"

text \<open>Running a sequence of calls; \<open>None\<close> when one of them fails.\<close>

primrec run_calls :: "('c \<Rightarrow> 's \<Rightarrow> 's option) \<Rightarrow> 'c list \<Rightarrow> 's \<Rightarrow> 's option" where
  "run_calls exec [] s = Some s"
| "run_calls exec (c # cs) s = Option.bind (exec c s) (run_calls exec cs)"

text \<open>Every call of the sequence is allowed where it is made.\<close>

primrec calls_allowed :: "('c \<Rightarrow> 's \<Rightarrow> bool) \<Rightarrow> ('c \<Rightarrow> 's \<Rightarrow> 's option) \<Rightarrow> 'c list \<Rightarrow> 's \<Rightarrow> bool" where
  "calls_allowed allowed exec [] s \<longleftrightarrow> True"
| "calls_allowed allowed exec (c # cs) s \<longleftrightarrow>
     allowed c s \<and> (\<forall>s'. exec c s = Some s' \<longrightarrow> calls_allowed allowed exec cs s')"

locale call_system =
  fixes start :: "'s \<Rightarrow> bool" and allowed :: "'c \<Rightarrow> 's \<Rightarrow> bool"
    and exec :: "'c \<Rightarrow> 's \<Rightarrow> 's option" and good :: "'s \<Rightarrow> bool" and faulty :: "'c \<Rightarrow> 's \<Rightarrow> bool"
  assumes start_ok: "start s \<Longrightarrow> good s"
    and call_keeps: "good s \<Longrightarrow> allowed c s \<Longrightarrow> exec c s = Some s' \<Longrightarrow> good s'"
    and call_faulty: "good s \<Longrightarrow> allowed c s \<Longrightarrow> exec c s = None \<Longrightarrow> faulty c s"
begin

lemma reach_good: "reach start allowed exec s \<Longrightarrow> good s"
  by (induction rule: reach.induct) (auto intro: start_ok call_keeps)

lemma run_calls_or_fault:
  "good s \<Longrightarrow> calls_allowed allowed exec cs s \<Longrightarrow>
   (\<exists>s'. run_calls exec cs s = Some s' \<and> good s') \<or>
   (\<exists>cs1 c cs2 s1. cs = cs1 @ c # cs2 \<and> run_calls exec cs1 s = Some s1 \<and> good s1 \<and>
      exec c s1 = None \<and> faulty c s1)"
proof (induction cs arbitrary: s)
  case Nil
  then show ?case by simp
next
  case (Cons c cs)
  show ?case
  proof (cases "exec c s")
    case None
    then have "faulty c s" using Cons.prems call_faulty by simp
    then show ?thesis using None Cons.prems(1) by (intro disjI2 exI [of _ "[]"]) auto
  next
    case (Some s1)
    then have "good s1" "calls_allowed allowed exec cs s1" using Cons.prems call_keeps by auto
    from Cons.IH [OF this] show ?thesis
    proof
      assume "\<exists>s'. run_calls exec cs s1 = Some s' \<and> good s'"
      then show ?thesis using Some by simp
    next
      assume "\<exists>cs1 d cs2 s2. cs = cs1 @ d # cs2 \<and> run_calls exec cs1 s1 = Some s2 \<and> good s2 \<and>
          exec d s2 = None \<and> faulty d s2"
      then obtain cs1 d cs2 s2 where "cs = cs1 @ d # cs2" "run_calls exec cs1 s1 = Some s2" "good s2"
        "exec d s2 = None" "faulty d s2" by blast
      then show ?thesis using Some by (intro disjI2 exI [of _ "c # cs1"]) auto
    qed
  qed
qed

end

locale guarded_system =
  fixes start :: "'s \<Rightarrow> bool" and allowed :: "'c \<Rightarrow> 's \<Rightarrow> bool"
    and exec :: "'c \<Rightarrow> 's \<Rightarrow> 's option" and good :: "'s \<Rightarrow> bool"
  assumes start_good: "start s \<Longrightarrow> good s"
    and call_good: "good s \<Longrightarrow> allowed c s \<Longrightarrow> \<exists>s'. exec c s = Some s' \<and> good s'"

sublocale guarded_system \<subseteq> base: call_system start allowed exec good "\<lambda>_ _. False"
  using start_good call_good by unfold_locales fastforce+

context guarded_system
begin

lemmas reach_good = base.reach_good

lemma reach_not_stuck:
  "reach start allowed exec s \<Longrightarrow> allowed c s \<Longrightarrow> \<exists>s'. exec c s = Some s' \<and> reach start allowed exec s'"
  using base.reach_good call_good by (meson reach_call)

lemma run_calls_good:
  "good s \<Longrightarrow> calls_allowed allowed exec cs s \<Longrightarrow> \<exists>s'. run_calls exec cs s = Some s' \<and> good s'"
  using base.run_calls_or_fault by blast

lemma start_run_calls:
  "start s \<Longrightarrow> calls_allowed allowed exec cs s \<Longrightarrow> \<exists>s'. run_calls exec cs s = Some s' \<and> good s'"
  using run_calls_good start_good by blast

end

end
