(* ===== verification/LK_Prelude.thy ===== *)
theory LK_Prelude
  imports Main "HOL-Library.Word" "HOL-Library.Monad_Syntax"
begin

text \<open>
  What every theory of the development shares: the status codes of
  \<^verbatim>\<open>include/err.h\<close>, the integer types of \<^verbatim>\<open>include/sys/types.h\<close>, the
  model of \<^verbatim>\<open>DEBUG_ASSERT\<close> and \<^verbatim>\<open>panic\<close> (a computation in the option
  monad, where \<open>None\<close> is a kernel that has panicked), and generic lemmas on lists,
  words and the option monad that the component theories use through the
  collections declared here.
\<close>

unbundle bit_operations_syntax

named_theorems lk_defs \<open>status codes, magic numbers and configuration constants\<close>
named_theorems lk_run \<open>rules that run a computation of the option monad\<close>

section \<open>Types and constants\<close>

type_synonym u8 = "8 word"
type_synonym u32 = "32 word"
type_synonym u64 = "64 word"
type_synonym status_t = int
type_synonym lk_time_t = u32

definition NO_ERROR :: status_t where [lk_defs]: "NO_ERROR = 0"
definition ERR_GENERIC :: status_t where [lk_defs]: "ERR_GENERIC = -1"
definition ERR_NOT_FOUND :: status_t where [lk_defs]: "ERR_NOT_FOUND = -2"
definition ERR_NOT_READY :: status_t where [lk_defs]: "ERR_NOT_READY = -3"
definition ERR_NO_MSG :: status_t where [lk_defs]: "ERR_NO_MSG = -4"
definition ERR_NO_MEMORY :: status_t where [lk_defs]: "ERR_NO_MEMORY = -5"
definition ERR_INVALID_ARGS :: status_t where [lk_defs]: "ERR_INVALID_ARGS = -8"
definition ERR_NOT_ENOUGH_BUFFER :: status_t where [lk_defs]: "ERR_NOT_ENOUGH_BUFFER = -9"
definition ERR_OBJECT_DESTROYED :: status_t where [lk_defs]: "ERR_OBJECT_DESTROYED = -11"
definition ERR_NOT_BLOCKED :: status_t where [lk_defs]: "ERR_NOT_BLOCKED = -12"
definition ERR_TIMED_OUT :: status_t where [lk_defs]: "ERR_TIMED_OUT = -13"
definition ERR_ALREADY_EXISTS :: status_t where [lk_defs]: "ERR_ALREADY_EXISTS = -14"
definition ERR_NOT_ALLOWED :: status_t where [lk_defs]: "ERR_NOT_ALLOWED = -17"
definition ERR_TOO_BIG :: status_t where [lk_defs]: "ERR_TOO_BIG = -25"
definition ERR_CANCELLED :: status_t where [lk_defs]: "ERR_CANCELLED = -26"
definition ERR_BUSY :: status_t where [lk_defs]: "ERR_BUSY = -33"
definition ERR_THREAD_DETACHED :: status_t where [lk_defs]: "ERR_THREAD_DETACHED = -34"
definition ERR_BAD_HANDLE :: status_t where [lk_defs]: "ERR_BAD_HANDLE = -42"
definition ERR_PARTIAL_WRITE :: status_t where [lk_defs]: "ERR_PARTIAL_WRITE = -44"

definition INFINITE_TIME :: lk_time_t where [lk_defs]: "INFINITE_TIME = 0xFFFFFFFF"

datatype handler_return = INT_NO_RESCHEDULE | INT_RESCHEDULE

text \<open>
  The four comparisons of \<^verbatim>\<open>include/sys/types.h\<close>: the 32-bit difference is
  read as a signed number, so that they survive the wrap-around of the clock.
\<close>

definition TIME_GTE :: "lk_time_t \<Rightarrow> lk_time_t \<Rightarrow> bool" where
  "TIME_GTE a b \<longleftrightarrow> 0 \<le> sint (a - b)"

definition TIME_LTE :: "lk_time_t \<Rightarrow> lk_time_t \<Rightarrow> bool" where
  "TIME_LTE a b \<longleftrightarrow> sint (a - b) \<le> 0"

definition TIME_GT :: "lk_time_t \<Rightarrow> lk_time_t \<Rightarrow> bool" where
  "TIME_GT a b \<longleftrightarrow> 0 < sint (a - b)"

definition TIME_LT :: "lk_time_t \<Rightarrow> lk_time_t \<Rightarrow> bool" where
  "TIME_LT a b \<longleftrightarrow> sint (a - b) < 0"

section \<open>Assertions and panics\<close>

text \<open>
  \<^verbatim>\<open>DEBUG_ASSERT(b)\<close> and \<^verbatim>\<open>if (!b) panic(...)\<close> stop the machine unless
  \<open>b\<close>: they are the computation \<open>ASSERT b\<close>.
\<close>

definition ASSERT :: "bool \<Rightarrow> unit option" where
  "ASSERT b = (if b then Some () else None)"

lemma ASSERT_True [simp, lk_run]: "ASSERT True = Some ()"
  by (simp add: ASSERT_def)

lemma ASSERT_False [simp, lk_run]: "ASSERT False = None"
  by (simp add: ASSERT_def)

lemma ASSERT_bind_Some [lk_run]:
  "(ASSERT b \<bind> f) = Some r \<longleftrightarrow> b \<and> f () = Some r"
  by (simp add: ASSERT_def)

lemma ASSERT_bind_holds: "b \<Longrightarrow> (ASSERT b \<bind> f) = f ()"
  by simp

lemmas bind_Some = Option.bind_eq_Some_conv

section \<open>Lists\<close>

lemma remove1_distinct_set [simp]:
  "distinct xs \<Longrightarrow> set (remove1 x xs) = set xs - {x}"
  by (rule set_remove1_eq)

lemma find_Some_mem: "find P xs = Some x \<Longrightarrow> x \<in> set xs \<and> P x"
  by (auto simp: find_Some_iff)

lemma find_None_all: "find P xs = None \<Longrightarrow> x \<in> set xs \<Longrightarrow> \<not> P x"
  by (auto simp: find_None_iff)

lemma sum_list_filter_split:
  "sum_list (map f (filter P xs)) + sum_list (map f (filter (\<lambda>x. \<not> P x) xs)) = sum_list (map f xs)"
  for f :: "'a \<Rightarrow> nat"
  by (induction xs) auto

section \<open>Words\<close>

text \<open>
  Setting and clearing one bit, the two operations the kernel applies to its bitmaps:
  \<^verbatim>\<open>w |= (1 << n)\<close> and \<^verbatim>\<open>w &= ~(1 << n)\<close>.
\<close>

definition bit_set :: "nat \<Rightarrow> 'a::len word \<Rightarrow> 'a word" where
  "bit_set n w = w OR push_bit n 1"

definition bit_clear :: "nat \<Rightarrow> 'a::len word \<Rightarrow> 'a word" where
  "bit_clear n w = w AND NOT (push_bit n 1)"

lemma bit_bit_set [simp]:
  "bit (bit_set n w) m \<longleftrightarrow> bit w m \<or> m = n \<and> n < LENGTH('a)"
  for w :: "'a::len word"
  by (auto simp: bit_set_def bit_simps dest: bit_imp_le_length)

lemma bit_bit_clear [simp]:
  "bit (bit_clear n w) m \<longleftrightarrow> bit w m \<and> m \<noteq> n"
  for w :: "'a::len word"
  by (auto simp: bit_clear_def bit_simps dest: bit_imp_le_length)

lemma bit_clear_le: "bit_clear n w \<le> w"
  for w :: "'a::len word"
  unfolding bit_clear_def by (rule word_and_le2)

lemma bit_clear_less: "bit w n \<Longrightarrow> bit_clear n w < w"
  for w :: "'a::len word"
proof -
  assume "bit w n"
  then have "bit_clear n w \<noteq> w"
    by (metis bit_bit_clear)
  with bit_clear_le [of n w] show ?thesis
    by simp
qed

lemma unat_bit_clear_less: "bit w n \<Longrightarrow> unat (bit_clear n w) < unat w"
  for w :: "'a::len word"
  using bit_clear_less by (simp add: word_less_nat_alt)

lemma word_nonzero_bit: "w \<noteq> 0 \<longleftrightarrow> (\<exists>n < LENGTH('a). bit w n)"
  for w :: "'a::len word"
  by (auto simp: bit_eq_iff dest: bit_imp_le_length)

end
