(* ===== verification/Kernel_Timer.thy ===== *)
theory Kernel_Timer
  imports LK_Prelude
begin

text \<open>
  The kernel's timer queues (\<^verbatim>\<open>kernel/timer.c\<close>, \<^verbatim>\<open>include/kernel/timer.h\<close>):
  one queue of pending timers per cpu, kept in the order of their expiry, and the one-shot
  hardware timer each cpu programs for the head of its queue. The configuration is that of
  the ARM generic timer (\<^verbatim>\<open>PLATFORM_HAS_DYNAMIC_TIMER\<close> is 1). The handler that
  runs expired timers, \<^verbatim>\<open>timer_tick\<close>, is in \<open>Kernel_Tick\<close>, since it
  calls back into the scheduler.

  Threads, wait queues and timers are named by the structures that hold them in the
  source, so that two of them are equal exactly when the pointers are: \<open>Idle c\<close> is
  \<^verbatim>\<open>&_idle_threads[c]\<close>, \<open>Thr n\<close> any other thread structure;
  \<open>RetcodeWq t\<close> is the queue inside thread \<open>t\<close> and \<open>ObjWq n\<close> one inside
  another kernel object; \<open>StackTimer t\<close> is the local timer of the one
  \<^verbatim>\<open>wait_queue_block\<close> or \<^verbatim>\<open>thread_sleep\<close> that thread \<open>t\<close> can be
  in, \<open>PreemptTimer c\<close> is \<^verbatim>\<open>preempt_timer[c]\<close>.
\<close>

section \<open>Names and types\<close>

datatype tid = Idle nat | Thr nat
datatype wqaddr = RetcodeWq tid | ObjWq nat
datatype taddr = StackTimer tid | PreemptTimer nat | UserTimer nat

text \<open>
  A timer's callback with its argument: the three callbacks of \<^verbatim>\<open>kernel/thread.c\<close>,
  and those of other code, which are numbered.
\<close>

datatype timer_callback =
    thread_sleep_handler_cb tid
  | wait_queue_timeout_handler_cb tid
  | thread_timer_tick_cb
  | user_cb nat

definition TIMER_MAGIC :: u32 where [lk_defs]: "TIMER_MAGIC = 0x74696D72"

text \<open>
  \<open>tm_node\<close> is the list node: \<open>None\<close> when it is cleared (both links NULL),
  \<open>Some c\<close> when it is linked in the queue of cpu \<open>c\<close>.
\<close>

record timer =
  tm_magic :: u32
  tm_node :: "nat option"
  tm_scheduled_time :: lk_time_t
  tm_periodic_time :: lk_time_t
  tm_callback :: "timer_callback option"

record timer_state =
  tmr :: "taddr \<Rightarrow> timer"
  timer_queue :: "nat \<Rightarrow> taddr list"
  hw_timer :: "nat \<Rightarrow> lk_time_t option"

definition TIMER_INITIAL_VALUE :: timer where
  "TIMER_INITIAL_VALUE =
     \<lparr>tm_magic = TIMER_MAGIC, tm_node = None, tm_scheduled_time = 0, tm_periodic_time = 0,
      tm_callback = None\<rparr>"

section \<open>Operations\<close>

definition timer_initialize :: "taddr \<Rightarrow> timer_state \<Rightarrow> timer_state" where
  "timer_initialize t ts = ts\<lparr>tmr := (tmr ts)(t := TIMER_INITIAL_VALUE)\<rparr>"

text \<open>The walk of \<^verbatim>\<open>insert_timer_in_queue\<close>: before the first entry that is later.\<close>

primrec insert_walk :: "(taddr \<Rightarrow> lk_time_t) \<Rightarrow> taddr \<Rightarrow> taddr list \<Rightarrow> taddr list" where
  "insert_walk sch t [] = [t]"
| "insert_walk sch t (e # es) =
     (if TIME_GT (sch e) (sch t) then t # e # es else e # insert_walk sch t es)"

abbreviation sched_time :: "timer_state \<Rightarrow> taddr \<Rightarrow> lk_time_t" where
  "sched_time ts t \<equiv> tm_scheduled_time (tmr ts t)"

definition insert_timer_in_queue :: "nat \<Rightarrow> taddr \<Rightarrow> timer_state \<Rightarrow> timer_state" where
  "insert_timer_in_queue cpu t ts =
     ts\<lparr>timer_queue := (timer_queue ts)(cpu := insert_walk (sched_time ts) t (timer_queue ts cpu)),
        tmr := (tmr ts)(t := (tmr ts t)\<lparr>tm_node := Some cpu\<rparr>)\<rparr>"

text \<open>\<^verbatim>\<open>list_delete(&timer->node)\<close>, from whichever queue the node is linked in.\<close>

definition timer_list_delete :: "taddr \<Rightarrow> timer_state \<Rightarrow> timer_state" where
  "timer_list_delete t ts =
     (case tm_node (tmr ts t) of
        None \<Rightarrow> ts
      | Some c \<Rightarrow>
          ts\<lparr>timer_queue := (timer_queue ts)(c := remove1 t (timer_queue ts c)),
             tmr := (tmr ts)(t := (tmr ts t)\<lparr>tm_node := None\<rparr>)\<rparr>)"

definition peek_head :: "nat \<Rightarrow> timer_state \<Rightarrow> taddr option" where
  "peek_head cpu ts = (case timer_queue ts cpu of [] \<Rightarrow> None | t # _ \<Rightarrow> Some t)"

definition platform_set_oneshot_timer :: "nat \<Rightarrow> lk_time_t \<Rightarrow> timer_state \<Rightarrow> timer_state" where
  "platform_set_oneshot_timer cpu delay ts = ts\<lparr>hw_timer := (hw_timer ts)(cpu := Some delay)\<rparr>"

definition platform_stop_timer :: "nat \<Rightarrow> timer_state \<Rightarrow> timer_state" where
  "platform_stop_timer cpu ts = ts\<lparr>hw_timer := (hw_timer ts)(cpu := None)\<rparr>"

text \<open>
  \<^verbatim>\<open>timer_set\<close> on cpu \<open>cpu\<close> when \<^verbatim>\<open>current_time()\<close> is \<open>now\<close>; it panics if
  the timer is already queued.
\<close>

definition timer_set ::
  "nat \<Rightarrow> lk_time_t \<Rightarrow> taddr \<Rightarrow> lk_time_t \<Rightarrow> lk_time_t \<Rightarrow> timer_callback
   \<Rightarrow> timer_state \<Rightarrow> timer_state option" where
  "timer_set cpu now t delay period callback ts = do {
     ASSERT (tm_magic (tmr ts t) = TIMER_MAGIC);
     ASSERT (tm_node (tmr ts t) = None);
     let ts = ts\<lparr>tmr := (tmr ts)(t := (tmr ts t)
                \<lparr>tm_scheduled_time := now + delay, tm_periodic_time := period,
                 tm_callback := Some callback\<rparr>)\<rparr>;
     let ts = insert_timer_in_queue cpu t ts;
     Some (if peek_head cpu ts = Some t then platform_set_oneshot_timer cpu delay ts else ts)
   }"

definition timer_set_oneshot ::
  "nat \<Rightarrow> lk_time_t \<Rightarrow> taddr \<Rightarrow> lk_time_t \<Rightarrow> timer_callback \<Rightarrow> timer_state \<Rightarrow> timer_state option" where
  "timer_set_oneshot cpu now t delay callback ts =
     timer_set cpu now t (if delay = 0 then 1 else delay) 0 callback ts"

definition timer_set_periodic ::
  "nat \<Rightarrow> lk_time_t \<Rightarrow> taddr \<Rightarrow> lk_time_t \<Rightarrow> timer_callback \<Rightarrow> timer_state \<Rightarrow> timer_state option" where
  "timer_set_periodic cpu now t period callback ts =
     (let period = (if period = 0 then 1 else period)
      in timer_set cpu now t period period callback ts)"

definition timer_cancel ::
  "nat \<Rightarrow> lk_time_t \<Rightarrow> taddr \<Rightarrow> timer_state \<Rightarrow> timer_state option" where
  "timer_cancel cpu now t ts = do {
     ASSERT (tm_magic (tmr ts t) = TIMER_MAGIC);
     let oldhead = peek_head cpu ts;
     let ts = timer_list_delete t ts;
     let ts = ts\<lparr>tmr := (tmr ts)(t := (tmr ts t)\<lparr>tm_periodic_time := 0, tm_callback := None\<rparr>)\<rparr>;
     Some (case peek_head cpu ts of
             None \<Rightarrow> platform_stop_timer cpu ts
           | Some newhead \<Rightarrow>
               if Some newhead \<noteq> oldhead then
                 platform_set_oneshot_timer cpu
                   (if TIME_LT (sched_time ts newhead) now then 0
                    else sched_time ts newhead - now) ts
               else ts)
   }"

definition timer_init :: "timer_state \<Rightarrow> timer_state" where
  "timer_init ts = ts\<lparr>timer_queue := (\<lambda>_. [])\<rparr>"

section \<open>Well-formed queues\<close>

text \<open>
  A timer is in the queue of a cpu exactly when its node is linked there, at most once,
  and every queued timer is one that \<^verbatim>\<open>timer_set\<close> has filled in.
\<close>

definition timers_ok :: "timer_state \<Rightarrow> bool" where
  "timers_ok ts \<longleftrightarrow>
     (\<forall>c t. t \<in> set (timer_queue ts c) \<longleftrightarrow> tm_node (tmr ts t) = Some c) \<and>
     (\<forall>c. distinct (timer_queue ts c)) \<and>
     (\<forall>t. tm_node (tmr ts t) \<noteq> None \<longrightarrow>
        tm_magic (tmr ts t) = TIMER_MAGIC \<and> tm_callback (tmr ts t) \<noteq> None)"

lemma timers_okD:
  assumes "timers_ok ts"
  shows "t \<in> set (timer_queue ts c) \<longleftrightarrow> tm_node (tmr ts t) = Some c"
    and "distinct (timer_queue ts c)"
    and "tm_node (tmr ts t) \<noteq> None \<Longrightarrow> tm_magic (tmr ts t) = TIMER_MAGIC"
    and "tm_node (tmr ts t) \<noteq> None \<Longrightarrow> tm_callback (tmr ts t) \<noteq> None"
  using assms by (auto simp: timers_ok_def)

lemma set_insert_walk [simp]: "set (insert_walk sch t q) = insert t (set q)"
  by (induction q) auto

lemma distinct_insert_walk [simp]:
  "distinct (insert_walk sch t q) \<longleftrightarrow> distinct q \<and> t \<notin> set q"
  by (induction q) auto

lemma insert_walk_cong:
  "(\<And>e. e \<in> insert t (set q) \<Longrightarrow> sch e = sch' e) \<Longrightarrow> insert_walk sch t q = insert_walk sch' t q"
  by (induction q) auto

lemma timers_ok_initialize:
  "timers_ok ts \<Longrightarrow> tm_node (tmr ts t) = None \<Longrightarrow> timers_ok (timer_initialize t ts)"
  by (auto simp: timers_ok_def timer_initialize_def TIMER_INITIAL_VALUE_def)

lemma timers_ok_hw [simp]: "timers_ok (ts\<lparr>hw_timer := h\<rparr>) = timers_ok ts"
  by (simp add: timers_ok_def)

lemma timers_ok_insert:
  assumes "timers_ok ts" "tm_node (tmr ts t) = None" "tm_magic (tmr ts t) = TIMER_MAGIC"
    "tm_callback (tmr ts t) \<noteq> None"
  shows "timers_ok (insert_timer_in_queue cpu t ts)"
  using assms by (auto simp: timers_ok_def insert_timer_in_queue_def)

lemma timers_ok_delete: "timers_ok ts \<Longrightarrow> timers_ok (timer_list_delete t ts)"
  by (auto simp: timers_ok_def timer_list_delete_def split: option.splits)

lemma timer_list_delete_node [simp]: "tm_node (tmr (timer_list_delete t ts) t) = None"
  by (auto simp: timer_list_delete_def split: option.splits)

lemma timers_ok_update_unlinked:
  "timers_ok ts \<Longrightarrow> tm_node (tmr ts t) = None \<Longrightarrow> tm_node tm = None
   \<Longrightarrow> timers_ok (ts\<lparr>tmr := (tmr ts)(t := tm)\<rparr>)"
  by (auto simp: timers_ok_def)

lemma timer_set_ok:
  assumes "timers_ok ts" "tm_node (tmr ts t) = None" "tm_magic (tmr ts t) = TIMER_MAGIC"
  shows "\<exists>ts'. timer_set cpu now t delay period cb ts = Some ts' \<and> timers_ok ts' \<and>
           tmr ts' t = (tmr ts t)\<lparr>tm_node := Some cpu, tm_scheduled_time := now + delay,
             tm_periodic_time := period, tm_callback := Some cb\<rparr> \<and>
           (\<forall>u. u \<noteq> t \<longrightarrow> tmr ts' u = tmr ts u)"
proof -
  let ?ts = "ts\<lparr>tmr := (tmr ts)(t := (tmr ts t)\<lparr>tm_scheduled_time := now + delay,
     tm_periodic_time := period, tm_callback := Some cb\<rparr>)\<rparr>"
  have "timers_ok ?ts" using assms by (intro timers_ok_update_unlinked) auto
  then have "timers_ok (insert_timer_in_queue cpu t ?ts)"
    using assms by (intro timers_ok_insert) auto
  then show ?thesis
    using assms by (simp add: timer_set_def Let_def platform_set_oneshot_timer_def
        insert_timer_in_queue_def)
qed

lemma timer_cancel_ok:
  assumes "timers_ok ts" "tm_magic (tmr ts t) = TIMER_MAGIC"
  shows "\<exists>ts'. timer_cancel cpu now t ts = Some ts' \<and> timers_ok ts' \<and>
           tm_node (tmr ts' t) = None \<and> (\<forall>u. u \<noteq> t \<longrightarrow> tmr ts' u = tmr ts u) \<and>
           tm_magic (tmr ts' t) = TIMER_MAGIC \<and> tm_periodic_time (tmr ts' t) = 0"
proof -
  let ?d = "timer_list_delete t ts"
  let ?ts = "?d\<lparr>tmr := (tmr ?d)(t := (tmr ?d t)\<lparr>tm_periodic_time := 0, tm_callback := None\<rparr>)\<rparr>"
  have "timers_ok ?ts"
    using assms by (intro timers_ok_update_unlinked timers_ok_delete) auto
  moreover have "tmr ?d u = tmr ts u" if "u \<noteq> t" for u
    using that by (auto simp: timer_list_delete_def split: option.splits)
  moreover have "tm_magic (tmr ?d t) = TIMER_MAGIC"
    using assms(2) by (auto simp: timer_list_delete_def split: option.splits)
  ultimately show ?thesis
    using assms(2)
    by (auto simp: timer_cancel_def Let_def platform_stop_timer_def
        platform_set_oneshot_timer_def split: option.splits)
qed

section \<open>Expiry order across the wrap-around of the clock\<close>

text \<open>
  Times within a window of \<open>2 ^ 30\<close> ms (about twelve days) to either side of a base
  time are ordered by their signed distance from it, and that is the order
  \<^verbatim>\<open>TIME_GT\<close> decides, even when the 32-bit clock wraps inside the window.
\<close>

definition near :: "lk_time_t \<Rightarrow> lk_time_t \<Rightarrow> bool" where
  "near base x \<longleftrightarrow> \<bar>sint (x - base)\<bar> < 2 ^ 30"

definition rel :: "lk_time_t \<Rightarrow> lk_time_t \<Rightarrow> int" where
  "rel base x = sint (x - base)"

lemma sint_diff_near:
  assumes "near base a" "near base b"
  shows "sint (a - b) = rel base a - rel base b"
proof -
  have "a - b = (a - base) - (b - base)" by simp
  then have "sint (a - b) = signed_take_bit 31 (sint (a - base) - sint (b - base))"
    by (simp only: sint_word_ariths) simp
  also have "\<dots> = sint (a - base) - sint (b - base)"
    using assms by (intro signed_take_bit_int_eq_self) (auto simp: near_def)
  finally show ?thesis by (simp add: rel_def)
qed

lemma time_cmp_near:
  assumes "near base a" "near base b"
  shows "TIME_GT a b \<longleftrightarrow> rel base b < rel base a"
    and "TIME_LT a b \<longleftrightarrow> rel base a < rel base b"
    and "TIME_GTE a b \<longleftrightarrow> rel base b \<le> rel base a"
    and "TIME_LTE a b \<longleftrightarrow> rel base a \<le> rel base b"
  using sint_diff_near [OF assms]
  by (simp_all add: TIME_GT_def TIME_LT_def TIME_GTE_def TIME_LTE_def)

definition queue_sorted :: "lk_time_t \<Rightarrow> timer_state \<Rightarrow> nat \<Rightarrow> bool" where
  "queue_sorted base ts c \<longleftrightarrow>
     (\<forall>t \<in> set (timer_queue ts c). near base (sched_time ts t)) \<and>
     sorted (map (\<lambda>t. rel base (sched_time ts t)) (timer_queue ts c))"

lemma insert_walk_sorted:
  assumes "\<forall>e \<in> insert t (set q). near base (sch e)"
    and "sorted (map (\<lambda>e. rel base (sch e)) q)"
  shows "sorted (map (\<lambda>e. rel base (sch e)) (insert_walk sch t q))"
  using assms
  by (induction q) (auto simp: time_cmp_near [where base = base])

lemma queue_sorted_insert:
  assumes "queue_sorted base ts c" "near base (sched_time ts t)"
  shows "queue_sorted base (insert_timer_in_queue c t ts) c"
proof -
  let ?ts = "insert_timer_in_queue c t ts"
  have s: "sched_time ?ts u = sched_time ts u" for u
    by (auto simp: insert_timer_in_queue_def)
  have "timer_queue ?ts c = insert_walk (sched_time ts) t (timer_queue ts c)"
    by (simp add: insert_timer_in_queue_def)
  then show ?thesis
    using assms insert_walk_sorted [of t "timer_queue ts c" base "sched_time ts"]
    by (auto simp: queue_sorted_def s)
qed

lemma queue_sorted_cong:
  assumes "timer_queue ts' c = timer_queue ts c"
    and "\<And>t. t \<in> set (timer_queue ts c) \<Longrightarrow> sched_time ts' t = sched_time ts t"
  shows "queue_sorted base ts' c = queue_sorted base ts c"
proof -
  have "map (\<lambda>t. rel base (sched_time ts' t)) (timer_queue ts c) =
        map (\<lambda>t. rel base (sched_time ts t)) (timer_queue ts c)"
    using assms(2) by simp
  then show ?thesis using assms by (simp add: queue_sorted_def cong: map_cong)
qed

lemma sorted_map_remove1: "sorted (map f xs) \<Longrightarrow> sorted (map f (remove1 x xs))"
  by (induction xs) (auto dest: notin_set_remove1 set_remove1_subset [THEN subsetD])

lemma queue_sorted_delete:
  assumes "queue_sorted base ts c"
  shows "queue_sorted base (timer_list_delete t ts) c"
proof -
  have s: "sched_time (timer_list_delete t ts) u = sched_time ts u" for u
    by (auto simp: timer_list_delete_def split: option.splits)
  have "timer_queue (timer_list_delete t ts) c \<in> {timer_queue ts c, remove1 t (timer_queue ts c)}"
    by (auto simp: timer_list_delete_def split: option.splits)
  then show ?thesis
    using assms
    by (auto simp: queue_sorted_def s sorted_map_remove1 dest: set_remove1_subset [THEN subsetD])
qed

end
