(* ===== verification/Lib_Pow2.thy ===== *)
theory Lib_Pow2
  imports LK_Prelude
begin

text \<open>
  The power-of-two helpers of \<^verbatim>\<open>include/pow2.h\<close> on 32-bit unsigned integers, and
  the compiler builtin \<^verbatim>\<open>__builtin_clz\<close> they and the scheduler use.
\<close>

section \<open>Counting leading zeros\<close>

text \<open>
  \<open>clz_aux n w\<close> counts the zero bits of \<open>w\<close> from position \<open>n - 1\<close> downwards.
  \<^verbatim>\<open>__builtin_clz\<close> is undefined at 0, where every caller in the kernel guards it.
\<close>

primrec clz_aux :: "nat \<Rightarrow> u32 \<Rightarrow> nat" where
  "clz_aux 0 w = 0"
| "clz_aux (Suc n) w = (if bit w n then 0 else Suc (clz_aux n w))"

definition builtin_clz :: "u32 \<Rightarrow> nat" where
  "builtin_clz w = clz_aux 32 w"

lemma clz_aux_found:
  "i < n \<Longrightarrow> bit w i \<Longrightarrow> clz_aux n w < n \<and> bit w (n - Suc (clz_aux n w))"
  by (induction n) (auto simp: less_Suc_eq)

lemma clz_aux_above:
  "n - Suc (clz_aux n w) < j \<Longrightarrow> j < n \<Longrightarrow> \<not> bit w j"
proof (induction n)
  case 0
  then show ?case by simp
next
  case (Suc n)
  then show ?case
    by (cases "bit w n"; cases "j = n") auto
qed

definition highest_bit :: "u32 \<Rightarrow> nat" where
  "highest_bit w = 31 - builtin_clz w"

lemma highest_bit_set: "w \<noteq> 0 \<Longrightarrow> bit w (highest_bit w)"
proof -
  assume "w \<noteq> 0"
  then obtain i where "i < 32" "bit w i"
    by (auto simp: word_nonzero_bit)
  then show ?thesis
    using clz_aux_found [of i 32 w] by (simp add: highest_bit_def builtin_clz_def)
qed

lemma highest_bit_max: "bit w j \<Longrightarrow> j \<le> highest_bit w"
  using clz_aux_above [of 32 w j] bit_imp_le_length [of w j]
  by (force simp: highest_bit_def builtin_clz_def)

lemma highest_bit_less: "highest_bit w < 32"
  by (simp add: highest_bit_def)

lemma highest_bit_eqI: "bit w n \<Longrightarrow> (\<And>j. bit w j \<Longrightarrow> j \<le> n) \<Longrightarrow> highest_bit w = n"
proof -
  assume n: "bit w n" and max: "\<And>j. bit w j \<Longrightarrow> j \<le> n"
  from n have "w \<noteq> 0" by auto
  then have "highest_bit w \<le> n" by (rule max [OF highest_bit_set])
  with highest_bit_max [OF n] show ?thesis by simp
qed

section \<open>The helpers of pow2.h\<close>

definition ispow2 :: "u32 \<Rightarrow> bool" where
  "ispow2 val \<longleftrightarrow> (val - 1) AND val = 0"

definition log2_uint :: "u32 \<Rightarrow> nat" where
  "log2_uint val = (if val = 0 then 0 else 32 - 1 - builtin_clz val)"

definition valpow2 :: "nat \<Rightarrow> u32" where
  "valpow2 valp2 = push_bit valp2 1"

definition divpow2 :: "u32 \<Rightarrow> nat \<Rightarrow> u32" where
  "divpow2 val divp2 = drop_bit divp2 val"

definition modpow2 :: "u32 \<Rightarrow> nat \<Rightarrow> u32" where
  "modpow2 val modp2 = val AND (push_bit modp2 1 - 1)"

definition round_up_pow2_u32 :: "u32 \<Rightarrow> u32" where
  "round_up_pow2_u32 v =
     (let v = v - 1;
          v = v OR drop_bit 1 v;
          v = v OR drop_bit 2 v;
          v = v OR drop_bit 4 v;
          v = v OR drop_bit 8 v;
          v = v OR drop_bit 16 v
      in v + 1)"

section \<open>What they compute\<close>

lemma valpow2_eq: "valpow2 n = 2 ^ n"
  by (simp add: valpow2_def push_bit_eq_mult)

lemma unat_valpow2: "n < 32 \<Longrightarrow> unat (valpow2 n) = 2 ^ n"
  unfolding valpow2_def unsigned_push_bit_eq
  by (simp add: push_bit_eq_mult take_bit_nat_eq_self_iff)

lemma modpow2_eq_take_bit: "modpow2 v n = take_bit n v"
  by (simp add: modpow2_def take_bit_eq_mask mask_eq_exp_minus_1 push_bit_eq_mult)

lemma unat_modpow2: "unat (modpow2 v n) = unat v mod 2 ^ n"
  unfolding modpow2_eq_take_bit unsigned_take_bit_eq by (rule take_bit_eq_mod)

lemma unat_divpow2: "unat (divpow2 v n) = unat v div 2 ^ n"
  unfolding divpow2_def unat_drop_bit_eq by (rule drop_bit_eq_div)

lemma log2_uint_valpow2: "n < 32 \<Longrightarrow> log2_uint (valpow2 n) = n"
proof -
  assume "n < 32"
  then have n: "bit (valpow2 n) n" and u: "\<And>j. bit (valpow2 n) j \<Longrightarrow> j = n"
    by (auto simp: valpow2_def bit_simps)
  from n have "valpow2 n \<noteq> 0" by auto
  moreover have "highest_bit (valpow2 n) = n"
    using n u by (intro highest_bit_eqI) auto
  ultimately show ?thesis
    by (simp add: log2_uint_def highest_bit_def)
qed

lemma log2_uint_bounds:
  assumes "v \<noteq> 0"
  shows "2 ^ log2_uint v \<le> unat v \<and> unat v < 2 ^ Suc (log2_uint v)"
proof -
  let ?h = "highest_bit v"
  have h: "log2_uint v = ?h" using assms by (simp add: log2_uint_def highest_bit_def)
  have above: "\<not> bit (unat v) j" if "?h < j" for j
    using highest_bit_max [of v j] that by (auto simp: bit_unsigned_iff)
  have "drop_bit (Suc ?h) (unat v) = 0"
    by (rule bit_eqI) (simp add: bit_drop_bit_eq above)
  then have up: "unat v < 2 ^ Suc ?h"
    by (simp add: drop_bit_eq_div div_eq_0_iff del: power_Suc)
  have "bit (unat v) ?h"
    using highest_bit_set [OF assms] by (simp add: bit_unsigned_iff)
  then have "odd (unat v div 2 ^ ?h)" by (simp add: bit_iff_odd)
  then have "0 < unat v div 2 ^ ?h" by (rule odd_pos)
  then have "2 ^ ?h \<le> unat v" by (simp add: div_greater_zero_iff)
  with up show ?thesis by (simp add: h)
qed

section \<open>Rounding up to a power of two\<close>

text \<open>
  The five shift-and-or steps copy the highest set bit of \<open>v - 1\<close> to every lower
  position; \<open>smear m\<close> is one step.
\<close>

definition smear :: "nat \<Rightarrow> u32 \<Rightarrow> u32" where
  "smear m v = v OR drop_bit m v"

definition smeared :: "nat \<Rightarrow> u32 \<Rightarrow> u32 \<Rightarrow> bool" where
  "smeared m w v \<longleftrightarrow> (\<forall>i. bit v i \<longleftrightarrow> (\<exists>j. i \<le> j \<and> j < i + m \<and> bit w j))"

lemma smeared_1: "smeared 1 w w"
  by (auto simp: smeared_def less_Suc_eq_le dest: le_antisym)

lemma smeared_step: "smeared m w v \<Longrightarrow> n = 2 * m \<Longrightarrow> smeared n w (smear m v)"
  unfolding smeared_def
proof (intro allI iffI)
  fix i
  assume v: "\<forall>i. bit v i \<longleftrightarrow> (\<exists>j. i \<le> j \<and> j < i + m \<and> bit w j)" and n: "n = 2 * m"
  have *: "bit (smear m v) i \<longleftrightarrow> bit v i \<or> bit v (m + i)"
    by (simp add: smear_def bit_or_iff bit_drop_bit_eq)
  { assume "bit (smear m v) i"
    then obtain j where "i \<le> j \<and> j < i + m \<or> m + i \<le> j \<and> j < m + i + m" "bit w j"
      unfolding * v [rule_format] by blast
    then show "\<exists>j. i \<le> j \<and> j < i + n \<and> bit w j" by (intro exI [of _ j]) (auto simp: n) }
  { assume "\<exists>j. i \<le> j \<and> j < i + n \<and> bit w j"
    then obtain j where "i \<le> j" "j < i + n" "bit w j" by blast
    then show "bit (smear m v) i"
      by (cases "j < i + m") (auto simp: * v [rule_format] n) }
qed

lemma smeared_32:
  assumes "w \<noteq> 0" "smeared 32 w v"
  shows "v = mask (Suc (highest_bit w))"
proof (rule bit_word_eqI)
  fix i
  have "\<exists>j. i \<le> j \<and> j < i + 32 \<and> bit w j" if "i \<le> highest_bit w"
    using that highest_bit_set [OF assms(1)] highest_bit_less [of w] by fastforce
  then have "bit v i \<longleftrightarrow> i \<le> highest_bit w"
    using assms(2) highest_bit_max [of w] by (auto simp: smeared_def dest: le_trans)
  then show "bit v i \<longleftrightarrow> bit (mask (Suc (highest_bit w)) :: u32) i"
    using highest_bit_less [of w] by (auto simp: bit_mask_iff)
qed

lemma round_up_pow2_u32_eq:
  assumes "1 < v"
  shows "round_up_pow2_u32 v = valpow2 (Suc (log2_uint (v - 1)))"
proof -
  have nz: "v - 1 \<noteq> 0" using assms by auto
  have "smeared 32 (v - 1) (smear 16 (smear 8 (smear 4 (smear 2 (smear 1 (v - 1))))))"
    by (intro smeared_step smeared_1) simp_all
  from smeared_32 [OF nz this]
  have "round_up_pow2_u32 v = mask (Suc (highest_bit (v - 1))) + 1"
    by (simp only: round_up_pow2_u32_def Let_def smear_def)
  with nz show ?thesis
    by (simp add: log2_uint_def highest_bit_def valpow2_eq mask_eq_exp_minus_1)
qed

lemma ispow2_valpow2: "ispow2 (valpow2 n)"
proof -
  have "(valpow2 n - 1) AND valpow2 n = 0"
    by (rule bit_word_eqI) (auto simp: valpow2_eq bit_and_iff bit_exp_iff bit_mask_iff
        simp flip: mask_eq_exp_minus_1)
  then show ?thesis by (simp add: ispow2_def)
qed

lemma log2_uint_less: "v \<noteq> 0 \<Longrightarrow> log2_uint v < 32"
  using highest_bit_less [of v] by (simp add: log2_uint_def highest_bit_def)

lemma round_up_pow2_u32_big: "2 ^ 31 < v \<Longrightarrow> round_up_pow2_u32 v = 0"
proof -
  assume v: "2 ^ 31 < v"
  have u: "2 ^ 31 < unat v" using v by (simp add: word_less_nat_alt)
  then have w: "1 < v" by (simp add: word_less_nat_alt)
  then have "v \<noteq> 0" and nz: "v - 1 \<noteq> 0" by auto
  then have uv: "unat (v - 1) = unat v - 1" by (simp add: unat_minus_one)
  have "unat (v - 1) < 2 ^ Suc (log2_uint (v - 1))" using log2_uint_bounds [OF nz] by blast
  with u uv have "2 ^ 31 < (2 :: nat) ^ Suc (log2_uint (v - 1))" by linarith
  then have "31 < Suc (log2_uint (v - 1))" by (rule power_less_imp_less_exp [rotated]) simp
  then have "log2_uint (v - 1) = 31" using log2_uint_less [OF nz] by simp
  then show ?thesis by (simp add: round_up_pow2_u32_eq [OF w] valpow2_eq)
qed

lemma round_up_pow2_u32_small:
  assumes "0 < v" "v \<le> 2 ^ 31"
  shows "\<exists>n < 32. round_up_pow2_u32 v = valpow2 n \<and> unat v \<le> 2 ^ n \<and> (\<forall>m < n. 2 ^ m < unat v)"
proof (cases "v = 1")
  case True
  then show ?thesis by (intro exI [of _ 0]) (simp add: round_up_pow2_u32_def valpow2_def)
next
  case False
  have "unat v \<noteq> 0" "unat v \<noteq> 1" using assms(1) False by (auto simp: unat_eq_zero) (metis unat_1 unsigned_word_eqI One_nat_def)
  then have w: "1 < v" by (simp add: word_less_nat_alt)
  have u: "unat v \<le> 2 ^ 31" using assms(2) by (simp add: word_le_nat_alt)
  from w have "v \<noteq> 0" and nz: "v - 1 \<noteq> 0" by auto
  then have uv: "unat (v - 1) = unat v - 1" and p: "0 < unat v"
    by (simp_all add: unat_minus_one unat_gt_0)
  note b = log2_uint_bounds [OF nz]
  let ?n = "Suc (log2_uint (v - 1))"
  have "(2 :: nat) ^ log2_uint (v - 1) < 2 ^ 31" using b u uv p by linarith
  then have "?n < 32" by (simp only: power_strict_increasing_iff)
  moreover have "unat v \<le> 2 ^ ?n" using b uv p by linarith
  moreover have "2 ^ m < unat v" if "m < ?n" for m
  proof -
    have "(2 :: nat) ^ m \<le> 2 ^ log2_uint (v - 1)" using that by (intro power_increasing) auto
    then show ?thesis using b uv p by linarith
  qed
  ultimately show ?thesis using round_up_pow2_u32_eq [OF w] by blast
qed

text \<open>Indices into a ring of a power of two of elements advance modulo its size.\<close>

lemma pow2_dvd_32: "n < 32 \<Longrightarrow> (2 :: nat) ^ n dvd 2 ^ 32"
  by (rule le_imp_power_dvd) simp

lemma unat_modpow2_add:
  assumes "n < 32"
  shows "unat (modpow2 (p + of_nat i) n) = (unat p + i) mod 2 ^ n"
proof -
  have "unat (p + of_nat i) mod 2 ^ n = (unat p + i) mod 2 ^ 32 mod 2 ^ n"
    by (simp add: unat_word_ariths unat_of_nat mod_add_right_eq)
  also have "\<dots> = (unat p + i) mod 2 ^ n" by (rule mod_mod_cancel [OF pow2_dvd_32 [OF assms]])
  finally show ?thesis by (simp add: unat_modpow2)
qed

text \<open>
  C11 Rounding up to a power of two gives the least power of two that is not below the
  argument, for every nonzero argument up to two to the thirty-one; above that it wraps to
  zero.
\<close>

theorem round_up_pow2_least:
  assumes "0 < v"
  shows "if v \<le> 2 ^ 31
         then ispow2 (round_up_pow2_u32 v) \<and> v \<le> round_up_pow2_u32 v \<and>
              (\<forall>n < 32. v \<le> valpow2 n \<longrightarrow> round_up_pow2_u32 v \<le> valpow2 n)
         else round_up_pow2_u32 v = 0"
proof (cases "v \<le> 2 ^ 31")
  case True
  from round_up_pow2_u32_small [OF assms True] obtain n where
    n: "n < 32" "round_up_pow2_u32 v = valpow2 n" "unat v \<le> 2 ^ n" "\<forall>m < n. 2 ^ m < unat v" by blast
  have "valpow2 n \<le> valpow2 m" if "m < 32" "v \<le> valpow2 m" for m
  proof -
    have "unat v \<le> 2 ^ m" using that by (simp add: word_le_nat_alt unat_valpow2)
    then have "n \<le> m" using n(4) by (metis leD leI)
    then show ?thesis using that n(1) by (simp add: word_le_nat_alt unat_valpow2 power_increasing)
  qed
  with n True show ?thesis by (simp add: ispow2_valpow2 word_le_nat_alt unat_valpow2)
next
  case False
  then have "round_up_pow2_u32 v = 0" by (intro round_up_pow2_u32_big) (simp only: not_le)
  with False show ?thesis by (simp only: if_False)
qed

theorem round_up_pow2_least_witness:
  "ispow2 (round_up_pow2_u32 1000) \<and> (1000 :: u32) \<le> round_up_pow2_u32 1000 \<and> round_up_pow2_u32 1000 = 1024"
  using round_up_pow2_least [of 1000] by (simp add: round_up_pow2_u32_def)

end

