(* ===== verification/Kernel_Thread.thy ===== *)
theory Kernel_Thread
  imports Kernel_Timer Lib_Pow2
begin

text \<open>
  Threads, the run queues and the scheduler (\<^verbatim>\<open>kernel/thread.c\<close> up to the wait
  queues, \<^verbatim>\<open>include/kernel/thread.h\<close>) and the inter-processor state of
  \<^verbatim>\<open>kernel/mp.c\<close>: the data model and every operation, as state transformers in
  the option monad. The configuration is that of an SMP debug build with kernel VM
  (\<^verbatim>\<open>WITH_SMP\<close>, \<^verbatim>\<open>LK_DEBUGLEVEL\<close> 2, \<^verbatim>\<open>WITH_KERNEL_VM\<close>,
  \<^verbatim>\<open>PLATFORM_HAS_DYNAMIC_TIMER\<close>).

  An operation runs with interrupts off and the thread lock held, so it is one atomic
  transformer of the kernel state; the assertions that the lock is held have no counterpart.
  Where the source gives the lock up in the middle (\<^verbatim>\<open>thread_resume\<close> before it yields,
  \<^verbatim>\<open>thread_detach\<close> before it joins a dead thread) the operation is still one step.
  Counters, priorities and return codes, \<^verbatim>\<open>int\<close> in the source, are unbounded integers
  here, and the size of a stack is a natural number: none of them comes near its limits
  (there are fewer threads than 2^31, and priorities are clamped).
  An operation that calls \<^verbatim>\<open>thread_resched\<close> ends, on the cpu it ran on, with
  another thread current. What the source does after the call, when the thread is scheduled
  again, is a second operation that the thread runs then (\<open>wait_queue_block_exit\<close>,
  \<open>thread_join_finish\<close> and so on).
\<close>

section \<open>Data\<close>

datatype thread_state =
  THREAD_SUSPENDED | THREAD_READY | THREAD_RUNNING | THREAD_BLOCKED | THREAD_SLEEPING | THREAD_DEATH

text \<open>
  The \<^verbatim>\<open>queue_node\<close> of a thread: cleared, or linked in a run queue or in the list
  of a wait queue.
\<close>

datatype queue_loc = Unlinked | RunQ nat | WaitQ wqaddr

definition THREAD_FLAG_DETACHED :: u32 where [lk_defs]: "THREAD_FLAG_DETACHED = 1"
definition THREAD_FLAG_FREE_STACK :: u32 where [lk_defs]: "THREAD_FLAG_FREE_STACK = 2"
definition THREAD_FLAG_FREE_STRUCT :: u32 where [lk_defs]: "THREAD_FLAG_FREE_STRUCT = 4"
definition THREAD_FLAG_REAL_TIME :: u32 where [lk_defs]: "THREAD_FLAG_REAL_TIME = 8"
definition THREAD_FLAG_IDLE :: u32 where [lk_defs]: "THREAD_FLAG_IDLE = 16"
definition THREAD_FLAG_DEBUG_STACK_BOUNDS_CHECK :: u32 where
  [lk_defs]: "THREAD_FLAG_DEBUG_STACK_BOUNDS_CHECK = 32"

definition THREAD_MAGIC :: u32 where [lk_defs]: "THREAD_MAGIC = 0x74687264"
definition WAIT_QUEUE_MAGIC :: u32 where [lk_defs]: "WAIT_QUEUE_MAGIC = 0x77616974"
definition STACK_DEBUG_WORD :: u32 where [lk_defs]: "STACK_DEBUG_WORD = 0x99999999"
definition THREAD_STACK_PADDING_SIZE :: nat where [lk_defs]: "THREAD_STACK_PADDING_SIZE = 256"

definition NUM_PRIORITIES :: int where [lk_defs]: "NUM_PRIORITIES = 32"
definition LOWEST_PRIORITY :: int where [lk_defs]: "LOWEST_PRIORITY = 0"
definition HIGHEST_PRIORITY :: int where [lk_defs]: "HIGHEST_PRIORITY = NUM_PRIORITIES - 1"
definition IDLE_PRIORITY :: int where [lk_defs]: "IDLE_PRIORITY = LOWEST_PRIORITY"
definition DEFAULT_PRIORITY :: int where [lk_defs]: "DEFAULT_PRIORITY = NUM_PRIORITIES div 2"

text \<open>
  \<open>t_stack_pad\<close> is the guard area at the low end of the stack, as 32-bit words; the
  rest of the stack and the saved registers belong to the architecture.
\<close>

record thread =
  t_magic :: u32
  t_queue_node :: queue_loc
  t_priority :: int
  t_state :: thread_state
  t_remaining_quantum :: int
  t_flags :: u32
  t_curr_cpu :: int
  t_pinned_cpu :: int
  t_aspace :: "nat option"
  t_blocking_wait_queue :: "wqaddr option"
  t_wait_queue_block_ret :: status_t
  t_stack :: "nat option"
  t_stack_size :: nat
  t_stack_pad :: "u32 list"
  t_entry :: nat
  t_arg :: nat
  t_retcode :: int
  t_tls :: "nat list"
  t_name :: string

record wait_queue =
  wq_magic :: u32
  wq_list :: "tid list"
  wq_count :: int

text \<open>The state of \<^verbatim>\<open>kernel/mp.c\<close>; \<open>mp_ipis\<close> are the reschedule interrupts sent.\<close>

record mp_state =
  active_cpus :: u32
  idle_cpus :: u32
  realtime_cpus :: u32
  mp_ipis :: u32

record thread_stats =
  idle_time :: u64
  last_idle_timestamp :: u64
  reschedules :: u64
  context_switches :: u64
  preempts :: u64
  yields :: u64
  timer_ints :: u64
  timers_run :: u64
  reschedule_ipis :: u64

datatype heap_op = Free_stack nat | Free_thread tid | Delayed_free_stack nat | Delayed_free_thread tid

text \<open>
  The kernel: thread structures, the global thread list, the run queues with their bitmap,
  the thread each cpu runs, wait queues, timers, the clock, inter-processor state,
  statistics, the address space each cpu has loaded and the frees handed to the heap.
\<close>

record kstate =
  thr :: "tid \<Rightarrow> thread"
  thread_list :: "tid list"
  run_queue :: "nat \<Rightarrow> tid list"
  run_queue_bitmap :: u32
  current :: "nat \<Rightarrow> tid option"
  wqs :: "wqaddr \<Rightarrow> wait_queue"
  tims :: timer_state
  clock :: lk_time_t
  clock_hires :: u64
  mp :: mp_state
  stats :: "nat \<Rightarrow> thread_stats"
  mmu_aspace :: "nat \<Rightarrow> nat option"
  heap_log :: "heap_op list"

definition has_flag :: "u32 \<Rightarrow> thread \<Rightarrow> bool" where
  "has_flag f t \<longleftrightarrow> t_flags t AND f \<noteq> 0"

definition upd_thread :: "tid \<Rightarrow> (thread \<Rightarrow> thread) \<Rightarrow> kstate \<Rightarrow> kstate" where
  "upd_thread t f k = k\<lparr>thr := (thr k)(t := f (thr k t))\<rparr>"

definition upd_wq :: "wqaddr \<Rightarrow> (wait_queue \<Rightarrow> wait_queue) \<Rightarrow> kstate \<Rightarrow> kstate" where
  "upd_wq w f k = k\<lparr>wqs := (wqs k)(w := f (wqs k w))\<rparr>"

definition upd_stats :: "nat \<Rightarrow> (thread_stats \<Rightarrow> thread_stats) \<Rightarrow> kstate \<Rightarrow> kstate" where
  "upd_stats cpu f k = k\<lparr>stats := (stats k)(cpu := f (stats k cpu))\<rparr>"

definition WAIT_QUEUE_INITIAL_VALUE :: wait_queue where
  "WAIT_QUEUE_INITIAL_VALUE = \<lparr>wq_magic = WAIT_QUEUE_MAGIC, wq_list = [], wq_count = 0\<rparr>"

definition wait_queue_init :: "wqaddr \<Rightarrow> kstate \<Rightarrow> kstate" where
  "wait_queue_init w k = upd_wq w (\<lambda>_. WAIT_QUEUE_INITIAL_VALUE) k"

text \<open>An operation that may block its caller either returns a value or blocks.\<close>

datatype 'a outcome = Returns 'a | Blocks

section \<open>Inter-processor state: kernel/mp.c\<close>

definition MP_CPU_ALL_BUT_LOCAL :: u32 where [lk_defs]: "MP_CPU_ALL_BUT_LOCAL = 0xFFFFFFFF"
definition MP_RESCHEDULE_FLAG_REALTIME :: u32 where [lk_defs]: "MP_RESCHEDULE_FLAG_REALTIME = 1"

definition mp_target :: "nat \<Rightarrow> u32 \<Rightarrow> u32 \<Rightarrow> mp_state \<Rightarrow> u32" where
  "mp_target local_cpu target flags m =
     (let target = target AND active_cpus m;
          target = (if flags AND MP_RESCHEDULE_FLAG_REALTIME = 0
                    then target AND NOT (realtime_cpus m) else target)
      in bit_clear local_cpu target)"

definition mp_reschedule :: "nat \<Rightarrow> u32 \<Rightarrow> u32 \<Rightarrow> kstate \<Rightarrow> kstate" where
  "mp_reschedule local_cpu target flags k =
     k\<lparr>mp := (mp k)\<lparr>mp_ipis := mp_ipis (mp k) OR mp_target local_cpu target flags (mp k)\<rparr>\<rparr>"

definition mp_set_curr_cpu_active :: "nat \<Rightarrow> bool \<Rightarrow> kstate \<Rightarrow> kstate" where
  "mp_set_curr_cpu_active cpu active k =
     k\<lparr>mp := (mp k)\<lparr>active_cpus := bit_set cpu (active_cpus (mp k))\<rparr>\<rparr>"

definition mp_mbx_reschedule_irq :: "nat \<Rightarrow> kstate \<Rightarrow> kstate \<times> handler_return" where
  "mp_mbx_reschedule_irq cpu k =
     (upd_stats cpu (\<lambda>s. s\<lparr>reschedule_ipis := reschedule_ipis s + 1\<rparr>) k,
      if bit (active_cpus (mp k)) cpu then INT_RESCHEDULE else INT_NO_RESCHEDULE)"

definition mp_set_cpu_idle :: "nat \<Rightarrow> kstate \<Rightarrow> kstate" where
  "mp_set_cpu_idle cpu k = k\<lparr>mp := (mp k)\<lparr>idle_cpus := bit_set cpu (idle_cpus (mp k))\<rparr>\<rparr>"

definition mp_set_cpu_busy :: "nat \<Rightarrow> kstate \<Rightarrow> kstate" where
  "mp_set_cpu_busy cpu k = k\<lparr>mp := (mp k)\<lparr>idle_cpus := bit_clear cpu (idle_cpus (mp k))\<rparr>\<rparr>"

definition mp_set_cpu_realtime :: "nat \<Rightarrow> kstate \<Rightarrow> kstate" where
  "mp_set_cpu_realtime cpu k =
     k\<lparr>mp := (mp k)\<lparr>realtime_cpus := bit_set cpu (realtime_cpus (mp k))\<rparr>\<rparr>"

definition mp_set_cpu_non_realtime :: "nat \<Rightarrow> kstate \<Rightarrow> kstate" where
  "mp_set_cpu_non_realtime cpu k =
     k\<lparr>mp := (mp k)\<lparr>realtime_cpus := bit_clear cpu (realtime_cpus (mp k))\<rparr>\<rparr>"

section \<open>Run queue manipulation\<close>

text \<open>
  A priority outside \<open>0 ..< 32\<close> would index \<^verbatim>\<open>run_queue\<close> out of its bounds; like a
  failed assertion, that is no continuation the model gives a meaning to.
\<close>

definition run_queue_insertable :: "tid \<Rightarrow> kstate \<Rightarrow> bool" where
  "run_queue_insertable t k \<longleftrightarrow>
     t_magic (thr k t) = THREAD_MAGIC \<and> t_state (thr k t) = THREAD_READY \<and>
     t_queue_node (thr k t) = Unlinked \<and>
     0 \<le> t_priority (thr k t) \<and> t_priority (thr k t) < NUM_PRIORITIES"

definition insert_in_run_queue_head :: "tid \<Rightarrow> kstate \<Rightarrow> kstate option" where
  "insert_in_run_queue_head t k = do {
     ASSERT (run_queue_insertable t k);
     let p = nat (t_priority (thr k t));
     Some (upd_thread t (\<lambda>th. th\<lparr>t_queue_node := RunQ p\<rparr>)
       (k\<lparr>run_queue := (run_queue k)(p := t # run_queue k p),
          run_queue_bitmap := bit_set p (run_queue_bitmap k)\<rparr>))
   }"

definition insert_in_run_queue_tail :: "tid \<Rightarrow> kstate \<Rightarrow> kstate option" where
  "insert_in_run_queue_tail t k = do {
     ASSERT (run_queue_insertable t k);
     let p = nat (t_priority (thr k t));
     Some (upd_thread t (\<lambda>th. th\<lparr>t_queue_node := RunQ p\<rparr>)
       (k\<lparr>run_queue := (run_queue k)(p := run_queue k p @ [t]),
          run_queue_bitmap := bit_set p (run_queue_bitmap k)\<rparr>))
   }"

definition init_thread_struct :: "string \<Rightarrow> thread" where
  "init_thread_struct nm =
     \<lparr>t_magic = THREAD_MAGIC, t_queue_node = Unlinked, t_priority = 0,
      t_state = THREAD_SUSPENDED, t_remaining_quantum = 0, t_flags = 0, t_curr_cpu = 0,
      t_pinned_cpu = -1, t_aspace = None, t_blocking_wait_queue = None,
      t_wait_queue_block_ret = 0, t_stack = None, t_stack_size = 0, t_stack_pad = [],
      t_entry = 0, t_arg = 0, t_retcode = 0, t_tls = [], t_name = take 31 nm\<rparr>"

definition thread_is_realtime :: "thread \<Rightarrow> bool" where
  "thread_is_realtime t \<longleftrightarrow> has_flag THREAD_FLAG_REAL_TIME t \<and> t_priority t > DEFAULT_PRIORITY"

definition thread_is_idle :: "thread \<Rightarrow> bool" where
  "thread_is_idle t \<longleftrightarrow> has_flag THREAD_FLAG_IDLE t"

definition thread_is_real_time_or_idle :: "thread \<Rightarrow> bool" where
  "thread_is_real_time_or_idle t \<longleftrightarrow> has_flag (THREAD_FLAG_REAL_TIME OR THREAD_FLAG_IDLE) t"

section \<open>The scheduler\<close>

definition eligible :: "nat \<Rightarrow> kstate \<Rightarrow> tid \<Rightarrow> bool" where
  "eligible cpu k t \<longleftrightarrow> t_pinned_cpu (thr k t) < 0 \<or> t_pinned_cpu (thr k t) = int cpu"

text \<open>Unlink a thread from a run queue and keep the bitmap in step.\<close>

definition run_queue_take :: "nat \<Rightarrow> tid \<Rightarrow> kstate \<Rightarrow> kstate" where
  "run_queue_take q t k =
     (let rest = remove1 t (run_queue k q)
      in upd_thread t (\<lambda>th. th\<lparr>t_queue_node := Unlinked\<rparr>)
           (k\<lparr>run_queue := (run_queue k)(q := rest),
              run_queue_bitmap := (if rest = [] then bit_clear q (run_queue_bitmap k)
                                   else run_queue_bitmap k)\<rparr>))"

text \<open>
  The loop of \<^verbatim>\<open>get_top_thread\<close> over the remaining bits of the local bitmap: in
  the highest queue the first thread that may run on this cpu, or the next lower queue.
\<close>

function get_top_thread_loop :: "nat \<Rightarrow> kstate \<Rightarrow> u32 \<Rightarrow> tid \<times> kstate" where
  "get_top_thread_loop cpu k bitmap =
     (if bitmap = 0 then (Idle cpu, k)
      else (let next_queue = 32 - 1 - builtin_clz bitmap
            in case find (eligible cpu k) (run_queue k next_queue) of
                 Some t \<Rightarrow> (t, run_queue_take next_queue t k)
               | None \<Rightarrow> get_top_thread_loop cpu k (bit_clear next_queue bitmap)))"
  by pat_completeness auto
termination
proof (relation "measure (\<lambda>(cpu, k, b). unat b)")
  fix cpu :: nat and k :: kstate and b :: u32 and q
  assume "b \<noteq> 0" "q = 32 - 1 - builtin_clz b"
  then show "((cpu, k, bit_clear q b), (cpu, k, b)) \<in> measure (\<lambda>(cpu, k, b). unat b)"
    using highest_bit_set [of b] by (simp add: highest_bit_def unat_bit_clear_less)
qed simp

declare get_top_thread_loop.simps [simp del]

definition get_top_thread :: "nat \<Rightarrow> kstate \<Rightarrow> tid \<times> kstate" where
  "get_top_thread cpu k = get_top_thread_loop cpu k (run_queue_bitmap k)"

definition stack_guard_intact :: "thread \<Rightarrow> bool" where
  "stack_guard_intact t \<longleftrightarrow>
     has_flag THREAD_FLAG_DEBUG_STACK_BOUNDS_CHECK t \<longrightarrow>
     list_all (\<lambda>w. w = STACK_DEBUG_WORD) (t_stack_pad t)"

text \<open>The idle-time bookkeeping of a context switch.\<close>

definition switch_stats :: "nat \<Rightarrow> tid \<Rightarrow> tid \<Rightarrow> kstate \<Rightarrow> kstate" where
  "switch_stats cpu oldthread newthread k =
     (let k = upd_stats cpu (\<lambda>s. s\<lparr>context_switches := context_switches s + 1\<rparr>) k;
          k = (if thread_is_idle (thr k oldthread)
               then upd_stats cpu (\<lambda>s. s\<lparr>idle_time := idle_time s +
                      (clock_hires k - last_idle_timestamp s)\<rparr>) k else k)
      in if thread_is_idle (thr k newthread)
         then upd_stats cpu (\<lambda>s. s\<lparr>last_idle_timestamp := clock_hires k\<rparr>) k else k)"

text \<open>The cpu masks a context switch maintains.\<close>

definition switch_mp :: "nat \<Rightarrow> tid \<Rightarrow> kstate \<Rightarrow> kstate" where
  "switch_mp cpu newthread k =
     (let k = (if thread_is_idle (thr k newthread) then mp_set_cpu_idle cpu k
               else mp_set_cpu_busy cpu k)
      in if thread_is_realtime (thr k newthread) then mp_set_cpu_realtime cpu k
         else mp_set_cpu_non_realtime cpu k)"

text \<open>
  The preemption timer: stopped on the way from a regular thread to a real-time or idle
  one, started on the way back.
\<close>

definition switch_preempt_timer ::
  "nat \<Rightarrow> lk_time_t \<Rightarrow> bool \<Rightarrow> bool \<Rightarrow> timer_state \<Rightarrow> timer_state option" where
  "switch_preempt_timer cpu now old_rt new_rt ts =
     (if new_rt then
        if \<not> old_rt then timer_cancel cpu now (PreemptTimer cpu) ts else Some ts
      else if old_rt then timer_set_periodic cpu now (PreemptTimer cpu) 10 thread_timer_tick_cb ts
      else Some ts)"

text \<open>The bookkeeping of a switch between two different threads, before the timer and the stack check.\<close>

definition pre_switch :: "nat \<Rightarrow> tid \<Rightarrow> tid \<Rightarrow> kstate \<Rightarrow> kstate" where
  "pre_switch cpu oldthread newthread k =
     (let k = upd_thread newthread (\<lambda>th. if t_remaining_quantum th \<le> 0
                then th\<lparr>t_remaining_quantum := 5\<rparr> else th) k;
          k = upd_thread oldthread (\<lambda>th. th\<lparr>t_curr_cpu := -1\<rparr>) k;
          k = upd_thread newthread (\<lambda>th. th\<lparr>t_curr_cpu := int cpu\<rparr>) k;
          k = switch_mp cpu newthread k
      in switch_stats cpu oldthread newthread k)"

definition context_switch :: "nat \<Rightarrow> tid \<Rightarrow> tid \<Rightarrow> kstate \<Rightarrow> kstate option" where
  "context_switch cpu oldthread newthread k = do {
     let k = pre_switch cpu oldthread newthread k;
     ts \<leftarrow> switch_preempt_timer cpu (clock k) (thread_is_real_time_or_idle (thr k oldthread))
            (thread_is_real_time_or_idle (thr k newthread)) (tims k);
     let k = k\<lparr>tims := ts, current := (current k)(cpu \<mapsto> newthread)\<rparr>;
     ASSERT (stack_guard_intact (thr k oldthread));
     Some (if t_aspace (thr k newthread) \<noteq> t_aspace (thr k oldthread)
           then k\<lparr>mmu_aspace := (mmu_aspace k)(cpu := t_aspace (thr k newthread))\<rparr> else k)
   }"

definition thread_resched :: "nat \<Rightarrow> kstate \<Rightarrow> kstate option" where
  "thread_resched cpu k = do {
     oldthread \<leftarrow> current k cpu;
     ASSERT (t_state (thr k oldthread) \<noteq> THREAD_RUNNING);
     let k = upd_stats cpu (\<lambda>s. s\<lparr>reschedules := reschedules s + 1\<rparr>) k;
     let (newthread, k) = get_top_thread cpu k;
     let k = upd_thread newthread (\<lambda>th. th\<lparr>t_state := THREAD_RUNNING\<rparr>) k;
     if newthread = oldthread then Some k else context_switch cpu oldthread newthread k
   }"

definition thread_yield :: "nat \<Rightarrow> kstate \<Rightarrow> kstate option" where
  "thread_yield cpu k = do {
     t \<leftarrow> current k cpu;
     ASSERT (t_magic (thr k t) = THREAD_MAGIC);
     ASSERT (t_state (thr k t) = THREAD_RUNNING);
     let k = upd_stats cpu (\<lambda>s. s\<lparr>yields := yields s + 1\<rparr>) k;
     let k = upd_thread t (\<lambda>th. th\<lparr>t_state := THREAD_READY, t_remaining_quantum := 0\<rparr>) k;
     k \<leftarrow> (if \<not> thread_is_idle (thr k t) then insert_in_run_queue_tail t k else Some k);
     thread_resched cpu k
   }"

definition thread_preempt :: "nat \<Rightarrow> kstate \<Rightarrow> kstate option" where
  "thread_preempt cpu k = do {
     t \<leftarrow> current k cpu;
     ASSERT (t_magic (thr k t) = THREAD_MAGIC);
     ASSERT (t_state (thr k t) = THREAD_RUNNING);
     let k = (if \<not> thread_is_idle (thr k t)
              then upd_stats cpu (\<lambda>s. s\<lparr>preempts := preempts s + 1\<rparr>) k else k);
     let k = upd_thread t (\<lambda>th. th\<lparr>t_state := THREAD_READY\<rparr>) k;
     k \<leftarrow> (if \<not> thread_is_idle (thr k t)
           then if t_remaining_quantum (thr k t) > 0
                then insert_in_run_queue_head t k else insert_in_run_queue_tail t k
           else Some k);
     thread_resched cpu k
   }"

definition thread_block :: "nat \<Rightarrow> kstate \<Rightarrow> kstate option" where
  "thread_block cpu k = do {
     t \<leftarrow> current k cpu;
     ASSERT (t_magic (thr k t) = THREAD_MAGIC);
     ASSERT (t_state (thr k t) = THREAD_BLOCKED);
     ASSERT (\<not> thread_is_idle (thr k t));
     thread_resched cpu k
   }"

definition thread_unblock :: "nat \<Rightarrow> tid \<Rightarrow> bool \<Rightarrow> kstate \<Rightarrow> kstate option" where
  "thread_unblock cpu t resched k = do {
     ASSERT (t_magic (thr k t) = THREAD_MAGIC);
     ASSERT (t_state (thr k t) = THREAD_BLOCKED);
     ASSERT (\<not> thread_is_idle (thr k t));
     let k = upd_thread t (\<lambda>th. th\<lparr>t_state := THREAD_READY\<rparr>) k;
     k \<leftarrow> insert_in_run_queue_head t k;
     let k = mp_reschedule cpu MP_CPU_ALL_BUT_LOCAL 0 k;
     if resched then thread_resched cpu k else Some k
   }"

definition thread_timer_tick :: "nat \<Rightarrow> kstate \<Rightarrow> (kstate \<times> handler_return) option" where
  "thread_timer_tick cpu k = do {
     t \<leftarrow> current k cpu;
     if thread_is_real_time_or_idle (thr k t) then Some (k, INT_NO_RESCHEDULE)
     else do {
       let k = upd_thread t (\<lambda>th. th\<lparr>t_remaining_quantum := t_remaining_quantum th - 1\<rparr>) k;
       Some (k, if t_remaining_quantum (thr k t) \<le> 0 then INT_RESCHEDULE else INT_NO_RESCHEDULE)
     }
   }"

definition thread_sleep_handler :: "tid \<Rightarrow> kstate \<Rightarrow> (kstate \<times> handler_return) option" where
  "thread_sleep_handler t k = do {
     ASSERT (t_magic (thr k t) = THREAD_MAGIC);
     ASSERT (t_state (thr k t) = THREAD_SLEEPING);
     let k = upd_thread t (\<lambda>th. th\<lparr>t_state := THREAD_READY\<rparr>) k;
     k \<leftarrow> insert_in_run_queue_head t k;
     Some (k, INT_RESCHEDULE)
   }"

definition thread_sleep :: "nat \<Rightarrow> lk_time_t \<Rightarrow> kstate \<Rightarrow> kstate option" where
  "thread_sleep cpu delay k = do {
     t \<leftarrow> current k cpu;
     ASSERT (t_magic (thr k t) = THREAD_MAGIC);
     ASSERT (t_state (thr k t) = THREAD_RUNNING);
     ASSERT (\<not> thread_is_idle (thr k t));
     let ts = timer_initialize (StackTimer t) (tims k);
     ts \<leftarrow> timer_set_oneshot cpu (clock k) (StackTimer t) delay (thread_sleep_handler_cb t) ts;
     let k = upd_thread t (\<lambda>th. th\<lparr>t_state := THREAD_SLEEPING\<rparr>) (k\<lparr>tims := ts\<rparr>);
     thread_resched cpu k
   }"

section \<open>Creating and starting threads\<close>

text \<open>
  \<open>thread_create_etc\<close> takes the results of the two calls of \<^verbatim>\<open>malloc\<close> it may make:
  \<open>m_struct\<close> for a thread structure, used when the caller gives none, and
  \<open>m_stack\<close> for a stack.
\<close>

definition thread_create_etc ::
  "nat \<Rightarrow> tid option \<Rightarrow> nat option \<Rightarrow> tid option \<Rightarrow> string \<Rightarrow> nat \<Rightarrow> nat \<Rightarrow> int \<Rightarrow> nat option \<Rightarrow> nat
   \<Rightarrow> kstate \<Rightarrow> (tid option \<times> kstate) option" where
  "thread_create_etc cpu m_struct m_stack t nm entry arg priority stack stack_size k =
     (case (if t = None then m_struct else t) of
        None \<Rightarrow> Some (None, k)
      | Some t' \<Rightarrow> do {
          let flags = (if t = None then THREAD_FLAG_FREE_STRUCT else 0);
          let k = upd_thread t' (\<lambda>_. (init_thread_struct nm)\<lparr>t_entry := entry, t_arg := arg,
                    t_priority := priority, t_state := THREAD_SUSPENDED,
                    t_blocking_wait_queue := None, t_wait_queue_block_ret := NO_ERROR,
                    t_curr_cpu := -1, t_retcode := 0, t_aspace := None\<rparr>) k;
          let k = wait_queue_init (RetcodeWq t') k;
          let own = (stack = None);
          let stack_size = (if own then stack_size + THREAD_STACK_PADDING_SIZE else stack_size);
          let flags = (if own then flags OR THREAD_FLAG_DEBUG_STACK_BOUNDS_CHECK else flags);
          let st = (if own then m_stack else stack);
          if st = None then
            Some (None, if t = None then k\<lparr>heap_log := heap_log k @ [Free_thread t']\<rparr> else k)
          else do {
            cur \<leftarrow> current k cpu;
            let flags = (if own then flags OR THREAD_FLAG_FREE_STACK else flags);
            let k = upd_thread t' (\<lambda>th. th\<lparr>t_stack := st, t_stack_size := stack_size,
                      t_stack_pad := (if own then replicate (THREAD_STACK_PADDING_SIZE div 4)
                                                    STACK_DEBUG_WORD else []),
                      t_flags := flags, t_tls := t_tls (thr k cur)\<rparr>) k;
            Some (Some t', k\<lparr>thread_list := t' # thread_list k\<rparr>)
          }
        })"

definition thread_create ::
  "nat \<Rightarrow> tid option \<Rightarrow> nat option \<Rightarrow> string \<Rightarrow> nat \<Rightarrow> nat \<Rightarrow> int \<Rightarrow> nat
   \<Rightarrow> kstate \<Rightarrow> (tid option \<times> kstate) option" where
  "thread_create cpu m_struct m_stack nm entry arg priority stack_size k =
     thread_create_etc cpu m_struct m_stack None nm entry arg priority None stack_size k"

definition thread_set_real_time ::
  "nat \<Rightarrow> tid option \<Rightarrow> kstate \<Rightarrow> (status_t \<times> kstate) option" where
  "thread_set_real_time cpu t k =
     (case t of
        None \<Rightarrow> Some (ERR_INVALID_ARGS, k)
      | Some t \<Rightarrow> do {
          ASSERT (t_magic (thr k t) = THREAD_MAGIC);
          ts \<leftarrow> (if current k cpu = Some t
                then timer_cancel cpu (clock k) (PreemptTimer cpu) (tims k) else Some (tims k));
          Some (NO_ERROR, upd_thread t (\<lambda>th. th\<lparr>t_flags := t_flags th OR THREAD_FLAG_REAL_TIME\<rparr>)
                            (k\<lparr>tims := ts\<rparr>))
        })"

text \<open>\<open>ints\<close>: whether interrupts were disabled when \<^verbatim>\<open>thread_resume\<close> was called.\<close>

definition thread_resume :: "nat \<Rightarrow> bool \<Rightarrow> tid \<Rightarrow> kstate \<Rightarrow> (status_t \<times> kstate) option" where
  "thread_resume cpu ints_disabled t k = do {
     ASSERT (t_magic (thr k t) = THREAD_MAGIC);
     ASSERT (t_state (thr k t) \<noteq> THREAD_DEATH);
     let susp = (t_state (thr k t) = THREAD_SUSPENDED);
     k \<leftarrow> (if susp then insert_in_run_queue_head t
                (upd_thread t (\<lambda>th. th\<lparr>t_state := THREAD_READY\<rparr>) k) else Some k);
     let resched = (susp \<and> \<not> ints_disabled);
     let k = mp_reschedule cpu MP_CPU_ALL_BUT_LOCAL 0 k;
     k \<leftarrow> (if resched then thread_yield cpu k else Some k);
     Some (NO_ERROR, k)
   }"

definition thread_set_name :: "nat \<Rightarrow> string \<Rightarrow> kstate \<Rightarrow> kstate option" where
  "thread_set_name cpu nm k = do {
     t \<leftarrow> current k cpu;
     Some (upd_thread t (\<lambda>th. th\<lparr>t_name := take 31 nm\<rparr>) k)
   }"

definition thread_set_priority :: "nat \<Rightarrow> int \<Rightarrow> kstate \<Rightarrow> kstate option" where
  "thread_set_priority cpu priority k = do {
     t \<leftarrow> current k cpu;
     let priority = (if priority \<le> IDLE_PRIORITY then IDLE_PRIORITY + 1 else priority);
     let priority = (if priority > HIGHEST_PRIORITY then HIGHEST_PRIORITY else priority);
     let k = upd_thread t (\<lambda>th. th\<lparr>t_priority := priority, t_state := THREAD_READY\<rparr>) k;
     k \<leftarrow> insert_in_run_queue_head t k;
     thread_resched cpu k
   }"

section \<open>Bringing the scheduler up\<close>

definition thread_init_early :: "kstate \<Rightarrow> kstate" where
  "thread_init_early k =
     (let t = Idle 0;
          k = k\<lparr>run_queue := (\<lambda>_. []), thread_list := []\<rparr>;
          k = upd_thread t (\<lambda>_. (init_thread_struct ''bootstrap'')\<lparr>t_priority := HIGHEST_PRIORITY,
                t_state := THREAD_RUNNING, t_flags := THREAD_FLAG_DETACHED, t_curr_cpu := 0,
                t_pinned_cpu := 0\<rparr>) k;
          k = wait_queue_init (RetcodeWq t) k
      in k\<lparr>thread_list := t # thread_list k, current := (current k)(0 \<mapsto> t)\<rparr>)"

definition thread_init :: "nat \<Rightarrow> kstate \<Rightarrow> kstate" where
  "thread_init SMP_MAX_CPUS k =
     k\<lparr>tims := fold (\<lambda>i. timer_initialize (PreemptTimer i)) [0..<SMP_MAX_CPUS] (tims k)\<rparr>"

text \<open>\<open>nm\<close> is the name that \<^verbatim>\<open>snprintf\<close> makes of \<^verbatim>\<open>"idle %d"\<close>.\<close>

definition thread_become_idle :: "nat \<Rightarrow> string \<Rightarrow> kstate \<Rightarrow> kstate option" where
  "thread_become_idle cpu nm k = do {
     t \<leftarrow> current k cpu;
     k \<leftarrow> thread_set_name cpu nm k;
     let k = upd_thread t (\<lambda>th. th\<lparr>t_priority := IDLE_PRIORITY,
               t_flags := t_flags th OR THREAD_FLAG_IDLE, t_pinned_cpu := int cpu\<rparr>) k;
     let k = mp_set_curr_cpu_active cpu True k;
     let k = mp_set_cpu_idle cpu k;
     thread_yield cpu k
   }"

definition thread_secondary_cpu_init_early :: "nat \<Rightarrow> string \<Rightarrow> kstate \<Rightarrow> kstate" where
  "thread_secondary_cpu_init_early cpu nm k =
     (let t = Idle cpu;
          k = upd_thread t (\<lambda>_. (init_thread_struct nm)\<lparr>t_priority := HIGHEST_PRIORITY,
                t_state := THREAD_RUNNING, t_flags := THREAD_FLAG_DETACHED OR THREAD_FLAG_IDLE,
                t_curr_cpu := int cpu, t_pinned_cpu := int cpu\<rparr>) k;
          k = wait_queue_init (RetcodeWq t) k
      in k\<lparr>thread_list := t # thread_list k, current := (current k)(cpu \<mapsto> t)\<rparr>)"

definition thread_secondary_cpu_entry :: "nat \<Rightarrow> kstate \<Rightarrow> kstate option" where
  "thread_secondary_cpu_entry cpu k = do {
     t \<leftarrow> current k cpu;
     let k = upd_thread t (\<lambda>th. th\<lparr>t_priority := IDLE_PRIORITY\<rparr>) k;
     let k = mp_set_curr_cpu_active cpu True k;
     let k = mp_set_cpu_idle cpu k;
     thread_yield cpu k
   }"

end
