(* ===== verification/Kernel_Wait.thy ===== *)
theory Kernel_Wait
  imports Kernel_Thread
begin

text \<open>
  The wait queues of \<^verbatim>\<open>kernel/thread.c\<close> and the thread operations that use
  them: join, detach and exit. \<open>wait_queue_block\<close> is the part of the source's
  function up to \<^verbatim>\<open>thread_resched\<close>; \<open>wait_queue_block_exit\<close> is the part the
  thread runs when it is scheduled again.
\<close>

section \<open>Blocking and waking\<close>

definition wait_queue_block :: "nat \<Rightarrow> wqaddr \<Rightarrow> lk_time_t \<Rightarrow> kstate \<Rightarrow> (status_t outcome \<times> kstate) option" where
  "wait_queue_block cpu w timeout k = do {
     t \<leftarrow> current k cpu;
     ASSERT (wq_magic (wqs k w) = WAIT_QUEUE_MAGIC);
     ASSERT (t_state (thr k t) = THREAD_RUNNING);
     if timeout = 0 then Some (Returns ERR_TIMED_OUT, k)
     else do {
       let k = upd_wq w (\<lambda>q. q\<lparr>wq_list := wq_list q @ [t], wq_count := wq_count q + 1\<rparr>) k;
       let k = upd_thread t (\<lambda>th. th\<lparr>t_queue_node := WaitQ w, t_state := THREAD_BLOCKED,
                 t_blocking_wait_queue := Some w, t_wait_queue_block_ret := NO_ERROR\<rparr>) k;
       ts \<leftarrow> (if timeout \<noteq> INFINITE_TIME
             then timer_set_oneshot cpu (clock k) (StackTimer t) timeout
                    (wait_queue_timeout_handler_cb t) (timer_initialize (StackTimer t) (tims k))
             else Some (tims k));
       k \<leftarrow> thread_resched cpu (k\<lparr>tims := ts\<rparr>);
       Some (Blocks, k)
     }
   }"

definition wait_queue_block_exit :: "nat \<Rightarrow> lk_time_t \<Rightarrow> kstate \<Rightarrow> (status_t \<times> kstate) option" where
  "wait_queue_block_exit cpu timeout k = do {
     t \<leftarrow> current k cpu;
     ts \<leftarrow> (if timeout \<noteq> INFINITE_TIME then timer_cancel cpu (clock k) (StackTimer t) (tims k)
           else Some (tims k));
     Some (t_wait_queue_block_ret (thr k t), k\<lparr>tims := ts\<rparr>)
   }"

text \<open>
  The work \<^verbatim>\<open>wait_queue_wake_one\<close> and \<^verbatim>\<open>wait_queue_wake_all\<close> do for the thread
  they have removed from the list: the count, the thread's state and its result.
\<close>

definition wake_thread :: "wqaddr \<Rightarrow> tid \<Rightarrow> status_t \<Rightarrow> kstate \<Rightarrow> kstate option" where
  "wake_thread w t err k = do {
     let k = upd_wq w (\<lambda>q. q\<lparr>wq_list := tl (wq_list q), wq_count := wq_count q - 1\<rparr>) k;
     ASSERT (t_state (thr k t) = THREAD_BLOCKED);
     Some (upd_thread t (\<lambda>th. th\<lparr>t_queue_node := Unlinked, t_state := THREAD_READY,
             t_wait_queue_block_ret := err, t_blocking_wait_queue := None\<rparr>) k)
   }"

text \<open>Put the running thread at the head of its run queue.\<close>

definition requeue_current :: "tid \<Rightarrow> kstate \<Rightarrow> kstate option" where
  "requeue_current cur k =
     insert_in_run_queue_head cur (upd_thread cur (\<lambda>th. th\<lparr>t_state := THREAD_READY\<rparr>) k)"

definition wait_queue_wake_one ::
  "nat \<Rightarrow> wqaddr \<Rightarrow> bool \<Rightarrow> status_t \<Rightarrow> kstate \<Rightarrow> (int \<times> kstate) option" where
  "wait_queue_wake_one cpu w reschedule err k = do {
     cur \<leftarrow> current k cpu;
     ASSERT (wq_magic (wqs k w) = WAIT_QUEUE_MAGIC);
     case wq_list (wqs k w) of
       [] \<Rightarrow> Some (0, k)
     | t # _ \<Rightarrow> do {
         k \<leftarrow> wake_thread w t err k;
         k \<leftarrow> (if reschedule then requeue_current cur k else Some k);
         k \<leftarrow> insert_in_run_queue_head t k;
         let k = mp_reschedule cpu MP_CPU_ALL_BUT_LOCAL 0 k;
         k \<leftarrow> (if reschedule then thread_resched cpu k else Some k);
         Some (1, k)
       }
   }"

text \<open>The loop of \<^verbatim>\<open>wait_queue_wake_all\<close>, over the threads of the list.\<close>

primrec wake_all_loop :: "wqaddr \<Rightarrow> status_t \<Rightarrow> tid list \<Rightarrow> kstate \<Rightarrow> kstate option" where
  "wake_all_loop w err [] k = Some k"
| "wake_all_loop w err (t # ts) k = do {
     k \<leftarrow> wake_thread w t err k;
     k \<leftarrow> insert_in_run_queue_head t k;
     wake_all_loop w err ts k
   }"

definition wait_queue_wake_all ::
  "nat \<Rightarrow> wqaddr \<Rightarrow> bool \<Rightarrow> status_t \<Rightarrow> kstate \<Rightarrow> (int \<times> kstate) option" where
  "wait_queue_wake_all cpu w reschedule err k = do {
     cur \<leftarrow> current k cpu;
     ASSERT (wq_magic (wqs k w) = WAIT_QUEUE_MAGIC);
     let ts = wq_list (wqs k w);
     k \<leftarrow> (if reschedule \<and> wq_count (wqs k w) > 0 then requeue_current cur k else Some k);
     k \<leftarrow> wake_all_loop w err ts k;
     ASSERT (wq_count (wqs k w) = 0);
     let ret = int (length ts);
     if ret > 0 then do {
       let k = mp_reschedule cpu MP_CPU_ALL_BUT_LOCAL 0 k;
       k \<leftarrow> (if reschedule then thread_resched cpu k else Some k);
       Some (ret, k)
     } else Some (ret, k)
   }"

text \<open>
  \<^verbatim>\<open>wait_queue_destroy\<close> clears the magic number after the wake-up: with
  \<open>reschedule\<close> that is when the caller is scheduled again.
\<close>

definition wait_queue_destroy :: "nat \<Rightarrow> wqaddr \<Rightarrow> bool \<Rightarrow> kstate \<Rightarrow> kstate option" where
  "wait_queue_destroy cpu w reschedule k = do {
     ASSERT (wq_magic (wqs k w) = WAIT_QUEUE_MAGIC);
     (_, k) \<leftarrow> wait_queue_wake_all cpu w reschedule ERR_OBJECT_DESTROYED k;
     Some k
   }"

definition wait_queue_destroy_exit :: "wqaddr \<Rightarrow> kstate \<Rightarrow> kstate" where
  "wait_queue_destroy_exit w k = upd_wq w (\<lambda>q. q\<lparr>wq_magic := 0\<rparr>) k"

text \<open>
  The list the node of a blocked thread is linked in is the one \<open>queue_node\<close> names;
  the count that goes down is that of \<^verbatim>\<open>blocking_wait_queue\<close>.
\<close>

definition queue_node_delete :: "tid \<Rightarrow> kstate \<Rightarrow> kstate" where
  "queue_node_delete t k =
     (case t_queue_node (thr k t) of
        Unlinked \<Rightarrow> k
      | RunQ p \<Rightarrow> upd_thread t (\<lambda>th. th\<lparr>t_queue_node := Unlinked\<rparr>)
                   (k\<lparr>run_queue := (run_queue k)(p := remove1 t (run_queue k p))\<rparr>)
      | WaitQ w \<Rightarrow> upd_thread t (\<lambda>th. th\<lparr>t_queue_node := Unlinked\<rparr>)
                   (upd_wq w (\<lambda>q. q\<lparr>wq_list := remove1 t (wq_list q)\<rparr>) k))"

definition thread_unblock_from_wait_queue ::
  "nat \<Rightarrow> tid \<Rightarrow> status_t \<Rightarrow> kstate \<Rightarrow> (status_t \<times> kstate) option" where
  "thread_unblock_from_wait_queue cpu t err k = do {
     ASSERT (t_magic (thr k t) = THREAD_MAGIC);
     if t_state (thr k t) \<noteq> THREAD_BLOCKED then Some (ERR_NOT_BLOCKED, k)
     else do {
       w \<leftarrow> t_blocking_wait_queue (thr k t);
       ASSERT (wq_magic (wqs k w) = WAIT_QUEUE_MAGIC);
       ASSERT (t_queue_node (thr k t) \<noteq> Unlinked);
       let k = queue_node_delete t k;
       let k = upd_wq w (\<lambda>q. q\<lparr>wq_count := wq_count q - 1\<rparr>) k;
       let k = upd_thread t (\<lambda>th. th\<lparr>t_blocking_wait_queue := None, t_state := THREAD_READY,
                 t_wait_queue_block_ret := err\<rparr>) k;
       k \<leftarrow> insert_in_run_queue_head t k;
       let k = mp_reschedule cpu MP_CPU_ALL_BUT_LOCAL 0 k;
       Some (NO_ERROR, k)
     }
   }"

definition wait_queue_timeout_handler ::
  "nat \<Rightarrow> tid \<Rightarrow> kstate \<Rightarrow> (kstate \<times> handler_return) option" where
  "wait_queue_timeout_handler cpu t k = do {
     ASSERT (t_magic (thr k t) = THREAD_MAGIC);
     (r, k) \<leftarrow> thread_unblock_from_wait_queue cpu t ERR_TIMED_OUT k;
     Some (k, if r \<ge> NO_ERROR then INT_RESCHEDULE else INT_NO_RESCHEDULE)
   }"

section \<open>Join, detach, exit\<close>

text \<open>The end of \<^verbatim>\<open>thread_join\<close>, once the thread is dead.\<close>

definition thread_join_finish :: "tid \<Rightarrow> kstate \<Rightarrow> (int \<times> kstate) option" where
  "thread_join_finish t k = do {
     ASSERT (t_magic (thr k t) = THREAD_MAGIC);
     ASSERT (t_state (thr k t) = THREAD_DEATH);
     ASSERT (t_blocking_wait_queue (thr k t) = None);
     ASSERT (t_queue_node (thr k t) = Unlinked);
     let retcode = t_retcode (thr k t);
     let k = k\<lparr>thread_list := remove1 t (thread_list k)\<rparr>;
     let k = upd_thread t (\<lambda>th. th\<lparr>t_magic := 0\<rparr>) k;
     let k = (case t_stack (thr k t) of
                Some s \<Rightarrow> if has_flag THREAD_FLAG_FREE_STACK (thr k t)
                          then k\<lparr>heap_log := heap_log k @ [Free_stack s]\<rparr> else k
              | None \<Rightarrow> k);
     let k = (if has_flag THREAD_FLAG_FREE_STRUCT (thr k t)
              then k\<lparr>heap_log := heap_log k @ [Free_thread t]\<rparr> else k);
     Some (retcode, k)
   }"

text \<open>
  \<open>thread_join\<close> returns the status and, when it joined, the return code;
  \<open>thread_join_exit\<close> is the part after the wait.
\<close>

definition thread_join ::
  "nat \<Rightarrow> tid \<Rightarrow> lk_time_t \<Rightarrow> kstate \<Rightarrow> ((status_t \<times> int option) outcome \<times> kstate) option" where
  "thread_join cpu t timeout k = do {
     ASSERT (t_magic (thr k t) = THREAD_MAGIC);
     if has_flag THREAD_FLAG_DETACHED (thr k t) then Some (Returns (ERR_THREAD_DETACHED, None), k)
     else if t_state (thr k t) \<noteq> THREAD_DEATH then do {
       (r, k) \<leftarrow> wait_queue_block cpu (RetcodeWq t) timeout k;
       case r of
         Blocks \<Rightarrow> Some (Blocks, k)
       | Returns err \<Rightarrow>
           if err < 0 then Some (Returns (err, None), k)
           else do { (rc, k) \<leftarrow> thread_join_finish t k; Some (Returns (NO_ERROR, Some rc), k) }
     } else do { (rc, k) \<leftarrow> thread_join_finish t k; Some (Returns (NO_ERROR, Some rc), k) }
   }"

definition thread_join_exit ::
  "nat \<Rightarrow> tid \<Rightarrow> lk_time_t \<Rightarrow> kstate \<Rightarrow> ((status_t \<times> int option) \<times> kstate) option" where
  "thread_join_exit cpu t timeout k = do {
     (err, k) \<leftarrow> wait_queue_block_exit cpu timeout k;
     if err < 0 then Some ((err, None), k)
     else do { (rc, k) \<leftarrow> thread_join_finish t k; Some ((NO_ERROR, Some rc), k) }
   }"

definition thread_detach :: "nat \<Rightarrow> tid \<Rightarrow> kstate \<Rightarrow> (status_t outcome \<times> kstate) option" where
  "thread_detach cpu t k = do {
     ASSERT (t_magic (thr k t) = THREAD_MAGIC);
     (_, k) \<leftarrow> wait_queue_wake_all cpu (RetcodeWq t) False ERR_THREAD_DETACHED k;
     if t_state (thr k t) = THREAD_DEATH then do {
       let k = upd_thread t (\<lambda>th. th\<lparr>t_flags := t_flags th AND NOT THREAD_FLAG_DETACHED\<rparr>) k;
       (r, k) \<leftarrow> thread_join cpu t 0 k;
       Some (case r of Blocks \<Rightarrow> Blocks | Returns (st, _) \<Rightarrow> Returns st, k)
     } else
       Some (Returns NO_ERROR,
             upd_thread t (\<lambda>th. th\<lparr>t_flags := t_flags th OR THREAD_FLAG_DETACHED\<rparr>) k)
   }"

definition thread_detach_and_resume ::
  "nat \<Rightarrow> bool \<Rightarrow> tid \<Rightarrow> kstate \<Rightarrow> (status_t outcome \<times> kstate) option" where
  "thread_detach_and_resume cpu ints_disabled t k = do {
     (r, k) \<leftarrow> thread_detach cpu t k;
     case r of
       Blocks \<Rightarrow> Some (Blocks, k)
     | Returns err \<Rightarrow>
         if err < 0 then Some (Returns err, k)
         else do { (st, k) \<leftarrow> thread_resume cpu ints_disabled t k; Some (Returns st, k) }
   }"

text \<open>The teardown of a detached thread that exits, except for the last context switch.\<close>

definition thread_exit_teardown :: "tid \<Rightarrow> kstate \<Rightarrow> kstate" where
  "thread_exit_teardown t k =
     (let k = k\<lparr>thread_list := remove1 t (thread_list k)\<rparr>;
          k = upd_thread t (\<lambda>th. th\<lparr>t_magic := 0\<rparr>) k;
          k = (case t_stack (thr k t) of
                 Some s \<Rightarrow>
                   if has_flag THREAD_FLAG_FREE_STACK (thr k t)
                   then upd_thread t (\<lambda>th. th\<lparr>t_flags := t_flags th AND
                            NOT THREAD_FLAG_DEBUG_STACK_BOUNDS_CHECK\<rparr>)
                          (k\<lparr>heap_log := heap_log k @ [Delayed_free_stack s]\<rparr>)
                   else k
               | None \<Rightarrow> k)
      in if has_flag THREAD_FLAG_FREE_STRUCT (thr k t)
         then k\<lparr>heap_log := heap_log k @ [Delayed_free_thread t]\<rparr> else k)"

definition thread_exit :: "nat \<Rightarrow> int \<Rightarrow> kstate \<Rightarrow> kstate option" where
  "thread_exit cpu retcode k = do {
     t \<leftarrow> current k cpu;
     ASSERT (t_magic (thr k t) = THREAD_MAGIC);
     ASSERT (t_state (thr k t) = THREAD_RUNNING);
     ASSERT (\<not> thread_is_idle (thr k t));
     let k = upd_thread t (\<lambda>th. th\<lparr>t_state := THREAD_DEATH, t_retcode := retcode\<rparr>) k;
     k \<leftarrow> (if has_flag THREAD_FLAG_DETACHED (thr k t) then Some (thread_exit_teardown t k)
           else do { (_, k) \<leftarrow> wait_queue_wake_all cpu (RetcodeWq t) False 0 k; Some k });
     thread_resched cpu k
   }"

end
