(* ===== verification/Kernel_Inv.thy ===== *)
theory Kernel_Inv
  imports Kernel_Wait
begin

text \<open>
  The invariant of the scheduler and that the context switch re-establishes it. The
  invariant is split by what it speaks about: run queues (\<open>inv_q\<close>), wait queues
  (\<open>inv_w\<close>), the threads the cpus run (\<open>inv_c\<close>), ready threads (\<open>inv_r\<close>),
  idle threads (\<open>inv_i\<close>) and timers (\<open>inv_t\<close>). It has two parameters for
  the middle of an operation: the cpus \<open>C\<close> whose current thread has already
  left the running state, and the threads \<open>X\<close> that are ready but not queued yet.
  Between operations both are empty.
\<close>

named_theorems inv_frame \<open>state updates a part of the invariant does not see\<close>

section \<open>Flags as bits\<close>

lemma has_flag_bits:
  "has_flag THREAD_FLAG_DETACHED t \<longleftrightarrow> bit (t_flags t) 0"
  "has_flag THREAD_FLAG_FREE_STACK t \<longleftrightarrow> bit (t_flags t) 1"
  "has_flag THREAD_FLAG_FREE_STRUCT t \<longleftrightarrow> bit (t_flags t) 2"
  "has_flag THREAD_FLAG_REAL_TIME t \<longleftrightarrow> bit (t_flags t) 3"
  "has_flag THREAD_FLAG_IDLE t \<longleftrightarrow> bit (t_flags t) 4"
  "has_flag THREAD_FLAG_DEBUG_STACK_BOUNDS_CHECK t \<longleftrightarrow> bit (t_flags t) 5"
proof -
  have *: "w AND 2 ^ n \<noteq> 0 \<longleftrightarrow> bit w n" if "n < 32" for w :: u32 and n
    using and_exp_eq_0_iff_not_bit [of w n] by simp
  show "has_flag THREAD_FLAG_DETACHED t \<longleftrightarrow> bit (t_flags t) 0"
    using * [of 0 "t_flags t"] by (simp add: has_flag_def lk_defs)
  show "has_flag THREAD_FLAG_FREE_STACK t \<longleftrightarrow> bit (t_flags t) 1"
    using * [of 1 "t_flags t"] by (simp add: has_flag_def lk_defs)
  show "has_flag THREAD_FLAG_FREE_STRUCT t \<longleftrightarrow> bit (t_flags t) 2"
    using * [of 2 "t_flags t"] by (simp add: has_flag_def lk_defs)
  show "has_flag THREAD_FLAG_REAL_TIME t \<longleftrightarrow> bit (t_flags t) 3"
    using * [of 3 "t_flags t"] by (simp add: has_flag_def lk_defs)
  show "has_flag THREAD_FLAG_IDLE t \<longleftrightarrow> bit (t_flags t) 4"
    using * [of 4 "t_flags t"] by (simp add: has_flag_def lk_defs)
  show "has_flag THREAD_FLAG_DEBUG_STACK_BOUNDS_CHECK t \<longleftrightarrow> bit (t_flags t) 5"
    using * [of 5 "t_flags t"] by (simp add: has_flag_def lk_defs)
qed

lemma rt_or_idle_iff:
  "thread_is_real_time_or_idle t \<longleftrightarrow> has_flag THREAD_FLAG_REAL_TIME t \<or> thread_is_idle t"
  by (simp add: thread_is_real_time_or_idle_def thread_is_idle_def has_flag_def
      bit.conj_disj_distrib or_eq_0_iff)

text \<open>The flags that only decide about scheduling, as functions of the flag word.\<close>

lemma flags_cong:
  assumes "t_flags t = t_flags t'"
  shows "has_flag f t = has_flag f t'"
    and "thread_is_idle t = thread_is_idle t'"
    and "thread_is_real_time_or_idle t = thread_is_real_time_or_idle t'"
  using assms by (simp_all add: has_flag_def thread_is_idle_def thread_is_real_time_or_idle_def)

section \<open>The invariant\<close>

abbreviation live :: "kstate \<Rightarrow> tid \<Rightarrow> bool" where
  "live k t \<equiv> t_magic (thr k t) = THREAD_MAGIC"

abbreviation node_of :: "kstate \<Rightarrow> tid \<Rightarrow> queue_loc" where
  "node_of k t \<equiv> t_queue_node (thr k t)"

abbreviation state_of :: "kstate \<Rightarrow> tid \<Rightarrow> thread_state" where
  "state_of k t \<equiv> t_state (thr k t)"

abbreviation is_idle :: "kstate \<Rightarrow> tid \<Rightarrow> bool" where
  "is_idle k t \<equiv> thread_is_idle (thr k t)"

text \<open>A run queue holds the ready threads of its priority, once each, and the bitmap tells which are not empty.\<close>

definition inv_q :: "kstate \<Rightarrow> bool" where
  "inv_q k \<longleftrightarrow>
     (\<forall>p. bit (run_queue_bitmap k) p \<longleftrightarrow> run_queue k p \<noteq> []) \<and>
     (\<forall>p t. t \<in> set (run_queue k p) \<longleftrightarrow> node_of k t = RunQ p) \<and>
     (\<forall>p. distinct (run_queue k p)) \<and>
     (\<forall>t p. node_of k t = RunQ p \<longrightarrow>
        live k t \<and> state_of k t = THREAD_READY \<and> t_priority (thr k t) = int p \<and> p < 32 \<and>
        \<not> is_idle k t)"

text \<open>A wait queue holds the threads blocked on it, once each, and counts them.\<close>

definition inv_w :: "kstate \<Rightarrow> bool" where
  "inv_w k \<longleftrightarrow>
     (\<forall>w t. t \<in> set (wq_list (wqs k w)) \<longleftrightarrow> node_of k t = WaitQ w) \<and>
     (\<forall>w. distinct (wq_list (wqs k w)) \<and> wq_count (wqs k w) = int (length (wq_list (wqs k w)))) \<and>
     (\<forall>w. wq_list (wqs k w) \<noteq> [] \<longrightarrow> wq_magic (wqs k w) = WAIT_QUEUE_MAGIC) \<and>
     (\<forall>t w. node_of k t = WaitQ w \<longrightarrow>
        live k t \<and> state_of k t = THREAD_BLOCKED \<and> \<not> is_idle k t \<and>
        t_blocking_wait_queue (thr k t) = Some w \<and>
        0 \<le> t_priority (thr k t) \<and> t_priority (thr k t) < NUM_PRIORITIES) \<and>
     (\<forall>t. live k t \<longrightarrow> state_of k t = THREAD_BLOCKED \<longrightarrow> (\<exists>w. node_of k t = WaitQ w)) \<and>
     (\<forall>t. live k t \<longrightarrow> state_of k t \<noteq> THREAD_BLOCKED \<longrightarrow> t_blocking_wait_queue (thr k t) = None)"

text \<open>
  A thread is running exactly when some cpu runs it, no two cpus run the same thread, and
  a pinned thread runs on its cpu only.
\<close>

definition inv_c :: "nat set \<Rightarrow> kstate \<Rightarrow> bool" where
  "inv_c C k \<longleftrightarrow>
     (\<forall>t. live k t \<longrightarrow> state_of k t = THREAD_RUNNING \<longrightarrow> (\<exists>c. current k c = Some t)) \<and>
     (\<forall>c t. current k c = Some t \<longrightarrow> c \<notin> C \<longrightarrow>
        live k t \<and> state_of k t = THREAD_RUNNING \<and> node_of k t = Unlinked \<and>
        0 \<le> t_priority (thr k t) \<and> t_priority (thr k t) < NUM_PRIORITIES) \<and>
     (\<forall>c t. current k c = Some t \<longrightarrow> c \<in> C \<longrightarrow> state_of k t \<noteq> THREAD_RUNNING) \<and>
     (\<forall>c c' t. current k c = Some t \<longrightarrow> current k c' = Some t \<longrightarrow> c = c') \<and>
     (\<forall>c t. current k c = Some t \<longrightarrow> t_curr_cpu (thr k t) = int c \<and>
        (t_pinned_cpu (thr k t) < 0 \<or> t_pinned_cpu (thr k t) = int c))"

text \<open>A ready thread that is not an idle thread is in a run queue.\<close>

definition inv_r :: "tid set \<Rightarrow> kstate \<Rightarrow> bool" where
  "inv_r X k \<longleftrightarrow>
     (\<forall>t. live k t \<longrightarrow> state_of k t = THREAD_READY \<longrightarrow> \<not> is_idle k t \<longrightarrow> t \<notin> X \<longrightarrow>
        (\<exists>p. node_of k t = RunQ p))"

text \<open>
  The idle thread of a cpu is ready whenever it does not run, is in no queue, and runs on
  that cpu only.
\<close>

definition inv_i :: "kstate \<Rightarrow> bool" where
  "inv_i k \<longleftrightarrow>
     (\<forall>t. live k t \<longrightarrow> (is_idle k t \<longleftrightarrow> (\<exists>c. t = Idle c))) \<and>
     (\<forall>c. current k c \<noteq> None \<longrightarrow>
        live k (Idle c) \<and> is_idle k (Idle c) \<and> t_pinned_cpu (thr k (Idle c)) = int c \<and>
        0 \<le> t_priority (thr k (Idle c)) \<and> t_priority (thr k (Idle c)) < NUM_PRIORITIES \<and>
        node_of k (Idle c) = Unlinked \<and> state_of k (Idle c) \<in> {THREAD_READY, THREAD_RUNNING}) \<and>
     (\<forall>c c'. current k c' = Some (Idle c) \<longrightarrow> c' = c)"

text \<open>
  The timer queues are well formed; a cpu's preemption timer is pending exactly while it
  runs a thread that is neither real-time nor idle; a sleeping thread's timer is pending,
  and it wakes that thread.
\<close>

definition preempt_timer_armed :: "nat \<Rightarrow> timer \<Rightarrow> bool" where
  "preempt_timer_armed c tm \<longleftrightarrow> tm_node tm = Some c \<and> tm_periodic_time tm = 10 \<and>
     tm_callback tm = Some thread_timer_tick_cb"

definition inv_t :: "kstate \<Rightarrow> bool" where
  "inv_t k \<longleftrightarrow> timers_ok (tims k) \<and>
     (\<forall>c t. current k c = Some t \<longrightarrow>
        tm_magic (tmr (tims k) (PreemptTimer c)) = TIMER_MAGIC \<and>
        tm_node (tmr (tims k) (PreemptTimer c)) =
          (if thread_is_real_time_or_idle (thr k t) then None else Some c)) \<and>
     (\<forall>c. tm_node (tmr (tims k) (PreemptTimer c)) \<noteq> None \<longrightarrow>
        preempt_timer_armed c (tmr (tims k) (PreemptTimer c)) \<and> current k c \<noteq> None) \<and>
     (\<forall>t. live k t \<longrightarrow> state_of k t = THREAD_SLEEPING \<longrightarrow>
        tm_node (tmr (tims k) (StackTimer t)) \<noteq> None \<and>
        tm_callback (tmr (tims k) (StackTimer t)) = Some (thread_sleep_handler_cb t))"

text \<open>No thread has overrun its stack, and thread structures of sleeping threads are sane.\<close>

definition inv_g :: "kstate \<Rightarrow> bool" where
  "inv_g k \<longleftrightarrow> (\<forall>t. stack_guard_intact (thr k t)) \<and>
     (\<forall>t. live k t \<longrightarrow> state_of k t \<in> {THREAD_SLEEPING, THREAD_SUSPENDED, THREAD_DEATH} \<longrightarrow>
        node_of k t = Unlinked \<and> \<not> is_idle k t) \<and>
     (\<forall>t. live k t \<longrightarrow> state_of k t = THREAD_SLEEPING \<longrightarrow>
        0 \<le> t_priority (thr k t) \<and> t_priority (thr k t) < NUM_PRIORITIES)"

definition sched_inv :: "nat set \<Rightarrow> tid set \<Rightarrow> kstate \<Rightarrow> bool" where
  "sched_inv C X k \<longleftrightarrow>
     inv_q k \<and> inv_w k \<and> inv_c C k \<and> inv_r X k \<and> inv_i k \<and> inv_t k \<and> inv_g k"

abbreviation kinv :: "kstate \<Rightarrow> bool" where
  "kinv \<equiv> sched_inv {} {}"

lemma sched_invI:
  "inv_q k \<Longrightarrow> inv_w k \<Longrightarrow> inv_c C k \<Longrightarrow> inv_r X k \<Longrightarrow> inv_i k \<Longrightarrow> inv_t k \<Longrightarrow> inv_g k
   \<Longrightarrow> sched_inv C X k"
  by (simp add: sched_inv_def)

lemma sched_invD:
  assumes "sched_inv C X k"
  shows "inv_q k" "inv_w k" "inv_c C k" "inv_r X k" "inv_i k" "inv_t k" "inv_g k"
  using assms by (simp_all add: sched_inv_def)

lemma inv_c_outside:
  "inv_c C k \<Longrightarrow> current k c = Some t \<Longrightarrow> c \<notin> C \<Longrightarrow>
   live k t \<and> state_of k t = THREAD_RUNNING \<and> node_of k t = Unlinked \<and>
   0 \<le> t_priority (thr k t) \<and> t_priority (thr k t) < NUM_PRIORITIES"
  by (simp add: inv_c_def)

lemma inv_w_unblocked:
  "inv_w k \<Longrightarrow> live k t \<Longrightarrow> state_of k t \<noteq> THREAD_BLOCKED \<Longrightarrow> t_blocking_wait_queue (thr k t) = None"
  unfolding inv_w_def by (elim conjE) blast

lemma inv_g_parked:
  "inv_g k \<Longrightarrow> live k t \<Longrightarrow> state_of k t \<in> {THREAD_SLEEPING, THREAD_SUSPENDED, THREAD_DEATH} \<Longrightarrow>
   node_of k t = Unlinked \<and> \<not> is_idle k t"
  unfolding inv_g_def by (elim conjE) blast

lemmas inv_defs = inv_q_def inv_w_def inv_c_def inv_r_def inv_i_def inv_t_def inv_g_def

text \<open>Fields no part of the invariant reads.\<close>

lemma sched_inv_frame [inv_frame]:
  "sched_inv C X (k\<lparr>mp := m\<rparr>) = sched_inv C X k"
  "sched_inv C X (k\<lparr>stats := s\<rparr>) = sched_inv C X k"
  "sched_inv C X (k\<lparr>heap_log := h\<rparr>) = sched_inv C X k"
  "sched_inv C X (k\<lparr>mmu_aspace := a\<rparr>) = sched_inv C X k"
  "sched_inv C X (k\<lparr>thread_list := l\<rparr>) = sched_inv C X k"
  "sched_inv C X (k\<lparr>clock := c\<rparr>) = sched_inv C X k"
  "sched_inv C X (k\<lparr>clock_hires := ch\<rparr>) = sched_inv C X k"
  by (simp_all add: sched_inv_def inv_defs)

lemma sched_inv_ops_frame [inv_frame]:
  "sched_inv C X (upd_stats c f k) = sched_inv C X k"
  "sched_inv C X (mp_reschedule c m fl k) = sched_inv C X k"
  "sched_inv C X (mp_set_cpu_idle c k) = sched_inv C X k"
  "sched_inv C X (mp_set_cpu_busy c k) = sched_inv C X k"
  "sched_inv C X (mp_set_cpu_realtime c k) = sched_inv C X k"
  "sched_inv C X (mp_set_cpu_non_realtime c k) = sched_inv C X k"
  "sched_inv C X (mp_set_curr_cpu_active c b k) = sched_inv C X k"
  by (simp_all add: inv_frame upd_stats_def mp_reschedule_def mp_set_cpu_idle_def
      mp_set_cpu_busy_def mp_set_cpu_realtime_def mp_set_cpu_non_realtime_def
      mp_set_curr_cpu_active_def)

text \<open>What the invariant reads of a thread.\<close>

definition tview where
  "tview th = (t_magic th, t_queue_node th, t_priority th, t_state th, t_flags th,
     t_curr_cpu th, t_pinned_cpu th, t_blocking_wait_queue th, t_stack_pad th)"

lemma sched_inv_cong:
  assumes t: "\<And>t. tview (thr k' t) = tview (thr k t)"
    and "run_queue k' = run_queue k" "run_queue_bitmap k' = run_queue_bitmap k"
      "current k' = current k" "wqs k' = wqs k" "tims k' = tims k"
  shows "sched_inv C X k' = sched_inv C X k"
proof -
  have eqs: "live k' t = live k t" "node_of k' t = node_of k t"
    "t_priority (thr k' t) = t_priority (thr k t)" "state_of k' t = state_of k t"
    "t_flags (thr k' t) = t_flags (thr k t)" "t_curr_cpu (thr k' t) = t_curr_cpu (thr k t)"
    "t_pinned_cpu (thr k' t) = t_pinned_cpu (thr k t)"
    "t_blocking_wait_queue (thr k' t) = t_blocking_wait_queue (thr k t)"
    "t_stack_pad (thr k' t) = t_stack_pad (thr k t)" for t
    using t [of t] by (auto simp: tview_def)
  note fl = flags_cong [OF eqs(5)]
  show ?thesis
    unfolding sched_inv_def inv_defs stack_guard_intact_def eqs fl assms(2-) ..
qed

lemma sched_inv_upd_thread_view:
  "tview (f (thr k t)) = tview (thr k t) \<Longrightarrow> sched_inv C X (upd_thread t f k) = sched_inv C X k"
  by (rule sched_inv_cong) (auto simp: upd_thread_def)

section \<open>Queue operations\<close>

lemma upd_thread_simps [simp]:
  "thr (upd_thread t f k) u = (if u = t then f (thr k t) else thr k u)"
  "run_queue (upd_thread t f k) = run_queue k"
  "run_queue_bitmap (upd_thread t f k) = run_queue_bitmap k"
  "current (upd_thread t f k) = current k"
  "wqs (upd_thread t f k) = wqs k"
  "tims (upd_thread t f k) = tims k"
  "clock (upd_thread t f k) = clock k"
  "mp (upd_thread t f k) = mp k"
  by (simp_all add: upd_thread_def)

lemma upd_wq_simps [simp]:
  "wqs (upd_wq w g k) v = (if v = w then g (wqs k w) else wqs k v)"
  "thr (upd_wq w g k) = thr k"
  "run_queue (upd_wq w g k) = run_queue k"
  "run_queue_bitmap (upd_wq w g k) = run_queue_bitmap k"
  "current (upd_wq w g k) = current k"
  "tims (upd_wq w g k) = tims k"
  "clock (upd_wq w g k) = clock k"
  "mp (upd_wq w g k) = mp k"
  by (simp_all add: upd_wq_def)

lemma mp_ops_simps [simp]:
  "thr (mp_reschedule c m fl k) = thr k" "wqs (mp_reschedule c m fl k) = wqs k"
  "current (mp_reschedule c m fl k) = current k" "tims (mp_reschedule c m fl k) = tims k"
  "run_queue_bitmap (mp_reschedule c m fl k) = run_queue_bitmap k"
  "run_queue (mp_reschedule c m fl k) = run_queue k" "clock (mp_reschedule c m fl k) = clock k"
  by (simp_all add: mp_reschedule_def)

lemma stats_simps [simp]:
  "thr (upd_stats c f k) = thr k" "wqs (upd_stats c f k) = wqs k"
  "current (upd_stats c f k) = current k" "tims (upd_stats c f k) = tims k"
  "run_queue (upd_stats c f k) = run_queue k" "clock (upd_stats c f k) = clock k"
  "run_queue_bitmap (upd_stats c f k) = run_queue_bitmap k"
  by (simp_all add: upd_stats_def)

definition ins_head :: "tid \<Rightarrow> kstate \<Rightarrow> kstate" where
  "ins_head t k =
     (let p = nat (t_priority (thr k t))
      in upd_thread t (\<lambda>th. th\<lparr>t_queue_node := RunQ p\<rparr>)
           (k\<lparr>run_queue := (run_queue k)(p := t # run_queue k p),
              run_queue_bitmap := bit_set p (run_queue_bitmap k)\<rparr>))"

definition ins_tail :: "tid \<Rightarrow> kstate \<Rightarrow> kstate" where
  "ins_tail t k =
     (let p = nat (t_priority (thr k t))
      in upd_thread t (\<lambda>th. th\<lparr>t_queue_node := RunQ p\<rparr>)
           (k\<lparr>run_queue := (run_queue k)(p := run_queue k p @ [t]),
              run_queue_bitmap := bit_set p (run_queue_bitmap k)\<rparr>))"

lemma insert_head_eq [lk_run]:
  "run_queue_insertable t k \<Longrightarrow> insert_in_run_queue_head t k = Some (ins_head t k)"
  by (simp add: insert_in_run_queue_head_def ins_head_def Let_def)

lemma insert_tail_eq [lk_run]:
  "run_queue_insertable t k \<Longrightarrow> insert_in_run_queue_tail t k = Some (ins_tail t k)"
  by (simp add: insert_in_run_queue_tail_def ins_tail_def Let_def)

lemma ins_simps [simp]:
  "current (ins_head t k) = current k" "current (ins_tail t k) = current k"
  "wqs (ins_head t k) = wqs k" "wqs (ins_tail t k) = wqs k"
  "tims (ins_head t k) = tims k" "tims (ins_tail t k) = tims k"
  "clock (ins_head t k) = clock k" "clock (ins_tail t k) = clock k"
  "thr (ins_head t k) u =
     (if u = t then (thr k t)\<lparr>t_queue_node := RunQ (nat (t_priority (thr k t)))\<rparr> else thr k u)"
  "thr (ins_tail t k) u =
     (if u = t then (thr k t)\<lparr>t_queue_node := RunQ (nat (t_priority (thr k t)))\<rparr> else thr k u)"
  by (simp_all add: ins_head_def ins_tail_def Let_def)

lemma ins_run_queue:
  "run_queue (ins_head t k) p =
     (if p = nat (t_priority (thr k t)) then t # run_queue k p else run_queue k p)"
  "run_queue (ins_tail t k) p =
     (if p = nat (t_priority (thr k t)) then run_queue k p @ [t] else run_queue k p)"
  "run_queue_bitmap (ins_head t k) = bit_set (nat (t_priority (thr k t))) (run_queue_bitmap k)"
  "run_queue_bitmap (ins_tail t k) = bit_set (nat (t_priority (thr k t))) (run_queue_bitmap k)"
  by (simp_all add: ins_head_def ins_tail_def Let_def)

text \<open>
  A ready, unlinked thread that is not idle may be inserted: at either end, the invariant
  holds with that thread no longer exempt from being queued.
\<close>

lemma ready_ins:
  assumes inv: "sched_inv C X k" and ok: "run_queue_insertable t k" and ni: "\<not> is_idle k t"
    and k': "k' = ins_head t k \<or> k' = ins_tail t k" and X: "X \<subseteq> insert t X'"
  shows "sched_inv C X' k'"
proof (rule sched_invI)
  note parts = sched_invD [OF inv]
  have ok': "live k t" "state_of k t = THREAD_READY" "node_of k t = Unlinked"
    "0 \<le> t_priority (thr k t)" "t_priority (thr k t) < 32"
    using ok by (auto simp: run_queue_insertable_def lk_defs)
  have th: "thr k' u = (if u = t then (thr k t)\<lparr>t_queue_node := RunQ (nat (t_priority (thr k t)))\<rparr>
              else thr k u)" for u
    using k' by auto
  have fl: "is_idle k' u = is_idle k u" 
    "thread_is_real_time_or_idle (thr k' u) = thread_is_real_time_or_idle (thr k u)"
    "has_flag fg (thr k' u) = has_flag fg (thr k u)" for u fg
    by (rule flags_cong; simp add: th)+
  have same: "current k' = current k" "wqs k' = wqs k" "tims k' = tims k" using k' by auto
  have rq: "set (run_queue k' p) =
        (if p = nat (t_priority (thr k t)) then insert t (set (run_queue k p)) else set (run_queue k p))"
    "distinct (run_queue k' p) \<longleftrightarrow>
        (if p = nat (t_priority (thr k t)) then t \<notin> set (run_queue k p) \<and> distinct (run_queue k p)
         else distinct (run_queue k p))"
    "run_queue k' p = [] \<longleftrightarrow> p \<noteq> nat (t_priority (thr k t)) \<and> run_queue k p = []"
    "run_queue_bitmap k' = bit_set (nat (t_priority (thr k t))) (run_queue_bitmap k)" for p
    using k' by (auto simp: ins_run_queue split: if_splits)
  show "inv_q k'"
    using parts(1) ok' ni unfolding inv_q_def fl rq by (auto simp: th fl)
  show "inv_w k'"
    using parts(2) ok' unfolding inv_w_def same fl by (auto simp: th)
  have "c \<in> C" if "current k c = Some t" for c
    using inv_c_outside [OF parts(3) that] ok'(2) by auto
  then show "inv_c C k'"
    using parts(3) ok' unfolding inv_c_def same by (auto simp: th)
  show "inv_r X' k'"
    using parts(4) ok' X unfolding inv_r_def fl by (auto simp: th)
  show "inv_i k'"
    using parts(5) ok' ni unfolding inv_i_def same fl by (auto simp: th)
  show "inv_t k'"
    using parts(6) ok' unfolding inv_t_def same fl by (auto simp: th)
  show "inv_g k'"
    using parts(7) ok' unfolding inv_g_def stack_guard_intact_def fl by (auto simp: th)
qed

section \<open>Choosing the next thread\<close>

text \<open>
  What \<open>get_top_thread\<close> returns: the first eligible thread of the highest run queue
  that has one, or the idle thread when there is none; the thread is taken out of its queue.
\<close>

definition picked :: "nat \<Rightarrow> kstate \<Rightarrow> tid \<Rightarrow> bool" where
  "picked cpu k t \<longleftrightarrow>
     (\<exists>p. find (eligible cpu k) (run_queue k p) = Some t \<and>
          (\<forall>q u. p < q \<longrightarrow> u \<in> set (run_queue k q) \<longrightarrow> \<not> eligible cpu k u)) \<or>
     t = Idle cpu \<and> (\<forall>q u. u \<in> set (run_queue k q) \<longrightarrow> \<not> eligible cpu k u)"

definition top_choice :: "nat \<Rightarrow> kstate \<Rightarrow> tid \<Rightarrow> kstate \<Rightarrow> bool" where
  "top_choice cpu k t k' \<longleftrightarrow>
     (\<exists>p. find (eligible cpu k) (run_queue k p) = Some t \<and> k' = run_queue_take p t k \<and>
          (\<forall>q u. p < q \<longrightarrow> u \<in> set (run_queue k q) \<longrightarrow> \<not> eligible cpu k u)) \<or>
     t = Idle cpu \<and> k' = k \<and> (\<forall>q u. u \<in> set (run_queue k q) \<longrightarrow> \<not> eligible cpu k u)"

lemma top_choice_picked: "top_choice cpu k t k' \<Longrightarrow> picked cpu k t"
  by (auto simp: top_choice_def picked_def)

lemma get_top_thread_loop_choice:
  assumes q: "\<forall>p. bit (run_queue_bitmap k) p \<longleftrightarrow> run_queue k p \<noteq> []"
    and sub: "\<forall>p. bit b p \<longrightarrow> bit (run_queue_bitmap k) p"
    and gone: "\<forall>p u. bit (run_queue_bitmap k) p \<longrightarrow> \<not> bit b p \<longrightarrow> u \<in> set (run_queue k p)
                \<longrightarrow> \<not> eligible cpu k u"
    and r: "get_top_thread_loop cpu k b = (t, k')"
  shows "top_choice cpu k t k'"
  using q sub gone r
proof (induction cpu k b rule: get_top_thread_loop.induct)
  case (1 cpu k b)
  note q = "1.prems"(1) and sub = "1.prems"(2) and gone = "1.prems"(3) and r = "1.prems"(4)
  show ?case
  proof (cases "b = 0")
    case True
    with r have "t = Idle cpu" "k' = k" by (simp_all add: get_top_thread_loop.simps)
    moreover have "\<not> eligible cpu k u" if "u \<in> set (run_queue k p)" for u p
      using gone True that q [rule_format, of p] by fastforce
    ultimately show ?thesis by (simp add: top_choice_def)
  next
    case False
    define h where "h = 32 - 1 - builtin_clz b"
    have h: "bit b h" "\<And>j. bit b j \<Longrightarrow> j \<le> h"
      using highest_bit_set [OF False] highest_bit_max [of b] by (auto simp: h_def highest_bit_def)
    show ?thesis
    proof (cases "find (eligible cpu k) (run_queue k h)")
      case None
      then have r': "get_top_thread_loop cpu k (bit_clear h b) = (t, k')"
        using r False by (simp add: get_top_thread_loop.simps [of cpu k b] Let_def h_def)
      show ?thesis
      proof (rule "1.IH" [OF False h_def None q _ _ r'])
        show "\<forall>p. bit (bit_clear h b) p \<longrightarrow> bit (run_queue_bitmap k) p" using sub by simp
        show "\<forall>p u. bit (run_queue_bitmap k) p \<longrightarrow> \<not> bit (bit_clear h b) p \<longrightarrow>
                u \<in> set (run_queue k p) \<longrightarrow> \<not> eligible cpu k u"
          using gone find_None_all [OF None] by auto
      qed
    next
      case (Some u)
      then have "t = u" "k' = run_queue_take h u k"
        using r False by (auto simp: get_top_thread_loop.simps [of cpu k b] Let_def h_def)
      moreover have "\<not> eligible cpu k v" if "h < p" "v \<in> set (run_queue k p)" for p v
        using gone h(2) [of p] that q [rule_format, of p] by fastforce
      ultimately show ?thesis using Some by (auto simp: top_choice_def)
    qed
  qed
qed

lemma get_top_thread_choice:
  "inv_q k \<Longrightarrow> get_top_thread cpu k = (t, k') \<Longrightarrow> top_choice cpu k t k'"
  unfolding get_top_thread_def
  by (rule get_top_thread_loop_choice [where b = "run_queue_bitmap k"]) (auto simp: inv_q_def)

lemma run_queue_take_simps [simp]:
  "current (run_queue_take q t k) = current k" "wqs (run_queue_take q t k) = wqs k"
  "tims (run_queue_take q t k) = tims k" "clock (run_queue_take q t k) = clock k"
  "thr (run_queue_take q t k) u =
     (if u = t then (thr k t)\<lparr>t_queue_node := Unlinked\<rparr> else thr k u)"
  "run_queue (run_queue_take q t k) p =
     (if p = q then remove1 t (run_queue k q) else run_queue k p)"
  by (simp_all add: run_queue_take_def Let_def)

text \<open>Taking a queued thread out leaves it ready and exempt from being queued.\<close>

lemma run_queue_take_inv:
  assumes inv: "sched_inv C X k" and t: "t \<in> set (run_queue k p)"
  shows "sched_inv C (insert t X) (run_queue_take p t k)"
proof (rule sched_invI)
  let ?k = "run_queue_take p t k"
  note parts = sched_invD [OF inv]
  have ok: "node_of k t = RunQ p" "live k t" "state_of k t = THREAD_READY" "\<not> is_idle k t"
    using parts(1) t by (auto simp: inv_q_def)
  have fl: "is_idle ?k u = is_idle k u"
    "thread_is_real_time_or_idle (thr ?k u) = thread_is_real_time_or_idle (thr k u)"
    "has_flag fg (thr ?k u) = has_flag fg (thr k u)" for u fg
    by (rule flags_cong; simp)+
  have bm: "bit (run_queue_bitmap ?k) q \<longleftrightarrow> run_queue ?k q \<noteq> []" for q
    using parts(1) by (auto simp: inv_q_def run_queue_take_def Let_def)
  have d: "distinct (run_queue k q)" for q using parts(1) by (simp add: inv_q_def)
  show "inv_q ?k"
    using parts(1) ok d unfolding inv_q_def fl bm by (auto simp: bm)
  show "inv_w ?k"
    using parts(2) ok unfolding inv_w_def fl by auto
  have "c \<in> C" if "current k c = Some t" for c
    using inv_c_outside [OF parts(3) that] ok(3) by auto
  then show "inv_c C ?k"
    using parts(3) ok unfolding inv_c_def by auto
  show "inv_r (insert t X) ?k"
    using parts(4) ok unfolding inv_r_def fl by auto
  show "inv_i ?k"
    using parts(5) ok unfolding inv_i_def fl by auto
  show "inv_t ?k"
    using parts(6) ok unfolding inv_t_def fl by auto
  show "inv_g ?k"
    using parts(7) ok unfolding inv_g_def stack_guard_intact_def fl by auto
qed

section \<open>The context switch\<close>

text \<open>The thread that was chosen, before it is made to run.\<close>

definition chosen :: "nat \<Rightarrow> tid \<Rightarrow> kstate \<Rightarrow> bool" where
  "chosen cpu t k \<longleftrightarrow> live k t \<and> state_of k t = THREAD_READY \<and> node_of k t = Unlinked \<and>
     eligible cpu k t \<and> 0 \<le> t_priority (thr k t) \<and> t_priority (thr k t) < NUM_PRIORITIES \<and>
     (\<forall>c. t = Idle c \<longrightarrow> c = cpu \<and> is_idle k t)"

lemma get_top_thread_chosen:
  assumes inv: "sched_inv {cpu} {} k" and cur: "current k cpu = Some old"
    and top: "get_top_thread cpu k = (t, k')"
  shows "sched_inv {cpu} {t} k' \<and> chosen cpu t k' \<and> current k' = current k \<and> tims k' = tims k \<and>
         clock k' = clock k \<and> wqs k' = wqs k \<and>
         (\<forall>u. thr k' u = (if u = t then (thr k t)\<lparr>t_queue_node := Unlinked\<rparr> else thr k u))"
proof -
  note parts = sched_invD [OF inv]
  from get_top_thread_choice [OF parts(1) top] show ?thesis
    unfolding top_choice_def
  proof (elim disjE exE conjE)
    fix p
    assume f: "find (eligible cpu k) (run_queue k p) = Some t" and k': "k' = run_queue_take p t k"
    then have t: "t \<in> set (run_queue k p)" "eligible cpu k t" by (auto dest: find_Some_mem)
    then have "node_of k t = RunQ p" "live k t" "state_of k t = THREAD_READY" "\<not> is_idle k t"
      "t_priority (thr k t) = int p" "p < 32" 
      using parts(1) by (auto simp: inv_q_def)
    moreover have "eligible cpu k' t" using t(2) by (simp add: eligible_def k')
    ultimately have "chosen cpu t k'"
      using parts(5) by (auto simp: chosen_def k' lk_defs inv_i_def)
    with run_queue_take_inv [OF inv t(1)] k' show ?thesis by simp
  next
    assume t: "t = Idle cpu" and k': "k' = k"
    have i: "live k t" "is_idle k t" "node_of k t = Unlinked" "t_pinned_cpu (thr k t) = int cpu"
      "state_of k t = THREAD_READY \<or> state_of k t = THREAD_RUNNING"
      "0 \<le> t_priority (thr k t)" "t_priority (thr k t) < NUM_PRIORITIES"
      using parts(5) cur by (auto simp: inv_i_def t)
    have "state_of k t \<noteq> THREAD_RUNNING"
      using parts(3,5) i(1) unfolding inv_c_def inv_i_def t by (metis insertCI)
    with i have "chosen cpu t k'" by (auto simp: chosen_def k' t eligible_def)
    moreover have "sched_inv {cpu} {t} k'"
      using inv i(2) unfolding sched_inv_def k' inv_r_def by blast
    ultimately show ?thesis using i(3) k' by auto
  qed
qed

text \<open>Making the chosen thread current on the cpu closes the invariant.\<close>

lemma dispatch_inv:
  assumes inv: "sched_inv {cpu} {t} k" and ch: "chosen cpu t k" and old: "current k cpu = Some old"
    and same: "run_queue k' = run_queue k" "run_queue_bitmap k' = run_queue_bitmap k" "wqs k' = wqs k"
    and cur: "current k' = (current k)(cpu \<mapsto> t)"
    and new: "tview (thr k' t) = tview ((thr k t)\<lparr>t_state := THREAD_RUNNING, t_curr_cpu := int cpu\<rparr>)"
    and others: "\<And>u. u \<noteq> t \<Longrightarrow> tview (thr k' u) =
                   (if u = old then tview ((thr k u)\<lparr>t_curr_cpu := -1\<rparr>) else tview (thr k u))"
    and t: "inv_t k'"
  shows "kinv k'"
proof (rule sched_invI)
  note parts = sched_invD [OF inv]
  have chf: "live k t" "state_of k t = THREAD_READY" "node_of k t = Unlinked"
    "0 \<le> t_priority (thr k t)" "t_priority (thr k t) < NUM_PRIORITIES"
    "t_pinned_cpu (thr k t) < 0 \<or> t_pinned_cpu (thr k t) = int cpu"
    using ch by (auto simp: chosen_def eligible_def)
  have eqs: "t_magic (thr k' u) = t_magic (thr k u)" "node_of k' u = node_of k u"
    "t_priority (thr k' u) = t_priority (thr k u)"
    "state_of k' u = (if u = t then THREAD_RUNNING else state_of k u)"
    "t_flags (thr k' u) = t_flags (thr k u)"
    "t_pinned_cpu (thr k' u) = t_pinned_cpu (thr k u)"
    "t_blocking_wait_queue (thr k' u) = t_blocking_wait_queue (thr k u)"
    "t_stack_pad (thr k' u) = t_stack_pad (thr k u)"
    "t_curr_cpu (thr k' u) = (if u = t then int cpu else if u = old then -1 else t_curr_cpu (thr k u))" for u
    by (cases "u = t"; cases "u = old"; use new others [of u] in \<open>simp add: tview_def\<close>)+
  note fl = flags_cong [OF eqs(5)]
  have elsewhere: "c = cpu" if "current k c = Some t" for c
    using inv_c_outside [OF parts(3) that] chf(2) by auto
  have oldc: "c = cpu" if "current k c = Some old" for c
    using parts(3) old that by (auto simp: inv_c_def)
  show "inv_q k'"
    using parts(1) chf unfolding inv_q_def same eqs fl by auto
  show "inv_w k'"
    using parts(2) chf unfolding inv_w_def same eqs fl by auto
  have old_nr: "state_of k old \<noteq> THREAD_RUNNING" using parts(3) old by (auto simp: inv_c_def)
  show "inv_c {} k'"
    unfolding inv_c_def cur eqs
  proof (intro conjI allI impI)
    fix u
    assume "live k u" "(if u = t then THREAD_RUNNING else state_of k u) = THREAD_RUNNING"
    then show "\<exists>c. ((current k)(cpu \<mapsto> t)) c = Some u"
    proof (cases "u = t")
      case False
      with \<open>live k u\<close> \<open>(if u = t then _ else _) = _\<close> obtain c where c: "current k c = Some u"
        using parts(3) by (auto simp: inv_c_def)
      with False old_nr old \<open>(if u = t then _ else _) = _\<close> have "c \<noteq> cpu" by auto
      with c show ?thesis by (intro exI [of _ c]) simp
    qed (intro exI [of _ cpu], simp)
  qed (use parts(3) chf elsewhere oldc in \<open>auto simp: inv_c_def split: if_splits\<close>)
  show "inv_r {} k'"
    using parts(4) chf unfolding inv_r_def eqs fl by auto
  show "inv_i k'"
    using parts(5) ch old unfolding inv_i_def cur eqs fl by (auto simp: chosen_def split: if_splits)
  show "inv_t k'" by (rule t)
  show "inv_g k'"
    using parts(7) chf unfolding inv_g_def stack_guard_intact_def eqs fl by auto
qed

end
