(* ===== verification/Kernel_Sched.thy ===== *)
theory Kernel_Sched
  imports Kernel_Inv
begin

text \<open>
  The scheduler keeps its invariant: the context switch (\<open>thread_resched_ok\<close>) and
  the thread operations built on it. Each lemma says that from a state of the invariant
  the operation runs to the end, so no assertion of the source fails, that the
  invariant holds again, and what the operation changed.
\<close>

section \<open>The preemption timer\<close>

lemma timer_set_periodic_ok:
  assumes "timers_ok ts" "tm_node (tmr ts t) = None" "tm_magic (tmr ts t) = TIMER_MAGIC"
  shows "\<exists>ts'. timer_set_periodic cpu now t p cb ts = Some ts' \<and> timers_ok ts' \<and>
           tm_node (tmr ts' t) = Some cpu \<and> tm_magic (tmr ts' t) = TIMER_MAGIC \<and>
           tm_callback (tmr ts' t) = Some cb \<and> tm_periodic_time (tmr ts' t) = (if p = 0 then 1 else p) \<and>
           (\<forall>u. u \<noteq> t \<longrightarrow> tmr ts' u = tmr ts u)"
proof -
  define q where "q = (if p = 0 then 1 else p)"
  obtain ts' where "timer_set cpu now t q q cb ts = Some ts'" "timers_ok ts'"
    "tmr ts' t = (tmr ts t)\<lparr>tm_node := Some cpu, tm_scheduled_time := now + q,
       tm_periodic_time := q, tm_callback := Some cb\<rparr>" "\<forall>u. u \<noteq> t \<longrightarrow> tmr ts' u = tmr ts u"
    using timer_set_ok [OF assms, of cpu now q q cb] by blast
  then show ?thesis
    using assms(3) unfolding timer_set_periodic_def Let_def q_def [symmetric] by simp
qed

lemma timer_set_oneshot_ok:
  assumes "timers_ok ts" "tm_node (tmr ts t) = None"
  shows "\<exists>ts'. timer_set_oneshot cpu now t d cb (timer_initialize t ts) = Some ts' \<and> timers_ok ts' \<and>
           tm_node (tmr ts' t) = Some cpu \<and> tm_magic (tmr ts' t) = TIMER_MAGIC \<and>
           tm_callback (tmr ts' t) = Some cb \<and> tm_periodic_time (tmr ts' t) = 0 \<and>
           (\<forall>u. u \<noteq> t \<longrightarrow> tmr ts' u = tmr ts u) \<and>
           tm_scheduled_time (tmr ts' t) = now + (if d = 0 then 1 else d)"
proof -
  let ?ts = "timer_initialize t ts"
  define q where "q = (if d = 0 then 1 else d)"
  have i: "tmr ?ts u = (if u = t then TIMER_INITIAL_VALUE else tmr ts u)" for u
    by (simp add: timer_initialize_def)
  have "timers_ok ?ts" using assms by (rule timers_ok_initialize)
  then obtain ts' where "timer_set cpu now t q 0 cb ?ts = Some ts'" "timers_ok ts'"
    "tmr ts' t = (tmr ?ts t)\<lparr>tm_node := Some cpu, tm_scheduled_time := now + q,
       tm_periodic_time := 0, tm_callback := Some cb\<rparr>" "\<forall>u. u \<noteq> t \<longrightarrow> tmr ts' u = tmr ?ts u"
    using timer_set_ok [of ?ts t cpu now q 0 cb] by (auto simp: i TIMER_INITIAL_VALUE_def)
  then show ?thesis
    unfolding timer_set_oneshot_def q_def [symmetric] by (simp add: i TIMER_INITIAL_VALUE_def)
qed

lemma switch_preempt_timer_ok:
  assumes "timers_ok ts" "tm_magic (tmr ts (PreemptTimer cpu)) = TIMER_MAGIC"
    "tm_node (tmr ts (PreemptTimer cpu)) = (if old_rt then None else Some cpu)"
    "tm_node (tmr ts (PreemptTimer cpu)) \<noteq> None \<longrightarrow> preempt_timer_armed cpu (tmr ts (PreemptTimer cpu))"
  shows "\<exists>ts'. switch_preempt_timer cpu now old_rt new_rt ts = Some ts' \<and> timers_ok ts' \<and>
           tm_magic (tmr ts' (PreemptTimer cpu)) = TIMER_MAGIC \<and>
           tm_node (tmr ts' (PreemptTimer cpu)) = (if new_rt then None else Some cpu) \<and>
           (tm_node (tmr ts' (PreemptTimer cpu)) \<noteq> None \<longrightarrow>
              preempt_timer_armed cpu (tmr ts' (PreemptTimer cpu))) \<and>
           (\<forall>u. u \<noteq> PreemptTimer cpu \<longrightarrow> tmr ts' u = tmr ts u)"
proof (cases "new_rt = old_rt")
  case True
  then show ?thesis using assms by (auto simp: switch_preempt_timer_def)
next
  case False
  show ?thesis
  proof (cases new_rt)
    case True
    with False timer_cancel_ok [OF assms(1,2), of cpu now] show ?thesis
      by (auto simp: switch_preempt_timer_def)
  next
    case rt: False
    with False assms have "tm_node (tmr ts (PreemptTimer cpu)) = None" by simp
    from timer_set_periodic_ok [OF assms(1) this assms(2), of cpu now 10 thread_timer_tick_cb]
    show ?thesis using rt False by (auto simp: switch_preempt_timer_def preempt_timer_armed_def)
  qed
qed

section \<open>The context switch\<close>

text \<open>
  What a context switch on \<open>cpu\<close> to thread \<open>t\<close> does to the kernel state: it only
  moves \<open>t\<close> from its run queue to the cpu. \<open>wview\<close> is what the wait queues and
  their clients read of a thread.
\<close>

definition wview where
  "wview th = (t_magic th, t_flags th, t_priority th, t_pinned_cpu th,
     t_blocking_wait_queue th, t_wait_queue_block_ret th, t_retcode th, t_stack th)"

definition switched :: "nat \<Rightarrow> tid \<Rightarrow> kstate \<Rightarrow> kstate \<Rightarrow> bool" where
  "switched cpu t k k' \<longleftrightarrow>
     current k' = (current k)(cpu \<mapsto> t) \<and> wqs k' = wqs k \<and> clock k' = clock k \<and>
     state_of k t = THREAD_READY \<and> live k t \<and>
     thread_list k' = thread_list k \<and> heap_log k' = heap_log k \<and>
     (\<forall>p. run_queue k' p = remove1 t (run_queue k p)) \<and>
     (\<forall>u. wview (thr k' u) = wview (thr k u) \<and>
          state_of k' u = (if u = t then THREAD_RUNNING else state_of k u) \<and>
          node_of k' u = (if u = t then Unlinked else node_of k u)) \<and>
     (\<forall>u. tmr (tims k') (StackTimer u) = tmr (tims k) (StackTimer u)) \<and>
     (\<forall>u. tmr (tims k') (UserTimer u) = tmr (tims k) (UserTimer u)) \<and>
     (\<forall>c. c \<noteq> cpu \<longrightarrow> tmr (tims k') (PreemptTimer c) = tmr (tims k) (PreemptTimer c))"

text \<open>No thread that may run on the cpu waits with a priority above that of the thread it runs.\<close>

definition top_running :: "nat \<Rightarrow> tid \<Rightarrow> kstate \<Rightarrow> bool" where
  "top_running cpu t k \<longleftrightarrow>
     (\<forall>u p. node_of k u = RunQ p \<longrightarrow> eligible cpu k u \<longrightarrow>
        \<not> is_idle k t \<and> t_priority (thr k u) \<le> t_priority (thr k t))"

lemma switch_frame [simp]:
  "thr (switch_mp c t k) = thr k" "current (switch_mp c t k) = current k"
  "wqs (switch_mp c t k) = wqs k" "tims (switch_mp c t k) = tims k"
  "run_queue (switch_mp c t k) = run_queue k" "clock (switch_mp c t k) = clock k"
  "run_queue_bitmap (switch_mp c t k) = run_queue_bitmap k"
  "thread_list (switch_mp c t k) = thread_list k" "heap_log (switch_mp c t k) = heap_log k"
  "thr (switch_stats c o' t k) = thr k" "current (switch_stats c o' t k) = current k"
  "wqs (switch_stats c o' t k) = wqs k" "tims (switch_stats c o' t k) = tims k"
  "run_queue (switch_stats c o' t k) = run_queue k" "clock (switch_stats c o' t k) = clock k"
  "run_queue_bitmap (switch_stats c o' t k) = run_queue_bitmap k"
  "thread_list (switch_stats c o' t k) = thread_list k"
  "heap_log (switch_stats c o' t k) = heap_log k"
  by (simp_all add: switch_mp_def switch_stats_def Let_def mp_set_cpu_idle_def mp_set_cpu_busy_def
      mp_set_cpu_realtime_def mp_set_cpu_non_realtime_def upd_stats_def)

lemma pre_switch_simps [simp]:
  "current (pre_switch c old t k) = current k" "wqs (pre_switch c old t k) = wqs k"
  "tims (pre_switch c old t k) = tims k" "clock (pre_switch c old t k) = clock k"
  "run_queue (pre_switch c old t k) = run_queue k"
  "run_queue_bitmap (pre_switch c old t k) = run_queue_bitmap k"
  "thread_list (pre_switch c old t k) = thread_list k" "heap_log (pre_switch c old t k) = heap_log k"
  "t_flags (thr (pre_switch c old t k) u) = t_flags (thr k u)"
  "state_of (pre_switch c old t k) u = state_of k u" "node_of (pre_switch c old t k) u = node_of k u"
  "t_magic (thr (pre_switch c old t k) u) = t_magic (thr k u)"
  "wview (thr (pre_switch c old t k) u) = wview (thr k u)"
  "t_stack_pad (thr (pre_switch c old t k) u) = t_stack_pad (thr k u)"
  "t_priority (thr (pre_switch c old t k) u) = t_priority (thr k u)"
  "t_pinned_cpu (thr (pre_switch c old t k) u) = t_pinned_cpu (thr k u)"
  "t_blocking_wait_queue (thr (pre_switch c old t k) u) = t_blocking_wait_queue (thr k u)"
  "t_curr_cpu (thr (pre_switch c old t k) u) =
     (if u = t then int c else if u = old then -1 else t_curr_cpu (thr k u))"
  by (auto simp: pre_switch_def Let_def upd_thread_def wview_def)

lemma thread_list_simps [simp]:
  "thread_list (upd_thread t f k) = thread_list k" "heap_log (upd_thread t f k) = heap_log k"
  "thread_list (upd_stats c g k) = thread_list k" "heap_log (upd_stats c g k) = heap_log k"
  "thread_list (run_queue_take p t k) = thread_list k" "heap_log (run_queue_take p t k) = heap_log k"
  "thread_list (ins_head t k) = thread_list k" "heap_log (ins_head t k) = heap_log k"
  "thread_list (ins_tail t k) = thread_list k" "heap_log (ins_tail t k) = heap_log k"
  "thread_list (upd_wq w h k) = thread_list k" "heap_log (upd_wq w h k) = heap_log k"
  "thread_list (mp_reschedule c m fl k) = thread_list k" "heap_log (mp_reschedule c m fl k) = heap_log k"
  by (simp_all add: upd_thread_def upd_stats_def run_queue_take_def ins_head_def ins_tail_def
      upd_wq_def mp_reschedule_def Let_def)

lemma top_choice_frame:
  assumes "inv_q k" "inv_i k" "current k cpu \<noteq> None" "top_choice cpu k t k'"
  shows "thread_list k' = thread_list k" "heap_log k' = heap_log k"
    "run_queue k' p = remove1 t (run_queue k p)"
proof -
  have mem: "u \<in> set (run_queue k r) \<longleftrightarrow> node_of k u = RunQ r" for u r
    using assms(1) by (simp add: inv_q_def)
  have "Idle cpu \<notin> set (run_queue k r)" for r
    using assms(2,3) by (auto simp: mem inv_i_def)
  then show "run_queue k' p = remove1 t (run_queue k p)"
    using assms(4) unfolding top_choice_def
    by (auto dest!: find_Some_mem simp: mem remove1_idem)
  show "thread_list k' = thread_list k" "heap_log k' = heap_log k"
    using assms(4) by (auto simp: top_choice_def)
qed

lemma picked_top_running:
  assumes q: "inv_q k" and ch: "picked cpu k t"
    and n: "\<And>u. node_of k' u = (if u = t then Unlinked else node_of k u)"
    and v: "\<And>u. wview (thr k' u) = wview (thr k u)"
  shows "top_running cpu t k'"
  unfolding top_running_def
proof (intro allI impI)
  fix u p
  assume u: "node_of k' u = RunQ p" "eligible cpu k' u"
  have pv: "t_priority (thr k' x) = t_priority (thr k x)" "t_flags (thr k' x) = t_flags (thr k x)"
    "t_pinned_cpu (thr k' x) = t_pinned_cpu (thr k x)" for x
    using v [of x] by (simp_all add: wview_def)
  have mem: "x \<in> set (run_queue k r) \<longleftrightarrow> node_of k x = RunQ r" for x r
    using q by (simp add: inv_q_def)
  have pr: "t_priority (thr k x) = int r \<and> \<not> is_idle k x" if "node_of k x = RunQ r" for x r
    using q that by (simp add: inv_q_def)
  from u have uk: "node_of k u = RunQ p" "eligible cpu k u"
    by (auto simp: n eligible_def pv split: if_splits)
  from ch obtain r where r: "find (eligible cpu k) (run_queue k r) = Some t"
    "\<forall>q u. r < q \<longrightarrow> u \<in> set (run_queue k q) \<longrightarrow> \<not> eligible cpu k u"
    using uk by (auto simp: picked_def mem)
  then have t: "node_of k t = RunQ r" by (auto dest: find_Some_mem simp: mem)
  have "p \<le> r" using r(2) uk mem by (meson leI)
  then show "\<not> is_idle k' t \<and> t_priority (thr k' u) \<le> t_priority (thr k' t)"
    using pr [OF t] pr [OF uk(1)] flags_cong(2) [OF pv(2)] by (simp add: pv)
qed

text \<open>The switch to a chosen thread other than the current one.\<close>

lemma context_switch_ok:
  assumes inv: "sched_inv {cpu} {t} k" and ch: "chosen cpu t k" and cur: "current k cpu = Some old"
    and ne: "t \<noteq> old"
  shows "\<exists>k'. context_switch cpu old t (upd_thread t (\<lambda>th. th\<lparr>t_state := THREAD_RUNNING\<rparr>) k) = Some k' \<and>
           kinv k' \<and> switched cpu t k k' \<and> run_queue k' = run_queue k"
proof -
  let ?k = "upd_thread t (\<lambda>th. th\<lparr>t_state := THREAD_RUNNING\<rparr>) k"
  let ?o = "thread_is_real_time_or_idle (thr k old)" and ?n = "thread_is_real_time_or_idle (thr k t)"
  note parts = sched_invD [OF inv]
  obtain ts where ts: "switch_preempt_timer cpu (clock k) ?o ?n (tims k) = Some ts" "timers_ok ts"
    "tm_magic (tmr ts (PreemptTimer cpu)) = TIMER_MAGIC"
    "tm_node (tmr ts (PreemptTimer cpu)) = (if ?n then None else Some cpu)"
    "tm_node (tmr ts (PreemptTimer cpu)) \<noteq> None \<longrightarrow> preempt_timer_armed cpu (tmr ts (PreemptTimer cpu))"
    "\<And>u. u \<noteq> PreemptTimer cpu \<Longrightarrow> tmr ts u = tmr (tims k) u"
    using switch_preempt_timer_ok [of "tims k" cpu ?o "clock k" ?n] parts(6) cur
    by (auto simp: inv_t_def)
  define q where "q = pre_switch cpu old t ?k"
  have q: "clock q = clock k" "tims q = tims k" "current q = current k"
    "thread_is_real_time_or_idle (thr q u) = thread_is_real_time_or_idle (thr k u)" for u
    unfolding q_def by (simp_all, rule flags_cong) simp
  define k3 where "k3 = q\<lparr>tims := ts, current := (current k)(cpu \<mapsto> t)\<rparr>"
  have k3: "current k3 = (current k)(cpu \<mapsto> t)" "tims k3 = ts" "run_queue k3 = run_queue k"
    "run_queue_bitmap k3 = run_queue_bitmap k" "wqs k3 = wqs k"
    "state_of k3 u = (if u = t then THREAD_RUNNING else state_of k u)"
    "t_magic (thr k3 u) = t_magic (thr k u)" "t_flags (thr k3 u) = t_flags (thr k u)" for u
    by (auto simp: k3_def q_def)
  have wv: "wview ((thr k t)\<lparr>t_state := THREAD_RUNNING\<rparr>) = wview (thr k t)" by (simp add: wview_def)
  have "preempt_timer_armed c (tmr ts (PreemptTimer c)) \<and> current k3 c \<noteq> None"
    if "tm_node (tmr ts (PreemptTimer c)) \<noteq> None" for c
    using that ts(5) ts(6) [of "PreemptTimer c"] parts(6)
    by (cases "c = cpu") (auto simp: inv_t_def k3)
  then have "inv_t k3"
    using parts(6) ts(2-4) unfolding inv_t_def k3 flags_cong [OF k3(8)]
    by (auto simp: ts(6) split: if_splits)
  moreover have "tview (thr k3 u) = (if u = t then tview ((thr k t)\<lparr>t_state := THREAD_RUNNING,
      t_curr_cpu := int cpu\<rparr>) else if u = old then tview ((thr k u)\<lparr>t_curr_cpu := -1\<rparr>)
      else tview (thr k u))" for u
    by (simp add: k3_def q_def tview_def)
  ultimately have kinv3: "kinv k3"
    by (intro dispatch_inv [OF inv ch cur k3(3-5,1)]) auto
  define k4 where "k4 = (if t_aspace (thr k3 t) \<noteq> t_aspace (thr k3 old)
    then k3\<lparr>mmu_aspace := (mmu_aspace k3)(cpu := t_aspace (thr k3 t))\<rparr> else k3)"
  have "stack_guard_intact (thr k3 old)"
    using sched_invD(7) [OF kinv3] by (simp add: inv_g_def)
  then have "context_switch cpu old t ?k = Some k4"
    using ts(1) unfolding context_switch_def q_def [symmetric] by (simp add: q k4_def k3_def)
  moreover have "kinv k4" using kinv3 by (simp add: k4_def inv_frame)
  moreover have "t \<notin> set (run_queue k p)" for p
    using parts(1) ch by (simp add: inv_q_def chosen_def)
  then have "switched cpu t k k3"
    using ch ts(6) by (simp add: switched_def k3_def q_def wv remove1_idem chosen_def)
  then have "switched cpu t k k4"
    by (simp add: switched_def k4_def)
  moreover have "run_queue k4 = run_queue k" by (simp add: k4_def k3)
  ultimately show ?thesis by blast
qed

theorem thread_resched_ok:
  assumes inv: "sched_inv {cpu} {} k" and cur: "current k cpu = Some old"
  shows "\<exists>k' t. thread_resched cpu k = Some k' \<and> kinv k' \<and> switched cpu t k k' \<and>
           top_running cpu t k' \<and> picked cpu k t"
proof -
  let ?k0 = "upd_stats cpu (\<lambda>s. s\<lparr>reschedules := reschedules s + 1\<rparr>) k"
  obtain t k1 where top: "get_top_thread cpu ?k0 = (t, k1)" by fastforce
  have inv0: "sched_inv {cpu} {} ?k0" using inv by (simp add: inv_frame)
  note c1 = get_top_thread_chosen [OF inv0 _ top, simplified, OF cur]
  have tc: "top_choice cpu ?k0 t k1"
    by (rule get_top_thread_choice [OF sched_invD(1) [OF inv0] top])
  have el: "eligible cpu ?k0 = eligible cpu k" by (rule ext) (simp add: eligible_def)
  have pk: "picked cpu k t"
    using top_choice_picked [OF tc] by (simp add: picked_def el)
  have rq: "run_queue k1 p = remove1 t (run_queue k p)" "thread_list k1 = thread_list k"
    "heap_log k1 = heap_log k" for p
    using top_choice_frame [OF sched_invD(1,5) [OF inv0] _ tc] cur by simp_all
  have nr: "state_of k old \<noteq> THREAD_RUNNING"
    using sched_invD(3) [OF inv] cur by (auto simp: inv_c_def)
  have inv1: "sched_inv {cpu} {t} k1" and ch: "chosen cpu t k1"
    and k1: "current k1 = current k" "tims k1 = tims k" "clock k1 = clock k" "wqs k1 = wqs k"
    and thr1: "\<And>u. thr k1 u = (if u = t then (thr k t)\<lparr>t_queue_node := Unlinked\<rparr> else thr k u)"
    using c1 by auto
  have rdy: "state_of k t = THREAD_READY" "live k t"
    using ch by (auto simp: chosen_def thr1)
  note parts = sched_invD [OF inv1]
  have cur1: "current k1 cpu = Some old" using cur k1 by simp
  have fin: "\<exists>k' t. thread_resched cpu k = Some k' \<and> kinv k' \<and> switched cpu t k k' \<and>
           top_running cpu t k' \<and> picked cpu k t"
    if "thread_resched cpu k = Some k'" "kinv k'" "switched cpu t k k'" for k'
    using that pk picked_top_running [OF sched_invD(1) [OF inv] pk, of k']
    by (auto simp: switched_def)
  show ?thesis
  proof (cases "t = old")
    case True
    let ?k = "upd_thread t (\<lambda>th. th\<lparr>t_state := THREAD_RUNNING\<rparr>) k1"
    have cc: "t_curr_cpu (thr k1 t) = int cpu"
      using parts(3) cur1 True by (simp add: inv_c_def)
    have "inv_t ?k"
      using parts(6) unfolding inv_t_def
      by (auto simp: thread_is_real_time_or_idle_def has_flag_def split: if_splits)
    then have "kinv ?k"
      by (intro dispatch_inv [OF inv1 ch cur1])
        (use True cur1 cc in \<open>auto simp: tview_def\<close>)
    moreover have "thread_resched cpu k = Some ?k"
      using nr by (simp add: thread_resched_def cur top True)
    moreover have "switched cpu t k ?k"
      using True cur rdy by (auto simp: switched_def k1 rq thr1 wview_def)
    ultimately show ?thesis by (intro fin)
  next
    case False
    obtain k' where k': "context_switch cpu old t
        (upd_thread t (\<lambda>th. th\<lparr>t_state := THREAD_RUNNING\<rparr>) k1) = Some k'" "kinv k'" 
      "switched cpu t k1 k'" "run_queue k' = run_queue k1"
      using context_switch_ok [OF inv1 ch cur1 False] by blast
    have "thread_resched cpu k = Some k'"
      using nr False k'(1) by (simp add: thread_resched_def cur top)
    moreover have "switched cpu t k k'"
      using k'(3,4) rdy by (auto simp: switched_def k1 rq thr1 wview_def)
    ultimately show ?thesis using k'(2) by (intro fin)
  qed
qed

end
