(* ===== verification/Kernel_Ops.thy ===== *)
theory Kernel_Ops
  imports Kernel_Sched
begin

text \<open>
  The thread operations keep the scheduler's invariant. First the moves of one thread that
  the operations are made of (a running thread stops running, a thread becomes ready, a
  thread leaves or enters a wait queue), each with the effect it has on the invariant's two
  parameters; then the operations, as compositions of these moves, a queue insertion and a
  context switch.
\<close>

section \<open>Moves of one thread\<close>

text \<open>The running thread of a cpu becomes ready, sleeping or dead.\<close>

lemma leave_running:
  assumes inv: "sched_inv {} X k" and cur: "current k cpu = Some t"
    and same: "run_queue k' = run_queue k" "run_queue_bitmap k' = run_queue_bitmap k"
      "current k' = current k" "wqs k' = wqs k"
    and th: "\<And>u. thr k' u = (if u = t then th else thr k u)"
    and v: "tview th = tview ((thr k t)\<lparr>t_state := s, t_priority := p\<rparr>)"
    and s: "s = THREAD_READY \<or> s \<in> {THREAD_SLEEPING, THREAD_DEATH} \<and> \<not> is_idle k t"
    and p: "0 \<le> p" "p < NUM_PRIORITIES"
    and t: "inv_t k'"
  shows "sched_inv {cpu} (if s = THREAD_READY then insert t X else X) k'"
proof (rule sched_invI)
  note parts = sched_invD [OF inv]
  have run: "live k t" "state_of k t = THREAD_RUNNING" "node_of k t = Unlinked"
    using inv_c_outside [OF parts(3) cur] by auto
  have ths: "t_magic th = THREAD_MAGIC" "t_queue_node th = Unlinked" "t_state th = s"
    "t_priority th = p" "t_flags th = t_flags (thr k t)" "t_curr_cpu th = t_curr_cpu (thr k t)"
    "t_pinned_cpu th = t_pinned_cpu (thr k t)" "t_stack_pad th = t_stack_pad (thr k t)"
    "t_blocking_wait_queue th = t_blocking_wait_queue (thr k t)"
    using v run by (auto simp: tview_def)
  have fl0: "t_flags (thr k' u) = t_flags (thr k u)" for u by (simp add: th ths)
  note fl = flags_cong [OF fl0]
  have one: "c = cpu" if "current k c = Some t" for c
    using parts(3) cur that by (auto simp: inv_c_def)
  have s': "s \<noteq> THREAD_RUNNING" "s \<noteq> THREAD_BLOCKED" "s \<noteq> THREAD_SUSPENDED" using s by auto
  show "inv_q k'"
    using parts(1) run unfolding inv_q_def same fl by (auto simp: th ths)
  show "inv_w k'"
    using parts(2) run s' unfolding inv_w_def same fl by (auto simp: th ths)
  show "inv_c {cpu} k'"
    using parts(3) run s' one unfolding inv_c_def same by (auto simp: th ths)
  show "inv_r (if s = THREAD_READY then insert t X else X) k'"
    using parts(4) s' unfolding inv_r_def fl by (auto simp: th ths)
  show "inv_i k'"
    using parts(5) run s p unfolding inv_i_def same fl by (auto simp: th ths)
  show "inv_t k'" by (rule t)
  show "inv_g k'"
    using parts(7) run s s' p unfolding inv_g_def stack_guard_intact_def fl by (auto simp: th ths)
qed

text \<open>A thread that is in no queue and not running becomes ready.\<close>

lemma make_ready:
  assumes inv: "sched_inv C X k" and t: "live k t" "state_of k t \<in> {THREAD_SLEEPING, THREAD_SUSPENDED}"
  shows "sched_inv C (insert t X) (upd_thread t (\<lambda>th. th\<lparr>t_state := THREAD_READY\<rparr>) k)"
proof (rule sched_invI)
  let ?k = "upd_thread t (\<lambda>th. th\<lparr>t_state := THREAD_READY\<rparr>) k"
  note parts = sched_invD [OF inv]
  have u: "node_of k t = Unlinked" "\<not> is_idle k t" using parts(7) t by (auto simp: inv_g_def)
  have fl0: "t_flags (thr ?k u) = t_flags (thr k u)" for u by simp
  note fl = flags_cong [OF fl0]
  have nc: "c \<in> C" if "current k c = Some t" for c
    using inv_c_outside [OF parts(3) that] t(2) by (cases "c \<in> C") auto
  show "inv_q ?k" using parts(1) u unfolding inv_q_def fl by auto
  show "inv_w ?k" using parts(2) u unfolding inv_w_def fl by auto
  show "inv_c C ?k" using parts(3) nc unfolding inv_c_def by auto
  show "inv_r (insert t X) ?k" using parts(4) unfolding inv_r_def fl by auto
  show "inv_i ?k" using parts(5) t u unfolding inv_i_def fl by auto
  show "inv_t ?k" using parts(6) unfolding inv_t_def fl by auto
  show "inv_g ?k" using parts(7) unfolding inv_g_def stack_guard_intact_def fl by auto
qed

text \<open>A blocked thread leaves its wait queue and becomes ready.\<close>

lemma unblock_inv:
  assumes inv: "sched_inv C X k" and t: "node_of k t = WaitQ w"
    and same: "run_queue k' = run_queue k" "run_queue_bitmap k' = run_queue_bitmap k"
      "current k' = current k" "tims k' = tims k"
    and wq: "\<And>v. wqs k' v = (if v = w then (wqs k w)\<lparr>wq_list := remove1 t (wq_list (wqs k w)),
               wq_count := wq_count (wqs k w) - 1\<rparr> else wqs k v)"
    and th: "\<And>u. thr k' u = (if u = t then (thr k t)\<lparr>t_queue_node := Unlinked, t_state := THREAD_READY,
               t_wait_queue_block_ret := r, t_blocking_wait_queue := None\<rparr> else thr k u)"
  shows "sched_inv C (insert t X) k'"
proof (rule sched_invI)
  note parts = sched_invD [OF inv]
  have b: "live k t" "state_of k t = THREAD_BLOCKED" "\<not> is_idle k t" "t \<in> set (wq_list (wqs k w))"
    using parts(2) t by (auto simp: inv_w_def)
  have fl0: "t_flags (thr k' u) = t_flags (thr k u)" for u by (simp add: th)
  note fl = flags_cong [OF fl0]
  have nc: "c \<in> C" if "current k c = Some t" for c
    using inv_c_outside [OF parts(3) that] b(2) by (cases "c \<in> C") auto
  have d: "distinct (wq_list (wqs k v))" for v using parts(2) by (simp add: inv_w_def)
  show "inv_q k'" using parts(1) t unfolding inv_q_def same fl by (auto simp: th)
  have len: "int (length (wq_list (wqs k w)) - Suc 0) = int (length (wq_list (wqs k w))) - 1"
    and ne: "wq_list (wqs k w) \<noteq> []"
    using b(4) by (cases "wq_list (wqs k w)"; simp)+
  show "inv_w k'" using parts(2) t b d ne unfolding inv_w_def fl
    by (auto simp: th wq length_remove1 len)
  show "inv_c C k'" using parts(3) nc unfolding inv_c_def same by (auto simp: th)
  show "inv_r (insert t X) k'" using parts(4) unfolding inv_r_def fl by (auto simp: th)
  show "inv_i k'" using parts(5) b unfolding inv_i_def same fl by (auto simp: th)
  show "inv_t k'" using parts(6) unfolding inv_t_def same fl by (auto simp: th)
  show "inv_g k'" using parts(7) unfolding inv_g_def stack_guard_intact_def fl by (auto simp: th)
qed

text \<open>The running thread of a cpu blocks at the end of a wait queue.\<close>

lemma block_inv:
  assumes inv: "sched_inv {} {} k" and cur: "current k cpu = Some t" and ni: "\<not> is_idle k t"
    and m: "wq_magic (wqs k w) = WAIT_QUEUE_MAGIC"
    and same: "run_queue k' = run_queue k" "run_queue_bitmap k' = run_queue_bitmap k"
      "current k' = current k"
    and wq: "\<And>v. wqs k' v = (if v = w then (wqs k w)\<lparr>wq_list := wq_list (wqs k w) @ [t],
               wq_count := wq_count (wqs k w) + 1\<rparr> else wqs k v)"
    and th: "\<And>u. thr k' u = (if u = t then (thr k t)\<lparr>t_queue_node := WaitQ w, t_state := THREAD_BLOCKED,
               t_blocking_wait_queue := Some w, t_wait_queue_block_ret := r\<rparr> else thr k u)"
    and tm: "inv_t k'"
  shows "sched_inv {cpu} {} k'"
proof (rule sched_invI)
  note parts = sched_invD [OF inv]
  have run: "live k t" "state_of k t = THREAD_RUNNING" "node_of k t = Unlinked"
    "0 \<le> t_priority (thr k t)" "t_priority (thr k t) < NUM_PRIORITIES"
    using inv_c_outside [OF parts(3) cur] by auto
  have fl0: "t_flags (thr k' u) = t_flags (thr k u)" for u by (simp add: th)
  note fl = flags_cong [OF fl0]
  have one: "c = cpu" if "current k c = Some t" for c
    using parts(3) cur that by (auto simp: inv_c_def)
  show "inv_q k'" using parts(1) run unfolding inv_q_def same fl by (auto simp: th)
  show "inv_w k'" using parts(2) run ni m unfolding inv_w_def fl by (auto simp: th wq)
  show "inv_c {cpu} k'" using parts(3) run one unfolding inv_c_def same by (auto simp: th)
  show "inv_r {} k'" using parts(4) unfolding inv_r_def fl by (auto simp: th)
  show "inv_i k'" using parts(5) run ni unfolding inv_i_def same fl by (auto simp: th)
  show "inv_t k'" by (rule tm)
  show "inv_g k'" using parts(7) unfolding inv_g_def stack_guard_intact_def fl by (auto simp: th)
qed

section \<open>What a context switch leaves alone\<close>

text \<open>
  Between two states only run queues, the choice of running threads and statistics differ:
  threads go back and forth between ready and running, and only on this cpu does the
  current thread change.
\<close>

definition ready_or_running :: "thread_state \<Rightarrow> bool" where
  "ready_or_running s \<longleftrightarrow> s = THREAD_READY \<or> s = THREAD_RUNNING"

definition quiet :: "nat \<Rightarrow> kstate \<Rightarrow> kstate \<Rightarrow> bool" where
  "quiet cpu k k' \<longleftrightarrow>
     wqs k' = wqs k \<and> clock k' = clock k \<and> thread_list k' = thread_list k \<and>
     heap_log k' = heap_log k \<and> (\<forall>c. c \<noteq> cpu \<longrightarrow> current k' c = current k c) \<and>
     (\<forall>u. wview (thr k' u) = wview (thr k u) \<and>
          (state_of k' u = state_of k u \<or>
           ready_or_running (state_of k' u) \<and> ready_or_running (state_of k u))) \<and>
     (\<forall>u. tmr (tims k') (StackTimer u) = tmr (tims k) (StackTimer u)) \<and>
     (\<forall>u. tmr (tims k') (UserTimer u) = tmr (tims k) (UserTimer u)) \<and>
     (\<forall>c. c \<noteq> cpu \<longrightarrow> tmr (tims k') (PreemptTimer c) = tmr (tims k) (PreemptTimer c))"

lemma quiet_refl [simp]: "quiet cpu k k"
  by (simp add: quiet_def)

lemma quiet_trans: "quiet cpu k k' \<Longrightarrow> quiet cpu k' k'' \<Longrightarrow> quiet cpu k k''"
  unfolding quiet_def by (auto; metis)

lemma quiet_switched: "switched cpu t k k' \<Longrightarrow> quiet cpu k k'"
  by (auto simp: switched_def quiet_def ready_or_running_def)

lemma quiet_frame:
  "quiet cpu k (upd_stats c g k)" "quiet cpu k (mp_reschedule c m fl k)"
  "quiet cpu k (ins_head t k)" "quiet cpu k (ins_tail t k)"
  by (simp_all add: quiet_def wview_def)

lemma quiet_ready:
  "ready_or_running (state_of k t) \<Longrightarrow> wview (f (thr k t)) = wview (thr k t) \<Longrightarrow>
   t_state (f (thr k t)) = THREAD_READY \<Longrightarrow> quiet cpu k (upd_thread t f k)"
  by (auto simp: quiet_def ready_or_running_def)

lemma quietD:
  assumes "quiet cpu k k'"
  shows "wqs k' = wqs k" "clock k' = clock k" "wview (thr k' u) = wview (thr k u)"
    "live k' u \<longleftrightarrow> live k u" "t_flags (thr k' u) = t_flags (thr k u)"
    "t_priority (thr k' u) = t_priority (thr k u)"
    "t_wait_queue_block_ret (thr k' u) = t_wait_queue_block_ret (thr k u)"
    "t_retcode (thr k' u) = t_retcode (thr k u)"
    "tmr (tims k') (StackTimer u) = tmr (tims k) (StackTimer u)"
    "c \<noteq> cpu \<Longrightarrow> current k' c = current k c"
  using assms by (auto simp: quiet_def wview_def)

lemma quiet_state:
  "quiet cpu k k' \<Longrightarrow> \<not> ready_or_running s \<Longrightarrow> state_of k' u = s \<longleftrightarrow> state_of k u = s"
  unfolding quiet_def by metis

lemma ready_or_running_simps [simp]:
  "ready_or_running THREAD_READY" "ready_or_running THREAD_RUNNING"
  "\<not> ready_or_running THREAD_BLOCKED" "\<not> ready_or_running THREAD_SLEEPING"
  "\<not> ready_or_running THREAD_SUSPENDED" "\<not> ready_or_running THREAD_DEATH"
  by (simp_all add: ready_or_running_def)

lemma running_facts:
  assumes "sched_inv {} X k" "current k cpu = Some t"
  shows "live k t" "state_of k t = THREAD_RUNNING" "node_of k t = Unlinked"
    "0 \<le> t_priority (thr k t)" "t_priority (thr k t) < NUM_PRIORITIES"
  using inv_c_outside [OF sched_invD(3) [OF assms(1)] assms(2)] by auto

text \<open>After the switch the highest eligible thread runs.\<close>

definition rescheduled :: "nat \<Rightarrow> kstate \<Rightarrow> kstate option \<Rightarrow> bool" where
  "rescheduled cpu k r \<longleftrightarrow>
     (\<exists>k' t. r = Some k' \<and> kinv k' \<and> quiet cpu k k' \<and> current k' cpu = Some t \<and> top_running cpu t k')"

lemma rescheduled_thread_resched:
  assumes "sched_inv {cpu} {} k'" "current k' cpu = Some old" "quiet cpu k k'"
  shows "rescheduled cpu k (thread_resched cpu k')"
proof -
  obtain k'' t where "thread_resched cpu k' = Some k''" "kinv k''" "switched cpu t k' k''"
    "top_running cpu t k''"
    using thread_resched_ok [OF assms(1,2)] by blast
  moreover from this have "current k'' cpu = Some t" by (simp add: switched_def)
  ultimately show ?thesis
    using quiet_trans [OF assms(3) quiet_switched] unfolding rescheduled_def by blast
qed

text \<open>
  The running thread gives up the cpu: made ready, queued at either end of its run queue
  unless it is an idle thread, then a context switch.
\<close>

lemma give_up_cpu:
  assumes inv: "sched_inv {} X k" and cur: "current k cpu = Some t"
    and f: "tview (f (thr k t)) = tview ((thr k t)\<lparr>t_state := THREAD_READY, t_priority := p\<rparr>)"
    and p: "0 \<le> p" "p < NUM_PRIORITIES"
  shows "sched_inv {cpu} (insert t X) (upd_thread t f k)"
    and "run_queue_insertable t (upd_thread t f k)"
    and "is_idle (upd_thread t f k) t = is_idle k t"
proof -
  note run = running_facts [OF inv cur]
  have e: "t_magic (f (thr k t)) = THREAD_MAGIC" "t_queue_node (f (thr k t)) = Unlinked"
    "t_state (f (thr k t)) = THREAD_READY" "t_priority (f (thr k t)) = p"
    "t_flags (f (thr k t)) = t_flags (thr k t)"
    using f run by (auto simp: tview_def)
  show "run_queue_insertable t (upd_thread t f k)"
    using e p by (simp add: run_queue_insertable_def)
  show "is_idle (upd_thread t f k) t = is_idle k t"
    by (simp add: thread_is_idle_def has_flag_def e)
  have fl0: "t_flags (thr (upd_thread t f k) u) = t_flags (thr k u)" for u by (simp add: e)
  note fl = flags_cong [OF fl0]
  have "inv_t (upd_thread t f k)"
    using sched_invD(6) [OF inv] e unfolding inv_t_def fl by auto
  from leave_running [OF inv cur _ _ _ _ _ f _ p this]
  show "sched_inv {cpu} (insert t X) (upd_thread t f k)" by simp
qed

lemma ready_idle_inv:
  "sched_inv C {t} k \<Longrightarrow> is_idle k t \<Longrightarrow> sched_inv C {} k"
  by (auto simp: sched_inv_def inv_r_def)

lemma requeue_resched:
  assumes inv: "kinv k" and cur: "current k cpu = Some t"
    and f: "tview (f (thr k t)) = tview ((thr k t)\<lparr>t_state := THREAD_READY, t_priority := p\<rparr>)"
    and p: "0 \<le> p" "p < NUM_PRIORITIES"
    and q: "quiet cpu k0 (upd_thread t f k)"
    and ins: "ins = insert_in_run_queue_head \<or> ins = insert_in_run_queue_tail"
    and r: "r = (if is_idle k t then Some (upd_thread t f k) else ins t (upd_thread t f k))
                  \<bind> thread_resched cpu"
  shows "rescheduled cpu k0 r"
proof -
  let ?k = "upd_thread t f k"
  note g = give_up_cpu [of "{}" k cpu t f p, OF inv cur f p]
  show ?thesis
  proof (cases "is_idle k t")
    case True
    then have "sched_inv {cpu} {} ?k" using ready_idle_inv [OF g(1)] g(3) by simp
    with True q r show ?thesis using rescheduled_thread_resched [of cpu ?k t k0] cur by simp
  next
    case False
    obtain k' where k': "ins t ?k = Some k'" "k' = ins_head t ?k \<or> k' = ins_tail t ?k"
      using ins insert_head_eq [OF g(2)] insert_tail_eq [OF g(2)] by auto
    have "sched_inv {cpu} {} k'" using ready_ins [OF g(1,2) _ k'(2)] g(3) False by simp
    moreover have "quiet cpu k0 k'" "current k' cpu = Some t"
      using k'(2) quiet_trans [OF q] quiet_frame(3,4) cur by auto
    ultimately show ?thesis using rescheduled_thread_resched [of cpu k' t k0] r k'(1) False by simp
  qed
qed

theorem thread_yield_ok:
  assumes inv: "kinv k" and cur: "current k cpu = Some t"
  shows "rescheduled cpu k (thread_yield cpu k)"
proof -
  let ?k = "upd_stats cpu (\<lambda>s. s\<lparr>yields := yields s + 1\<rparr>) k"
  let ?f = "\<lambda>th. th\<lparr>t_state := THREAD_READY, t_remaining_quantum := 0\<rparr>"
  note run = running_facts [OF inv cur]
  have "quiet cpu k (upd_thread t ?f ?k)"
    by (rule quiet_trans [OF quiet_frame(1) quiet_ready]) (simp_all add: run wview_def)
  moreover have "thread_yield cpu k = (if is_idle ?k t then Some (upd_thread t ?f ?k)
      else insert_in_run_queue_tail t (upd_thread t ?f ?k)) \<bind> thread_resched cpu"
    by (simp add: thread_yield_def cur run thread_is_idle_def has_flag_def)
  ultimately show ?thesis
    by (intro requeue_resched [of ?k cpu t ?f "t_priority (thr k t)"])
      (use inv cur run in \<open>auto simp: inv_frame tview_def\<close>)
qed

theorem thread_preempt_ok:
  assumes inv: "kinv k" and cur: "current k cpu = Some t"
  shows "rescheduled cpu k (thread_preempt cpu k)"
proof -
  let ?k = "if \<not> is_idle k t then upd_stats cpu (\<lambda>s. s\<lparr>preempts := preempts s + 1\<rparr>) k else k"
  let ?f = "\<lambda>th. th\<lparr>t_state := THREAD_READY\<rparr>"
  let ?ins = "if t_remaining_quantum (thr k t) > 0 then insert_in_run_queue_head
    else insert_in_run_queue_tail"
  note run = running_facts [OF inv cur]
  have th: "thr ?k = thr k" by simp
  have "quiet cpu k (upd_thread t ?f ?k)"
    by (rule quiet_trans [of _ _ ?k, OF _ quiet_ready])
      (simp_all only: th, simp_all add: quiet_frame run wview_def)
  moreover have "thread_preempt cpu k = (if is_idle ?k t then Some (upd_thread t ?f ?k)
      else ?ins t (upd_thread t ?f ?k)) \<bind> thread_resched cpu"
    by (simp add: thread_preempt_def cur run thread_is_idle_def has_flag_def)
  moreover have "kinv ?k" "current ?k cpu = Some t" using inv cur by (simp_all add: inv_frame)
  ultimately show ?thesis
    by (intro requeue_resched [of ?k cpu t ?f "t_priority (thr k t)" k ?ins])
      (use run in \<open>simp_all add: tview_def\<close>)
qed

text \<open>The priority a thread asks for, clamped to those of regular threads.\<close>

definition clamp_priority :: "int \<Rightarrow> int" where
  "clamp_priority p = min HIGHEST_PRIORITY (max (IDLE_PRIORITY + 1) p)"

theorem thread_set_priority_ok:
  assumes inv: "kinv k" and cur: "current k cpu = Some t" and ni: "\<not> is_idle k t"
  shows "rescheduled cpu (upd_thread t (\<lambda>th. th\<lparr>t_priority := clamp_priority p\<rparr>) k)
           (thread_set_priority cpu p k)"
proof -
  let ?f = "\<lambda>th. th\<lparr>t_priority := clamp_priority p, t_state := THREAD_READY\<rparr>"
  have c: "(let p = (if p \<le> IDLE_PRIORITY then IDLE_PRIORITY + 1 else p)
            in if p > HIGHEST_PRIORITY then HIGHEST_PRIORITY else p) = clamp_priority p"
    by (auto simp: clamp_priority_def lk_defs)
  have "quiet cpu (upd_thread t (\<lambda>th. th\<lparr>t_priority := clamp_priority p\<rparr>) k) (upd_thread t ?f k)"
    using running_facts [OF inv cur] by (auto simp: quiet_def wview_def)
  moreover have "thread_set_priority cpu p k = (if is_idle k t then Some (upd_thread t ?f k)
      else insert_in_run_queue_head t (upd_thread t ?f k)) \<bind> thread_resched cpu"
    using c ni by (simp add: thread_set_priority_def cur Let_def)
  ultimately show ?thesis
    by (intro requeue_resched [of k cpu t ?f "clamp_priority p"])
      (use inv cur in \<open>auto simp: tview_def clamp_priority_def lk_defs\<close>)
qed

section \<open>Sleeping and starting\<close>

lemma inv_t_update:
  assumes inv: "inv_t k" and same: "current k' = current k"
    and fl: "\<And>u c. current k c = Some u \<Longrightarrow> thread_is_real_time_or_idle (thr k' u) =
                 thread_is_real_time_or_idle (thr k u)"
    and ok: "timers_ok (tims k')"
    and pre: "\<And>c. tm_magic (tmr (tims k') (PreemptTimer c)) = tm_magic (tmr (tims k) (PreemptTimer c))"
      "\<And>c. tm_node (tmr (tims k') (PreemptTimer c)) = tm_node (tmr (tims k) (PreemptTimer c))"
      "\<And>c. tm_callback (tmr (tims k') (PreemptTimer c)) = tm_callback (tmr (tims k) (PreemptTimer c))"
      "\<And>c. tm_periodic_time (tmr (tims k') (PreemptTimer c)) = tm_periodic_time (tmr (tims k) (PreemptTimer c))"
    and sl: "\<And>u. live k' u \<Longrightarrow> state_of k' u = THREAD_SLEEPING \<Longrightarrow>
               live k u \<and> state_of k u = THREAD_SLEEPING \<and>
               tmr (tims k') (StackTimer u) = tmr (tims k) (StackTimer u) \<or>
               tm_node (tmr (tims k') (StackTimer u)) \<noteq> None \<and>
               tm_callback (tmr (tims k') (StackTimer u)) = Some (thread_sleep_handler_cb u)"
  shows "inv_t k'"
proof -
  have "tm_node (tmr (tims k') (StackTimer u)) \<noteq> None \<and>
    tm_callback (tmr (tims k') (StackTimer u)) = Some (thread_sleep_handler_cb u)"
    if "live k' u" "state_of k' u = THREAD_SLEEPING" for u
    using sl [OF that] inv by (auto simp: inv_t_def)
  then show ?thesis
    using inv ok fl unfolding inv_t_def preempt_timer_armed_def same pre by auto
qed

text \<open>The state in which a thread sleeps, with the timer that will wake it.\<close>

definition sleeping :: "tid \<Rightarrow> timer_state \<Rightarrow> kstate \<Rightarrow> kstate" where
  "sleeping t ts k = upd_thread t (\<lambda>th. th\<lparr>t_state := THREAD_SLEEPING\<rparr>) (k\<lparr>tims := ts\<rparr>)"

theorem thread_sleep_ok:
  assumes inv: "kinv k" and cur: "current k cpu = Some t" and ni: "\<not> is_idle k t"
    and tm: "tm_node (tmr (tims k) (StackTimer t)) = None"
  shows "\<exists>ts. rescheduled cpu (sleeping t ts k) (thread_sleep cpu delay k) \<and>
           tm_node (tmr ts (StackTimer t)) = Some cpu \<and>
           tm_callback (tmr ts (StackTimer t)) = Some (thread_sleep_handler_cb t) \<and>
           tm_periodic_time (tmr ts (StackTimer t)) = 0 \<and>
           (\<forall>u. u \<noteq> StackTimer t \<longrightarrow> tmr ts u = tmr (tims k) u) \<and>
           tm_scheduled_time (tmr ts (StackTimer t)) = clock k + (if delay = 0 then 1 else delay)"
proof -
  note parts = sched_invD [OF inv] and run = running_facts [OF inv cur]
  have "timers_ok (tims k)" using parts(6) by (simp add: inv_t_def)
  then obtain ts where ts: "timer_set_oneshot cpu (clock k) (StackTimer t) delay
      (thread_sleep_handler_cb t) (timer_initialize (StackTimer t) (tims k)) = Some ts"
    "timers_ok ts" "tm_node (tmr ts (StackTimer t)) = Some cpu"
    "tm_callback (tmr ts (StackTimer t)) = Some (thread_sleep_handler_cb t)"
    "tm_periodic_time (tmr ts (StackTimer t)) = 0" "\<forall>u. u \<noteq> StackTimer t \<longrightarrow> tmr ts u = tmr (tims k) u"
    "tm_scheduled_time (tmr ts (StackTimer t)) = clock k + (if delay = 0 then 1 else delay)"
    using timer_set_oneshot_ok [OF _ tm] by blast
  let ?k = "sleeping t ts k"
  have "inv_t ?k"
    by (rule inv_t_update [OF parts(6)])
      (auto simp: sleeping_def ts thread_is_real_time_or_idle_def has_flag_def split: if_splits)
  then have "sched_inv {cpu} {} ?k"
    using leave_running [OF inv cur, where k' = ?k and th = "thr ?k t" and s = THREAD_SLEEPING
        and p = "t_priority (thr k t)"] run ni
    by (simp add: sleeping_def tview_def)
  moreover have "thread_sleep cpu delay k = thread_resched cpu ?k"
    using run ni by (simp add: thread_sleep_def cur ts(1) sleeping_def)
  ultimately show ?thesis
    using rescheduled_thread_resched [of cpu ?k t ?k] ts cur
    by (intro exI [of _ ts]) (simp add: sleeping_def)
qed

text \<open>
  A sleeping or new thread made ready and put at the head of its run queue.
\<close>

definition readied :: "tid \<Rightarrow> kstate \<Rightarrow> kstate" where
  "readied t k = ins_head t (upd_thread t (\<lambda>th. th\<lparr>t_state := THREAD_READY\<rparr>) k)"

lemma readied_ok:
  assumes inv: "sched_inv C X k" and t: "live k t" "state_of k t \<in> {THREAD_SLEEPING, THREAD_SUSPENDED}"
    "0 \<le> t_priority (thr k t)" "t_priority (thr k t) < NUM_PRIORITIES"
  shows "sched_inv C X (readied t k)"
    and "insert_in_run_queue_head t (upd_thread t (\<lambda>th. th\<lparr>t_state := THREAD_READY\<rparr>) k) =
           Some (readied t k)"
proof -
  let ?k = "upd_thread t (\<lambda>th. th\<lparr>t_state := THREAD_READY\<rparr>) k"
  have u: "node_of k t = Unlinked" "\<not> is_idle k t"
    using sched_invD(7) [OF inv] t by (auto simp: inv_g_def)
  have ok: "run_queue_insertable t ?k" using t u by (simp add: run_queue_insertable_def)
  then show "insert_in_run_queue_head t ?k = Some (readied t k)"
    by (simp add: readied_def insert_head_eq)
  have "\<not> is_idle ?k t" using u(2) by (simp add: thread_is_idle_def has_flag_def)
  then show "sched_inv C X (readied t k)"
    unfolding readied_def using ready_ins [OF make_ready [OF inv t(1,2)] ok] by blast
qed

theorem thread_sleep_handler_ok:
  assumes inv: "sched_inv C X k" and t: "live k t" "state_of k t = THREAD_SLEEPING"
  shows "thread_sleep_handler t k = Some (readied t k, INT_RESCHEDULE)"
    and "sched_inv C X (readied t k)"
proof -
  have p: "0 \<le> t_priority (thr k t)" "t_priority (thr k t) < NUM_PRIORITIES"
    using sched_invD(7) [OF inv] t by (auto simp: inv_g_def)
  note r = readied_ok [OF inv t(1) _ p]
  show "sched_inv C X (readied t k)" using r(1) t by simp
  show "thread_sleep_handler t k = Some (readied t k, INT_RESCHEDULE)"
    using r(2) t by (simp add: thread_sleep_handler_def)
qed

theorem thread_resume_ok:
  assumes inv: "kinv k" and cur: "current k cpu = Some self" and t: "live k t"
    and nd: "state_of k t \<noteq> THREAD_DEATH"
    and p: "0 \<le> t_priority (thr k t)" "t_priority (thr k t) < NUM_PRIORITIES"
  shows "\<exists>k'. thread_resume cpu ints t k = Some (NO_ERROR, k') \<and> kinv k' \<and>
           quiet cpu (if state_of k t = THREAD_SUSPENDED then readied t k else k) k'"
proof -
  let ?s = "state_of k t = THREAD_SUSPENDED"
  let ?k1 = "if ?s then readied t k else k"
  let ?k2 = "mp_reschedule cpu MP_CPU_ALL_BUT_LOCAL 0 ?k1"
  have inv1: "kinv ?k1" and cur1: "current ?k1 cpu = Some self"
    using readied_ok(1) [OF inv t _ p] inv cur by (auto simp: readied_def)
  then have inv2: "kinv ?k2" and cur2: "current ?k2 cpu = Some self" by (simp_all add: inv_frame)
  have q: "quiet cpu ?k1 ?k2" by (rule quiet_frame)
  have run: "thread_resume cpu ints t k =
    (if ?s \<and> \<not> ints then thread_yield cpu ?k2 else Some ?k2) \<bind> (\<lambda>k. Some (NO_ERROR, k))"
    using readied_ok(2) [OF inv t _ p] t nd by (auto simp: thread_resume_def)
  obtain k3 where "thread_yield cpu ?k2 = Some k3" "kinv k3" "quiet cpu ?k2 k3"
    using thread_yield_ok [OF inv2 cur2] by (auto simp: rescheduled_def)
  then show ?thesis
    using run inv2 q quiet_trans [OF q] by (cases "?s \<and> \<not> ints") auto
qed

end
