(* ===== verification/Kernel_WaitOps.thy ===== *)
theory Kernel_WaitOps
  imports Kernel_Ops
begin

text \<open>
  The wait queue operations keep the scheduler's invariant. \<open>unblocked\<close>,
  \<open>unblock_all\<close> and \<open>blocked\<close> are the states the operations go through; what
  follows them is a context switch, which changes nothing that a client of the wait queues
  reads (\<open>quiet\<close>).
\<close>

section \<open>Waking\<close>

definition unblocked :: "wqaddr \<Rightarrow> tid \<Rightarrow> status_t \<Rightarrow> kstate \<Rightarrow> kstate" where
  "unblocked w t err k =
     upd_thread t (\<lambda>th. th\<lparr>t_queue_node := Unlinked, t_state := THREAD_READY,
         t_wait_queue_block_ret := err, t_blocking_wait_queue := None\<rparr>)
       (upd_wq w (\<lambda>q. q\<lparr>wq_list := remove1 t (wq_list q), wq_count := wq_count q - 1\<rparr>) k)"

definition unblock_all :: "wqaddr \<Rightarrow> status_t \<Rightarrow> kstate \<Rightarrow> kstate" where
  "unblock_all w err k =
     k\<lparr>thr := (\<lambda>u. if u \<in> set (wq_list (wqs k w))
                   then (thr k u)\<lparr>t_queue_node := Unlinked, t_state := THREAD_READY,
                     t_wait_queue_block_ret := err, t_blocking_wait_queue := None\<rparr>
                   else thr k u),
       wqs := (wqs k)(w := (wqs k w)\<lparr>wq_list := [], wq_count := 0\<rparr>)\<rparr>"

lemma unblocked_simps [simp]:
  "run_queue (unblocked w t err k) = run_queue k"
  "run_queue_bitmap (unblocked w t err k) = run_queue_bitmap k"
  "current (unblocked w t err k) = current k" "tims (unblocked w t err k) = tims k"
  "clock (unblocked w t err k) = clock k" "thread_list (unblocked w t err k) = thread_list k"
  "heap_log (unblocked w t err k) = heap_log k"
  "wqs (unblocked w t err k) v = (if v = w then (wqs k w)\<lparr>wq_list := remove1 t (wq_list (wqs k w)),
     wq_count := wq_count (wqs k w) - 1\<rparr> else wqs k v)"
  "thr (unblocked w t err k) u = (if u = t then (thr k t)\<lparr>t_queue_node := Unlinked,
     t_state := THREAD_READY, t_wait_queue_block_ret := err, t_blocking_wait_queue := None\<rparr>
     else thr k u)"
  by (simp_all add: unblocked_def)

lemma waiting_facts:
  assumes "sched_inv C X k" "t \<in> set (wq_list (wqs k w))"
  shows "node_of k t = WaitQ w" "live k t" "state_of k t = THREAD_BLOCKED" "\<not> is_idle k t"
    "0 \<le> t_priority (thr k t)" "t_priority (thr k t) < NUM_PRIORITIES"
    "t_blocking_wait_queue (thr k t) = Some w" "wq_magic (wqs k w) = WAIT_QUEUE_MAGIC"
proof -
  have w: "inv_w k" using assms(1) by (rule sched_invD)
  show n: "node_of k t = WaitQ w" using w assms(2) by (simp add: inv_w_def)
  show "live k t" "state_of k t = THREAD_BLOCKED" "\<not> is_idle k t"
    "0 \<le> t_priority (thr k t)" "t_priority (thr k t) < NUM_PRIORITIES"
    "t_blocking_wait_queue (thr k t) = Some w"
    using w n unfolding inv_w_def by blast+
  have "wq_list (wqs k w) \<noteq> []" using assms(2) by auto
  then show "wq_magic (wqs k w) = WAIT_QUEUE_MAGIC" using w by (simp add: inv_w_def)
qed

text \<open>A waiting thread taken off its queue and put at the head of its run queue.\<close>

lemma unblocked_inv:
  assumes inv: "sched_inv C X k" and t: "t \<in> set (wq_list (wqs k w))"
  shows "sched_inv C (insert t X) (unblocked w t err k)"
    and "run_queue_insertable t (unblocked w t err k)"
    and "sched_inv C X (ins_head t (unblocked w t err k))"
proof -
  note f = waiting_facts [OF inv t]
  show 1: "sched_inv C (insert t X) (unblocked w t err k)"
    by (rule unblock_inv [OF inv f(1)]) simp_all
  show 2: "run_queue_insertable t (unblocked w t err k)"
    using f by (simp add: run_queue_insertable_def)
  have "\<not> is_idle (unblocked w t err k) t" using f(4) by (simp add: thread_is_idle_def has_flag_def)
  from ready_ins [OF 1 2 this] show "sched_inv C X (ins_head t (unblocked w t err k))" by blast
qed

lemma wake_thread_eq:
  assumes "sched_inv C X k" "wq_list (wqs k w) = t # ts"
  shows "wake_thread w t err k = Some (unblocked w t err k)"
proof -
  have "state_of k t = THREAD_BLOCKED" using waiting_facts [OF assms(1), of t w] assms(2) by simp
  moreover have "upd_wq w (\<lambda>q. q\<lparr>wq_list := tl (wq_list q), wq_count := wq_count q - 1\<rparr>) k =
    upd_wq w (\<lambda>q. q\<lparr>wq_list := remove1 t (wq_list q), wq_count := wq_count q - 1\<rparr>) k"
    using assms(2) by (simp add: upd_wq_def)
  ultimately show ?thesis by (simp add: wake_thread_def unblocked_def)
qed

lemma requeue_current_ok:
  assumes inv: "sched_inv {} X k" and cur: "current k cpu = Some t" and ni: "\<not> is_idle k t"
  shows "\<exists>k'. requeue_current t k = Some k' \<and> sched_inv {cpu} X k' \<and> quiet cpu k k' \<and>
           current k' = current k \<and> (\<forall>u. u \<noteq> t \<longrightarrow> thr k' u = thr k u)"
proof -
  let ?f = "\<lambda>th. th\<lparr>t_state := THREAD_READY\<rparr>"
  note run = running_facts [OF inv cur]
  note g = give_up_cpu [of X k cpu t ?f "t_priority (thr k t)", OF inv cur _ run(4,5)]
  have "quiet cpu k (upd_thread t ?f k)"
    by (rule quiet_ready) (simp_all add: run wview_def)
  then have "quiet cpu k (ins_head t (upd_thread t ?f k))" using quiet_trans quiet_frame(3) by blast
  moreover have "sched_inv {cpu} X (ins_head t (upd_thread t ?f k))"
    using ready_ins [OF g(1,2), of "ins_head t (upd_thread t ?f k)" X] g(3) ni
    by (simp add: tview_def)
  ultimately show ?thesis
    using insert_head_eq [OF g(2)] by (simp add: requeue_current_def tview_def)
qed

text \<open>The optional switch at the end of a wake-up.\<close>

lemma resched_if:
  assumes "sched_inv (if r then {cpu} else C) {} k1" "current k1 cpu = Some t" "quiet cpu k0 k1"
    "r \<longrightarrow> C = {}"
  shows "\<exists>k'. (if r then thread_resched cpu (mp_reschedule c m fl k1)
               else Some (mp_reschedule c m fl k1)) = Some k' \<and> sched_inv C {} k' \<and> quiet cpu k0 k' \<and>
           (\<not> r \<longrightarrow> current k' = current k1)"
proof (cases r)
  case True
  have "rescheduled cpu k1 (thread_resched cpu (mp_reschedule c m fl k1))"
    using assms True quiet_frame(2)
    by (intro rescheduled_thread_resched [where old = t]) (simp_all add: inv_frame)
  then show ?thesis using True assms quiet_trans [OF assms(3)] by (auto simp: rescheduled_def)
next
  case False
  then show ?thesis using assms quiet_trans [OF assms(3) quiet_frame(2)] by (simp add: inv_frame)
qed

definition woken :: "wqaddr \<Rightarrow> status_t \<Rightarrow> kstate \<Rightarrow> kstate" where
  "woken w err k = (case wq_list (wqs k w) of [] \<Rightarrow> k | t # _ \<Rightarrow> unblocked w t err k)"

theorem wait_queue_wake_one_ok:
  assumes inv: "sched_inv C {} k" and cur: "current k cpu = Some self"
    and m: "wq_magic (wqs k w) = WAIT_QUEUE_MAGIC" and r: "r \<longrightarrow> C = {} \<and> \<not> is_idle k self"
  shows "\<exists>k'. wait_queue_wake_one cpu w r err k = Some (if wq_list (wqs k w) = [] then 0 else 1, k') \<and>
           sched_inv C {} k' \<and> quiet cpu (woken w err k) k' \<and> (\<not> r \<longrightarrow> current k' = current k)"
proof (cases "wq_list (wqs k w)")
  case Nil
  then show ?thesis using cur m inv by (simp add: wait_queue_wake_one_def woken_def)
next
  case (Cons t ts)
  let ?u = "unblocked w t err k"
  have t: "t \<in> set (wq_list (wqs k w))" using Cons by simp
  note f = waiting_facts [OF inv t]
  note ui = unblocked_inv [OF inv t, of err]
  have ne: "t \<noteq> self" if r
    using inv_c_outside [of C k cpu self] sched_invD(3) [OF inv] cur f(3) r that by auto
  obtain k2 where k2: "(if r then requeue_current self ?u else Some ?u) = Some k2"
    "sched_inv (if r then {cpu} else C) {t} k2" "quiet cpu ?u k2" "current k2 = current k"
    "run_queue_insertable t k2" "\<not> is_idle k2 t"
  proof (cases r)
    case True
    with r ui(1) have i: "sched_inv {} {t} ?u" "\<not> is_idle k self" by auto
    have "\<not> is_idle ?u self" using i(2) ne [OF True] by simp
    from requeue_current_ok [OF i(1) _ this, of cpu] obtain k2 where
      "requeue_current self ?u = Some k2" "sched_inv {cpu} {t} k2" "quiet cpu ?u k2"
      "current k2 = current k" "\<forall>u. u \<noteq> self \<longrightarrow> thr k2 u = thr ?u u"
      using cur by auto
    with True ne ui(2) f(4) show ?thesis
      by (intro that [of k2]) (auto simp: run_queue_insertable_def thread_is_idle_def has_flag_def)
  next
    case False
    then show ?thesis using that [of ?u] ui f(4)
      by (simp add: thread_is_idle_def has_flag_def)
  qed
  let ?k3 = "ins_head t k2"
  have "sched_inv (if r then {cpu} else C) {} ?k3"
    using ready_ins [OF k2(2,5,6)] by blast
  from resched_if [OF this, of self ?u cpu MP_CPU_ALL_BUT_LOCAL 0] obtain k' where
    "(if r then thread_resched cpu (mp_reschedule cpu MP_CPU_ALL_BUT_LOCAL 0 ?k3)
      else Some (mp_reschedule cpu MP_CPU_ALL_BUT_LOCAL 0 ?k3)) = Some k'"
    "sched_inv C {} k'" "quiet cpu ?u k'" "\<not> r \<longrightarrow> current k' = current k"
    using quiet_trans [OF k2(3) quiet_frame(3)] k2(4) cur r by auto
  then show ?thesis
    using cur m Cons k2(1) wake_thread_eq [OF inv Cons] insert_head_eq [OF k2(5)]
    by (simp add: wait_queue_wake_one_def woken_def)
qed

text \<open>Waking every waiter, one after the other, gives the state in which all are ready.\<close>

lemma unblock_all_simps [simp]:
  "current (unblock_all w err k) = current k" "tims (unblock_all w err k) = tims k"
  "clock (unblock_all w err k) = clock k" "thread_list (unblock_all w err k) = thread_list k"
  "heap_log (unblock_all w err k) = heap_log k"
  by (simp_all add: unblock_all_def)

lemma unblock_all_step:
  assumes "wq_list (wqs k w) = t # ts" "t \<notin> set ts"
  shows "quiet cpu (unblock_all w err k) (unblock_all w err (ins_head t (unblocked w t err k)))"
proof -
  have "wqs (unblock_all w err (ins_head t (unblocked w t err k))) = wqs (unblock_all w err k)"
    by (rule ext) (simp add: unblock_all_def assms)
  then show ?thesis by (auto simp: quiet_def) (auto simp: unblock_all_def assms wview_def)
qed

lemma unblock_all_Nil:
  assumes "wq_list (wqs k w) = []" "wq_count (wqs k w) = 0"
  shows "quiet cpu (unblock_all w err k) k"
proof -
  have "wqs (unblock_all w err k) = wqs k" by (rule ext) (simp add: unblock_all_def assms)
  then show ?thesis by (auto simp: quiet_def) (auto simp: unblock_all_def assms)
qed

lemma wake_all_loop_ok:
  assumes "sched_inv C {} k" "wq_list (wqs k w) = ts"
  shows "\<exists>k'. wake_all_loop w err ts k = Some k' \<and> sched_inv C {} k' \<and>
           quiet cpu (unblock_all w err k) k' \<and> current k' = current k"
  using assms
proof (induction ts arbitrary: k)
  case Nil
  have "wq_count (wqs k w) = 0" using sched_invD(2) [OF Nil.prems(1)] Nil.prems(2)
    by (simp add: inv_w_def)
  then show ?case using Nil unblock_all_Nil by auto
next
  case (Cons t ts)
  let ?k = "ins_head t (unblocked w t err k)"
  have t: "t \<in> set (wq_list (wqs k w))" using Cons.prems(2) by simp
  note ui = unblocked_inv [OF Cons.prems(1) t, of err]
  have "distinct (wq_list (wqs k w))" using sched_invD(2) [OF Cons.prems(1)] by (simp add: inv_w_def)
  then have q: "quiet cpu (unblock_all w err k) (unblock_all w err ?k)"
    using unblock_all_step [OF Cons.prems(2)] Cons.prems(2) by simp
  have "wq_list (wqs ?k w) = ts" using Cons.prems(2) by simp
  from Cons.IH [OF ui(3) this] obtain k' where "wake_all_loop w err ts ?k = Some k'"
    "sched_inv C {} k'" "quiet cpu (unblock_all w err ?k) k'" "current k' = current k" by auto
  then show ?case
    using quiet_trans [OF q] wake_thread_eq [OF Cons.prems] insert_head_eq [OF ui(2)] by auto
qed

lemma quiet_unblock_all:
  assumes q: "quiet cpu k k'"
    and st: "\<And>u. u \<in> set (wq_list (wqs k w)) \<Longrightarrow> thr k' u = thr k u"
  shows "quiet cpu (unblock_all w err k) (unblock_all w err k')"
proof -
  have "wqs k' = wqs k" using q by (simp add: quiet_def)
  then show ?thesis using q st by (auto simp: quiet_def unblock_all_def)
qed

theorem wait_queue_wake_all_ok:
  assumes inv: "sched_inv C {} k" and cur: "current k cpu = Some self"
    and m: "wq_magic (wqs k w) = WAIT_QUEUE_MAGIC" and r: "r \<longrightarrow> C = {} \<and> \<not> is_idle k self"
  shows "\<exists>k'. wait_queue_wake_all cpu w r err k = Some (int (length (wq_list (wqs k w))), k') \<and>
           sched_inv C {} k' \<and> quiet cpu (unblock_all w err k) k' \<and>
           (\<not> r \<longrightarrow> current k' = current k)"
proof -
  let ?ts = "wq_list (wqs k w)"
  have cnt: "wq_count (wqs k w) = int (length ?ts)"
    using sched_invD(2) [OF inv] by (simp add: inv_w_def)
  obtain k1 where k1: "(if r \<and> ?ts \<noteq> [] then requeue_current self k else Some k) = Some k1"
    "sched_inv (if r \<and> ?ts \<noteq> [] then {cpu} else C) {} k1" "quiet cpu k k1" "current k1 = current k"
    "\<And>u. u \<in> set ?ts \<Longrightarrow> thr k1 u = thr k u"
  proof (cases "r \<and> ?ts \<noteq> []")
    case True
    with r inv have "kinv k" "\<not> is_idle k self" by auto
    moreover have "u \<noteq> self" if "u \<in> set ?ts" for u
      using waiting_facts(3) [OF inv that] running_facts(2) [OF \<open>kinv k\<close> cur] by auto
    ultimately show ?thesis using True requeue_current_ok [of "{}" k cpu self] cur that by auto
  next
    case False
    then show ?thesis using inv that [of k] by auto
  qed
  have wq: "wqs k1 = wqs k" using k1(3) by (simp add: quiet_def)
  obtain k2 where k2: "wake_all_loop w err ?ts k1 = Some k2"
    "sched_inv (if r \<and> ?ts \<noteq> [] then {cpu} else C) {} k2" "quiet cpu (unblock_all w err k1) k2"
    "current k2 = current k1"
    using wake_all_loop_ok [OF k1(2), of w ?ts err cpu] wq by auto
  have q2: "quiet cpu (unblock_all w err k) k2"
    using quiet_trans [OF quiet_unblock_all [OF k1(3,5)] k2(3)] by blast
  have c2: "wq_count (wqs k2 w) = 0" using quietD(1) [OF q2] by (simp add: unblock_all_def)
  have req: "(r \<and> 0 < wq_count (wqs k w)) = (r \<and> ?ts \<noteq> [])" by (simp add: cnt)
  show ?thesis
  proof (cases "?ts = []")
    case True
    then show ?thesis using k1 k2 c2 q2 cur m by (simp add: wait_queue_wake_all_def cnt)
  next
    case False
    then have "sched_inv (if r then {cpu} else C) {} k2" using k2(2) by (cases r) auto
    from resched_if [OF this, of self "unblock_all w err k" cpu MP_CPU_ALL_BUT_LOCAL 0]
    obtain k' where "(if r then thread_resched cpu (mp_reschedule cpu MP_CPU_ALL_BUT_LOCAL 0 k2)
      else Some (mp_reschedule cpu MP_CPU_ALL_BUT_LOCAL 0 k2)) = Some k'"
      "sched_inv C {} k'" "quiet cpu (unblock_all w err k) k'" "\<not> r \<longrightarrow> current k' = current k"
      using q2 k2(4) k1(4) cur r by auto
    then show ?thesis
      using k1(1) k2(1) c2 cur m False unfolding wait_queue_wake_all_def req by simp
  qed
qed

text \<open>A thread taken off its queue by somebody else, as by its timeout.\<close>

lemma unblock_eq:
  assumes t: "node_of k t = WaitQ w" "live k t" "state_of k t = THREAD_BLOCKED"
    "t_blocking_wait_queue (thr k t) = Some w" "wq_magic (wqs k w) = WAIT_QUEUE_MAGIC"
    "0 \<le> t_priority (thr k t)" "t_priority (thr k t) < NUM_PRIORITIES"
  shows "thread_unblock_from_wait_queue cpu t err k =
           Some (NO_ERROR, mp_reschedule cpu MP_CPU_ALL_BUT_LOCAL 0 (ins_head t (unblocked w t err k)))"
proof -
  have comm: "th\<lparr>t_queue_node := Unlinked, t_blocking_wait_queue := None, t_state := THREAD_READY,
      t_wait_queue_block_ret := err\<rparr> = th\<lparr>t_queue_node := Unlinked, t_state := THREAD_READY,
      t_wait_queue_block_ret := err, t_blocking_wait_queue := None\<rparr>" for th :: thread
    by (rule thread.equality) simp_all
  have "upd_thread t (\<lambda>th. th\<lparr>t_blocking_wait_queue := None, t_state := THREAD_READY,
          t_wait_queue_block_ret := err\<rparr>)
        (upd_wq w (\<lambda>q. q\<lparr>wq_count := wq_count q - 1\<rparr>) (queue_node_delete t k)) = unblocked w t err k"
    by (simp add: queue_node_delete_def t(1) unblocked_def upd_thread_def upd_wq_def comm)
  moreover have "run_queue_insertable t (unblocked w t err k)"
    using t by (simp add: run_queue_insertable_def)
  ultimately show ?thesis
    using t by (simp add: thread_unblock_from_wait_queue_def insert_head_eq)
qed

theorem thread_unblock_from_wait_queue_ok:
  assumes inv: "sched_inv C {} k" and t: "node_of k t = WaitQ w"
  shows "thread_unblock_from_wait_queue cpu t err k =
           Some (NO_ERROR, mp_reschedule cpu MP_CPU_ALL_BUT_LOCAL 0 (ins_head t (unblocked w t err k)))"
    and "sched_inv C {} (mp_reschedule cpu MP_CPU_ALL_BUT_LOCAL 0 (ins_head t (unblocked w t err k)))"
proof -
  have tw: "t \<in> set (wq_list (wqs k w))" using sched_invD(2) [OF inv] t by (simp add: inv_w_def)
  note f = waiting_facts [OF inv tw] and ui = unblocked_inv [OF inv tw, of err]
  show "sched_inv C {} (mp_reschedule cpu MP_CPU_ALL_BUT_LOCAL 0 (ins_head t (unblocked w t err k)))"
    using ui(3) by (simp add: inv_frame)
  show "thread_unblock_from_wait_queue cpu t err k =
      Some (NO_ERROR, mp_reschedule cpu MP_CPU_ALL_BUT_LOCAL 0 (ins_head t (unblocked w t err k)))"
    by (rule unblock_eq [OF f(1-3,7,8,5,6)])
qed

section \<open>Blocking\<close>

definition blocked :: "wqaddr \<Rightarrow> tid \<Rightarrow> timer_state \<Rightarrow> kstate \<Rightarrow> kstate" where
  "blocked w t ts k =
     (upd_thread t (\<lambda>th. th\<lparr>t_queue_node := WaitQ w, t_state := THREAD_BLOCKED,
         t_blocking_wait_queue := Some w, t_wait_queue_block_ret := NO_ERROR\<rparr>)
       (upd_wq w (\<lambda>q. q\<lparr>wq_list := wq_list q @ [t], wq_count := wq_count q + 1\<rparr>) k))\<lparr>tims := ts\<rparr>"

text \<open>The timer of a wait: pending with the timeout handler, or untouched when the wait is unlimited.\<close>

definition wait_timer :: "nat \<Rightarrow> tid \<Rightarrow> lk_time_t \<Rightarrow> timer_state \<Rightarrow> timer_state \<Rightarrow> bool" where
  "wait_timer cpu t timeout ts ts' \<longleftrightarrow>
     (if timeout = INFINITE_TIME then ts' = ts
      else timers_ok ts' \<and> tm_node (tmr ts' (StackTimer t)) = Some cpu \<and>
           tm_magic (tmr ts' (StackTimer t)) = TIMER_MAGIC \<and>
           tm_callback (tmr ts' (StackTimer t)) = Some (wait_queue_timeout_handler_cb t) \<and>
           tm_periodic_time (tmr ts' (StackTimer t)) = 0 \<and>
           (\<forall>u. u \<noteq> StackTimer t \<longrightarrow> tmr ts' u = tmr ts u))"

theorem wait_queue_block_ok:
  assumes inv: "kinv k" and cur: "current k cpu = Some t" and ni: "\<not> is_idle k t"
    and m: "wq_magic (wqs k w) = WAIT_QUEUE_MAGIC" and to: "timeout \<noteq> 0"
    and tm: "timeout \<noteq> INFINITE_TIME \<longrightarrow> tm_node (tmr (tims k) (StackTimer t)) = None"
  shows "\<exists>ts k'. wait_queue_block cpu w timeout k = Some (Blocks, k') \<and>
           wait_timer cpu t timeout (tims k) ts \<and>
           rescheduled cpu (blocked w t ts k) (Some k')"
proof -
  note parts = sched_invD [OF inv] and run = running_facts [OF inv cur]
  have tok: "timers_ok (tims k)" using parts(6) by (simp add: inv_t_def)
  obtain ts where ts: "(if timeout \<noteq> INFINITE_TIME
             then timer_set_oneshot cpu (clock k) (StackTimer t) timeout
                    (wait_queue_timeout_handler_cb t) (timer_initialize (StackTimer t) (tims k))
             else Some (tims k)) = Some ts" "wait_timer cpu t timeout (tims k) ts"
    using timer_set_oneshot_ok [OF tok, of "StackTimer t" cpu "clock k" timeout
        "wait_queue_timeout_handler_cb t"] tm
    by (cases "timeout = INFINITE_TIME") (auto simp: wait_timer_def)
  have tsf: "timers_ok ts" "\<And>u. u \<noteq> StackTimer t \<Longrightarrow> tmr ts u = tmr (tims k) u"
    using ts(2) tok by (auto simp: wait_timer_def split: if_splits)
  let ?k = "blocked w t ts k"
  have "inv_t ?k"
    by (rule inv_t_update [OF parts(6)])
      (auto simp: blocked_def tsf thread_is_real_time_or_idle_def has_flag_def split: if_splits)
  then have "sched_inv {cpu} {} ?k"
    by (intro block_inv [OF inv cur ni m, where r = NO_ERROR]) (simp_all add: blocked_def)
  then have r: "rescheduled cpu ?k (thread_resched cpu ?k)"
    using rescheduled_thread_resched [of cpu ?k t ?k] cur by (simp add: blocked_def)
  then obtain k' where k': "thread_resched cpu ?k = Some k'" by (auto simp: rescheduled_def)
  have "wait_queue_block cpu w timeout k = Some (Blocks, k')"
  proof (cases "timeout = INFINITE_TIME")
    case True
    then have "ts = tims k" using ts(1) by simp
    moreover have "blocked w t (tims k) k =
       upd_thread t (\<lambda>th. th\<lparr>t_queue_node := WaitQ w, t_state := THREAD_BLOCKED,
         t_blocking_wait_queue := Some w, t_wait_queue_block_ret := NO_ERROR\<rparr>)
       (upd_wq w (\<lambda>q. q\<lparr>wq_list := wq_list q @ [t], wq_count := wq_count q + 1\<rparr>) k)"
      by (simp add: blocked_def upd_thread_def upd_wq_def)
    ultimately show ?thesis using True k' run m to by (simp add: wait_queue_block_def cur Let_def)
  next
    case False
    then show ?thesis using ts(1) k' run m to
      by (simp add: wait_queue_block_def cur blocked_def Let_def)
  qed
  with ts(2) r k' show ?thesis by metis
qed

lemma inv_parts_tims [inv_frame]:
  "inv_q (k\<lparr>tims := ts\<rparr>) = inv_q k" "inv_w (k\<lparr>tims := ts\<rparr>) = inv_w k"
  "inv_c C (k\<lparr>tims := ts\<rparr>) = inv_c C k" "inv_r X (k\<lparr>tims := ts\<rparr>) = inv_r X k"
  "inv_i (k\<lparr>tims := ts\<rparr>) = inv_i k" "inv_g (k\<lparr>tims := ts\<rparr>) = inv_g k"
  unfolding inv_q_def inv_w_def inv_c_def inv_r_def inv_i_def inv_g_def by simp_all

lemma sched_inv_tims:
  "sched_inv C X k \<Longrightarrow> inv_t (k\<lparr>tims := ts\<rparr>) \<Longrightarrow> sched_inv C X (k\<lparr>tims := ts\<rparr>)"
  by (simp add: sched_inv_def inv_parts_tims)

theorem wait_queue_block_exit_ok:
  assumes inv: "kinv k" and cur: "current k cpu = Some t"
    and tm: "timeout \<noteq> INFINITE_TIME \<longrightarrow> tm_magic (tmr (tims k) (StackTimer t)) = TIMER_MAGIC"
  shows "\<exists>ts. wait_queue_block_exit cpu timeout k =
           Some (t_wait_queue_block_ret (thr k t), k\<lparr>tims := ts\<rparr>) \<and> kinv (k\<lparr>tims := ts\<rparr>) \<and>
           (timeout \<noteq> INFINITE_TIME \<longrightarrow> tm_node (tmr ts (StackTimer t)) = None) \<and>
           (\<forall>u. u \<noteq> StackTimer t \<longrightarrow> tmr ts u = tmr (tims k) u)"
proof (cases "timeout = INFINITE_TIME")
  case True
  then show ?thesis using cur inv by (intro exI [of _ "tims k"]) (simp add: wait_queue_block_exit_def)
next
  case False
  note parts = sched_invD [OF inv] and run = running_facts [OF inv cur]
  have tok: "timers_ok (tims k)" using parts(6) by (simp add: inv_t_def)
  obtain ts where ts: "timer_cancel cpu (clock k) (StackTimer t) (tims k) = Some ts" "timers_ok ts"
    "tm_node (tmr ts (StackTimer t)) = None" "\<forall>u. u \<noteq> StackTimer t \<longrightarrow> tmr ts u = tmr (tims k) u"
    using timer_cancel_ok [OF tok tm [rule_format, OF False], of cpu "clock k"] by auto
  have "inv_t (k\<lparr>tims := ts\<rparr>)"
  proof (rule inv_t_update [OF parts(6)])
    fix u
    assume "live (k\<lparr>tims := ts\<rparr>) u" "state_of (k\<lparr>tims := ts\<rparr>) u = THREAD_SLEEPING"
    moreover from this have "u \<noteq> t" using run(2) by auto
    ultimately show "live k u \<and> state_of k u = THREAD_SLEEPING \<and>
        tmr (tims (k\<lparr>tims := ts\<rparr>)) (StackTimer u) = tmr (tims k) (StackTimer u) \<or>
      tm_node (tmr (tims (k\<lparr>tims := ts\<rparr>)) (StackTimer u)) \<noteq> None \<and>
      tm_callback (tmr (tims (k\<lparr>tims := ts\<rparr>)) (StackTimer u)) = Some (thread_sleep_handler_cb u)"
      using ts(4) by simp
  qed (use ts in simp_all)
  then have "kinv (k\<lparr>tims := ts\<rparr>)" by (rule sched_inv_tims [OF inv])
  moreover have "wait_queue_block_exit cpu timeout k =
      Some (t_wait_queue_block_ret (thr k t), k\<lparr>tims := ts\<rparr>)"
    using ts(1) cur False by (simp add: wait_queue_block_exit_def)
  ultimately show ?thesis using ts(3,4) by blast
qed

section \<open>Initialising\<close>

lemma inv_parts_wqs [inv_frame]:
  "inv_q (upd_wq w f k) = inv_q k" "inv_c C (upd_wq w f k) = inv_c C k"
  "inv_r X (upd_wq w f k) = inv_r X k" "inv_i (upd_wq w f k) = inv_i k"
  "inv_t (upd_wq w f k) = inv_t k" "inv_g (upd_wq w f k) = inv_g k"
  unfolding inv_q_def inv_c_def inv_r_def inv_i_def inv_t_def inv_g_def by simp_all

lemma wait_queue_init_inv:
  assumes inv: "sched_inv C X k" and e: "wq_list (wqs k w) = []"
  shows "sched_inv C X (wait_queue_init w k)"
proof -
  have iw: "inv_w k" using inv by (rule sched_invD)
  have "t \<in> set (wq_list (wqs k w)) \<longleftrightarrow> node_of k t = WaitQ w" for t using iw by (simp add: inv_w_def)
  then have "node_of k t \<noteq> WaitQ w" for t using e by simp
  then have "inv_w (wait_queue_init w k)"
    using iw unfolding inv_w_def wait_queue_init_def by (auto simp: WAIT_QUEUE_INITIAL_VALUE_def)
  then show ?thesis
    using inv by (simp add: sched_inv_def wait_queue_init_def inv_parts_wqs)
qed

end
