(* ===== verification/Kernel_Life.thy ===== *)
theory Kernel_Life
  imports Kernel_WaitOps
begin

text \<open>
  The life of a thread: creation, real-time scheduling, exit, join and detach keep the
  scheduler's invariant, and the boot sequence establishes it.
\<close>

section \<open>The boot sequence\<close>

text \<open>
  What \<^verbatim>\<open>lk_main\<close> does to the scheduler, on the boot cpu and with interrupts
  off: the early thread setup, \<^verbatim>\<open>kernel_init\<close>, and the hand-over to the thread that
  completes the initialisation. \<open>kernel_zero\<close> is the kernel's zeroed memory.
  \<open>entry\<close> is the address of \<^verbatim>\<open>bootstrap2\<close> and \<open>stack_size\<close> the
  architecture's \<^verbatim>\<open>DEFAULT_STACK_SIZE\<close>.
\<close>

definition kernel_zero :: kstate where
  "kernel_zero =
     \<lparr>thr = (\<lambda>_. \<lparr>t_magic = 0, t_queue_node = Unlinked, t_priority = 0, t_state = THREAD_SUSPENDED,
        t_remaining_quantum = 0, t_flags = 0, t_curr_cpu = 0, t_pinned_cpu = 0, t_aspace = None,
        t_blocking_wait_queue = None, t_wait_queue_block_ret = 0, t_stack = None, t_stack_size = 0,
        t_stack_pad = [], t_entry = 0, t_arg = 0, t_retcode = 0, t_tls = [], t_name = []\<rparr>),
      thread_list = [], run_queue = (\<lambda>_. []), run_queue_bitmap = 0, current = (\<lambda>_. None),
      wqs = (\<lambda>_. \<lparr>wq_magic = 0, wq_list = [], wq_count = 0\<rparr>),
      tims = \<lparr>tmr = (\<lambda>_. \<lparr>tm_magic = 0, tm_node = None, tm_scheduled_time = 0, tm_periodic_time = 0,
                tm_callback = None\<rparr>),
              timer_queue = (\<lambda>_. []), hw_timer = (\<lambda>_. None)\<rparr>,
      clock = 0, clock_hires = 0,
      mp = \<lparr>active_cpus = 0, idle_cpus = 0, realtime_cpus = 0, mp_ipis = 0\<rparr>,
      stats = (\<lambda>_. \<lparr>idle_time = 0, last_idle_timestamp = 0, reschedules = 0, context_switches = 0,
        preempts = 0, yields = 0, timer_ints = 0, timers_run = 0, reschedule_ipis = 0\<rparr>),
      mmu_aspace = (\<lambda>_. None), heap_log = []\<rparr>"

definition thread_set_pinned_cpu :: "tid \<Rightarrow> int \<Rightarrow> kstate \<Rightarrow> kstate" where
  "thread_set_pinned_cpu t c k = upd_thread t (\<lambda>th. th\<lparr>t_pinned_cpu := c\<rparr>) k"

definition kernel_init :: "nat \<Rightarrow> kstate \<Rightarrow> kstate" where
  "kernel_init SMP_MAX_CPUS k =
     (let k = thread_init SMP_MAX_CPUS k in k\<lparr>tims := timer_init (tims k)\<rparr>)"

definition lk_main ::
  "nat \<Rightarrow> tid option \<Rightarrow> nat option \<Rightarrow> nat \<Rightarrow> nat \<Rightarrow> string \<Rightarrow> kstate \<Rightarrow> kstate option" where
  "lk_main SMP_MAX_CPUS m_struct m_stack entry stack_size idle_name k = do {
     let k = thread_init_early k;
     let k = kernel_init SMP_MAX_CPUS k;
     (t, k) \<leftarrow> thread_create 0 m_struct m_stack ''bootstrap2'' entry 0 DEFAULT_PRIORITY stack_size k;
     t \<leftarrow> t;
     let k = thread_set_pinned_cpu t 0 k;
     (_, k) \<leftarrow> thread_detach 0 t k;
     (_, k) \<leftarrow> thread_resume 0 True t k;
     thread_become_idle 0 idle_name k
   }"

section \<open>Creating a thread\<close>

text \<open>What the caller of \<^verbatim>\<open>thread_create_etc\<close> hands in or \<^verbatim>\<open>malloc\<close> returns: memory no live thread uses.\<close>

definition fresh_thread :: "tid \<Rightarrow> kstate \<Rightarrow> bool" where
  "fresh_thread t k \<longleftrightarrow> (\<exists>n. t = Thr n) \<and> \<not> live k t \<and> wq_list (wqs k (RetcodeWq t)) = []"

definition new_thread :: "tid \<Rightarrow> int \<Rightarrow> kstate \<Rightarrow> kstate \<Rightarrow> bool" where
  "new_thread t p k k' \<longleftrightarrow>
     live k' t \<and> state_of k' t = THREAD_SUSPENDED \<and> node_of k' t = Unlinked \<and>
     t_blocking_wait_queue (thr k' t) = None \<and> t_priority (thr k' t) = p \<and> \<not> has_flag THREAD_FLAG_DETACHED (thr k' t) \<and>
     \<not> thread_is_real_time_or_idle (thr k' t) \<and> stack_guard_intact (thr k' t) \<and>
     wqs k' = (wqs k)(RetcodeWq t := WAIT_QUEUE_INITIAL_VALUE) \<and>
     thread_list k' = t # thread_list k \<and>
     (\<forall>u. u \<noteq> t \<longrightarrow> thr k' u = thr k u) \<and>
     run_queue k' = run_queue k \<and> run_queue_bitmap k' = run_queue_bitmap k \<and>
     current k' = current k \<and> tims k' = tims k \<and> clock k' = clock k"

lemma fresh_facts:
  assumes "kinv k" "fresh_thread t k"
  shows "node_of k t = Unlinked" "current k c \<noteq> Some t" "t \<noteq> Idle c"
proof -
  note parts = sched_invD [OF assms(1)]
  have nl: "\<not> live k t" using assms(2) by (simp add: fresh_thread_def)
  then show "node_of k t = Unlinked"
    using parts(1,2) by (cases "node_of k t") (auto simp: inv_q_def inv_w_def)
  show "current k c \<noteq> Some t" using inv_c_outside [OF parts(3)] nl by fastforce
  show "t \<noteq> Idle c" using assms(2) by (auto simp: fresh_thread_def)
qed

lemma new_thread_inv:
  assumes inv: "kinv k" and fr: "fresh_thread t k" and nw: "new_thread t p k k'"
  shows "kinv k'"
proof (rule sched_invI)
  note parts = sched_invD [OF inv] and ff = fresh_facts [OF inv fr]
  have nl: "\<not> live k t" and wl: "wq_list (wqs k (RetcodeWq t)) = []"
    using fr by (auto simp: fresh_thread_def)
  have n: "live k' t" "state_of k' t = THREAD_SUSPENDED" "node_of k' t = Unlinked"
    "\<not> thread_is_real_time_or_idle (thr k' t)" "stack_guard_intact (thr k' t)"
    "wqs k' = (wqs k)(RetcodeWq t := WAIT_QUEUE_INITIAL_VALUE)"
    "\<And>u. u \<noteq> t \<Longrightarrow> thr k' u = thr k u" "run_queue k' = run_queue k"
    "run_queue_bitmap k' = run_queue_bitmap k" "current k' = current k" "tims k' = tims k"
    "t_blocking_wait_queue (thr k' t) = None"
    using nw by (auto simp: new_thread_def)
  define T where "T = thr k' t"
  have th: "thr k' u = (if u = t then T else thr k u)" for u using n(7) by (simp add: T_def)
  have T: "t_magic T = THREAD_MAGIC" "t_state T = THREAD_SUSPENDED" "t_queue_node T = Unlinked"
    "\<not> thread_is_idle T" "stack_guard_intact T" "t_blocking_wait_queue T = None"
    using n(1-5,12) by (simp_all add: T_def rt_or_idle_iff)
  have noc: "\<And>c. current k c = Some t \<Longrightarrow> False" using ff(2) by simp
  have noi: "\<And>c. t = Idle c \<Longrightarrow> False" using ff(3) by simp
  show "inv_q k'"
    using parts(1) ff(1) T unfolding inv_q_def n(8,9) by (auto simp: th)
  have now: "node_of k u \<noteq> WaitQ (RetcodeWq t)" for u
    using parts(2) wl unfolding inv_w_def by (metis empty_iff empty_set)
  show "inv_w k'"
    using parts(2) ff(1) T wl now unfolding inv_w_def n(6)
    by (auto simp: th WAIT_QUEUE_INITIAL_VALUE_def)
  show "inv_c {} k'"
    using parts(3) T noc unfolding inv_c_def n(10) by (auto simp: th)
  show "inv_r {} k'"
    using parts(4) T unfolding inv_r_def by (auto simp: th)
  show "inv_i k'"
    using parts(5) T noi unfolding inv_i_def n(10) by (auto simp: th)
  show "inv_t k'"
    by (rule inv_t_update [OF parts(6) n(10)])
      (use noc T n(11) parts(6) in \<open>auto simp: inv_t_def th split: if_splits\<close>)
  show "inv_g k'"
    using parts(7) T unfolding inv_g_def by (auto simp: th)
qed

text \<open>
  With memory for the structure and the stack the new thread is suspended and everything
  else is as before; without, the call returns \<^verbatim>\<open>NULL\<close>.
\<close>

definition create_target :: "tid option \<Rightarrow> tid option \<Rightarrow> tid option" where
  "create_target m_struct t = (if t = None then m_struct else t)"

theorem thread_create_etc_ok:
  assumes inv: "kinv k" and cur: "current k cpu = Some self"
    and tgt: "create_target m_struct t = Some t'" and fr: "fresh_thread t' k"
    and st: "(if stack = None then m_stack else stack) \<noteq> None"
  shows "\<exists>k'. thread_create_etc cpu m_struct m_stack t nm entry arg p stack sz k = Some (Some t', k') \<and>
           new_thread t' p k k' \<and> kinv k'"
proof -
  define k' where "k' = snd (the (thread_create_etc cpu m_struct m_stack t nm entry arg p stack sz k))"
  have cr: "thread_create_etc cpu m_struct m_stack t nm entry arg p stack sz k = Some (Some t', k')"
    using cur tgt st by (simp add: k'_def thread_create_etc_def create_target_def Let_def
        wait_queue_init_def)
  have "new_thread t' p k k'"
    using cur tgt st unfolding k'_def
    by (cases stack; cases t)
      (simp_all add: thread_create_etc_def create_target_def Let_def new_thread_def wait_queue_init_def
        init_thread_struct_def thread_is_real_time_or_idle_def stack_guard_intact_def has_flag_def lk_defs
        upd_wq_def list_all_iff)
  with cr show ?thesis using new_thread_inv [OF inv fr] by blast
qed

theorem thread_create_etc_no_memory:
  "create_target m_struct t = None \<Longrightarrow>
   thread_create_etc cpu m_struct m_stack t nm entry arg p stack sz k = Some (None, k)"
  by (simp add: thread_create_etc_def create_target_def)

section \<open>Real-time threads\<close>

lemma real_time_flag:
  fixes th :: thread
  defines "th' \<equiv> th\<lparr>t_flags := t_flags th OR THREAD_FLAG_REAL_TIME\<rparr>"
  shows "has_flag THREAD_FLAG_REAL_TIME th'" "thread_is_idle th' = thread_is_idle th"
    "stack_guard_intact th' = stack_guard_intact th" "thread_is_real_time_or_idle th'"
proof -
  show rt: "has_flag THREAD_FLAG_REAL_TIME th'"
    unfolding has_flag_bits by (simp add: th'_def bit_or_iff THREAD_FLAG_REAL_TIME_def)
  show "thread_is_idle th' = thread_is_idle th"
    unfolding thread_is_idle_def has_flag_bits
    by (simp add: th'_def bit_or_iff THREAD_FLAG_REAL_TIME_def)
  show "stack_guard_intact th' = stack_guard_intact th"
    unfolding stack_guard_intact_def has_flag_bits
    by (simp add: th'_def bit_or_iff THREAD_FLAG_REAL_TIME_def)
  show "thread_is_real_time_or_idle th'" using rt by (simp add: rt_or_idle_iff)
qed

text \<open>
  A thread that no other cpu runs may be made real-time; for the caller itself the
  preemption timer is stopped.
\<close>

theorem thread_set_real_time_ok:
  assumes inv: "kinv k" and cur: "current k cpu = Some self" and t: "live k t"
    and el: "\<And>c. c \<noteq> cpu \<Longrightarrow> current k c \<noteq> Some t"
  shows "\<exists>k'. thread_set_real_time cpu (Some t) k = Some (NO_ERROR, k') \<and> kinv k' \<and>
           has_flag THREAD_FLAG_REAL_TIME (thr k' t) \<and> current k' = current k \<and> wqs k' = wqs k \<and>
           (\<forall>u. t_magic (thr k' u) = t_magic (thr k u) \<and> state_of k' u = state_of k u) \<and>
           (\<forall>u. (\<forall>c. u \<noteq> PreemptTimer c) \<longrightarrow> tmr (tims k') u = tmr (tims k) u)"
proof -
  note parts = sched_invD [OF inv]
  have tok: "timers_ok (tims k)" "tm_magic (tmr (tims k) (PreemptTimer cpu)) = TIMER_MAGIC"
    using parts(6) cur by (auto simp: inv_t_def)
  obtain ts where ts: "(if current k cpu = Some t
      then timer_cancel cpu (clock k) (PreemptTimer cpu) (tims k) else Some (tims k)) = Some ts"
    "timers_ok ts" "tm_magic (tmr ts (PreemptTimer cpu)) = TIMER_MAGIC"
    "current k cpu = Some t \<longrightarrow> tm_node (tmr ts (PreemptTimer cpu)) = None"
    "\<forall>u. u \<noteq> PreemptTimer cpu \<or> current k cpu \<noteq> Some t \<longrightarrow> tmr ts u = tmr (tims k) u"
  proof (cases "current k cpu = Some t")
    case True
    then show ?thesis using timer_cancel_ok [OF tok, of cpu "clock k"] that by auto
  next
    case False
    then show ?thesis using tok that [of "tims k"] by simp
  qed
  let ?f = "\<lambda>th. th\<lparr>t_flags := t_flags th OR THREAD_FLAG_REAL_TIME\<rparr>"
  define k' where "k' = upd_thread t ?f (k\<lparr>tims := ts\<rparr>)"
  have k': "thr k' u = (if u = t then ?f (thr k t) else thr k u)" "current k' = current k"
    "wqs k' = wqs k" "run_queue k' = run_queue k" "run_queue_bitmap k' = run_queue_bitmap k"
    "tims k' = ts" for u
    by (simp_all add: k'_def)
  note rtf = real_time_flag [of "thr k t"]
  have rt: "has_flag THREAD_FLAG_REAL_TIME (thr k' t)" using rtf(1) by (simp add: k'(1))
  have fl: "thread_is_idle (thr k' u) = thread_is_idle (thr k u)"
    "thread_is_real_time_or_idle (thr k' u) \<longleftrightarrow> u = t \<or> thread_is_real_time_or_idle (thr k u)"
    "stack_guard_intact (thr k' u) = stack_guard_intact (thr k u)" for u
    using rtf(2-4) by (simp_all add: k'(1))
  have "kinv k'"
  proof (rule sched_invI)
    show "inv_q k'" using parts(1) unfolding inv_q_def fl k'(2-6) by (auto simp: k'(1))
    show "inv_w k'" using parts(2) unfolding inv_w_def fl k'(2-6) by (auto simp: k'(1))
    show "inv_c {} k'" using parts(3) unfolding inv_c_def fl k'(2-6) by (auto simp: k'(1))
    show "inv_r {} k'" using parts(4) unfolding inv_r_def fl k'(2-6) by (auto simp: k'(1))
    show "inv_i k'" using parts(5) unfolding inv_i_def fl k'(2-6) by (auto simp: k'(1))
    show "inv_g k'" using parts(7) unfolding inv_g_def fl k'(2-6) by (auto simp: k'(1))
    have pre: "tmr ts (PreemptTimer c) = tmr (tims k) (PreemptTimer c)" if "current k c \<noteq> Some t" for c
      using ts(5) that by auto
    have cb: "preempt_timer_armed c (tmr ts (PreemptTimer c)) \<and> current k c \<noteq> None"
      if "tm_node (tmr ts (PreemptTimer c)) \<noteq> None" for c
    proof (cases "c = cpu \<and> current k cpu = Some t")
      case False
      then have "tmr ts (PreemptTimer c) = tmr (tims k) (PreemptTimer c)" using ts(5) by auto
      then show ?thesis using that parts(6) by (simp add: inv_t_def)
    qed (use ts(4) that in simp)
    have cur_ok: "tm_magic (tmr ts (PreemptTimer c)) = TIMER_MAGIC \<and>
        tm_node (tmr ts (PreemptTimer c)) =
          (if u = t \<or> thread_is_real_time_or_idle (thr k u) then None else Some c)"
      if u: "current k c = Some u" for c u
    proof (cases "u = t")
      case True
      then have "c = cpu" using el u by auto
      then show ?thesis using ts(3,4) u True by simp
    next
      case False
      then show ?thesis using pre [of c] u parts(6) by (simp add: inv_t_def)
    qed
    have stk: "tmr ts (StackTimer u) = tmr (tims k) (StackTimer u)" for u using ts(5) by simp
    have "tm_node (tmr ts (StackTimer u)) \<noteq> None \<and>
        tm_callback (tmr ts (StackTimer u)) = Some (thread_sleep_handler_cb u)"
      if "live k u" "state_of k u = THREAD_SLEEPING" for u
      using that parts(6) unfolding stk inv_t_def by blast
    then show "inv_t k'"
      unfolding inv_t_def fl k'(2,6) using ts(2) cb cur_ok by (auto simp: k'(1))
  qed
  moreover have "thread_set_real_time cpu (Some t) k = Some (NO_ERROR, k')"
    using ts(1) t by (simp add: thread_set_real_time_def k'_def [symmetric])
  moreover have "t_magic (thr k' u) = t_magic (thr k u) \<and> state_of k' u = state_of k u" for u
    by (simp add: k'(1))
  moreover have "tmr (tims k') u = tmr (tims k) u" if "\<forall>c. u \<noteq> PreemptTimer c" for u
    using ts(5) that by (simp add: k'(6))
  ultimately show ?thesis using rt k'(2,3) by blast
qed

section \<open>Exit, join and detach\<close>

text \<open>A dead thread's structure may be given up.\<close>

lemma bury_inv:
  assumes inv: "sched_inv C X k" and t: "live k t" "state_of k t = THREAD_DEATH"
    and same: "run_queue k' = run_queue k" "run_queue_bitmap k' = run_queue_bitmap k"
      "current k' = current k" "wqs k' = wqs k" "tims k' = tims k"
    and th: "\<And>u. thr k' u = (if u = t then T else thr k u)"
    and T: "t_magic T = 0" "t_queue_node T = t_queue_node (thr k t)" "t_state T = THREAD_DEATH"
      "t_curr_cpu T = t_curr_cpu (thr k t)" "t_pinned_cpu T = t_pinned_cpu (thr k t)"
      "thread_is_real_time_or_idle T = thread_is_real_time_or_idle (thr k t)"
      "stack_guard_intact T"
  shows "sched_inv C X k'"
proof (rule sched_invI)
  note parts = sched_invD [OF inv]
  have d: "node_of k t = Unlinked" "\<not> is_idle k t" using parts(7) t by (auto simp: inv_g_def)
  have noi: "\<And>c. t = Idle c \<Longrightarrow> False" using parts(5) t(1) d(2) by (auto simp: inv_i_def)
  have nc: "c \<in> C" if "current k c = Some t" for c
    using inv_c_outside [OF parts(3) that] t(2) by (cases "c \<in> C") auto
  have T': "t_magic T \<noteq> THREAD_MAGIC" "t_queue_node T = Unlinked" using T d by (simp_all add: lk_defs)
  show "inv_q k'" using parts(1) d T' unfolding inv_q_def same by (auto simp: th)
  show "inv_w k'" using parts(2) d T' unfolding inv_w_def same by (auto simp: th)
  show "inv_c C k'" using parts(3) nc T' T unfolding inv_c_def same by (auto simp: th)
  show "inv_r X k'" using parts(4) T' unfolding inv_r_def by (auto simp: th)
  show "inv_i k'" using parts(5) T' noi unfolding inv_i_def same by (auto simp: th)
  show "inv_t k'"
    by (rule inv_t_update [OF parts(6) same(3)])
      (use T T' parts(6) in \<open>auto simp: th same inv_t_def split: if_splits\<close>)
  show "inv_g k'" using parts(7) T T' unfolding inv_g_def by (auto simp: th)
qed

lemma clear_guard_flag:
  fixes th :: thread
  defines "th' \<equiv> th\<lparr>t_flags := t_flags th AND NOT THREAD_FLAG_DEBUG_STACK_BOUNDS_CHECK\<rparr>"
  shows "stack_guard_intact th'" "thread_is_real_time_or_idle th' = thread_is_real_time_or_idle th"
  unfolding stack_guard_intact_def rt_or_idle_iff thread_is_idle_def has_flag_bits
  by (simp_all add: th'_def bit_and_iff bit_not_iff THREAD_FLAG_DEBUG_STACK_BOUNDS_CHECK_def)

lemma thread_exit_teardown_inv:
  assumes inv: "sched_inv C X k" and t: "live k t" "state_of k t = THREAD_DEATH"
  shows "sched_inv C X (thread_exit_teardown t k)"
    and "\<not> live (thread_exit_teardown t k) t"
    and "thread_list (thread_exit_teardown t k) = remove1 t (thread_list k)"
    and "current (thread_exit_teardown t k) = current k"
    and "wqs (thread_exit_teardown t k) = wqs k" "clock (thread_exit_teardown t k) = clock k"
    and "tims (thread_exit_teardown t k) = tims k"
    and "u \<noteq> t \<Longrightarrow> thr (thread_exit_teardown t k) u = thr k u"
proof -
  let ?k = "thread_exit_teardown t k"
  let ?z = "(thr k t)\<lparr>t_magic := 0\<rparr>"
  define T where "T = thr ?k t"
  have TT: "T = ?z \<or> T = ?z\<lparr>t_flags := t_flags ?z AND NOT THREAD_FLAG_DEBUG_STACK_BOUNDS_CHECK\<rparr>"
    by (auto simp: T_def thread_exit_teardown_def Let_def split: option.splits)
  have f: "run_queue ?k = run_queue k" "run_queue_bitmap ?k = run_queue_bitmap k"
    "current ?k = current k" "wqs ?k = wqs k" "tims ?k = tims k" "clock ?k = clock k"
    "thread_list ?k = remove1 t (thread_list k)"
    by (auto simp: thread_exit_teardown_def Let_def split: option.splits)
  have th: "thr ?k u = (if u = t then T else thr k u)" for u
    by (auto simp: T_def thread_exit_teardown_def Let_def split: option.splits)
  have g: "stack_guard_intact (thr k t)" using sched_invD(7) [OF inv] by (simp add: inv_g_def)
  have z: "stack_guard_intact ?z" "thread_is_real_time_or_idle ?z = thread_is_real_time_or_idle (thr k t)"
    using g by (simp_all add: stack_guard_intact_def thread_is_real_time_or_idle_def has_flag_def)
  have "stack_guard_intact T" "thread_is_real_time_or_idle T = thread_is_real_time_or_idle (thr k t)"
    using TT z clear_guard_flag [of ?z] by auto
  moreover have "t_magic T = 0" "t_queue_node T = t_queue_node (thr k t)" "t_state T = THREAD_DEATH"
      "t_curr_cpu T = t_curr_cpu (thr k t)" "t_pinned_cpu T = t_pinned_cpu (thr k t)"
    using TT t by auto
  ultimately show "sched_inv C X ?k" "\<not> live ?k t"
    using bury_inv [OF inv t f(1-5) th] by (simp_all add: th lk_defs)
  show "thread_list ?k = remove1 t (thread_list k)" "current ?k = current k" "wqs ?k = wqs k"
    "clock ?k = clock k" "tims ?k = tims k" "u \<noteq> t \<Longrightarrow> thr ?k u = thr k u"
    using f th by simp_all
qed

text \<open>The exiting thread, before its joiners are told.\<close>

definition dying :: "tid \<Rightarrow> int \<Rightarrow> kstate \<Rightarrow> kstate" where
  "dying t retcode k = upd_thread t (\<lambda>th. th\<lparr>t_state := THREAD_DEATH, t_retcode := retcode\<rparr>) k"

lemma dying_inv:
  assumes inv: "kinv k" and cur: "current k cpu = Some t" and ni: "\<not> is_idle k t"
  shows "sched_inv {cpu} {} (dying t rc k)"
proof -
  note run = running_facts [OF inv cur]
  have "inv_t (dying t rc k)"
    by (rule inv_t_update [OF sched_invD(6) [OF inv]])
      (use sched_invD(6) [OF inv] in \<open>auto simp: dying_def inv_t_def thread_is_real_time_or_idle_def
        has_flag_def split: if_splits\<close>)
  then show ?thesis
    using leave_running [OF inv cur, where k' = "dying t rc k" and th = "thr (dying t rc k) t"
        and s = THREAD_DEATH and p = "t_priority (thr k t)"] run ni
    by (simp add: dying_def tview_def)
qed

theorem thread_exit_ok:
  assumes inv: "kinv k" and cur: "current k cpu = Some t" and ni: "\<not> is_idle k t"
    and m: "wq_magic (wqs k (RetcodeWq t)) = WAIT_QUEUE_MAGIC"
  shows "rescheduled cpu
           (if has_flag THREAD_FLAG_DETACHED (thr k t) then thread_exit_teardown t (dying t rc k)
            else unblock_all (RetcodeWq t) 0 (dying t rc k))
           (thread_exit cpu rc k)"
proof -
  let ?d = "dying t rc k"
  note run = running_facts [OF inv cur] and di = dying_inv [OF inv cur ni, of rc]
  have d: "live ?d t" "state_of ?d t = THREAD_DEATH" "current ?d cpu = Some t"
    "wq_magic (wqs ?d (RetcodeWq t)) = WAIT_QUEUE_MAGIC"
    "has_flag THREAD_FLAG_DETACHED (thr ?d t) = has_flag THREAD_FLAG_DETACHED (thr k t)"
    using run cur m by (simp_all add: dying_def has_flag_def)
  show ?thesis
  proof (cases "has_flag THREAD_FLAG_DETACHED (thr k t)")
    case True
    let ?k = "thread_exit_teardown t ?d"
    note td = thread_exit_teardown_inv [OF di d(1,2)]
    have "rescheduled cpu ?k (thread_resched cpu ?k)"
      using rescheduled_thread_resched [of cpu ?k t ?k] td d(3) by simp
    moreover have "thread_exit cpu rc k = thread_resched cpu ?k"
      using True run ni d(5) by (simp add: thread_exit_def cur dying_def [symmetric])
    ultimately show ?thesis using True by simp
  next
    case False
    obtain k1 where k1: "wait_queue_wake_all cpu (RetcodeWq t) False 0 ?d =
        Some (int (length (wq_list (wqs ?d (RetcodeWq t)))), k1)" "sched_inv {cpu} {} k1"
      "quiet cpu (unblock_all (RetcodeWq t) 0 ?d) k1" "current k1 = current ?d"
      using wait_queue_wake_all_ok [OF di d(3,4), of False 0] by auto
    have "current k1 cpu = Some t" using k1(4) d(3) by simp
    with k1(2,3) have "rescheduled cpu (unblock_all (RetcodeWq t) 0 ?d) (thread_resched cpu k1)"
      using rescheduled_thread_resched [of cpu k1 t] by blast
    moreover have "thread_exit cpu rc k = thread_resched cpu k1"
      using False run ni d(5) k1(1) by (simp add: thread_exit_def cur dying_def [symmetric])
    ultimately show ?thesis using False by simp
  qed
qed

theorem thread_join_finish_ok:
  assumes inv: "kinv k" and t: "live k t" "state_of k t = THREAD_DEATH"
  shows "\<exists>k'. thread_join_finish t k = Some (t_retcode (thr k t), k') \<and> kinv k' \<and> \<not> live k' t \<and>
           thread_list k' = remove1 t (thread_list k) \<and> current k' = current k \<and> wqs k' = wqs k \<and>
           tims k' = tims k \<and> (\<forall>u. u \<noteq> t \<longrightarrow> thr k' u = thr k u)"
proof -
  have d: "node_of k t = Unlinked" "t_blocking_wait_queue (thr k t) = None"
    using inv_g_parked [OF sched_invD(7) [OF inv] t(1)] inv_w_unblocked [OF sched_invD(2) [OF inv] t(1)] t(2)
    by simp_all
  define k' where "k' = snd (the (thread_join_finish t k))"
  have e: "thread_join_finish t k = Some (t_retcode (thr k t), k')"
    using t d by (simp add: k'_def thread_join_finish_def Let_def)
  have th: "thr k' u = (if u = t then (thr k t)\<lparr>t_magic := 0\<rparr> else thr k u)" for u
    using t d by (cases "t_stack (thr k t)"; simp add: k'_def thread_join_finish_def Let_def)+
  have f: "run_queue k' = run_queue k" "run_queue_bitmap k' = run_queue_bitmap k"
    "current k' = current k" "wqs k' = wqs k" "tims k' = tims k"
    "thread_list k' = remove1 t (thread_list k)"
    using t d by (cases "t_stack (thr k t)"; simp add: k'_def thread_join_finish_def Let_def)+
  have "stack_guard_intact (thr k t)" using sched_invD(7) [OF inv] by (simp add: inv_g_def)
  then have "kinv k'"
    by (intro bury_inv [OF inv t f(1-5) th])
      (simp_all add: t stack_guard_intact_def thread_is_real_time_or_idle_def has_flag_def)
  moreover have "\<not> live k' t" by (simp add: th lk_defs)
  ultimately show ?thesis using e f th by simp
qed

text \<open>The four outcomes of a join: refused, the return code at once, a poll that fails, a wait.\<close>

theorem thread_join_detached:
  "live k t \<Longrightarrow> has_flag THREAD_FLAG_DETACHED (thr k t) \<Longrightarrow>
   thread_join cpu t timeout k = Some (Returns (ERR_THREAD_DETACHED, None), k)"
  by (simp add: thread_join_def)

theorem thread_join_dead:
  assumes "kinv k" "live k t" "\<not> has_flag THREAD_FLAG_DETACHED (thr k t)" "state_of k t = THREAD_DEATH"
  shows "\<exists>k'. thread_join cpu t timeout k = Some (Returns (NO_ERROR, Some (t_retcode (thr k t))), k') \<and>
           kinv k' \<and> \<not> live k' t \<and> thread_list k' = remove1 t (thread_list k) \<and>
           current k' = current k \<and> wqs k' = wqs k \<and> tims k' = tims k \<and>
           (\<forall>u. u \<noteq> t \<longrightarrow> thr k' u = thr k u)"
proof -
  obtain k' where k': "thread_join_finish t k = Some (t_retcode (thr k t), k')" "kinv k'" "\<not> live k' t"
    "thread_list k' = remove1 t (thread_list k)" "current k' = current k" "wqs k' = wqs k"
    "tims k' = tims k" "\<forall>u. u \<noteq> t \<longrightarrow> thr k' u = thr k u"
    using thread_join_finish_ok [OF assms(1,2,4)] by blast
  have "thread_join cpu t timeout k = Some (Returns (NO_ERROR, Some (t_retcode (thr k t))), k')"
    using k'(1) assms(2-4) by (simp add: thread_join_def)
  with k'(2-) show ?thesis by blast
qed

theorem thread_join_waits:
  assumes inv: "kinv k" and cur: "current k cpu = Some self" and ni: "\<not> is_idle k self"
    and t: "live k t" "\<not> has_flag THREAD_FLAG_DETACHED (thr k t)" "state_of k t \<noteq> THREAD_DEATH"
    and m: "wq_magic (wqs k (RetcodeWq t)) = WAIT_QUEUE_MAGIC"
    and tm: "timeout \<noteq> INFINITE_TIME \<longrightarrow> tm_node (tmr (tims k) (StackTimer self)) = None"
  shows "if timeout = 0 then thread_join cpu t timeout k = Some (Returns (ERR_TIMED_OUT, None), k)
         else \<exists>ts k'. thread_join cpu t timeout k = Some (Blocks, k') \<and>
                wait_timer cpu self timeout (tims k) ts \<and>
                rescheduled cpu (blocked (RetcodeWq t) self ts k) (Some k')"
proof (cases "timeout = 0")
  case True
  then show ?thesis
    using running_facts(2) [OF inv cur] t m
    by (simp add: thread_join_def wait_queue_block_def cur lk_defs)
next
  case False
  obtain ts k' where "wait_queue_block cpu (RetcodeWq t) timeout k = Some (Blocks, k')"
    "wait_timer cpu self timeout (tims k) ts" "rescheduled cpu (blocked (RetcodeWq t) self ts k) (Some k')"
    using wait_queue_block_ok [OF inv cur ni m False tm] by blast
  moreover from this(1) t have "thread_join cpu t timeout k = Some (Blocks, k')"
    by (simp add: thread_join_def)
  ultimately show ?thesis using False by auto
qed

text \<open>Changing the flag of a thread that only join reads.\<close>

definition dview where
  "dview th = (t_magic th, t_queue_node th, t_priority th, t_state th, t_curr_cpu th, t_pinned_cpu th,
     t_blocking_wait_queue th, thread_is_idle th, thread_is_real_time_or_idle th, stack_guard_intact th)"

lemma sched_inv_dview:
  assumes t: "\<And>t. dview (thr k' t) = dview (thr k t)"
    and "run_queue k' = run_queue k" "run_queue_bitmap k' = run_queue_bitmap k"
      "current k' = current k" "wqs k' = wqs k" "tims k' = tims k"
  shows "sched_inv C X k' = sched_inv C X k"
proof -
  have eqs: "t_magic (thr k' t) = t_magic (thr k t)" "node_of k' t = node_of k t"
    "t_priority (thr k' t) = t_priority (thr k t)" "state_of k' t = state_of k t"
    "t_curr_cpu (thr k' t) = t_curr_cpu (thr k t)"
    "t_pinned_cpu (thr k' t) = t_pinned_cpu (thr k t)"
    "t_blocking_wait_queue (thr k' t) = t_blocking_wait_queue (thr k t)"
    "thread_is_idle (thr k' t) = thread_is_idle (thr k t)"
    "thread_is_real_time_or_idle (thr k' t) = thread_is_real_time_or_idle (thr k t)"
    "stack_guard_intact (thr k' t) = stack_guard_intact (thr k t)" for t
    using t [of t] by (auto simp: dview_def)
  show ?thesis unfolding sched_inv_def inv_defs eqs assms(2-) ..
qed

lemma dview_detached:
  "dview (th\<lparr>t_flags := t_flags th OR THREAD_FLAG_DETACHED\<rparr>) = dview th"
  "dview (th\<lparr>t_flags := t_flags th AND NOT THREAD_FLAG_DETACHED\<rparr>) = dview th"
  unfolding dview_def stack_guard_intact_def rt_or_idle_iff thread_is_idle_def has_flag_bits
  by (simp_all add: bit_or_iff bit_and_iff bit_not_iff THREAD_FLAG_DETACHED_def)

lemma sched_inv_detached_flag:
  "sched_inv C X (upd_thread t (\<lambda>th. th\<lparr>t_flags := t_flags th OR THREAD_FLAG_DETACHED\<rparr>) k) = sched_inv C X k"
  "sched_inv C X (upd_thread t (\<lambda>th. th\<lparr>t_flags := t_flags th AND NOT THREAD_FLAG_DETACHED\<rparr>) k) = sched_inv C X k"
  by (rule sched_inv_dview; simp add: dview_detached)+

text \<open>
  Detaching a thread that still lives wakes every joiner with
  \<^verbatim>\<open>ERR_THREAD_DETACHED\<close> and marks it, so later joins are refused; a dead one is
  reaped at once.
\<close>

theorem thread_detach_live:
  assumes inv: "kinv k" and cur: "current k cpu = Some self"
    and t: "live k t" "state_of k t \<noteq> THREAD_DEATH"
    and m: "wq_magic (wqs k (RetcodeWq t)) = WAIT_QUEUE_MAGIC"
  shows "\<exists>k1 k'. thread_detach cpu t k = Some (Returns NO_ERROR, k') \<and> kinv k' \<and>
           k' = upd_thread t (\<lambda>th. th\<lparr>t_flags := t_flags th OR THREAD_FLAG_DETACHED\<rparr>) k1 \<and>
           has_flag THREAD_FLAG_DETACHED (thr k' t) \<and> current k' = current k \<and>
           quiet cpu (unblock_all (RetcodeWq t) ERR_THREAD_DETACHED k) k1"
proof -
  obtain k1 where k1: "wait_queue_wake_all cpu (RetcodeWq t) False ERR_THREAD_DETACHED k =
      Some (int (length (wq_list (wqs k (RetcodeWq t)))), k1)" "kinv k1"
    "quiet cpu (unblock_all (RetcodeWq t) ERR_THREAD_DETACHED k) k1" "current k1 = current k"
    using wait_queue_wake_all_ok [OF inv cur m, of False] by auto
  have nd: "state_of k1 t \<noteq> THREAD_DEATH"
    using quiet_state [OF k1(3), of THREAD_DEATH t] t(2) by (simp add: unblock_all_def)
  let ?k = "upd_thread t (\<lambda>th. th\<lparr>t_flags := t_flags th OR THREAD_FLAG_DETACHED\<rparr>) k1"
  have "has_flag THREAD_FLAG_DETACHED (thr ?k t)"
    unfolding has_flag_bits by (simp add: bit_or_iff THREAD_FLAG_DETACHED_def)
  moreover have "thread_detach cpu t k = Some (Returns NO_ERROR, ?k)"
    using k1(1) nd t(1) by (simp add: thread_detach_def)
  ultimately show ?thesis
    using k1 by (intro exI [of _ k1] exI [of _ ?k]) (simp add: sched_inv_detached_flag)
qed

section \<open>The boot sequence establishes the invariant\<close>

lemma thread_init_timers:
  "tmr (tims (thread_init n k)) u =
     (case u of PreemptTimer c \<Rightarrow> if c < n then TIMER_INITIAL_VALUE else tmr (tims k) u
      | _ \<Rightarrow> tmr (tims k) u)"
proof -
  have "tmr (fold (\<lambda>i. timer_initialize (PreemptTimer i)) [0..<n] ts) u =
     (case u of PreemptTimer c \<Rightarrow> if c < n then TIMER_INITIAL_VALUE else tmr ts u
      | _ \<Rightarrow> tmr ts u)" for ts
    by (induction n) (auto simp: timer_initialize_def split: taddr.splits)
  then show ?thesis by (simp add: thread_init_def)
qed

lemma thread_init_frame [simp]:
  "thr (thread_init n k) = thr k" "run_queue (thread_init n k) = run_queue k"
  "current (thread_init n k) = current k" "wqs (thread_init n k) = wqs k"
  "run_queue_bitmap (thread_init n k) = run_queue_bitmap k" "clock (thread_init n k) = clock k"
  by (simp_all add: thread_init_def)

text \<open>The state in which \<^verbatim>\<open>thread_become_idle\<close> yields for the first time.\<close>

lemma boot_inv:
  assumes tm: "\<And>u. tmr (tims k) u = (case u of PreemptTimer c \<Rightarrow> if c < n then TIMER_INITIAL_VALUE
                     else tmr (tims kernel_zero) u | _ \<Rightarrow> tmr (tims kernel_zero) u)"
      "timer_queue (tims k) = (\<lambda>_. [])" and n: "0 < n"
    and q: "run_queue k = (\<lambda>p. if p = 16 then [Thr b] else [])" "run_queue_bitmap k = bit_set 16 0"
    and cur: "current k = (\<lambda>c. if c = 0 then Some (Idle 0) else None)"
    and w: "\<And>w. wq_list (wqs k w) = [] \<and> wq_count (wqs k w) = 0"
    and th: "\<And>u. u \<noteq> Idle 0 \<Longrightarrow> u \<noteq> Thr b \<Longrightarrow> thr k u = thr kernel_zero u"
    and I: "tview (thr k (Idle 0)) = (THREAD_MAGIC, Unlinked, 0, THREAD_RUNNING, 17, 0, 0, None, [])"
    and B: "tview (thr k (Thr b)) = (THREAD_MAGIC, RunQ 16, 16, THREAD_READY, fl, -1, 0, None, pad)"
      "\<not> thread_is_real_time_or_idle (thr k (Thr b))" "stack_guard_intact (thr k (Thr b))"
  shows "kinv k"
proof (rule sched_invI)
  have z: "\<not> live kernel_zero u" "node_of kernel_zero u = Unlinked"
    "stack_guard_intact (thr kernel_zero u)" for u
    by (simp_all add: kernel_zero_def lk_defs stack_guard_intact_def has_flag_def)
  define B where "B = thr k (Thr b)"
  define I where "I = thr k (Idle 0)"
  have th': "thr k u = (if u = Idle 0 then I else if u = Thr b then B else thr kernel_zero u)" for u
    using th by (auto simp: B_def I_def)
  have Bf: "t_magic B = THREAD_MAGIC" "t_queue_node B = RunQ 16" "t_priority B = 16"
    "t_state B = THREAD_READY" "t_pinned_cpu B = 0" "t_blocking_wait_queue B = None"
    "\<not> thread_is_idle B" "stack_guard_intact B"
    using B by (simp_all add: tview_def B_def rt_or_idle_iff)
  have If: "t_magic I = THREAD_MAGIC" "t_queue_node I = Unlinked" "t_priority I = 0"
    "t_state I = THREAD_RUNNING" "t_pinned_cpu I = 0" "t_blocking_wait_queue I = None"
    "t_curr_cpu I = 0" "thread_is_idle I" "thread_is_real_time_or_idle I" "stack_guard_intact I"
    using I by (simp_all add: tview_def I_def thread_is_idle_def thread_is_real_time_or_idle_def
        has_flag_def stack_guard_intact_def lk_defs)
  have zt: "tmr (tims kernel_zero) u = \<lparr>tm_magic = 0, tm_node = None, tm_scheduled_time = 0,
      tm_periodic_time = 0, tm_callback = None\<rparr>" for u by (simp add: kernel_zero_def)
  have ti: "tm_node (tmr (tims k) u) = None" for u
    by (auto simp: tm(1) zt TIMER_INITIAL_VALUE_def split: taddr.splits)
  show "inv_q k" unfolding inv_q_def q by (auto simp: th' Bf If z)
  show "inv_w k" unfolding inv_w_def using w by (auto simp: th' Bf If z)
  show "inv_c {} k" unfolding inv_c_def cur by (auto simp: th' Bf If z NUM_PRIORITIES_def)
  show "inv_r {} k" unfolding inv_r_def by (auto simp: th' Bf If z)
  show "inv_i k" unfolding inv_i_def cur by (auto simp: th' Bf If z NUM_PRIORITIES_def)
  show "inv_t k" unfolding inv_t_def timers_ok_def cur tm(2)
    using n by (auto simp: ti th' Bf If z) (simp add: tm(1) TIMER_INITIAL_VALUE_def)
  show "inv_g k" unfolding inv_g_def by (auto simp: th' Bf If z)
qed

text \<open>The state \<^verbatim>\<open>lk_main\<close> reaches before the final yield.\<close>

definition boot_state :: "nat \<Rightarrow> nat \<Rightarrow> nat \<Rightarrow> nat \<Rightarrow> nat \<Rightarrow> string \<Rightarrow> kstate" where
  "boot_state n b s entry stack_size nm =
     (let k = kernel_init n (thread_init_early kernel_zero);
          k = snd (the (thread_create 0 (Some (Thr b)) (Some s) ''bootstrap2'' entry 0 DEFAULT_PRIORITY
                          stack_size k));
          k = thread_set_pinned_cpu (Thr b) 0 k;
          k = snd (the (thread_detach 0 (Thr b) k));
          k = snd (the (thread_resume 0 True (Thr b) k));
          k = the (thread_set_name 0 nm k);
          k = upd_thread (Idle 0) (\<lambda>th. th\<lparr>t_priority := IDLE_PRIORITY,
                t_flags := t_flags th OR THREAD_FLAG_IDLE, t_pinned_cpu := int 0\<rparr>) k;
          k = mp_set_curr_cpu_active 0 True k
      in mp_set_cpu_idle 0 k)"

lemma mp_set_simps [simp]:
  "thr (mp_set_curr_cpu_active c a k) = thr k" "thr (mp_set_cpu_idle c k) = thr k"
  "wqs (mp_set_curr_cpu_active c a k) = wqs k" "wqs (mp_set_cpu_idle c k) = wqs k"
  "current (mp_set_curr_cpu_active c a k) = current k" "current (mp_set_cpu_idle c k) = current k"
  "tims (mp_set_curr_cpu_active c a k) = tims k" "tims (mp_set_cpu_idle c k) = tims k"
  "run_queue (mp_set_curr_cpu_active c a k) = run_queue k" "run_queue (mp_set_cpu_idle c k) = run_queue k"
  "run_queue_bitmap (mp_set_curr_cpu_active c a k) = run_queue_bitmap k"
  "run_queue_bitmap (mp_set_cpu_idle c k) = run_queue_bitmap k"
  by (simp_all add: mp_set_curr_cpu_active_def mp_set_cpu_idle_def)

lemmas boot_run = thread_init_early_def kernel_init_def thread_create_def thread_create_etc_def
  thread_set_pinned_cpu_def thread_detach_def wait_queue_wake_all_def thread_resume_def
  insert_in_run_queue_head_def run_queue_insertable_def thread_set_name_def wait_queue_init_def
  init_thread_struct_def WAIT_QUEUE_INITIAL_VALUE_def Let_def kernel_zero_def

lemma lk_main_boot_state:
  "lk_main n (Some (Thr b)) (Some s) entry stack_size nm kernel_zero =
     thread_yield 0 (boot_state n b s entry stack_size nm)"
  unfolding lk_main_def boot_state_def thread_become_idle_def
  by (simp add: boot_run lk_defs thread_init_def)

lemma boot_state_simps:
  "run_queue (boot_state n b s e z nm) = (\<lambda>p. if p = 16 then [Thr b] else [])"
  "run_queue_bitmap (boot_state n b s e z nm) = bit_set 16 0"
  "current (boot_state n b s e z nm) = (\<lambda>c. if c = 0 then Some (Idle 0) else None)"
  "wq_list (wqs (boot_state n b s e z nm) w) = []" "wq_count (wqs (boot_state n b s e z nm) w) = 0"
  "timer_queue (tims (boot_state n b s e z nm)) = (\<lambda>_. [])"
  "tmr (tims (boot_state n b s e z nm)) = tmr (tims (thread_init n kernel_zero))"
  "u \<noteq> Idle 0 \<Longrightarrow> u \<noteq> Thr b \<Longrightarrow> thr (boot_state n b s e z nm) u = thr kernel_zero u"
  by (simp_all add: boot_state_def boot_run lk_defs thread_init_def timer_init_def fun_eq_iff)

lemma boot_state_threads:
  "tview (thr (boot_state n b s e z nm) (Idle 0)) =
     (THREAD_MAGIC, Unlinked, 0, THREAD_RUNNING, 17, 0, 0, None, [])"
  "tview (thr (boot_state n b s e z nm) (Thr b)) =
     (THREAD_MAGIC, RunQ 16, 16, THREAD_READY, 39, -1, 0, None, replicate 64 STACK_DEBUG_WORD)"
  by (simp_all add: boot_state_def boot_run lk_defs tview_def)

theorem boot_state_inv:
  assumes "0 < n"
  shows "kinv (boot_state n b s e z nm)"
proof (rule boot_inv)
  note B = boot_state_threads(2) [of n b s e z nm]
  show "\<not> thread_is_real_time_or_idle (thr (boot_state n b s e z nm) (Thr b))"
    using B by (simp add: tview_def thread_is_real_time_or_idle_def has_flag_def lk_defs)
  show "stack_guard_intact (thr (boot_state n b s e z nm) (Thr b))"
    using B by (simp add: tview_def stack_guard_intact_def list_all_iff)
  fix u
  show "tmr (tims (boot_state n b s e z nm)) u =
      (case u of PreemptTimer c \<Rightarrow> if c < n then TIMER_INITIAL_VALUE else tmr (tims kernel_zero) u
       | _ \<Rightarrow> tmr (tims kernel_zero) u)"
    by (simp add: boot_state_simps thread_init_timers)
qed (use assms in \<open>simp_all add: boot_state_simps boot_state_threads\<close>)

theorem lk_main_ok:
  assumes "0 < n"
  shows "\<exists>k. lk_main n (Some (Thr b)) (Some s) entry stack_size nm kernel_zero = Some k \<and> kinv k \<and>
           current k 0 = Some (Thr b)"
proof -
  let ?b = "boot_state n b s entry stack_size nm"
  have inv: "kinv ?b" by (rule boot_state_inv [OF assms])
  obtain k t where k: "thread_yield 0 ?b = Some k" "kinv k" "quiet 0 ?b k" "current k 0 = Some t"
    "top_running 0 t k"
    using thread_yield_ok [OF inv, of 0 "Idle 0"] by (auto simp: rescheduled_def boot_state_simps)
  have B: "live ?b (Thr b)" "state_of ?b (Thr b) = THREAD_READY" "\<not> is_idle ?b (Thr b)"
    "t_pinned_cpu (thr ?b (Thr b)) = 0"
    using boot_state_threads(2) [of n b s entry stack_size nm]
    by (simp_all add: tview_def thread_is_idle_def has_flag_def lk_defs)
  have wv: "wview (thr k u) = wview (thr ?b u)" for u by (rule quietD(3) [OF k(3)])
  have B': "live k (Thr b)" "\<not> is_idle k (Thr b)" "eligible 0 k (Thr b)"
    using wv [of "Thr b"] B by (auto simp: wview_def thread_is_idle_def has_flag_def eligible_def)
  have oth: "current k c = None" if "c \<noteq> 0" for c
    using quietD(10) [OF k(3) that] that by (simp add: boot_state_simps)
  have "state_of k (Thr b) = THREAD_READY \<or> state_of k (Thr b) = THREAD_RUNNING"
    using k(3) B(2) by (auto simp: quiet_def ready_or_running_def dest: spec [of _ "Thr b"])
  then have "current k 0 = Some (Thr b)"
  proof
    assume "state_of k (Thr b) = THREAD_READY"
    then obtain p where p: "node_of k (Thr b) = RunQ p"
      using sched_invD(4) [OF k(2)] B' by (auto simp: inv_r_def)
    then have "\<not> is_idle k t" using k(5) B'(3) by (auto simp: top_running_def)
    moreover have "is_idle k (Idle 0)" using sched_invD(5) [OF k(2)] k(4) by (auto simp: inv_i_def)
    moreover have "live ?b t"
      using running_facts(1) [OF k(2,4)] quietD(4) [OF k(3)] by blast
    then have "t = Idle 0 \<or> t = Thr b"
      using boot_state_simps(8) [of t b n s entry stack_size nm] by (force simp: kernel_zero_def lk_defs)
    ultimately show ?thesis using k(4) by auto
  next
    assume "state_of k (Thr b) = THREAD_RUNNING"
    then obtain c where "current k c = Some (Thr b)"
      using sched_invD(3) [OF k(2)] B'(1) by (auto simp: inv_c_def)
    then show ?thesis using oth by (cases "c = 0") auto
  qed
  then show ?thesis using k lk_main_boot_state by auto
qed

end
