(* ===== verification/Kernel_Sync.thy ===== *)
theory Kernel_Sync
  imports Kernel_Life
begin

text \<open>
  The synchronisation objects built on the wait queues: mutexes
  (\<^verbatim>\<open>kernel/mutex.c\<close>), semaphores (\<^verbatim>\<open>kernel/semaphore.c\<close>) and events
  (\<^verbatim>\<open>kernel/event.c\<close>). The wait queue a structure embeds lives in the kernel
  state; the structure holds its address. As for the wait queues, an operation that may
  block is the part up to the context switch, and an operation with suffix \<open>_exit\<close> is
  what the thread does when it is scheduled again. The counters are C \<^verbatim>\<open>int\<close>s that
  count threads.
\<close>

section \<open>Mutexes\<close>

definition MUTEX_MAGIC :: u32 where [lk_defs]: "MUTEX_MAGIC = 0x6D757478"

record mutex =
  m_magic :: u32
  m_holder :: "tid option"
  m_count :: int
  m_wait :: wqaddr

definition mutex_init :: "wqaddr \<Rightarrow> kstate \<Rightarrow> mutex \<times> kstate" where
  "mutex_init w k =
     (\<lparr>m_magic = MUTEX_MAGIC, m_holder = None, m_count = 0, m_wait = w\<rparr>, wait_queue_init w k)"

definition mutex_destroy :: "nat \<Rightarrow> mutex \<times> kstate \<Rightarrow> (mutex \<times> kstate) option" where
  "mutex_destroy cpu = (\<lambda>(m, k). do {
     ASSERT (m_magic m = MUTEX_MAGIC);
     ASSERT (m_holder m = None \<or> current k cpu = m_holder m);
     let m = m\<lparr>m_magic := 0, m_count := 0\<rparr>;
     k \<leftarrow> wait_queue_destroy cpu (m_wait m) True k;
     Some (m, k)
   })"

text \<open>
  What a blocked \<open>mutex_acquire_timeout\<close> does with the result of its wait: it takes the
  mutex, or takes its count back after a timeout.
\<close>

definition mutex_acquire_finish :: "tid \<Rightarrow> status_t \<Rightarrow> mutex \<Rightarrow> mutex" where
  "mutex_acquire_finish t ret m =
     (if ret < NO_ERROR
      then (if ret = ERR_TIMED_OUT then m\<lparr>m_count := m_count m - 1\<rparr> else m)
      else m\<lparr>m_holder := Some t\<rparr>)"

definition mutex_acquire_timeout ::
  "nat \<Rightarrow> lk_time_t \<Rightarrow> mutex \<times> kstate \<Rightarrow> (status_t outcome \<times> mutex \<times> kstate) option" where
  "mutex_acquire_timeout cpu timeout = (\<lambda>(m, k). do {
     ASSERT (m_magic m = MUTEX_MAGIC);
     t \<leftarrow> current k cpu;
     ASSERT (m_holder m \<noteq> Some t);
     let m = m\<lparr>m_count := m_count m + 1\<rparr>;
     if m_count m > 1 then do {
       (r, k) \<leftarrow> wait_queue_block cpu (m_wait m) timeout k;
       case r of
         Blocks \<Rightarrow> Some (Blocks, m, k)
       | Returns ret \<Rightarrow> Some (Returns ret, mutex_acquire_finish t ret m, k)
     } else Some (Returns NO_ERROR, m\<lparr>m_holder := Some t\<rparr>, k)
   })"

definition mutex_acquire_exit ::
  "nat \<Rightarrow> lk_time_t \<Rightarrow> mutex \<times> kstate \<Rightarrow> (status_t \<times> mutex \<times> kstate) option" where
  "mutex_acquire_exit cpu timeout = (\<lambda>(m, k). do {
     t \<leftarrow> current k cpu;
     (ret, k) \<leftarrow> wait_queue_block_exit cpu timeout k;
     Some (ret, mutex_acquire_finish t ret m, k)
   })"

definition mutex_acquire ::
  "nat \<Rightarrow> mutex \<times> kstate \<Rightarrow> (status_t outcome \<times> mutex \<times> kstate) option" where
  "mutex_acquire cpu = mutex_acquire_timeout cpu INFINITE_TIME"

definition mutex_release :: "nat \<Rightarrow> mutex \<times> kstate \<Rightarrow> (status_t \<times> mutex \<times> kstate) option" where
  "mutex_release cpu = (\<lambda>(m, k). do {
     ASSERT (m_magic m = MUTEX_MAGIC);
     t \<leftarrow> current k cpu;
     ASSERT (m_holder m = Some t);
     let m = m\<lparr>m_holder := None, m_count := m_count m - 1\<rparr>;
     if m_count m \<ge> 1 then do {
       (_, k) \<leftarrow> wait_queue_wake_one cpu (m_wait m) True NO_ERROR k;
       Some (NO_ERROR, m, k)
     } else Some (NO_ERROR, m, k)
   })"

definition is_mutex_held :: "nat \<Rightarrow> mutex \<times> kstate \<Rightarrow> bool" where
  "is_mutex_held cpu = (\<lambda>(m, k). m_holder m = current k cpu)"

section \<open>Semaphores\<close>

definition SEMAPHORE_MAGIC :: u32 where [lk_defs]: "SEMAPHORE_MAGIC = 0x73656D61"

record semaphore =
  s_magic :: u32
  s_count :: int
  s_wait :: wqaddr

text \<open>The unsigned initial value is stored in an \<^verbatim>\<open>int\<close>.\<close>

definition sem_init :: "wqaddr \<Rightarrow> u32 \<Rightarrow> kstate \<Rightarrow> semaphore \<times> kstate" where
  "sem_init w value k =
     (\<lparr>s_magic = SEMAPHORE_MAGIC, s_count = sint value, s_wait = w\<rparr>, wait_queue_init w k)"

definition sem_destroy :: "nat \<Rightarrow> semaphore \<times> kstate \<Rightarrow> (semaphore \<times> kstate) option" where
  "sem_destroy cpu = (\<lambda>(s, k). do {
     k \<leftarrow> wait_queue_destroy cpu (s_wait s) True k;
     Some (s\<lparr>s_count := 0\<rparr>, k)
   })"

definition sem_post :: "nat \<Rightarrow> bool \<Rightarrow> semaphore \<times> kstate \<Rightarrow> (int \<times> semaphore \<times> kstate) option" where
  "sem_post cpu resched = (\<lambda>(s, k). do {
     let s = s\<lparr>s_count := s_count s + 1\<rparr>;
     if s_count s \<le> 0 then do {
       (ret, k) \<leftarrow> wait_queue_wake_one cpu (s_wait s) resched NO_ERROR k;
       Some (ret, s, k)
     } else Some (0, s, k)
   })"

definition sem_wait ::
  "nat \<Rightarrow> semaphore \<times> kstate \<Rightarrow> (status_t outcome \<times> semaphore \<times> kstate) option" where
  "sem_wait cpu = (\<lambda>(s, k). do {
     let s = s\<lparr>s_count := s_count s - 1\<rparr>;
     if s_count s < 0 then do {
       (r, k) \<leftarrow> wait_queue_block cpu (s_wait s) INFINITE_TIME k;
       Some (r, s, k)
     } else Some (Returns NO_ERROR, s, k)
   })"

definition sem_trywait :: "semaphore \<Rightarrow> status_t \<times> semaphore" where
  "sem_trywait s =
     (if s_count s \<le> 0 then (ERR_NOT_READY, s) else (NO_ERROR, s\<lparr>s_count := s_count s - 1\<rparr>))"

definition sem_timedwait_finish :: "status_t \<Rightarrow> semaphore \<Rightarrow> semaphore" where
  "sem_timedwait_finish ret s =
     (if ret < NO_ERROR then (if ret = ERR_TIMED_OUT then s\<lparr>s_count := s_count s + 1\<rparr> else s) else s)"

definition sem_timedwait ::
  "nat \<Rightarrow> lk_time_t \<Rightarrow> semaphore \<times> kstate \<Rightarrow> (status_t outcome \<times> semaphore \<times> kstate) option" where
  "sem_timedwait cpu timeout = (\<lambda>(s, k). do {
     let s = s\<lparr>s_count := s_count s - 1\<rparr>;
     if s_count s < 0 then do {
       (r, k) \<leftarrow> wait_queue_block cpu (s_wait s) timeout k;
       case r of
         Blocks \<Rightarrow> Some (Blocks, s, k)
       | Returns ret \<Rightarrow> Some (Returns ret, sem_timedwait_finish ret s, k)
     } else Some (Returns NO_ERROR, s, k)
   })"

text \<open>The rest of \<open>sem_timedwait\<close>, and of \<open>sem_wait\<close>, after the wait.\<close>

definition sem_timedwait_exit ::
  "nat \<Rightarrow> lk_time_t \<Rightarrow> semaphore \<times> kstate \<Rightarrow> (status_t \<times> semaphore \<times> kstate) option" where
  "sem_timedwait_exit cpu timeout = (\<lambda>(s, k). do {
     (ret, k) \<leftarrow> wait_queue_block_exit cpu timeout k;
     Some (ret, sem_timedwait_finish ret s, k)
   })"

definition sem_wait_exit ::
  "nat \<Rightarrow> semaphore \<times> kstate \<Rightarrow> (status_t \<times> semaphore \<times> kstate) option" where
  "sem_wait_exit cpu = (\<lambda>(s, k). do {
     (ret, k) \<leftarrow> wait_queue_block_exit cpu INFINITE_TIME k;
     Some (ret, s, k)
   })"

section \<open>Events\<close>

definition EVENT_MAGIC :: u32 where [lk_defs]: "EVENT_MAGIC = 0x65766E74"
definition EVENT_FLAG_AUTOUNSIGNAL :: u32 where [lk_defs]: "EVENT_FLAG_AUTOUNSIGNAL = 1"

record event =
  e_magic :: u32
  e_signaled :: bool
  e_flags :: u32
  e_wait :: wqaddr

definition event_init :: "wqaddr \<Rightarrow> bool \<Rightarrow> u32 \<Rightarrow> kstate \<Rightarrow> event \<times> kstate" where
  "event_init w initial flags k =
     (\<lparr>e_magic = EVENT_MAGIC, e_signaled = initial, e_flags = flags, e_wait = w\<rparr>, wait_queue_init w k)"

definition event_initialized :: "event \<Rightarrow> bool" where
  "event_initialized e \<longleftrightarrow> e_magic e = EVENT_MAGIC"

definition event_destroy :: "nat \<Rightarrow> event \<times> kstate \<Rightarrow> (event \<times> kstate) option" where
  "event_destroy cpu = (\<lambda>(e, k). do {
     ASSERT (e_magic e = EVENT_MAGIC);
     let e = e\<lparr>e_magic := 0, e_signaled := False, e_flags := 0\<rparr>;
     k \<leftarrow> wait_queue_destroy cpu (e_wait e) True k;
     Some (e, k)
   })"

definition autounsignal :: "event \<Rightarrow> bool" where
  "autounsignal e \<longleftrightarrow> e_flags e AND EVENT_FLAG_AUTOUNSIGNAL \<noteq> 0"

text \<open>After the wait, \<open>event_wait_timeout\<close> returns the result of the wait unchanged.\<close>

definition event_wait_timeout ::
  "nat \<Rightarrow> lk_time_t \<Rightarrow> event \<times> kstate \<Rightarrow> (status_t outcome \<times> event \<times> kstate) option" where
  "event_wait_timeout cpu timeout = (\<lambda>(e, k). do {
     ASSERT (e_magic e = EVENT_MAGIC);
     if e_signaled e
     then Some (Returns NO_ERROR, if autounsignal e then e\<lparr>e_signaled := False\<rparr> else e, k)
     else do {
       (r, k) \<leftarrow> wait_queue_block cpu (e_wait e) timeout k;
       Some (r, e, k)
     }
   })"

definition event_wait ::
  "nat \<Rightarrow> event \<times> kstate \<Rightarrow> (status_t outcome \<times> event \<times> kstate) option" where
  "event_wait cpu = event_wait_timeout cpu INFINITE_TIME"

text \<open>
  \<open>event_signal\<close> sets the flag of an auto-unsignal event after it looked for a thread
  to wake; it only does so when it found none, and then there was no context switch.
\<close>

definition event_signal :: "nat \<Rightarrow> bool \<Rightarrow> event \<times> kstate \<Rightarrow> (status_t \<times> event \<times> kstate) option" where
  "event_signal cpu reschedule = (\<lambda>(e, k). do {
     ASSERT (e_magic e = EVENT_MAGIC);
     if e_signaled e then Some (NO_ERROR, e, k)
     else if autounsignal e then do {
       (n, k) \<leftarrow> wait_queue_wake_one cpu (e_wait e) reschedule NO_ERROR k;
       Some (NO_ERROR, if n \<le> 0 then e\<lparr>e_signaled := True\<rparr> else e, k)
     } else do {
       (_, k) \<leftarrow> wait_queue_wake_all cpu (e_wait e) reschedule NO_ERROR k;
       Some (NO_ERROR, e\<lparr>e_signaled := True\<rparr>, k)
     }
   })"

definition event_unsignal :: "event \<Rightarrow> (status_t \<times> event) option" where
  "event_unsignal e = do {
     ASSERT (e_magic e = EVENT_MAGIC);
     Some (NO_ERROR, e\<lparr>e_signaled := False\<rparr>)
   }"

end
