(* ===== verification/Sync_Tokens.thy ===== *)
theory Sync_Tokens
  imports LK_System Kernel_Sync
begin

text \<open>
  What a mutex and a semaphore promise, as an abstract object that hands out tokens, and
  the view of a wait queue the two rely on. \<open>tokens\<close> counts the free tokens, lists the
  waiting threads, and keeps the threads that have been woken but have not run yet apart:
  those that were given a token and those whose wait timed out. The locale
  \<open>token_object\<close> is the contract: a guarded system whose calls simulate the steps of
  the abstract object. The second part shows what each wait queue operation does to the
  waiting, granted and late threads of one queue.
\<close>

section \<open>Tokens\<close>

record tokens =
  tk_free :: int
  tk_queue :: "tid list"
  tk_granted :: "tid set"
  tk_late :: "tid set"
  tk_in :: int
  tk_out :: int

inductive tok_step :: "tokens \<Rightarrow> tokens \<Rightarrow> bool" where
  tok_idle: "tok_step a a"
| tok_take: "0 < tk_free a \<Longrightarrow> tok_step a (a\<lparr>tk_free := tk_free a - 1, tk_out := tk_out a + 1\<rparr>)"
| tok_wait: "t \<notin> set (tk_queue a) \<Longrightarrow> t \<notin> tk_granted a \<Longrightarrow> t \<notin> tk_late a \<Longrightarrow>
    tok_step a (a\<lparr>tk_queue := tk_queue a @ [t]\<rparr>)"
| tok_give: "tok_step a (a\<lparr>tk_free := tk_free a + 1, tk_in := tk_in a + 1\<rparr>)"
| tok_hand: "tk_queue a = t # q \<Longrightarrow>
    tok_step a (a\<lparr>tk_queue := q, tk_granted := insert t (tk_granted a), tk_in := tk_in a + 1\<rparr>)"
| tok_expire: "t \<in> set (tk_queue a) \<Longrightarrow>
    tok_step a (a\<lparr>tk_queue := remove1 t (tk_queue a), tk_late := insert t (tk_late a)\<rparr>)"
| tok_get: "t \<in> tk_granted a \<Longrightarrow>
    tok_step a (a\<lparr>tk_granted := tk_granted a - {t}, tk_out := tk_out a + 1\<rparr>)"
| tok_fail: "t \<in> tk_late a \<Longrightarrow> tok_step a (a\<lparr>tk_late := tk_late a - {t}\<rparr>)"

inductive_cases tok_stepE: "tok_step a b"

text \<open>No token is made up or lost, and a thread is in at most one of the three places.\<close>

definition tok_inv :: "tokens \<Rightarrow> bool" where
  "tok_inv a \<longleftrightarrow> 0 \<le> tk_free a \<and> distinct (tk_queue a) \<and> finite (tk_granted a) \<and> finite (tk_late a) \<and>
     set (tk_queue a) \<inter> tk_granted a = {} \<and> set (tk_queue a) \<inter> tk_late a = {} \<and>
     tk_granted a \<inter> tk_late a = {} \<and>
     tk_in a = tk_free a + tk_out a + int (card (tk_granted a))"

lemma tok_inv_step: "tok_step a b \<Longrightarrow> tok_inv a \<Longrightarrow> tok_inv b"
proof (induction rule: tok_step.induct)
  case (tok_hand a t q)
  then have "t \<notin> tk_granted a" "finite (tk_granted a)" by (simp_all add: tok_inv_def)
  then have "card (insert t (tk_granted a)) = Suc (card (tk_granted a))" by simp
  with tok_hand show ?case by (simp add: tok_inv_def)
next
  case (tok_get t a)
  then have "0 < card (tk_granted a)" by (auto simp: tok_inv_def card_gt_0_iff)
  with tok_get show ?case by (simp add: tok_inv_def of_nat_diff) blast
next
  case (tok_expire t a)
  then show ?case by (simp add: tok_inv_def) blast
next
  case (tok_fail t a)
  then show ?case by (simp add: tok_inv_def) blast
qed (simp_all add: tok_inv_def)

locale token_object = guarded_system start allowed exec good
  for start :: "'s \<Rightarrow> bool" and allowed :: "'c \<Rightarrow> 's \<Rightarrow> bool"
    and exec :: "'c \<Rightarrow> 's \<Rightarrow> 's option" and good :: "'s \<Rightarrow> bool" +
  fixes abs :: "'s \<Rightarrow> tokens"
  assumes abs_start: "start s \<Longrightarrow> tok_inv (abs s)"
    and abs_step: "good s \<Longrightarrow> allowed c s \<Longrightarrow> exec c s = Some s' \<Longrightarrow> tok_step (abs s) (abs s')"
begin

lemma reach_tokens: "reach start allowed exec s \<Longrightarrow> tok_inv (abs s)"
proof (induction rule: reach.induct)
  case (reach_start s)
  then show ?case by (rule abs_start)
next
  case (reach_call s c s')
  then show ?case using abs_step [OF reach_good] tok_inv_step by blast
qed

lemma reach_simulates:
  "reach start allowed exec s \<Longrightarrow> allowed c s \<Longrightarrow>
   \<exists>s'. exec c s = Some s' \<and> tok_step (abs s) (abs s') \<and> tok_inv (abs s')"
  using reach_not_stuck abs_step [OF reach_good] reach_tokens by meson

end

section \<open>The waiters of one queue\<close>

text \<open>
  The kernel together with the threads that are inside a wait on the queue in question, and
  the timeouts they gave.
\<close>

type_synonym waits = "kstate \<times> (tid \<rightharpoonup> lk_time_t)"

abbreviation block_ret :: "kstate \<Rightarrow> tid \<Rightarrow> status_t" where
  "block_ret k t \<equiv> t_wait_queue_block_ret (thr k t)"

abbreviation waiters :: "wqaddr \<Rightarrow> waits \<Rightarrow> tid list" where
  "waiters w s \<equiv> wq_list (wqs (fst s) w)"

definition granted :: "wqaddr \<Rightarrow> waits \<Rightarrow> tid set" where
  "granted w s = {t \<in> dom (snd s). t \<notin> set (waiters w s) \<and> block_ret (fst s) t = NO_ERROR}"

definition late :: "wqaddr \<Rightarrow> waits \<Rightarrow> tid set" where
  "late w s = {t \<in> dom (snd s). t \<notin> set (waiters w s) \<and> block_ret (fst s) t \<noteq> NO_ERROR}"

fun waits_ok :: "wqaddr \<Rightarrow> waits \<Rightarrow> bool" where
  "waits_ok w (k, ins) \<longleftrightarrow> kinv k \<and> wq_magic (wqs k w) = WAIT_QUEUE_MAGIC \<and> finite (dom ins) \<and>
     set (wq_list (wqs k w)) \<subseteq> dom ins \<and>
     (\<forall>t \<in> dom ins. t \<notin> set (wq_list (wqs k w)) \<longrightarrow> block_ret k t = NO_ERROR \<or> block_ret k t = ERR_TIMED_OUT) \<and>
     (\<forall>t d. ins t = Some d \<longrightarrow> d \<noteq> INFINITE_TIME \<longrightarrow>
        tm_magic (tmr (tims k) (StackTimer t)) = TIMER_MAGIC)"

text \<open>What may happen in the kernel that has nothing to do with the queue.\<close>

fun elsewhere :: "wqaddr \<Rightarrow> waits \<Rightarrow> kstate \<Rightarrow> bool" where
  "elsewhere w (k, ins) k' \<longleftrightarrow> kinv k' \<and> wqs k' w = wqs k w \<and>
     (\<forall>t \<in> dom ins. block_ret k' t = block_ret k t \<and>
        tm_magic (tmr (tims k') (StackTimer t)) = tm_magic (tmr (tims k) (StackTimer t)))"

text \<open>A thread may start a wait: it runs, is outside every wait on the queue, and its timer is free.\<close>

definition may_wait :: "nat \<Rightarrow> waits \<Rightarrow> tid \<Rightarrow> bool" where
  "may_wait cpu s t \<longleftrightarrow> current (fst s) cpu = Some t \<and> \<not> is_idle (fst s) t \<and> t \<notin> dom (snd s) \<and>
     tm_node (tmr (tims (fst s)) (StackTimer t)) = None"

lemma waits_okD:
  assumes "waits_ok w s"
  shows "kinv (fst s)" "wq_magic (wqs (fst s) w) = WAIT_QUEUE_MAGIC" "finite (dom (snd s))"
    "set (waiters w s) \<subseteq> dom (snd s)" "distinct (waiters w s)" "finite (granted w s)" "finite (late w s)"
    "granted w s \<inter> late w s = {}" "set (waiters w s) \<inter> granted w s = {}" "set (waiters w s) \<inter> late w s = {}"
    "t \<in> late w s \<Longrightarrow> block_ret (fst s) t = ERR_TIMED_OUT"
    "current (fst s) cpu = Some t \<Longrightarrow> t \<notin> set (waiters w s)"
proof -
  have k: "kinv (fst s)" using assms by (cases s) simp
  then show "kinv (fst s)" .
  show f: "finite (dom (snd s))" using assms by (cases s) simp
  show "wq_magic (wqs (fst s) w) = WAIT_QUEUE_MAGIC" "set (waiters w s) \<subseteq> dom (snd s)"
    using assms by (cases s, simp)+
  show "distinct (waiters w s)" using sched_invD(2) [OF k] by (simp add: inv_w_def)
  show "finite (granted w s)" "finite (late w s)"
    using f by (auto simp: granted_def late_def intro: finite_subset)
  show "granted w s \<inter> late w s = {}" "set (waiters w s) \<inter> granted w s = {}" "set (waiters w s) \<inter> late w s = {}"
    by (auto simp: granted_def late_def)
  show "t \<in> late w s \<Longrightarrow> block_ret (fst s) t = ERR_TIMED_OUT"
    using assms by (cases s) (auto simp: late_def)
  show "current (fst s) cpu = Some t \<Longrightarrow> t \<notin> set (waiters w s)"
    using waiting_facts(3) [OF k, of t w] running_facts(2) [OF k, of cpu t] by auto
qed

text \<open>The five things that happen to the waiters of a queue.\<close>

lemma waits_block:
  assumes ok: "waits_ok w (k, ins)" and may: "may_wait cpu (k, ins) t" and to: "timeout \<noteq> 0"
  shows "\<exists>k'. wait_queue_block cpu w timeout k = Some (Blocks, k') \<and>
           waits_ok w (k', ins(t \<mapsto> timeout)) \<and>
           waiters w (k', ins(t \<mapsto> timeout)) = waiters w (k, ins) @ [t] \<and>
           granted w (k', ins(t \<mapsto> timeout)) = granted w (k, ins) \<and>
           late w (k', ins(t \<mapsto> timeout)) = late w (k, ins)"
proof -
  note d = waits_okD [OF ok] and may' = may [unfolded may_wait_def]
  obtain ts k' where b: "wait_queue_block cpu w timeout k = Some (Blocks, k')"
    "wait_timer cpu t timeout (tims k) ts" "kinv k'" "quiet cpu (blocked w t ts k) k'"
    using wait_queue_block_ok [of k cpu t w timeout] d(1,2) may' to by (auto simp: rescheduled_def)
  note q = quietD [OF b(4)]
  have wq: "wqs k' w = (wqs k w)\<lparr>wq_list := wq_list (wqs k w) @ [t], wq_count := wq_count (wqs k w) + 1\<rparr>"
    using q(1) by (simp add: blocked_def)
  have ret: "block_ret k' u = (if u = t then NO_ERROR else block_ret k u)" for u
    using q(7) [of u] by (simp add: blocked_def)
  have tm: "tmr (tims k') (StackTimer u) = tmr ts (StackTimer u)" for u
    using q(9) [of u] by (simp add: blocked_def)
  have tm': "tm_magic (tmr (tims k') (StackTimer u)) = TIMER_MAGIC"
    if "(ins(t \<mapsto> timeout)) u = Some d" "d \<noteq> INFINITE_TIME" for u d
    using that b(2) ok may' tm by (auto simp: wait_timer_def split: if_splits)
  have "granted w (k', ins(t \<mapsto> timeout)) = granted w (k, ins)"
    "late w (k', ins(t \<mapsto> timeout)) = late w (k, ins)"
    using may' by (auto simp: granted_def late_def wq ret)
  moreover have "waits_ok w (k', ins(t \<mapsto> timeout))"
    using b(3) ok tm' by (auto simp: wq ret)
  ultimately show ?thesis using b(1) wq by simp
qed

lemma waits_wake:
  assumes ok: "waits_ok w (k, ins)" and cur: "current k cpu = Some self" and r: "r \<longrightarrow> \<not> is_idle k self"
  shows "\<exists>k'. wait_queue_wake_one cpu w r NO_ERROR k =
             Some (if waiters w (k, ins) = [] then 0 else 1, k') \<and>
           waits_ok w (k', ins) \<and> waiters w (k', ins) = tl (waiters w (k, ins)) \<and>
           granted w (k', ins) = granted w (k, ins) \<union> set (take 1 (waiters w (k, ins))) \<and>
           late w (k', ins) = late w (k, ins)"
proof -
  note d = waits_okD [OF ok]
  obtain k' where k': "wait_queue_wake_one cpu w r NO_ERROR k = Some (if waiters w (k, ins) = [] then 0 else 1, k')"
    "kinv k'" "quiet cpu (woken w NO_ERROR k) k'"
    using wait_queue_wake_one_ok [of "{}" k cpu self w r NO_ERROR] d(1,2) cur r by auto
  note q = quietD [OF k'(3)]
  show ?thesis
  proof (cases "waiters w (k, ins)")
    case Nil
    then have e: "woken w NO_ERROR k = k" by (simp add: woken_def)
    show ?thesis
      using ok k' Nil q(1,7,9) unfolding e
      by (intro exI [of _ k']) (auto simp: granted_def late_def)
  next
    case (Cons t ts)
    then have e: "woken w NO_ERROR k = unblocked w t NO_ERROR k" by (simp add: woken_def)
    have wq: "wqs k' w = (wqs k w)\<lparr>wq_list := ts, wq_count := wq_count (wqs k w) - 1\<rparr>"
      using q(1) Cons by (simp add: e)
    have ret: "block_ret k' u = (if u = t then NO_ERROR else block_ret k u)" for u
      using q(7) [of u] by (simp add: e)
    have "t \<in> dom ins" "t \<notin> set ts" "set ts \<subseteq> dom ins" using d(4,5) Cons by auto
    moreover have "tm_magic (tmr (tims k') (StackTimer u)) = TIMER_MAGIC"
      if "ins u = Some d'" "d' \<noteq> INFINITE_TIME" for u d'
      using ok that q(9) [of u] by (simp add: e)
    ultimately have "waits_ok w (k', ins)"
      using ok k'(2) Cons by (auto simp: wq ret)
    moreover have "granted w (k', ins) = granted w (k, ins) \<union> {t}" "late w (k', ins) = late w (k, ins)"
      using \<open>t \<in> dom ins\<close> \<open>t \<notin> set ts\<close> Cons by (auto simp: granted_def late_def wq ret)
    ultimately show ?thesis using k'(1) Cons wq by simp
  qed
qed

lemma waits_expire:
  assumes ok: "waits_ok w (k, ins)" and t: "t \<in> set (waiters w (k, ins))"
  shows "\<exists>k'. wait_queue_timeout_handler cpu t k = Some (k', INT_RESCHEDULE) \<and>
           waits_ok w (k', ins) \<and> waiters w (k', ins) = remove1 t (waiters w (k, ins)) \<and>
           granted w (k', ins) = granted w (k, ins) \<and> late w (k', ins) = insert t (late w (k, ins))"
proof -
  note d = waits_okD [OF ok]
  have inv: "kinv k" using d(1) by simp
  have tw: "t \<in> set (wq_list (wqs k w))" using t by simp
  note f = waiting_facts [OF inv tw]
  let ?k = "mp_reschedule cpu MP_CPU_ALL_BUT_LOCAL 0 (ins_head t (unblocked w t ERR_TIMED_OUT k))"
  note u = thread_unblock_from_wait_queue_ok [OF inv f(1), of cpu ERR_TIMED_OUT]
  have "quiet cpu (unblocked w t ERR_TIMED_OUT k) ?k" by (rule quiet_trans [OF quiet_frame(3,2)])
  note q = quietD [OF this]
  have wq: "wqs ?k w = (wqs k w)\<lparr>wq_list := remove1 t (wq_list (wqs k w)), wq_count := wq_count (wqs k w) - 1\<rparr>"
    using q(1) by simp
  have ret: "block_ret ?k v = (if v = t then ERR_TIMED_OUT else block_ret k v)" for v
    using q(7) [of v] by simp
  have tm: "tmr (tims ?k) (StackTimer v) = tmr (tims k) (StackTimer v)" for v
    using q(9) [of v] by simp
  have dd: "t \<in> dom ins" "distinct (wq_list (wqs k w))" "set (wq_list (wqs k w)) \<subseteq> dom ins"
    using d(4,5) t by auto
  then have "waits_ok w (?k, ins)"
    using ok u(2) by (auto simp: wq ret tm lk_defs)
  moreover have "granted w (?k, ins) = granted w (k, ins)" "late w (?k, ins) = insert t (late w (k, ins))"
    using dd t by (auto simp: granted_def late_def wq ret lk_defs)
  moreover have "wait_queue_timeout_handler cpu t k = Some (?k, INT_RESCHEDULE)"
    using u(1) f(2) by (simp add: wait_queue_timeout_handler_def)
  ultimately show ?thesis using wq by simp
qed

lemma waits_exit:
  assumes ok: "waits_ok w (k, ins)" and cur: "current k cpu = Some t" and t: "ins t = Some timeout"
  shows "\<exists>k'. wait_queue_block_exit cpu timeout k = Some (block_ret k t, k') \<and>
           waits_ok w (k', ins(t := None)) \<and> waiters w (k', ins(t := None)) = waiters w (k, ins) \<and>
           granted w (k', ins(t := None)) = granted w (k, ins) - {t} \<and>
           late w (k', ins(t := None)) = late w (k, ins) - {t} \<and>
           current k' = current k \<and>
           (block_ret k t = NO_ERROR \<and> t \<in> granted w (k, ins) \<or>
            block_ret k t = ERR_TIMED_OUT \<and> t \<in> late w (k, ins))"
proof -
  note d = waits_okD [OF ok]
  have nw: "t \<notin> set (wq_list (wqs k w))" using d(12) [of cpu t] cur by simp
  obtain ts where e: "wait_queue_block_exit cpu timeout k = Some (block_ret k t, k\<lparr>tims := ts\<rparr>)"
    "kinv (k\<lparr>tims := ts\<rparr>)" "\<forall>u. u \<noteq> StackTimer t \<longrightarrow> tmr ts u = tmr (tims k) u"
    using wait_queue_block_exit_ok [of k cpu t timeout] d(1) cur ok t by auto
  have "waits_ok w (k\<lparr>tims := ts\<rparr>, ins(t := None))"
    using ok e(2,3) nw by (auto split: if_splits)
  moreover have "granted w (k\<lparr>tims := ts\<rparr>, ins(t := None)) = granted w (k, ins) - {t}"
    "late w (k\<lparr>tims := ts\<rparr>, ins(t := None)) = late w (k, ins) - {t}"
    by (auto simp: granted_def late_def)
  moreover have "block_ret k t = NO_ERROR \<and> t \<in> granted w (k, ins) \<or>
      block_ret k t = ERR_TIMED_OUT \<and> t \<in> late w (k, ins)"
    using ok t nw by (auto simp: granted_def late_def lk_defs)
  ultimately show ?thesis using e(1) by simp
qed

lemma waits_elsewhere:
  assumes "waits_ok w (k, ins)" "elsewhere w (k, ins) k'"
  shows "waits_ok w (k', ins) \<and> waiters w (k', ins) = waiters w (k, ins) \<and>
         granted w (k', ins) = granted w (k, ins) \<and> late w (k', ins) = late w (k, ins)"
proof -
  have w: "wqs k' w = wqs k w" "kinv k'" and r: "\<And>t. t \<in> dom ins \<Longrightarrow> block_ret k' t = block_ret k t"
    and m: "\<And>t. t \<in> dom ins \<Longrightarrow> tm_magic (tmr (tims k') (StackTimer t)) = tm_magic (tmr (tims k) (StackTimer t))"
    using assms(2) by auto
  have "granted w (k', ins) = granted w (k, ins)" "late w (k', ins) = late w (k, ins)"
    using r by (auto simp: granted_def late_def w domI)
  moreover have "waits_ok w (k', ins)" using assms(1) w r m by (auto simp: domI)
  ultimately show ?thesis using w by simp
qed


declare waits_ok.simps [simp del] elsewhere.simps [simp del]

section \<open>Counting with waiters\<close>

text \<open>
  A mutex and a semaphore keep one number: the free tokens less the threads inside a wait
  that have not been given one. \<open>tokens_of\<close> reads the abstract object off that number
  and the queue; the lemmas say which abstract step a change of the number and one of the
  five events of the queue make.
\<close>

definition tokens_of :: "wqaddr \<Rightarrow> int \<Rightarrow> int \<Rightarrow> int \<Rightarrow> waits \<Rightarrow> tokens" where
  "tokens_of w c i out s =
     \<lparr>tk_free = c + int (length (waiters w s)) + int (card (late w s)), tk_queue = waiters w s,
      tk_granted = granted w s, tk_late = late w s, tk_in = i, tk_out = out\<rparr>"

lemma tokens_take:
  "0 < c \<Longrightarrow> tok_step (tokens_of w c i out s) (tokens_of w (c - 1) i (out + 1) s)"
  using tok_take [of "tokens_of w c i out s"] by (simp add: tokens_of_def algebra_simps)

lemma tokens_give: "tok_step (tokens_of w c i out s) (tokens_of w (c + 1) (i + 1) out s)"
  using tok_give [of "tokens_of w c i out s"] by (simp add: tokens_of_def algebra_simps)

lemma tokens_block:
  assumes "waits_ok w s" "t \<notin> dom (snd s)" "waiters w s' = waiters w s @ [t]"
    "granted w s' = granted w s" "late w s' = late w s"
  shows "tok_step (tokens_of w c i out s) (tokens_of w (c - 1) i out s')"
proof -
  have "t \<notin> set (waiters w s)" "t \<notin> granted w s" "t \<notin> late w s"
    using assms(2) waits_okD(4) [OF assms(1)] by (auto simp: granted_def late_def)
  then show ?thesis using tok_wait [of t "tokens_of w c i out s"] assms by (simp add: tokens_of_def)
qed

lemma tokens_wake:
  assumes "waiters w s' = tl (waiters w s)"
    "granted w s' = granted w s \<union> set (take 1 (waiters w s))" "late w s' = late w s"
  shows "tok_step (tokens_of w c i out s) (tokens_of w (c + 1) (i + 1) out s')"
proof (cases "waiters w s")
  case Nil
  then show ?thesis using tok_give [of "tokens_of w c i out s"] assms by (simp add: tokens_of_def algebra_simps)
next
  case (Cons t q)
  then show ?thesis using tok_hand [of "tokens_of w c i out s" t q] assms by (simp add: tokens_of_def algebra_simps)
qed

lemma tokens_expire:
  assumes "waits_ok w s" "t \<in> set (waiters w s)" "waiters w s' = remove1 t (waiters w s)"
    "granted w s' = granted w s" "late w s' = insert t (late w s)"
  shows "tok_step (tokens_of w c i out s) (tokens_of w c i out s')"
proof -
  have "t \<notin> late w s" "finite (late w s)" using assms waits_okD(7,10) [OF assms(1)] by auto
  moreover have "length (waiters w s) = Suc (length (remove1 t (waiters w s)))"
    using assms(2) length_pos_if_in_set [OF assms(2)] by (simp add: length_remove1)
  then have "int (length (waiters w s)) = int (length (remove1 t (waiters w s))) + 1" by simp
  ultimately show ?thesis
    using tok_expire [of t "tokens_of w c i out s"] assms
    by (simp only: tokens_of_def) (simp add: algebra_simps)
qed

lemma tokens_get:
  assumes "t \<in> granted w s" "waiters w s' = waiters w s" "granted w s' = granted w s - {t}"
    "late w s' = late w s - {t}"
  shows "tok_step (tokens_of w c i out s) (tokens_of w c i (out + 1) s')"
proof -
  have "late w s - {t} = late w s" using assms(1) by (auto simp: granted_def late_def)
  then show ?thesis using tok_get [of t "tokens_of w c i out s"] assms by (simp add: tokens_of_def algebra_simps)
qed

lemma tokens_fail:
  assumes "waits_ok w s" "t \<in> late w s" "waiters w s' = waiters w s" "granted w s' = granted w s - {t}"
    "late w s' = late w s - {t}"
  shows "tok_step (tokens_of w c i out s) (tokens_of w (c + 1) i out s')"
proof -
  have "granted w s - {t} = granted w s" using assms(2) by (auto simp: granted_def late_def)
  moreover have "0 < card (late w s)" using assms(2) waits_okD(7) [OF assms(1)] by (auto simp: card_gt_0_iff)
  ultimately show ?thesis
    using tok_fail [of t "tokens_of w c i out s"] assms by (simp add: tokens_of_def of_nat_diff algebra_simps)
qed

lemma tokens_same:
  assumes "waiters w s' = waiters w s" "granted w s' = granted w s" "late w s' = late w s"
  shows "tok_step (tokens_of w c i out s) (tokens_of w c i out s')"
  using tok_idle [of "tokens_of w c i out s"] assms by (simp add: tokens_of_def algebra_simps)

lemma tok_inv_fresh: "0 \<le> c \<Longrightarrow> wq_list (wqs k w) = [] \<Longrightarrow> tok_inv (tokens_of w c c 0 (k, Map.empty))"
  by (simp add: tok_inv_def tokens_of_def granted_def late_def)

text \<open>A wait with timeout 0 gives up at once.\<close>

lemma block_zero:
  assumes "waits_ok w (k, ins)" "current k cpu = Some t"
  shows "wait_queue_block cpu w 0 k = Some (Returns ERR_TIMED_OUT, k)"
  using waits_okD(1,2) [OF assms(1)] assms(2) running_facts(2) [of "{}" k cpu t]
  by (simp add: wait_queue_block_def)

end
