(* ===== verification/Kernel_Mutex.thy ===== *)
theory Kernel_Mutex
  imports Sync_Tokens
begin

text \<open>
  Mutexes as token objects with one token. The system consists of the mutex, the kernel,
  the threads inside \<open>mutex_acquire_timeout\<close> with their timeouts, and the numbers of
  releases and of successful acquires so far. Its calls are the operations of
  \<^verbatim>\<open>kernel/mutex.c\<close>, the timeout of a waiter, and any change of the kernel that
  leaves the mutex's queue and its waiters alone.
\<close>

datatype sync_call =
    Take nat lk_time_t | Take_exit nat | Put nat bool | Try | Expire nat tid | Elsewhere kstate

type_synonym mutex_sys = "mutex \<times> waits \<times> int \<times> int"

fun mutex_exec :: "sync_call \<Rightarrow> mutex_sys \<Rightarrow> mutex_sys option" where
  "mutex_exec (Take cpu d) (m, (k, ins), p, n) = do {
     t \<leftarrow> current k cpu;
     (r, m, k) \<leftarrow> mutex_acquire_timeout cpu d (m, k);
     Some (case r of
       Blocks \<Rightarrow> (m, (k, ins(t \<mapsto> d)), p, n)
     | Returns e \<Rightarrow> (m, (k, ins), p, if e \<ge> NO_ERROR then n + 1 else n))
   }"
| "mutex_exec (Take_exit cpu) (m, (k, ins), p, n) = do {
     t \<leftarrow> current k cpu;
     d \<leftarrow> ins t;
     (e, m, k) \<leftarrow> mutex_acquire_exit cpu d (m, k);
     Some (m, (k, ins(t := None)), p, if e \<ge> NO_ERROR then n + 1 else n)
   }"
| "mutex_exec (Put cpu r) (m, (k, ins), p, n) = do {
     (e, m, k) \<leftarrow> mutex_release cpu (m, k);
     Some (m, (k, ins), p + 1, n)
   }"
| "mutex_exec Try s = Some s"
| "mutex_exec (Expire cpu t) (m, (k, ins), p, n) = do {
     (k, r) \<leftarrow> wait_queue_timeout_handler cpu t k;
     Some (m, (k, ins), p, n)
   }"
| "mutex_exec (Elsewhere k') (m, (k, ins), p, n) = Some (m, (k', ins), p, n)"

fun mutex_allowed :: "sync_call \<Rightarrow> mutex_sys \<Rightarrow> bool" where
  "mutex_allowed (Take cpu d) (m, s, p, n) \<longleftrightarrow> (\<exists>t. may_wait cpu s t \<and> m_holder m \<noteq> Some t)"
| "mutex_allowed (Take_exit cpu) (m, s, p, n) \<longleftrightarrow>
     (\<exists>t. current (fst s) cpu = Some t \<and> t \<in> dom (snd s))"
| "mutex_allowed (Put cpu r) (m, s, p, n) \<longleftrightarrow>
     (\<exists>t. current (fst s) cpu = Some t \<and> m_holder m = Some t \<and> \<not> is_idle (fst s) t)"
| "mutex_allowed Try s \<longleftrightarrow> True"
| "mutex_allowed (Expire cpu t) (m, s, p, n) \<longleftrightarrow>
     t \<in> set (waiters (m_wait m) s) \<and> snd s t \<noteq> Some INFINITE_TIME"
| "mutex_allowed (Elsewhere k') (m, s, p, n) \<longleftrightarrow> elsewhere (m_wait m) s k'"

text \<open>The mutex as a token object: one token, given back by a release.\<close>

fun mutex_tokens :: "mutex_sys \<Rightarrow> tokens" where
  "mutex_tokens (m, s, p, n) = tokens_of (m_wait m) (1 - m_count m) (1 + p) n s"

fun mutex_good :: "mutex_sys \<Rightarrow> bool" where
  "mutex_good (m, s, p, n) \<longleftrightarrow> m_magic m = MUTEX_MAGIC \<and> waits_ok (m_wait m) s \<and>
     n - p = (if m_holder m = None then 0 else 1) \<and> tok_inv (mutex_tokens (m, s, p, n))"

fun mutex_start :: "mutex_sys \<Rightarrow> bool" where
  "mutex_start (m, s, p, n) \<longleftrightarrow>
     (\<exists>w k. kinv k \<and> wq_list (wqs k w) = [] \<and> (m, fst s) = mutex_init w k \<and> snd s = Map.empty \<and> p = 0 \<and> n = 0)"

text \<open>With a free token nobody holds the mutex; with a holder nobody has been granted it.\<close>

lemma one_token:
  "1 + p = f + n + c \<Longrightarrow> n - p = (if h = None then 0 else 1) \<Longrightarrow> f + c = (if h = None then 1 else 0)"
  for p :: int
  by (cases h) auto

lemma mutex_goodD:
  assumes "mutex_good (m, s, p, n)"
  shows "0 < tk_free (mutex_tokens (m, s, p, n)) \<Longrightarrow> m_holder m = None \<and> granted (m_wait m) s = {}"
    "m_holder m \<noteq> None \<Longrightarrow> granted (m_wait m) s = {} \<and> tk_free (mutex_tokens (m, s, p, n)) = 0"
    "t \<in> granted (m_wait m) s \<Longrightarrow> m_holder m = None \<and> granted (m_wait m) s = {t}"
proof -
  let ?g = "granted (m_wait m) s" and ?f = "tk_free (mutex_tokens (m, s, p, n))"
  have fin: "finite ?g" using assms waits_okD(6) [of "m_wait m" s] by simp
  have eq: "1 + p = ?f + n + int (card ?g)" "0 \<le> ?f" "n - p = (if m_holder m = None then 0 else 1)"
    using assms by (simp_all add: tok_inv_def tokens_of_def)
  have g0: "?g = {} \<longleftrightarrow> card ?g = 0" using fin by simp
  have sum: "?f + int (card ?g) = (if m_holder m = None then 1 else 0)"
    by (rule one_token [OF eq(1,3)])
  show "0 < ?f \<Longrightarrow> m_holder m = None \<and> ?g = {}" "m_holder m \<noteq> None \<Longrightarrow> ?g = {} \<and> ?f = 0"
    unfolding g0 using sum eq(2) by (cases "m_holder m"; simp)+
  assume t: "t \<in> ?g"
  then have "card ?g \<noteq> 0" using g0 by blast
  then have c: "card ?g = 1" "m_holder m = None" using sum eq(2) by (cases "m_holder m"; simp)+
  then show "m_holder m = None \<and> ?g = {t}" using t by (auto simp: card_1_singleton_iff)
qed

section \<open>Every call runs and makes an abstract step\<close>

definition mutex_runs :: "sync_call \<Rightarrow> mutex_sys \<Rightarrow> bool" where
  "mutex_runs c s \<longleftrightarrow>
     (\<exists>s'. mutex_exec c s = Some s' \<and> mutex_good s' \<and> tok_step (mutex_tokens s) (mutex_tokens s'))"

lemma mutex_runsI:
  assumes "mutex_exec c s = Some (m', v, p', n')" "mutex_good s"
    "tok_step (mutex_tokens s) (mutex_tokens (m', v, p', n'))" "m_magic m' = MUTEX_MAGIC"
    "waits_ok (m_wait m') v" "n' - p' = (if m_holder m' = None then 0 else 1)"
  shows "mutex_runs c s"
proof -
  have "tok_inv (mutex_tokens s)" using assms(2) by (cases s) auto
  then have "tok_inv (mutex_tokens (m', v, p', n'))" using tok_inv_step assms(3) by blast
  then have "mutex_good (m', v, p', n')" using assms by simp
  then show ?thesis using assms by (auto simp: mutex_runs_def)
qed

lemma mutex_take_runs:
  assumes good: "mutex_good (m, (k, ins), p, n)" and may: "may_wait cpu (k, ins) t" "m_holder m \<noteq> Some t"
  shows "mutex_runs (Take cpu d) (m, (k, ins), p, n)"
proof -
  let ?w = "m_wait m"
  have ok: "waits_ok ?w (k, ins)" and cur: "current k cpu = Some t" and mg: "m_magic m = MUTEX_MAGIC"
    using good may by (simp_all add: may_wait_def)
  consider (free) "m_count m + 1 \<le> 1" | (zero) "m_count m + 1 > 1" "d = 0" | (wait) "m_count m + 1 > 1" "d \<noteq> 0"
    by linarith
  then show ?thesis
  proof cases
    case free
    have "0 < tk_free (mutex_tokens (m, (k, ins), p, n))" using free by (simp add: tokens_of_def)
    from mutex_goodD(1) [OF good this] have h: "m_holder m = None" by simp
    show ?thesis
      by (rule mutex_runsI [OF _ good, where m' = "m\<lparr>m_count := m_count m + 1, m_holder := Some t\<rparr>" and
            v = "(k, ins)" and p' = p and n' = "n + 1"])
        (use good h cur may free tokens_take [of "1 - m_count m" ?w "1 + p" n "(k, ins)"] in
          \<open>simp_all add: mutex_acquire_timeout_def\<close>)
  next
    case zero
    then have "mutex_exec (Take cpu d) (m, (k, ins), p, n) = Some (m, (k, ins), p, n)"
      using mg cur may block_zero [OF ok cur]
      by (simp add: mutex_acquire_timeout_def mutex_acquire_finish_def lk_defs)
    then show ?thesis by (rule mutex_runsI [OF _ good tok_idle]) (use good in simp_all)
  next
    case wait
    obtain k' where k': "wait_queue_block cpu ?w d k = Some (Blocks, k')"
      "waits_ok ?w (k', ins(t \<mapsto> d))" "waiters ?w (k', ins(t \<mapsto> d)) = waiters ?w (k, ins) @ [t]"
      "granted ?w (k', ins(t \<mapsto> d)) = granted ?w (k, ins)" "late ?w (k', ins(t \<mapsto> d)) = late ?w (k, ins)"
      using waits_block [OF ok may(1) wait(2)] by blast
    have "tok_step (tokens_of ?w (1 - m_count m) (1 + p) n (k, ins))
        (tokens_of ?w (1 - m_count m - 1) (1 + p) n (k', ins(t \<mapsto> d)))"
      by (rule tokens_block [OF ok _ k'(3-5)]) (use may in \<open>simp add: may_wait_def\<close>)
    moreover have "1 - m_count m - 1 = 1 - (m_count m + 1)" by simp
    ultimately have st: "tok_step (mutex_tokens (m, (k, ins), p, n))
        (mutex_tokens (m\<lparr>m_count := m_count m + 1\<rparr>, (k', ins(t \<mapsto> d)), p, n))" by simp
    have "mutex_exec (Take cpu d) (m, (k, ins), p, n) =
        Some (m\<lparr>m_count := m_count m + 1\<rparr>, (k', ins(t \<mapsto> d)), p, n)"
      using wait(1) mg cur may k'(1) by (simp add: mutex_acquire_timeout_def)
    then show ?thesis by (rule mutex_runsI [OF _ good st]) (use good k'(2) in simp_all)
  qed
qed

lemma mutex_take_exit_runs:
  assumes good: "mutex_good (m, (k, ins), p, n)" and cur: "current k cpu = Some t" and t: "ins t = Some d"
  shows "mutex_runs (Take_exit cpu) (m, (k, ins), p, n)"
proof -
  let ?w = "m_wait m" and ?f = "mutex_acquire_finish t (block_ret k t) m"
  have ok: "waits_ok ?w (k, ins)" using good by simp
  obtain k' where k': "wait_queue_block_exit cpu d k = Some (block_ret k t, k')"
    "waits_ok ?w (k', ins(t := None))" "waiters ?w (k', ins(t := None)) = waiters ?w (k, ins)"
    "granted ?w (k', ins(t := None)) = granted ?w (k, ins) - {t}"
    "late ?w (k', ins(t := None)) = late ?w (k, ins) - {t}"
    "block_ret k t = NO_ERROR \<and> t \<in> granted ?w (k, ins) \<or>
     block_ret k t = ERR_TIMED_OUT \<and> t \<in> late ?w (k, ins)"
    using waits_exit [OF ok cur t] by blast
  have ex: "mutex_exec (Take_exit cpu) (m, (k, ins), p, n) =
      Some (?f, (k', ins(t := None)), p, if block_ret k t \<ge> NO_ERROR then n + 1 else n)"
    using cur t k'(1) by (simp add: mutex_acquire_exit_def)
  from k'(6) show ?thesis
  proof (elim disjE conjE)
    assume r: "block_ret k t = NO_ERROR" and g: "t \<in> granted ?w (k, ins)"
    have h: "m_holder m = None" using mutex_goodD(3) [OF good] g by simp
    have "tok_step (mutex_tokens (m, (k, ins), p, n)) (mutex_tokens (?f, (k', ins(t := None)), p, n + 1))"
      using tokens_get [OF g k'(3-5)] r by (simp add: mutex_acquire_finish_def)
    note st = this
    have "mutex_exec (Take_exit cpu) (m, (k, ins), p, n) = Some (?f, (k', ins(t := None)), p, n + 1)"
      using ex r by simp
    from mutex_runsI [OF this good st] show ?thesis
      using good h r k'(2) by (simp add: mutex_acquire_finish_def)
  next
    assume r: "block_ret k t = ERR_TIMED_OUT" and l: "t \<in> late ?w (k, ins)"
    have e: "?f = m\<lparr>m_count := m_count m - 1\<rparr>" "\<not> ERR_TIMED_OUT \<ge> NO_ERROR"
      using r by (simp_all add: mutex_acquire_finish_def lk_defs)
    have "1 - m_count m + 1 = 1 - (m_count m - 1)" by simp
    then have "tok_step (mutex_tokens (m, (k, ins), p, n)) (mutex_tokens (?f, (k', ins(t := None)), p, n))"
      using tokens_fail [OF ok l k'(3-5), of "1 - m_count m" "1 + p" n] e by simp
    note st = this
    have "mutex_exec (Take_exit cpu) (m, (k, ins), p, n) = Some (?f, (k', ins(t := None)), p, n)"
      using ex r e(2) by simp
    from mutex_runsI [OF this good st] show ?thesis using good e k'(2) by simp
  qed
qed

lemma mutex_put_runs:
  assumes good: "mutex_good (m, (k, ins), p, n)"
    and cur: "current k cpu = Some t" "m_holder m = Some t" "\<not> is_idle k t"
  shows "mutex_runs (Put cpu r) (m, (k, ins), p, n)"
proof -
  let ?w = "m_wait m" and ?m = "m\<lparr>m_holder := None, m_count := m_count m - 1\<rparr>"
  have ok: "waits_ok ?w (k, ins)" and mg: "m_magic m = MUTEX_MAGIC" using good by simp_all
  have c: "1 - m_count m + 1 = 1 - (m_count m - 1)" "1 + p + 1 = 1 + (p + 1)" by simp_all
  show ?thesis
  proof (cases "m_count m - 1 \<ge> 1")
    case True
    obtain k' i where k': "wait_queue_wake_one cpu ?w True NO_ERROR k = Some (i, k')" "waits_ok ?w (k', ins)"
      "waiters ?w (k', ins) = tl (waiters ?w (k, ins))"
      "granted ?w (k', ins) = granted ?w (k, ins) \<union> set (take 1 (waiters ?w (k, ins)))"
      "late ?w (k', ins) = late ?w (k, ins)"
      using waits_wake [OF ok cur(1), of True] cur(3) by blast
    have st: "tok_step (mutex_tokens (m, (k, ins), p, n)) (mutex_tokens (?m, (k', ins), p + 1, n))"
      using tokens_wake [OF k'(3-5), of "1 - m_count m" "1 + p" n] by (simp add: c)
    have "mutex_exec (Put cpu r) (m, (k, ins), p, n) = Some (?m, (k', ins), p + 1, n)"
      using True mg cur k'(1) by (simp add: mutex_release_def)
    then show ?thesis by (rule mutex_runsI [OF _ good st]) (use good cur k'(2) in simp_all)
  next
    case False
    have st: "tok_step (mutex_tokens (m, (k, ins), p, n)) (mutex_tokens (?m, (k, ins), p + 1, n))"
      using tokens_give [of ?w "1 - m_count m" "1 + p" n "(k, ins)"] by (simp add: c)
    have "mutex_exec (Put cpu r) (m, (k, ins), p, n) = Some (?m, (k, ins), p + 1, n)"
      using False mg cur by (simp add: mutex_release_def)
    then show ?thesis by (rule mutex_runsI [OF _ good st]) (use good cur in simp_all)
  qed
qed

lemma mutex_call_runs:
  assumes good: "mutex_good s" and al: "mutex_allowed c s"
  shows "mutex_runs c s"
proof -
  obtain m k ins p n where s: "s = (m, (k, ins), p, n)" by (cases s) auto
  have g: "mutex_good (m, (k, ins), p, n)" and ok: "waits_ok (m_wait m) (k, ins)"
    using good by (simp_all add: s)
  show ?thesis
  proof (cases c)
    case (Take cpu d)
    then show ?thesis using al mutex_take_runs [OF g] by (auto simp: s)
  next
    case (Take_exit cpu)
    then show ?thesis using al mutex_take_exit_runs [OF g] by (auto simp: s)
  next
    case (Put cpu r)
    then show ?thesis using al mutex_put_runs [OF g] by (auto simp: s)
  next
    case Try
    then show ?thesis using good tok_idle by (simp add: mutex_runs_def)
  next
    case (Expire cpu t)
    then have t: "t \<in> set (waiters (m_wait m) (k, ins))" using al by (simp add: s)
    obtain k' where k': "wait_queue_timeout_handler cpu t k = Some (k', INT_RESCHEDULE)"
      "waits_ok (m_wait m) (k', ins)" "waiters (m_wait m) (k', ins) = remove1 t (waiters (m_wait m) (k, ins))"
      "granted (m_wait m) (k', ins) = granted (m_wait m) (k, ins)"
      "late (m_wait m) (k', ins) = insert t (late (m_wait m) (k, ins))"
      using waits_expire [OF ok t, of cpu] by blast
    have "tok_step (mutex_tokens s) (mutex_tokens (m, (k', ins), p, n))"
      using tokens_expire [OF ok t k'(3-5)] by (simp add: s)
    then show ?thesis using k' g
      by (intro mutex_runsI [OF _ good, where m' = m and v = "(k', ins)" and p' = p and n' = n])
        (simp_all add: s Expire)
  next
    case (Elsewhere k')
    then have "elsewhere (m_wait m) (k, ins) k'" using al by (simp add: s)
    note e = waits_elsewhere [OF ok this]
    have "tok_step (mutex_tokens s) (mutex_tokens (m, (k', ins), p, n))"
      using tokens_same [where w = "m_wait m" and s' = "(k', ins)" and s = "(k, ins)"] e by (simp add: s)
    then show ?thesis using e g
      by (intro mutex_runsI [OF _ good, where m' = m and v = "(k', ins)" and p' = p and n' = n])
        (simp_all add: s Elsewhere)
  qed
qed

lemma mutex_start_good: "mutex_start s \<Longrightarrow> mutex_good s"
proof -
  assume "mutex_start s"
  then obtain w k where s: "s = (fst (mutex_init w k), (snd (mutex_init w k), Map.empty), 0, 0)"
    and k: "kinv k" "wq_list (wqs k w) = []"
    by (cases s) (auto simp: prod_eq_iff)
  have "kinv (wait_queue_init w k)" by (rule wait_queue_init_inv [OF k])
  moreover have "wqs (wait_queue_init w k) w = WAIT_QUEUE_INITIAL_VALUE" by (simp add: wait_queue_init_def)
  ultimately show ?thesis
    using tok_inv_fresh [of 1 "wait_queue_init w k" w]
    by (simp add: s mutex_init_def waits_ok.simps WAIT_QUEUE_INITIAL_VALUE_def)
qed

interpretation mtx: token_object mutex_start mutex_allowed mutex_exec mutex_good mutex_tokens
proof
  show "mutex_start s \<Longrightarrow> mutex_good s" for s by (rule mutex_start_good)
  show "\<exists>s'. mutex_exec c s = Some s' \<and> mutex_good s'" if "mutex_good s" "mutex_allowed c s" for s c
    using mutex_call_runs [OF that] unfolding mutex_runs_def by blast
  show "tok_inv (mutex_tokens s)" if "mutex_start s" for s
    using mutex_start_good [OF that] by (cases s) simp
  show "tok_step (mutex_tokens s) (mutex_tokens s')"
    if "mutex_good s" "mutex_allowed c s" "mutex_exec c s = Some s'" for s c s'
    using mutex_call_runs [OF that(1,2)] that(3) by (auto simp: mutex_runs_def)
qed


text \<open>A call that makes a thread the holder counts as an acquire, so there was no holder before.\<close>

lemma mutex_holder_set:
  assumes "mutex_exec c (m, s, p, n) = Some (m', s', p', n')" "m_holder m' = Some t'"
  shows "m_holder m = Some t' \<or> p' = p \<and> n' = n + 1"
  using assms
  by (cases s; cases c) (auto simp: mutex_acquire_timeout_def mutex_acquire_exit_def mutex_acquire_finish_def
      mutex_release_def ASSERT_def Let_def lk_defs wait_queue_block_def
      split: Option.bind_splits if_splits outcome.splits)

lemma mutex_holder_kept:
  assumes good: "mutex_good (m, s, p, n)" and al: "mutex_allowed c (m, s, p, n)"
    and ex: "mutex_exec c (m, s, p, n) = Some (m', s', p', n')"
    and h: "m_holder m = Some t" "m_holder m' = Some t'"
  shows "t' = t"
proof -
  have "mutex_good (m', s', p', n')" using mtx.call_good [OF good al] ex by auto
  then have "n' - p' = 1" "n - p = 1" using good h by simp_all
  then show ?thesis using mutex_holder_set [OF ex h(2)] h(1) by auto
qed

section \<open>A mutex that nobody can take\<close>

text \<open>
  A waiter whose timeout has fired keeps its share of the count until it runs. A release in
  that window finds nobody to wake although the count says there is a waiter; whoever asks
  for the mutex next goes to sleep, with no holder left to wake it.
\<close>

fun mutex_stalled :: "mutex_sys \<Rightarrow> bool" where
  "mutex_stalled (m, s, p, n) \<longleftrightarrow> m_holder m = None \<and> tk_free (mutex_tokens (m, s, p, n)) = 1 \<and>
     (\<exists>t \<in> set (waiters (m_wait m) s). snd s t = Some INFINITE_TIME)"

lemma stalled_count:
  assumes "mutex_good (m, s, p, n)" "mutex_stalled (m, s, p, n)"
  shows "1 \<le> m_count m" "granted (m_wait m) s = {}"
proof -
  have "waiters (m_wait m) s \<noteq> []" using assms(2) by auto
  then have "1 \<le> int (length (waiters (m_wait m) s))" by (cases "waiters (m_wait m) s") simp_all
  then show "1 \<le> m_count m" using assms(2) by (simp add: tokens_of_def)
  show "granted (m_wait m) s = {}" using mutex_goodD(1) [OF assms(1)] assms(2) by simp
qed

lemma mutex_stalledI:
  assumes "m_holder m = None" "t \<in> set (waiters (m_wait m) s)" "snd s t = Some INFINITE_TIME"
    "1 - m_count m + int (length (waiters (m_wait m) s)) + int (card (late (m_wait m) s)) = 1"
  shows "mutex_stalled (m, s, p, n)"
  using assms by (simp only: mutex_stalled.simps mutex_tokens.simps tokens_of_def tokens.select_convs) blast

text \<open>Nothing ends it: no call gives the mutex to anybody.\<close>

lemma mutex_stalled_step:
  assumes good: "mutex_good s" and st: "mutex_stalled s" and al: "mutex_allowed c s"
    and ex: "mutex_exec c s = Some s'"
  shows "mutex_stalled s'"
proof -
  obtain m k ins p n where s: "s = (m, (k, ins), p, n)" by (cases s) auto
  let ?w = "m_wait m"
  have g: "mutex_good (m, (k, ins), p, n)" and st': "mutex_stalled (m, (k, ins), p, n)"
    using good st by (simp_all only: s)
  then have ok: "waits_ok ?w (k, ins)" and mg: "m_magic m = MUTEX_MAGIC" and h: "m_holder m = None" by simp_all
  note c = stalled_count [OF g st']
  obtain t where t: "t \<in> set (waiters ?w (k, ins))" "ins t = Some INFINITE_TIME" using st by (auto simp: s)
  have free: "1 - m_count m + int (length (waiters ?w (k, ins))) + int (card (late ?w (k, ins))) = 1"
    using st by (simp add: s tokens_of_def)
  show ?thesis
  proof (cases c)
    case (Take cpu d)
    then obtain u where u: "may_wait cpu (k, ins) u" using al by (auto simp: s)
    then have cur: "current k cpu = Some u" "u \<noteq> t" using t by (auto simp: may_wait_def)
    show ?thesis
    proof (cases "d = 0")
      case True
      then show ?thesis
        using ex st cur h c mg block_zero [OF ok cur(1)]
        by (simp add: s Take mutex_acquire_timeout_def mutex_acquire_finish_def lk_defs)
    next
      case False
      obtain k' where k': "wait_queue_block cpu ?w d k = Some (Blocks, k')"
        "waiters ?w (k', ins(u \<mapsto> d)) = waiters ?w (k, ins) @ [u]" "late ?w (k', ins(u \<mapsto> d)) = late ?w (k, ins)"
        using waits_block [OF ok u False] by blast
      then have "s' = (m\<lparr>m_count := m_count m + 1\<rparr>, (k', ins(u \<mapsto> d)), p, n)"
        using ex cur h c mg by (simp add: s Take mutex_acquire_timeout_def)
      moreover have "mutex_stalled (m\<lparr>m_count := m_count m + 1\<rparr>, (k', ins(u \<mapsto> d)), p, n)"
        by (rule mutex_stalledI [of _ t]) (use h free t cur(2) k'(2,3) in simp_all)
      ultimately show ?thesis by simp
    qed
  next
    case (Take_exit cpu)
    then obtain u d where u: "current k cpu = Some u" "ins u = Some d" using al by (auto simp: s)
    obtain k' where k': "wait_queue_block_exit cpu d k = Some (block_ret k u, k')"
      "waiters ?w (k', ins(u := None)) = waiters ?w (k, ins)"
      "late ?w (k', ins(u := None)) = late ?w (k, ins) - {u}"
      "block_ret k u = ERR_TIMED_OUT" "u \<in> late ?w (k, ins)"
      using waits_exit [OF ok u] c(2) by blast
    have ne: "u \<noteq> t" using k'(5) t(1) by (auto simp: late_def)
    have "s' = (m\<lparr>m_count := m_count m - 1\<rparr>, (k', ins(u := None)), p, n)"
      using ex u k' by (simp add: s Take_exit mutex_acquire_exit_def mutex_acquire_finish_def lk_defs)
    moreover have "0 < card (late ?w (k, ins))"
      using k'(5) waits_okD(7) [OF ok] by (auto simp: card_gt_0_iff)
    then have "mutex_stalled (m\<lparr>m_count := m_count m - 1\<rparr>, (k', ins(u := None)), p, n)"
      by (intro mutex_stalledI [of _ t]) (use h free t ne k'(2,3,5) in \<open>simp_all add: of_nat_diff\<close>)
    ultimately show ?thesis by simp
  next
    case (Put cpu r)
    then show ?thesis using al h by (simp add: s)
  next
    case Try
    then show ?thesis using ex st by simp
  next
    case (Expire cpu u)
    then have u: "u \<in> set (waiters ?w (k, ins))" "u \<noteq> t" using al t by (auto simp: s)
    obtain k' where k': "wait_queue_timeout_handler cpu u k = Some (k', INT_RESCHEDULE)"
      "waiters ?w (k', ins) = remove1 u (waiters ?w (k, ins))" "late ?w (k', ins) = insert u (late ?w (k, ins))"
      "waits_ok ?w (k', ins)" "granted ?w (k', ins) = granted ?w (k, ins)"
      using waits_expire [OF ok u(1), of cpu] by blast
    have "u \<notin> late ?w (k, ins)" "finite (late ?w (k, ins))" using u(1) waits_okD(7,10) [OF ok] by auto
    moreover have "length (waiters ?w (k, ins)) = Suc (length (waiters ?w (k', ins)))"
      using u(1) length_pos_if_in_set [OF u(1)] k'(2) by (simp add: length_remove1)
    ultimately have "1 - m_count m + int (length (waiters ?w (k', ins))) + int (card (late ?w (k', ins))) = 1"
      using free k'(3) by simp
    moreover have "s' = (m, (k', ins), p, n)" using ex k'(1) by (simp add: s Expire)
    moreover have "t \<in> set (waiters ?w (k', ins))" using t u k'(2) by simp
    ultimately show ?thesis using mutex_stalledI [of m t "(k', ins)"] h t by simp
  next
    case (Elsewhere k')
    then have "elsewhere ?w (k, ins) k'" using al by (simp add: s)
    note e = waits_elsewhere [OF ok this]
    have "s' = (m, (k', ins), p, n)" using ex by (simp add: s Elsewhere)
    then show ?thesis using mutex_stalledI [of m t "(k', ins)"] h t e free by simp
  qed
qed

lemma mutex_stalled_forever:
  assumes "mutex_good s" "mutex_stalled s" "calls_allowed mutex_allowed mutex_exec cs s"
  shows "\<exists>s'. run_calls mutex_exec cs s = Some s' \<and> mutex_good s' \<and> mutex_stalled s'"
  using assms
proof (induction cs arbitrary: s)
  case Nil
  then show ?case by simp
next
  case (Cons c cs)
  then have al: "mutex_allowed c s" by simp
  then obtain s1 where s1: "mutex_exec c s = Some s1" "mutex_good s1"
    using mtx.call_good [OF Cons.prems(1)] by blast
  have "mutex_stalled s1" by (rule mutex_stalled_step [OF Cons.prems(1,2) al s1(1)])
  from Cons.IH [OF s1(2) this] show ?case using Cons.prems(3) s1(1) by simp
qed

end
