(* ===== verification/Kernel_Sem.thy ===== *)
theory Kernel_Sem
  imports Kernel_Mutex
begin

text \<open>
  Semaphores as token objects with as many tokens as the initial value, and events. The
  semaphore's system has the same calls as the mutex's; \<open>Try\<close> is
  \<open>sem_trywait\<close>, and \<open>Take\<close> is \<open>sem_timedwait\<close>, which with
  \<open>INFINITE_TIME\<close> is \<open>sem_wait\<close>.
\<close>

section \<open>Semaphores\<close>

lemma block_infinite: "wait_queue_block cpu w INFINITE_TIME k = Some (r, k') \<Longrightarrow> r = Blocks"
  by (auto simp: wait_queue_block_def ASSERT_def lk_defs split: Option.bind_splits if_splits)

lemma sem_wait_infinite: "sem_wait cpu (s, k) = sem_timedwait cpu INFINITE_TIME (s, k)"
proof (cases "wait_queue_block cpu (s_wait s) INFINITE_TIME k")
  case None
  then show ?thesis by (simp add: sem_wait_def sem_timedwait_def Let_def)
next
  case (Some rk)
  then show ?thesis
    using block_infinite [of cpu "s_wait s" k "fst rk" "snd rk"]
    by (cases rk) (simp add: sem_wait_def sem_timedwait_def Let_def)
qed

type_synonym sem_sys = "semaphore \<times> waits \<times> int \<times> int"

fun sem_exec :: "sync_call \<Rightarrow> sem_sys \<Rightarrow> sem_sys option" where
  "sem_exec (Take cpu d) (m, (k, ins), p, n) = do {
     t \<leftarrow> current k cpu;
     (r, m, k) \<leftarrow> sem_timedwait cpu d (m, k);
     Some (case r of
       Blocks \<Rightarrow> (m, (k, ins(t \<mapsto> d)), p, n)
     | Returns e \<Rightarrow> (m, (k, ins), p, if e = NO_ERROR then n + 1 else n))
   }"
| "sem_exec (Take_exit cpu) (m, (k, ins), p, n) = do {
     t \<leftarrow> current k cpu;
     d \<leftarrow> ins t;
     (e, m, k) \<leftarrow> sem_timedwait_exit cpu d (m, k);
     Some (m, (k, ins(t := None)), p, if e = NO_ERROR then n + 1 else n)
   }"
| "sem_exec (Put cpu r) (m, (k, ins), p, n) = do {
     (e, m, k) \<leftarrow> sem_post cpu r (m, k);
     Some (m, (k, ins), p + 1, n)
   }"
| "sem_exec Try (m, s, p, n) =
     (case sem_trywait m of (e, m) \<Rightarrow> Some (m, s, p, if e = NO_ERROR then n + 1 else n))"
| "sem_exec (Expire cpu t) (m, (k, ins), p, n) = do {
     (k, r) \<leftarrow> wait_queue_timeout_handler cpu t k;
     Some (m, (k, ins), p, n)
   }"
| "sem_exec (Elsewhere k') (m, (k, ins), p, n) = Some (m, (k', ins), p, n)"

text \<open>\<open>p\<close> counts the posts from the initial value on: it starts as that value.\<close>

fun sem_allowed :: "sync_call \<Rightarrow> sem_sys \<Rightarrow> bool" where
  "sem_allowed (Take cpu d) (m, s, p, n) \<longleftrightarrow> (\<exists>t. may_wait cpu s t)"
| "sem_allowed (Take_exit cpu) (m, s, p, n) \<longleftrightarrow> (\<exists>t. current (fst s) cpu = Some t \<and> t \<in> dom (snd s))"
| "sem_allowed (Put cpu r) (m, s, p, n) \<longleftrightarrow>
     (\<exists>t. current (fst s) cpu = Some t \<and> (r \<longrightarrow> \<not> is_idle (fst s) t))"
| "sem_allowed Try s \<longleftrightarrow> True"
| "sem_allowed (Expire cpu t) (m, s, p, n) \<longleftrightarrow>
     t \<in> set (waiters (s_wait m) s) \<and> snd s t \<noteq> Some INFINITE_TIME"
| "sem_allowed (Elsewhere k') (m, s, p, n) \<longleftrightarrow> elsewhere (s_wait m) s k'"

fun sem_tokens :: "sem_sys \<Rightarrow> tokens" where
  "sem_tokens (m, s, p, n) = tokens_of (s_wait m) (s_count m) p n s"

fun sem_good :: "sem_sys \<Rightarrow> bool" where
  "sem_good (m, s, p, n) \<longleftrightarrow> waits_ok (s_wait m) s \<and> tok_inv (sem_tokens (m, s, p, n))"

fun sem_start :: "sem_sys \<Rightarrow> bool" where
  "sem_start (m, s, p, n) \<longleftrightarrow>
     (\<exists>w v k. kinv k \<and> wq_list (wqs k w) = [] \<and> 0 \<le> sint v \<and> (m, fst s) = sem_init w v k \<and>
        snd s = Map.empty \<and> p = sint v \<and> n = 0)"

definition sem_runs :: "sync_call \<Rightarrow> sem_sys \<Rightarrow> bool" where
  "sem_runs c s \<longleftrightarrow>
     (\<exists>s'. sem_exec c s = Some s' \<and> sem_good s' \<and> tok_step (sem_tokens s) (sem_tokens s'))"

lemma sem_runsI:
  assumes "sem_exec c s = Some (m', v, p', n')" "sem_good s"
    "tok_step (sem_tokens s) (sem_tokens (m', v, p', n'))" "waits_ok (s_wait m') v"
  shows "sem_runs c s"
proof -
  have "tok_inv (sem_tokens s)" using assms(2) by (cases s) auto
  then have "tok_inv (sem_tokens (m', v, p', n'))" using tok_inv_step assms(3) by blast
  then have "sem_good (m', v, p', n')" using assms by simp
  then show ?thesis using assms by (auto simp: sem_runs_def)
qed

lemma sem_take_runs:
  assumes good: "sem_good (m, (k, ins), p, n)" and may: "may_wait cpu (k, ins) t"
  shows "sem_runs (Take cpu d) (m, (k, ins), p, n)"
proof -
  let ?w = "s_wait m" and ?m = "m\<lparr>s_count := s_count m - 1\<rparr>"
  have ok: "waits_ok ?w (k, ins)" and cur: "current k cpu = Some t"
    using good may by (simp_all add: may_wait_def)
  consider (free) "\<not> s_count m - 1 < 0" | (zero) "s_count m - 1 < 0" "d = 0" | (wait) "s_count m - 1 < 0" "d \<noteq> 0"
    by blast
  then show ?thesis
  proof cases
    case free
    then have ex: "sem_exec (Take cpu d) (m, (k, ins), p, n) = Some (?m, (k, ins), p, n + 1)"
      using cur by (simp add: sem_timedwait_def)
    show ?thesis
      by (rule sem_runsI [OF ex good])
        (use free ok tokens_take [of "s_count m" ?w p n "(k, ins)"] in simp_all)
  next
    case zero
    then have ex: "sem_exec (Take cpu d) (m, (k, ins), p, n) = Some (m, (k, ins), p, n)"
      using cur block_zero [OF ok cur] by (simp add: sem_timedwait_def sem_timedwait_finish_def lk_defs)
    show ?thesis by (rule sem_runsI [OF ex good tok_idle ok])
  next
    case wait
    obtain k' where k': "wait_queue_block cpu ?w d k = Some (Blocks, k')"
      "waits_ok ?w (k', ins(t \<mapsto> d))" "waiters ?w (k', ins(t \<mapsto> d)) = waiters ?w (k, ins) @ [t]"
      "granted ?w (k', ins(t \<mapsto> d)) = granted ?w (k, ins)" "late ?w (k', ins(t \<mapsto> d)) = late ?w (k, ins)"
      using waits_block [OF ok may wait(2)] by blast
    have "t \<notin> dom ins" using may by (simp add: may_wait_def)
    then have st: "tok_step (sem_tokens (m, (k, ins), p, n)) (sem_tokens (?m, (k', ins(t \<mapsto> d)), p, n))"
      using tokens_block [OF ok _ k'(3-5)] by simp
    have ex: "sem_exec (Take cpu d) (m, (k, ins), p, n) = Some (?m, (k', ins(t \<mapsto> d)), p, n)"
      using wait(1) cur k'(1) by (simp add: sem_timedwait_def)
    show ?thesis by (rule sem_runsI [OF ex good st]) (use k'(2) in simp)
  qed
qed

lemma sem_take_exit_runs:
  assumes good: "sem_good (m, (k, ins), p, n)" and cur: "current k cpu = Some t" and t: "ins t = Some d"
  shows "sem_runs (Take_exit cpu) (m, (k, ins), p, n)"
proof -
  let ?w = "s_wait m" and ?f = "sem_timedwait_finish (block_ret k t) m"
  have ok: "waits_ok ?w (k, ins)" using good by simp
  obtain k' where k': "wait_queue_block_exit cpu d k = Some (block_ret k t, k')"
    "waits_ok ?w (k', ins(t := None))" "waiters ?w (k', ins(t := None)) = waiters ?w (k, ins)"
    "granted ?w (k', ins(t := None)) = granted ?w (k, ins) - {t}"
    "late ?w (k', ins(t := None)) = late ?w (k, ins) - {t}"
    "block_ret k t = NO_ERROR \<and> t \<in> granted ?w (k, ins) \<or>
     block_ret k t = ERR_TIMED_OUT \<and> t \<in> late ?w (k, ins)"
    using waits_exit [OF ok cur t] by blast
  have ex: "sem_exec (Take_exit cpu) (m, (k, ins), p, n) =
      Some (?f, (k', ins(t := None)), p, if block_ret k t = NO_ERROR then n + 1 else n)"
    using cur t k'(1) by (simp add: sem_timedwait_exit_def)
  from k'(6) show ?thesis
  proof (elim disjE conjE)
    assume r: "block_ret k t = NO_ERROR" and g: "t \<in> granted ?w (k, ins)"
    have "tok_step (sem_tokens (m, (k, ins), p, n)) (sem_tokens (?f, (k', ins(t := None)), p, n + 1))"
      using tokens_get [OF g k'(3-5)] r by (simp add: sem_timedwait_finish_def)
    moreover have "sem_exec (Take_exit cpu) (m, (k, ins), p, n) = Some (?f, (k', ins(t := None)), p, n + 1)"
      using ex r by simp
    ultimately show ?thesis using sem_runsI [OF _ good] k'(2) r by (simp only: sem_timedwait_finish_def) simp
  next
    assume r: "block_ret k t = ERR_TIMED_OUT" and l: "t \<in> late ?w (k, ins)"
    have e: "?f = m\<lparr>s_count := s_count m + 1\<rparr>" "NO_ERROR \<noteq> ERR_TIMED_OUT"
      using r by (simp_all add: sem_timedwait_finish_def lk_defs)
    have st: "tok_step (sem_tokens (m, (k, ins), p, n)) (sem_tokens (?f, (k', ins(t := None)), p, n))"
      using tokens_fail [OF ok l k'(3-5), of "s_count m" p n] e by simp
    have "sem_exec (Take_exit cpu) (m, (k, ins), p, n) = Some (?f, (k', ins(t := None)), p, n)"
      using ex r e(2) by simp
    from sem_runsI [OF this good st] show ?thesis using e k'(2) by simp
  qed
qed

lemma sem_put_runs:
  assumes good: "sem_good (m, (k, ins), p, n)" and cur: "current k cpu = Some t" "r \<longrightarrow> \<not> is_idle k t"
  shows "sem_runs (Put cpu r) (m, (k, ins), p, n)"
proof -
  let ?w = "s_wait m" and ?m = "m\<lparr>s_count := s_count m + 1\<rparr>"
  have ok: "waits_ok ?w (k, ins)" using good by simp
  show ?thesis
  proof (cases "s_count m + 1 \<le> 0")
    case True
    obtain k' i where k': "wait_queue_wake_one cpu ?w r NO_ERROR k = Some (i, k')" "waits_ok ?w (k', ins)"
      "waiters ?w (k', ins) = tl (waiters ?w (k, ins))"
      "granted ?w (k', ins) = granted ?w (k, ins) \<union> set (take 1 (waiters ?w (k, ins)))"
      "late ?w (k', ins) = late ?w (k, ins)"
      using waits_wake [OF ok cur(1), of r] cur(2) by blast
    have st: "tok_step (sem_tokens (m, (k, ins), p, n)) (sem_tokens (?m, (k', ins), p + 1, n))"
      using tokens_wake [OF k'(3-5), of "s_count m" p n] by simp
    have ex: "sem_exec (Put cpu r) (m, (k, ins), p, n) = Some (?m, (k', ins), p + 1, n)"
      using True k'(1) by (simp add: sem_post_def)
    show ?thesis by (rule sem_runsI [OF ex good st]) (use k'(2) in simp)
  next
    case False
    have st: "tok_step (sem_tokens (m, (k, ins), p, n)) (sem_tokens (?m, (k, ins), p + 1, n))"
      using tokens_give [of ?w "s_count m" p n "(k, ins)"] by simp
    have ex: "sem_exec (Put cpu r) (m, (k, ins), p, n) = Some (?m, (k, ins), p + 1, n)"
      using False by (simp add: sem_post_def)
    show ?thesis by (rule sem_runsI [OF ex good st]) (use ok in simp)
  qed
qed

lemma sem_try_runs:
  assumes good: "sem_good (m, s, p, n)"
  shows "sem_runs Try (m, s, p, n)"
proof (cases "s_count m \<le> 0")
  case True
  then have ex: "sem_exec Try (m, s, p, n) = Some (m, s, p, n)" by (simp add: sem_trywait_def lk_defs)
  show ?thesis by (rule sem_runsI [OF ex good tok_idle]) (use good in simp)
next
  case False
  then have ex: "sem_exec Try (m, s, p, n) = Some (m\<lparr>s_count := s_count m - 1\<rparr>, s, p, n + 1)"
    by (simp add: sem_trywait_def)
  show ?thesis
    by (rule sem_runsI [OF ex good]) (use False good tokens_take [of "s_count m" "s_wait m" p n s] in simp_all)
qed

lemma sem_call_runs:
  assumes good: "sem_good s" and al: "sem_allowed c s"
  shows "sem_runs c s"
proof -
  obtain m k ins p n where s: "s = (m, (k, ins), p, n)" by (cases s) auto
  have g: "sem_good (m, (k, ins), p, n)" and ok: "waits_ok (s_wait m) (k, ins)"
    using good by (simp_all add: s)
  show ?thesis
  proof (cases c)
    case (Take cpu d)
    then show ?thesis using al sem_take_runs [OF g] by (auto simp: s)
  next
    case (Take_exit cpu)
    then show ?thesis using al sem_take_exit_runs [OF g] by (auto simp: s)
  next
    case (Put cpu r)
    then show ?thesis using al sem_put_runs [OF g] by (auto simp: s)
  next
    case Try
    then show ?thesis using sem_try_runs [OF g] by (simp add: s)
  next
    case (Expire cpu t)
    then have t: "t \<in> set (waiters (s_wait m) (k, ins))" using al by (simp add: s)
    obtain k' where k': "wait_queue_timeout_handler cpu t k = Some (k', INT_RESCHEDULE)"
      "waits_ok (s_wait m) (k', ins)" "waiters (s_wait m) (k', ins) = remove1 t (waiters (s_wait m) (k, ins))"
      "granted (s_wait m) (k', ins) = granted (s_wait m) (k, ins)"
      "late (s_wait m) (k', ins) = insert t (late (s_wait m) (k, ins))"
      using waits_expire [OF ok t, of cpu] by blast
    have st: "tok_step (sem_tokens s) (sem_tokens (m, (k', ins), p, n))"
      using tokens_expire [OF ok t k'(3-5)] by (simp add: s)
    have ex: "sem_exec c s = Some (m, (k', ins), p, n)" using k'(1) by (simp add: s Expire)
    show ?thesis by (rule sem_runsI [OF ex good st k'(2)])
  next
    case (Elsewhere k')
    then have "elsewhere (s_wait m) (k, ins) k'" using al by (simp add: s)
    note e = waits_elsewhere [OF ok this]
    have st: "tok_step (sem_tokens s) (sem_tokens (m, (k', ins), p, n))"
      using tokens_same [where w = "s_wait m" and s' = "(k', ins)" and s = "(k, ins)"] e by (simp add: s)
    have ex: "sem_exec c s = Some (m, (k', ins), p, n)" by (simp add: s Elsewhere)
    show ?thesis by (rule sem_runsI [OF ex good st]) (use e in blast)
  qed
qed

lemma sem_start_good: "sem_start s \<Longrightarrow> sem_good s"
proof -
  assume "sem_start s"
  then obtain w v k where s: "s = (fst (sem_init w v k), (snd (sem_init w v k), Map.empty), sint v, 0)"
    and k: "kinv k" "wq_list (wqs k w) = []" and v: "0 \<le> sint v"
    by (cases s) (auto simp: prod_eq_iff)
  have "kinv (wait_queue_init w k)" by (rule wait_queue_init_inv [OF k])
  moreover have "wqs (wait_queue_init w k) w = WAIT_QUEUE_INITIAL_VALUE" by (simp add: wait_queue_init_def)
  ultimately show ?thesis
    using tok_inv_fresh [OF v, of "wait_queue_init w k" w]
    by (simp add: s sem_init_def waits_ok.simps WAIT_QUEUE_INITIAL_VALUE_def)
qed

interpretation semo: token_object sem_start sem_allowed sem_exec sem_good sem_tokens
proof
  show "sem_start s \<Longrightarrow> sem_good s" for s by (rule sem_start_good)
  show "\<exists>s'. sem_exec c s = Some s' \<and> sem_good s'" if "sem_good s" "sem_allowed c s" for s c
    using sem_call_runs [OF that] unfolding sem_runs_def by blast
  show "tok_inv (sem_tokens s)" if "sem_start s" for s
    using sem_start_good [OF that] by (cases s) simp
  show "tok_step (sem_tokens s) (sem_tokens s')"
    if "sem_good s" "sem_allowed c s" "sem_exec c s = Some s'" for s c s'
    using sem_call_runs [OF that(1,2)] that(3) unfolding sem_runs_def by auto
qed

end
