(* ===== verification/Kernel_Tick.thy ===== *)
theory Kernel_Tick
  imports Kernel_Life
begin

text \<open>
  The timer interrupt (\<^verbatim>\<open>timer_tick\<close> of \<^verbatim>\<open>kernel/timer.c\<close>): expired timers
  are taken off the cpu's queue one after the other and their callbacks run; a periodic
  timer is put back. The callbacks of the scheduler are the model's own operations;
  callbacks of other code are the parameter \<open>user\<close>. The loop has fuel, since a
  callback may put back a timer that has already expired; \<open>timer_tick_loop_ok\<close> shows
  that one more than the number of expired timers is enough. A result \<open>None\<close> of the
  loop stands for a failed assertion or for fuel that ran out; the lemmas tell the two apart
  by showing that the loop has a result, or that each of its rounds has one.

  The interrupt is one step of the model. The source releases \<^verbatim>\<open>timer_lock\<close> around each
  callback, so that a \<^verbatim>\<open>timer_cancel\<close> or \<^verbatim>\<open>timer_set\<close> on another cpu can come in
  between there; those interleavings inside the interrupt are not modelled.
\<close>

type_synonym user_callbacks = "nat \<Rightarrow> nat \<Rightarrow> lk_time_t \<Rightarrow> kstate \<Rightarrow> (kstate \<times> handler_return) option"

section \<open>The handler\<close>

definition fire_callback ::
  "user_callbacks \<Rightarrow> nat \<Rightarrow> lk_time_t \<Rightarrow> timer_callback \<Rightarrow> kstate \<Rightarrow> (kstate \<times> handler_return) option" where
  "fire_callback user cpu now cb k =
     (case cb of
        thread_sleep_handler_cb t \<Rightarrow> thread_sleep_handler t k
      | wait_queue_timeout_handler_cb t \<Rightarrow> wait_queue_timeout_handler cpu t k
      | thread_timer_tick_cb \<Rightarrow> thread_timer_tick cpu k
      | user_cb n \<Rightarrow> user n cpu now k)"

text \<open>Put a periodic timer back, unless its callback did or stopped it.\<close>

definition requeue_periodic :: "nat \<Rightarrow> lk_time_t \<Rightarrow> taddr \<Rightarrow> timer_state \<Rightarrow> timer_state" where
  "requeue_periodic cpu now t ts =
     (if tm_node (tmr ts t) = None \<and> tm_periodic_time (tmr ts t) > 0
      then insert_timer_in_queue cpu t
             (ts\<lparr>tmr := (tmr ts)(t := (tmr ts t)\<lparr>tm_scheduled_time :=
                    now + tm_periodic_time (tmr ts t)\<rparr>)\<rparr>)
      else ts)"

text \<open>One round of the loop, for the expired timer \<open>t\<close> at the head of the queue.\<close>

definition timer_tick_round ::
  "user_callbacks \<Rightarrow> nat \<Rightarrow> lk_time_t \<Rightarrow> taddr \<Rightarrow> handler_return \<Rightarrow> kstate \<Rightarrow>
   (kstate \<times> handler_return) option" where
  "timer_tick_round user cpu now t ret k = do {
     ASSERT (tm_magic (tmr (tims k) t) = TIMER_MAGIC);
     let k = k\<lparr>tims := timer_list_delete t (tims k)\<rparr>;
     let k = upd_stats cpu (\<lambda>s. s\<lparr>timers_run := timers_run s + 1\<rparr>) k;
     let periodic = (tm_periodic_time (tmr (tims k) t) > 0);
     cb \<leftarrow> tm_callback (tmr (tims k) t);
     (k, r) \<leftarrow> fire_callback user cpu now cb k;
     let ret = (if r = INT_RESCHEDULE then INT_RESCHEDULE else ret);
     let k = (if periodic then k\<lparr>tims := requeue_periodic cpu now t (tims k)\<rparr> else k);
     Some (k, ret)
   }"

primrec timer_tick_loop ::
  "user_callbacks \<Rightarrow> nat \<Rightarrow> lk_time_t \<Rightarrow> nat \<Rightarrow> handler_return \<Rightarrow> kstate \<Rightarrow> (kstate \<times> handler_return) option" where
  "timer_tick_loop user cpu now 0 ret k = None"
| "timer_tick_loop user cpu now (Suc fuel) ret k =
     (case peek_head cpu (tims k) of
        None \<Rightarrow> Some (k, ret)
      | Some t \<Rightarrow>
          if TIME_LT now (sched_time (tims k) t) then Some (k, ret)
          else do {
            (k, ret) \<leftarrow> timer_tick_round user cpu now t ret k;
            timer_tick_loop user cpu now fuel ret k
          })"

text \<open>
  Exactly \<open>n\<close> rounds: a result means that the loop got through \<open>n\<close> rounds, each
  of which found an expired timer and ran to the end.
\<close>

primrec timer_tick_rounds ::
  "user_callbacks \<Rightarrow> nat \<Rightarrow> lk_time_t \<Rightarrow> nat \<Rightarrow> handler_return \<Rightarrow> kstate \<Rightarrow> (kstate \<times> handler_return) option" where
  "timer_tick_rounds user cpu now 0 ret k = Some (k, ret)"
| "timer_tick_rounds user cpu now (Suc n) ret k =
     (case peek_head cpu (tims k) of
        None \<Rightarrow> None
      | Some t \<Rightarrow>
          if TIME_LT now (sched_time (tims k) t) then None
          else do {
            (k, ret) \<leftarrow> timer_tick_round user cpu now t ret k;
            timer_tick_rounds user cpu now n ret k
          })"

lemma timer_tick_rounds_loop:
  "timer_tick_rounds user cpu now n ret k = Some (k', ret') \<Longrightarrow>
   timer_tick_loop user cpu now (n + fuel) ret k = timer_tick_loop user cpu now fuel ret' k'"
proof (induction n arbitrary: ret k)
  case (Suc n)
  then obtain t k1 ret1 where "peek_head cpu (tims k) = Some t" "\<not> TIME_LT now (sched_time (tims k) t)"
    "timer_tick_round user cpu now t ret k = Some (k1, ret1)"
    "timer_tick_rounds user cpu now n ret1 k1 = Some (k', ret')"
    by (auto split: option.splits if_splits bind_splits)
  then show ?case using Suc.IH by simp
qed simp

definition timer_tick ::
  "user_callbacks \<Rightarrow> nat \<Rightarrow> lk_time_t \<Rightarrow> nat \<Rightarrow> kstate \<Rightarrow> (kstate \<times> handler_return) option" where
  "timer_tick user cpu now fuel k = do {
     let k = upd_stats cpu (\<lambda>s. s\<lparr>timer_ints := timer_ints s + 1\<rparr>) k;
     (k, ret) \<leftarrow> timer_tick_loop user cpu now fuel INT_NO_RESCHEDULE k;
     case peek_head cpu (tims k) of
       None \<Rightarrow> Some (k, ret)
     | Some t \<Rightarrow> do {
         ASSERT (TIME_GT (sched_time (tims k) t) now);
         Some (k\<lparr>tims := platform_set_oneshot_timer cpu (sched_time (tims k) t - now) (tims k)\<rparr>, ret)
       }
   }"

section \<open>What a pending timer is for\<close>

text \<open>
  A thread's own timer wakes that thread from a sleep or ends its wait; the timers of other
  code have callbacks of other code, and a period, below half the range of the clock, only
  while they have one.
\<close>

definition pending_ok :: "kstate \<Rightarrow> bool" where
  "pending_ok k \<longleftrightarrow>
     (\<forall>t. tm_node (tmr (tims k) (StackTimer t)) \<noteq> None \<longrightarrow> live k t \<and>
        tm_periodic_time (tmr (tims k) (StackTimer t)) = 0 \<and>
        (tm_callback (tmr (tims k) (StackTimer t)) = Some (thread_sleep_handler_cb t) \<and>
           state_of k t = THREAD_SLEEPING \<or>
         tm_callback (tmr (tims k) (StackTimer t)) = Some (wait_queue_timeout_handler_cb t))) \<and>
     (\<forall>n. tm_node (tmr (tims k) (UserTimer n)) \<noteq> None \<or>
          tm_periodic_time (tmr (tims k) (UserTimer n)) > 0 \<longrightarrow>
        tm_magic (tmr (tims k) (UserTimer n)) = TIMER_MAGIC \<and> (\<exists>m. tm_callback (tmr (tims k) (UserTimer n)) = Some (user_cb m))) \<and>
     (\<forall>n. tm_periodic_time (tmr (tims k) (UserTimer n)) < 2 ^ 31)"

text \<open>
  Where a thread is in its own code: outside the wait queues, or inside
  \<^verbatim>\<open>wait_queue_block\<close> with the timeout it was called with, so that
  \<open>wait_queue_block_exit\<close> is what it does next.
\<close>

datatype phase = Outside | Waiting lk_time_t

text \<open>
  A thread inside a wait is blocked, or has been woken and not yet left; its timer is
  pending at most while it is there or asleep. A live thread's join queue is initialised.
\<close>

definition phase_ok :: "kstate \<Rightarrow> tid \<Rightarrow> phase \<Rightarrow> bool" where
  "phase_ok k t p \<longleftrightarrow> (case p of
     Outside \<Rightarrow> state_of k t \<noteq> THREAD_BLOCKED \<and>
       (tm_node (tmr (tims k) (StackTimer t)) \<noteq> None \<longrightarrow> state_of k t = THREAD_SLEEPING)
   | Waiting d \<Rightarrow> state_of k t \<notin> {THREAD_SLEEPING, THREAD_SUSPENDED, THREAD_DEATH} \<and>
       (if d = INFINITE_TIME then tm_node (tmr (tims k) (StackTimer t)) = None
        else tm_magic (tmr (tims k) (StackTimer t)) = TIMER_MAGIC))"

definition phases_ok :: "kstate \<Rightarrow> (tid \<Rightarrow> phase) \<Rightarrow> bool" where
  "phases_ok k ph \<longleftrightarrow>
     (\<forall>t. live k t \<longrightarrow> phase_ok k t (ph t) \<and> wq_magic (wqs k (RetcodeWq t)) = WAIT_QUEUE_MAGIC)"

definition tick_inv :: "kstate \<Rightarrow> bool" where
  "tick_inv k \<longleftrightarrow> kinv k \<and> pending_ok k"

definition expired :: "lk_time_t \<Rightarrow> timer_state \<Rightarrow> taddr \<Rightarrow> bool" where
  "expired now ts t \<longleftrightarrow> \<not> TIME_LT now (sched_time ts t)"

definition expired_count :: "nat \<Rightarrow> lk_time_t \<Rightarrow> timer_state \<Rightarrow> nat" where
  "expired_count cpu now ts = length (filter (expired now ts) (timer_queue ts cpu))"

text \<open>
  What the kernel relies on in the callbacks of other code: they run to the end, keep the
  kernel's invariant, do not switch threads themselves, and queue no timer that has already
  expired.
\<close>

definition user_ok :: "user_callbacks \<Rightarrow> bool" where
  "user_ok user \<longleftrightarrow> (\<forall>n cpu now k. tick_inv k \<longrightarrow>
     (\<exists>k' r. user n cpu now k = Some (k', r) \<and> tick_inv k' \<and> current k' = current k \<and>
        (\<forall>ph. phases_ok k ph \<longrightarrow> phases_ok k' ph) \<and>
        expired_count cpu now (tims k') \<le> expired_count cpu now (tims k)))"

lemma user_ok_example: "user_ok (\<lambda>n cpu now k. Some (k, INT_NO_RESCHEDULE))"
  by (simp add: user_ok_def)

section \<open>One expired timer\<close>

lemma sint_uminus: "sint (- d) = signed_take_bit 31 (- sint d)" for d :: u32
  by (simp only: sint_word_ariths) simp

lemma time_lt_period:
  assumes p: "0 < p" "p < (2 ^ 31 :: lk_time_t)"
  shows "TIME_LT now (now + p)"
proof -
  have u: "0 < uint p" "uint p < 2 ^ 31" using p by (simp_all add: word_less_def)
  have "sint p = uint p"
    using u by (simp add: sint_uint signed_take_bit_int_eq_self)
  then have "sint (now - (now + p)) = signed_take_bit 31 (- uint p)"
    using sint_uminus [of p] by simp
  also have "\<dots> = - uint p" using u by (intro signed_take_bit_int_eq_self) auto
  finally show ?thesis using u by (simp add: TIME_LT_def)
qed

lemma not_lt_opposite:
  assumes "TIME_LT now s" "s - now \<noteq> 2 ^ 31"
  shows "TIME_GT s now"
proof -
  let ?d = "now - s"
  have neg: "sint ?d < 0" using assms(1) by (simp add: TIME_LT_def)
  have "?d \<noteq> 2 ^ 31"
  proof
    assume "?d = 2 ^ 31"
    then have "s - now = - (2 ^ 31)" by (metis minus_diff_eq)
    then show False using assms(2) by simp
  qed
  have "sint ?d \<noteq> - (2 ^ 31)"
  proof
    assume "sint ?d = - (2 ^ 31)"
    then have "word_of_int (sint ?d) = (word_of_int (- (2 ^ 31)) :: u32)" by (rule arg_cong)
    then have "?d = 2 ^ 31" by simp
    with \<open>?d \<noteq> 2 ^ 31\<close> show False ..
  qed
  moreover have "- (2 ^ 31) \<le> sint ?d" using sint_ge [of ?d] by simp
  ultimately have "sint (- ?d) = - sint ?d"
    using neg unfolding sint_uminus by (intro signed_take_bit_int_eq_self) auto
  then show ?thesis using neg by (simp add: TIME_GT_def)
qed

lemma tims_commute:
  "readied t (k\<lparr>tims := ts\<rparr>) = (readied t k)\<lparr>tims := ts\<rparr>"
  "mp_reschedule c m fl (k\<lparr>tims := ts\<rparr>) = (mp_reschedule c m fl k)\<lparr>tims := ts\<rparr>"
  "ins_head t (k\<lparr>tims := ts\<rparr>) = (ins_head t k)\<lparr>tims := ts\<rparr>"
  "unblocked w t err (k\<lparr>tims := ts\<rparr>) = (unblocked w t err k)\<lparr>tims := ts\<rparr>"
  "upd_thread t f (k\<lparr>tims := ts\<rparr>) = (upd_thread t f k)\<lparr>tims := ts\<rparr>"
  "upd_stats c g (k\<lparr>tims := ts\<rparr>) = (upd_stats c g k)\<lparr>tims := ts\<rparr>"
  by (simp_all add: readied_def ins_head_def unblocked_def mp_reschedule_def upd_thread_def upd_wq_def
      upd_stats_def Let_def)

lemma insert_head_tims:
  "insert_in_run_queue_head t (k\<lparr>tims := ts\<rparr>) =
     map_option (\<lambda>k. k\<lparr>tims := ts\<rparr>) (insert_in_run_queue_head t k)"
proof -
  have e: "run_queue_insertable t (k\<lparr>tims := ts\<rparr>) = run_queue_insertable t k"
    by (simp add: run_queue_insertable_def)
  show ?thesis
  proof (cases "run_queue_insertable t k")
    case True
    with e show ?thesis by (simp add: insert_head_eq tims_commute)
  next
    case False
    with e show ?thesis by (simp add: insert_in_run_queue_head_def)
  qed
qed

lemma timer_delete_facts:
  assumes ok: "timers_ok ts" and hd: "peek_head cpu ts = Some t"
  defines "ts' \<equiv> timer_list_delete t ts"
  shows "timers_ok ts'" "tm_node (tmr ts' t) = None" "\<And>u. u \<noteq> t \<Longrightarrow> tmr ts' u = tmr ts u"
    "tm_magic (tmr ts' t) = tm_magic (tmr ts t)" "tm_callback (tmr ts' t) = tm_callback (tmr ts t)"
    "tm_periodic_time (tmr ts' t) = tm_periodic_time (tmr ts t)"
    "tm_node (tmr ts t) = Some cpu" "tm_callback (tmr ts t) \<noteq> None" "tm_magic (tmr ts t) = TIMER_MAGIC"
    "expired now ts t \<Longrightarrow> Suc (expired_count cpu now ts') = expired_count cpu now ts"
proof -
  obtain q where q: "timer_queue ts cpu = t # q" using hd by (auto simp: peek_head_def split: list.splits)
  have n: "tm_node (tmr ts t) = Some cpu"
    using timers_okD(1) [OF ok, of t cpu] q by simp
  have e: "ts' = ts\<lparr>timer_queue := (timer_queue ts)(cpu := q),
       tmr := (tmr ts)(t := (tmr ts t)\<lparr>tm_node := None\<rparr>)\<rparr>"
    by (simp add: ts'_def timer_list_delete_def n q)
  show "timers_ok ts'" unfolding ts'_def by (rule timers_ok_delete [OF ok])
  show "tm_node (tmr ts t) = Some cpu" by (rule n)
  show "tm_callback (tmr ts t) \<noteq> None" "tm_magic (tmr ts t) = TIMER_MAGIC"
    using timers_okD(3,4) [OF ok, of t] n by simp_all
  have "expired now ts' = expired now ts" by (rule ext) (simp add: e expired_def)
  moreover have "timer_queue ts' cpu = q" by (simp add: e)
  ultimately show "expired now ts t \<Longrightarrow> Suc (expired_count cpu now ts') = expired_count cpu now ts"
    by (simp add: expired_count_def q)
qed (simp_all add: ts'_def timer_list_delete_def split: option.splits)

lemma filter_insert_walk: "\<not> P t \<Longrightarrow> filter P (insert_walk sch t q) = filter P q"
  by (induction q) auto

lemma requeue_periodic_facts:
  fixes cpu :: nat and now :: lk_time_t
  assumes ok: "timers_ok ts" and n: "tm_node (tmr ts t) = None" and p: "0 < tm_periodic_time (tmr ts t)"
    "tm_periodic_time (tmr ts t) < 2 ^ 31"
    and c: "tm_callback (tmr ts t) \<noteq> None" "tm_magic (tmr ts t) = TIMER_MAGIC"
  defines "ts' \<equiv> requeue_periodic cpu now t ts"
  shows "timers_ok ts'"
    "tmr ts' t = (tmr ts t)\<lparr>tm_node := Some cpu, tm_scheduled_time := now + tm_periodic_time (tmr ts t)\<rparr>"
    "\<And>u. u \<noteq> t \<Longrightarrow> tmr ts' u = tmr ts u"
    "expired_count cpu now ts' = expired_count cpu now ts"
proof -
  let ?ts = "ts\<lparr>tmr := (tmr ts)(t := (tmr ts t)\<lparr>tm_scheduled_time := now + tm_periodic_time (tmr ts t)\<rparr>)\<rparr>"
  have e: "ts' = insert_timer_in_queue cpu t ?ts" using n p by (simp add: ts'_def requeue_periodic_def)
  have "timers_ok ?ts" using ok n by (intro timers_ok_update_unlinked) simp_all
  then show "timers_ok ts'" unfolding e using n c by (intro timers_ok_insert) simp_all
  show "tmr ts' t = (tmr ts t)\<lparr>tm_node := Some cpu, tm_scheduled_time := now + tm_periodic_time (tmr ts t)\<rparr>"
    by (simp add: e insert_timer_in_queue_def)
  show "\<And>u. u \<noteq> t \<Longrightarrow> tmr ts' u = tmr ts u" by (simp add: e insert_timer_in_queue_def)
  have ne: "\<not> expired now ts' t"
    using time_lt_period [OF p] by (simp add: e insert_timer_in_queue_def expired_def)
  have "expired now ts' u = expired now ts u" if "u \<in> set (timer_queue ts cpu)" for u
  proof -
    have "u \<noteq> t" using that n timers_okD(1) [OF ok] by auto
    then show ?thesis by (simp add: e insert_timer_in_queue_def expired_def)
  qed
  then have "filter (expired now ts') (timer_queue ts cpu) = filter (expired now ts) (timer_queue ts cpu)"
    by (rule filter_cong [OF refl])
  moreover have "timer_queue ts' cpu = insert_walk (sched_time ?ts) t (timer_queue ts cpu)"
    by (simp add: e insert_timer_in_queue_def)
  ultimately show "expired_count cpu now ts' = expired_count cpu now ts"
    using ne by (simp add: expired_count_def filter_insert_walk)
qed

text \<open>
  The three callbacks of the scheduler, run in the state \<open>k\<close> with the fired timer taken
  off its queue (timers \<open>ts\<close>): they never look at the timers, so what they do is what
  they do in \<open>k\<close>, where the invariant holds.
\<close>

definition callback_ok :: "nat \<Rightarrow> timer_callback \<Rightarrow> kstate \<Rightarrow> bool" where
  "callback_ok cpu cb k \<longleftrightarrow>
     (\<exists>k1 r. (\<forall>user now ts. fire_callback user cpu now cb (k\<lparr>tims := ts\<rparr>) = Some (k1\<lparr>tims := ts\<rparr>, r)) \<and>
        kinv k1 \<and> tims k1 = tims k \<and> current k1 = current k \<and>
        (\<forall>u. live k1 u = live k u \<and> (state_of k1 u = THREAD_SLEEPING \<longleftrightarrow>
           state_of k u = THREAD_SLEEPING \<and> cb \<noteq> thread_sleep_handler_cb u)) \<and>
        (\<forall>u. state_of k1 u = state_of k u \<or>
           state_of k u \<in> {THREAD_BLOCKED, THREAD_SLEEPING} \<and> state_of k1 u = THREAD_READY) \<and>
        (\<forall>w. wq_magic (wqs k1 w) = wq_magic (wqs k w)))"

lemma callback_sleep:
  assumes inv: "kinv k" and t: "live k t" "state_of k t = THREAD_SLEEPING"
  shows "callback_ok cpu (thread_sleep_handler_cb t) k"
proof -
  have p: "0 \<le> t_priority (thr k t)" "t_priority (thr k t) < NUM_PRIORITIES"
    using sched_invD(7) [OF inv] t by (auto simp: inv_g_def)
  note r = readied_ok [OF inv t(1) _ p]
  have "thread_sleep_handler t (k\<lparr>tims := ts\<rparr>) = Some ((readied t k)\<lparr>tims := ts\<rparr>, INT_RESCHEDULE)" for ts
    using r(2) t by (simp add: thread_sleep_handler_def tims_commute insert_head_tims)
  then show ?thesis
    unfolding callback_ok_def fire_callback_def using r(1) t
    by (intro exI [of _ "readied t k"] exI [of _ INT_RESCHEDULE]) (auto simp: readied_def t)
qed

lemma callback_timeout:
  assumes inv: "kinv k" and t: "live k t"
  shows "callback_ok cpu (wait_queue_timeout_handler_cb t) k"
proof (cases "state_of k t = THREAD_BLOCKED")
  case True
  then obtain w where w: "node_of k t = WaitQ w"
    using sched_invD(2) [OF inv] t unfolding inv_w_def by blast
  let ?k = "mp_reschedule cpu MP_CPU_ALL_BUT_LOCAL 0 (ins_head t (unblocked w t ERR_TIMED_OUT k))"
  note u = thread_unblock_from_wait_queue_ok [OF inv w, of cpu ERR_TIMED_OUT]
  have tw: "t \<in> set (wq_list (wqs k w))" using sched_invD(2) [OF inv] w by (simp add: inv_w_def)
  have "thread_unblock_from_wait_queue cpu t ERR_TIMED_OUT (k\<lparr>tims := ts\<rparr>) =
      Some (NO_ERROR, ?k\<lparr>tims := ts\<rparr>)" for ts
    using unblock_eq [of "k\<lparr>tims := ts\<rparr>" t w cpu ERR_TIMED_OUT] waiting_facts [OF inv tw]
    by (simp add: tims_commute)
  then have "wait_queue_timeout_handler cpu t (k\<lparr>tims := ts\<rparr>) = Some (?k\<lparr>tims := ts\<rparr>, INT_RESCHEDULE)" for ts
    using t by (simp add: wait_queue_timeout_handler_def)
  then show ?thesis
    unfolding callback_ok_def fire_callback_def using u(2) t True
    by (intro exI [of _ ?k] exI [of _ INT_RESCHEDULE]) auto
next
  case False
  then have "wait_queue_timeout_handler cpu t (k\<lparr>tims := ts\<rparr>) = Some (k\<lparr>tims := ts\<rparr>, INT_NO_RESCHEDULE)" for ts
    using t by (simp add: wait_queue_timeout_handler_def thread_unblock_from_wait_queue_def lk_defs)
  then show ?thesis
    unfolding callback_ok_def fire_callback_def using inv
    by (intro exI [of _ k] exI [of _ INT_NO_RESCHEDULE]) auto
qed

lemma callback_preempt:
  assumes inv: "kinv k" and cur: "current k cpu = Some t"
  shows "callback_ok cpu thread_timer_tick_cb k"
proof (cases "thread_is_real_time_or_idle (thr k t)")
  case True
  then show ?thesis
    unfolding callback_ok_def fire_callback_def using inv cur
    by (intro exI [of _ k] exI [of _ INT_NO_RESCHEDULE]) (auto simp: thread_timer_tick_def)
next
  case False
  let ?k = "upd_thread t (\<lambda>th. th\<lparr>t_remaining_quantum := t_remaining_quantum th - 1\<rparr>) k"
  have "kinv ?k" using inv by (subst sched_inv_upd_thread_view) (simp_all add: tview_def)
  then show ?thesis
    unfolding callback_ok_def fire_callback_def using cur False
    by (intro exI [of _ ?k] exI [of _ "if t_remaining_quantum (thr ?k t) \<le> 0 then INT_RESCHEDULE
        else INT_NO_RESCHEDULE"])
      (auto simp: thread_timer_tick_def tims_commute)
qed

text \<open>
  Replacing the timers of a state: \<open>same_timer\<close> is equality up to the expiry time,
  which the invariant does not read.
\<close>

definition same_timer :: "timer \<Rightarrow> timer \<Rightarrow> bool" where
  "same_timer a b \<longleftrightarrow> tm_magic a = tm_magic b \<and> tm_node a = tm_node b \<and>
     tm_callback a = tm_callback b \<and> tm_periodic_time a = tm_periodic_time b"

lemma same_timer_refl [simp]: "same_timer a a"
  by (simp add: same_timer_def)

lemma tick_inv_timers:
  assumes inv: "kinv k" "pending_ok k0" and k: "tims k0 = tims k" "current k0 = current k"
    and lv: "\<And>u. live k u = live k0 u"
    and sl: "\<And>u. state_of k u = THREAD_SLEEPING \<longleftrightarrow>
               state_of k0 u = THREAD_SLEEPING \<and> fired \<noteq> Some u"
    and ok: "timers_ok ts"
    and tm: "\<And>u. case fired of
               Some t \<Rightarrow> u \<noteq> StackTimer t \<longrightarrow> same_timer (tmr ts u) (tmr (tims k) u)
             | None \<Rightarrow> same_timer (tmr ts u) (tmr (tims k) u)"
    and fd: "\<And>t. fired = Some t \<Longrightarrow> tm_node (tmr ts (StackTimer t)) = None"
  shows "tick_inv (k\<lparr>tims := ts\<rparr>)"
proof -
  let ?k = "k\<lparr>tims := ts\<rparr>"
  have st: "same_timer (tmr ts u) (tmr (tims k) u)" if "\<And>t. fired = Some t \<Longrightarrow> u \<noteq> StackTimer t" for u
    using tm [of u] that by (auto split: option.splits)
  have pre: "same_timer (tmr ts (PreemptTimer c)) (tmr (tims k) (PreemptTimer c))" for c
    by (rule st) simp
  have usr: "same_timer (tmr ts (UserTimer n)) (tmr (tims k) (UserTimer n))" for n
    by (rule st) simp
  have "inv_t ?k"
  proof (rule inv_t_update [OF sched_invD(6) [OF inv(1)]])
    fix u
    assume u: "live ?k u" "state_of ?k u = THREAD_SLEEPING"
    then have "fired \<noteq> Some u" using sl by simp
    then have "same_timer (tmr ts (StackTimer u)) (tmr (tims k) (StackTimer u))"
      by (intro st) auto
    then show "live k u \<and> state_of k u = THREAD_SLEEPING \<and>
        tmr (tims ?k) (StackTimer u) = tmr (tims k) (StackTimer u) \<or>
      tm_node (tmr (tims ?k) (StackTimer u)) \<noteq> None \<and>
      tm_callback (tmr (tims ?k) (StackTimer u)) = Some (thread_sleep_handler_cb u)"
      using sched_invD(6) [OF inv(1)] u by (auto simp: inv_t_def same_timer_def)
  qed (use pre ok in \<open>simp_all add: same_timer_def\<close>)
  then have "kinv ?k" by (rule sched_inv_tims [OF inv(1)])
  moreover have "pending_ok ?k"
    unfolding pending_ok_def
  proof (intro conjI allI impI)
    fix t
    assume n: "tm_node (tmr (tims ?k) (StackTimer t)) \<noteq> None"
    then have nf: "fired \<noteq> Some t" using fd by auto
    then have "same_timer (tmr ts (StackTimer t)) (tmr (tims k) (StackTimer t))" by (intro st) auto
    then show "live ?k t" "tm_periodic_time (tmr (tims ?k) (StackTimer t)) = 0"
      "tm_callback (tmr (tims ?k) (StackTimer t)) = Some (thread_sleep_handler_cb t) \<and>
         state_of ?k t = THREAD_SLEEPING \<or>
       tm_callback (tmr (tims ?k) (StackTimer t)) = Some (wait_queue_timeout_handler_cb t)"
      using inv(2) n lv sl nf k(1) by (auto simp: pending_ok_def same_timer_def)
  qed (use inv(2) pre usr k in \<open>auto simp: pending_ok_def same_timer_def\<close>)
  ultimately show ?thesis by (simp add: tick_inv_def)
qed

text \<open>One round of the loop: the state, the expired timers left, and that the rest of the loop follows.\<close>

definition tick_round :: "nat \<Rightarrow> lk_time_t \<Rightarrow> kstate \<Rightarrow> kstate \<Rightarrow> bool" where
  "tick_round cpu now k k' \<longleftrightarrow> tick_inv k' \<and> current k' = current k \<and>
     (\<forall>ph. phases_ok k ph \<longrightarrow> phases_ok k' ph) \<and>
     expired_count cpu now (tims k') < expired_count cpu now (tims k)"

lemma tick_stats: "tick_inv (upd_stats cpu f k) = tick_inv k"
  by (simp add: tick_inv_def inv_frame pending_ok_def)

lemma phases_stats: "phases_ok (upd_stats cpu f k) ph = phases_ok k ph"
  by (simp add: phases_ok_def phase_ok_def split: phase.split)

text \<open>Firing a timer leaves every thread in its phase.\<close>

lemma phases_ok_fire:
  assumes ph: "phases_ok k ph" and lv: "\<And>u. live k1 u = live k u"
    and wq: "\<And>w. wq_magic (wqs k1 w) = wq_magic (wqs k w)"
    and st: "\<And>u. state_of k1 u = state_of k u \<or>
       state_of k u \<in> {THREAD_BLOCKED, THREAD_SLEEPING} \<and> state_of k1 u = THREAD_READY"
    and tm: "\<And>u. tm_magic (tmr ts (StackTimer u)) = tm_magic (tmr (tims k) (StackTimer u))"
      "\<And>u. tm_node (tmr ts (StackTimer u)) \<in> {tm_node (tmr (tims k) (StackTimer u)), None}"
    and wake: "\<And>u. state_of k u = THREAD_SLEEPING \<Longrightarrow> state_of k1 u \<noteq> THREAD_SLEEPING \<Longrightarrow>
       tm_node (tmr ts (StackTimer u)) = None"
  shows "phases_ok (k1\<lparr>tims := ts\<rparr>) ph"
proof -
  have "phase_ok (k1\<lparr>tims := ts\<rparr>) u (ph u)" if "live k u" for u
  proof -
    have p: "phase_ok k u (ph u)" using ph that by (simp add: phases_ok_def)
    show ?thesis
      using p st [of u] tm(1) [of u] tm(2) [of u] wake [of u]
      by (cases "ph u") (auto simp: phase_ok_def split: if_splits)
  qed
  then show ?thesis using ph lv wq by (simp add: phases_ok_def)
qed

lemma round_stack:
  assumes inv: "tick_inv k" and hd: "peek_head cpu (tims k) = Some (StackTimer t)"
    and ex: "expired now (tims k) (StackTimer t)"
  shows "\<exists>k' ret'. tick_round cpu now k k' \<and>
           timer_tick_loop user cpu now (Suc fuel) ret k = timer_tick_loop user cpu now fuel ret' k'"
proof -
  let ?ts = "timer_list_delete (StackTimer t) (tims k)"
  define K where "K = upd_stats cpu (\<lambda>s. s\<lparr>timers_run := timers_run s + 1\<rparr>) k"
  have k: "kinv k" "pending_ok k" using inv by (simp_all add: tick_inv_def)
  have ok: "timers_ok (tims k)" using sched_invD(6) [OF k(1)] by (simp add: inv_t_def)
  note d = timer_delete_facts [OF ok hd]
  have K: "kinv K" "tims K = tims k" "current K = current k" "thr K = thr k" "wqs K = wqs k"
    using k(1) by (simp_all add: K_def inv_frame)
  obtain cb where cb: "tm_callback (tmr (tims k) (StackTimer t)) = Some cb" using d(8) by auto
  have p: "live k t" "tm_periodic_time (tmr (tims k) (StackTimer t)) = 0"
    "cb = thread_sleep_handler_cb t \<and> state_of k t = THREAD_SLEEPING \<or>
     cb = wait_queue_timeout_handler_cb t"
    using k(2) d(7) cb by (auto simp: pending_ok_def)
  have nsl: "state_of k t \<noteq> THREAD_SLEEPING" if "cb = wait_queue_timeout_handler_cb t"
    using sched_invD(6) [OF k(1)] p(1) cb that by (auto simp: inv_t_def)
  have "callback_ok cpu cb K"
    using p K callback_sleep [OF K(1)] callback_timeout [OF K(1)] by auto
  then obtain k1 r where k1: "\<And>ts. fire_callback user cpu now cb (K\<lparr>tims := ts\<rparr>) = Some (k1\<lparr>tims := ts\<rparr>, r)"
    "kinv k1" "tims k1 = tims k" "current k1 = current k"
    "\<And>u. live k1 u = live k u \<and> (state_of k1 u = THREAD_SLEEPING \<longleftrightarrow>
       state_of k u = THREAD_SLEEPING \<and> cb \<noteq> thread_sleep_handler_cb u)"
    "\<And>u. state_of k1 u = state_of k u \<or>
       state_of k u \<in> {THREAD_BLOCKED, THREAD_SLEEPING} \<and> state_of k1 u = THREAD_READY"
    "\<And>w. wq_magic (wqs k1 w) = wq_magic (wqs k w)"
    unfolding callback_ok_def K by blast
  let ?k' = "k1\<lparr>tims := ?ts\<rparr>"
  have "tick_inv ?k'"
  proof (rule tick_inv_timers [OF k1(2) k(2), where fired = "Some t"])
    fix u
    show "(state_of k1 u = THREAD_SLEEPING) = (state_of k u = THREAD_SLEEPING \<and> Some t \<noteq> Some u)"
      using k1(5) [of u] p(3) nsl by auto
  qed (use k1 d p in auto)
  moreover have "timer_tick_loop user cpu now (Suc fuel) ret k = timer_tick_loop user cpu now fuel
      (if r = INT_RESCHEDULE then INT_RESCHEDULE else ret) ?k'"
    using hd ex k1(1) [of ?ts] d(5,6,9) cb p(2)
    by (simp add: timer_tick_round_def expired_def tims_commute K_def [symmetric])
  moreover have "phases_ok ?k' ph" if "phases_ok k ph" for ph
  proof (rule phases_ok_fire [OF that])
    fix u
    show "tm_magic (tmr ?ts (StackTimer u)) = tm_magic (tmr (tims k) (StackTimer u))"
      "tm_node (tmr ?ts (StackTimer u)) \<in> {tm_node (tmr (tims k) (StackTimer u)), None}"
      using d(2,3,4) by (cases "u = t"; simp)+
    assume "state_of k u = THREAD_SLEEPING" "state_of k1 u \<noteq> THREAD_SLEEPING"
    then have "u = t" using k1(5) [of u] p(3) by auto
    then show "tm_node (tmr ?ts (StackTimer u)) = None" using d(2) by simp
  qed (use k1(5-7) in auto)
  ultimately show ?thesis
    using d(10) [OF ex] k1(4) by (auto simp: tick_round_def)
qed

lemma round_preempt:
  assumes inv: "tick_inv k" and hd: "peek_head cpu (tims k) = Some (PreemptTimer c)"
    and ex: "expired now (tims k) (PreemptTimer c)"
  shows "\<exists>k' ret'. tick_round cpu now k k' \<and>
           timer_tick_loop user cpu now (Suc fuel) ret k = timer_tick_loop user cpu now fuel ret' k'"
proof -
  let ?t = "PreemptTimer c"
  let ?ts = "timer_list_delete ?t (tims k)"
  let ?rq = "requeue_periodic cpu now ?t ?ts"
  define K where "K = upd_stats cpu (\<lambda>s. s\<lparr>timers_run := timers_run s + 1\<rparr>) k"
  have k: "kinv k" "pending_ok k" using inv by (simp_all add: tick_inv_def)
  have ok: "timers_ok (tims k)" using sched_invD(6) [OF k(1)] by (simp add: inv_t_def)
  note d = timer_delete_facts [OF ok hd]
  have K: "kinv K" "tims K = tims k" "current K = current k" "thr K = thr k" "wqs K = wqs k"
    using k(1) by (simp_all add: K_def inv_frame)
  have p: "c = cpu" "tm_periodic_time (tmr (tims k) ?t) = 10" "current k cpu \<noteq> None"
    and cb: "tm_callback (tmr (tims k) ?t) = Some thread_timer_tick_cb"
    using sched_invD(6) [OF k(1)] d(7) by (auto simp: inv_t_def preempt_timer_armed_def)
  have "callback_ok cpu thread_timer_tick_cb K"
    using p(3) K callback_preempt [OF K(1)] by auto
  then obtain k1 r where k1: "\<And>ts. fire_callback user cpu now thread_timer_tick_cb (K\<lparr>tims := ts\<rparr>) =
      Some (k1\<lparr>tims := ts\<rparr>, r)"
    "kinv k1" "tims k1 = tims k" "current k1 = current k"
    "\<And>u. live k1 u = live k u \<and> (state_of k1 u = THREAD_SLEEPING \<longleftrightarrow>
       state_of k u = THREAD_SLEEPING \<and> thread_timer_tick_cb \<noteq> thread_sleep_handler_cb u)"
    "\<And>u. state_of k1 u = state_of k u \<or>
       state_of k u \<in> {THREAD_BLOCKED, THREAD_SLEEPING} \<and> state_of k1 u = THREAD_READY"
    "\<And>w. wq_magic (wqs k1 w) = wq_magic (wqs k w)"
    unfolding callback_ok_def K by blast
  have rq: "timers_ok ?rq" "tmr ?rq ?t = (tmr ?ts ?t)\<lparr>tm_node := Some cpu,
        tm_scheduled_time := now + tm_periodic_time (tmr ?ts ?t)\<rparr>"
    "\<And>u. u \<noteq> ?t \<Longrightarrow> tmr ?rq u = tmr ?ts u" "expired_count cpu now ?rq = expired_count cpu now ?ts"
    using requeue_periodic_facts [OF d(1,2), where cpu = cpu and now = now] d(4-9) p(2) by auto
  let ?k' = "k1\<lparr>tims := ?rq\<rparr>"
  have sm: "same_timer (tmr ?rq u) (tmr (tims k) u)" for u
    using rq(2,3) d(3-7) by (cases "u = ?t") (simp_all add: same_timer_def)
  have "tick_inv ?k'"
    by (rule tick_inv_timers [OF k1(2) k(2), where fired = None]) (use k1 sm rq(1) in auto)
  moreover have "timer_tick_loop user cpu now (Suc fuel) ret k = timer_tick_loop user cpu now fuel
      (if r = INT_RESCHEDULE then INT_RESCHEDULE else ret) ?k'"
    using hd ex k1(1) [of ?ts] d(5,6,9) cb p(2)
    by (simp add: timer_tick_round_def expired_def tims_commute K_def [symmetric])
  moreover have "phases_ok ?k' ph" if "phases_ok k ph" for ph
    by (rule phases_ok_fire [OF that])
      (use k1(5-7) sm in \<open>auto simp: same_timer_def\<close>)
  ultimately show ?thesis
    using d(10) [OF ex] rq(4) k1(4) by (auto simp: tick_round_def)
qed

lemma tick_inv_user_timer:
  assumes inv: "tick_inv k" and ok: "timers_ok ts"
    and oth: "\<And>u. u \<noteq> UserTimer n \<Longrightarrow> tmr ts u = tmr (tims k) u"
    and us: "same_timer (tmr ts (UserTimer n)) (tmr (tims k) (UserTimer n)) \<or>
             tm_node (tmr ts (UserTimer n)) = None \<and> tm_periodic_time (tmr ts (UserTimer n)) = 0 \<or>
             tm_magic (tmr ts (UserTimer n)) = TIMER_MAGIC \<and>
             (\<exists>m. tm_callback (tmr ts (UserTimer n)) = Some (user_cb m)) \<and>
             tm_periodic_time (tmr ts (UserTimer n)) < 2 ^ 31"
  shows "tick_inv (k\<lparr>tims := ts\<rparr>)"
proof -
  have k: "kinv k" "pending_ok k" using inv by (simp_all add: tick_inv_def)
  have "inv_t (k\<lparr>tims := ts\<rparr>)"
    by (rule inv_t_update [OF sched_invD(6) [OF k(1)]]) (use ok oth in auto)
  then have "kinv (k\<lparr>tims := ts\<rparr>)" by (rule sched_inv_tims [OF k(1)])
  moreover have "pending_ok (k\<lparr>tims := ts\<rparr>)"
    unfolding pending_ok_def
  proof (intro conjI allI impI)
    fix m
    assume "tm_node (tmr (tims (k\<lparr>tims := ts\<rparr>)) (UserTimer m)) \<noteq> None \<or>
      0 < tm_periodic_time (tmr (tims (k\<lparr>tims := ts\<rparr>)) (UserTimer m))"
    then show "tm_magic (tmr (tims (k\<lparr>tims := ts\<rparr>)) (UserTimer m)) = TIMER_MAGIC"
      "\<exists>j. tm_callback (tmr (tims (k\<lparr>tims := ts\<rparr>)) (UserTimer m)) = Some (user_cb j)"
      using us oth [of "UserTimer m"] k(2)
      by (cases "m = n"; force simp: pending_ok_def same_timer_def)+
  next
    fix m
    show "tm_periodic_time (tmr (tims (k\<lparr>tims := ts\<rparr>)) (UserTimer m)) < 2 ^ 31"
      using us oth [of "UserTimer m"] k(2) by (cases "m = n") (auto simp: pending_ok_def same_timer_def)
  qed (use k(2) oth in \<open>auto simp: pending_ok_def\<close>)
  ultimately show ?thesis by (simp add: tick_inv_def)
qed

lemma round_user:
  assumes inv: "tick_inv k" and usr: "user_ok user" and hd: "peek_head cpu (tims k) = Some (UserTimer n)"
    and ex: "expired now (tims k) (UserTimer n)"
  shows "\<exists>k' ret'. tick_round cpu now k k' \<and>
           timer_tick_loop user cpu now (Suc fuel) ret k = timer_tick_loop user cpu now fuel ret' k'"
proof -
  let ?t = "UserTimer n"
  let ?ts = "timer_list_delete ?t (tims k)"
  define K where "K = upd_stats cpu (\<lambda>s. s\<lparr>timers_run := timers_run s + 1\<rparr>) k"
  have k: "kinv k" "pending_ok k" using inv by (simp_all add: tick_inv_def)
  have ok: "timers_ok (tims k)" using sched_invD(6) [OF k(1)] by (simp add: inv_t_def)
  note d = timer_delete_facts [OF ok hd]
  have K: "kinv K" "pending_ok K" "tims K = tims k" "current K = current k"
    using k by (simp_all add: K_def inv_frame pending_ok_def)
  obtain m where cb: "tm_callback (tmr (tims k) ?t) = Some (user_cb m)"
    using k(2) d(7) by (auto simp: pending_ok_def)
  have per: "tm_periodic_time (tmr (tims k) ?t) < 2 ^ 31" using k(2) by (simp add: pending_ok_def)
  have "tick_inv K" using K(1,2) by (simp add: tick_inv_def)
  then have iK: "tick_inv (K\<lparr>tims := ?ts\<rparr>)"
    by (rule tick_inv_user_timer [where n = n]) (use d per cb K in auto)
  obtain k1 r where k1: "user m cpu now (K\<lparr>tims := ?ts\<rparr>) = Some (k1, r)" "tick_inv k1"
    "current k1 = current k" "\<And>ph. phases_ok (K\<lparr>tims := ?ts\<rparr>) ph \<Longrightarrow> phases_ok k1 ph"
    "expired_count cpu now (tims k1) \<le> expired_count cpu now ?ts"
    using usr [unfolded user_ok_def, rule_format, OF iK, of m cpu now] K by auto
  let ?per = "tm_periodic_time (tmr (tims k) ?t) > 0"
  let ?k' = "if ?per then k1\<lparr>tims := requeue_periodic cpu now ?t (tims k1)\<rparr> else k1"
  let ?tm = "tmr (tims k1) ?t" and ?rq = "requeue_periodic cpu now ?t (tims k1)"
  have k1i: "kinv k1" "pending_ok k1" using k1(2) by (simp_all add: tick_inv_def)
  have ok1: "timers_ok (tims k1)" using sched_invD(6) [OF k1i(1)] by (simp add: inv_t_def)
  have rq: "tick_inv (k1\<lparr>tims := ?rq\<rparr>) \<and> expired_count cpu now ?rq = expired_count cpu now (tims k1)"
  proof (cases "tm_node ?tm = None \<and> tm_periodic_time ?tm > 0")
    case True
    have p: "tm_magic ?tm = TIMER_MAGIC" "\<exists>m. tm_callback ?tm = Some (user_cb m)"
      "tm_periodic_time ?tm < 2 ^ 31"
      using k1i(2) True unfolding pending_ok_def by blast+
    note f = requeue_periodic_facts [OF ok1, where t = ?t and cpu = cpu and now = now]
    have f: "timers_ok ?rq" "tmr ?rq ?t = ?tm\<lparr>tm_node := Some cpu,
        tm_scheduled_time := now + tm_periodic_time ?tm\<rparr>"
      "\<And>u. u \<noteq> ?t \<Longrightarrow> tmr ?rq u = tmr (tims k1) u"
      "expired_count cpu now ?rq = expired_count cpu now (tims k1)"
      using f True p by auto
    have "tick_inv (k1\<lparr>tims := ?rq\<rparr>)"
      by (rule tick_inv_user_timer [OF k1(2) f(1), where n = n]) (use f p in auto)
    with f(4) show ?thesis by simp
  next
    case False
    then have "?rq = tims k1" by (auto simp: requeue_periodic_def)
    then show ?thesis using k1(2) by simp
  qed
  then have "tick_inv ?k' \<and> expired_count cpu now (tims ?k') = expired_count cpu now (tims k1)"
    using k1(2) by simp
  moreover have "timer_tick_loop user cpu now (Suc fuel) ret k = timer_tick_loop user cpu now fuel
      (if r = INT_RESCHEDULE then INT_RESCHEDULE else ret) ?k'"
    using hd ex k1(1) d(5,6,9) cb
    by (simp add: timer_tick_round_def expired_def tims_commute K_def [symmetric] fire_callback_def)
  moreover have phs: "phases_ok ?k' ph" if "phases_ok k ph" for ph
  proof -
    have "tmr ?ts (StackTimer u) = tmr (tims k) (StackTimer u)" for u using d(3) by simp
    then have "phases_ok (K\<lparr>tims := ?ts\<rparr>) ph"
      using that by (auto simp: phases_ok_def phase_ok_def K_def split: phase.splits)
    from k1(4) [OF this] show ?thesis
      by (auto simp: phases_ok_def phase_ok_def requeue_periodic_def insert_timer_in_queue_def
          split: phase.splits)
  qed
  ultimately show ?thesis
    using d(10) [OF ex] k1(3,5) by (intro exI [of _ ?k'] exI conjI) (auto simp: tick_round_def)
qed

lemma tick_round_ok:
  assumes "tick_inv k" "user_ok user" "peek_head cpu (tims k) = Some t" "expired now (tims k) t"
  shows "\<exists>k' ret'. tick_round cpu now k k' \<and>
           timer_tick_loop user cpu now (Suc fuel) ret k = timer_tick_loop user cpu now fuel ret' k'"
  using round_stack [OF assms(1)] round_preempt [OF assms(1)] round_user [OF assms(1,2)] assms(3,4)
  by (cases t) blast+

section \<open>The whole interrupt\<close>

lemma timer_tick_loop_ok:
  assumes "tick_inv k" "user_ok user" "expired_count cpu now (tims k) < fuel"
  shows "\<exists>k' r. timer_tick_loop user cpu now fuel ret k = Some (k', r) \<and> tick_inv k' \<and>
           current k' = current k \<and> (\<forall>ph. phases_ok k ph \<longrightarrow> phases_ok k' ph) \<and>
           (\<forall>t. peek_head cpu (tims k') = Some t \<longrightarrow> \<not> expired now (tims k') t)"
  using assms
proof (induction fuel arbitrary: k ret)
  case 0
  then show ?case by simp
next
  case (Suc fuel)
  show ?case
  proof (cases "\<exists>t. peek_head cpu (tims k) = Some t \<and> expired now (tims k) t")
    case True
    then obtain t where t: "peek_head cpu (tims k) = Some t" "expired now (tims k) t" by blast
    from tick_round_ok [OF Suc.prems(1,2) t, of fuel ret] obtain k' ret' where k': "tick_round cpu now k k'"
      "timer_tick_loop user cpu now (Suc fuel) ret k = timer_tick_loop user cpu now fuel ret' k'" by blast
    have "tick_inv k'" "expired_count cpu now (tims k') < fuel"
      using k'(1) Suc.prems(3) by (auto simp: tick_round_def)
    from Suc.IH [OF this(1) Suc.prems(2) this(2), of ret'] obtain k'' r where
      "timer_tick_loop user cpu now fuel ret' k' = Some (k'', r)" "tick_inv k''"
      "current k'' = current k'" "\<forall>ph. phases_ok k' ph \<longrightarrow> phases_ok k'' ph"
      "\<forall>t. peek_head cpu (tims k'') = Some t \<longrightarrow> \<not> expired now (tims k'') t" by blast
    with k' show ?thesis unfolding tick_round_def by auto
  next
    case False
    then have "timer_tick_loop user cpu now (Suc fuel) ret k = Some (k, ret)"
      by (auto simp: expired_def split: option.splits)
    then show ?thesis using Suc.prems(1) False by auto
  qed
qed

text \<open>
  After the loop the timer at the head of the queue has not expired. It is due at most half
  the range of the clock from now; exactly half the range is both not before and not after
  now, and the handler's last assertion fails for it.
\<close>

definition tick_end :: "nat \<Rightarrow> lk_time_t \<Rightarrow> kstate \<Rightarrow> kstate option" where
  "tick_end cpu now k =
     (case peek_head cpu (tims k) of
        None \<Rightarrow> Some k
      | Some t \<Rightarrow>
          if sched_time (tims k) t - now = 2 ^ 31 then None
          else Some (k\<lparr>tims := platform_set_oneshot_timer cpu (sched_time (tims k) t - now) (tims k)\<rparr>))"

lemma opposite_not_gt: "s - now = (2 ^ 31 :: lk_time_t) \<Longrightarrow> \<not> TIME_GT s now"
  by (simp add: TIME_GT_def)

lemma tick_end_inv:
  assumes inv: "tick_inv k" and e: "tick_end cpu now k = Some k'"
  shows "tick_inv k'" "current k' = current k" "phases_ok k' ph = phases_ok k ph"
    "tmr (tims k') = tmr (tims k)" "timer_queue (tims k') = timer_queue (tims k)"
proof -
  obtain ts where k': "k' = k\<lparr>tims := ts\<rparr>" and ts: "tmr ts = tmr (tims k)"
    "timer_queue ts = timer_queue (tims k)"
    using e that [of "tims k"]
    by (auto simp: tick_end_def platform_set_oneshot_timer_def split: option.splits if_splits)
  have "timers_ok (tims k)" using inv sched_invD(6) unfolding tick_inv_def inv_t_def by blast
  then have "timers_ok ts" using ts by (simp add: timers_ok_def)
  then show "tick_inv k'"
    unfolding k' using ts by (intro tick_inv_user_timer [OF inv, where n = 0]) simp_all
  show "phases_ok k' ph = phases_ok k ph"
    by (simp add: k' phases_ok_def phase_ok_def ts split: phase.split)
qed (use e in \<open>auto simp: tick_end_def platform_set_oneshot_timer_def split: option.splits if_splits\<close>)

theorem timer_tick_ok:
  assumes inv: "tick_inv k" and usr: "user_ok user"
    and fuel: "length (timer_queue (tims k) cpu) < fuel"
  shows "\<exists>k1 r. timer_tick_loop user cpu now fuel INT_NO_RESCHEDULE
             (upd_stats cpu (\<lambda>s. s\<lparr>timer_ints := timer_ints s + 1\<rparr>) k) = Some (k1, r) \<and>
           tick_inv k1 \<and> current k1 = current k \<and> (\<forall>ph. phases_ok k ph \<longrightarrow> phases_ok k1 ph) \<and>
           (\<forall>t. peek_head cpu (tims k1) = Some t \<longrightarrow> TIME_LT now (sched_time (tims k1) t)) \<and>
           timer_tick user cpu now fuel k = map_option (\<lambda>k'. (k', r)) (tick_end cpu now k1)"
proof -
  let ?k = "upd_stats cpu (\<lambda>s. s\<lparr>timer_ints := timer_ints s + 1\<rparr>) k"
  have "expired_count cpu now (tims ?k) < fuel"
    using fuel length_filter_le order_le_less_trans unfolding expired_count_def by (simp, blast)
  from timer_tick_loop_ok [OF _ usr this, of INT_NO_RESCHEDULE] inv obtain k1 r where
    k1: "timer_tick_loop user cpu now fuel INT_NO_RESCHEDULE ?k = Some (k1, r)" "tick_inv k1"
    "current k1 = current k" "\<forall>ph. phases_ok k ph \<longrightarrow> phases_ok k1 ph"
    and hd: "\<And>t. peek_head cpu (tims k1) = Some t \<Longrightarrow> TIME_LT now (sched_time (tims k1) t)"
    by (auto simp: tick_stats phases_stats expired_def)
  have "TIME_GT (sched_time (tims k1) t) now \<longleftrightarrow> sched_time (tims k1) t - now \<noteq> 2 ^ 31"
    if "peek_head cpu (tims k1) = Some t" for t
    using not_lt_opposite [OF hd [OF that]] opposite_not_gt by blast
  then have "timer_tick user cpu now fuel k = map_option (\<lambda>k'. (k', r)) (tick_end cpu now k1)"
    using k1(1) by (simp add: timer_tick_def tick_end_def split: option.split)
  with k1 hd show ?thesis by blast
qed

end
