(* ===== verification/Kernel_Cpu.thy ===== *)
theory Kernel_Cpu
  imports Kernel_Life
begin

text \<open>
  The other cpus: the threads \<^verbatim>\<open>lk_init_secondary_cpus\<close> prepares for them, pinning, and
  what a secondary cpu does when it enters the kernel (\<^verbatim>\<open>lk_secondary_cpu_entry\<close> of
  \<^verbatim>\<open>top/main.c\<close>, with the two functions of \<^verbatim>\<open>kernel/thread.c\<close> it calls). Each keeps
  the scheduler's invariant; afterwards the cpu runs threads like the boot cpu.
\<close>

section \<open>Bringing up the other cpus\<close>

text \<open>
  One round of the loop of \<^verbatim>\<open>lk_init_secondary_cpus\<close>, for cpu \<open>i + 1\<close>: \<open>m_struct\<close>
  and \<open>m_stack\<close> are what \<^verbatim>\<open>malloc\<close> returns for the structure and the stack,
  \<open>entry\<close> is the address of \<^verbatim>\<open>secondary_cpu_bootstrap2\<close>. The source does not
  check the pointer \<^verbatim>\<open>thread_create\<close> returns.
\<close>

definition secondary_bootstrap_thread ::
  "nat \<Rightarrow> nat \<Rightarrow> tid option \<Rightarrow> nat option \<Rightarrow> nat \<Rightarrow> nat \<Rightarrow> kstate \<Rightarrow> (tid \<times> kstate) option" where
  "secondary_bootstrap_thread cpu i m_struct m_stack entry stack_size k = do {
     (t, k) \<leftarrow> thread_create cpu m_struct m_stack ''secondarybootstrap2'' entry 0 DEFAULT_PRIORITY stack_size k;
     t \<leftarrow> t;
     let k = thread_set_pinned_cpu t (int i + 1) k;
     (_, k) \<leftarrow> thread_detach cpu t k;
     Some (t, k)
   }"

text \<open>The loop; the result is the array \<^verbatim>\<open>secondary_bootstrap_threads\<close> up to its count.\<close>

primrec secondary_bootstrap_loop ::
  "nat \<Rightarrow> (nat \<Rightarrow> tid option \<times> nat option) \<Rightarrow> nat \<Rightarrow> nat \<Rightarrow> nat \<Rightarrow> kstate \<Rightarrow> (tid list \<times> kstate) option" where
  "secondary_bootstrap_loop cpu mem entry stack_size 0 k = Some ([], k)"
| "secondary_bootstrap_loop cpu mem entry stack_size (Suc n) k = do {
     (ts, k) \<leftarrow> secondary_bootstrap_loop cpu mem entry stack_size n k;
     (t, k) \<leftarrow> secondary_bootstrap_thread cpu n (fst (mem n)) (snd (mem n)) entry stack_size k;
     Some (ts @ [t], k)
   }"

definition lk_init_secondary_cpus ::
  "nat \<Rightarrow> nat \<Rightarrow> nat \<Rightarrow> (nat \<Rightarrow> tid option \<times> nat option) \<Rightarrow> nat \<Rightarrow> nat \<Rightarrow> kstate \<Rightarrow> (tid list \<times> kstate) option"
where
  "lk_init_secondary_cpus SMP_MAX_CPUS cpu secondary_cpu_count mem entry stack_size k =
     (let n = (if secondary_cpu_count \<ge> SMP_MAX_CPUS then SMP_MAX_CPUS - 1 else secondary_cpu_count)
      in secondary_bootstrap_loop cpu mem entry stack_size n k)"

text \<open>
  A cpu enters the kernel, with interrupts off; one without a bootstrap thread returns to
  the architecture's code. The boot cpu never comes here (it would read before the array).
\<close>

definition lk_secondary_cpu_entry :: "nat \<Rightarrow> string \<Rightarrow> tid list \<Rightarrow> kstate \<Rightarrow> kstate option" where
  "lk_secondary_cpu_entry cpu nm threads k =
     (if cpu > length threads then Some k
      else if cpu = 0 then None
      else do {
        let k = thread_secondary_cpu_init_early cpu nm k;
        (_, k) \<leftarrow> thread_resume cpu True (threads ! (cpu - 1)) k;
        thread_secondary_cpu_entry cpu k
      })"

section \<open>They keep the invariant\<close>

text \<open>
  A cpu that has not entered the kernel yet: it runs no thread, its idle thread's structure
  is unused, and its number is below \<^verbatim>\<open>SMP_MAX_CPUS\<close>, so that \<open>thread_init\<close>
  has initialised its preemption timer.
\<close>

definition fresh_cpu :: "nat \<Rightarrow> kstate \<Rightarrow> bool" where
  "fresh_cpu cpu k \<longleftrightarrow> current k cpu = None \<and> \<not> live k (Idle cpu) \<and>
     wq_list (wqs k (RetcodeWq (Idle cpu))) = [] \<and>
     tm_magic (tmr (tims k) (PreemptTimer cpu)) = TIMER_MAGIC"

lemma secondary_init_simps:
  fixes cpu :: nat and nm :: string and k :: kstate
  defines "k' \<equiv> thread_secondary_cpu_init_early cpu nm k"
  shows "run_queue k' = run_queue k" "run_queue_bitmap k' = run_queue_bitmap k" "tims k' = tims k"
    "clock k' = clock k" "current k' = (current k)(cpu \<mapsto> Idle cpu)"
    "wqs k' = (wqs k)(RetcodeWq (Idle cpu) := WAIT_QUEUE_INITIAL_VALUE)"
    "u \<noteq> Idle cpu \<Longrightarrow> thr k' u = thr k u"
    "tview (thr k' (Idle cpu)) = (THREAD_MAGIC, Unlinked, 31, THREAD_RUNNING, 17, int cpu, int cpu, None, [])"
  by (simp_all add: k'_def thread_secondary_cpu_init_early_def Let_def wait_queue_init_def upd_wq_def
      init_thread_struct_def tview_def lk_defs fun_eq_iff)

lemma secondary_init_inv:
  assumes inv: "kinv k" and fr: "fresh_cpu cpu k"
  shows "kinv (thread_secondary_cpu_init_early cpu nm k)" (is "kinv ?k")
proof (rule sched_invI)
  note parts = sched_invD [OF inv] and s = secondary_init_simps [where cpu = cpu and nm = nm and k = k]
  let ?i = "Idle cpu"
  have f: "current k cpu = None" "\<not> live k ?i" "wq_list (wqs k (RetcodeWq ?i)) = []"
    "tm_magic (tmr (tims k) (PreemptTimer cpu)) = TIMER_MAGIC"
    using fr by (simp_all add: fresh_cpu_def)
  define T where "T = thr ?k ?i"
  have th: "thr ?k u = (if u = ?i then T else thr k u)" for u using s(7) by (simp add: T_def)
  have T: "t_magic T = THREAD_MAGIC" "t_queue_node T = Unlinked" "t_priority T = 31"
    "t_state T = THREAD_RUNNING" "t_curr_cpu T = int cpu" "t_pinned_cpu T = int cpu"
    "t_blocking_wait_queue T = None" "thread_is_idle T" "thread_is_real_time_or_idle T"
    "stack_guard_intact T"
    using s(8) by (simp_all add: T_def tview_def thread_is_idle_def thread_is_real_time_or_idle_def
        has_flag_def stack_guard_intact_def lk_defs)
  have nd: "node_of k ?i = Unlinked"
    using parts(1,2) f(2) by (cases "node_of k ?i") (auto simp: inv_q_def inv_w_def)
  have noc: "\<And>c. current k c = Some ?i \<Longrightarrow> False" using inv_c_outside [OF parts(3)] f(2) by fastforce
  have now: "node_of k u \<noteq> WaitQ (RetcodeWq ?i)" for u
    using parts(2) f(3) unfolding inv_w_def by (metis empty_iff empty_set)
  have nop: "tm_node (tmr (tims k) (PreemptTimer cpu)) = None"
    using parts(6) f(1) unfolding inv_t_def by blast
  have c: "current ?k c = (if c = cpu then Some ?i else current k c)" for c by (simp add: s(5))
  show "inv_q ?k" using parts(1) nd T unfolding inv_q_def s(1,2) by (auto simp: th)
  show "inv_w ?k"
    using parts(2) nd T f(3) now unfolding inv_w_def s(6)
    by (auto simp: th WAIT_QUEUE_INITIAL_VALUE_def)
  show "inv_c {} ?k"
    using parts(3) T noc f(1) unfolding inv_c_def
    by (auto simp: th c NUM_PRIORITIES_def) (metis option.distinct(1))
  show "inv_r {} ?k" using parts(4) T unfolding inv_r_def by (auto simp: th)
  show "inv_i ?k"
    using parts(5) T noc unfolding inv_i_def by (auto simp: th c NUM_PRIORITIES_def)
  show "inv_t ?k"
    using parts(6) T noc nop f(1,4) unfolding inv_t_def s(3) by (auto simp: th c)
  show "inv_g ?k" using parts(7) T unfolding inv_g_def by (auto simp: th)
qed

text \<open>The priority of the thread a cpu runs is read only when it leaves the cpu.\<close>

lemma running_priority_inv:
  assumes inv: "kinv k" and cur: "current k cpu = Some t" and p: "0 \<le> p" "p < NUM_PRIORITIES"
  shows "kinv (upd_thread t (\<lambda>th. th\<lparr>t_priority := p\<rparr>) k)" 
proof -
  define K where "K = upd_thread t (\<lambda>th. th\<lparr>t_priority := p\<rparr>) k"
  note parts = sched_invD [OF inv] and run = running_facts [OF inv cur]
  define T where "T = (thr k t)\<lparr>t_priority := p\<rparr>"
  have th: "thr K u = (if u = t then T else thr k u)" for u by (simp add: K_def T_def)
  have f: "run_queue K = run_queue k" "run_queue_bitmap K = run_queue_bitmap k" "current K = current k"
    "wqs K = wqs k" "tims K = tims k"
    by (simp_all add: K_def)
  have T: "t_magic T = t_magic (thr k t)" "t_queue_node T = Unlinked" "t_priority T = p"
    "t_state T = THREAD_RUNNING" "t_curr_cpu T = t_curr_cpu (thr k t)"
    "t_pinned_cpu T = t_pinned_cpu (thr k t)" "t_blocking_wait_queue T = t_blocking_wait_queue (thr k t)"
    "thread_is_idle T = is_idle k t"
    "thread_is_real_time_or_idle T = thread_is_real_time_or_idle (thr k t)"
    "stack_guard_intact T = stack_guard_intact (thr k t)"
    using run by (simp_all add: T_def thread_is_idle_def thread_is_real_time_or_idle_def has_flag_def
        stack_guard_intact_def)
  have "kinv K"
  proof (rule sched_invI)
    show "inv_q K" using parts(1) run T unfolding inv_q_def f by (auto simp: th)
    show "inv_w K" using parts(2) run T unfolding inv_w_def f by (auto simp: th)
    show "inv_c {} K" using parts(3) run T p unfolding inv_c_def f by (auto simp: th)
    show "inv_r {} K" using parts(4) run T unfolding inv_r_def by (auto simp: th)
    show "inv_i K" using parts(5) run T p unfolding inv_i_def f by (auto simp: th)
    show "inv_t K" using parts(6) run T unfolding inv_t_def f by (auto simp: th)
    show "inv_g K" using parts(7) run T unfolding inv_g_def by (auto simp: th)
  qed
  then show ?thesis by (simp only: K_def)
qed

text \<open>The state in which \<^verbatim>\<open>thread_secondary_cpu_entry\<close> yields.\<close>

definition cpu_entered :: "nat \<Rightarrow> tid \<Rightarrow> kstate \<Rightarrow> kstate" where
  "cpu_entered cpu t k = mp_set_cpu_idle cpu (mp_set_curr_cpu_active cpu True
     (upd_thread t (\<lambda>th. th\<lparr>t_priority := IDLE_PRIORITY\<rparr>) k))"

lemma mp_set_inv [inv_frame]:
  "sched_inv C X (mp_set_curr_cpu_active c a k) = sched_inv C X k"
  "sched_inv C X (mp_set_cpu_idle c k) = sched_inv C X k"
  by (simp_all add: sched_inv_def inv_defs)

theorem secondary_entry_ok:
  assumes inv: "kinv k" and cur: "current k cpu = Some t"
  shows "rescheduled cpu (cpu_entered cpu t k) (thread_secondary_cpu_entry cpu k)"
proof -
  have "kinv (cpu_entered cpu t k)"
    using running_priority_inv [OF inv cur, of IDLE_PRIORITY] by (simp add: cpu_entered_def inv_frame lk_defs)
  moreover have "current (cpu_entered cpu t k) cpu = Some t" using cur by (simp add: cpu_entered_def)
  ultimately show ?thesis
    using thread_yield_ok [of "cpu_entered cpu t k" cpu t] cur
    by (simp add: thread_secondary_cpu_entry_def cpu_entered_def)
qed

theorem set_pinned_inv:
  assumes inv: "kinv k" and t: "\<And>c. current k c \<noteq> Some t" "\<And>c. t \<noteq> Idle c"
  shows "kinv (thread_set_pinned_cpu t p k)" (is "kinv ?k")
proof (rule sched_invI)
  note parts = sched_invD [OF inv]
  define T where "T = (thr k t)\<lparr>t_pinned_cpu := p\<rparr>"
  have th: "thr ?k u = (if u = t then T else thr k u)" for u by (simp add: T_def thread_set_pinned_cpu_def)
  have f: "run_queue ?k = run_queue k" "run_queue_bitmap ?k = run_queue_bitmap k"
    "current ?k = current k" "wqs ?k = wqs k" "tims ?k = tims k"
    by (simp_all add: thread_set_pinned_cpu_def)
  have T: "t_magic T = t_magic (thr k t)" "t_queue_node T = node_of k t"
    "t_priority T = t_priority (thr k t)" "t_state T = state_of k t"
    "t_blocking_wait_queue T = t_blocking_wait_queue (thr k t)" "thread_is_idle T = is_idle k t"
    "thread_is_real_time_or_idle T = thread_is_real_time_or_idle (thr k t)"
    "stack_guard_intact T = stack_guard_intact (thr k t)"
    by (simp_all add: T_def thread_is_idle_def thread_is_real_time_or_idle_def has_flag_def
        stack_guard_intact_def)
  have noc: "\<And>c. current k c = Some t \<Longrightarrow> False" using t(1) by simp
  have noi: "\<And>c. t = Idle c \<Longrightarrow> False" using t(2) by simp
  show "inv_q ?k" using parts(1) T unfolding inv_q_def f by (auto simp: th)
  show "inv_w ?k" using parts(2) T unfolding inv_w_def f by (auto simp: th)
  show "inv_c {} ?k" using parts(3) T noc unfolding inv_c_def f by (auto simp: th)
  show "inv_r {} ?k" using parts(4) T unfolding inv_r_def by (auto simp: th)
  show "inv_i ?k" using parts(5) T noi unfolding inv_i_def f by (auto simp: th)
  show "inv_t ?k" using parts(6) T noc unfolding inv_t_def f by (auto simp: th)
  show "inv_g ?k" using parts(7) T unfolding inv_g_def by (auto simp: th)
qed

text \<open>Detaching a dead thread tells the joiners and does what a join would have done.\<close>

theorem thread_detach_dead:
  assumes inv: "kinv k" and cur: "current k cpu = Some self"
    and t: "live k t" "state_of k t = THREAD_DEATH"
    and m: "wq_magic (wqs k (RetcodeWq t)) = WAIT_QUEUE_MAGIC"
  shows "\<exists>k1 k'. thread_detach cpu t k = Some (Returns NO_ERROR, k') \<and> kinv k' \<and>
           quiet cpu (unblock_all (RetcodeWq t) ERR_THREAD_DETACHED k) k1 \<and> live k1 t \<and>
           state_of k1 t = THREAD_DEATH \<and> \<not> live k' t \<and> wqs k' = wqs k1 \<and> tims k' = tims k1 \<and>
           (\<forall>u. u \<noteq> t \<longrightarrow> thr k' u = thr k1 u)"
proof -
  obtain k1 where k1: "wait_queue_wake_all cpu (RetcodeWq t) False ERR_THREAD_DETACHED k =
      Some (int (length (wq_list (wqs k (RetcodeWq t)))), k1)" "kinv k1"
    "quiet cpu (unblock_all (RetcodeWq t) ERR_THREAD_DETACHED k) k1"
    using wait_queue_wake_all_ok [OF inv cur m, of False] by auto
  have nw: "t \<notin> set (wq_list (wqs k (RetcodeWq t)))"
    using waiting_facts(3) [OF inv, of t "RetcodeWq t"] t(2) by auto
  then have "thr (unblock_all (RetcodeWq t) ERR_THREAD_DETACHED k) t = thr k t"
    by (simp add: unblock_all_def)
  then have d: "live k1 t" "state_of k1 t = THREAD_DEATH"
    using quietD(4) [OF k1(3), of t] quiet_state [OF k1(3), of THREAD_DEATH t] t by simp_all
  let ?k = "upd_thread t (\<lambda>th. th\<lparr>t_flags := t_flags th AND NOT THREAD_FLAG_DETACHED\<rparr>) k1"
  have "kinv ?k" using k1(2) by (simp add: sched_inv_detached_flag)
  moreover have "\<not> has_flag THREAD_FLAG_DETACHED (thr ?k t)"
    unfolding has_flag_bits by (simp add: bit_and_iff bit_not_iff THREAD_FLAG_DETACHED_def)
  ultimately obtain k' where "thread_join cpu t 0 ?k = Some (Returns (NO_ERROR, Some (t_retcode (thr ?k t))), k')"
    "kinv k'" "\<not> live k' t" "wqs k' = wqs ?k" "tims k' = tims ?k" "\<forall>u. u \<noteq> t \<longrightarrow> thr k' u = thr ?k u"
    using thread_join_dead [of ?k t cpu 0] d by auto
  then show ?thesis
    using k1 d t(1) by (intro exI [of _ k1] exI [of _ k']) (simp add: thread_detach_def)
qed

text \<open>The threads for the other cpus: suspended, pinned, detached.\<close>

lemma detach_suspended:
  assumes inv: "kinv k" and cur: "current k cpu = Some self"
    and t: "live k t" "state_of k t = THREAD_SUSPENDED"
    and m: "wq_magic (wqs k (RetcodeWq t)) = WAIT_QUEUE_MAGIC"
  shows "\<exists>k'. thread_detach cpu t k = Some (Returns NO_ERROR, k') \<and> kinv k' \<and> current k' = current k \<and>
           live k' t \<and> state_of k' t = THREAD_SUSPENDED \<and>
           t_pinned_cpu (thr k' t) = t_pinned_cpu (thr k t) \<and> t_priority (thr k' t) = t_priority (thr k t)"
proof -
  let ?f = "\<lambda>th. th\<lparr>t_flags := t_flags th OR THREAD_FLAG_DETACHED\<rparr>"
  obtain k1 k' where k': "thread_detach cpu t k = Some (Returns NO_ERROR, k')" "kinv k'"
    "k' = upd_thread t ?f k1" "current k' = current k"
    "quiet cpu (unblock_all (RetcodeWq t) ERR_THREAD_DETACHED k) k1"
    using thread_detach_live [OF inv cur t(1) _ m] t(2) by auto
  have nw: "t \<notin> set (wq_list (wqs k (RetcodeWq t)))"
    using waiting_facts(3) [OF inv, of t "RetcodeWq t"] t(2) by auto
  have "thr (unblock_all (RetcodeWq t) ERR_THREAD_DETACHED k) t = thr k t"
    using nw by (simp add: unblock_all_def)
  then have "wview (thr k1 t) = wview (thr k t)" "state_of k1 t = THREAD_SUSPENDED"
    using quietD(3) [OF k'(5), of t] quiet_state [OF k'(5), of THREAD_SUSPENDED t] t(2) by simp_all
  then show ?thesis using k' t(1) by (auto simp: wview_def)
qed

theorem secondary_bootstrap_thread_ok:
  assumes inv: "kinv k" and cur: "current k cpu = Some self" and fr: "fresh_thread t k"
  shows "\<exists>k'. secondary_bootstrap_thread cpu i (Some t) (Some s) entry sz k = Some (t, k') \<and> kinv k' \<and>
           current k' = current k \<and> live k' t \<and> state_of k' t = THREAD_SUSPENDED \<and>
           t_pinned_cpu (thr k' t) = int i + 1 \<and> t_priority (thr k' t) = DEFAULT_PRIORITY"
proof -
  obtain k1 where k1: "thread_create cpu (Some t) (Some s) ''secondarybootstrap2'' entry 0
      DEFAULT_PRIORITY sz k = Some (Some t, k1)" "new_thread t DEFAULT_PRIORITY k k1" "kinv k1"
    using thread_create_etc_ok [OF inv cur _ fr, of "Some t" None None "Some s" "''secondarybootstrap2''" entry
        0 DEFAULT_PRIORITY sz]
    by (auto simp: thread_create_def create_target_def)
  have n: "live k1 t" "state_of k1 t = THREAD_SUSPENDED" "current k1 = current k"
    "t_priority (thr k1 t) = DEFAULT_PRIORITY" "wq_magic (wqs k1 (RetcodeWq t)) = WAIT_QUEUE_MAGIC"
    using k1(2) by (auto simp: new_thread_def WAIT_QUEUE_INITIAL_VALUE_def)
  let ?k = "thread_set_pinned_cpu t (int i + 1) k1"
  have p: "kinv ?k"
    using set_pinned_inv [OF k1(3), of t] fresh_facts(2,3) [OF inv fr] n(3) by simp
  have "current ?k cpu = Some self" "live ?k t" "state_of ?k t = THREAD_SUSPENDED"
    "wq_magic (wqs ?k (RetcodeWq t)) = WAIT_QUEUE_MAGIC"
    using n cur by (simp_all add: thread_set_pinned_cpu_def)
  from detach_suspended [OF p this] obtain k' where
    "thread_detach cpu t ?k = Some (Returns NO_ERROR, k')" "kinv k'" "current k' = current ?k"
    "live k' t" "state_of k' t = THREAD_SUSPENDED" "t_pinned_cpu (thr k' t) = t_pinned_cpu (thr ?k t)"
    "t_priority (thr k' t) = t_priority (thr ?k t)" by blast
  then show ?thesis
    using k1(1) n by (simp add: secondary_bootstrap_thread_def) (simp add: thread_set_pinned_cpu_def)
qed

text \<open>A cpu with a suspended bootstrap thread enters the scheduler.\<close>

theorem lk_secondary_cpu_entry_ok:
  assumes inv: "kinv k" and fr: "fresh_cpu cpu k" and c: "0 < cpu" "cpu \<le> length threads"
    and t: "t = threads ! (cpu - 1)" "live k t" "state_of k t = THREAD_SUSPENDED"
      "0 \<le> t_priority (thr k t)" "t_priority (thr k t) < NUM_PRIORITIES"
  shows "\<exists>k' u. lk_secondary_cpu_entry cpu nm threads k = Some k' \<and> kinv k' \<and>
           current k' cpu = Some u \<and> top_running cpu u k'"
proof -
  let ?k = "thread_secondary_cpu_init_early cpu nm k"
  have i: "kinv ?k" by (rule secondary_init_inv [OF inv fr])
  have cur: "current ?k cpu = Some (Idle cpu)" by (simp add: secondary_init_simps)
  have "t \<noteq> Idle cpu" using fr t(2) by (auto simp: fresh_cpu_def)
  then have t': "thr ?k t = thr k t" by (rule secondary_init_simps)
  obtain k1 where k1: "thread_resume cpu True t ?k = Some (NO_ERROR, k1)" "kinv k1"
    "quiet cpu (readied t ?k) k1"
    using thread_resume_ok [OF i cur, of t True] t(2-5) t' by auto
  have "current k1 cpu = Some (Idle cpu)"
    using k1(1) t(2,3) t' cur
    by (auto simp: thread_resume_def insert_in_run_queue_head_def ASSERT_def Let_def split: if_splits)
  from secondary_entry_ok [OF k1(2) this] show ?thesis
    using k1(1) c t(1) by (auto simp: rescheduled_def lk_secondary_cpu_entry_def)
qed

end
