(* ===== verification/Kernel_System.thy ===== *)
theory Kernel_System
  imports Kernel_Tick Kernel_Cpu LK_System
begin

text \<open>
  The kernel as a system of calls: further cpus enter, threads on any cpu make the calls of
  the scheduler, the wait queues and the timers in any order and interleaving, interrupts run
  in between. Each call is the model of one source function (or of its part up to the context
  switch, or after it). The caller's obligations (\<open>kallowed\<close>) are what the source
  asserts or documents, and what three defects of the source ask of its callers: no period of
  half the clock range or more, no \<^verbatim>\<open>thread_set_real_time\<close> of a thread another cpu
  runs, one joiner for each thread. The invariant \<open>sys_inv\<close> holds after boot and after
  every call. One call can fail: the timer interrupt, in the situation
  \<open>tick_half_range\<close>.
\<close>

section \<open>Calls\<close>

type_synonym ksys = "kstate \<times> (tid \<Rightarrow> phase)"

datatype kcall =
    Yield | Preempt | Set_priority int | Set_name string | Sleep lk_time_t
  | Block wqaddr lk_time_t | Block_exit | Wake_one wqaddr bool status_t | Wake_all wqaddr bool status_t
  | Unblock_from tid status_t | Resume bool tid | Create tid nat string nat nat int nat
  | Set_real_time tid | Set_pinned tid int | Exit int | Detach tid | Join tid lk_time_t | Join_exit tid
  | Secondary_init string | Secondary_entry | Wq_init nat
  | Timer_oneshot nat lk_time_t nat | Timer_periodic nat lk_time_t nat | Timer_cancel nat
  | Clock lk_time_t | Tick nat

text \<open>The timers of other code, on the cpu that makes the call.\<close>

definition with_timers :: "(timer_state \<Rightarrow> timer_state option) \<Rightarrow> kstate \<Rightarrow> kstate option" where
  "with_timers f k = map_option (\<lambda>ts. k\<lparr>tims := ts\<rparr>) (f (tims k))"

definition set_phase :: "kstate \<Rightarrow> nat \<Rightarrow> phase \<Rightarrow> (tid \<Rightarrow> phase) \<Rightarrow> tid \<Rightarrow> phase" where
  "set_phase k cpu p ph = (case current k cpu of Some t \<Rightarrow> ph(t := p) | None \<Rightarrow> ph)"

fun kexec :: "user_callbacks \<Rightarrow> nat \<times> kcall \<Rightarrow> ksys \<Rightarrow> ksys option" where
  "kexec user (cpu, Yield) (k, ph) = map_option (\<lambda>k'. (k', ph)) (thread_yield cpu k)"
| "kexec user (cpu, Preempt) (k, ph) = map_option (\<lambda>k'. (k', ph)) (thread_preempt cpu k)"
| "kexec user (cpu, Set_priority p) (k, ph) = map_option (\<lambda>k'. (k', ph)) (thread_set_priority cpu p k)"
| "kexec user (cpu, Set_name nm) (k, ph) = map_option (\<lambda>k'. (k', ph)) (thread_set_name cpu nm k)"
| "kexec user (cpu, Sleep d) (k, ph) = map_option (\<lambda>k'. (k', ph)) (thread_sleep cpu d k)"
| "kexec user (cpu, Block w d) (k, ph) =
     map_option (\<lambda>(r, k'). (k', if r = Blocks then set_phase k cpu (Waiting d) ph else ph))
       (wait_queue_block cpu w d k)"
| "kexec user (cpu, Block_exit) (k, ph) =
     (case current k cpu of
        None \<Rightarrow> None
      | Some t \<Rightarrow> (case ph t of
          Outside \<Rightarrow> None
        | Waiting d \<Rightarrow> map_option (\<lambda>(r, k'). (k', ph(t := Outside))) (wait_queue_block_exit cpu d k)))"
| "kexec user (cpu, Wake_one w r err) (k, ph) =
     map_option (\<lambda>(n, k'). (k', ph)) (wait_queue_wake_one cpu w r err k)"
| "kexec user (cpu, Wake_all w r err) (k, ph) =
     map_option (\<lambda>(n, k'). (k', ph)) (wait_queue_wake_all cpu w r err k)"
| "kexec user (cpu, Unblock_from t err) (k, ph) =
     map_option (\<lambda>(st, k'). (k', ph)) (thread_unblock_from_wait_queue cpu t err k)"
| "kexec user (cpu, Resume ints t) (k, ph) = map_option (\<lambda>(st, k'). (k', ph)) (thread_resume cpu ints t k)"
| "kexec user (cpu, Create t s nm entry arg p sz) (k, ph) =
     map_option (\<lambda>(r, k'). (k', ph(t := Outside)))
       (thread_create cpu (Some t) (Some s) nm entry arg p sz k)"
| "kexec user (cpu, Set_real_time t) (k, ph) =
     map_option (\<lambda>(st, k'). (k', ph)) (thread_set_real_time cpu (Some t) k)"
| "kexec user (cpu, Exit rc) (k, ph) = map_option (\<lambda>k'. (k', ph)) (thread_exit cpu rc k)"
| "kexec user (cpu, Detach t) (k, ph) = map_option (\<lambda>(r, k'). (k', ph)) (thread_detach cpu t k)"
| "kexec user (cpu, Set_pinned t c) (k, ph) = Some (thread_set_pinned_cpu t c k, ph)"
| "kexec user (cpu, Join t d) (k, ph) =
     map_option (\<lambda>(r, k'). (k', if r = Blocks then set_phase k cpu (Waiting d) ph else ph))
       (thread_join cpu t d k)"
| "kexec user (cpu, Join_exit t) (k, ph) =
     (case current k cpu of
        None \<Rightarrow> None
      | Some u \<Rightarrow> (case ph u of
          Outside \<Rightarrow> None
        | Waiting d \<Rightarrow> map_option (\<lambda>(r, k'). (k', ph(u := Outside))) (thread_join_exit cpu t d k)))"
| "kexec user (cpu, Secondary_init nm) (k, ph) =
     Some (thread_secondary_cpu_init_early cpu nm k, ph(Idle cpu := Outside))"
| "kexec user (cpu, Secondary_entry) (k, ph) =
     map_option (\<lambda>k'. (k', ph)) (thread_secondary_cpu_entry cpu k)"
| "kexec user (cpu, Wq_init n) (k, ph) = Some (wait_queue_init (ObjWq n) k, ph)"
| "kexec user (cpu, Timer_oneshot n d cb) (k, ph) = map_option (\<lambda>k'. (k', ph))
     (with_timers (\<lambda>ts. timer_set_oneshot cpu (clock k) (UserTimer n) d (user_cb cb)
                          (timer_initialize (UserTimer n) ts)) k)"
| "kexec user (cpu, Timer_periodic n d cb) (k, ph) = map_option (\<lambda>k'. (k', ph))
     (with_timers (\<lambda>ts. timer_set_periodic cpu (clock k) (UserTimer n) d (user_cb cb)
                          (timer_initialize (UserTimer n) ts)) k)"
| "kexec user (cpu, Timer_cancel n) (k, ph) = map_option (\<lambda>k'. (k', ph))
     (with_timers (timer_cancel cpu (clock k) (UserTimer n)) k)"
| "kexec user (cpu, Clock now) (k, ph) = Some (k\<lparr>clock := now\<rparr>, ph)"
| "kexec user (cpu, Tick fuel) (k, ph) =
     map_option (\<lambda>(k', r). (k', ph)) (timer_tick user cpu (clock k) fuel k)"

text \<open>
  What the callers owe. A call that may switch threads is made by a thread that is not the
  idle thread (preemption excepted) and is not in the middle of a wait. A joiner that was
  woken by the exit of the thread finds its structure still there: the second of two joiners
  would find it freed.
\<close>

definition calling :: "nat \<Rightarrow> ksys \<Rightarrow> tid \<Rightarrow> bool" where
  "calling cpu s t \<longleftrightarrow> current (fst s) cpu = Some t \<and> snd s t = Outside"

definition calling_thread :: "nat \<Rightarrow> ksys \<Rightarrow> bool" where
  "calling_thread cpu s \<longleftrightarrow> (\<exists>t. calling cpu s t \<and> \<not> is_idle (fst s) t)"

definition valid_priority :: "int \<Rightarrow> bool" where
  "valid_priority p \<longleftrightarrow> 0 \<le> p \<and> p < NUM_PRIORITIES"

fun kallowed :: "nat \<times> kcall \<Rightarrow> ksys \<Rightarrow> bool" where
  "kallowed (cpu, Yield) s \<longleftrightarrow> (\<exists>t. calling cpu s t)"
| "kallowed (cpu, Preempt) s \<longleftrightarrow> current (fst s) cpu \<noteq> None"
| "kallowed (cpu, Set_priority p) s \<longleftrightarrow> calling_thread cpu s"
| "kallowed (cpu, Set_name nm) s \<longleftrightarrow> (\<exists>t. calling cpu s t)"
| "kallowed (cpu, Sleep d) s \<longleftrightarrow> calling_thread cpu s"
| "kallowed (cpu, Block w d) s \<longleftrightarrow> calling_thread cpu s \<and> wq_magic (wqs (fst s) w) = WAIT_QUEUE_MAGIC"
| "kallowed (cpu, Block_exit) s \<longleftrightarrow> (\<exists>t d. current (fst s) cpu = Some t \<and> snd s t = Waiting d)"
| "kallowed (cpu, Wake_one w r err) s \<longleftrightarrow>
     wq_magic (wqs (fst s) w) = WAIT_QUEUE_MAGIC \<and>
     (if r then calling_thread cpu s else current (fst s) cpu \<noteq> None)"
| "kallowed (cpu, Wake_all w r err) s \<longleftrightarrow>
     wq_magic (wqs (fst s) w) = WAIT_QUEUE_MAGIC \<and>
     (if r then calling_thread cpu s else current (fst s) cpu \<noteq> None)"
| "kallowed (cpu, Unblock_from t err) s \<longleftrightarrow> live (fst s) t"
| "kallowed (cpu, Resume ints t) s \<longleftrightarrow> (\<exists>u. calling cpu s u) \<and> live (fst s) t \<and>
     state_of (fst s) t \<noteq> THREAD_DEATH \<and> valid_priority (t_priority (thr (fst s) t))"
| "kallowed (cpu, Create t st nm entry arg p sz) s \<longleftrightarrow> (\<exists>u. calling cpu s u) \<and> fresh_thread t (fst s)"
| "kallowed (cpu, Set_real_time t) s \<longleftrightarrow> current (fst s) cpu \<noteq> None \<and> live (fst s) t \<and>
     (current (fst s) cpu = Some t \<or> state_of (fst s) t \<noteq> THREAD_RUNNING)"
| "kallowed (cpu, Exit rc) s \<longleftrightarrow> calling_thread cpu s"
| "kallowed (cpu, Set_pinned t c) s \<longleftrightarrow> (\<exists>u. calling cpu s u) \<and> live (fst s) t \<and>
     \<not> is_idle (fst s) t \<and> state_of (fst s) t \<noteq> THREAD_RUNNING"
| "kallowed (cpu, Detach t) s \<longleftrightarrow> (\<exists>u. calling cpu s u) \<and> live (fst s) t"
| "kallowed (cpu, Join t d) s \<longleftrightarrow> (\<exists>u. calling cpu s u) \<and> live (fst s) t \<and>
     (state_of (fst s) t = THREAD_DEATH \<or> calling_thread cpu s)"
| "kallowed (cpu, Join_exit t) s \<longleftrightarrow> (\<exists>u d. current (fst s) cpu = Some u \<and> snd s u = Waiting d \<and>
     (t_wait_queue_block_ret (thr (fst s) u) < 0 \<or>
      live (fst s) t \<and> state_of (fst s) t = THREAD_DEATH))"
| "kallowed (cpu, Secondary_init nm) s \<longleftrightarrow> fresh_cpu cpu (fst s)"
| "kallowed (cpu, Secondary_entry) s \<longleftrightarrow> calling cpu s (Idle cpu)"
| "kallowed (cpu, Wq_init n) s \<longleftrightarrow> wq_list (wqs (fst s) (ObjWq n)) = []"
| "kallowed (cpu, Timer_oneshot n d cb) s \<longleftrightarrow> tm_node (tmr (tims (fst s)) (UserTimer n)) = None"
| "kallowed (cpu, Timer_periodic n d cb) s \<longleftrightarrow>
     tm_node (tmr (tims (fst s)) (UserTimer n)) = None \<and> d < 2 ^ 31"
| "kallowed (cpu, Timer_cancel n) s \<longleftrightarrow> tm_magic (tmr (tims (fst s)) (UserTimer n)) = TIMER_MAGIC"
| "kallowed (cpu, Clock now) s \<longleftrightarrow> True"
| "kallowed (cpu, Tick fuel) s \<longleftrightarrow> length (timer_queue (tims (fst s)) cpu) < fuel"

text \<open>
  The interrupt runs the callbacks of all expired timers and then finds, at the head of the
  queue, a timer due exactly half the range of the clock from now, which its last assertion
  does not allow.
\<close>

definition tick_half_range :: "user_callbacks \<Rightarrow> nat \<Rightarrow> nat \<Rightarrow> kstate \<Rightarrow> bool" where
  "tick_half_range user cpu fuel k \<longleftrightarrow>
     (case timer_tick_loop user cpu (clock k) fuel INT_NO_RESCHEDULE
             (upd_stats cpu (\<lambda>s. s\<lparr>timer_ints := timer_ints s + 1\<rparr>) k) of
        None \<Rightarrow> False
      | Some (k1, r) \<Rightarrow>
          (case peek_head cpu (tims k1) of
             None \<Rightarrow> False
           | Some t \<Rightarrow> sched_time (tims k1) t - clock k = 2 ^ 31))"

fun kfaulty :: "user_callbacks \<Rightarrow> nat \<times> kcall \<Rightarrow> ksys \<Rightarrow> bool" where
  "kfaulty user (cpu, Tick fuel) s \<longleftrightarrow> tick_half_range user cpu fuel (fst s)"
| "kfaulty user (cpu, _) s \<longleftrightarrow> False"

section \<open>The invariant\<close>

text \<open>The scheduler's invariant, and what pending timers, threads and their join queues are up to.\<close>

definition side_inv :: "kstate \<Rightarrow> (tid \<Rightarrow> phase) \<Rightarrow> bool" where
  "side_inv k ph \<longleftrightarrow> pending_ok k \<and> phases_ok k ph"

fun sys_inv :: "ksys \<Rightarrow> bool" where
  "sys_inv (k, ph) \<longleftrightarrow> kinv k \<and> side_inv k ph"

text \<open>Boot: all threads outside, the state \<^verbatim>\<open>lk_main\<close> ends in.\<close>

definition kernel_start :: "nat \<Rightarrow> nat \<Rightarrow> nat \<Rightarrow> nat \<Rightarrow> nat \<Rightarrow> string \<Rightarrow> ksys \<Rightarrow> bool" where
  "kernel_start n b st entry sz nm s \<longleftrightarrow>
     lk_main n (Some (Thr b)) (Some st) entry sz nm kernel_zero = Some (fst s) \<and>
     snd s = (\<lambda>_. Outside)"

lemma side_inv_quiet:
  assumes q: "quiet cpu k k'"
  shows "side_inv k' ph = side_inv k ph"
proof -
  have "state_of k' t = s \<longleftrightarrow> state_of k t = s" if "\<not> ready_or_running s" for t s
    using quiet_state [OF q that] .
  note st = this [of THREAD_BLOCKED, simplified] this [of THREAD_SLEEPING, simplified]
    this [of THREAD_SUSPENDED, simplified] this [of THREAD_DEATH, simplified]
  have tm: "tmr (tims k') (UserTimer n) = tmr (tims k) (UserTimer n)" for n
    using q by (simp add: quiet_def)
  have "phase_ok k' t p = phase_ok k t p" for t p
    using st quietD(9) [OF q] by (simp add: phase_ok_def split: phase.split)
  moreover have "pending_ok k' = pending_ok k"
    by (simp add: pending_ok_def st tm quietD(4,9) [OF q])
  ultimately show ?thesis
    by (simp add: side_inv_def phases_ok_def quietD(1,4) [OF q])
qed

lemma rescheduledE:
  assumes "rescheduled cpu k r"
  obtains k' where "r = Some k'" "kinv k'" "quiet cpu k k'"
  using assms by (auto simp: rescheduled_def)

lemma sys_inv_rescheduled:
  assumes "rescheduled cpu k r" "side_inv k ph"
  shows "\<exists>k'. r = Some k' \<and> sys_inv (k', ph)"
  using assms by (auto elim!: rescheduledE simp: side_inv_quiet)

section \<open>Calls keep the side conditions\<close>

text \<open>The state changes of a thread that leave its phase as it was.\<close>

definition phase_move :: "phase \<Rightarrow> thread_state \<Rightarrow> thread_state \<Rightarrow> bool" where
  "phase_move p s s' \<longleftrightarrow> s' = s \<or> s = THREAD_BLOCKED \<and> s' = THREAD_READY \<or>
     s = THREAD_SUSPENDED \<and> s' = THREAD_READY \<or>
     s = THREAD_RUNNING \<and> s' = THREAD_DEATH \<and> p = Outside"

lemma side_inv_move:
  assumes side: "side_inv k ph"
    and stk: "\<And>t. tmr (tims k') (StackTimer t) = tmr (tims k) (StackTimer t)"
    and usr: "\<And>n. tmr (tims k') (UserTimer n) = tmr (tims k) (UserTimer n)"
    and wq: "\<And>t. live k' t \<Longrightarrow> wq_magic (wqs k' (RetcodeWq t)) = wq_magic (wqs k (RetcodeWq t))"
    and mv: "\<And>t. live k' t \<Longrightarrow> live k t \<and> phase_move (ph t) (state_of k t) (state_of k' t)"
    and dead: "\<And>t. live k t \<Longrightarrow> \<not> live k' t \<Longrightarrow> tm_node (tmr (tims k) (StackTimer t)) = None"
  shows "side_inv k' ph"
proof -
  have pend: "pending_ok k" and ph: "\<And>t. live k t \<Longrightarrow> phase_ok k t (ph t)"
    and m: "\<And>t. live k t \<Longrightarrow> wq_magic (wqs k (RetcodeWq t)) = WAIT_QUEUE_MAGIC"
    using side by (auto simp: side_inv_def phases_ok_def)
  have "phase_ok k' t (ph t)" if "live k' t" for t
    using mv [OF that] ph [of t] stk [of t]
    by (auto simp: phase_ok_def phase_move_def split: phase.splits if_splits)
  moreover have "live k' t" "state_of k t = THREAD_SLEEPING \<longrightarrow> state_of k' t = THREAD_SLEEPING"
    if "tm_node (tmr (tims k) (StackTimer t)) \<noteq> None" for t
  proof -
    have "live k t" using pend that by (simp add: pending_ok_def)
    then show l: "live k' t" using dead [of t] that by auto
    show "state_of k t = THREAD_SLEEPING \<longrightarrow> state_of k' t = THREAD_SLEEPING"
      using mv [OF l] by (auto simp: phase_move_def)
  qed
  then have "pending_ok k'"
    using pend unfolding pending_ok_def stk usr by (elim conjE, intro conjI allI impI) auto
  ultimately show ?thesis using m mv wq by (simp add: side_inv_def phases_ok_def)
qed

text \<open>A thread outside its waits has no pending timer while it does not sleep.\<close>

lemma outside_timer:
  "side_inv k ph \<Longrightarrow> live k t \<Longrightarrow> ph t = Outside \<Longrightarrow> state_of k t \<noteq> THREAD_SLEEPING \<Longrightarrow>
   tm_node (tmr (tims k) (StackTimer t)) = None"
  by (auto simp: side_inv_def phases_ok_def phase_ok_def dest: spec [of _ t])

lemma dead_timer: "side_inv k ph \<Longrightarrow> \<not> live k t \<Longrightarrow> tm_node (tmr (tims k) (StackTimer t)) = None"
  by (auto simp: side_inv_def phases_ok_def pending_ok_def)

lemma side_unblocked:
  assumes inv: "kinv k" and side: "side_inv k ph" and t: "t \<in> set (wq_list (wqs k w))"
  shows "side_inv (unblocked w t err k) ph"
  by (rule side_inv_move [OF side])
    (use waiting_facts [OF inv t] in \<open>auto simp: phase_move_def split: if_splits\<close>)

lemma side_woken:
  assumes "kinv k" "side_inv k ph"
  shows "side_inv (woken w err k) ph"
  using assms side_unblocked [OF assms] by (auto simp: woken_def split: list.split)

lemma unblock_all_thr:
  "thr (unblock_all w err k) u = (if u \<in> set (wq_list (wqs k w)) then (thr k u)\<lparr>t_queue_node := Unlinked,
     t_state := THREAD_READY, t_wait_queue_block_ret := err, t_blocking_wait_queue := None\<rparr> else thr k u)"
  "wq_magic (wqs (unblock_all w err k) v) = wq_magic (wqs k v)"
  by (simp_all add: unblock_all_def)

lemma side_unblock_all:
  assumes inv: "sched_inv C X k" and side: "side_inv k ph"
  shows "side_inv (unblock_all w err k) ph"
proof (rule side_inv_move [OF side])
  fix t
  assume "live (unblock_all w err k) t"
  then show "live k t \<and> phase_move (ph t) (state_of k t) (state_of (unblock_all w err k) t)"
    using waiting_facts(3) [OF inv, of t w] by (auto simp: unblock_all_thr phase_move_def split: if_splits)
qed (auto simp: unblock_all_thr split: if_splits)

lemma side_thread_update:
  assumes "side_inv k ph" "t_magic (f (thr k t)) = t_magic (thr k t)"
    "t_state (f (thr k t)) = t_state (thr k t)"
  shows "side_inv (upd_thread t f k) ph"
  by (rule side_inv_move [OF assms(1)]) (use assms(2,3) in \<open>auto simp: phase_move_def split: if_splits\<close>)

lemma side_sleeping:
  assumes inv: "kinv k" and side: "side_inv k ph" and cur: "current k cpu = Some t" and ph: "ph t = Outside"
    and ts: "tm_callback (tmr ts (StackTimer t)) = Some (thread_sleep_handler_cb t)"
      "tm_periodic_time (tmr ts (StackTimer t)) = 0"
      "\<And>u. u \<noteq> StackTimer t \<Longrightarrow> tmr ts u = tmr (tims k) u"
  shows "side_inv (sleeping t ts k) ph"
proof -
  note run = running_facts [OF inv cur]
  have s: "thr (sleeping t ts k) u = (if u = t then (thr k t)\<lparr>t_state := THREAD_SLEEPING\<rparr> else thr k u)"
    "tims (sleeping t ts k) = ts" "wqs (sleeping t ts k) = wqs k" for u
    by (simp_all add: sleeping_def)
  have "pending_ok (sleeping t ts k)"
    using side ts run unfolding side_inv_def phases_ok_def pending_ok_def s by auto
  moreover have "phase_ok (sleeping t ts k) u (ph u)" if "live k u" for u
    using side that ts(3) [of "StackTimer u"] ph unfolding side_inv_def phases_ok_def phase_ok_def s
    by (cases "u = t") (auto split: phase.splits)
  ultimately show ?thesis using side run by (auto simp: side_inv_def phases_ok_def s)
qed

lemma side_blocked:
  assumes inv: "kinv k" and side: "side_inv k ph" and cur: "current k cpu = Some t" and ph: "ph t = Outside"
    and wt: "wait_timer cpu t d (tims k) ts"
  shows "side_inv (blocked w t ts k) (ph(t := Waiting d))"
proof -
  note run = running_facts [OF inv cur]
  have nt: "tm_node (tmr (tims k) (StackTimer t)) = None"
    using outside_timer [OF side run(1) ph] run(2) by simp
  have ts: "\<And>u. u \<noteq> StackTimer t \<Longrightarrow> tmr ts u = tmr (tims k) u"
    "d = INFINITE_TIME \<Longrightarrow> tmr ts = tmr (tims k)"
    "d \<noteq> INFINITE_TIME \<Longrightarrow> tm_magic (tmr ts (StackTimer t)) = TIMER_MAGIC \<and>
      tm_periodic_time (tmr ts (StackTimer t)) = 0 \<and>
      tm_callback (tmr ts (StackTimer t)) = Some (wait_queue_timeout_handler_cb t)"
    using wt by (auto simp: wait_timer_def split: if_splits)
  have s: "t_magic (thr (blocked w t ts k) u) = t_magic (thr k u)"
    "state_of (blocked w t ts k) u = (if u = t then THREAD_BLOCKED else state_of k u)"
    "tims (blocked w t ts k) = ts" "wq_magic (wqs (blocked w t ts k) v) = wq_magic (wqs k v)" for u v
    by (simp_all add: blocked_def)
  have p0: "pending_ok k" using side by (simp add: side_inv_def phases_ok_def)
  have "pending_ok (blocked w t ts k)"
    unfolding pending_ok_def s
  proof (intro conjI allI impI)
    fix u
    assume n: "tm_node (tmr ts (StackTimer u)) \<noteq> None"
    show "live k u" "tm_periodic_time (tmr ts (StackTimer u)) = 0"
      "tm_callback (tmr ts (StackTimer u)) = Some (thread_sleep_handler_cb u) \<and>
         (if u = t then THREAD_BLOCKED else state_of k u) = THREAD_SLEEPING \<or>
       tm_callback (tmr ts (StackTimer u)) = Some (wait_queue_timeout_handler_cb u)"
      using n p0 run(1) ts(1) [of "StackTimer u"] ts(2,3) nt
      by (cases "u = t"; cases "d = INFINITE_TIME"; simp add: pending_ok_def)+
  qed (use p0 ts(1) in \<open>auto simp: pending_ok_def\<close>)
  moreover have "phase_ok (blocked w t ts k) u ((ph(t := Waiting d)) u)" if "live k u" for u
    using side that ts(1) [of "StackTimer u"] ts(2,3) nt unfolding side_inv_def phases_ok_def phase_ok_def s
    by (cases "u = t") (auto split: phase.splits)
  ultimately show ?thesis using side by (auto simp: side_inv_def phases_ok_def s)
qed

lemma side_new_thread:
  assumes inv: "kinv k" and side: "side_inv k ph" and fr: "fresh_thread t k" and nw: "new_thread t p k k'"
  shows "side_inv k' (ph(t := Outside))"
proof -
  have nl: "\<not> live k t" using fr by (simp add: fresh_thread_def)
  have n: "live k' t" "state_of k' t = THREAD_SUSPENDED"
    "wqs k' = (wqs k)(RetcodeWq t := WAIT_QUEUE_INITIAL_VALUE)"
    "\<And>u. u \<noteq> t \<Longrightarrow> thr k' u = thr k u" "tims k' = tims k"
    using nw by (auto simp: new_thread_def)
  have nt: "tm_node (tmr (tims k) (StackTimer t)) = None" by (rule dead_timer [OF side nl])
  have p0: "pending_ok k" using side by (simp add: side_inv_def phases_ok_def)
  have "thr k' u = thr k u" if "tm_node (tmr (tims k) (StackTimer u)) \<noteq> None" for u
    using n(4) that nt by (cases "u = t") auto
  then have "pending_ok k'"
    using p0 unfolding pending_ok_def n(5) by (elim conjE, intro conjI allI impI) auto
  moreover have "phase_ok k' u ((ph(t := Outside)) u) \<and> wq_magic (wqs k' (RetcodeWq u)) = WAIT_QUEUE_MAGIC"
    if "live k' u" for u
    using side that n(4) [of u] n nt
    by (cases "u = t") (auto simp: side_inv_def phases_ok_def phase_ok_def WAIT_QUEUE_INITIAL_VALUE_def split: phase.splits)
  ultimately show ?thesis by (simp add: side_inv_def phases_ok_def)
qed

lemma side_buried:
  assumes side: "side_inv k ph" and t: "live k t" "state_of k t = THREAD_DEATH"
    and k': "\<not> live k' t" "wqs k' = wqs k" "tims k' = tims k" "\<And>u. u \<noteq> t \<Longrightarrow> thr k' u = thr k u"
  shows "side_inv k' ph"
proof (rule side_inv_move [OF side])
  have "phase_ok k t (ph t)" using side t(1) by (simp add: side_inv_def phases_ok_def)
  then have nt: "tm_node (tmr (tims k) (StackTimer t)) = None"
    using t(2) by (auto simp: phase_ok_def split: phase.splits)
  fix u
  show "live k u \<and> phase_move (ph u) (state_of k u) (state_of k' u)" if "live k' u"
  proof -
    have "u \<noteq> t" using k'(1) that by auto
    then show ?thesis using k'(4) that by (simp add: phase_move_def)
  qed
  show "tm_node (tmr (tims k) (StackTimer u)) = None" if "live k u" "\<not> live k' u"
    using that nt k'(4) by metis
qed (simp_all add: k')

lemma side_secondary_init:
  assumes side: "side_inv k ph" and fr: "fresh_cpu cpu k"
  shows "side_inv (thread_secondary_cpu_init_early cpu nm k) (ph(Idle cpu := Outside))"
    (is "side_inv ?k ?ph")
proof -
  note s = secondary_init_simps [where cpu = cpu and nm = nm and k = k]
  have nl: "\<not> live k (Idle cpu)" using fr by (simp add: fresh_cpu_def)
  have nt: "tm_node (tmr (tims k) (StackTimer (Idle cpu))) = None" by (rule dead_timer [OF side nl])
  have i: "state_of ?k (Idle cpu) = THREAD_RUNNING" using s(8) by (simp add: tview_def)
  have "thr ?k u = thr k u" if "tm_node (tmr (tims k) (StackTimer u)) \<noteq> None" for u
    using s(7) that nt by (cases "u = Idle cpu") auto
  then have "pending_ok ?k"
    using side unfolding side_inv_def pending_ok_def s(3) by (elim conjE, intro conjI allI impI) auto
  moreover have "phase_ok ?k u (?ph u) \<and> wq_magic (wqs ?k (RetcodeWq u)) = WAIT_QUEUE_MAGIC"
    if "live ?k u" for u
    using side that s(7) [of u] s(3,6) i nt
    by (cases "u = Idle cpu") (auto simp: side_inv_def phases_ok_def phase_ok_def
        WAIT_QUEUE_INITIAL_VALUE_def split: phase.splits)
  ultimately show ?thesis by (simp add: side_inv_def phases_ok_def)
qed

lemma side_user_timer:
  assumes "side_inv k ph" "pending_ok (k\<lparr>tims := ts\<rparr>)"
    "\<And>u. u \<noteq> UserTimer n \<Longrightarrow> tmr ts u = tmr (tims k) u"
  shows "side_inv (k\<lparr>tims := ts\<rparr>) ph"
  using assms by (auto simp: side_inv_def phases_ok_def phase_ok_def split: phase.splits)

section \<open>Every allowed call runs to the end\<close>

lemma call_switching:
  assumes inv: "kinv k" and side: "side_inv k ph" and al: "kallowed (cpu, c) (k, ph)"
    and c: "c \<in> {Yield, Preempt, Set_priority p, Set_name nm, Sleep d}"
  shows "\<exists>s'. kexec user (cpu, c) (k, ph) = Some s' \<and> sys_inv s'"
proof -
  obtain t where cur: "current k cpu = Some t" using al c by (auto simp: calling_def calling_thread_def)
  note run = running_facts [OF inv cur]
  consider "c = Yield" | "c = Preempt" | "c = Set_priority p" | "c = Set_name nm" | "c = Sleep d"
    using c by blast
  then show ?thesis
  proof cases
    case 1
    then show ?thesis using sys_inv_rescheduled [OF thread_yield_ok [OF inv cur] side] by force
  next
    case 2
    then show ?thesis using sys_inv_rescheduled [OF thread_preempt_ok [OF inv cur] side] by force
  next
    case 3
    then have ni: "\<not> is_idle k t" using al cur by (auto simp: calling_def calling_thread_def)
    have "side_inv (upd_thread t (\<lambda>th. th\<lparr>t_priority := clamp_priority p\<rparr>) k) ph"
      by (rule side_thread_update [OF side]) simp_all
    then show ?thesis
      using sys_inv_rescheduled [OF thread_set_priority_ok [OF inv cur ni]] 3 by force
  next
    case 4
    have "kinv (upd_thread t (\<lambda>th. th\<lparr>t_name := take 31 nm\<rparr>) k)"
      using inv by (subst sched_inv_upd_thread_view) (simp_all add: tview_def)
    moreover have "side_inv (upd_thread t (\<lambda>th. th\<lparr>t_name := take 31 nm\<rparr>) k) ph"
      by (rule side_thread_update [OF side]) simp_all
    ultimately show ?thesis using 4 cur by (simp add: thread_set_name_def)
  next
    case 5
    then have ni: "\<not> is_idle k t" and ph: "ph t = Outside"
      using al cur by (auto simp: calling_def calling_thread_def)
    have "tm_node (tmr (tims k) (StackTimer t)) = None"
      using outside_timer [OF side run(1) ph] run(2) by simp
    from thread_sleep_ok [OF inv cur ni this, of d] obtain ts where
      ts: "rescheduled cpu (sleeping t ts k) (thread_sleep cpu d k)"
      "tm_callback (tmr ts (StackTimer t)) = Some (thread_sleep_handler_cb t)"
      "tm_periodic_time (tmr ts (StackTimer t)) = 0"
      "\<And>u. u \<noteq> StackTimer t \<Longrightarrow> tmr ts u = tmr (tims k) u" by blast
    from sys_inv_rescheduled [OF ts(1) side_sleeping [OF inv side cur ph ts(2-4)]] show ?thesis
      using 5 by force
  qed
qed

lemma call_block:
  assumes inv: "kinv k" and side: "side_inv k ph" and al: "kallowed (cpu, Block w d) (k, ph)"
  shows "\<exists>s'. kexec user (cpu, Block w d) (k, ph) = Some s' \<and> sys_inv s'"
proof -
  obtain t where cur: "current k cpu = Some t" and ph: "ph t = Outside" and ni: "\<not> is_idle k t"
    and m: "wq_magic (wqs k w) = WAIT_QUEUE_MAGIC"
    using al by (auto simp: calling_def calling_thread_def)
  note run = running_facts [OF inv cur]
  show ?thesis
  proof (cases "d = 0")
    case True
    then show ?thesis using cur m run inv side by (simp add: wait_queue_block_def)
  next
    case False
    have "tm_node (tmr (tims k) (StackTimer t)) = None"
      using outside_timer [OF side run(1) ph] run(2) by simp
    then obtain ts k' where b: "wait_queue_block cpu w d k = Some (Blocks, k')"
      "wait_timer cpu t d (tims k) ts" "rescheduled cpu (blocked w t ts k) (Some k')"
      using wait_queue_block_ok [OF inv cur ni m False] by blast
    from sys_inv_rescheduled [OF b(3) side_blocked [OF inv side cur ph b(2)]] show ?thesis
      using b(1) cur by (auto simp: set_phase_def)
  qed
qed

lemma pending_ok_timers:
  assumes "pending_ok k" "\<And>u. tmr ts (UserTimer u) = tmr (tims k) (UserTimer u)"
    and st: "\<And>u. tm_node (tmr ts (StackTimer u)) = None \<or>
               tmr ts (StackTimer u) = tmr (tims k) (StackTimer u)"
  shows "pending_ok (k\<lparr>tims := ts\<rparr>)"
  unfolding pending_ok_def
proof (intro conjI allI impI)
  fix t
  assume "tm_node (tmr (tims (k\<lparr>tims := ts\<rparr>)) (StackTimer t)) \<noteq> None"
  with st [of t] have e: "tmr ts (StackTimer t) = tmr (tims k) (StackTimer t)"
    "tm_node (tmr (tims k) (StackTimer t)) \<noteq> None" by auto
  with assms(1) show "live (k\<lparr>tims := ts\<rparr>) t"
    "tm_periodic_time (tmr (tims (k\<lparr>tims := ts\<rparr>)) (StackTimer t)) = 0"
    "tm_callback (tmr (tims (k\<lparr>tims := ts\<rparr>)) (StackTimer t)) = Some (thread_sleep_handler_cb t) \<and>
       state_of (k\<lparr>tims := ts\<rparr>) t = THREAD_SLEEPING \<or>
     tm_callback (tmr (tims (k\<lparr>tims := ts\<rparr>)) (StackTimer t)) = Some (wait_queue_timeout_handler_cb t)"
    by (simp_all add: pending_ok_def)
qed (use assms(1,2) in \<open>auto simp: pending_ok_def\<close>)

lemma block_exit_side:
  assumes inv: "kinv k" and side: "side_inv k ph" and cur: "current k cpu = Some t"
    and ph: "ph t = Waiting d"
  shows "\<exists>ts. wait_queue_block_exit cpu d k = Some (t_wait_queue_block_ret (thr k t), k\<lparr>tims := ts\<rparr>) \<and>
           sys_inv (k\<lparr>tims := ts\<rparr>, ph(t := Outside))"
proof -
  note run = running_facts [OF inv cur]
  have p: "phase_ok k t (Waiting d)" using side run(1) ph unfolding side_inv_def phases_ok_def by metis
  then obtain ts where ts: "wait_queue_block_exit cpu d k =
      Some (t_wait_queue_block_ret (thr k t), k\<lparr>tims := ts\<rparr>)" "kinv (k\<lparr>tims := ts\<rparr>)"
    "d \<noteq> INFINITE_TIME \<longrightarrow> tm_node (tmr ts (StackTimer t)) = None"
    "\<forall>u. u \<noteq> StackTimer t \<longrightarrow> tmr ts u = tmr (tims k) u"
    using wait_queue_block_exit_ok [OF inv cur, of d] by (auto simp: phase_ok_def)
  have inf: "tm_node (tmr ts (StackTimer t)) = None"
  proof (cases "d = INFINITE_TIME")
    case True
    then have "k\<lparr>tims := ts\<rparr> = k" using ts(1) cur by (simp add: wait_queue_block_exit_def)
    then have "ts = tims k" by (metis kstate.select_convs(7) kstate.surjective kstate.update_convs(7))
    then show ?thesis using p True by (simp add: phase_ok_def)
  qed (use ts(3) in blast)
  have p0: "pending_ok k" using side by (simp add: side_inv_def phases_ok_def)
  have "tm_node (tmr ts (StackTimer u)) = None \<or>
      tmr ts (StackTimer u) = tmr (tims k) (StackTimer u)" for u
    using ts(4) inf by (cases "u = t") auto
  then have "pending_ok (k\<lparr>tims := ts\<rparr>)"
    using ts(4) by (intro pending_ok_timers [OF p0]) auto
  moreover have "phase_ok (k\<lparr>tims := ts\<rparr>) u ((ph(t := Outside)) u)" if "live k u" for u
    using side that ts(4) inf run(2) unfolding side_inv_def phases_ok_def
    by (cases "u = t") (auto simp: phase_ok_def split: phase.splits)
  ultimately have "side_inv (k\<lparr>tims := ts\<rparr>) (ph(t := Outside))"
    using side by (auto simp: side_inv_def phases_ok_def)
  then show ?thesis using ts(1,2) by auto
qed

lemma call_block_exit:
  assumes inv: "kinv k" and side: "side_inv k ph" and al: "kallowed (cpu, Block_exit) (k, ph)"
  shows "\<exists>s'. kexec user (cpu, Block_exit) (k, ph) = Some s' \<and> sys_inv s'"
proof -
  obtain t d where cur: "current k cpu = Some t" and ph: "ph t = Waiting d" using al by auto
  from block_exit_side [OF inv side this] show ?thesis using cur ph by auto
qed

lemma call_wake:
  assumes inv: "kinv k" and side: "side_inv k ph" and al: "kallowed (cpu, c) (k, ph)"
    and c: "c \<in> {Wake_one w r err, Wake_all w r err, Unblock_from t err}"
  shows "\<exists>s'. kexec user (cpu, c) (k, ph) = Some s' \<and> sys_inv s'"
proof -
  consider (one) "c = Wake_one w r err" | (all) "c = Wake_all w r err" | (unb) "c = Unblock_from t err"
    using c by blast
  then show ?thesis
  proof cases
    case one
    then obtain self where "current k cpu = Some self" "wq_magic (wqs k w) = WAIT_QUEUE_MAGIC"
      "r \<longrightarrow> \<not> is_idle k self"
      using al by (auto simp: calling_def calling_thread_def split: if_splits)
    with wait_queue_wake_one_ok [OF inv, of cpu self w r err] obtain n k' where
      "wait_queue_wake_one cpu w r err k = Some (n, k')" "kinv k'" "quiet cpu (woken w err k) k'" by auto
    then show ?thesis using one side_woken [OF inv side] by (simp add: side_inv_quiet)
  next
    case all
    then obtain self where "current k cpu = Some self" "wq_magic (wqs k w) = WAIT_QUEUE_MAGIC"
      "r \<longrightarrow> \<not> is_idle k self"
      using al by (auto simp: calling_def calling_thread_def split: if_splits)
    with wait_queue_wake_all_ok [OF inv, of cpu self w r err] obtain n k' where
      "wait_queue_wake_all cpu w r err k = Some (n, k')" "kinv k'" "quiet cpu (unblock_all w err k) k'" by auto
    then show ?thesis using all side_unblock_all [OF inv side] by (simp add: side_inv_quiet)
  next
    case unb
    then have l: "live k t" using al by simp
    show ?thesis
    proof (cases "state_of k t = THREAD_BLOCKED")
      case True
      then obtain w where w: "node_of k t = WaitQ w"
        using sched_invD(2) [OF inv] l unfolding inv_w_def by (elim conjE) blast
      have tw: "t \<in> set (wq_list (wqs k w))" using sched_invD(2) [OF inv] w by (simp add: inv_w_def)
      note u = thread_unblock_from_wait_queue_ok [OF inv w, of cpu err]
      have "quiet cpu (unblocked w t err k)
          (mp_reschedule cpu MP_CPU_ALL_BUT_LOCAL 0 (ins_head t (unblocked w t err k)))"
        by (rule quiet_trans [OF quiet_frame(3,2)])
      then show ?thesis using u unb side_unblocked [OF inv side tw] by (simp add: side_inv_quiet)
    next
      case False
      then show ?thesis using unb l inv side by (simp add: thread_unblock_from_wait_queue_def)
    qed
  qed
qed

lemma call_life:
  assumes inv: "kinv k" and side: "side_inv k ph" and al: "kallowed (cpu, c) (k, ph)"
    and c: "c \<in> {Resume ints t, Create t st nm entry arg p sz, Set_real_time t}"
  shows "\<exists>s'. kexec user (cpu, c) (k, ph) = Some s' \<and> sys_inv s'"
proof -
  obtain self where cur: "current k cpu = Some self" using al c by (auto simp: calling_def)
  consider (res) "c = Resume ints t" | (cre) "c = Create t st nm entry arg p sz" | (rt) "c = Set_real_time t"
    using c by blast
  then show ?thesis
  proof cases
    case res
    then have "live k t" "state_of k t \<noteq> THREAD_DEATH" "0 \<le> t_priority (thr k t)"
      "t_priority (thr k t) < NUM_PRIORITIES" using al by (auto simp: valid_priority_def)
    then obtain k' where k': "thread_resume cpu ints t k = Some (NO_ERROR, k')" "kinv k'"
      "quiet cpu (if state_of k t = THREAD_SUSPENDED then readied t k else k) k'"
      using thread_resume_ok [OF inv cur] by blast
    have "side_inv (if state_of k t = THREAD_SUSPENDED then readied t k else k) ph"
    proof (cases "state_of k t = THREAD_SUSPENDED")
      case True
      have "side_inv (readied t k) ph"
        by (rule side_inv_move [OF side])
          (use True in \<open>auto simp: readied_def phase_move_def split: if_splits\<close>)
      then show ?thesis using True by simp
    qed (use side in simp)
    then show ?thesis using res k' by (simp add: side_inv_quiet [OF k'(3)])
  next
    case cre
    then have fr: "fresh_thread t k" using al by simp
    have "create_target (Some t) None = Some t" by (simp add: create_target_def)
    from thread_create_etc_ok [OF inv cur this fr, of None "Some st" nm entry arg p sz] obtain k' where
      "thread_create cpu (Some t) (Some st) nm entry arg p sz k = Some (Some t, k')"
      "new_thread t p k k'" "kinv k'" by (auto simp: thread_create_def)
    then show ?thesis using cre side_new_thread [OF inv side fr] by auto
  next
    case rt
    then have l: "live k t" "current k cpu = Some t \<or> state_of k t \<noteq> THREAD_RUNNING" using al by auto
    have "current k c \<noteq> Some t" if "c \<noteq> cpu" for c
      using l(2) running_facts(2) [OF inv, of c t] sched_invD(3) [OF inv] that
      unfolding inv_c_def by blast
    from thread_set_real_time_ok [OF inv cur l(1) this] obtain k' where
      k': "thread_set_real_time cpu (Some t) k = Some (NO_ERROR, k')" "kinv k'" "wqs k' = wqs k"
      "\<And>u. t_magic (thr k' u) = t_magic (thr k u)" "\<And>u. state_of k' u = state_of k u"
      "\<And>u. \<forall>c. u \<noteq> PreemptTimer c \<Longrightarrow> tmr (tims k') u = tmr (tims k) u" by auto
    have "side_inv k' ph"
      by (rule side_inv_move [OF side]) (simp_all add: k' phase_move_def)
    then show ?thesis using k' rt by simp
  qed
qed

lemma call_end:
  assumes inv: "kinv k" and side: "side_inv k ph" and al: "kallowed (cpu, c) (k, ph)"
    and c: "c \<in> {Exit rc, Detach t}"
  shows "\<exists>s'. kexec user (cpu, c) (k, ph) = Some s' \<and> sys_inv s'"
proof -
  obtain self where cur: "current k cpu = Some self" and out: "ph self = Outside"
    using al c by (auto simp: calling_def calling_thread_def)
  note run = running_facts [OF inv cur]
  have m: "wq_magic (wqs k (RetcodeWq u)) = WAIT_QUEUE_MAGIC" if "live k u" for u
    using side that by (simp add: side_inv_def phases_ok_def)
  have nt: "tm_node (tmr (tims k) (StackTimer self)) = None"
    using outside_timer [OF side run(1) out] run(2) by simp
  consider (ex) "c = Exit rc" | (det) "c = Detach t" using c by blast
  then show ?thesis
  proof cases
    case ex
    then have ni: "\<not> is_idle k self" using al cur by (auto simp: calling_def calling_thread_def)
    let ?d = "dying self rc k"
    note di = dying_inv [OF inv cur ni, of rc]
    have d: "live ?d self" "state_of ?d self = THREAD_DEATH" using run by (simp_all add: dying_def)
    have sd: "side_inv ?d ph"
      by (rule side_inv_move [OF side])
        (use run out in \<open>auto simp: dying_def phase_move_def split: if_splits\<close>)
    note td = thread_exit_teardown_inv [OF di d]
    have dt: "tims ?d = tims k" "live ?d u = live k u" for u using run by (auto simp: dying_def)
    have "side_inv (thread_exit_teardown self ?d) ph"
    proof (rule side_inv_move [OF sd])
      fix u
      assume "live (thread_exit_teardown self ?d) u"
      moreover from this have "u \<noteq> self" using td(2) by auto
      ultimately show "live ?d u \<and> phase_move (ph u) (state_of ?d u)
          (state_of (thread_exit_teardown self ?d) u)"
        using td(8) by (simp add: phase_move_def)
    next
      fix u
      assume "live ?d u" "\<not> live (thread_exit_teardown self ?d) u"
      then have "u = self" using td(8) by metis
      then show "tm_node (tmr (tims ?d) (StackTimer u)) = None" using nt dt(1) by simp
    qed (simp_all add: td(5,7))
    then have "side_inv (if has_flag THREAD_FLAG_DETACHED (thr k self)
        then thread_exit_teardown self ?d else unblock_all (RetcodeWq self) 0 ?d) ph"
      using side_unblock_all [OF di sd] by simp
    from sys_inv_rescheduled [OF thread_exit_ok [OF inv cur ni m [OF run(1)]] this] show ?thesis
      using ex by force
  next
    case det
    then have l: "live k t" using al by simp
    show ?thesis
    proof (cases "state_of k t = THREAD_DEATH")
      case True
      then obtain k1 k' where k': "thread_detach cpu t k = Some (Returns NO_ERROR, k')" "kinv k'"
        "quiet cpu (unblock_all (RetcodeWq t) ERR_THREAD_DETACHED k) k1" "live k1 t"
        "state_of k1 t = THREAD_DEATH" "\<not> live k' t" "wqs k' = wqs k1" "tims k' = tims k1"
        "\<And>u. u \<noteq> t \<Longrightarrow> thr k' u = thr k1 u"
        using thread_detach_dead [OF inv cur l _ m [OF l]] by blast
      have "side_inv k1 ph" using side_unblock_all [OF inv side] by (simp add: side_inv_quiet [OF k'(3)])
      then have "side_inv k' ph" by (rule side_buried [OF _ k'(4-)])
      then show ?thesis using det k' by simp
    next
      case False
      obtain k1 k' where k': "thread_detach cpu t k = Some (Returns NO_ERROR, k')" "kinv k'"
        "k' = upd_thread t (\<lambda>th. th\<lparr>t_flags := t_flags th OR THREAD_FLAG_DETACHED\<rparr>) k1"
        "quiet cpu (unblock_all (RetcodeWq t) ERR_THREAD_DETACHED k) k1"
        using thread_detach_live [OF inv cur l False m [OF l]] by blast
      have "side_inv k1 ph" using side_unblock_all [OF inv side] by (simp add: side_inv_quiet [OF k'(4)])
      then have "side_inv k' ph" unfolding k'(3) by (rule side_thread_update) simp_all
      then show ?thesis using det k' by simp
    qed
  qed
qed

lemma call_join:
  assumes inv: "kinv k" and side: "side_inv k ph" and al: "kallowed (cpu, Join t d) (k, ph)"
  shows "\<exists>s'. kexec user (cpu, Join t d) (k, ph) = Some s' \<and> sys_inv s'"
proof -
  obtain self where cur: "current k cpu = Some self" and out: "ph self = Outside" and l: "live k t"
    and ni: "state_of k t = THREAD_DEATH \<or> \<not> is_idle k self"
    using al by (auto simp: calling_def calling_thread_def)
  note run = running_facts [OF inv cur]
  have m: "wq_magic (wqs k (RetcodeWq t)) = WAIT_QUEUE_MAGIC"
    using side l by (simp add: side_inv_def phases_ok_def)
  have nt: "tm_node (tmr (tims k) (StackTimer self)) = None"
    using outside_timer [OF side run(1) out] run(2) by simp
  consider (detached) "has_flag THREAD_FLAG_DETACHED (thr k t)"
    | (dead) "\<not> has_flag THREAD_FLAG_DETACHED (thr k t)" "state_of k t = THREAD_DEATH"
    | (waits) "\<not> has_flag THREAD_FLAG_DETACHED (thr k t)" "state_of k t \<noteq> THREAD_DEATH" by blast
  then show ?thesis
  proof cases
    case detached
    then show ?thesis using inv side thread_join_detached [OF l detached] by simp
  next
    case dead
    from thread_join_dead [OF inv l dead, of cpu d] obtain k' where
      k': "thread_join cpu t d k = Some (Returns (NO_ERROR, Some (t_retcode (thr k t))), k')" "kinv k'"
      "\<not> live k' t" "wqs k' = wqs k" "tims k' = tims k" "\<And>u. u \<noteq> t \<Longrightarrow> thr k' u = thr k u" by blast
    then show ?thesis using side_buried [OF side l dead(2) k'(3-)] by simp
  next
    case waits
    then have "\<not> is_idle k self" using ni by simp
    note w = thread_join_waits [OF inv cur this l waits m, of d]
    show ?thesis
    proof (cases "d = 0")
      case True
      then show ?thesis using w nt inv side by simp
    next
      case False
      then obtain ts k' where b: "thread_join cpu t d k = Some (Blocks, k')"
        "wait_timer cpu self d (tims k) ts" "rescheduled cpu (blocked (RetcodeWq t) self ts k) (Some k')"
        using w nt by auto
      from sys_inv_rescheduled [OF b(3) side_blocked [OF inv side cur out b(2)]] show ?thesis
        using b(1) cur by (auto simp: set_phase_def)
    qed
  qed
qed

lemma call_join_exit:
  assumes inv: "kinv k" and side: "side_inv k ph" and al: "kallowed (cpu, Join_exit t) (k, ph)"
  shows "\<exists>s'. kexec user (cpu, Join_exit t) (k, ph) = Some s' \<and> sys_inv s'"
proof -
  obtain self d where cur: "current k cpu = Some self" and ph: "ph self = Waiting d"
    and j: "t_wait_queue_block_ret (thr k self) < 0 \<or> live k t \<and> state_of k t = THREAD_DEATH"
    using al by auto
  from block_exit_side [OF inv side cur ph] obtain ts where
    e: "wait_queue_block_exit cpu d k = Some (t_wait_queue_block_ret (thr k self), k\<lparr>tims := ts\<rparr>)"
    and si: "kinv (k\<lparr>tims := ts\<rparr>)" "side_inv (k\<lparr>tims := ts\<rparr>) (ph(self := Outside))" by auto
  show ?thesis
  proof (cases "t_wait_queue_block_ret (thr k self) < 0")
    case True
    then show ?thesis using e cur ph si by (simp add: thread_join_exit_def)
  next
    case False
    let ?k = "k\<lparr>tims := ts\<rparr>"
    have l: "live ?k t" "state_of ?k t = THREAD_DEATH" using j False by auto
    from thread_join_finish_ok [OF si(1) l] obtain k' where
      k': "thread_join_finish t ?k = Some (t_retcode (thr ?k t), k')" "kinv k'" "\<not> live k' t"
      "wqs k' = wqs ?k" "tims k' = tims ?k" "\<And>u. u \<noteq> t \<Longrightarrow> thr k' u = thr ?k u" by blast
    have "side_inv k' (ph(self := Outside))" by (rule side_buried [OF si(2) l k'(3-)])
    then show ?thesis using e cur ph k'(1,2) False by (simp add: thread_join_exit_def)
  qed
qed

lemma call_cpu:
  assumes inv: "kinv k" and side: "side_inv k ph" and al: "kallowed (cpu, c) (k, ph)"
    and c: "c \<in> {Secondary_init nm, Secondary_entry, Set_pinned t p}"
  shows "\<exists>s'. kexec user (cpu, c) (k, ph) = Some s' \<and> sys_inv s'"
proof -
  consider (ini) "c = Secondary_init nm" | (ent) "c = Secondary_entry" | (pin) "c = Set_pinned t p"
    using c by blast
  then show ?thesis
  proof cases
    case ini
    then show ?thesis using secondary_init_inv [OF inv] side_secondary_init [OF side] al by simp
  next
    case ent
    then have cur: "current k cpu = Some (Idle cpu)" using al by (simp add: calling_def)
    have "side_inv (cpu_entered cpu (Idle cpu) k) ph"
      by (rule side_inv_move [OF side]) (auto simp: cpu_entered_def phase_move_def split: if_splits)
    from sys_inv_rescheduled [OF secondary_entry_ok [OF inv cur] this] show ?thesis using ent by force
  next
    case pin
    then have t: "live k t" "\<not> is_idle k t" "state_of k t \<noteq> THREAD_RUNNING" using al by auto
    have "current k c \<noteq> Some t" "t \<noteq> Idle c" for c
      using running_facts(2) [OF inv, of c t] t sched_invD(5) [OF inv] unfolding inv_i_def by blast+
    then have "kinv (thread_set_pinned_cpu t p k)" by (intro set_pinned_inv [OF inv])
    moreover have "side_inv (thread_set_pinned_cpu t p k) ph"
      unfolding thread_set_pinned_cpu_def by (rule side_thread_update [OF side]) simp_all
    ultimately show ?thesis using pin by simp
  qed
qed

lemma call_timer:
  assumes inv: "kinv k" and side: "side_inv k ph" and al: "kallowed (cpu, c) (k, ph)"
    and c: "c \<in> {Timer_oneshot n d cb, Timer_periodic n d cb, Timer_cancel n}"
  shows "\<exists>s'. kexec user (cpu, c) (k, ph) = Some s' \<and> sys_inv s'"
proof -
  let ?u = "UserTimer n"
  have ok: "timers_ok (tims k)" using sched_invD(6) [OF inv] by (simp add: inv_t_def)
  have ti: "tick_inv k" using inv side by (simp add: tick_inv_def side_inv_def phases_ok_def)
  have fin: "\<exists>s'. map_option (\<lambda>k'. (k', ph)) (with_timers f k) = Some s' \<and> sys_inv s'"
    if "f (tims k) = Some ts" "timers_ok ts" "\<And>u. u \<noteq> ?u \<Longrightarrow> tmr ts u = tmr (tims k) u"
      "tm_node (tmr ts ?u) = None \<and> tm_periodic_time (tmr ts ?u) = 0 \<or>
       tm_magic (tmr ts ?u) = TIMER_MAGIC \<and> (\<exists>m. tm_callback (tmr ts ?u) = Some (user_cb m)) \<and>
       tm_periodic_time (tmr ts ?u) < 2 ^ 31" for f ts
  proof -
    have "tick_inv (k\<lparr>tims := ts\<rparr>)" using tick_inv_user_timer [OF ti that(2,3), where n = n] that(4) by blast
    then show ?thesis
      using that(1) side_user_timer [OF side _ that(3)] by (simp add: with_timers_def tick_inv_def)
  qed
  consider (one) "c = Timer_oneshot n d cb" | (per) "c = Timer_periodic n d cb" | (can) "c = Timer_cancel n"
    using c by blast
  then show ?thesis
  proof cases
    case one
    then have "tm_node (tmr (tims k) ?u) = None" using al by simp
    from timer_set_oneshot_ok [OF ok this, of cpu "clock k" d "user_cb cb"] obtain ts where ts:
      "timer_set_oneshot cpu (clock k) ?u d (user_cb cb) (timer_initialize ?u (tims k)) = Some ts"
      "timers_ok ts" "tm_magic (tmr ts ?u) = TIMER_MAGIC" "tm_callback (tmr ts ?u) = Some (user_cb cb)"
      "tm_periodic_time (tmr ts ?u) = 0" "\<And>u. u \<noteq> ?u \<Longrightarrow> tmr ts u = tmr (tims k) u" by blast
    from fin [where f = "\<lambda>ts. timer_set_oneshot cpu (clock k) ?u d (user_cb cb) (timer_initialize ?u ts)",
        OF ts(1,2,6)] ts show ?thesis using one by simp
  next
    case per
    then have n: "tm_node (tmr (tims k) ?u) = None" and d: "d < 2 ^ 31" using al by simp_all
    let ?ts = "timer_initialize ?u (tims k)"
    have "timers_ok ?ts" by (rule timers_ok_initialize [OF ok n])
    moreover have "tmr ?ts u = (if u = ?u then TIMER_INITIAL_VALUE else tmr (tims k) u)" for u
      by (simp add: timer_initialize_def)
    ultimately obtain ts where ts:
      "timer_set_periodic cpu (clock k) ?u d (user_cb cb) ?ts = Some ts"
      "timers_ok ts" "tm_magic (tmr ts ?u) = TIMER_MAGIC" "tm_callback (tmr ts ?u) = Some (user_cb cb)"
      "tm_periodic_time (tmr ts ?u) = (if d = 0 then 1 else d)"
      "\<And>u. u \<noteq> ?u \<Longrightarrow> tmr ts u = tmr (tims k) u"
      using timer_set_periodic_ok [of ?ts ?u cpu "clock k" d "user_cb cb"]
      by (auto simp: TIMER_INITIAL_VALUE_def)
    from fin [where f = "\<lambda>ts. timer_set_periodic cpu (clock k) ?u d (user_cb cb) (timer_initialize ?u ts)",
        OF ts(1,2,6)] ts d show ?thesis using per by (cases "d = 0") simp_all
  next
    case can
    then have m: "tm_magic (tmr (tims k) ?u) = TIMER_MAGIC" using al by simp
    from timer_cancel_ok [OF ok m, of cpu "clock k"] obtain ts where ts:
      "timer_cancel cpu (clock k) ?u (tims k) = Some ts" "timers_ok ts" "tm_node (tmr ts ?u) = None"
      "tm_periodic_time (tmr ts ?u) = 0" "\<And>u. u \<noteq> ?u \<Longrightarrow> tmr ts u = tmr (tims k) u" by blast
    from fin [where f = "timer_cancel cpu (clock k) ?u", OF ts(1,2,5)] ts show ?thesis using can by simp
  qed
qed

lemma call_tick:
  assumes inv: "kinv k" and side: "side_inv k ph" and al: "kallowed (cpu, Tick fuel) (k, ph)"
    and usr: "user_ok user"
  shows "(\<exists>s'. kexec user (cpu, Tick fuel) (k, ph) = Some s' \<and> sys_inv s') \<or>
         kexec user (cpu, Tick fuel) (k, ph) = None \<and> tick_half_range user cpu fuel k"
proof -
  have ti: "tick_inv k" using inv side by (simp add: tick_inv_def side_inv_def)
  let ?k = "upd_stats cpu (\<lambda>s. s\<lparr>timer_ints := timer_ints s + 1\<rparr>) k"
  obtain k1 r where k1: "timer_tick_loop user cpu (clock k) fuel INT_NO_RESCHEDULE ?k = Some (k1, r)"
    "tick_inv k1" "phases_ok k1 ph"
    "timer_tick user cpu (clock k) fuel k = map_option (\<lambda>k'. (k', r)) (tick_end cpu (clock k) k1)"
    using timer_tick_ok [OF ti usr, of cpu fuel "clock k"] al side by (auto simp: side_inv_def)
  show ?thesis
  proof (cases "tick_end cpu (clock k) k1")
    case None
    then have "tick_half_range user cpu fuel k"
      using k1(1) by (auto simp: tick_half_range_def tick_end_def split: option.splits if_splits)
    then show ?thesis using None k1(4) by simp
  next
    case (Some k')
    then show ?thesis
      using tick_end_inv [OF k1(2) Some] k1 by (simp add: tick_inv_def side_inv_def)
  qed
qed

lemma kcall_ok:
  assumes usr: "user_ok user" and inv: "sys_inv s" and al: "kallowed c s"
  shows "(\<exists>s'. kexec user c s = Some s' \<and> sys_inv s') \<or> kexec user c s = None \<and> kfaulty user c s"
proof -
  obtain cpu a where c: "c = (cpu, a)" by fastforce
  obtain k ph where s: "s = (k, ph)" by fastforce
  have i: "kinv k" and si: "side_inv k ph" and al': "kallowed (cpu, a) (k, ph)"
    using inv al by (simp_all add: s c)
  note sw = call_switching [OF i si al'] and wk = call_wake [OF i si al']
    and lf = call_life [OF i si al'] and en = call_end [OF i si al'] and tm = call_timer [OF i si al']
    and cp = call_cpu [OF i si al']
  show ?thesis
  proof (cases a)
    case (Block w d)
    then show ?thesis using call_block [OF i si] al' c s by simp
  next
    case Block_exit
    then show ?thesis using call_block_exit [OF i si] al' c s by simp
  next
    case (Tick fuel)
    then show ?thesis using call_tick [OF i si _ usr] al' c s by simp
  next
    case (Wq_init n)
    have e: "wq_list (wqs k (ObjWq n)) = []" using al' Wq_init by simp
    let ?k = "wait_queue_init (ObjWq n) k"
    have "kinv ?k" by (rule wait_queue_init_inv [OF i e])
    moreover have "side_inv ?k ph"
      by (rule side_inv_move [OF si]) (auto simp: wait_queue_init_def phase_move_def)
    ultimately show ?thesis using c s Wq_init by simp
  next
    case (Clock now)
    have "side_inv (k\<lparr>clock := now\<rparr>) ph" by (rule side_inv_move [OF si]) (auto simp: phase_move_def)
    then show ?thesis using c s Clock i by (simp add: inv_frame)
  next
    case Yield
    then show ?thesis using sw [of 0 "[]" 0] c s by simp
  next
    case Preempt
    then show ?thesis using sw [of 0 "[]" 0] c s by simp
  next
    case (Set_priority p)
    then show ?thesis using sw [of p "[]" 0] c s by simp
  next
    case (Set_name nm)
    then show ?thesis using sw [of 0 nm 0] c s by simp
  next
    case (Sleep d)
    then show ?thesis using sw [of 0 "[]" d] c s by simp
  next
    case (Wake_one w r err)
    then show ?thesis using wk [of w r err "Idle 0"] c s by simp
  next
    case (Wake_all w r err)
    then show ?thesis using wk [of w r err "Idle 0"] c s by simp
  next
    case (Unblock_from t err)
    then show ?thesis using wk [of "ObjWq 0" False err t] c s by simp
  next
    case (Resume ints t)
    then show ?thesis using lf [of ints t 0 "[]" 0 0 0 0] c s by simp
  next
    case (Create t st nm entry arg p sz)
    then show ?thesis using lf [of False t st nm entry arg p sz] c s by simp
  next
    case (Set_real_time t)
    then show ?thesis using lf [of False t 0 "[]" 0 0 0 0] c s by simp
  next
    case (Exit rc)
    then show ?thesis using en [of rc "Idle 0"] c s by simp
  next
    case (Detach t)
    then show ?thesis using en [of 0 t] c s by simp
  next
    case (Join t d)
    then show ?thesis using call_join [OF i si] al' c s by simp
  next
    case (Join_exit t)
    then show ?thesis using call_join_exit [OF i si] al' c s by simp
  next
    case (Secondary_init nm)
    then show ?thesis using cp [of nm "Idle 0" 0] c s by simp
  next
    case Secondary_entry
    then show ?thesis using cp [of "[]" "Idle 0" 0] c s by simp
  next
    case (Set_pinned t p)
    then show ?thesis using cp [of "[]" t p] c s by simp
  next
    case (Timer_oneshot n d cb)
    then show ?thesis using tm [of n d cb] c s by simp
  next
    case (Timer_periodic n d cb)
    then show ?thesis using tm [of n d cb] c s by simp
  next
    case (Timer_cancel n)
    then show ?thesis using tm [of n 0 0] c s by simp
  qed
qed

section \<open>The kernel from boot on\<close>

text \<open>Callbacks of other code that keep their side of the contract.\<close>

typedef ok_callbacks = "{user. user_ok user}"
  using user_ok_example by blast

lemma kernel_start_inv:
  assumes st: "kernel_start (Suc n) b st entry sz nm s"
  shows "sys_inv s"
proof -
  let ?b = "boot_state (Suc n) b st entry sz nm"
  obtain k where s: "s = (k, \<lambda>_. Outside)" using st by (cases s) (simp add: kernel_start_def)
  have y: "thread_yield 0 ?b = Some k" using st by (simp add: kernel_start_def s lk_main_boot_state)
  have inv: "kinv ?b" by (rule boot_state_inv) simp
  have tz: "tmr (tims ?b) u = \<lparr>tm_magic = 0, tm_node = None, tm_scheduled_time = 0, tm_periodic_time = 0,
      tm_callback = None\<rparr>" if "\<forall>c. u \<noteq> PreemptTimer c" for u
    using that by (cases u) (simp_all add: boot_state_simps thread_init_timers, simp_all add: kernel_zero_def)
  have "state_of ?b u \<noteq> THREAD_BLOCKED" "live ?b u \<Longrightarrow> u = Idle 0 \<or> u = Thr b" for u
    using boot_state_threads [of "Suc n" b st entry sz nm] boot_state_simps(8) [of u b "Suc n" st entry sz nm]
    by (cases "u = Idle 0"; cases "u = Thr b"; force simp: tview_def kernel_zero_def lk_defs)+
  moreover have "wq_magic (wqs ?b (RetcodeWq (Idle 0))) = WAIT_QUEUE_MAGIC"
    "wq_magic (wqs ?b (RetcodeWq (Thr b))) = WAIT_QUEUE_MAGIC"
    by (simp_all add: boot_state_def boot_run lk_defs thread_init_def)
  ultimately have "side_inv ?b (\<lambda>_. Outside)"
    using tz by (auto simp: side_inv_def phases_ok_def pending_ok_def phase_ok_def)
  moreover have "current ?b 0 = Some (Idle 0)" by (simp add: boot_state_simps)
  ultimately show ?thesis
    using sys_inv_rescheduled [OF thread_yield_ok [OF inv]] y by (fastforce simp: s)
qed

interpretation kern: call_system "kernel_start (Suc n) b st entry sz nm" kallowed
  "kexec (Rep_ok_callbacks user)" sys_inv "kfaulty (Rep_ok_callbacks user)" for n b st entry sz nm user
proof
  show "sys_inv s" if "kernel_start (Suc n) b st entry sz nm s" for s
    using that by (rule kernel_start_inv)
next
  fix s c s'
  assume "sys_inv s" "kallowed c s" "kexec (Rep_ok_callbacks user) c s = Some s'"
  then show "sys_inv s'" using kcall_ok [of "Rep_ok_callbacks user" s c] Rep_ok_callbacks [of user] by auto
next
  fix s c
  assume "sys_inv s" "kallowed c s" "kexec (Rep_ok_callbacks user) c s = None"
  then show "kfaulty (Rep_ok_callbacks user) c s"
    using kcall_ok [of "Rep_ok_callbacks user" s c] Rep_ok_callbacks [of user] by auto
qed

end
