(* ===== verification/Kernel_Props.thy ===== *)
theory Kernel_Props
  imports Kernel_System
begin

text \<open>
  What the kernel core promises, as statements about the model's operations: the scheduler,
  the wait queues, threads and timers. The proofs apply the lemmas of the component
  theories. \<open>booted\<close> is the concrete state after the boot sequence on one cpu, in which
  the properties are exercised.
\<close>

definition booted :: kstate where
  "booted = the (lk_main 1 (Some (Thr 5)) (Some 4096) 7 8192 ''idle 0'' kernel_zero)"

lemma booted_facts:
  "lk_main 1 (Some (Thr 5)) (Some 4096) 7 8192 ''idle 0'' kernel_zero = Some booted"
  "kinv booted" "current booted 0 = Some (Thr 5)"
  using lk_main_ok [of 1 5 4096 7 8192 "''idle 0''"] by (auto simp: booted_def)

lemma booted_start: "kernel_start (Suc 0) 5 4096 7 8192 ''idle 0'' (booted, \<lambda>_. Outside)"
  using booted_facts(1) by (simp add: kernel_start_def)

lemma booted_side: "side_inv booted (\<lambda>_. Outside)"
  using kernel_start_inv [OF booted_start] by simp

lemma booted_live: "live booted (Thr 5)" "state_of booted (Thr 5) = THREAD_RUNNING"
  using running_facts [OF booted_facts(2,3)] by simp_all

lemma booted_not_idle: "\<not> is_idle booted (Thr 5)"
  using sched_invD(5) [OF booted_facts(2)] booted_live(1) unfolding inv_i_def by blast

lemma booted_magic: "wq_magic (wqs booted (RetcodeWq (Thr 5))) = WAIT_QUEUE_MAGIC"
  using booted_side booted_live(1) by (simp add: side_inv_def phases_ok_def)

lemma booted_timer: "tm_node (tmr (tims booted) (StackTimer (Thr 5))) = None"
  using outside_timer [OF booted_side booted_live(1)] booted_live(2) by simp

lemma booted_quiet: "quiet 0 (boot_state 1 5 4096 7 8192 ''idle 0'') booted"
proof -
  let ?b = "boot_state 1 5 4096 7 8192 ''idle 0''"
  have "thread_yield 0 ?b = Some booted" using booted_facts(1) lk_main_boot_state by simp
  moreover have "rescheduled 0 ?b (thread_yield 0 ?b)"
    by (rule thread_yield_ok [where t = "Idle 0", OF boot_state_inv]) (simp_all add: boot_state_simps)
  ultimately show ?thesis by (auto simp: rescheduled_def)
qed

lemma booted_wq: "wq_list (wqs booted w) = []"
  using quietD(1) [OF booted_quiet] boot_state_simps(4) [of 1 5 4096 7 8192 "''idle 0''" w] by simp

text \<open>The state after the only thread has blocked on a queue of its own.\<close>

definition one_waiting :: kstate where
  "one_waiting = snd (the (wait_queue_block 0 (ObjWq 9) INFINITE_TIME (wait_queue_init (ObjWq 9) booted)))"

lemma booted_init:
  "kinv (wait_queue_init (ObjWq 9) booted)" "current (wait_queue_init (ObjWq 9) booted) 0 = Some (Thr 5)"
  "\<not> is_idle (wait_queue_init (ObjWq 9) booted) (Thr 5)"
  "wqs (wait_queue_init (ObjWq 9) booted) (ObjWq 9) = WAIT_QUEUE_INITIAL_VALUE"
proof -
  show "kinv (wait_queue_init (ObjWq 9) booted)"
    by (rule wait_queue_init_inv [OF booted_facts(2) booted_wq])
  show "current (wait_queue_init (ObjWq 9) booted) 0 = Some (Thr 5)"
    "wqs (wait_queue_init (ObjWq 9) booted) (ObjWq 9) = WAIT_QUEUE_INITIAL_VALUE"
    "\<not> is_idle (wait_queue_init (ObjWq 9) booted) (Thr 5)"
    using booted_facts(3) booted_not_idle by (simp_all add: wait_queue_init_def)
qed

lemma one_waiting_facts:
  "kinv one_waiting" "wq_list (wqs one_waiting (ObjWq 9)) = [Thr 5]"
  "wq_magic (wqs one_waiting (ObjWq 9)) = WAIT_QUEUE_MAGIC" "\<exists>t. current one_waiting 0 = Some t"
proof -
  let ?k = "wait_queue_init (ObjWq 9) booted"
  have m: "wq_magic (wqs ?k (ObjWq 9)) = WAIT_QUEUE_MAGIC"
    by (simp add: booted_init(4) WAIT_QUEUE_INITIAL_VALUE_def)
  obtain ts k' where b: "wait_queue_block 0 (ObjWq 9) INFINITE_TIME ?k = Some (Blocks, k')"
    "rescheduled 0 (blocked (ObjWq 9) (Thr 5) ts ?k) (Some k')"
    using wait_queue_block_ok [OF booted_init(1-3) m, of INFINITE_TIME] by (auto simp: lk_defs)
  then have e: "one_waiting = k'" by (simp add: one_waiting_def)
  from b(2) have k': "kinv k'" "quiet 0 (blocked (ObjWq 9) (Thr 5) ts ?k) k'" "\<exists>t. current k' 0 = Some t"
    by (auto simp: rescheduled_def)
  show "kinv one_waiting" "\<exists>t. current one_waiting 0 = Some t" using k' e by simp_all
  show "wq_list (wqs one_waiting (ObjWq 9)) = [Thr 5]"
    "wq_magic (wqs one_waiting (ObjWq 9)) = WAIT_QUEUE_MAGIC"
    using m quietD(1) [OF k'(2)] booted_init(4) by (simp_all add: e blocked_def WAIT_QUEUE_INITIAL_VALUE_def)
qed

section \<open>The system of calls\<close>

text \<open>A live thread is where its state says, and only there.\<close>

definition placed :: "kstate \<Rightarrow> tid \<Rightarrow> bool" where
  "placed k t \<longleftrightarrow> (case state_of k t of
     THREAD_RUNNING \<Rightarrow> (\<exists>!c. current k c = Some t) \<and> node_of k t = Unlinked
   | THREAD_READY \<Rightarrow> \<not> is_idle k t \<longrightarrow>
       (\<exists>p < 32. t_priority (thr k t) = int p \<and> t \<in> set (run_queue k p) \<and>
          distinct (run_queue k p) \<and> (\<forall>q. q \<noteq> p \<longrightarrow> t \<notin> set (run_queue k q)))
   | THREAD_BLOCKED \<Rightarrow>
       (\<exists>w. t_blocking_wait_queue (thr k t) = Some w \<and> t \<in> set (wq_list (wqs k w)) \<and>
          distinct (wq_list (wqs k w)) \<and> (\<forall>v. v \<noteq> w \<longrightarrow> t \<notin> set (wq_list (wqs k v))))
   | THREAD_SLEEPING \<Rightarrow>
       tm_callback (tmr (tims k) (StackTimer t)) = Some (thread_sleep_handler_cb t) \<and>
       (\<exists>c. StackTimer t \<in> set (timer_queue (tims k) c))
   | _ \<Rightarrow> node_of k t = Unlinked) \<and>
   (state_of k t \<noteq> THREAD_RUNNING \<longrightarrow> (\<forall>c. current k c \<noteq> Some t))"

lemma kinv_placed:
  assumes inv: "kinv k" and t: "live k t"
  shows "placed k t"
proof -
  note parts = sched_invD [OF inv]
  have q: "x \<in> set (run_queue k p) \<longleftrightarrow> node_of k x = RunQ p" "distinct (run_queue k p)" for x p
    using parts(1) by (simp_all add: inv_q_def)
  have qp: "t_priority (thr k t) = int p \<and> p < 32" if "node_of k t = RunQ p" for p
    using parts(1) that by (simp add: inv_q_def)
  have w: "x \<in> set (wq_list (wqs k v)) \<longleftrightarrow> node_of k x = WaitQ v" "distinct (wq_list (wqs k v))" for x v
    using parts(2) by (simp_all add: inv_w_def)
  have wb: "t_blocking_wait_queue (thr k t) = Some v" if "node_of k t = WaitQ v" for v
    using waiting_facts(7) [OF inv, of t v] that by (simp add: w)
  have one: "c = c'" if "current k c = Some t" "current k c' = Some t" for c c'
    using parts(3) that unfolding inv_c_def by blast
  have nr: "\<forall>c. current k c \<noteq> Some t" if "state_of k t \<noteq> THREAD_RUNNING"
    using running_facts(2) [OF inv] that by blast
  show ?thesis
  proof (cases "state_of k t")
    case THREAD_RUNNING
    then obtain c where "current k c = Some t" using parts(3) t unfolding inv_c_def by blast
    then show ?thesis
      using THREAD_RUNNING one running_facts(3) [OF inv, of c t] by (auto simp: placed_def)
  next
    case THREAD_READY
    have "\<exists>p. node_of k t = RunQ p" if "\<not> is_idle k t"
      using parts(4) t THREAD_READY that unfolding inv_r_def by blast
    then show ?thesis using THREAD_READY nr qp by (auto simp: placed_def q)
  next
    case THREAD_BLOCKED
    then obtain v where "node_of k t = WaitQ v"
      using parts(2) t unfolding inv_w_def by (elim conjE) blast
    then show ?thesis using THREAD_BLOCKED nr wb w by (auto simp: placed_def)
  next
    case THREAD_SLEEPING
    then show ?thesis
      using parts(6) t nr timers_okD(1) [of "tims k"] by (auto simp: placed_def inv_t_def)
  next
    case THREAD_SUSPENDED
    then show ?thesis using nr inv_g_parked [OF parts(7) t] by (auto simp: placed_def)
  next
    case THREAD_DEATH
    then show ?thesis using nr inv_g_parked [OF parts(7) t] by (auto simp: placed_def)
  qed
qed

text \<open>
  Two cpus: the boot cpu has started the kernel, and the second one enters it.
\<close>

definition booted2 :: kstate where
  "booted2 = the (lk_main 2 (Some (Thr 5)) (Some 4096) 7 8192 ''idle 0'' kernel_zero)"

lemma booted2_start:
  "kernel_start (Suc 1) 5 4096 7 8192 ''idle 0'' (booted2, \<lambda>_. Outside)"
  "current booted2 0 = Some (Thr 5)"
  using lk_main_ok [of 2 5 4096 7 8192 "''idle 0''"]
  by (auto simp: booted2_def kernel_start_def numeral_2_eq_2)

lemma booted2_inv: "kinv booted2"
  using kernel_start_inv [OF booted2_start(1)] by simp

lemma booted2_fresh_cpu: "fresh_cpu 1 booted2"
proof -
  let ?b = "boot_state 2 5 4096 7 8192 ''idle 0''"
  have "thread_yield 0 ?b = Some booted2"
    using booted2_start(1) lk_main_boot_state by (simp add: kernel_start_def numeral_2_eq_2)
  moreover have "rescheduled 0 ?b (thread_yield 0 ?b)"
    by (rule thread_yield_ok [where t = "Idle 0", OF boot_state_inv]) (simp_all add: boot_state_simps)
  ultimately have q: "quiet 0 ?b booted2" by (auto simp: rescheduled_def)
  have "tmr (tims booted2) (PreemptTimer 1) = tmr (tims ?b) (PreemptTimer 1)"
    using q by (simp add: quiet_def)
  then have "tm_magic (tmr (tims booted2) (PreemptTimer 1)) = TIMER_MAGIC"
    by (simp add: boot_state_simps thread_init_timers TIMER_INITIAL_VALUE_def)
  moreover have "\<not> live ?b (Idle 1)" by (simp add: boot_state_simps kernel_zero_def lk_defs)
  ultimately show ?thesis
    using quietD(1) [OF q] quietD(4) [OF q, of "Idle 1"] quietD(10) [OF q, of 1]
    by (simp add: fresh_cpu_def boot_state_simps)
qed


text \<open>The state in which both cpus run.\<close>

definition both_up :: kstate where
  "both_up = the (thread_secondary_cpu_entry 1 (thread_secondary_cpu_init_early 1 ''idle 1'' booted2))"

lemma both_up_facts:
  "thread_secondary_cpu_entry 1 (thread_secondary_cpu_init_early 1 ''idle 1'' booted2) = Some both_up"
  "kinv both_up" "current both_up 0 = Some (Thr 5)" "current both_up 1 \<noteq> None"
proof -
  let ?k = "thread_secondary_cpu_init_early 1 ''idle 1'' booted2"
  have cur: "current ?k 1 = Some (Idle 1)" "current ?k 0 = Some (Thr 5)"
    using booted2_start(2) by (simp_all add: secondary_init_simps)
  obtain k' where k': "thread_secondary_cpu_entry 1 ?k = Some k'" "kinv k'"
    "quiet 1 (cpu_entered 1 (Idle 1) ?k) k'" "current k' 1 \<noteq> None"
    using secondary_entry_ok [OF secondary_init_inv [OF booted2_inv booted2_fresh_cpu] cur(1)]
    by (auto simp: rescheduled_def)
  then have e: "both_up = k'" by (simp add: both_up_def)
  show "thread_secondary_cpu_entry 1 ?k = Some both_up" "kinv both_up" "current both_up 1 \<noteq> None"
    using k' e by simp_all
  show "current both_up 0 = Some (Thr 5)"
    using quietD(10) [OF k'(3), of 0] cur(2) e by (simp add: cpu_entered_def)
qed



text \<open>
  C2 In every state the kernel can reach, a live thread is in exactly the place its state
  says: a running thread is current on exactly one cpu, a ready thread that is not idle is
  once in the run queue of its priority and in no other, a blocked thread is once in the
  list of the wait queue it blocks on, and a sleeping thread has its own timer pending. The
  run queue bitmap has exactly the bits of the non-empty queues, and every wait queue's
  count is the length of its list.
\<close>

theorem reachable_threads_placed:
  assumes "user_ok user"
    and "reach (kernel_start (Suc n) b st entry sz nm) kallowed (kexec user) (k, ph)"
  shows "(\<forall>t. live k t \<longrightarrow> placed k t) \<and>
         (\<forall>p. bit (run_queue_bitmap k) p \<longleftrightarrow> run_queue k p \<noteq> []) \<and>
         (\<forall>w. wq_count (wqs k w) = int (length (wq_list (wqs k w))))"
proof -
  have u: "Rep_ok_callbacks (Abs_ok_callbacks user) = user"
    using assms(1) by (simp add: Abs_ok_callbacks_inverse)
  have inv: "kinv k"
    using kern.reach_good [of n b st entry sz nm "Abs_ok_callbacks user" "(k, ph)"] assms(2)
    by (simp add: u)
  show ?thesis
    using kinv_placed [OF inv] sched_invD(1) [OF inv] sched_invD(2) [OF inv]
    by (simp add: inv_q_def inv_w_def)
qed

theorem reachable_threads_placed_witness:
  "placed both_up (Thr 5) \<and> placed both_up (Idle 1) \<and>
   (\<forall>w. wq_count (wqs both_up w) = int (length (wq_list (wqs both_up w))))"
proof -
  let ?u = "\<lambda>n cpu now k. Some (k, INT_NO_RESCHEDULE)" and ?p = "\<lambda>_ :: tid. Outside"
  let ?k = "thread_secondary_cpu_init_early 1 ''idle 1'' booted2"
  let ?reach = "reach (kernel_start (Suc 1) 5 4096 7 8192 ''idle 0'') kallowed (kexec ?u)"
  have "?reach (booted2, ?p)" by (rule reach_start) (rule booted2_start)
  then have "?reach (?k, ?p(Idle 1 := Outside))"
    by (rule reach_call [where c = "(1, Secondary_init ''idle 1'')"]) (use booted2_fresh_cpu in simp_all)
  then have r: "?reach (both_up, ?p(Idle 1 := Outside))"
    by (rule reach_call [where c = "(1, Secondary_entry)"])
      (use both_up_facts(1) in \<open>simp_all add: calling_def secondary_init_simps\<close>)
  have "live both_up (Thr 5)" "live both_up (Idle 1)"
    using running_facts(1) [OF both_up_facts(2,3)] sched_invD(5) [OF both_up_facts(2)] both_up_facts(4)
    by (simp_all add: inv_i_def)
  then show ?thesis using reachable_threads_placed [OF user_ok_example r] by simp
qed

section \<open>The scheduler\<close>

text \<open>
  C3 A reschedule (of a cpu whose current thread has left the running state) hands the cpu
  to the first thread, among those allowed on it, of the highest run queue that has one, or
  to the idle thread when there is none; that thread is taken out of its queue and runs, no
  other thread changes state, and afterwards no thread that could run on this cpu has a
  higher priority than the one that runs.
\<close>

theorem resched_runs_highest:
  assumes "sched_inv {cpu} {} k" "current k cpu = Some old"
  shows "\<exists>k' t. thread_resched cpu k = Some k' \<and> kinv k' \<and>
           ((\<exists>p. find (eligible cpu k) (run_queue k p) = Some t \<and>
               (\<forall>q > p. \<forall>u \<in> set (run_queue k q). \<not> eligible cpu k u)) \<or>
            t = Idle cpu \<and> (\<forall>q. \<forall>u \<in> set (run_queue k q). \<not> eligible cpu k u)) \<and>
           current k' = (current k)(cpu \<mapsto> t) \<and>
           (\<forall>u. state_of k' u = (if u = t then THREAD_RUNNING else state_of k u)) \<and>
           (\<forall>p. run_queue k' p = remove1 t (run_queue k p)) \<and> top_running cpu t k'"
proof -
  obtain k' t where "thread_resched cpu k = Some k'" "kinv k'" "switched cpu t k k'"
    "top_running cpu t k'" "picked cpu k t"
    using thread_resched_ok [OF assms] by blast
  then show ?thesis
    by (intro exI [of _ k'] exI [of _ t]) (auto simp: switched_def picked_def)
qed

theorem resched_runs_highest_witness:
  "\<exists>k' t. thread_resched 0 (upd_thread (Idle 0) (\<lambda>th. th\<lparr>t_state := THREAD_READY\<rparr>)
      (boot_state 1 5 4096 7 8192 ''idle 0'')) = Some k' \<and> kinv k' \<and> top_running 0 t k'"
proof -
  let ?b = "boot_state 1 5 4096 7 8192 ''idle 0''"
  let ?f = "\<lambda>th. th\<lparr>t_state := THREAD_READY\<rparr>"
  have inv: "kinv ?b" by (rule boot_state_inv) simp
  have cur: "current ?b 0 = Some (Idle 0)" by (simp add: boot_state_simps)
  note run = running_facts [OF inv cur]
  have f: "tview (?f (thr ?b (Idle 0))) = tview ((thr ?b (Idle 0))\<lparr>t_state := THREAD_READY,
      t_priority := t_priority (thr ?b (Idle 0))\<rparr>)" by (simp add: tview_def)
  have i: "is_idle ?b (Idle 0)" using sched_invD(5) [OF inv] run(1) by (auto simp: inv_i_def)
  note g = give_up_cpu [of "{}" ?b 0 "Idle 0" ?f, OF inv cur f run(4,5)]
  have "sched_inv {0} {} (upd_thread (Idle 0) ?f ?b)"
    using ready_idle_inv [OF g(1)] g(3) i by simp
  from resched_runs_highest [OF this, of "Idle 0"] cur show ?thesis by auto
qed

text \<open>
  Setting a thread's own priority clamps it to the range of regular threads, 1 to 31,
  whatever was asked for; the thread gives up the cpu if a waiting thread has a higher
  priority, and nothing else of any thread or wait queue changes.
\<close>

lemma set_priority_clamped:
  assumes "kinv k" "current k cpu = Some t" "\<not> is_idle k t"
  shows "\<exists>k' u. thread_set_priority cpu p k = Some k' \<and> kinv k' \<and>
           t_priority (thr k' t) = max 1 (min 31 p) \<and> wqs k' = wqs k \<and>
           (\<forall>v. v \<noteq> t \<longrightarrow> wview (thr k' v) = wview (thr k v)) \<and>
           current k' cpu = Some u \<and> top_running cpu u k'"
proof -
  obtain k' u where k': "thread_set_priority cpu p k = Some k'" "kinv k'"
    "quiet cpu (upd_thread t (\<lambda>th. th\<lparr>t_priority := clamp_priority p\<rparr>) k) k'"
    "current k' cpu = Some u" "top_running cpu u k'"
    using thread_set_priority_ok [OF assms, of p] by (auto simp: rescheduled_def)
  have "clamp_priority p = max 1 (min 31 p)" by (auto simp: clamp_priority_def lk_defs)
  with k' quietD(1,6) [OF k'(3)] quietD(3) [OF k'(3)] show ?thesis
    by (intro exI [of _ k'] exI [of _ u]) simp
qed

section \<open>Wait queues\<close>

text \<open>
  C5 Waking one waiter takes the longest waiting thread off the queue, hands it the given
  status and makes it ready; the other waiters keep their order, every other queue is as it
  was, and the call says whether it woke somebody.
\<close>

theorem wake_one_is_fifo:
  assumes "kinv k" "current k cpu = Some self" "wq_magic (wqs k w) = WAIT_QUEUE_MAGIC"
    "r \<longrightarrow> \<not> is_idle k self"
  shows "\<exists>k'. kinv k' \<and> wq_list (wqs k' w) = tl (wq_list (wqs k w)) \<and>
           (\<forall>v. v \<noteq> w \<longrightarrow> wqs k' v = wqs k v) \<and>
           (case wq_list (wqs k w) of
              [] \<Rightarrow> wait_queue_wake_one cpu w r err k = Some (0, k') \<and> k' = k
            | t # ts \<Rightarrow> wait_queue_wake_one cpu w r err k = Some (1, k') \<and>
                t_wait_queue_block_ret (thr k' t) = err \<and> ready_or_running (state_of k' t) \<and>
                (\<forall>u \<in> set ts. state_of k' u = THREAD_BLOCKED))"
proof (cases "wq_list (wqs k w)")
  case Nil
  then show ?thesis using assms by (intro exI [of _ k]) (simp add: wait_queue_wake_one_def)
next
  case (Cons t ts)
  obtain k' where k': "wait_queue_wake_one cpu w r err k = Some (1, k')" "kinv k'"
    "quiet cpu (unblocked w t err k) k'"
    using wait_queue_wake_one_ok [OF assms(1-3), of r err] assms(4) Cons by (auto simp: woken_def)
  have "t \<notin> set ts" using sched_invD(2) [OF assms(1)] Cons unfolding inv_w_def
    by (metis distinct.simps(2))
  moreover have "state_of k' u = THREAD_BLOCKED" if "u \<in> set ts" for u
    using quiet_state [OF k'(3), of THREAD_BLOCKED u] waiting_facts(3) [OF assms(1), of u w] that Cons
      \<open>t \<notin> set ts\<close> by auto
  moreover have "ready_or_running (state_of k' t)"
    using k'(3) unfolding quiet_def
    by (elim conjE) (erule allE [of _ t], erule conjE, erule disjE, simp_all)
  ultimately show ?thesis
    using k' Cons quietD(1) [OF k'(3)] quietD(7) [OF k'(3)] by (intro exI [of _ k']) auto
qed

theorem wake_one_is_fifo_witness:
  "\<exists>k'. kinv k' \<and> wait_queue_wake_one 0 (ObjWq 9) False 3 one_waiting = Some (1, k') \<and>
        wq_list (wqs k' (ObjWq 9)) = [] \<and> t_wait_queue_block_ret (thr k' (Thr 5)) = 3"
  using one_waiting_facts(4)
    wake_one_is_fifo [OF one_waiting_facts(1) _ one_waiting_facts(3), of 0 _ False 3]
  by (auto simp: one_waiting_facts(2))

text \<open>
  C6 Waking all waiters empties the queue, returns how many threads waited, hands each of
  them the given status and makes it ready, and leaves every other thread's state, flags
  and result alone.
\<close>

theorem wake_all_wakes_everyone:
  assumes "kinv k" "current k cpu = Some self" "wq_magic (wqs k w) = WAIT_QUEUE_MAGIC"
    "r \<longrightarrow> \<not> is_idle k self"
  shows "\<exists>k'. wait_queue_wake_all cpu w r err k = Some (int (length (wq_list (wqs k w))), k') \<and>
           kinv k' \<and> wq_list (wqs k' w) = [] \<and> (\<forall>v. v \<noteq> w \<longrightarrow> wqs k' v = wqs k v) \<and>
           (\<forall>t \<in> set (wq_list (wqs k w)).
              ready_or_running (state_of k' t) \<and> t_wait_queue_block_ret (thr k' t) = err) \<and>
           (\<forall>t. t \<notin> set (wq_list (wqs k w)) \<longrightarrow> wview (thr k' t) = wview (thr k t))"
proof -
  obtain k' where k': "wait_queue_wake_all cpu w r err k = Some (int (length (wq_list (wqs k w))), k')"
    "kinv k'" "quiet cpu (unblock_all w err k) k'"
    using wait_queue_wake_all_ok [OF assms(1-3), of r err] assms(4) by blast
  have "ready_or_running (state_of k' t)" if "t \<in> set (wq_list (wqs k w))" for t
    using k'(3) that unfolding quiet_def
    by (elim conjE) (erule allE [of _ t], erule conjE, erule disjE, simp_all add: unblock_all_thr)
  moreover have "t_wait_queue_block_ret (thr k' t) = err" if "t \<in> set (wq_list (wqs k w))" for t
    using quietD(7) [OF k'(3), of t] that by (simp add: unblock_all_thr)
  moreover have "wview (thr k' t) = wview (thr k t)" if "t \<notin> set (wq_list (wqs k w))" for t
    using quietD(3) [OF k'(3), of t] that by (simp add: unblock_all_thr)
  ultimately show ?thesis
    using k' quietD(1) [OF k'(3)] by (intro exI [of _ k']) (simp add: unblock_all_def)
qed

theorem wake_all_wakes_everyone_witness:
  "\<exists>k'. wait_queue_wake_all 0 (ObjWq 9) False 3 one_waiting = Some (1, k') \<and>
        wq_list (wqs k' (ObjWq 9)) = [] \<and> t_wait_queue_block_ret (thr k' (Thr 5)) = 3"
  using one_waiting_facts(4)
    wake_all_wakes_everyone [OF one_waiting_facts(1) _ one_waiting_facts(3), of 0 _ False 3]
  by (auto simp: one_waiting_facts(2))

text \<open>
  Blocking on a wait queue and being woken is a round trip: a thread that blocks without
  a timeout goes to the end of the list; when it is the only waiter, waking one from the
  thread that took over the cpu leaves the queue exactly as it was, with the woken thread
  holding the waker's status.
\<close>

lemma block_wake_roundtrip:
  assumes inv: "kinv k" and cur: "current k cpu = Some t" and ni: "\<not> is_idle k t"
    and w: "wqs k w = WAIT_QUEUE_INITIAL_VALUE"
  shows "\<exists>k1 k2. wait_queue_block cpu w INFINITE_TIME k = Some (Blocks, k1) \<and>
           state_of k1 t = THREAD_BLOCKED \<and> wq_list (wqs k1 w) = [t] \<and>
           wait_queue_wake_one cpu w False err k1 = Some (1, k2) \<and> kinv k2 \<and>
           wqs k2 = wqs k \<and> ready_or_running (state_of k2 t) \<and>
           t_wait_queue_block_ret (thr k2 t) = err"
proof -
  have m: "wq_magic (wqs k w) = WAIT_QUEUE_MAGIC" and l: "wq_list (wqs k w) = []" "wq_count (wqs k w) = 0"
    by (simp_all add: w WAIT_QUEUE_INITIAL_VALUE_def)
  obtain ts k1 where b: "wait_queue_block cpu w INFINITE_TIME k = Some (Blocks, k1)"
    "rescheduled cpu (blocked w t ts k) (Some k1)"
    using wait_queue_block_ok [OF inv cur ni m, of INFINITE_TIME] by (auto simp: lk_defs)
  then obtain u where k1: "kinv k1" "quiet cpu (blocked w t ts k) k1" "current k1 cpu = Some u"
    by (auto simp: rescheduled_def)
  have w1: "wqs k1 w = (wqs k w)\<lparr>wq_list := [t], wq_count := 1\<rparr>" "v \<noteq> w \<Longrightarrow> wqs k1 v = wqs k v" for v
    using quietD(1) [OF k1(2)] l by (simp_all add: blocked_def)
  have st: "state_of k1 t = THREAD_BLOCKED"
    using quiet_state [OF k1(2), of THREAD_BLOCKED t] by (simp add: blocked_def)
  obtain k2 where k2: "wait_queue_wake_one cpu w False err k1 = Some (1, k2)" "kinv k2"
    "quiet cpu (unblocked w t err k1) k2"
    using wait_queue_wake_one_ok [OF k1(1,3), of w False err] m w1(1) by (auto simp: woken_def)
  have "wqs k2 v = wqs k v" for v
    using quietD(1) [OF k2(3)] w1 l by (cases "v = w") (auto intro: wait_queue.equality)
  moreover have "ready_or_running (state_of k2 t)"
    using k2(3) unfolding quiet_def
    by (elim conjE) (erule allE [of _ t], erule conjE, erule disjE, simp_all)
  ultimately show ?thesis
    using b(1) st w1(1) k2(1,2) quietD(7) [OF k2(3), of t]
    by (intro exI [of _ k1] exI [of _ k2]) (auto simp: fun_eq_iff)
qed

section \<open>The life of a thread\<close>

text \<open>
  C7 A joinable thread that exits is dead, keeps its return code and wakes every thread that
  was joining it; a join then returns exactly that code, from any cpu and with any timeout,
  and gives the structure up.
\<close>

theorem exit_join_roundtrip:
  assumes inv: "kinv k" and cur: "current k cpu = Some t" and ni: "\<not> is_idle k t"
    and nd: "\<not> has_flag THREAD_FLAG_DETACHED (thr k t)"
    and m: "wq_magic (wqs k (RetcodeWq t)) = WAIT_QUEUE_MAGIC"
  shows "\<exists>k1. thread_exit cpu rc k = Some k1 \<and> kinv k1 \<and> state_of k1 t = THREAD_DEATH \<and>
           wq_list (wqs k1 (RetcodeWq t)) = [] \<and>
           (\<forall>j \<in> set (wq_list (wqs k (RetcodeWq t))).
              t_wait_queue_block_ret (thr k1 j) = NO_ERROR \<and> ready_or_running (state_of k1 j)) \<and>
           (\<exists>k2. thread_join cpu' t timeout k1 = Some (Returns (NO_ERROR, Some rc), k2) \<and>
              kinv k2 \<and> \<not> live k2 t \<and> thread_list k2 = remove1 t (thread_list k1))"
proof -
  note run = running_facts [OF inv cur]
  let ?u = "unblock_all (RetcodeWq t) 0 (dying t rc k)"
  have d: "wqs (dying t rc k) = wqs k" by (simp add: dying_def)
  have tw: "t \<notin> set (wq_list (wqs k (RetcodeWq t)))"
    using waiting_facts(3) [OF inv, of t "RetcodeWq t"] run(2) by auto
  obtain k1 where k1: "thread_exit cpu rc k = Some k1" "kinv k1" "quiet cpu ?u k1"
    using thread_exit_ok [OF inv cur ni m, of rc] nd by (auto simp: rescheduled_def)
  have u: "state_of ?u t = THREAD_DEATH" "t_retcode (thr ?u t) = rc" "t_flags (thr ?u t) = t_flags (thr k t)"
    "t_magic (thr ?u t) = THREAD_MAGIC"
    using tw run(1) by (simp_all add: unblock_all_thr d) (simp_all add: dying_def)
  have t1: "live k1 t" "state_of k1 t = THREAD_DEATH" "t_retcode (thr k1 t) = rc"
    "\<not> has_flag THREAD_FLAG_DETACHED (thr k1 t)"
    using quietD [OF k1(3)] quiet_state [OF k1(3), of THREAD_DEATH t] u nd by (simp_all add: has_flag_def)
  have "t_wait_queue_block_ret (thr k1 j) = NO_ERROR \<and> ready_or_running (state_of k1 j)"
    if "j \<in> set (wq_list (wqs k (RetcodeWq t)))" for j
  proof -
    have "state_of ?u j = THREAD_READY" "t_wait_queue_block_ret (thr ?u j) = 0"
      using that by (simp_all add: unblock_all_thr d)
    then show ?thesis
      using k1(3) quietD(7) [OF k1(3), of j] unfolding quiet_def
      by (auto simp: lk_defs dest!: spec [of _ j])
  qed
  moreover have "wq_list (wqs k1 (RetcodeWq t)) = []"
    using quietD(1) [OF k1(3)] by (simp add: unblock_all_def)
  moreover obtain k2 where "thread_join cpu' t timeout k1 = Some (Returns (NO_ERROR, Some rc), k2)" "kinv k2"
    "\<not> live k2 t" "thread_list k2 = remove1 t (thread_list k1)"
    using thread_join_dead [OF k1(2) t1(1,4,2), of cpu' timeout] t1(3) by blast
  ultimately show ?thesis using k1 t1 by blast
qed

definition joinable :: kstate where
  "joinable = upd_thread (Thr 5) (\<lambda>th. th\<lparr>t_flags := t_flags th AND NOT THREAD_FLAG_DETACHED\<rparr>) booted"

theorem exit_join_roundtrip_witness:
  "\<exists>k1 k2. thread_exit 0 42 joinable = Some k1 \<and>
     thread_join 1 (Thr 5) 0 k1 = Some (Returns (NO_ERROR, Some 42), k2) \<and> \<not> live k2 (Thr 5)"
proof -
  have f: "thread_is_idle (thr joinable (Thr 5)) = is_idle booted (Thr 5)"
    using dview_detached(2) [of "thr booted (Thr 5)"] by (simp add: joinable_def dview_def)
  have "kinv joinable" using booted_facts(2) by (simp add: joinable_def sched_inv_detached_flag)
  moreover have "current joinable 0 = Some (Thr 5)" "\<not> is_idle joinable (Thr 5)"
    "wq_magic (wqs joinable (RetcodeWq (Thr 5))) = WAIT_QUEUE_MAGIC"
    using booted_facts(3) booted_not_idle booted_magic f by (simp_all add: joinable_def)
  moreover have "\<not> has_flag THREAD_FLAG_DETACHED (thr joinable (Thr 5))"
    unfolding has_flag_bits by (simp add: joinable_def bit_and_iff bit_not_iff THREAD_FLAG_DETACHED_def)
  ultimately show ?thesis using exit_join_roundtrip [of joinable 0 "Thr 5" 42 1 0] by blast
qed

text \<open>
  C9 Making a thread real-time while another cpu runs it leaves that cpu's preemption timer
  queued; when the thread later hands the cpu to a regular thread, the context switch sets
  the queued timer again and the kernel panics.
\<close>

theorem set_real_time_remote_panics:
  assumes inv: "kinv k" and cur: "current k c = Some t" and c: "c \<noteq> cpu"
    and reg: "\<not> thread_is_real_time_or_idle (thr k t)"
    and u: "u \<noteq> t" "\<not> thread_is_real_time_or_idle (thr k u)"
  shows "\<exists>k'. thread_set_real_time cpu (Some t) k = Some (NO_ERROR, k') \<and> context_switch c t u k' = None"
proof -
  note run = running_facts [OF inv cur]
  have nc: "current k cpu \<noteq> Some t" using sched_invD(3) [OF inv] cur c unfolding inv_c_def by blast
  have tm: "tm_node (tmr (tims k) (PreemptTimer c)) = Some c"
    using sched_invD(6) [OF inv] cur reg by (auto simp: inv_t_def)
  let ?f = "\<lambda>th. th\<lparr>t_flags := t_flags th OR THREAD_FLAG_REAL_TIME\<rparr>"
  define k' where "k' = upd_thread t ?f k"
  have e: "upd_thread t ?f (k\<lparr>tims := tims k\<rparr>) = k'" by (simp add: k'_def upd_thread_def)
  have "thread_set_real_time cpu (Some t) k = Some (NO_ERROR, k')"
    using run(1) nc e by (simp add: thread_set_real_time_def)
  moreover have "thread_is_real_time_or_idle (thr k' t)" "\<not> thread_is_real_time_or_idle (thr k' u)"
    using real_time_flag(4) [of "thr k t"] u by (simp_all add: k'_def)
  then have "thread_is_real_time_or_idle (thr (pre_switch c t u k') t)"
    "\<not> thread_is_real_time_or_idle (thr (pre_switch c t u k') u)"
    by (simp_all add: flags_cong(3) [OF pre_switch_simps(9)])
  then have "context_switch c t u k' = None"
    using tm by (simp add: context_switch_def Let_def switch_preempt_timer_def timer_set_periodic_def
        timer_set_def k'_def ASSERT_def)
  ultimately show ?thesis by blast
qed

lemma booted_regular: "\<not> thread_is_real_time_or_idle (thr booted (Thr 5))"
proof -
  let ?b = "boot_state 1 5 4096 7 8192 ''idle 0''"
  have "t_flags (thr booted (Thr 5)) = t_flags (thr ?b (Thr 5))"
    by (rule quietD(5) [OF booted_quiet])
  then show ?thesis
    using boot_state_threads(2) [of 1 5 4096 7 8192 "''idle 0''"]
    by (simp add: tview_def thread_is_real_time_or_idle_def has_flag_def lk_defs)
qed

lemma booted_only: "t \<noteq> Idle 0 \<Longrightarrow> t \<noteq> Thr 5 \<Longrightarrow> t_flags (thr booted t) = 0"
proof -
  assume t: "t \<noteq> Idle 0" "t \<noteq> Thr 5"
  let ?b = "boot_state 1 5 4096 7 8192 ''idle 0''"
  have "t_flags (thr booted t) = t_flags (thr ?b t)"
    by (rule quietD(5) [OF booted_quiet])
  then show ?thesis using boot_state_simps(8) [OF t] by (simp add: kernel_zero_def)
qed

theorem set_real_time_remote_panics_witness:
  "\<exists>k'. thread_set_real_time 1 (Some (Thr 5)) booted = Some (NO_ERROR, k') \<and>
        context_switch 0 (Thr 5) (Thr 6) k' = None"
  using set_real_time_remote_panics [OF booted_facts(2,3) _ booted_regular, of 1 "Thr 6"]
    booted_only [of "Thr 6"]
  by (simp add: thread_is_real_time_or_idle_def has_flag_def)

section \<open>Timers\<close>

text \<open>
  C4 The timer interrupt: with fuel for one round more than there are timers in the cpu's
  queue the loop ends, whatever the callbacks do within their contract; then the kernel's
  invariant holds, the current threads are unchanged, and no expired timer is left at the
  head of the queue. What the interrupt does next is exact: with an empty queue it returns;
  otherwise it programs the hardware timer for the timer at the head, unless that one is due
  exactly half the range of the clock from now: then its last assertion fails.
\<close>

theorem timer_tick_terminates:
  assumes "tick_inv k" "user_ok user" "length (timer_queue (tims k) cpu) < fuel"
  shows "\<exists>k1 r. timer_tick_loop user cpu now fuel INT_NO_RESCHEDULE
             (upd_stats cpu (\<lambda>s. s\<lparr>timer_ints := timer_ints s + 1\<rparr>) k) = Some (k1, r) \<and>
           kinv k1 \<and> current k1 = current k \<and>
           (case peek_head cpu (tims k1) of
              None \<Rightarrow> timer_tick user cpu now fuel k = Some (k1, r)
            | Some t \<Rightarrow> TIME_LT now (sched_time (tims k1) t) \<and>
                (if sched_time (tims k1) t - now = 2 ^ 31 then timer_tick user cpu now fuel k = None
                 else \<exists>k'. timer_tick user cpu now fuel k = Some (k', r) \<and> kinv k' \<and>
                        current k' = current k \<and> thr k' = thr k1 \<and> tmr (tims k') = tmr (tims k1) \<and>
                        timer_queue (tims k') = timer_queue (tims k1) \<and>
                        hw_timer (tims k') cpu = Some (sched_time (tims k1) t - now)))"
proof -
  obtain k1 r where k1: "timer_tick_loop user cpu now fuel INT_NO_RESCHEDULE
        (upd_stats cpu (\<lambda>s. s\<lparr>timer_ints := timer_ints s + 1\<rparr>) k) = Some (k1, r)"
    "tick_inv k1" "current k1 = current k"
    "\<And>t. peek_head cpu (tims k1) = Some t \<Longrightarrow> TIME_LT now (sched_time (tims k1) t)"
    "timer_tick user cpu now fuel k = map_option (\<lambda>k'. (k', r)) (tick_end cpu now k1)"
    using timer_tick_ok [OF assms] by blast
  have e: "kinv k'" if "tick_end cpu now k1 = Some k'" for k'
    using tick_end_inv(1) [OF k1(2) that] by (simp add: tick_inv_def)
  show ?thesis
    using k1 e by (intro exI [of _ k1] exI [of _ r])
      (auto simp: tick_inv_def tick_end_def platform_set_oneshot_timer_def split: option.splits)
qed

text \<open>
  The failing case is within reach of one call: a thread that sleeps for half the range of
  the clock while only idle threads could run puts its timer at the head of the queue, and a
  tick in the same millisecond panics.
\<close>

lemma half_range_sleep:
  assumes inv: "kinv k" and cur: "current k cpu = Some t" and ni: "\<not> is_idle k t"
    and tm: "\<And>u. \<forall>c. u \<noteq> PreemptTimer c \<Longrightarrow> tm_node (tmr (tims k) u) = None"
    and alone: "\<And>u. live k u \<Longrightarrow> u = t \<or> (\<exists>c. u = Idle c)"
  shows "\<exists>k1. thread_sleep cpu (2 ^ 31) k = Some k1 \<and> kinv k1 \<and> clock k1 = clock k \<and>
           timer_queue (tims k1) cpu = [StackTimer t] \<and> sched_time (tims k1) (StackTimer t) = clock k + 2 ^ 31"
proof -
  obtain ts k1 where ts: "tm_node (tmr ts (StackTimer t)) = Some cpu"
    "\<And>u. u \<noteq> StackTimer t \<Longrightarrow> tmr ts u = tmr (tims k) u"
    "tm_scheduled_time (tmr ts (StackTimer t)) = clock k + 2 ^ 31"
    and k1: "thread_sleep cpu (2 ^ 31) k = Some k1" "kinv k1" "quiet cpu (sleeping t ts k) k1"
      "current k1 cpu \<noteq> None"
    using thread_sleep_ok [OF inv cur ni, of "2 ^ 31"] tm [of "StackTimer t"]
    by (auto simp: rescheduled_def)
  obtain u where u: "current k1 cpu = Some u" using k1(4) by blast
  note run = running_facts [OF k1(2) u]
  have sl: "state_of k1 t = THREAD_SLEEPING"
    using quiet_state [OF k1(3), of THREAD_SLEEPING t] by (simp add: sleeping_def)
  have "live k u" using run(1) quietD(4) [OF k1(3), of u] by (simp add: sleeping_def split: if_splits)
  then have "is_idle k1 u"
    using alone [of u] run(1,2) sl sched_invD(5) [OF k1(2)] unfolding inv_i_def by auto
  then have pre: "tm_node (tmr (tims k1) (PreemptTimer cpu)) = None"
    using sched_invD(6) [OF k1(2)] u by (simp add: inv_t_def rt_or_idle_iff)
  have st: "tmr (tims k1) (StackTimer v) = tmr ts (StackTimer v)"
    "tmr (tims k1) (UserTimer n) = tmr ts (UserTimer n)" for v n
    using k1(3) by (simp_all add: quiet_def sleeping_def)
  have ok: "timers_ok (tims k1)" using sched_invD(6) [OF k1(2)] by (simp add: inv_t_def)
  have "tm_node (tmr (tims k1) v) = Some cpu \<longleftrightarrow> v = StackTimer t" for v
  proof (cases v)
    case (PreemptTimer c)
    then show ?thesis
      using pre sched_invD(6) [OF k1(2)] by (auto simp: inv_t_def preempt_timer_armed_def)
  next
    case (StackTimer w)
    then show ?thesis using st(1) ts(1,2) tm [of v] by (cases "w = t") auto
  next
    case (UserTimer n)
    then show ?thesis using st(2) ts(2) [of v] tm [of v] by simp
  qed
  then have "set (timer_queue (tims k1) cpu) = {StackTimer t}" "distinct (timer_queue (tims k1) cpu)"
    using timers_okD(1,2) [OF ok] by auto
  then have "timer_queue (tims k1) cpu = [StackTimer t]"
    by (cases "timer_queue (tims k1) cpu") (auto simp: subset_singleton_iff)
  then show ?thesis
    using k1(1,2) quietD(2) [OF k1(3)] st(1) ts(3) by (simp add: sleeping_def)
qed

definition half_range_asleep :: kstate where
  "half_range_asleep = the (thread_sleep 0 (2 ^ 31) booted)"

lemma half_range_asleep_facts:
  "thread_sleep 0 (2 ^ 31) booted = Some half_range_asleep" "tick_inv half_range_asleep"
  "timer_queue (tims half_range_asleep) 0 = [StackTimer (Thr 5)]"
  "sched_time (tims half_range_asleep) (StackTimer (Thr 5)) = clock half_range_asleep + 2 ^ 31"
proof -
  let ?b = "boot_state 1 5 4096 7 8192 ''idle 0''"
  note q = booted_quiet
  have "tm_node (tmr (tims ?b) u) = None" if "\<forall>c. u \<noteq> PreemptTimer c" for u
    using that by (cases u) (simp_all add: boot_state_simps thread_init_timers, simp_all add: kernel_zero_def)
  then have z: "tm_node (tmr (tims booted) u) = None" if "\<forall>c. u \<noteq> PreemptTimer c" for u
    using that q by (cases u) (auto simp: quiet_def)
  have "u = Thr 5 \<or> (\<exists>c. u = Idle c)" if "live booted u" for u
    using that quietD(4) [OF q, of u] boot_state_simps(8) [of u 5 1 4096 7 8192 "''idle 0''"]
    by (cases "u = Idle 0"; cases "u = Thr 5") (auto simp: kernel_zero_def lk_defs)
  from half_range_sleep [OF booted_facts(2,3) booted_not_idle z this] obtain k1 where
    k1: "thread_sleep 0 (2 ^ 31) booted = Some k1" "kinv k1" "clock k1 = clock booted"
    "timer_queue (tims k1) 0 = [StackTimer (Thr 5)]"
    "sched_time (tims k1) (StackTimer (Thr 5)) = clock booted + 2 ^ 31" by blast
  then have e: "half_range_asleep = k1" by (simp add: half_range_asleep_def)
  show "thread_sleep 0 (2 ^ 31) booted = Some half_range_asleep"
    "timer_queue (tims half_range_asleep) 0 = [StackTimer (Thr 5)]"
    "sched_time (tims half_range_asleep) (StackTimer (Thr 5)) = clock half_range_asleep + 2 ^ 31"
    using k1 e by simp_all
  have "kallowed (0, Sleep (2 ^ 31)) (booted, \<lambda>_. Outside)"
    using booted_facts(3) booted_not_idle by (auto simp: calling_thread_def calling_def)
  from kcall_ok [OF user_ok_example _ this] have "side_inv k1 (\<lambda>_. Outside)"
    using booted_facts(2) booted_side k1(1) by auto
  then show "tick_inv half_range_asleep" using k1(2) e by (simp add: tick_inv_def side_inv_def)
qed

theorem timer_tick_terminates_witness:
  "(\<exists>k1 r. timer_tick_loop (\<lambda>n cpu now k. Some (k, INT_NO_RESCHEDULE)) 0
       (sched_time (tims booted) (PreemptTimer 0)) (Suc (length (timer_queue (tims booted) 0)))
       INT_NO_RESCHEDULE (upd_stats 0 (\<lambda>s. s\<lparr>timer_ints := timer_ints s + 1\<rparr>) booted) = Some (k1, r) \<and>
       kinv k1) \<and>
   thread_sleep 0 (2 ^ 31) booted = Some half_range_asleep \<and>
   timer_tick (\<lambda>n cpu now k. Some (k, INT_NO_RESCHEDULE)) 0 (clock half_range_asleep) 2
     half_range_asleep = None"
proof -
  let ?u = "\<lambda>n cpu now k. Some (k, INT_NO_RESCHEDULE)"
  let ?k = "half_range_asleep" and ?c = "clock half_range_asleep"
  have inv: "tick_inv booted" using booted_facts(2) booted_side by (simp add: tick_inv_def side_inv_def)
  note h = half_range_asleep_facts
  have hd: "peek_head 0 (tims ?k) = Some (StackTimer (Thr 5))" by (simp add: peek_head_def h)
  have lt: "TIME_LT ?c (sched_time (tims ?k) (StackTimer (Thr 5)))"
    unfolding h(4) by (simp add: TIME_LT_def)
  have "length (timer_queue (tims ?k) 0) < 2" by (simp add: h)
  from timer_tick_terminates [OF h(2) user_ok_example this, of ?c]
  have "timer_tick ?u 0 ?c 2 ?k = None"
    using hd lt by (auto simp: h(4) numeral_2_eq_2)
  then show ?thesis using timer_tick_terminates [OF inv user_ok_example lessI] h(1) by blast
qed

text \<open>
  C8 Setting a timer keeps the cpu's queue in the order of expiry, even when the 32-bit
  millisecond clock wraps: as long as all expiry times lie within twelve days of some base
  time, the queue is sorted by their distance from it, and the new timer is in it once.
\<close>

theorem timer_queue_stays_sorted:
  assumes "timers_ok ts" "queue_sorted base ts cpu" "tm_magic (tmr ts t) = TIMER_MAGIC"
    "tm_node (tmr ts t) = None" "near base (now + delay)"
  shows "\<exists>ts'. timer_set cpu now t delay period cb ts = Some ts' \<and> timers_ok ts' \<and>
           queue_sorted base ts' cpu \<and> t \<in> set (timer_queue ts' cpu) \<and> distinct (timer_queue ts' cpu) \<and>
           tm_scheduled_time (tmr ts' t) = now + delay"
proof -
  obtain ts' where ts': "timer_set cpu now t delay period cb ts = Some ts'" "timers_ok ts'"
    "tmr ts' t = (tmr ts t)\<lparr>tm_node := Some cpu, tm_scheduled_time := now + delay,
      tm_periodic_time := period, tm_callback := Some cb\<rparr>"
    using timer_set_ok [OF assms(1,4,3), of cpu now delay period cb] by blast
  have tn: "t \<notin> set (timer_queue ts cpu)" using timers_okD(1) [OF assms(1)] assms(4) by simp
  let ?ts = "ts\<lparr>tmr := (tmr ts)(t := (tmr ts t)\<lparr>tm_scheduled_time := now + delay,
     tm_periodic_time := period, tm_callback := Some cb\<rparr>)\<rparr>"
  have "queue_sorted base ?ts cpu"
    using assms(2) tn by (subst queue_sorted_cong [of _ _ ts]) auto
  then have s: "queue_sorted base (insert_timer_in_queue cpu t ?ts) cpu"
    using assms(5) by (intro queue_sorted_insert) simp_all
  have "queue_sorted base ts' cpu"
    using ts'(1) s assms(3,4)
    by (auto simp: timer_set_def Let_def platform_set_oneshot_timer_def queue_sorted_def split: if_splits)
  then show ?thesis
    using ts' timers_okD(1,2) [OF ts'(2)] by auto
qed

definition one_timer :: timer_state where
  "one_timer = the (timer_set 0 0xFFFFFFF0 (UserTimer 7) 32 0 (user_cb 1)
     (timer_initialize (UserTimer 7) (timer_initialize (UserTimer 8) (tims kernel_zero))))"

lemma one_timer_facts:
  "timers_ok one_timer" "timer_queue one_timer 0 = [UserTimer 7]"
  "sched_time one_timer (UserTimer 7) = 16" "tmr one_timer (UserTimer 8) = TIMER_INITIAL_VALUE"
  by (auto simp: one_timer_def timer_set_def timer_initialize_def TIMER_INITIAL_VALUE_def kernel_zero_def
      insert_timer_in_queue_def peek_head_def platform_set_oneshot_timer_def timers_ok_def)

theorem timer_queue_stays_sorted_witness:
  "\<exists>ts'. timer_set 0 0xFFFFFFF0 (UserTimer 8) 5 0 (user_cb 2) one_timer = Some ts' \<and>
         queue_sorted 0xFFFFFFF0 ts' 0 \<and> timer_queue ts' 0 = [UserTimer 8, UserTimer 7]"
proof -
  have "queue_sorted 0xFFFFFFF0 one_timer 0"
    by (simp add: queue_sorted_def one_timer_facts near_def)
  moreover have "near 0xFFFFFFF0 (0xFFFFFFF0 + 5)" by (simp add: near_def)
  ultimately obtain ts' where "timer_set 0 0xFFFFFFF0 (UserTimer 8) 5 0 (user_cb 2) one_timer = Some ts'"
    "queue_sorted 0xFFFFFFF0 ts' 0"
    using timer_queue_stays_sorted [OF one_timer_facts(1), of "0xFFFFFFF0" 0 "UserTimer 8" "0xFFFFFFF0" 5]
    by (auto simp: one_timer_facts TIMER_INITIAL_VALUE_def)
  moreover from this(1) have "timer_queue ts' 0 = [UserTimer 8, UserTimer 7]"
    by (auto simp: timer_set_def one_timer_facts TIMER_INITIAL_VALUE_def insert_timer_in_queue_def
        peek_head_def platform_set_oneshot_timer_def TIME_GT_def split: if_splits)
  ultimately show ?thesis by blast
qed

text \<open>
  A queue headed by an expired timer of other code whose period is more than half the range
  of the clock, while the next timer in the queue, if any, is due after that period.
\<close>

definition long_period_queue :: "nat \<Rightarrow> lk_time_t \<Rightarrow> taddr \<Rightarrow> nat \<Rightarrow> timer_state \<Rightarrow> bool" where
  "long_period_queue cpu now t m ts \<longleftrightarrow>
     (case timer_queue ts cpu of
        [] \<Rightarrow> False
      | v # q \<Rightarrow> v = t \<and> t \<notin> set q \<and>
          (case q of [] \<Rightarrow> True | u # _ \<Rightarrow> TIME_GT (sched_time ts u) (now + tm_periodic_time (tmr ts t)))) \<and>
     tm_magic (tmr ts t) = TIMER_MAGIC \<and> tm_node (tmr ts t) = Some cpu \<and>
     tm_callback (tmr ts t) = Some (user_cb m) \<and> 2 ^ 31 < tm_periodic_time (tmr ts t) \<and>
     \<not> TIME_LT now (sched_time ts t)"

lemma time_lt_long_period:
  assumes "2 ^ 31 < (p :: lk_time_t)"
  shows "\<not> TIME_LT now (now + p)"
proof -
  have "2 ^ 31 < uint p" "uint p < 2 ^ 32"
    using assms uint_lt2p [of p] by (simp_all add: word_less_def)
  moreover have "uint (- p) = (- uint p) mod 2 ^ 32" by (simp add: uint_word_ariths)
  moreover have "(- uint p) mod 2 ^ 32 = (2 ^ 32 - uint p) mod 2 ^ 32" by (simp add: mod_simps)
  moreover have "(2 ^ 32 - uint p) mod 2 ^ 32 = 2 ^ 32 - uint p"
    using \<open>2 ^ 31 < uint p\<close> \<open>uint p < 2 ^ 32\<close> by (intro mod_pos_pos_trivial) simp_all
  ultimately have "uint (- p) = 2 ^ 32 - uint p" by metis
  with \<open>2 ^ 31 < uint p\<close> have u: "uint (- p) < 2 ^ 31" by simp
  then have "sint (- p) = uint (- p)"
    using signed_take_bit_int_eq_self [of 31 "uint (- p)"] uint_ge_0 [of "- p"] by (simp add: sint_uint)
  then show ?thesis by (simp add: TIME_LT_def)
qed

lemma long_period_requeued:
  assumes lq: "long_period_queue cpu now t m ts"
  shows "long_period_queue cpu now t m (requeue_periodic cpu now t (timer_list_delete t ts))"
proof -
  obtain q where q: "timer_queue ts cpu = t # q" "t \<notin> set q"
    "\<And>u r. q = u # r \<Longrightarrow> TIME_GT (sched_time ts u) (now + tm_periodic_time (tmr ts t))"
    using lq by (auto simp: long_period_queue_def split: list.splits)
  have l: "tm_magic (tmr ts t) = TIMER_MAGIC" "tm_node (tmr ts t) = Some cpu"
    "tm_callback (tmr ts t) = Some (user_cb m)" "2 ^ 31 < tm_periodic_time (tmr ts t)"
    using lq by (simp_all add: long_period_queue_def)
  have "0 < tm_periodic_time (tmr ts t)" using l(4) by (metis order.strict_trans1 word_zero_le)
  then show ?thesis
    using q l time_lt_long_period [OF l(4), of now]
    by (cases q) (auto simp: long_period_queue_def requeue_periodic_def timer_list_delete_def
        insert_timer_in_queue_def)
qed

lemma long_period_round:
  assumes lq: "long_period_queue cpu now t m (tims k)"
    and cb: "\<And>k. \<exists>k' r. user m cpu now k = Some (k', r) \<and> tims k' = tims k"
  shows "\<exists>k' ret'. timer_tick_round user cpu now t ret k = Some (k', ret') \<and>
           long_period_queue cpu now t m (tims k')"
proof -
  let ?ts = "timer_list_delete t (tims k)"
  have l: "tm_magic (tmr (tims k) t) = TIMER_MAGIC" "tm_node (tmr (tims k) t) = Some cpu"
    "tm_callback (tmr (tims k) t) = Some (user_cb m)" "2 ^ 31 < tm_periodic_time (tmr (tims k) t)"
    using lq by (simp_all add: long_period_queue_def)
  have "0 < tm_periodic_time (tmr (tims k) t)" using l(4) by (metis order.strict_trans1 word_zero_le)
  moreover have "tmr ?ts t = (tmr (tims k) t)\<lparr>tm_node := None\<rparr>" using l(2) by (simp add: timer_list_delete_def)
  moreover obtain k1 r where "user m cpu now (upd_stats cpu (\<lambda>s. s\<lparr>timers_run := timers_run s + 1\<rparr>)
      (k\<lparr>tims := ?ts\<rparr>)) = Some (k1, r)" "tims k1 = ?ts"
    using cb [of "upd_stats cpu (\<lambda>s. s\<lparr>timers_run := timers_run s + 1\<rparr>) (k\<lparr>tims := ?ts\<rparr>)"] by auto
  ultimately show ?thesis
    using l long_period_requeued [OF lq] by (simp add: timer_tick_round_def fire_callback_def)
qed

lemma long_period_head:
  "long_period_queue cpu now t m ts \<Longrightarrow> peek_head cpu ts = Some t \<and> \<not> TIME_LT now (sched_time ts t)"
  by (auto simp: long_period_queue_def peek_head_def split: list.splits)

text \<open>
  C10 A periodic timer whose period is more than half the range of the clock has already
  expired when it is put back at the head of the queue, so the interrupt handler never leaves
  its loop, for any such timer and any callback that leaves the timers alone: for every
  number \<open>n\<close> the loop gets through \<open>n\<close> rounds without a failure and the timer at
  the head of the queue has again expired; so no amount of fuel gives a result.
\<close>

theorem long_period_timer_hangs:
  assumes "long_period_queue cpu now t m (tims k)"
    and "\<And>k. \<exists>k' r. user m cpu now k = Some (k', r) \<and> tims k' = tims k"
  shows "(\<exists>k' ret'. timer_tick_rounds user cpu now n ret k = Some (k', ret') \<and>
            peek_head cpu (tims k') = Some t \<and> \<not> TIME_LT now (sched_time (tims k') t)) \<and>
         timer_tick_loop user cpu now n ret k = None"
proof -
  have "\<exists>k' ret'. timer_tick_rounds user cpu now n ret k = Some (k', ret') \<and>
      long_period_queue cpu now t m (tims k')"
    using assms(1)
  proof (induction n arbitrary: k ret)
    case (Suc n)
    obtain k1 ret1 where "timer_tick_round user cpu now t ret k = Some (k1, ret1)"
      "long_period_queue cpu now t m (tims k1)"
      using long_period_round [where user = user, OF Suc.prems assms(2), of ret] by blast
    then show ?case using Suc.IH [of k1 ret1] long_period_head [OF Suc.prems] by simp
  qed simp
  then obtain k' ret' where k': "timer_tick_rounds user cpu now n ret k = Some (k', ret')"
    "long_period_queue cpu now t m (tims k')" by blast
  show ?thesis
    using k' long_period_head [OF k'(2)] timer_tick_rounds_loop [OF k'(1), of 0] by simp
qed

definition long_timer_state :: kstate where
  "long_timer_state = kernel_zero\<lparr>tims := the (timer_set_periodic 0 0 (UserTimer 7) 0x80000001 (user_cb 1)
     (timer_initialize (UserTimer 7) (tims kernel_zero)))\<rparr>"

theorem long_period_timer_hangs_witness:
  "(\<exists>k' ret'. timer_tick_rounds (\<lambda>n cpu now k. Some (k, INT_RESCHEDULE)) 0 0 1000 INT_NO_RESCHEDULE
       long_timer_state = Some (k', ret')) \<and>
   timer_tick_loop (\<lambda>n cpu now k. Some (k, INT_RESCHEDULE)) 0 0 1000 INT_NO_RESCHEDULE long_timer_state = None"
proof -
  have "long_period_queue 0 0 (UserTimer 7) 1 (tims long_timer_state)"
    by (simp add: long_period_queue_def long_timer_state_def timer_set_periodic_def timer_set_def
        timer_initialize_def TIMER_INITIAL_VALUE_def kernel_zero_def insert_timer_in_queue_def peek_head_def
        platform_set_oneshot_timer_def TIME_LT_def)
  from long_period_timer_hangs [OF this, of "\<lambda>n cpu now k. Some (k, INT_RESCHEDULE)" 1000] show ?thesis
    by blast
qed

section \<open>Inter-processor interrupts\<close>

text \<open>
  A reschedule request interrupts exactly the targeted cpus that are active, are not the
  caller's own, and are not running real-time threads (unless the request says so).
\<close>

lemma mp_reschedule_targets:
  "bit (mp_ipis (mp (mp_reschedule cpu target flags k))) c \<longleftrightarrow>
     bit (mp_ipis (mp k)) c \<or>
     bit target c \<and> bit (active_cpus (mp k)) c \<and> c \<noteq> cpu \<and>
     (flags AND MP_RESCHEDULE_FLAG_REALTIME = 0 \<longrightarrow> \<not> bit (realtime_cpus (mp k)) c)"
  by (auto simp: mp_reschedule_def mp_target_def Let_def bit_or_iff bit_and_iff bit_not_iff
      dest: bit_imp_le_length)

end
