(* ===== verification/Sync_Props.thy ===== *)
theory Sync_Props
  imports Kernel_Sem Kernel_Props
begin

text \<open>
  What mutexes, semaphores and events promise. The first two are properties of every
  interleaving of their operations, timeouts and unrelated kernel activity; events are
  described operation by operation.
\<close>

section \<open>Mutexes\<close>

text \<open>A fresh mutex in the booted kernel.\<close>

definition fresh_mutex :: mutex_sys where
  "fresh_mutex = (fst (mutex_init (ObjWq 9) booted), (snd (mutex_init (ObjWq 9) booted), Map.empty), 0, 0)"

lemma fresh_mutex_start: "mutex_start fresh_mutex"
  using booted_facts(2) booted_wq by (auto simp: fresh_mutex_def)

text \<open>The threads that own a mutex: its holder, and a thread it was handed to that has not run yet.\<close>

fun mutex_owners :: "mutex_sys \<Rightarrow> tid set" where
  "mutex_owners (m, s, p, n) = {t. m_holder m = Some t} \<union> granted (m_wait m) s"

text \<open>
  C12 Mutual exclusion: whatever the order of acquires, releases, timeouts and other kernel
  activity, on any cpus, at most one thread owns a mutex, where a waiter that a release has
  picked owns it from then on; and no call takes the mutex from a holder and gives it to
  another thread.
\<close>

theorem mutex_exclusion:
  assumes "reach mutex_start mutex_allowed mutex_exec (m, s, p, n)"
  shows "finite (mutex_owners (m, s, p, n)) \<and> card (mutex_owners (m, s, p, n)) \<le> 1 \<and>
    (\<forall>c m' s' p' n' t t'. mutex_allowed c (m, s, p, n) \<and> mutex_exec c (m, s, p, n) = Some (m', s', p', n') \<and>
       m_holder m = Some t \<and> m_holder m' = Some t' \<longrightarrow> t' = t)"
proof (intro conjI allI impI)
  have good: "mutex_good (m, s, p, n)" by (rule mtx.reach_good [OF assms])
  have sub: "mutex_owners (m, s, p, n) \<subseteq> {t}" if "t \<in> mutex_owners (m, s, p, n)" for t
    using that mutex_goodD(2,3) [OF good] by auto
  then have "mutex_owners (m, s, p, n) = {} \<or> (\<exists>t. mutex_owners (m, s, p, n) = {t})" by blast
  then show "finite (mutex_owners (m, s, p, n))" "card (mutex_owners (m, s, p, n)) \<le> 1"
    by (metis finite.emptyI finite.insertI, metis card.empty card_1_singleton_iff One_nat_def le0 order_refl)
  fix c m' s' p' n' t t'
  assume "mutex_allowed c (m, s, p, n) \<and> mutex_exec c (m, s, p, n) = Some (m', s', p', n') \<and>
       m_holder m = Some t \<and> m_holder m' = Some t'"
  then show "t' = t" using mutex_holder_kept [OF good] by blast
qed

theorem mutex_exclusion_witness:
  "card (mutex_owners fresh_mutex) \<le> 1"
proof -
  have "reach mutex_start mutex_allowed mutex_exec fresh_mutex" by (rule reach_start) (rule fresh_mutex_start)
  from mutex_exclusion [OF this [unfolded fresh_mutex_def]] show ?thesis by (simp only: fresh_mutex_def)
qed

text \<open>
  C13 A mutex refines the abstract token object with one token: from every reachable state
  every allowed call of \<^verbatim>\<open>kernel/mutex.c\<close> runs without failing an assertion and
  makes a step of that object (take a free token, join the queue, hand the token to the
  first waiter, give up after a timeout), which never makes up or loses a token.
\<close>

theorem mutex_refines_tokens:
  assumes "reach mutex_start mutex_allowed mutex_exec s" "mutex_allowed c s"
  shows "\<exists>s'. mutex_exec c s = Some s' \<and> tok_step (mutex_tokens s) (mutex_tokens s') \<and> tok_inv (mutex_tokens s')"
  by (rule mtx.reach_simulates [OF assms])

lemma fresh_mutex_take: "mutex_allowed (Take 0 INFINITE_TIME) fresh_mutex"
proof -
  have "may_wait 0 (wait_queue_init (ObjWq 9) booted, Map.empty) (Thr 5)"
    using booted_init booted_timer by (simp add: may_wait_def wait_queue_init_def)
  then show ?thesis by (auto simp: fresh_mutex_def mutex_init_def)
qed

theorem mutex_refines_tokens_witness:
  "\<exists>s'. mutex_exec (Take 0 INFINITE_TIME) fresh_mutex = Some s' \<and>
        tok_step (mutex_tokens fresh_mutex) (mutex_tokens s') \<and> tok_inv (mutex_tokens s')"
  using mutex_refines_tokens [OF _ fresh_mutex_take] reach_start [of mutex_start] fresh_mutex_start by blast

text \<open>
  C16 The timeout race of \<open>mutex_acquire_timeout\<close>: a waiter has timed out but has not
  run yet, so its share is still in the count. When the holder releases the mutex and asks
  for it again, without a timeout, it blocks although nobody holds the mutex; from then on,
  whatever calls follow, the mutex stays without a holder and no call gives it to anybody.
\<close>

theorem mutex_timeout_race_stalls:
  assumes good: "mutex_good (m, (k, ins), p, n)"
    and h: "m_holder m = Some h" "current k cpu = Some h" "may_wait cpu (k, ins) h"
    and q: "waiters (m_wait m) (k, ins) = []" and l: "late (m_wait m) (k, ins) \<noteq> {}"
    and al: "\<And>s. run_calls mutex_exec [Put cpu True, Take cpu INFINITE_TIME] (m, (k, ins), p, n) = Some s \<Longrightarrow>
        calls_allowed mutex_allowed mutex_exec cs s"
  shows "\<exists>s m' s' p' n'. run_calls mutex_exec [Put cpu True, Take cpu INFINITE_TIME] (m, (k, ins), p, n) = Some s \<and>
           run_calls mutex_exec cs s = Some (m', s', p', n') \<and> m_holder m' = None \<and>
           granted (m_wait m') s' = {} \<and> waiters (m_wait m') s' \<noteq> []"
proof -
  let ?w = "m_wait m" and ?m1 = "m\<lparr>m_holder := None, m_count := m_count m - 1\<rparr>"
  have ok: "waits_ok ?w (k, ins)" and mg: "m_magic m = MUTEX_MAGIC" using good by simp_all
  let ?p = "p + 1" and ?i = "ins(h \<mapsto> INFINITE_TIME)" and ?m2 = "m\<lparr>m_holder := None, m_count := m_count m\<rparr>"
  have lc: "0 < card (late ?w (k, ins))" using l waits_okD(7) [OF ok] by (simp add: card_gt_0_iff)
  have c: "m_count m = 1 + int (card (late ?w (k, ins)))"
    using mutex_goodD(2) [OF good] h(1) q by (simp add: tokens_of_def)
  have ni: "\<not> is_idle k h" using h(3) by (simp add: may_wait_def)
  have alp: "mutex_allowed (Put cpu True) (m, (k, ins), p, n)" using h ni by simp
  have wk: "wait_queue_wake_one cpu ?w True NO_ERROR k = Some (0, k)"
    using waits_okD(2) [OF ok] q h(2) by (simp add: wait_queue_wake_one_def)
  then have put: "mutex_exec (Put cpu True) (m, (k, ins), p, n) = Some (?m1, (k, ins), ?p, n)"
    using mg h c lc by (simp add: mutex_release_def)
  then have good1: "mutex_good (?m1, (k, ins), ?p, n)" using mtx.call_good [OF good alp] by auto
  obtain k' where k': "wait_queue_block cpu ?w INFINITE_TIME k = Some (Blocks, k')"
    "waiters ?w (k', ?i) = waiters ?w (k, ins) @ [h]" "late ?w (k', ?i) = late ?w (k, ins)"
    using waits_block [OF ok h(3), of INFINITE_TIME] by (auto simp: lk_defs)
  have take: "mutex_exec (Take cpu INFINITE_TIME) (?m1, (k, ins), ?p, n) = Some (?m2, (k', ?i), ?p, n)"
    using mg h(2) c lc k'(1) by (simp add: mutex_acquire_timeout_def)
  have alt: "mutex_allowed (Take cpu INFINITE_TIME) (?m1, (k, ins), ?p, n)" using h(3) by auto
  have good2: "mutex_good (?m2, (k', ?i), ?p, n)" using mtx.call_good [OF good1 alt] take by auto
  have st: "mutex_stalled (?m2, (k', ?i), ?p, n)"
    by (rule mutex_stalledI [of _ h]) (use k' q c in simp_all)
  have run: "run_calls mutex_exec [Put cpu True, Take cpu INFINITE_TIME] (m, (k, ins), p, n) =
      Some (?m2, (k', ?i), ?p, n)" using put take by simp
  obtain m' s' p' n' where e: "run_calls mutex_exec cs (?m2, (k', ?i), ?p, n) = Some (m', s', p', n')"
    "mutex_good (m', s', p', n')" "mutex_stalled (m', s', p', n')"
    using mutex_stalled_forever [OF good2 st al [OF run]] by (metis prod_cases4)
  have "m_holder m' = None" "waiters (m_wait m') s' \<noteq> []" using e(3) by auto
  then show ?thesis using run e(1) stalled_count(2) [OF e(2,3)] by metis
qed

text \<open>A mutex held by the booted thread, with a waiter that has timed out and not run yet.\<close>

lemma booted_dead: "t \<noteq> Idle 0 \<Longrightarrow> t \<noteq> Thr 5 \<Longrightarrow> \<not> live booted t"
proof -
  assume t: "t \<noteq> Idle 0" "t \<noteq> Thr 5"
  let ?b = "boot_state 1 5 4096 7 8192 ''idle 0''"
  have "thread_yield 0 ?b = Some booted" using booted_facts(1) lk_main_boot_state by simp
  moreover have "rescheduled 0 ?b (thread_yield 0 ?b)"
    by (rule thread_yield_ok [where t = "Idle 0", OF boot_state_inv]) (simp_all add: boot_state_simps)
  ultimately have "live booted t = live ?b t" by (auto simp: rescheduled_def dest: quietD(4))
  then show ?thesis using boot_state_simps(8) [OF t] by (simp add: kernel_zero_def lk_defs)
qed

definition race_kernel :: kstate where
  "race_kernel =
     (let k = wait_queue_init (ObjWq 9) booted;
          k = k\<lparr>tims := timer_initialize (StackTimer (Thr 6)) (tims k)\<rparr>
      in upd_thread (Thr 6) (\<lambda>th. th\<lparr>t_wait_queue_block_ret := ERR_TIMED_OUT\<rparr>) k)"

definition race_mutex :: mutex where
  "race_mutex = \<lparr>m_magic = MUTEX_MAGIC, m_holder = Some (Thr 5), m_count = 2, m_wait = ObjWq 9\<rparr>"

lemma race_kernel_inv: "kinv race_kernel"
proof -
  let ?k = "wait_queue_init (ObjWq 9) booted" and ?t = "StackTimer (Thr 6)"
  have i: "tims ?k = tims booted" "thr ?k = thr booted" "current ?k = current booted"
    by (simp_all add: wait_queue_init_def upd_wq_def)
  note inv = booted_init(1) and p = sched_invD(6) [OF booted_init(1)]
  have nl: "\<not> live booted (Thr 6)" by (rule booted_dead) simp_all
  have ok: "timers_ok (timer_initialize ?t (tims ?k))"
    using p dead_timer [OF booted_side nl] by (simp add: i inv_t_def timers_ok_initialize)
  have "inv_t (?k\<lparr>tims := timer_initialize ?t (tims ?k)\<rparr>)"
    by (rule inv_t_update [OF p]) (use ok nl in \<open>auto simp: i timer_initialize_def\<close>)
  from sched_inv_tims [OF inv this] show ?thesis
    by (simp add: race_kernel_def Let_def sched_inv_upd_thread_view tview_def)
qed

lemma race_facts:
  "waiters (ObjWq 9) (race_kernel, [Thr 6 \<mapsto> 5]) = []" "late (ObjWq 9) (race_kernel, [Thr 6 \<mapsto> 5]) = {Thr 6}"
  "granted (ObjWq 9) (race_kernel, [Thr 6 \<mapsto> 5]) = {}" "waits_ok (ObjWq 9) (race_kernel, [Thr 6 \<mapsto> 5])"
  "mutex_good (race_mutex, (race_kernel, [Thr 6 \<mapsto> 5]), 0, 1)"
  "may_wait 0 (race_kernel, [Thr 6 \<mapsto> 5]) (Thr 5)"
proof -
  let ?s = "(race_kernel, [Thr 6 \<mapsto> (5 :: lk_time_t)])"
  have w: "wqs race_kernel (ObjWq 9) = WAIT_QUEUE_INITIAL_VALUE"
    by (simp add: race_kernel_def Let_def wait_queue_init_def)
  have r: "block_ret race_kernel (Thr 6) = ERR_TIMED_OUT" by (simp add: race_kernel_def Let_def)
  have m: "tm_magic (tmr (tims race_kernel) (StackTimer (Thr 6))) = TIMER_MAGIC"
    by (simp add: race_kernel_def Let_def timer_initialize_def TIMER_INITIAL_VALUE_def)
  show q: "waiters (ObjWq 9) ?s = []" by (simp add: w WAIT_QUEUE_INITIAL_VALUE_def)
  show l: "late (ObjWq 9) ?s = {Thr 6}" and g: "granted (ObjWq 9) ?s = {}"
    using q r by (auto simp: late_def granted_def lk_defs split: if_splits)
  show ok: "waits_ok (ObjWq 9) ?s"
    using race_kernel_inv w r m by (simp add: waits_ok.simps WAIT_QUEUE_INITIAL_VALUE_def)
  show "mutex_good (race_mutex, ?s, 0, 1)"
    using ok q l g by (simp add: race_mutex_def tok_inv_def tokens_of_def)
  show "may_wait 0 ?s (Thr 5)"
    using booted_init(2,3) booted_timer
    by (simp add: may_wait_def race_kernel_def Let_def wait_queue_init_def timer_initialize_def)
qed

theorem mutex_timeout_race_stalls_witness:
  "\<exists>s m' s' p' n'. run_calls mutex_exec [Put 0 True, Take 0 INFINITE_TIME]
       (race_mutex, (race_kernel, [Thr 6 \<mapsto> 5]), 0, 1) = Some s \<and>
     run_calls mutex_exec [] s = Some (m', s', p', n') \<and> m_holder m' = None \<and>
     granted (m_wait m') s' = {} \<and> waiters (m_wait m') s' \<noteq> []"
proof -
  have "current race_kernel 0 = Some (Thr 5)" using race_facts(6) by (simp add: may_wait_def)
  then show ?thesis
    using mutex_timeout_race_stalls [OF race_facts(5) _ _ race_facts(6), of "[]"] race_facts(1,2)
    by (simp add: race_mutex_def)
qed

section \<open>Semaphores\<close>

text \<open>
  C14 A semaphore never hands out more than it has: in every reachable state, the waits that
  have succeeded together with the waiters that have been picked but have not run yet are at
  most the initial value plus the posts, and every allowed call runs. \<open>p\<close> is the
  initial value plus the posts so far, \<open>n\<close> the successful waits.
\<close>

theorem sem_never_overcommits:
  assumes "reach sem_start sem_allowed sem_exec (m, s, p, n)"
  shows "n + int (card (granted (s_wait m) s)) \<le> p \<and>
    s_count m \<le> p - n \<and>
    (\<forall>c. sem_allowed c (m, s, p, n) \<longrightarrow> (\<exists>s'. sem_exec c (m, s, p, n) = Some s'))"
proof -
  have t: "tok_inv (sem_tokens (m, s, p, n))" by (rule semo.reach_tokens [OF assms])
  then have "p = tk_free (sem_tokens (m, s, p, n)) + n + int (card (granted (s_wait m) s))"
    "0 \<le> tk_free (sem_tokens (m, s, p, n))"
    by (simp_all add: tok_inv_def tokens_of_def)
  moreover have "s_count m \<le> tk_free (sem_tokens (m, s, p, n))" by (simp add: tokens_of_def)
  moreover have "\<exists>s'. sem_exec c (m, s, p, n) = Some s'" if "sem_allowed c (m, s, p, n)" for c
    using semo.reach_not_stuck [OF assms that] by blast
  ultimately show ?thesis by auto
qed

definition fresh_sem :: sem_sys where
  "fresh_sem = (fst (sem_init (ObjWq 9) 3 booted), (snd (sem_init (ObjWq 9) 3 booted), Map.empty), 3, 0)"

theorem sem_never_overcommits_witness:
  "s_count (fst fresh_sem) \<le> 3"
proof -
  have "sem_start fresh_sem"
    using booted_facts(2) booted_wq by (auto simp: fresh_sem_def intro!: exI [of _ "ObjWq 9"] exI [of _ "3 :: u32"])
  then have "reach sem_start sem_allowed sem_exec fresh_sem" by (rule reach_start)
  from sem_never_overcommits [OF this [unfolded fresh_sem_def]] show ?thesis by (simp add: fresh_sem_def)
qed

section \<open>Events\<close>

text \<open>
  C15 Signalling an event that is not signalled: an auto-unsignal event with waiters releases
  exactly the first one and stays unsignalled; without waiters it becomes signalled; an
  event without the flag releases every waiter and stays signalled. Every released thread
  gets \<open>NO_ERROR\<close>.
\<close>

theorem event_signal_releases:
  assumes inv: "kinv k" and cur: "current k cpu = Some self" and r: "r \<longrightarrow> \<not> is_idle k self"
    and e: "e_magic e = EVENT_MAGIC" "\<not> e_signaled e" "wq_magic (wqs k (e_wait e)) = WAIT_QUEUE_MAGIC"
  shows "\<exists>e' k'. event_signal cpu r (e, k) = Some (NO_ERROR, e', k') \<and> kinv k' \<and>
    (let q = wq_list (wqs k (e_wait e)); released = (if autounsignal e then take 1 q else q)
     in e' = e\<lparr>e_signaled := \<not> autounsignal e \<or> q = []\<rparr> \<and>
        wq_list (wqs k' (e_wait e)) = drop (length released) q \<and>
        (\<forall>t \<in> set released. ready_or_running (state_of k' t) \<and> t_wait_queue_block_ret (thr k' t) = NO_ERROR))"
proof (cases "autounsignal e")
  case True
  let ?w = "e_wait e" and ?q = "wq_list (wqs k (e_wait e))"
  obtain k' where k': "wait_queue_wake_one cpu ?w r NO_ERROR k = Some (if ?q = [] then 0 else 1, k')" "kinv k'"
    "quiet cpu (woken ?w NO_ERROR k) k'"
    using wait_queue_wake_one_ok [OF inv cur e(3), of r NO_ERROR] r by blast
  have "wqs k' ?w = wqs (woken ?w NO_ERROR k) ?w" using quietD(1) [OF k'(3)] by simp
  then have l: "wq_list (wqs k' ?w) = drop 1 ?q"
    by (cases ?q) (simp_all add: woken_def)
  have rel: "ready_or_running (state_of k' t) \<and> t_wait_queue_block_ret (thr k' t) = NO_ERROR"
    if t1: "t \<in> set (take 1 ?q)" for t
  proof -
    obtain ts where q: "?q = t # ts" using t1 by (cases ?q) auto
    then have u: "woken ?w NO_ERROR k = unblocked ?w t NO_ERROR k" by (simp add: woken_def)
    show ?thesis
      using k'(3) quietD(7) [OF k'(3), of t] unfolding quiet_def u
      by (auto dest!: spec [of _ t])
  qed
  have "e\<lparr>e_signaled := False\<rparr> = e" using e(2) by simp
  then show ?thesis
    using True e k' l rel by (cases ?q) (auto simp: event_signal_def Let_def)
next
  case False
  let ?w = "e_wait e" and ?q = "wq_list (wqs k (e_wait e))"
  obtain k' where k': "wait_queue_wake_all cpu ?w r NO_ERROR k = Some (int (length ?q), k')" "kinv k'"
    "quiet cpu (unblock_all ?w NO_ERROR k) k'"
    using wait_queue_wake_all_ok [OF inv cur e(3), of r NO_ERROR] r by blast
  have l: "wq_list (wqs k' ?w) = []" using quietD(1) [OF k'(3)] by (simp add: unblock_all_def)
  have rel: "ready_or_running (state_of k' t) \<and> t_wait_queue_block_ret (thr k' t) = NO_ERROR"
    if "t \<in> set ?q" for t
    using k'(3) quietD(7) [OF k'(3), of t] that unfolding quiet_def
    by (auto simp: unblock_all_thr dest!: spec [of _ t])
  show ?thesis using False e k' l rel by (simp add: event_signal_def)
qed

theorem event_signal_releases_witness:
  "\<exists>e' k'. event_signal 0 False
       (\<lparr>e_magic = EVENT_MAGIC, e_signaled = False, e_flags = EVENT_FLAG_AUTOUNSIGNAL, e_wait = ObjWq 9\<rparr>,
        one_waiting) = Some (NO_ERROR, e', k') \<and> \<not> e_signaled e' \<and> ready_or_running (state_of k' (Thr 5))"
proof -
  obtain self where "current one_waiting 0 = Some self" using one_waiting_facts(4) by blast
  from event_signal_releases [OF one_waiting_facts(1) this, of False
      "\<lparr>e_magic = EVENT_MAGIC, e_signaled = False, e_flags = EVENT_FLAG_AUTOUNSIGNAL, e_wait = ObjWq 9\<rparr>"]
  show ?thesis
    using one_waiting_facts(2,3) by (auto simp: Let_def autounsignal_def lk_defs)
qed

text \<open>
  A wait on a signalled event returns at once with \<open>NO_ERROR\<close> and takes the signal
  of an auto-unsignal event with it, so that a signal without waiters lets exactly one wait
  through: signalling and then waiting gives the event back unsignalled, and the next wait
  without a timeout blocks its caller.
\<close>

lemma event_signal_wait_roundtrip:
  assumes inv: "kinv k" and cur: "current k cpu = Some t" and ni: "\<not> is_idle k t"
    and e: "e_magic e = EVENT_MAGIC" "\<not> e_signaled e" "wq_magic (wqs k (e_wait e)) = WAIT_QUEUE_MAGIC"
    and au: "autounsignal e" and q: "wq_list (wqs k (e_wait e)) = []"
  shows "\<exists>e1 k'. event_signal cpu r (e, k) = Some (NO_ERROR, e1, k) \<and> e_signaled e1 \<and>
    event_wait cpu (e1, k) = Some (Returns NO_ERROR, e, k) \<and>
    event_wait cpu (e, k) = Some (Blocks, e, k') \<and> state_of k' t = THREAD_BLOCKED \<and>
    wq_list (wqs k' (e_wait e)) = [t]"
proof -
  have wk: "wait_queue_wake_one cpu (e_wait e) r NO_ERROR k = Some (0, k)"
    using cur e(3) q by (simp add: wait_queue_wake_one_def)
  have eq: "e\<lparr>e_signaled := False\<rparr> = e" "autounsignal (e\<lparr>e_signaled := True\<rparr>)"
    using e(2) au by (simp_all add: autounsignal_def)
  obtain ts k' where b: "wait_queue_block cpu (e_wait e) INFINITE_TIME k = Some (Blocks, k')"
    "quiet cpu (blocked (e_wait e) t ts k) k'"
    using wait_queue_block_ok [OF inv cur ni e(3), of INFINITE_TIME] by (auto simp: lk_defs rescheduled_def)
  have "state_of k' t = THREAD_BLOCKED" using quiet_state [OF b(2), of THREAD_BLOCKED t] by (simp add: blocked_def)
  moreover have "wq_list (wqs k' (e_wait e)) = [t]" using quietD(1) [OF b(2)] q by (simp add: blocked_def)
  ultimately show ?thesis
    using e au wk b(1) eq
    by (intro exI [of _ "e\<lparr>e_signaled := True\<rparr>"] exI [of _ k'])
      (simp add: event_signal_def event_wait_def event_wait_timeout_def)
qed

end
