(* ===== verification/Lib_Fifo.thy ===== *)
theory Lib_Fifo
  imports LK_Prelude
begin

text \<open>
  The contract the bounded byte and packet queues of the kernel share, and the arithmetic of
  a ring stored in an array. \<open>bounded_fifo\<close> says what a writer and a reader see of a
  queue: elements come out in the order they went in, none is lost and none is made up, and
  there are never more than the capacity. The client lemmas are about arbitrary sequences of
  writes and reads.
\<close>

section \<open>Rings\<close>

text \<open>\<open>n\<close> elements of the array from index \<open>t\<close> on, wrapping around its end.\<close>

definition ring :: "nat \<Rightarrow> nat \<Rightarrow> 'a list \<Rightarrow> 'a list" where
  "ring t n b = map (\<lambda>i. b ! ((t + i) mod length b)) [0..<n]"

text \<open>\<^verbatim>\<open>memcpy(b + h, xs, length xs)\<close>, within the bounds of \<open>b\<close>.\<close>

definition store :: "nat \<Rightarrow> 'a list \<Rightarrow> 'a list \<Rightarrow> 'a list" where
  "store h xs b = take h b @ xs @ drop (h + length xs) b"

lemma length_ring [simp]: "length (ring t n b) = n"
  by (simp add: ring_def)

lemma ring_0 [simp]: "ring t 0 b = []"
  by (simp add: ring_def)

lemma nth_ring [simp]: "i < n \<Longrightarrow> ring t n b ! i = b ! ((t + i) mod length b)"
  by (simp add: ring_def)

lemma length_store [simp]: "h + length xs \<le> length b \<Longrightarrow> length (store h xs b) = length b"
  by (simp add: store_def)

lemma nth_store:
  assumes "h + length xs \<le> length b" "i < length b"
  shows "store h xs b ! i = (if h \<le> i \<and> i < h + length xs then xs ! (i - h) else b ! i)"
  using assms by (auto simp: store_def nth_append min_def)

lemma store_one: "h < length b \<Longrightarrow> store h [x] b = b[h := x]"
  by (simp add: store_def upd_conv_take_nth_drop)

lemma mod_add_inj:
  fixes x :: nat
  assumes eq: "(t + x) mod N = (t + y) mod N" and "x < N" "y < N"
  shows "x = y"
proof -
  have no: "\<not> a < b" if "(t + a) mod N = (t + b) mod N" "b < N" for a b
  proof
    assume "a < b"
    then have "N dvd b - a" using that mod_eq_dvd_iff_nat [of "t + a" "t + b" N] by simp
    then show False using \<open>a < b\<close> \<open>b < N\<close> by (simp add: nat_dvd_not_less)
  qed
  from no [OF eq assms(3)] no [OF eq [symmetric] assms(2)] show ?thesis by simp
qed

text \<open>Storing behind the last element of a ring appends to it.\<close>

lemma ring_store:
  assumes "n + length xs \<le> length b" "h + length xs \<le> length b" "h < length b" "h = (t + n) mod length b"
  shows "ring t (n + length xs) (store h xs b) = ring t n b @ xs"
proof (rule nth_equalityI)
  show "length (ring t (n + length xs) (store h xs b)) = length (ring t n b @ xs)" by simp
  fix i
  assume "i < length (ring t (n + length xs) (store h xs b))"
  then have i: "i < n + length xs" by simp
  let ?N = "length b" and ?j = "(t + i) mod length b"
  have N: "0 < ?N" using assms(3) by auto
  have j: "?j < ?N" using N by simp
  have mod: "(t + (n + d)) mod ?N = h + d" if "d < length xs" for d
  proof -
    have "(t + (n + d)) mod ?N = (h + d) mod ?N"
      using assms(4) by (simp add: mod_add_left_eq add.assoc)
    then show ?thesis using that assms(2) by simp
  qed
  show "ring t (n + length xs) (store h xs b) ! i = (ring t n b @ xs) ! i"
  proof (cases "n \<le> i")
    case True
    then obtain d where d: "i = n + d" "d < length xs" using i by (metis le_Suc_ex nat_add_left_cancel_less)
    then show ?thesis
      using mod [OF d(2)] nth_store [OF assms(2), of "h + d"] assms(1,2) by (simp add: nth_append)
  next
    case False
    have "\<not> (h \<le> ?j \<and> ?j < h + length xs)"
    proof
      assume "h \<le> ?j \<and> ?j < h + length xs"
      then obtain d where d: "?j = h + d" "d < length xs" by (metis add_less_cancel_left le_Suc_ex)
      then have "(t + (n + d)) mod ?N = (t + i) mod ?N" using mod by simp
      then have "?N dvd (n + d) - i"
        using False mod_eq_dvd_iff_nat [of "t + i" "t + (n + d)" ?N] by simp
      moreover have "0 < n + d - i" "n + d - i < ?N" using False d(2) assms(1) by auto
      ultimately show False by (simp add: nat_dvd_not_less)
    qed
    then have "store h xs b ! ?j = b ! ?j" using nth_store [OF assms(2) j] by argo
    then show ?thesis using False i assms(2) by (simp add: nth_append)
  qed
qed

text \<open>Reading from the front.\<close>

lemma ring_take: "m \<le> n \<Longrightarrow> take m (ring t n b) = ring t m b"
  by (simp add: ring_def take_map)

lemma ring_drop: "m \<le> n \<Longrightarrow> drop m (ring t n b) = ring ((t + m) mod length b) (n - m) b"
  by (rule nth_equalityI) (auto simp: mod_add_left_eq add.assoc)

lemma ring_flat: "t + n \<le> length b \<Longrightarrow> ring t n b = take n (drop t b)"
  by (rule nth_equalityI) auto

section \<open>The contract\<close>

datatype 'a fifo_op = Put_op "'a list" | Get_op nat

locale bounded_fifo =
  fixes inv :: "'q \<Rightarrow> bool" and contents :: "'q \<Rightarrow> 'a list" and cap :: "'q \<Rightarrow> nat"
    and put :: "'a list \<Rightarrow> 'q \<Rightarrow> nat \<times> 'q" and get :: "nat \<Rightarrow> 'q \<Rightarrow> 'a list \<times> 'q"
  assumes bounded: "inv q \<Longrightarrow> length (contents q) \<le> cap q"
    and put_law: "inv q \<Longrightarrow> put xs q = (n, q') \<Longrightarrow>
          inv q' \<and> cap q' = cap q \<and> n \<le> length xs \<and> contents q' = contents q @ take n xs \<and>
          (length (contents q) + length xs \<le> cap q \<longrightarrow> n = length xs)"
    and get_law: "inv q \<Longrightarrow> get n q = (ys, q') \<Longrightarrow>
          inv q' \<and> cap q' = cap q \<and> ys = take n (contents q) \<and> contents q' = drop n (contents q)"
begin

text \<open>The elements accepted and delivered in a sequence of operations, and the queue at its end.\<close>

primrec run :: "'a fifo_op list \<Rightarrow> 'q \<Rightarrow> 'a list \<times> 'a list \<times> 'q" where
  "run [] q = ([], [], q)"
| "run (c # cs) q =
     (case c of
        Put_op xs \<Rightarrow> (case put xs q of (n, q) \<Rightarrow> case run cs q of (a, d, q) \<Rightarrow> (take n xs @ a, d, q))
      | Get_op n \<Rightarrow> (case get n q of (ys, q) \<Rightarrow> case run cs q of (a, d, q) \<Rightarrow> (a, ys @ d, q)))"

lemma run_fifo:
  "inv q \<Longrightarrow> run cs q = (a, d, q') \<Longrightarrow>
   inv q' \<and> cap q' = cap q \<and> length (contents q') \<le> cap q \<and> d @ contents q' = contents q @ a"
proof (induction cs arbitrary: q a d q')
  case Nil
  then show ?case using bounded by auto
next
  case (Cons c cs)
  show ?case
  proof (cases c)
    case (Put_op xs)
    obtain n q1 where p: "put xs q = (n, q1)" by (cases "put xs q")
    obtain a1 d1 q2 where r: "run cs q1 = (a1, d1, q2)" by (cases "run cs q1") auto
    have e: "a = take n xs @ a1" "d = d1" "q' = q2" using Cons.prems(2) by (simp_all add: Put_op p r)
    have l: "inv q1" "cap q1 = cap q" "contents q1 = contents q @ take n xs"
      using put_law [OF Cons.prems(1) p] by simp_all
    show ?thesis using Cons.IH [OF l(1) r] l e by simp
  next
    case (Get_op n)
    obtain ys q1 where p: "get n q = (ys, q1)" by (cases "get n q")
    obtain a1 d1 q2 where r: "run cs q1 = (a1, d1, q2)" by (cases "run cs q1") auto
    have e: "a = a1" "d = ys @ d1" "q' = q2" using Cons.prems(2) by (simp_all add: Get_op p r)
    have l: "inv q1" "cap q1 = cap q" "ys = take n (contents q)" "contents q1 = drop n (contents q)"
      using get_law [OF Cons.prems(1) p] by simp_all
    have "ys @ (d1 @ contents q2) = contents q @ a1"
      using Cons.IH [OF l(1) r] l(3,4) by (metis append.assoc append_take_drop_id)
    then show ?thesis using Cons.IH [OF l(1) r] l(2) e by simp
  qed
qed

text \<open>What fits comes back in one piece.\<close>

lemma put_get:
  assumes "inv q" "contents q = []" "length xs \<le> cap q"
  shows "\<exists>q1 q2. put xs q = (length xs, q1) \<and> get (length xs) q1 = (xs, q2) \<and> contents q2 = []"
proof -
  obtain n q1 where p: "put xs q = (n, q1)" by (cases "put xs q")
  obtain ys q2 where g: "get (length xs) q1 = (ys, q2)" by (cases "get (length xs) q1")
  show ?thesis using put_law [OF assms(1) p] get_law [OF _ g] p g assms by auto
qed

end

text \<open>A queue that also takes as much of a write as fits.\<close>

locale greedy_fifo = bounded_fifo inv contents cap put get
  for inv :: "'q \<Rightarrow> bool" and contents :: "'q \<Rightarrow> 'a list" and cap :: "'q \<Rightarrow> nat"
    and put :: "'a list \<Rightarrow> 'q \<Rightarrow> nat \<times> 'q" and get :: "nat \<Rightarrow> 'q \<Rightarrow> 'a list \<times> 'q" +
  assumes put_greedy: "inv q \<Longrightarrow> put xs q = (n, q') \<Longrightarrow> n = min (length xs) (cap q - length (contents q))"
begin

lemma put_full:
  "inv q \<Longrightarrow> put xs q = (n, q') \<Longrightarrow> n < length xs \<Longrightarrow> length (contents q') = cap q"
  using put_greedy [of q xs n q'] put_law [of q xs n q'] bounded [of q] by (auto simp: min_def split: if_splits)

end

end
