(* ===== verification/Lib_Cbuf.thy ===== *)
theory Lib_Cbuf
  imports Lib_Fifo Kernel_Sync
begin

text \<open>
  The circular byte buffer of \<^verbatim>\<open>lib/cbuf/cbuf.c\<close>: head and tail are 32-bit
  indices into an array of \<open>2 ^ len_pow2\<close> bytes, of which one always stays free; an event
  says whether there is data. The operations hold the buffer's spin lock with interrupts
  off, so each is one atomic step. The loops that copy are functions on the buffer alone;
  the operations add the event, and so the kernel state.
\<close>

record cbuf =
  cb_head :: u32
  cb_tail :: u32
  cb_len_pow2 :: nat
  cb_buf :: "u8 list"
  cb_event :: event

definition INC_POINTER :: "cbuf \<Rightarrow> u32 \<Rightarrow> nat \<Rightarrow> u32" where
  "INC_POINTER c ptr inc = modpow2 (ptr + of_nat inc) (cb_len_pow2 c)"

text \<open>The length is a \<^verbatim>\<open>size_t\<close>; \<^verbatim>\<open>ispow2\<close> and \<^verbatim>\<open>log2_uint\<close> take its low 32 bits.\<close>

definition cbuf_initialize_etc ::
  "u64 \<Rightarrow> u8 list \<Rightarrow> wqaddr \<Rightarrow> kstate \<Rightarrow> (cbuf \<times> kstate) option" where
  "cbuf_initialize_etc len buf w k = do {
     ASSERT (len > 0);
     ASSERT (ispow2 (ucast len :: u32));
     let (e, k) = event_init w False 0 k;
     Some (\<lparr>cb_head = 0, cb_tail = 0, cb_len_pow2 = log2_uint (ucast len), cb_buf = buf, cb_event = e\<rparr>, k)
   }"

text \<open>
  The memory \<^verbatim>\<open>malloc\<close> returned is an argument; the source does not check it, and a
  failed allocation is a buffer without any byte.
\<close>

definition cbuf_initialize ::
  "u64 \<Rightarrow> u8 list option \<Rightarrow> wqaddr \<Rightarrow> kstate \<Rightarrow> (cbuf \<times> kstate) option" where
  "cbuf_initialize len mem w k =
     cbuf_initialize_etc len (case mem of Some b \<Rightarrow> b | None \<Rightarrow> []) w k"

definition cbuf_size :: "cbuf \<Rightarrow> nat" where
  "cbuf_size c = 2 ^ cb_len_pow2 c"

definition cbuf_space_used :: "cbuf \<Rightarrow> nat" where
  "cbuf_space_used c = unat (modpow2 (cb_head c - cb_tail c) (cb_len_pow2 c))"

definition cbuf_space_avail :: "cbuf \<Rightarrow> nat" where
  "cbuf_space_avail c =
     (let consumed = modpow2 (cb_head c - cb_tail c) (cb_len_pow2 c)
      in unat (valpow2 (cb_len_pow2 c) - consumed - 1))"

section \<open>Writing\<close>

text \<open>How much one pass of the loop writes, with \<open>left\<close> bytes to go.\<close>

definition cbuf_write_len :: "nat \<Rightarrow> cbuf \<Rightarrow> nat" where
  "cbuf_write_len left c =
     (if cb_head c \<ge> cb_tail c then
        (if cb_tail c = 0
         then min (unat (valpow2 (cb_len_pow2 c) - cb_head c - 1)) left
         else min (unat (valpow2 (cb_len_pow2 c) - cb_head c)) left)
      else min (unat (cb_tail c - cb_head c - 1)) left)"

text \<open>The bytes of one pass: zeros when no source was given.\<close>

definition cbuf_source :: "u8 list option \<Rightarrow> nat \<Rightarrow> nat \<Rightarrow> u8 list" where
  "cbuf_source buf pos n =
     (case buf of None \<Rightarrow> replicate n 0 | Some bs \<Rightarrow> take n (drop pos bs))"

function cbuf_write_loop :: "u8 list option \<Rightarrow> nat \<Rightarrow> nat \<Rightarrow> cbuf \<Rightarrow> nat \<times> cbuf" where
  "cbuf_write_loop buf len pos c =
     (if pos < len \<and> cbuf_space_avail c > 0 then
        let write_len = cbuf_write_len (len - pos) c
        in if write_len = 0 then (pos, c)
           else cbuf_write_loop buf len (pos + write_len)
             (c\<lparr>cb_buf := store (unat (cb_head c)) (cbuf_source buf pos write_len) (cb_buf c),
                cb_head := INC_POINTER c (cb_head c) write_len\<rparr>)
      else (pos, c))"
  by pat_completeness auto
termination
  by (relation "measure (\<lambda>(buf, len, pos, c). len - pos)") auto

declare cbuf_write_loop.simps [simp del]

definition cbuf_write ::
  "nat \<Rightarrow> u8 list option \<Rightarrow> nat \<Rightarrow> bool \<Rightarrow> cbuf \<times> kstate \<Rightarrow> (nat \<times> cbuf \<times> kstate) option" where
  "cbuf_write cpu buf len canreschedule = (\<lambda>(c, k). do {
     ASSERT (len < unat (valpow2 (cb_len_pow2 c)));
     let (pos, c) = cbuf_write_loop buf len 0 c;
     (c, k) \<leftarrow> (if cb_head c \<noteq> cb_tail c then do {
                 (_, e, k) \<leftarrow> event_signal cpu False (cb_event c, k);
                 Some (c\<lparr>cb_event := e\<rparr>, k)
               } else Some (c, k));
     k \<leftarrow> (if canreschedule then thread_preempt cpu k else Some k);
     Some (pos, c, k)
   })"

definition cbuf_write_char ::
  "nat \<Rightarrow> u8 \<Rightarrow> bool \<Rightarrow> cbuf \<times> kstate \<Rightarrow> (nat \<times> cbuf \<times> kstate) option" where
  "cbuf_write_char cpu ch canreschedule = (\<lambda>(c, k).
     if cbuf_space_avail c > 0 then do {
       let c = c\<lparr>cb_buf := (cb_buf c)[unat (cb_head c) := ch], cb_head := INC_POINTER c (cb_head c) 1\<rparr>;
       if cb_head c \<noteq> cb_tail c then do {
         (_, e, k) \<leftarrow> event_signal cpu canreschedule (cb_event c, k);
         Some (1, c\<lparr>cb_event := e\<rparr>, k)
       } else Some (1, c, k)
     } else Some (0, c, k))"

section \<open>Reading\<close>

definition cbuf_read_len :: "nat \<Rightarrow> cbuf \<Rightarrow> nat" where
  "cbuf_read_len left c =
     (if cb_head c > cb_tail c then min (unat (cb_head c - cb_tail c)) left
      else min (unat (valpow2 (cb_len_pow2 c) - cb_tail c)) left)"

text \<open>
  The loop has no guard against a pass that reads nothing, so it takes fuel; the number of
  passes is bounded below. The result is the position reached, the bytes copied out and the
  buffer.
\<close>

primrec cbuf_read_loop :: "nat \<Rightarrow> nat \<Rightarrow> nat \<Rightarrow> cbuf \<Rightarrow> (nat \<times> u8 list \<times> cbuf) option" where
  "cbuf_read_loop 0 buflen pos c = None"
| "cbuf_read_loop (Suc fuel) buflen pos c =
     (if pos < buflen \<and> cb_tail c \<noteq> cb_head c then do {
        let read_len = cbuf_read_len (buflen - pos) c;
        let out = take read_len (drop (unat (cb_tail c)) (cb_buf c));
        (pos, bs, c) \<leftarrow> cbuf_read_loop fuel buflen (pos + read_len)
                          (c\<lparr>cb_tail := INC_POINTER c (cb_tail c) read_len\<rparr>);
        Some (pos, out @ bs, c)
      } else Some (pos, [], c))"

text \<open>What is done under the lock; three is fuel for the two passes the loop may need.\<close>

definition cbuf_read_locked :: "nat \<Rightarrow> cbuf \<Rightarrow> (nat \<times> u8 list \<times> cbuf) option" where
  "cbuf_read_locked buflen c =
     (if cb_tail c \<noteq> cb_head c then do {
        (pos, bs, c) \<leftarrow> cbuf_read_loop 3 buflen 0 c;
        c \<leftarrow> (if cb_tail c = cb_head c then do {
                ASSERT (pos > 0);
                (_, e) \<leftarrow> event_unsignal (cb_event c);
                Some (c\<lparr>cb_event := e\<rparr>)
              } else Some c);
        Some (pos, bs, c)
      } else Some (0, [], c))"

text \<open>
  A blocking read waits for the event first and goes back to the wait when it then finds no
  data; \<open>tries\<close> bounds how often. \<open>want\<close> says whether the caller gave a buffer.
\<close>

primrec cbuf_read ::
  "nat \<Rightarrow> nat \<Rightarrow> bool \<Rightarrow> nat \<Rightarrow> bool \<Rightarrow> cbuf \<times> kstate \<Rightarrow>
   ((nat \<times> u8 list) outcome \<times> cbuf \<times> kstate) option" where
  "cbuf_read 0 cpu want buflen block s = None"
| "cbuf_read (Suc tries) cpu want buflen block s = (case s of (c, k) \<Rightarrow> do {
     (w, e, k) \<leftarrow> (if block then event_wait cpu (cb_event c, k)
                 else Some (Returns NO_ERROR, cb_event c, k));
     let c = c\<lparr>cb_event := e\<rparr>;
     case w of
       Blocks \<Rightarrow> Some (Blocks, c, k)
     | Returns _ \<Rightarrow> do {
         (ret, bs, c) \<leftarrow> cbuf_read_locked buflen c;
         if block \<and> ret = 0 then cbuf_read tries cpu want buflen block (c, k)
         else Some (Returns (ret, if want then bs else []), c, k)
       }
   })"

definition cbuf_read_char_locked :: "cbuf \<Rightarrow> (u8 option \<times> cbuf) option" where
  "cbuf_read_char_locked c =
     (if cb_tail c \<noteq> cb_head c then do {
        let ch = cb_buf c ! unat (cb_tail c);
        let c = c\<lparr>cb_tail := INC_POINTER c (cb_tail c) 1\<rparr>;
        c \<leftarrow> (if cb_tail c = cb_head c then do {
                (_, e) \<leftarrow> event_unsignal (cb_event c);
                Some (c\<lparr>cb_event := e\<rparr>)
              } else Some c);
        Some (Some ch, c)
      } else Some (None, c))"

primrec cbuf_read_char ::
  "nat \<Rightarrow> nat \<Rightarrow> bool \<Rightarrow> cbuf \<times> kstate \<Rightarrow> (u8 option outcome \<times> cbuf \<times> kstate) option" where
  "cbuf_read_char 0 cpu block s = None"
| "cbuf_read_char (Suc tries) cpu block s = (case s of (c, k) \<Rightarrow> do {
     (w, e, k) \<leftarrow> (if block then event_wait cpu (cb_event c, k)
                 else Some (Returns NO_ERROR, cb_event c, k));
     let c = c\<lparr>cb_event := e\<rparr>;
     case w of
       Blocks \<Rightarrow> Some (Blocks, c, k)
     | Returns _ \<Rightarrow> do {
         (ch, c) \<leftarrow> cbuf_read_char_locked c;
         if block \<and> ch = None then cbuf_read_char tries cpu block (c, k)
         else Some (Returns ch, c, k)
       }
   })"

definition cbuf_reset :: "nat \<Rightarrow> cbuf \<times> kstate \<Rightarrow> (cbuf \<times> kstate) option" where
  "cbuf_reset cpu s = do {
     (_, s) \<leftarrow> cbuf_read 1 cpu False (cbuf_size (fst s)) False s;
     Some s
   }"

text \<open>
  The two regions \<open>cbuf_peek\<close> describes, as the index where the region starts and its
  length; \<open>None\<close> is a null pointer.
\<close>

definition cbuf_peek :: "cbuf \<Rightarrow> (nat \<times> (nat option \<times> nat) \<times> (nat option \<times> nat)) option" where
  "cbuf_peek c = do {
     let ret = cbuf_space_used c;
     let sz = cbuf_size c;
     ASSERT (unat (cb_tail c) < sz);
     ASSERT (ret \<le> sz);
     let base = (if ret \<noteq> 0 then Some (unat (cb_tail c)) else None);
     Some (if ret + unat (cb_tail c) > sz
           then (ret, (base, sz - unat (cb_tail c)), (Some 0, ret - (sz - unat (cb_tail c))))
           else (ret, (base, ret), (None, 0)))
   }"

section \<open>The buffer as a ring\<close>

definition cbuf_ok :: "cbuf \<Rightarrow> bool" where
  "cbuf_ok c \<longleftrightarrow> cb_len_pow2 c < 32 \<and> length (cb_buf c) = 2 ^ cb_len_pow2 c \<and>
     unat (cb_head c) < 2 ^ cb_len_pow2 c \<and> unat (cb_tail c) < 2 ^ cb_len_pow2 c"

definition cbuf_contents :: "cbuf \<Rightarrow> u8 list" where
  "cbuf_contents c = ring (unat (cb_tail c)) (cbuf_space_used c) (cb_buf c)"

lemma unat_modpow2_diff:
  assumes "n < 32" "unat a < 2 ^ n" "unat b < 2 ^ n"
  shows "unat (modpow2 (a - b) n) = (if unat b \<le> unat a then unat a - unat b else 2 ^ n + unat a - unat b)"
proof (cases "unat b \<le> unat a")
  case True
  then have "unat (a - b) = unat a - unat b" by (simp add: unat_sub word_le_nat_alt)
  then show ?thesis using True assms(2) by (simp add: unat_modpow2)
next
  case False
  let ?d = "unat b - unat a" and ?N = "2 ^ n :: nat"
  have d: "0 < ?d" "?d < ?N" using False assms by auto
  obtain q where q: "2 ^ 32 = ?N * q" using pow2_dvd_32 [OF assms(1)] by blast
  then have q0: "0 < q" by (cases q) simp_all
  have "unat (a - b) = unat a + 2 ^ 32 - unat b" using False by (simp add: unat_sub_if')
  then have "unat (a - b) = ?N * q - ?d" using False by (simp flip: q)
  also have "\<dots> = ?N * (q - 1) + (?N - ?d)"
    using q0 d by (cases q) (simp_all add: algebra_simps)
  finally have "unat (a - b) mod ?N = (?N * (q - 1) + (?N - ?d)) mod ?N" by (rule arg_cong)
  then have "unat (a - b) mod ?N = ?N - ?d" using d(1) by (simp only: mod_mult_self4 mod_less diff_less d zero_less_power zero_less_numeral)
  then show ?thesis using False by (simp add: unat_modpow2)
qed

lemma cbuf_used:
  assumes "cbuf_ok c"
  shows "cbuf_space_used c = (if unat (cb_tail c) \<le> unat (cb_head c)
           then unat (cb_head c) - unat (cb_tail c)
           else 2 ^ cb_len_pow2 c + unat (cb_head c) - unat (cb_tail c))"
    and "cbuf_space_avail c = 2 ^ cb_len_pow2 c - cbuf_space_used c - 1"
    and "cbuf_space_used c < 2 ^ cb_len_pow2 c"
    and "unat (cb_head c) = (unat (cb_tail c) + cbuf_space_used c) mod 2 ^ cb_len_pow2 c"
proof -
  let ?N = "2 ^ cb_len_pow2 c :: nat"
  have ok: "cb_len_pow2 c < 32" "unat (cb_head c) < ?N" "unat (cb_tail c) < ?N"
    using assms by (simp_all add: cbuf_ok_def)
  show u: "cbuf_space_used c = (if unat (cb_tail c) \<le> unat (cb_head c)
           then unat (cb_head c) - unat (cb_tail c) else ?N + unat (cb_head c) - unat (cb_tail c))"
    using unat_modpow2_diff [OF ok] by (simp add: cbuf_space_used_def)
  then show l: "cbuf_space_used c < ?N" using ok by auto
  show "unat (cb_head c) = (unat (cb_tail c) + cbuf_space_used c) mod ?N"
    using ok by (simp add: u)
  let ?v = "valpow2 (cb_len_pow2 c)" and ?m = "modpow2 (cb_head c - cb_tail c) (cb_len_pow2 c)"
  have v: "unat ?v = ?N" by (rule unat_valpow2 [OF ok(1)])
  have m: "unat ?m < ?N" using l by (simp add: cbuf_space_used_def)
  then have s: "unat (?v - ?m) = ?N - unat ?m" using v by (simp add: unat_sub word_le_nat_alt)
  then have "1 \<le> ?v - ?m" using m by (simp add: word_le_nat_alt)
  then show "cbuf_space_avail c = ?N - cbuf_space_used c - 1"
    using s by (simp add: cbuf_space_avail_def cbuf_space_used_def unat_sub)
qed

lemma length_contents [simp]: "length (cbuf_contents c) = cbuf_space_used c"
  by (simp add: cbuf_contents_def)

lemma unat_INC_POINTER:
  "cb_len_pow2 c < 32 \<Longrightarrow> unat (INC_POINTER c p n) = (unat p + n) mod 2 ^ cb_len_pow2 c"
  by (simp add: INC_POINTER_def unat_modpow2_add)

text \<open>A pass of the write loop, and the buffer after writing behind the head.\<close>

lemma cbuf_write_pass:
  assumes ok: "cbuf_ok c" and "0 < cbuf_space_avail c" "0 < left"
  shows "0 < cbuf_write_len left c" "cbuf_write_len left c \<le> left"
    "cbuf_write_len left c \<le> cbuf_space_avail c" "unat (cb_head c) + cbuf_write_len left c \<le> 2 ^ cb_len_pow2 c"
proof -
  let ?N = "2 ^ cb_len_pow2 c :: nat" and ?h = "unat (cb_head c)" and ?t = "unat (cb_tail c)"
  have b: "cb_len_pow2 c < 32" "?h < ?N" "?t < ?N" using ok by (simp_all add: cbuf_ok_def)
  note u = cbuf_used [OF ok]
  let ?v = "valpow2 (cb_len_pow2 c)"
  have v: "unat ?v = ?N" by (rule unat_valpow2 [OF b(1)])
  have vh: "unat (?v - cb_head c) = ?N - ?h" using v b by (simp add: unat_sub word_le_nat_alt)
  then have vh1: "unat (?v - cb_head c - 1) = ?N - ?h - 1"
    using b by (subst unat_sub) (simp_all add: word_le_nat_alt)
  have th: "unat (cb_tail c - cb_head c - 1) = ?t - ?h - 1" if "?h < ?t"
  proof -
    have d: "unat (cb_tail c - cb_head c) = ?t - ?h" using that by (simp add: unat_sub word_le_nat_alt)
    then have "1 \<le> cb_tail c - cb_head c" using that by (simp add: word_le_nat_alt)
    then show ?thesis using d by (simp add: unat_sub)
  qed
  have z: "cb_tail c = 0 \<longleftrightarrow> ?t = 0" by (simp add: unat_eq_0)
  have w: "cbuf_write_len left c = min (if ?t \<le> ?h then (if ?t = 0 then ?N - ?h - 1 else ?N - ?h) else ?t - ?h - 1) left"
    using vh vh1 th by (auto simp: cbuf_write_len_def word_le_nat_alt z)
  have a: "cbuf_space_avail c = (if ?t \<le> ?h then ?N - (?h - ?t) - 1 else ?t - ?h - 1)"
    using u(1,2) b by auto
  show "cbuf_write_len left c \<le> left" by (simp add: w)
  show "0 < cbuf_write_len left c" "cbuf_write_len left c \<le> cbuf_space_avail c" "?h + cbuf_write_len left c \<le> ?N"
    using assms(2,3) b unfolding w a by (auto split: if_splits)
qed

lemma cbuf_append:
  assumes ok: "cbuf_ok c" and fit: "length xs \<le> cbuf_space_avail c" "unat (cb_head c) + length xs \<le> 2 ^ cb_len_pow2 c"
  defines "c' \<equiv> c\<lparr>cb_buf := store (unat (cb_head c)) xs (cb_buf c), cb_head := INC_POINTER c (cb_head c) (length xs)\<rparr>"
  shows "cbuf_ok c'" "cbuf_space_used c' = cbuf_space_used c + length xs"
    "cbuf_space_avail c' = cbuf_space_avail c - length xs" "cbuf_contents c' = cbuf_contents c @ xs"
proof -
  let ?N = "2 ^ cb_len_pow2 c :: nat"
  have b: "cb_len_pow2 c < 32" "length (cb_buf c) = ?N" "unat (cb_head c) < ?N" "unat (cb_tail c) < ?N"
    using ok by (simp_all add: cbuf_ok_def)
  note u = cbuf_used [OF ok]
  have h: "unat (cb_head c') = (unat (cb_head c) + length xs) mod ?N"
    using unat_INC_POINTER [OF b(1)] by (simp add: c'_def)
  show ok': "cbuf_ok c'" using b fit h by (simp add: cbuf_ok_def c'_def)
  note u' = cbuf_used [OF ok']
  have s: "cb_len_pow2 c' = cb_len_pow2 c" "cb_tail c' = cb_tail c" by (simp_all add: c'_def)
  have n: "cbuf_space_used c + length xs < ?N" using u(2,3) fit(1) by auto
  have "(unat (cb_tail c) + cbuf_space_used c') mod ?N = (unat (cb_tail c) + (cbuf_space_used c + length xs)) mod ?N"
    using u'(4) h u(4) by (simp add: s mod_add_left_eq add.assoc)
  then show us: "cbuf_space_used c' = cbuf_space_used c + length xs"
    by (rule mod_add_inj) (use u'(3) n in \<open>simp_all add: s\<close>)
  show "cbuf_space_avail c' = cbuf_space_avail c - length xs" using u(2) u'(2) us by (simp add: s)
  have "ring (unat (cb_tail c)) (cbuf_space_used c + length xs) (store (unat (cb_head c)) xs (cb_buf c)) =
      ring (unat (cb_tail c)) (cbuf_space_used c) (cb_buf c) @ xs"
    by (rule ring_store) (use b fit n u(4) in simp_all)
  then show "cbuf_contents c' = cbuf_contents c @ xs"
    using us by (simp add: cbuf_contents_def s) (simp add: c'_def)
qed

text \<open>A pass of the read loop, and the buffer after reading from the tail.\<close>

lemma cbuf_read_pass:
  assumes ok: "cbuf_ok c" and "cb_tail c \<noteq> cb_head c" "0 < left"
  shows "0 < cbuf_read_len left c" "cbuf_read_len left c \<le> left"
    "cbuf_read_len left c \<le> cbuf_space_used c" "unat (cb_tail c) + cbuf_read_len left c \<le> 2 ^ cb_len_pow2 c"
    "cbuf_read_len left c = left \<or> cbuf_read_len left c = cbuf_space_used c \<or>
       unat (cb_tail c) + cbuf_read_len left c = 2 ^ cb_len_pow2 c"
proof -
  let ?N = "2 ^ cb_len_pow2 c :: nat" and ?h = "unat (cb_head c)" and ?t = "unat (cb_tail c)"
  have b: "cb_len_pow2 c < 32" "?h < ?N" "?t < ?N" using ok by (simp_all add: cbuf_ok_def)
  have ne: "?t \<noteq> ?h" using assms(2) by (simp add: word_unat_eq_iff)
  have v: "unat (valpow2 (cb_len_pow2 c)) = ?N" by (rule unat_valpow2 [OF b(1)])
  have vt: "unat (valpow2 (cb_len_pow2 c) - cb_tail c) = ?N - ?t" using v b by (simp add: unat_sub word_le_nat_alt)
  have ht: "unat (cb_head c - cb_tail c) = ?h - ?t" if "?t < ?h"
    using that by (simp add: unat_sub word_le_nat_alt)
  have w: "cbuf_read_len left c = min (if ?t < ?h then ?h - ?t else ?N - ?t) left"
    using vt ht by (auto simp: cbuf_read_len_def word_less_nat_alt)
  have u: "cbuf_space_used c = (if ?t < ?h then ?h - ?t else ?N + ?h - ?t)"
    using cbuf_used(1) [OF ok] ne by auto
  show "cbuf_read_len left c \<le> left" by (simp add: w)
  show "0 < cbuf_read_len left c" "cbuf_read_len left c \<le> cbuf_space_used c" "?t + cbuf_read_len left c \<le> ?N"
    "cbuf_read_len left c = left \<or> cbuf_read_len left c = cbuf_space_used c \<or> ?t + cbuf_read_len left c = ?N"
    using assms(3) b unfolding w u by auto
qed

lemma cbuf_advance:
  assumes ok: "cbuf_ok c" and n: "n \<le> cbuf_space_used c"
  defines "c' \<equiv> c\<lparr>cb_tail := INC_POINTER c (cb_tail c) n\<rparr>"
  shows "cbuf_ok c'" "cbuf_space_used c' = cbuf_space_used c - n" "cbuf_contents c' = drop n (cbuf_contents c)"
    "unat (cb_tail c') = (unat (cb_tail c) + n) mod 2 ^ cb_len_pow2 c"
proof -
  let ?N = "2 ^ cb_len_pow2 c :: nat"
  have b: "cb_len_pow2 c < 32" "length (cb_buf c) = ?N" "unat (cb_head c) < ?N" "unat (cb_tail c) < ?N"
    using ok by (simp_all add: cbuf_ok_def)
  note u = cbuf_used [OF ok]
  show t: "unat (cb_tail c') = (unat (cb_tail c) + n) mod ?N"
    using unat_INC_POINTER [OF b(1)] by (simp add: c'_def)
  show ok': "cbuf_ok c'" using b t by (simp add: cbuf_ok_def c'_def)
  note u' = cbuf_used [OF ok']
  have s: "cb_len_pow2 c' = cb_len_pow2 c" "cb_head c' = cb_head c" "cb_buf c' = cb_buf c"
    by (simp_all add: c'_def)
  have "(unat (cb_tail c) + n + cbuf_space_used c') mod ?N = (unat (cb_tail c) + n + (cbuf_space_used c - n)) mod ?N"
    using u'(4) u(4) t n by (simp add: s mod_add_left_eq)
  then show us: "cbuf_space_used c' = cbuf_space_used c - n"
    by (rule mod_add_inj) (use u(3) u'(3) in \<open>simp_all add: s\<close>)
  show "cbuf_contents c' = drop n (cbuf_contents c)"
    using ring_drop [OF n, of "unat (cb_tail c)" "cb_buf c"] us t b(2)
    by (simp add: cbuf_contents_def s)
qed

section \<open>The loops\<close>

lemma cbuf_source_add: "cbuf_source buf pos (a + b) = cbuf_source buf pos a @ cbuf_source buf (pos + a) b"
  by (auto simp: cbuf_source_def replicate_add take_add add.commute split: option.split)

lemma length_cbuf_source:
  "(\<And>bs. buf = Some bs \<Longrightarrow> pos + n \<le> length bs) \<Longrightarrow> length (cbuf_source buf pos n) = n"
  by (auto simp: cbuf_source_def split: option.split)

lemma cbuf_write_loop_stop:
  "\<not> (pos < len \<and> cbuf_space_avail c > 0) \<Longrightarrow> cbuf_write_loop buf len pos c = (pos, c)"
  by (subst cbuf_write_loop.simps) (simp only: if_False)

lemma cbuf_write_loop_pass:
  "pos < len \<and> cbuf_space_avail c > 0 \<Longrightarrow> cbuf_write_len (len - pos) c \<noteq> 0 \<Longrightarrow>
   cbuf_write_loop buf len pos c = cbuf_write_loop buf len (pos + cbuf_write_len (len - pos) c)
     (c\<lparr>cb_buf := store (unat (cb_head c)) (cbuf_source buf pos (cbuf_write_len (len - pos) c)) (cb_buf c),
        cb_head := INC_POINTER c (cb_head c) (cbuf_write_len (len - pos) c)\<rparr>)"
  by (subst cbuf_write_loop.simps) (simp only: if_True Let_def if_False simp_thms)

theorem cbuf_write_loop_ok:
  assumes "cbuf_ok c" "pos \<le> len" "\<And>bs. buf = Some bs \<Longrightarrow> len \<le> length bs"
    "cbuf_write_loop buf len pos c = (pos', c')"
  shows "cbuf_ok c' \<and> pos' = pos + min (len - pos) (cbuf_space_avail c) \<and>
    cbuf_contents c' = cbuf_contents c @ cbuf_source buf pos (pos' - pos) \<and>
    cb_event c' = cb_event c \<and> cb_len_pow2 c' = cb_len_pow2 c \<and> cb_tail c' = cb_tail c"
  using assms
proof (induction buf len pos c arbitrary: pos' c' rule: cbuf_write_loop.induct)
  case (1 buf len pos c)
  let ?w = "cbuf_write_len (len - pos) c" and ?xs = "cbuf_source buf pos (cbuf_write_len (len - pos) c)"
  let ?c = "c\<lparr>cb_buf := store (unat (cb_head c)) ?xs (cb_buf c), cb_head := INC_POINTER c (cb_head c) ?w\<rparr>"
  show ?case
  proof (cases "pos < len \<and> cbuf_space_avail c > 0")
    case False
    then have "pos' = pos" "c' = c" using "1.prems"(4) cbuf_write_loop_stop [OF False, of buf] by simp_all
    then show ?thesis using False "1.prems" by (auto simp: cbuf_source_def split: option.split)
  next
    case True
    then have t: "cbuf_space_avail c > 0" "0 < len - pos" by auto
    note p = cbuf_write_pass [OF "1.prems"(1) t]
    have lx: "length ?xs = ?w"
    proof (rule length_cbuf_source)
      show "pos + ?w \<le> length bs" if "buf = Some bs" for bs
        using "1.prems"(3) [OF that] p(2) t(2) by linarith
    qed
    note ap = cbuf_append [of c ?xs, OF "1.prems"(1), unfolded lx, OF p(3,4)]
    have le: "pos + ?w \<le> len" and nz: "?w \<noteq> 0" using p(1,2) t(2) by simp_all
    have r: "cbuf_write_loop buf len (pos + ?w) ?c = (pos', c')"
      using "1.prems"(4) cbuf_write_loop_pass [OF True nz] by simp
    have ih: "cbuf_ok c' \<and> pos' = pos + ?w + min (len - (pos + ?w)) (cbuf_space_avail ?c) \<and>
      cbuf_contents c' = cbuf_contents ?c @ cbuf_source buf (pos + ?w) (pos' - (pos + ?w)) \<and>
      cb_event c' = cb_event ?c \<and> cb_len_pow2 c' = cb_len_pow2 ?c \<and> cb_tail c' = cb_tail ?c"
      by (rule "1.IH" [OF True refl nz ap(1) le "1.prems"(3) r])
    then have pw: "pos' = pos + ?w + min (len - (pos + ?w)) (cbuf_space_avail c - ?w)"
      and ct: "cbuf_contents c' = (cbuf_contents c @ ?xs) @ cbuf_source buf (pos + ?w) (pos' - (pos + ?w))"
      unfolding ap(3,4) by blast+
    have p': "pos' = pos + min (len - pos) (cbuf_space_avail c)" unfolding pw using p(2,3) by linarith
    have "pos' - pos = ?w + (pos' - (pos + ?w))" unfolding pw by linarith
    then have "cbuf_source buf pos (pos' - pos) = ?xs @ cbuf_source buf (pos + ?w) (pos' - (pos + ?w))"
      by (simp only: cbuf_source_add)
    then have "cbuf_contents c' = cbuf_contents c @ cbuf_source buf pos (pos' - pos)"
      unfolding ct append.assoc by (rule arg_cong2 [OF refl, of _ _ append, OF sym])
    moreover have "cb_event c' = cb_event c" "cb_len_pow2 c' = cb_len_pow2 c" "cb_tail c' = cb_tail c"
      using ih by simp_all
    ultimately show ?thesis using ih p' by blast
  qed
qed

text \<open>Reading ends after at most two passes.\<close>

lemma cbuf_read_loop_step:
  assumes ok: "cbuf_ok c" and more: "pos < buflen" "cb_tail c \<noteq> cb_head c"
    and rest: "cbuf_read_loop fuel buflen (pos + cbuf_read_len (buflen - pos) c)
        (c\<lparr>cb_tail := INC_POINTER c (cb_tail c) (cbuf_read_len (buflen - pos) c)\<rparr>) =
      Some (pos', drop (cbuf_read_len (buflen - pos) c) (take (buflen - pos) (cbuf_contents c)), c')"
  shows "cbuf_read_loop (Suc fuel) buflen pos c = Some (pos', take (buflen - pos) (cbuf_contents c), c')"
proof -
  let ?w = "cbuf_read_len (buflen - pos) c"
  have "0 < buflen - pos" using more by simp
  note p = cbuf_read_pass [OF ok more(2) this]
  have "take ?w (drop (unat (cb_tail c)) (cb_buf c)) = ring (unat (cb_tail c)) ?w (cb_buf c)"
    using p(4) ok by (intro ring_flat [symmetric]) (simp add: cbuf_ok_def)
  also have "\<dots> = take ?w (take (buflen - pos) (cbuf_contents c))"
    using p(2,3) by (simp add: cbuf_contents_def ring_take min_def)
  finally show ?thesis using more rest by (simp add: append_take_drop_id del: take_take)
qed

lemma cbuf_empty_iff: "cbuf_ok c \<Longrightarrow> cb_tail c = cb_head c \<longleftrightarrow> cbuf_space_used c = 0"
  using cbuf_used(1) [of c] by (auto simp: cbuf_ok_def word_unat_eq_iff split: if_splits)

lemma cbuf_read_loop_done:
  "pos = buflen \<or> cb_tail c = cb_head c \<Longrightarrow> cbuf_read_loop (Suc fuel) buflen pos c = Some (pos, [], c)"
  by auto

definition read_post :: "nat \<Rightarrow> nat \<Rightarrow> cbuf \<Rightarrow> (nat \<times> u8 list \<times> cbuf) option \<Rightarrow> bool" where
  "read_post n pos c r \<longleftrightarrow>
     (\<exists>c'. r = Some (pos + min n (cbuf_space_used c), take n (cbuf_contents c), c') \<and> cbuf_ok c' \<and>
        cbuf_contents c' = drop n (cbuf_contents c) \<and> cb_event c' = cb_event c \<and>
        cb_len_pow2 c' = cb_len_pow2 c \<and> cb_head c' = cb_head c)"

lemma read_post_done:
  assumes "cbuf_ok c" "pos \<le> buflen" "pos = buflen \<or> cb_tail c = cb_head c"
  shows "read_post (buflen - pos) pos c (cbuf_read_loop (Suc fuel) buflen pos c)"
proof -
  have "buflen - pos = 0 \<or> cbuf_space_used c = 0" using assms cbuf_empty_iff by auto
  then show ?thesis
    using cbuf_read_loop_done [OF assms(3), of fuel] assms(1) length_contents [of c]
    by (auto simp: read_post_def simp del: length_contents)
qed

lemma read_post_step:
  assumes ok: "cbuf_ok c" and more: "pos < buflen" "cb_tail c \<noteq> cb_head c"
  defines "w \<equiv> cbuf_read_len (buflen - pos) c"
  assumes rest: "read_post (buflen - (pos + w)) (pos + w) (c\<lparr>cb_tail := INC_POINTER c (cb_tail c) w\<rparr>)
      (cbuf_read_loop fuel buflen (pos + w) (c\<lparr>cb_tail := INC_POINTER c (cb_tail c) w\<rparr>))"
  shows "read_post (buflen - pos) pos c (cbuf_read_loop (Suc fuel) buflen pos c)"
proof -
  have "0 < buflen - pos" using more by simp
  note p = cbuf_read_pass [OF ok more(2) this, folded w_def]
  note ad = cbuf_advance [OF ok p(3)]
  have e: "buflen - (pos + w) + w = buflen - pos" using p(2) more by simp
  have "take (buflen - (pos + w)) (drop w (cbuf_contents c)) = drop w (take (buflen - pos) (cbuf_contents c))"
    using e by (simp add: drop_take)
  moreover have "pos + w + min (buflen - (pos + w)) (cbuf_space_used c - w) = pos + min (buflen - pos) (cbuf_space_used c)"
    using p(2,3) by simp
  moreover have "drop (buflen - (pos + w)) (drop w (cbuf_contents c)) = drop (buflen - pos) (cbuf_contents c)"
    using e by simp
  ultimately obtain c' where "cbuf_read_loop fuel buflen (pos + w) (c\<lparr>cb_tail := INC_POINTER c (cb_tail c) w\<rparr>) =
      Some (pos + min (buflen - pos) (cbuf_space_used c), drop w (take (buflen - pos) (cbuf_contents c)), c')"
    "cbuf_ok c'" "cbuf_contents c' = drop (buflen - pos) (cbuf_contents c)" "cb_event c' = cb_event c"
    "cb_len_pow2 c' = cb_len_pow2 c" "cb_head c' = cb_head c"
    using rest unfolding read_post_def ad(2,3) by auto
  with cbuf_read_loop_step [OF ok more, folded w_def] show ?thesis by (simp add: read_post_def)
qed

lemma cbuf_read_one_pass:
  assumes ok: "cbuf_ok c" and pos: "pos \<le> buflen"
    and one: "cbuf_read_len (buflen - pos) c = buflen - pos \<or> cbuf_read_len (buflen - pos) c = cbuf_space_used c"
  shows "read_post (buflen - pos) pos c (cbuf_read_loop (Suc (Suc fuel)) buflen pos c)"
proof (cases "pos = buflen \<or> cb_tail c = cb_head c")
  case True
  then show ?thesis by (rule read_post_done [OF ok pos])
next
  case False
  then have more: "pos < buflen" "cb_tail c \<noteq> cb_head c" "0 < buflen - pos" using pos by auto
  note p = cbuf_read_pass [OF ok more(2,3)]
  note ad = cbuf_advance [OF ok p(3)]
  show ?thesis
  proof (rule read_post_step [OF ok more(1,2)], rule read_post_done [OF ad(1)])
    show "pos + cbuf_read_len (buflen - pos) c \<le> buflen" using p(2) more by simp
    show "pos + cbuf_read_len (buflen - pos) c = buflen \<or>
      cb_tail (c\<lparr>cb_tail := INC_POINTER c (cb_tail c) (cbuf_read_len (buflen - pos) c)\<rparr>) =
      cb_head (c\<lparr>cb_tail := INC_POINTER c (cb_tail c) (cbuf_read_len (buflen - pos) c)\<rparr>)"
      using one cbuf_empty_iff [OF ad(1)] ad(2) more by auto
  qed
qed

theorem cbuf_read_loop_ok:
  assumes ok: "cbuf_ok c" and pos: "pos \<le> buflen"
  shows "read_post (buflen - pos) pos c (cbuf_read_loop (Suc (Suc (Suc fuel))) buflen pos c)"
proof (cases "pos = buflen \<or> cb_tail c = cb_head c \<or> cbuf_read_len (buflen - pos) c = buflen - pos \<or>
    cbuf_read_len (buflen - pos) c = cbuf_space_used c")
  case True
  then show ?thesis using read_post_done [OF ok pos] cbuf_read_one_pass [OF ok pos] by blast
next
  case False
  let ?w = "cbuf_read_len (buflen - pos) c"
  let ?c = "c\<lparr>cb_tail := INC_POINTER c (cb_tail c) ?w\<rparr>"
  have more: "pos < buflen" "cb_tail c \<noteq> cb_head c" "0 < buflen - pos" using pos False by auto
  note p = cbuf_read_pass [OF ok more(2,3)]
  note ad = cbuf_advance [OF ok p(3)]
  have "unat (cb_tail ?c) = 0" using ad(4) p(5) False by simp
  then have t0: "cb_tail ?c = 0" by (simp add: unat_eq_0)
  have ne: "cb_tail ?c \<noteq> cb_head ?c" using cbuf_empty_iff [OF ad(1)] ad(2) p(3) False by auto
  then have "cb_head ?c > cb_tail ?c" using t0 by (simp add: word_gt_0)
  then have one: "cbuf_read_len n ?c = n \<or> cbuf_read_len n ?c = cbuf_space_used ?c" for n
    using cbuf_used(1) [OF ad(1)] t0 by (auto simp: cbuf_read_len_def min_def)
  have le: "pos + ?w \<le> buflen" using p(2) more by simp
  show ?thesis
    by (rule read_post_step [OF ok more(1,2)]) (rule cbuf_read_one_pass [OF ad(1) le one])
qed

section \<open>The buffer as a bounded queue\<close>

definition cbuf_put :: "u8 list \<Rightarrow> cbuf \<Rightarrow> nat \<times> cbuf" where
  "cbuf_put xs c = cbuf_write_loop (Some xs) (length xs) 0 c"

definition cbuf_get :: "nat \<Rightarrow> cbuf \<Rightarrow> u8 list \<times> cbuf" where
  "cbuf_get n c = (case cbuf_read_loop 3 n 0 c of Some (_, bs, c') \<Rightarrow> (bs, c') | None \<Rightarrow> ([], c))"

lemma cbuf_get_ok:
  assumes "cbuf_ok c" "cbuf_get n c = (bs, c')"
  shows "cbuf_ok c' \<and> bs = take n (cbuf_contents c) \<and> cbuf_contents c' = drop n (cbuf_contents c) \<and>
    cb_event c' = cb_event c \<and> cb_len_pow2 c' = cb_len_pow2 c"
  using cbuf_read_loop_ok [OF assms(1), of 0 n 0] assms(2)
  by (auto simp: read_post_def cbuf_get_def numeral_3_eq_3)

lemma cbuf_put_ok:
  assumes "cbuf_ok c" "cbuf_put xs c = (n, c')"
  shows "cbuf_ok c' \<and> n = min (length xs) (cbuf_space_avail c) \<and>
    cbuf_contents c' = cbuf_contents c @ take n xs \<and> cb_len_pow2 c' = cb_len_pow2 c"
  using cbuf_write_loop_ok [OF assms(1), of 0 "length xs" "Some xs" n c'] assms(2)
  by (simp add: cbuf_put_def cbuf_source_def)

interpretation cbq: greedy_fifo cbuf_ok cbuf_contents "\<lambda>c. 2 ^ cb_len_pow2 c - 1" cbuf_put cbuf_get
proof
  fix c c' xs n bs
  assume ok: "cbuf_ok c"
  note u = cbuf_used(2,3) [OF ok]
  show "length (cbuf_contents c) \<le> 2 ^ cb_len_pow2 c - 1" using u by simp
  show "cbuf_ok c' \<and> 2 ^ cb_len_pow2 c' - (1 :: nat) = 2 ^ cb_len_pow2 c - 1 \<and> n \<le> length xs \<and>
      cbuf_contents c' = cbuf_contents c @ take n xs \<and>
      (length (cbuf_contents c) + length xs \<le> 2 ^ cb_len_pow2 c - 1 \<longrightarrow> n = length xs)"
    if "cbuf_put xs c = (n, c')"
    using cbuf_put_ok [OF ok that] u by auto
  show "n = min (length xs) (2 ^ cb_len_pow2 c - 1 - length (cbuf_contents c))" if "cbuf_put xs c = (n, c')"
    using cbuf_put_ok [OF ok that] u by auto
  show "cbuf_ok c' \<and> 2 ^ cb_len_pow2 c' - (1 :: nat) = 2 ^ cb_len_pow2 c - 1 \<and>
      bs = take n (cbuf_contents c) \<and> cbuf_contents c' = drop n (cbuf_contents c)"
    if "cbuf_get n c = (bs, c')"
    using cbuf_get_ok [OF ok that] by simp
qed

text \<open>The whole operations, with the event: it is signalled exactly while there is data.\<close>

definition cbuf_inv :: "cbuf \<times> kstate \<Rightarrow> bool" where
  "cbuf_inv = (\<lambda>(c, k). cbuf_ok c \<and> kinv k \<and> e_magic (cb_event c) = EVENT_MAGIC \<and>
     \<not> autounsignal (cb_event c) \<and> wq_magic (wqs k (e_wait (cb_event c))) = WAIT_QUEUE_MAGIC \<and>
     (e_signaled (cb_event c) \<longleftrightarrow> cbuf_contents c \<noteq> []))"

lemma contents_event [simp]:
  "cbuf_contents (c\<lparr>cb_event := e\<rparr>) = cbuf_contents c" "cbuf_ok (c\<lparr>cb_event := e\<rparr>) = cbuf_ok c"
  by (simp_all add: cbuf_contents_def cbuf_space_used_def cbuf_ok_def)

lemma contents_empty_iff: "cbuf_ok c \<Longrightarrow> cbuf_contents c = [] \<longleftrightarrow> cb_tail c = cb_head c"
  using cbuf_empty_iff [of c] length_contents [of c] by (metis length_0_conv)

lemma event_signal_ok:
  assumes inv: "kinv k" and cur: "current k cpu = Some self" and r: "r \<longrightarrow> \<not> is_idle k self"
    and e: "e_magic e = EVENT_MAGIC" "\<not> autounsignal e" "wq_magic (wqs k (e_wait e)) = WAIT_QUEUE_MAGIC"
  shows "\<exists>k'. event_signal cpu r (e, k) = Some (NO_ERROR, e\<lparr>e_signaled := True\<rparr>, k') \<and> kinv k' \<and>
    (\<forall>w. wq_magic (wqs k' w) = wq_magic (wqs k w)) \<and> (\<not> r \<longrightarrow> current k' = current k)"
proof (cases "e_signaled e")
  case True
  then have "e\<lparr>e_signaled := True\<rparr> = e" by simp
  then show ?thesis using True e inv by (simp add: event_signal_def)
next
  case False
  obtain k' where k': "wait_queue_wake_all cpu (e_wait e) r NO_ERROR k = Some (int (length (wq_list (wqs k (e_wait e)))), k')"
    "kinv k'" "quiet cpu (unblock_all (e_wait e) NO_ERROR k) k'" "\<not> r \<longrightarrow> current k' = current k"
    using wait_queue_wake_all_ok [OF inv cur e(3), of r NO_ERROR] r by blast
  have "wq_magic (wqs k' w) = wq_magic (wqs k w)" for w
    using quietD(1) [OF k'(3)] by (simp add: unblock_all_def)
  then show ?thesis using False e k' by (simp add: event_signal_def)
qed

theorem cbuf_write_ok:
  assumes inv: "cbuf_inv (c, k)" and cur: "current k cpu = Some self"
    and len: "len < 2 ^ cb_len_pow2 c" "\<And>bs. buf = Some bs \<Longrightarrow> len \<le> length bs"
  shows "\<exists>c' k'. cbuf_write cpu buf len False (c, k) = Some (min len (cbuf_space_avail c), c', k') \<and>
    cbuf_inv (c', k') \<and> cbuf_contents c' = cbuf_contents c @ cbuf_source buf 0 (min len (cbuf_space_avail c))"
proof -
  have ok: "cbuf_ok c" and e: "kinv k" "e_magic (cb_event c) = EVENT_MAGIC" "\<not> autounsignal (cb_event c)"
    "wq_magic (wqs k (e_wait (cb_event c))) = WAIT_QUEUE_MAGIC" "e_signaled (cb_event c) \<longleftrightarrow> cbuf_contents c \<noteq> []"
    using inv by (simp_all add: cbuf_inv_def)
  obtain pos c1 where w: "cbuf_write_loop buf len 0 c = (pos, c1)" by fastforce
  have c1: "cbuf_ok c1" "pos = min len (cbuf_space_avail c)" "cbuf_contents c1 = cbuf_contents c @ cbuf_source buf 0 pos"
    "cb_event c1 = cb_event c"
    using cbuf_write_loop_ok [OF ok _ len(2) w] by simp_all
  have a: "len < unat (valpow2 (cb_len_pow2 c))" using len(1) ok by (simp add: unat_valpow2 cbuf_ok_def)
  obtain k' where k': "event_signal cpu False (cb_event c1, k) = Some (NO_ERROR, (cb_event c1)\<lparr>e_signaled := True\<rparr>, k')"
    "kinv k'" "\<forall>w. wq_magic (wqs k' w) = wq_magic (wqs k w)"
    using event_signal_ok [OF e(1) cur, of False "cb_event c"] e(2-4) c1(4) by auto
  have au: "autounsignal ((cb_event c)\<lparr>e_signaled := b\<rparr>) = autounsignal (cb_event c)" for b
    by (simp add: autounsignal_def)
  show ?thesis
  proof (cases "cb_head c1 = cb_tail c1")
    case True
    then have "cbuf_contents c1 = []" using contents_empty_iff [OF c1(1)] by simp
    moreover have "cbuf_contents c = []" using calculation c1(3) by simp
    ultimately show ?thesis
      using True w a c1 e by (simp add: cbuf_write_def cbuf_inv_def)
  next
    case False
    then have "cbuf_contents c1 \<noteq> []" using contents_empty_iff [OF c1(1)] by simp
    then show ?thesis
      using False w a c1 e k' au by (simp add: cbuf_write_def cbuf_inv_def)
  qed
qed

theorem cbuf_read_locked_ok:
  assumes inv: "cbuf_inv (c, k)" and n: "0 < n"
  shows "\<exists>c'. cbuf_read_locked n c = Some (min n (cbuf_space_used c), take n (cbuf_contents c), c') \<and>
    cbuf_inv (c', k) \<and> cbuf_contents c' = drop n (cbuf_contents c)"
proof -
  have ok: "cbuf_ok c" and e: "kinv k" "e_magic (cb_event c) = EVENT_MAGIC" "\<not> autounsignal (cb_event c)"
    "wq_magic (wqs k (e_wait (cb_event c))) = WAIT_QUEUE_MAGIC" "e_signaled (cb_event c) \<longleftrightarrow> cbuf_contents c \<noteq> []"
    using inv by (simp_all add: cbuf_inv_def)
  show ?thesis
  proof (cases "cb_tail c = cb_head c")
    case True
    then have "cbuf_space_used c = 0" "cbuf_contents c = []"
      using cbuf_empty_iff [OF ok] contents_empty_iff [OF ok] by simp_all
    then show ?thesis using True inv by (simp add: cbuf_read_locked_def)
  next
    case False
    have u: "0 < cbuf_space_used c" using False cbuf_empty_iff [OF ok] by simp
    obtain c1 where c1: "cbuf_read_loop 3 n 0 c = Some (min n (cbuf_space_used c), take n (cbuf_contents c), c1)"
      "cbuf_ok c1" "cbuf_contents c1 = drop n (cbuf_contents c)" "cb_event c1 = cb_event c"
      using cbuf_read_loop_ok [OF ok, of 0 n 0] by (auto simp: read_post_def numeral_3_eq_3)
    have au: "autounsignal ((cb_event c)\<lparr>e_signaled := b\<rparr>) = autounsignal (cb_event c)" for b
      by (simp add: autounsignal_def)
    have ne: "cbuf_contents c \<noteq> []" using contents_empty_iff [OF ok] False by simp
    show ?thesis
    proof (cases "cb_tail c1 = cb_head c1")
      case True
      then have "cbuf_contents c1 = []" using contents_empty_iff [OF c1(2)] by simp
      then show ?thesis
        using True False c1 e n u au
        by (simp add: cbuf_read_locked_def event_unsignal_def cbuf_inv_def)
    next
      case no: False
      then have "cbuf_contents c1 \<noteq> []" using contents_empty_iff [OF c1(2)] by simp
      then show ?thesis
        using no False c1 e ne by (simp add: cbuf_read_locked_def cbuf_inv_def)
    qed
  qed
qed

end
