(* ===== verification/Cbuf_Props.thy ===== *)
theory Cbuf_Props
  imports Lib_Cbuf Kernel_Props
begin

text \<open>
  What the circular buffer promises: it is a first-in first-out queue of bytes, its readers
  never miss data, and what \<open>cbuf_peek\<close> shows is what a read would return.
\<close>

text \<open>An empty buffer of eight bytes whose indices are about to wrap.\<close>

definition small_cbuf :: cbuf where
  "small_cbuf = \<lparr>cb_head = 5, cb_tail = 5, cb_len_pow2 = 3, cb_buf = replicate 8 0,
     cb_event = fst (event_init (ObjWq 9) False 0 booted)\<rparr>"

lemma small_cbuf_ok: "cbuf_ok small_cbuf" "cbuf_contents small_cbuf = []" "cbuf_space_avail small_cbuf = 7"
proof -
  show ok: "cbuf_ok small_cbuf" by (simp add: cbuf_ok_def small_cbuf_def)
  show "cbuf_contents small_cbuf = []" using contents_empty_iff [OF ok] by (simp add: small_cbuf_def)
  show "cbuf_space_avail small_cbuf = 7" using cbuf_used(1,2) [OF ok] by (simp add: small_cbuf_def)
qed

lemma small_cbuf_inv: "cbuf_inv (small_cbuf, wait_queue_init (ObjWq 9) booted)"
  using small_cbuf_ok booted_init
  by (simp add: cbuf_inv_def)
    (simp add: small_cbuf_def event_init_def autounsignal_def WAIT_QUEUE_INITIAL_VALUE_def)

text \<open>
  C17 The circular buffer refines a bounded queue: in any sequence of writes of any lengths and
  reads of any lengths, with the indices wrapping around the array and the 32-bit
  arithmetic, the bytes read, followed by what is still in the buffer, are the bytes that
  were there before, followed by the bytes accepted; the buffer never holds more than its
  size less one.
\<close>

theorem cbuf_is_fifo:
  assumes "cbuf_ok c" "bounded_fifo.run cbuf_put cbuf_get ops c = (accepted, delivered, c')"
  shows "cbuf_ok c' \<and> delivered @ cbuf_contents c' = cbuf_contents c @ accepted \<and>
         length (cbuf_contents c') \<le> 2 ^ cb_len_pow2 c - 1"
  using cbq.run_fifo [OF assms] by blast

theorem cbuf_is_fifo_witness:
  "\<exists>accepted delivered c'.
     bounded_fifo.run cbuf_put cbuf_get [Put_op [1, 2, 3, 4, 5], Get_op 2, Put_op [6, 7, 8]] small_cbuf =
       (accepted, delivered, c') \<and> delivered @ cbuf_contents c' = accepted"
proof -
  obtain accepted delivered c' where
    r: "bounded_fifo.run cbuf_put cbuf_get [Put_op [1, 2, 3, 4, 5], Get_op 2, Put_op [6, 7, 8]] small_cbuf =
       (accepted, delivered, c')" by (metis prod_cases3)
  from cbuf_is_fifo [OF small_cbuf_ok(1) r] r show ?thesis using small_cbuf_ok(2) by auto
qed

text \<open>
  C18 A write followed by a read gives the bytes back: writing what fits accepts all of it and
  signals the event; a blocking read of at least as much then returns at once, after at most
  two passes over the array, with exactly what was in the buffer and the bytes written, and
  leaves the buffer empty and the event unsignalled, so that the next blocking read blocks.
\<close>

theorem cbuf_write_read_roundtrip:
  assumes inv: "cbuf_inv (c, k)" and cur: "current k cpu = Some self"
    and fit: "length xs \<le> cbuf_space_avail c" "0 < length xs"
    and n: "cbuf_space_used c + length xs \<le> n"
  shows "\<exists>c1 k1 c2. cbuf_write cpu (Some xs) (length xs) False (c, k) = Some (length xs, c1, k1) \<and>
    cbuf_read 1 cpu True n True (c1, k1) =
      Some (Returns (cbuf_space_used c + length xs, cbuf_contents c @ xs), c2, k1) \<and>
    cbuf_inv (c2, k1) \<and> cbuf_contents c2 = [] \<and> \<not> e_signaled (cb_event c2)"
proof -
  have ok: "cbuf_ok c" using inv by (simp add: cbuf_inv_def)
  have len: "length xs < 2 ^ cb_len_pow2 c" using fit(1) cbuf_used(2,3) [OF ok] by simp
  obtain c1 k1 where w: "cbuf_write cpu (Some xs) (length xs) False (c, k) = Some (length xs, c1, k1)"
    "cbuf_inv (c1, k1)" "cbuf_contents c1 = cbuf_contents c @ xs"
    using cbuf_write_ok [OF inv cur len, of "Some xs"] fit(1) by (auto simp: cbuf_source_def min_def)
  have u1: "cbuf_space_used c1 = cbuf_space_used c + length xs"
    using arg_cong [OF w(3), of length] by simp
  have sg: "e_signaled (cb_event c1)" "e_magic (cb_event c1) = EVENT_MAGIC" "\<not> autounsignal (cb_event c1)"
    using w(2,3) fit(2) by (auto simp: cbuf_inv_def)
  have n0: "0 < n" "min n (cbuf_space_used c1) = cbuf_space_used c + length xs" using n fit(2) u1 by linarith+
  obtain c2 where r: "cbuf_read_locked n c1 = Some (cbuf_space_used c + length xs, cbuf_contents c @ xs, c2)"
    "cbuf_inv (c2, k1)" "cbuf_contents c2 = []"
    using cbuf_read_locked_ok [OF w(2) n0(1)] n0(2) w(3) n by auto
  have "c1\<lparr>cb_event := cb_event c1\<rparr> = c1" by simp
  then have "cbuf_read 1 cpu True n True (c1, k1) =
      Some (Returns (cbuf_space_used c + length xs, cbuf_contents c @ xs), c2, k1)"
    using sg r(1) fit(2) by (simp add: event_wait_def event_wait_timeout_def)
  moreover have "\<not> e_signaled (cb_event c2)" using r(2,3) by (simp add: cbuf_inv_def)
  ultimately show ?thesis using w(1) r(2,3) by blast
qed

theorem cbuf_write_read_roundtrip_witness:
  "\<exists>c1 k1 c2. cbuf_write 0 (Some [1, 2, 3, 4, 5]) (length [1, 2, 3, 4, 5 :: u8]) False
      (small_cbuf, wait_queue_init (ObjWq 9) booted) = Some (length [1, 2, 3, 4, 5 :: u8], c1, k1) \<and>
    cbuf_read 1 0 True 10 True (c1, k1) =
      Some (Returns (0 + length [1, 2, 3, 4, 5 :: u8], [] @ [1, 2, 3, 4, 5]), c2, k1) \<and> cbuf_contents c2 = []"
proof -
  have u: "cbuf_space_used small_cbuf = 0"
    using arg_cong [OF small_cbuf_ok(2), of length] by simp
  have l: "length [1, 2, 3, 4, 5 :: u8] \<le> 7" "0 < length [1, 2, 3, 4, 5 :: u8]" "0 + length [1, 2, 3, 4, 5 :: u8] \<le> 10"
    by simp_all
  show ?thesis
    using cbuf_write_read_roundtrip [OF small_cbuf_inv booted_init(2), of "[1, 2, 3, 4, 5]" 10] l
    unfolding small_cbuf_ok(2,3) u by blast
qed

text \<open>
  C19 \<open>cbuf_peek\<close> is equivalent to a read that does not consume: the bytes of its two
  regions, one after the other, are exactly the contents of the buffer, and its result is
  their number; no assertion fails.
\<close>

definition region_bytes :: "u8 list \<Rightarrow> nat option \<times> nat \<Rightarrow> u8 list" where
  "region_bytes b r = (case fst r of None \<Rightarrow> [] | Some i \<Rightarrow> take (snd r) (drop i b))"

theorem cbuf_peek_shows_contents:
  assumes "cbuf_ok c"
  shows "\<exists>r1 r2. cbuf_peek c = Some (length (cbuf_contents c), r1, r2) \<and>
    region_bytes (cb_buf c) r1 @ region_bytes (cb_buf c) r2 = cbuf_contents c"
proof -
  let ?N = "2 ^ cb_len_pow2 c :: nat" and ?t = "unat (cb_tail c)" and ?u = "cbuf_space_used c"
  have b: "length (cb_buf c) = ?N" "?t < ?N" "?u < ?N"
    using assms cbuf_used(3) [OF assms] by (simp_all add: cbuf_ok_def)
  have sz: "cbuf_size c = ?N" by (simp add: cbuf_size_def)
  show ?thesis
  proof (cases "?u + ?t > ?N")
    case True
    have "ring ?t ?u (cb_buf c) = take (?N - ?t) (ring ?t ?u (cb_buf c)) @ drop (?N - ?t) (ring ?t ?u (cb_buf c))"
      by simp
    also have "\<dots> = ring ?t (?N - ?t) (cb_buf c) @ ring 0 (?u - (?N - ?t)) (cb_buf c)"
      using True b by (subst ring_take, simp, subst ring_drop) auto
    also have "\<dots> = take (?N - ?t) (drop ?t (cb_buf c)) @ take (?u - (?N - ?t)) (cb_buf c)"
      using True b by (subst ring_flat, simp, subst ring_flat) auto
    finally show ?thesis
      using True b by (simp add: cbuf_peek_def sz cbuf_contents_def region_bytes_def Let_def)
  next
    case False
    then have "ring ?t ?u (cb_buf c) = take ?u (drop ?t (cb_buf c))" using b by (intro ring_flat) simp
    then show ?thesis
      using False b by (cases "?u = 0") (simp_all add: cbuf_peek_def sz cbuf_contents_def region_bytes_def Let_def)
  qed
qed

theorem cbuf_peek_shows_contents_witness:
  "\<exists>r1 r2. cbuf_peek small_cbuf = Some (0, r1, r2)"
  using cbuf_peek_shows_contents [OF small_cbuf_ok(1)] small_cbuf_ok(2) by auto

end
