(* ===== verification/Kernel_Port.thy ===== *)
theory Kernel_Port
  imports Lib_Fifo Kernel_Sync
begin

text \<open>
  Ports (\<^verbatim>\<open>kernel/port.c\<close>): named queues of packets with one write side, any
  number of read sides, and groups of read sides. The three structures live in a heap of
  port objects; a handle is an address, and the first field of each structure, its magic
  number, says what it is. The doubly linked lists are lists of addresses kept in their
  owner; of the nodes in the elements the model keeps which list they are linked in, because
  \<^verbatim>\<open>list_delete\<close> on a cleared node follows null pointers. A freed object is no
  longer in the heap, and using it, or following a null pointer, is \<open>None\<close>. The
  results of allocations are arguments. The operations run under the thread lock.
\<close>

section \<open>Packet buffers\<close>

type_synonym port_packet = "u8 list"

definition PORT_BUFF_SIZE :: u32 where [lk_defs]: "PORT_BUFF_SIZE = 8"
definition PORT_BUFF_SIZE_BIG :: u32 where [lk_defs]: "PORT_BUFF_SIZE_BIG = 64"

record port_buf =
  pb_log2 :: nat
  pb_avail :: u32
  pb_head :: u32
  pb_tail :: u32
  pb_packet :: "port_packet list"

text \<open>The memory for the packets is an argument, \<open>None\<close> when \<^verbatim>\<open>malloc\<close> fails.\<close>

definition make_buf :: "bool \<Rightarrow> port_packet list option \<Rightarrow> port_buf option" where
  "make_buf big mem =
     (let pk_count = (if big then PORT_BUFF_SIZE_BIG else PORT_BUFF_SIZE)
      in map_option (\<lambda>ps. \<lparr>pb_log2 = log2_uint pk_count, pb_avail = pk_count, pb_head = 0, pb_tail = 0,
           pb_packet = ps\<rparr>) mem)"

definition buf_is_empty :: "port_buf \<Rightarrow> bool" where
  "buf_is_empty b \<longleftrightarrow> pb_avail b = valpow2 (pb_log2 b)"

primrec buf_store :: "port_packet list \<Rightarrow> port_buf \<Rightarrow> port_buf" where
  "buf_store [] b = b"
| "buf_store (p # ps) b =
     buf_store ps (b\<lparr>pb_packet := (pb_packet b)[unat (pb_tail b) := p],
                     pb_tail := modpow2 (pb_tail b + 1) (pb_log2 b)\<rparr>)"

definition buf_write :: "port_packet list \<Rightarrow> port_buf \<Rightarrow> status_t \<times> port_buf" where
  "buf_write packets b =
     (if unat (pb_avail b) < length packets then (ERR_NOT_ENOUGH_BUFFER, b)
      else let b = buf_store packets b
           in (NO_ERROR, b\<lparr>pb_avail := pb_avail b - of_nat (length packets)\<rparr>))"

definition buf_read :: "port_buf \<Rightarrow> (status_t \<times> port_packet option \<times> port_buf)" where
  "buf_read b =
     (if buf_is_empty b then (ERR_NO_MSG, None, b)
      else (NO_ERROR, Some (pb_packet b ! unat (pb_head b)),
            b\<lparr>pb_head := modpow2 (pb_head b + 1) (pb_log2 b), pb_avail := pb_avail b + 1\<rparr>))"

section \<open>The objects\<close>

definition WRITEPORT_MAGIC_W :: u32 where [lk_defs]: "WRITEPORT_MAGIC_W = 0x70727477"
definition WRITEPORT_MAGIC_X :: u32 where [lk_defs]: "WRITEPORT_MAGIC_X = 0x70727478"
definition READPORT_MAGIC :: u32 where [lk_defs]: "READPORT_MAGIC = 0x70727472"
definition PORTGROUP_MAGIC :: u32 where [lk_defs]: "PORTGROUP_MAGIC = 0x70727467"
definition MAX_PORT_GROUP_COUNT :: nat where [lk_defs]: "MAX_PORT_GROUP_COUNT = 256"
definition PORT_NAME_LEN :: nat where [lk_defs]: "PORT_NAME_LEN = 12"
definition PORT_MODE_BROADCAST :: u32 where [lk_defs]: "PORT_MODE_BROADCAST = 0"
definition PORT_MODE_UNICAST :: u32 where [lk_defs]: "PORT_MODE_UNICAST = 1"
definition PORT_MODE_BIG_BUFFER :: u32 where [lk_defs]: "PORT_MODE_BIG_BUFFER = 2"

type_synonym pid = nat

record write_port =
  wp_magic :: u32
  wp_buf :: "port_buf option"
  wp_rp_list :: "pid list"
  wp_mode :: u32
  wp_name :: string

record read_port =
  rp_magic :: u32
  rp_g_node :: "pid option"
  rp_buf :: "port_buf option"
  rp_ctx :: nat
  rp_wport :: "pid option"
  rp_gport :: "pid option"

record port_group =
  pg_magic :: u32
  pg_rp_list :: "pid list"

datatype port = WPort write_port | RPort read_port | PGroup port_group

text \<open>The wait queue of a read port or of a group.\<close>

definition port_wait :: "pid \<Rightarrow> wqaddr" where
  "port_wait i = ObjWq i"

record pstate =
  p_heap :: "pid \<Rightarrow> port option"
  write_port_list :: "pid list"

primrec port_magic :: "port \<Rightarrow> u32" where
  "port_magic (WPort w) = wp_magic w"
| "port_magic (RPort r) = rp_magic r"
| "port_magic (PGroup g) = pg_magic g"

definition get_wp :: "pstate \<Rightarrow> pid \<Rightarrow> write_port option" where
  "get_wp ps i = (case p_heap ps i of Some (WPort w) \<Rightarrow> Some w | _ \<Rightarrow> None)"

definition get_rp :: "pstate \<Rightarrow> pid \<Rightarrow> read_port option" where
  "get_rp ps i = (case p_heap ps i of Some (RPort r) \<Rightarrow> Some r | _ \<Rightarrow> None)"

definition get_pg :: "pstate \<Rightarrow> pid \<Rightarrow> port_group option" where
  "get_pg ps i = (case p_heap ps i of Some (PGroup g) \<Rightarrow> Some g | _ \<Rightarrow> None)"

definition set_port :: "pid \<Rightarrow> port \<Rightarrow> pstate \<Rightarrow> pstate" where
  "set_port i p ps = ps\<lparr>p_heap := (p_heap ps)(i \<mapsto> p)\<rparr>"

definition free_port :: "pid \<Rightarrow> pstate \<Rightarrow> pstate" where
  "free_port i ps = ps\<lparr>p_heap := (p_heap ps)(i := None)\<rparr>"

definition port_init :: "pstate \<Rightarrow> pstate" where
  "port_init ps = ps\<lparr>write_port_list := []\<rparr>"

section \<open>Creating and opening\<close>

text \<open>The named write port, as the loops over \<open>write_port_list\<close> find it.\<close>

definition find_wport :: "string \<Rightarrow> pstate \<Rightarrow> pid option" where
  "find_wport name ps =
     find (\<lambda>i. case get_wp ps i of Some w \<Rightarrow> wp_name w = name | None \<Rightarrow> False) (write_port_list ps)"

text \<open>\<open>out\<close> says whether the caller gave a place for the handle.\<close>

definition port_create ::
  "string option \<Rightarrow> u32 \<Rightarrow> bool \<Rightarrow> pid option \<Rightarrow> port_packet list option \<Rightarrow> pstate \<Rightarrow>
   status_t \<times> pid option \<times> pstate" where
  "port_create name mode out new mem ps =
     (case name of
        None \<Rightarrow> (ERR_INVALID_ARGS, None, ps)
      | Some name \<Rightarrow>
          if \<not> out then (ERR_INVALID_ARGS, None, ps)
          else if mode AND PORT_MODE_BROADCAST \<noteq> 0 \<and> mode AND PORT_MODE_BIG_BUFFER \<noteq> 0
          then (ERR_INVALID_ARGS, None, ps)
          else if length name \<ge> PORT_NAME_LEN then (ERR_INVALID_ARGS, None, ps)
          else (case find_wport name ps of
            Some i \<Rightarrow>
              if map_option wp_magic (get_wp ps i) = Some WRITEPORT_MAGIC_X then (ERR_BUSY, None, ps)
              else (ERR_ALREADY_EXISTS, Some i, ps)
          | None \<Rightarrow> (case new of
              None \<Rightarrow> (ERR_NO_MEMORY, None, ps)
            | Some i \<Rightarrow> (case make_buf (mode AND PORT_MODE_BIG_BUFFER \<noteq> 0) mem of
                None \<Rightarrow> (ERR_NO_MEMORY, None, ps)
              | Some b \<Rightarrow>
                  (NO_ERROR, Some i,
                   (set_port i (WPort \<lparr>wp_magic = WRITEPORT_MAGIC_W, wp_buf = Some b, wp_rp_list = [],
                      wp_mode = mode, wp_name = name\<rparr>) ps)
                     \<lparr>write_port_list := write_port_list ps @ [i]\<rparr>)))))"

definition port_open ::
  "string option \<Rightarrow> nat \<Rightarrow> bool \<Rightarrow> pid option \<Rightarrow> port_packet list option \<Rightarrow> pstate \<times> kstate \<Rightarrow>
   (status_t \<times> pid option \<times> pstate \<times> kstate) option" where
  "port_open name ctx out new mem = (\<lambda>(ps, k).
     case name of
       None \<Rightarrow> Some (ERR_INVALID_ARGS, None, ps, k)
     | Some name \<Rightarrow>
         if \<not> out then Some (ERR_INVALID_ARGS, None, ps, k)
         else (case new of
           None \<Rightarrow> Some (ERR_NO_MEMORY, None, ps, k)
         | Some i \<Rightarrow> do {
             let k = wait_queue_init (port_wait i) k;
             case make_buf False mem of
               None \<Rightarrow> Some (ERR_NO_MEMORY, None, ps, k)
             | Some buf \<Rightarrow> (case find_wport name ps of
                 None \<Rightarrow> Some (ERR_NOT_FOUND, None, ps, k)
               | Some w \<Rightarrow> do {
                   wp \<leftarrow> get_wp ps w;
                   let rp = \<lparr>rp_magic = READPORT_MAGIC, rp_g_node = None, rp_buf = None, rp_ctx = ctx,
                             rp_wport = Some w, rp_gport = None\<rparr>;
                   case wp_buf wp of
                     Some b \<Rightarrow> Some (NO_ERROR, Some i,
                       set_port i (RPort (rp\<lparr>rp_buf := Some b\<rparr>))
                         (set_port w (WPort (wp\<lparr>wp_rp_list := wp_rp_list wp @ [i], wp_buf := None\<rparr>)) ps), k)
                   | None \<Rightarrow>
                       if wp_mode wp AND PORT_MODE_UNICAST \<noteq> 0 then Some (ERR_NOT_ALLOWED, None, ps, k)
                       else Some (NO_ERROR, Some i,
                         set_port i (RPort (rp\<lparr>rp_buf := Some buf\<rparr>))
                           (set_port w (WPort (wp\<lparr>wp_rp_list := wp_rp_list wp @ [i]\<rparr>)) ps), k)
                 })
           }))"

section \<open>Groups\<close>

definition upd_rp :: "pid \<Rightarrow> (read_port \<Rightarrow> read_port) \<Rightarrow> pstate \<Rightarrow> pstate option" where
  "upd_rp i f ps = map_option (\<lambda>r. set_port i (RPort (f r)) ps) (get_rp ps i)"

text \<open>
  Linking the read ports to a group; \<open>linked\<close> are those linked so far. When a port
  cannot be linked, the group pointers are undone, not the list nodes.
\<close>

primrec port_group_undo :: "pid list \<Rightarrow> pstate \<Rightarrow> pstate option" where
  "port_group_undo [] ps = Some ps"
| "port_group_undo (j # js) ps = do {
     ps \<leftarrow> upd_rp j (\<lambda>r. r\<lparr>rp_gport := None\<rparr>) ps;
     port_group_undo js ps
   }"

primrec port_group_loop :: "pid \<Rightarrow> pid list \<Rightarrow> pid list \<Rightarrow> pstate \<Rightarrow> (status_t \<times> pid list \<times> pstate) option" where
  "port_group_loop g linked [] ps = Some (NO_ERROR, linked, ps)"
| "port_group_loop g linked (i # is) ps = do {
     p \<leftarrow> p_heap ps i;
     case p of
       RPort r \<Rightarrow>
         if rp_magic r \<noteq> READPORT_MAGIC \<or> rp_gport r \<noteq> None then do {
           ps \<leftarrow> port_group_undo linked ps;
           Some (ERR_BAD_HANDLE, linked, ps)
         } else
           port_group_loop g (linked @ [i]) is
             (set_port i (RPort (r\<lparr>rp_gport := Some g, rp_g_node := Some g\<rparr>)) ps)
     | _ \<Rightarrow> do {
         ps \<leftarrow> port_group_undo linked ps;
         Some (ERR_BAD_HANDLE, linked, ps)
       }
   }"

definition port_group ::
  "pid list option \<Rightarrow> nat \<Rightarrow> bool \<Rightarrow> pid option \<Rightarrow> pstate \<times> kstate \<Rightarrow>
   (status_t \<times> pid option \<times> pstate \<times> kstate) option" where
  "port_group handles count out new = (\<lambda>(ps, k).
     if count > MAX_PORT_GROUP_COUNT then Some (ERR_TOO_BIG, None, ps, k)
     else if count \<noteq> 0 \<and> handles = None then Some (ERR_INVALID_ARGS, None, ps, k)
     else if \<not> out then Some (ERR_INVALID_ARGS, None, ps, k)
     else (case new of
       None \<Rightarrow> Some (ERR_NO_MEMORY, None, ps, k)
     | Some g \<Rightarrow> do {
         let k = wait_queue_init (port_wait g) k;
         (rc, linked, ps) \<leftarrow> port_group_loop g [] (case handles of None \<Rightarrow> [] | Some hs \<Rightarrow> take count hs) ps;
         Some (if rc = NO_ERROR
               then (rc, Some g, set_port g (PGroup \<lparr>pg_magic = PORTGROUP_MAGIC, pg_rp_list = linked\<rparr>) ps, k)
               else (rc, None, ps, k))
       }))"

definition port_group_add ::
  "nat \<Rightarrow> pid option \<Rightarrow> pid option \<Rightarrow> pstate \<times> kstate \<Rightarrow> (status_t \<times> pstate \<times> kstate) option" where
  "port_group_add cpu grp prt = (\<lambda>(ps, k).
     case (grp, prt) of
       (Some g, Some i) \<Rightarrow> do {
         gp \<leftarrow> p_heap ps g;
         if port_magic gp \<noteq> PORTGROUP_MAGIC then Some (ERR_INVALID_ARGS, ps, k)
         else do {
           p \<leftarrow> p_heap ps i;
           if port_magic p \<noteq> READPORT_MAGIC then Some (ERR_BAD_HANDLE, ps, k)
           else do {
             r \<leftarrow> get_rp ps i;
             if rp_gport r \<noteq> None then Some (ERR_BAD_HANDLE, ps, k)
             else do {
               pg \<leftarrow> get_pg ps g;
               if length (pg_rp_list pg) = MAX_PORT_GROUP_COUNT then Some (ERR_TOO_BIG, ps, k)
               else do {
                 let ps = set_port i (RPort (r\<lparr>rp_gport := Some g, rp_g_node := Some g\<rparr>))
                            (set_port g (PGroup (pg\<lparr>pg_rp_list := pg_rp_list pg @ [i]\<rparr>)) ps);
                 b \<leftarrow> rp_buf r;
                 if buf_is_empty b then Some (NO_ERROR, ps, k)
                 else do {
                   (_, k) \<leftarrow> wait_queue_wake_one cpu (port_wait g) False NO_ERROR k;
                   Some (NO_ERROR, ps, k)
                 }
               }
             }
           }
         }
       }
     | _ \<Rightarrow> Some (ERR_INVALID_ARGS, ps, k))"

text \<open>\<^verbatim>\<open>list_delete(&rp->g_node)\<close>: the node must be linked.\<close>

definition delete_g_node :: "pid \<Rightarrow> pstate \<Rightarrow> pstate option" where
  "delete_g_node i ps = do {
     r \<leftarrow> get_rp ps i;
     g \<leftarrow> rp_g_node r;
     let ps = set_port i (RPort (r\<lparr>rp_g_node := None\<rparr>)) ps;
     Some (case get_pg ps g of
         Some pg \<Rightarrow> set_port g (PGroup (pg\<lparr>pg_rp_list := remove1 i (pg_rp_list pg)\<rparr>)) ps
       | None \<Rightarrow> ps)
   }"

text \<open>
  The boolean result says whether the function returns with the thread lock held: the early
  return for a port that is not in the list does not unlock.
\<close>

definition port_group_remove ::
  "pid option \<Rightarrow> pid option \<Rightarrow> pstate \<Rightarrow> (status_t \<times> bool \<times> pstate) option" where
  "port_group_remove grp prt ps =
     (case (grp, prt) of
       (Some g, Some i) \<Rightarrow> do {
         gp \<leftarrow> p_heap ps g;
         if port_magic gp \<noteq> PORTGROUP_MAGIC then Some (ERR_INVALID_ARGS, False, ps)
         else do {
           p \<leftarrow> p_heap ps i;
           if port_magic p \<noteq> READPORT_MAGIC then Some (ERR_BAD_HANDLE, False, ps)
           else do {
             r \<leftarrow> get_rp ps i;
             if rp_gport r \<noteq> Some g then Some (ERR_BAD_HANDLE, False, ps)
             else do {
               pg \<leftarrow> get_pg ps g;
               if i \<notin> set (pg_rp_list pg) then Some (ERR_BAD_HANDLE, True, ps)
               else do { ps \<leftarrow> delete_g_node i ps; Some (NO_ERROR, False, ps) }
             }
           }
         }
       }
     | _ \<Rightarrow> Some (ERR_INVALID_ARGS, False, ps))"

section \<open>Writing\<close>

text \<open>
  The loop over the read ports: write to each buffer, then wake a thread of its group or of
  the port itself.
\<close>

definition port_wake :: "nat \<Rightarrow> pid \<Rightarrow> read_port \<Rightarrow> kstate \<Rightarrow> (int \<times> kstate) option" where
  "port_wake cpu i r k = do {
     (awaken, k) \<leftarrow> (case rp_gport r of
         Some g \<Rightarrow> wait_queue_wake_one cpu (port_wait g) False NO_ERROR k
       | None \<Rightarrow> Some (0, k));
     if awaken = 0 then wait_queue_wake_one cpu (port_wait i) False NO_ERROR k else Some (awaken, k)
   }"

primrec port_write_loop ::
  "nat \<Rightarrow> port_packet list \<Rightarrow> pid list \<Rightarrow> status_t \<Rightarrow> int \<Rightarrow> pstate \<Rightarrow> kstate \<Rightarrow>
   (status_t \<times> int \<times> pstate \<times> kstate) option" where
  "port_write_loop cpu pk [] status awake ps k = Some (status, awake, ps, k)"
| "port_write_loop cpu pk (i # is) status awake ps k = do {
     r \<leftarrow> get_rp ps i;
     b \<leftarrow> rp_buf r;
     let (st, b) = buf_write pk b;
     if st < 0 then port_write_loop cpu pk is ERR_PARTIAL_WRITE awake ps k
     else do {
       let ps = set_port i (RPort (r\<lparr>rp_buf := Some b\<rparr>)) ps;
       (awaken, k) \<leftarrow> port_wake cpu i r k;
       port_write_loop cpu pk is status (awake + awaken) ps k
     }
   }"

definition port_write ::
  "nat \<Rightarrow> pid option \<Rightarrow> port_packet list option \<Rightarrow> pstate \<times> kstate \<Rightarrow>
   (status_t \<times> pstate \<times> kstate) option" where
  "port_write cpu prt pk = (\<lambda>(ps, k).
     case (prt, pk) of
       (Some w, Some pk) \<Rightarrow> do {
         p \<leftarrow> p_heap ps w;
         if port_magic p \<noteq> WRITEPORT_MAGIC_W then Some (ERR_BAD_HANDLE, ps, k)
         else do {
           wp \<leftarrow> get_wp ps w;
           (status, awake, ps, k) \<leftarrow> (case wp_buf wp of
               Some b \<Rightarrow> (case buf_write pk b of
                   (st, b) \<Rightarrow> Some (st, 0, set_port w (WPort (wp\<lparr>wp_buf := Some b\<rparr>)) ps, k))
             | None \<Rightarrow> port_write_loop cpu pk (wp_rp_list wp) NO_ERROR 0 ps k);
           k \<leftarrow> (if awake \<noteq> 0 then thread_yield cpu k else Some k);
           Some (status, ps, k)
         }
       }
     | _ \<Rightarrow> Some (ERR_INVALID_ARGS, ps, k))"

section \<open>Reading\<close>

text \<open>
  A read either returns its status with, on success, the context and the packet, or blocks.
  The recursive call and the loop of the source, after a wait, are the thread calling
  \<open>port_read_exit\<close> when it is scheduled again.
\<close>

definition read_no_lock ::
  "nat \<Rightarrow> pid \<Rightarrow> lk_time_t \<Rightarrow> pstate \<times> kstate \<Rightarrow>
   ((status_t \<times> (nat \<times> port_packet) option) outcome \<times> pstate \<times> kstate) option" where
  "read_no_lock cpu i timeout = (\<lambda>(ps, k). do {
     r \<leftarrow> get_rp ps i;
     b \<leftarrow> rp_buf r;
     case buf_read b of
       (status, pkt, b) \<Rightarrow>
         if status \<noteq> ERR_NO_MSG
         then Some (Returns (status, map_option (Pair (rp_ctx r)) pkt),
                    set_port i (RPort (r\<lparr>rp_buf := Some b\<rparr>)) ps, k)
         else if timeout = 0 then Some (Returns (ERR_TIMED_OUT, None), ps, k)
         else do {
           (w, k) \<leftarrow> wait_queue_block cpu (port_wait i) timeout k;
           case w of
             Blocks \<Rightarrow> Some (Blocks, ps, k)
           | Returns wr \<Rightarrow> Some (Returns (wr, None), ps, k)
         }
   })"

text \<open>One round over the ports of a group; \<open>None\<close> as a result means that none had a packet.\<close>

primrec group_scan ::
  "nat \<Rightarrow> pid list \<Rightarrow> pstate \<times> kstate \<Rightarrow>
   ((status_t \<times> (nat \<times> port_packet) option) option \<times> pstate \<times> kstate) option" where
  "group_scan cpu [] s = Some (None, s)"
| "group_scan cpu (i # is) s = do {
     (r, s) \<leftarrow> read_no_lock cpu i 0 s;
     case r of
       Returns (rc, res) \<Rightarrow> if rc \<noteq> ERR_TIMED_OUT then Some (Some (rc, res), s) else group_scan cpu is s
     | Blocks \<Rightarrow> None
   }"

definition port_read ::
  "nat \<Rightarrow> pid option \<Rightarrow> lk_time_t \<Rightarrow> bool \<Rightarrow> pstate \<times> kstate \<Rightarrow>
   ((status_t \<times> (nat \<times> port_packet) option) outcome \<times> pstate \<times> kstate) option" where
  "port_read cpu prt timeout out s =
     (case prt of
        None \<Rightarrow> Some (Returns (ERR_INVALID_ARGS, None), s)
      | Some i \<Rightarrow>
          if \<not> out then Some (Returns (ERR_INVALID_ARGS, None), s)
          else do {
            p \<leftarrow> p_heap (fst s) i;
            if port_magic p = READPORT_MAGIC then read_no_lock cpu i timeout s
            else if port_magic p = PORTGROUP_MAGIC then do {
              pg \<leftarrow> get_pg (fst s) i;
              (res, ps, k) \<leftarrow> group_scan cpu (pg_rp_list pg) s;
              case res of
                Some r \<Rightarrow> Some (Returns r, ps, k)
              | None \<Rightarrow> do {
                  (w, k) \<leftarrow> wait_queue_block cpu (port_wait i) timeout k;
                  case w of
                    Blocks \<Rightarrow> Some (Blocks, ps, k)
                  | Returns wr \<Rightarrow> Some (Returns (wr, None), ps, k)
                }
            } else Some (Returns (ERR_BAD_HANDLE, None), s)
          })"

definition port_read_exit ::
  "nat \<Rightarrow> pid \<Rightarrow> lk_time_t \<Rightarrow> pstate \<times> kstate \<Rightarrow>
   ((status_t \<times> (nat \<times> port_packet) option) outcome \<times> pstate \<times> kstate) option" where
  "port_read_exit cpu i timeout = (\<lambda>(ps, k). do {
     (wr, k) \<leftarrow> wait_queue_block_exit cpu timeout k;
     if wr \<noteq> NO_ERROR then Some (Returns (wr, None), ps, k)
     else port_read cpu (Some i) timeout True (ps, k)
   })"

section \<open>Destroying and closing\<close>

primrec port_destroy_loop :: "nat \<Rightarrow> pid list \<Rightarrow> pstate \<times> kstate \<Rightarrow> (pstate \<times> kstate) option" where
  "port_destroy_loop cpu [] s = Some s"
| "port_destroy_loop cpu (i # is) s = (case s of (ps, k) \<Rightarrow> do {
     r \<leftarrow> get_rp ps i;
     (_, k) \<leftarrow> wait_queue_wake_all cpu (port_wait i) False ERR_CANCELLED k;
     (_, k) \<leftarrow> (case rp_gport r of
         Some g \<Rightarrow> wait_queue_wake_all cpu (port_wait g) False ERR_CANCELLED k
       | None \<Rightarrow> Some (0, k));
     port_destroy_loop cpu is (set_port i (RPort (r\<lparr>rp_wport := None\<rparr>)) ps, k)
   })"

definition port_destroy ::
  "nat \<Rightarrow> pid option \<Rightarrow> pstate \<times> kstate \<Rightarrow> (status_t \<times> pstate \<times> kstate) option" where
  "port_destroy cpu prt = (\<lambda>(ps, k).
     case prt of
       None \<Rightarrow> Some (ERR_INVALID_ARGS, ps, k)
     | Some w \<Rightarrow> do {
         p \<leftarrow> p_heap ps w;
         if port_magic p \<noteq> WRITEPORT_MAGIC_X then Some (ERR_BAD_HANDLE, ps, k)
         else do {
           wp \<leftarrow> get_wp ps w;
           let ps = ps\<lparr>write_port_list := remove1 w (write_port_list ps)\<rparr>;
           (ps, k) \<leftarrow> (case wp_buf wp of
               Some _ \<Rightarrow> Some (ps, k)
             | None \<Rightarrow> port_destroy_loop cpu (wp_rp_list wp) (ps, k));
           Some (NO_ERROR, free_port w ps, k)
         }
       })"

text \<open>Taking a read port off the list of its write port, which gets the buffer of its last reader back.\<close>

definition detach_reader :: "pid \<Rightarrow> read_port \<Rightarrow> pstate \<Rightarrow> pstate option" where
  "detach_reader i r ps =
     (case rp_wport r of
        None \<Rightarrow> Some ps
      | Some w \<Rightarrow> do {
          wp \<leftarrow> get_wp ps w;
          let wp = wp\<lparr>wp_rp_list := remove1 i (wp_rp_list wp)\<rparr>;
          Some (if wp_rp_list wp = []
                then set_port i (RPort (r\<lparr>rp_buf := None\<rparr>)) (set_port w (WPort (wp\<lparr>wp_buf := rp_buf r\<rparr>)) ps)
                else set_port w (WPort wp) ps)
        })"

text \<open>
  \<open>port_close\<close> up to the context switch of \<^verbatim>\<open>wait_queue_destroy\<close>;
  \<open>port_close_exit\<close> is the rest for a read port or a group.
\<close>

definition port_close ::
  "nat \<Rightarrow> pid option \<Rightarrow> pstate \<times> kstate \<Rightarrow> (status_t \<times> pstate \<times> kstate) option" where
  "port_close cpu prt = (\<lambda>(ps, k).
     case prt of
       None \<Rightarrow> Some (ERR_INVALID_ARGS, ps, k)
     | Some i \<Rightarrow> do {
         p \<leftarrow> p_heap ps i;
         if port_magic p = READPORT_MAGIC then do {
           r \<leftarrow> get_rp ps i;
           ps \<leftarrow> detach_reader i r ps;
           ps \<leftarrow> (if rp_gport r \<noteq> None then delete_g_node i ps else Some ps);
           k \<leftarrow> wait_queue_destroy cpu (port_wait i) True k;
           Some (NO_ERROR, ps, k)
         } else if port_magic p = PORTGROUP_MAGIC then do {
           k \<leftarrow> wait_queue_destroy cpu (port_wait i) True k;
           Some (NO_ERROR, ps, k)
         } else if port_magic p = WRITEPORT_MAGIC_W then do {
           wp \<leftarrow> get_wp ps i;
           Some (NO_ERROR, set_port i (WPort (wp\<lparr>wp_magic := WRITEPORT_MAGIC_X\<rparr>)) ps, k)
         } else Some (ERR_BAD_HANDLE, ps, k)
       })"

definition port_close_exit :: "pid \<Rightarrow> pstate \<times> kstate \<Rightarrow> (pstate \<times> kstate) option" where
  "port_close_exit i = (\<lambda>(ps, k). do {
     let k = wait_queue_destroy_exit (port_wait i) k;
     p \<leftarrow> p_heap ps i;
     case p of
       PGroup pg \<Rightarrow> do {
         ps \<leftarrow> port_group_undo (pg_rp_list pg) ps;
         Some (free_port i ps, k)
       }
     | _ \<Rightarrow> Some (free_port i ps, k)
   })"

end
