(* ===== verification/Port_Props.thy ===== *)
theory Port_Props
  imports Kernel_Port Kernel_Props
begin

text \<open>
  What ports promise: the packet buffers are bounded queues that take a write whole or not at
  all, a write reaches every reader that has room, opening and closing the first reader
  hands the queued packets over and back. The last part is about removing a port from its
  group.
\<close>

section \<open>Packet buffers\<close>

definition pbuf_ok :: "port_buf \<Rightarrow> bool" where
  "pbuf_ok b \<longleftrightarrow> pb_log2 b < 32 \<and> length (pb_packet b) = 2 ^ pb_log2 b \<and>
     unat (pb_head b) < 2 ^ pb_log2 b \<and> unat (pb_avail b) \<le> 2 ^ pb_log2 b \<and>
     unat (pb_tail b) = (unat (pb_head b) + (2 ^ pb_log2 b - unat (pb_avail b))) mod 2 ^ pb_log2 b"

definition pbuf_contents :: "port_buf \<Rightarrow> port_packet list" where
  "pbuf_contents b = ring (unat (pb_head b)) (2 ^ pb_log2 b - unat (pb_avail b)) (pb_packet b)"

lemma length_pbuf_contents [simp]: "length (pbuf_contents b) = 2 ^ pb_log2 b - unat (pb_avail b)"
  by (simp add: pbuf_contents_def)

lemma buf_store_ring:
  assumes "length (pb_packet b) = 2 ^ pb_log2 b" "pb_log2 b < 32" "n + length ps \<le> 2 ^ pb_log2 b"
    "unat (pb_tail b) = (h + n) mod 2 ^ pb_log2 b"
  shows "length (pb_packet (buf_store ps b)) = 2 ^ pb_log2 b \<and>
    ring h (n + length ps) (pb_packet (buf_store ps b)) = ring h n (pb_packet b) @ ps \<and>
    unat (pb_tail (buf_store ps b)) = (h + n + length ps) mod 2 ^ pb_log2 b \<and>
    pb_log2 (buf_store ps b) = pb_log2 b \<and> pb_head (buf_store ps b) = pb_head b \<and>
    pb_avail (buf_store ps b) = pb_avail b"
  using assms
proof (induction ps arbitrary: b n)
  case Nil
  then show ?case by simp
next
  case (Cons p ps)
  let ?N = "2 ^ pb_log2 b :: nat"
  let ?b = "b\<lparr>pb_packet := (pb_packet b)[unat (pb_tail b) := p], pb_tail := modpow2 (pb_tail b + 1) (pb_log2 b)\<rparr>"
  have t: "unat (pb_tail b) < ?N" using Cons.prems(4) by simp
  have t': "unat (pb_tail ?b) = (h + Suc n) mod 2 ^ pb_log2 ?b"
    using unat_modpow2_add [OF Cons.prems(2), of "pb_tail b" 1] Cons.prems(4)
    by (simp add: mod_add_left_eq mod_Suc_eq)
  have "ring h (n + length [p]) (store (unat (pb_tail b)) [p] (pb_packet b)) = ring h n (pb_packet b) @ [p]"
  proof (rule ring_store)
    show "unat (pb_tail b) = (h + n) mod length (pb_packet b)" using Cons.prems(1,4) by (simp only:)
  qed (use Cons.prems(1,3) t in simp_all)
  then have r: "ring h (Suc n) (pb_packet ?b) = ring h n (pb_packet b) @ [p]"
    using store_one [of "unat (pb_tail b)" "pb_packet b" p] t Cons.prems(1) by simp
  show ?case using Cons.IH [of ?b "Suc n"] Cons.prems t' r by simp
qed

lemma buf_write_ok:
  assumes ok: "pbuf_ok b"
  shows "buf_write ps b = (if length (pbuf_contents b) + length ps \<le> 2 ^ pb_log2 b
           then (NO_ERROR, snd (buf_write ps b)) else (ERR_NOT_ENOUGH_BUFFER, b))"
    and "length (pbuf_contents b) + length ps \<le> 2 ^ pb_log2 b \<Longrightarrow>
      pbuf_ok (snd (buf_write ps b)) \<and> pb_log2 (snd (buf_write ps b)) = pb_log2 b \<and>
      pbuf_contents (snd (buf_write ps b)) = pbuf_contents b @ ps"
proof -
  let ?N = "2 ^ pb_log2 b :: nat" and ?a = "unat (pb_avail b)"
  have b: "pb_log2 b < 32" "length (pb_packet b) = ?N" "unat (pb_head b) < ?N" "?a \<le> ?N"
    "unat (pb_tail b) = (unat (pb_head b) + (?N - ?a)) mod ?N"
    using ok by (simp_all add: pbuf_ok_def)
  show "buf_write ps b = (if length (pbuf_contents b) + length ps \<le> ?N
           then (NO_ERROR, snd (buf_write ps b)) else (ERR_NOT_ENOUGH_BUFFER, b))"
    using b(4) by (auto simp: buf_write_def Let_def)
  assume fit: "length (pbuf_contents b) + length ps \<le> ?N"
  then have f: "?N - ?a + length ps \<le> ?N" "length ps \<le> ?a" using b(4) by simp_all
  note st = buf_store_ring [OF b(2,1) f(1) b(5)]
  have av: "unat (pb_avail b - of_nat (length ps)) = ?a - length ps"
  proof -
    have "?N \<le> 2 ^ 31" using b(1) by (intro power_increasing) auto
    then have "length ps < 2 ^ 32" using f(2) b(4) by simp
    then have "unat (of_nat (length ps) :: u32) = length ps" by (simp add: unat_of_nat)
    then show ?thesis using f(2) by (simp add: unat_sub word_le_nat_alt)
  qed
  have n: "?N - (?a - length ps) = ?N - ?a + length ps" using f b(4) by simp
  have w: "snd (buf_write ps b) = (buf_store ps b)\<lparr>pb_avail := pb_avail b - of_nat (length ps)\<rparr>"
    using f(2) st by (simp add: buf_write_def Let_def)
  show "pbuf_ok (snd (buf_write ps b)) \<and> pb_log2 (snd (buf_write ps b)) = pb_log2 b \<and>
      pbuf_contents (snd (buf_write ps b)) = pbuf_contents b @ ps"
    unfolding w using st av n b by (simp add: pbuf_ok_def pbuf_contents_def add.assoc)
qed

lemma buf_read_ok:
  assumes ok: "pbuf_ok b"
  shows "case pbuf_contents b of
      [] \<Rightarrow> buf_read b = (ERR_NO_MSG, None, b)
    | p # ps \<Rightarrow> \<exists>b'. buf_read b = (NO_ERROR, Some p, b') \<and> pbuf_ok b' \<and> pb_log2 b' = pb_log2 b \<and> pbuf_contents b' = ps"
proof -
  let ?N = "2 ^ pb_log2 b :: nat" and ?a = "unat (pb_avail b)" and ?h = "unat (pb_head b)"
  have b: "pb_log2 b < 32" "length (pb_packet b) = ?N" "?h < ?N" "?a \<le> ?N"
    "unat (pb_tail b) = (?h + (?N - ?a)) mod ?N"
    using ok by (simp_all add: pbuf_ok_def)
  have e: "buf_is_empty b \<longleftrightarrow> ?a = ?N"
    by (simp add: buf_is_empty_def word_unat_eq_iff unat_valpow2 [OF b(1)])
  show ?thesis
  proof (cases "?a = ?N")
    case True
    then have "pbuf_contents b = []" by (simp add: pbuf_contents_def)
    then show ?thesis using True e by (simp add: buf_read_def)
  next
    case False
    let ?b = "b\<lparr>pb_head := modpow2 (pb_head b + 1) (pb_log2 b), pb_avail := pb_avail b + 1\<rparr>"
    have lt: "?a < ?N" using False b(4) by simp
    have N: "?N \<le> 2 ^ 31" using b(1) by (intro power_increasing) auto
    have a1: "unat (pb_avail b + 1) = Suc ?a" using lt N by (simp add: unat_plus_if')
    have h1: "unat (modpow2 (pb_head b + 1) (pb_log2 b)) = Suc ?h mod ?N"
      using unat_modpow2_add [OF b(1), of "pb_head b" 1] by simp
    have c: "pbuf_contents b = pb_packet b ! ?h # drop 1 (pbuf_contents b)"
      using lt b by (intro nth_equalityI) (auto simp: pbuf_contents_def nth_Cons split: nat.split)
    have d: "drop 1 (pbuf_contents b) = pbuf_contents ?b"
      using lt b(2) ring_drop [of 1 "?N - ?a" ?h "pb_packet b"] a1 h1
      by (simp add: pbuf_contents_def)
    have "Suc ?h + (?N - Suc ?a) = ?h + (?N - ?a)" using lt by simp
    then have "unat (pb_tail b) = (Suc ?h mod ?N + (?N - Suc ?a)) mod ?N"
      using b(5) mod_add_left_eq [of "Suc ?h" ?N "?N - Suc ?a"] by (simp only:)
    then have "pbuf_ok ?b" using b lt a1 h1 by (simp add: pbuf_ok_def)
    then show ?thesis using False e c d by (subst c) (simp add: buf_read_def)
  qed
qed

text \<open>Reading up to \<open>n\<close> packets, one after the other.\<close>

primrec buf_get :: "nat \<Rightarrow> port_buf \<Rightarrow> port_packet list \<times> port_buf" where
  "buf_get 0 b = ([], b)"
| "buf_get (Suc n) b =
     (case buf_read b of
        (_, None, b) \<Rightarrow> ([], b)
      | (_, Some p, b) \<Rightarrow> (case buf_get n b of (ps, b) \<Rightarrow> (p # ps, b)))"

definition buf_put :: "port_packet list \<Rightarrow> port_buf \<Rightarrow> nat \<times> port_buf" where
  "buf_put ps b = (case buf_write ps b of (st, b) \<Rightarrow> (if st = NO_ERROR then length ps else 0, b))"

lemma buf_get_ok:
  "pbuf_ok b \<Longrightarrow> buf_get n b = (ps, b') \<Longrightarrow>
   pbuf_ok b' \<and> pb_log2 b' = pb_log2 b \<and> ps = take n (pbuf_contents b) \<and> pbuf_contents b' = drop n (pbuf_contents b)"
proof (induction n arbitrary: b ps)
  case 0
  then show ?case by simp
next
  case (Suc n)
  show ?case
  proof (cases "pbuf_contents b")
    case Nil
    then show ?thesis using buf_read_ok [OF Suc.prems(1)] Suc.prems by auto
  next
    case (Cons p qs)
    then obtain b1 where b1: "buf_read b = (NO_ERROR, Some p, b1)" "pbuf_ok b1" "pb_log2 b1 = pb_log2 b"
      "pbuf_contents b1 = qs"
      using buf_read_ok [OF Suc.prems(1)] by auto
    obtain rs where "buf_get n b1 = (rs, b')" "ps = p # rs"
      using Suc.prems(2) b1(1) by (auto split: prod.splits)
    then show ?thesis using Suc.IH [OF b1(2)] b1 Cons by auto
  qed
qed

interpretation pbq: bounded_fifo pbuf_ok pbuf_contents "\<lambda>b. 2 ^ pb_log2 b" buf_put buf_get
proof
  fix b b' xs n ys
  assume ok: "pbuf_ok b"
  show "length (pbuf_contents b) \<le> 2 ^ pb_log2 b" by simp
  show "pbuf_ok b' \<and> (2 :: nat) ^ pb_log2 b' = 2 ^ pb_log2 b \<and> n \<le> length xs \<and>
      pbuf_contents b' = pbuf_contents b @ take n xs \<and>
      (length (pbuf_contents b) + length xs \<le> 2 ^ pb_log2 b \<longrightarrow> n = length xs)"
    if "buf_put xs b = (n, b')"
    using that buf_write_ok [OF ok, of xs] ok
    by (cases "length (pbuf_contents b) + length xs \<le> 2 ^ pb_log2 b")
      (auto simp: buf_put_def lk_defs split: prod.splits)
  show "pbuf_ok b' \<and> (2 :: nat) ^ pb_log2 b' = 2 ^ pb_log2 b \<and> ys = take n (pbuf_contents b) \<and>
      pbuf_contents b' = drop n (pbuf_contents b)"
    if "buf_get n b = (ys, b')"
    using buf_get_ok [OF ok that] by simp
qed

section \<open>Properties\<close>

text \<open>
  C20 The packet buffer of a port is a bounded queue that takes a write whole or not at all: in
  any sequence of writes and reads the packets read, followed by those still queued, are
  those queued before, followed by those accepted; there are never more than the buffer has
  room for, and a write is accepted exactly when all its packets fit.
\<close>

theorem port_buffer_is_fifo:
  assumes "pbuf_ok b" "bounded_fifo.run buf_put buf_get ops b = (accepted, delivered, b')"
  shows "pbuf_ok b' \<and> delivered @ pbuf_contents b' = pbuf_contents b @ accepted \<and>
    length (pbuf_contents b') \<le> 2 ^ pb_log2 b \<and>
    (\<forall>ps. fst (buf_write ps b) = NO_ERROR \<longleftrightarrow> length (pbuf_contents b) + length ps \<le> 2 ^ pb_log2 b)"
proof -
  have "fst (buf_write ps b) = NO_ERROR \<longleftrightarrow> length (pbuf_contents b) + length ps \<le> 2 ^ pb_log2 b" for ps
    using arg_cong [OF buf_write_ok(1) [OF assms(1), of ps], of fst] by (simp add: lk_defs)
  then show ?thesis using pbq.run_fifo [OF assms] by blast
qed

definition small_pbuf :: port_buf where
  "small_pbuf = the (make_buf False (Some (replicate 8 [])))"

lemma log2_8: "log2_uint 8 = 3" "log2_uint PORT_BUFF_SIZE = 3"
  using log2_uint_valpow2 [of 3] by (simp_all add: valpow2_def lk_defs)

lemma small_pbuf_eq:
  "small_pbuf = \<lparr>pb_log2 = 3, pb_avail = 8, pb_head = 0, pb_tail = 0, pb_packet = replicate 8 []\<rparr>"
  by (simp add: small_pbuf_def make_buf_def log2_8) (simp add: lk_defs)

lemma small_pbuf_ok: "pbuf_ok small_pbuf" "pbuf_contents small_pbuf = []"
  by (simp_all add: small_pbuf_eq pbuf_ok_def pbuf_contents_def)

theorem port_buffer_is_fifo_witness:
  "\<exists>accepted delivered b'. bounded_fifo.run buf_put buf_get [Put_op [[1], [2]], Get_op 1, Put_op [[3]]] small_pbuf =
     (accepted, delivered, b') \<and> delivered @ pbuf_contents b' = accepted"
proof -
  obtain accepted delivered b' where
    r: "bounded_fifo.run buf_put buf_get [Put_op [[1], [2]], Get_op 1, Put_op [[3]]] small_pbuf =
     (accepted, delivered, b')" by (metis prod_cases3)
  from port_buffer_is_fifo [OF small_pbuf_ok(1) r] r show ?thesis using small_pbuf_ok(2) by auto
qed

text \<open>What the write loop does to the read ports: those with room get the packets.\<close>

definition reader_after :: "port_packet list \<Rightarrow> port option \<Rightarrow> port option" where
  "reader_after pk p = (case p of
     Some (RPort r) \<Rightarrow> Some (RPort (r\<lparr>rp_buf := map_option (\<lambda>b. snd (buf_write pk b)) (rp_buf r)\<rparr>))
   | _ \<Rightarrow> p)"

definition reader_full :: "port_packet list \<Rightarrow> pstate \<Rightarrow> pid \<Rightarrow> bool" where
  "reader_full pk ps i \<longleftrightarrow> (\<exists>r b. get_rp ps i = Some r \<and> rp_buf r = Some b \<and> unat (pb_avail b) < length pk)"

definition readers_ok :: "pstate \<Rightarrow> kstate \<Rightarrow> pid list \<Rightarrow> bool" where
  "readers_ok ps k is \<longleftrightarrow> distinct is \<and> (\<forall>i \<in> set is. \<exists>r b. get_rp ps i = Some r \<and> rp_buf r = Some b \<and> pbuf_ok b \<and>
     wq_magic (wqs k (port_wait i)) = WAIT_QUEUE_MAGIC \<and>
     (\<forall>g. rp_gport r = Some g \<longrightarrow> wq_magic (wqs k (port_wait g)) = WAIT_QUEUE_MAGIC))"

lemma wake_one_frame:
  assumes inv: "kinv k" and cur: "current k cpu = Some self" and m: "wq_magic (wqs k w) = WAIT_QUEUE_MAGIC"
  shows "\<exists>n k'. wait_queue_wake_one cpu w False NO_ERROR k = Some (n, k') \<and> kinv k' \<and> 0 \<le> n \<and>
    current k' = current k \<and> (\<forall>v. wq_magic (wqs k' v) = wq_magic (wqs k v)) \<and>
    (\<forall>v. length (wq_list (wqs k' v)) \<le> length (wq_list (wqs k v)))"
proof -
  obtain k' where k': "wait_queue_wake_one cpu w False NO_ERROR k = Some (if wq_list (wqs k w) = [] then 0 else 1, k')"
    "kinv k'" "quiet cpu (woken w NO_ERROR k) k'" "current k' = current k"
    using wait_queue_wake_one_ok [OF inv cur m, of False NO_ERROR] by auto
  have "wqs k' = wqs (woken w NO_ERROR k)" using quietD(1) [OF k'(3)] .
  then have "wq_magic (wqs k' v) = wq_magic (wqs k v)" "length (wq_list (wqs k' v)) \<le> length (wq_list (wqs k v))" for v
    by (auto simp: woken_def length_remove1 split: list.split)
  then show ?thesis using k' by auto
qed

lemma port_wake_ok:
  assumes inv: "kinv k" and cur: "current k cpu = Some self"
    and m: "wq_magic (wqs k (port_wait i)) = WAIT_QUEUE_MAGIC"
      "\<And>g. rp_gport r = Some g \<Longrightarrow> wq_magic (wqs k (port_wait g)) = WAIT_QUEUE_MAGIC"
  shows "\<exists>n k'. port_wake cpu i r k = Some (n, k') \<and> kinv k' \<and> 0 \<le> n \<and> current k' = current k \<and>
    (\<forall>v. wq_magic (wqs k' v) = wq_magic (wqs k v))"
proof (cases "rp_gport r")
  case None
  then show ?thesis using wake_one_frame [OF inv cur m(1)] by (auto simp: port_wake_def)
next
  case (Some g)
  obtain n k1 where k1: "wait_queue_wake_one cpu (port_wait g) False NO_ERROR k = Some (n, k1)" "kinv k1" "0 \<le> n"
    "current k1 = current k" "\<forall>v. wq_magic (wqs k1 v) = wq_magic (wqs k v)"
    using wake_one_frame [OF inv cur m(2) [OF Some]] by blast
  show ?thesis
  proof (cases "n = 0")
    case True
    then show ?thesis
      using Some k1 wake_one_frame [OF k1(2), of cpu self "port_wait i"] cur m(1) by (auto simp: port_wake_def)
  next
    case False
    then show ?thesis using Some k1 by (auto simp: port_wake_def)
  qed
qed

lemma get_rp_set_port [simp]:
  "get_rp (set_port i (RPort r) ps) j = (if j = i then Some r else get_rp ps j)"
  by (simp add: get_rp_def set_port_def)

lemma port_write_loop_ok:
  assumes "readers_ok ps k is" "kinv k" "current k cpu = Some self" "0 \<le> awake"
  shows "\<exists>awake' ps' k'. port_write_loop cpu pk is status awake ps k =
      Some (if \<exists>i \<in> set is. reader_full pk ps i then ERR_PARTIAL_WRITE else status, awake', ps', k') \<and>
    kinv k' \<and> current k' = current k \<and> 0 \<le> awake' \<and> write_port_list ps' = write_port_list ps \<and>
    p_heap ps' = (\<lambda>i. if i \<in> set is then reader_after pk (p_heap ps i) else p_heap ps i)"
  using assms
proof (induction "is" arbitrary: ps k status awake)
  case Nil
  then show ?case by simp
next
  case (Cons i "is")
  obtain r b where r: "get_rp ps i = Some r" "rp_buf r = Some b" "pbuf_ok b"
    "wq_magic (wqs k (port_wait i)) = WAIT_QUEUE_MAGIC"
    "\<And>g. rp_gport r = Some g \<Longrightarrow> wq_magic (wqs k (port_wait g)) = WAIT_QUEUE_MAGIC"
    using Cons.prems(1) by (auto simp: readers_ok_def)
  have h: "p_heap ps i = Some (RPort r)" using r(1) by (auto simp: get_rp_def split: option.splits port.splits)
  have ni: "i \<notin> set is" using Cons.prems(1) by (simp add: readers_ok_def)
  show ?case
  proof (cases "unat (pb_avail b) < length pk")
    case True
    then have w: "buf_write pk b = (ERR_NOT_ENOUGH_BUFFER, b)" by (simp add: buf_write_def)
    have full: "reader_full pk ps i" using r True by (auto simp: reader_full_def)
    have ra: "reader_after pk (p_heap ps i) = p_heap ps i" using h r(2) w by (simp add: reader_after_def)
    have rk: "readers_ok ps k is" using Cons.prems(1) by (simp add: readers_ok_def)
    obtain awake' ps' k' where
      "port_write_loop cpu pk is ERR_PARTIAL_WRITE awake ps k = Some (ERR_PARTIAL_WRITE, awake', ps', k')"
      "kinv k'" "current k' = current k" "0 \<le> awake'" "write_port_list ps' = write_port_list ps"
      "p_heap ps' = (\<lambda>i. if i \<in> set is then reader_after pk (p_heap ps i) else p_heap ps i)"
      using Cons.IH [OF rk Cons.prems(2-4), of ERR_PARTIAL_WRITE] by auto
    then show ?thesis
      using full ra r(1,2) w by (auto simp: fun_eq_iff lk_defs)
  next
    case False
    obtain b1 where w: "buf_write pk b = (NO_ERROR, b1)" using False by (simp add: buf_write_def Let_def)
    let ?ps = "set_port i (RPort (r\<lparr>rp_buf := Some b1\<rparr>)) ps"
    obtain n k1 where k1: "port_wake cpu i r k = Some (n, k1)" "kinv k1" "0 \<le> n" "current k1 = current k"
      "\<forall>v. wq_magic (wqs k1 v) = wq_magic (wqs k v)"
      using port_wake_ok [OF Cons.prems(2,3) r(4), of r] r(5) by blast
    have nf: "\<not> reader_full pk ps i" using r False by (simp add: reader_full_def)
    have rk: "readers_ok ?ps k1 is" using Cons.prems(1) ni k1(5) by (auto simp: readers_ok_def)
    have fl: "(\<exists>j \<in> set is. reader_full pk ?ps j) = (\<exists>j \<in> set is. reader_full pk ps j)"
      using ni by (auto simp: reader_full_def)
    obtain awake' ps' k' where ih: "port_write_loop cpu pk is status (awake + n) ?ps k1 =
        Some (if \<exists>j \<in> set is. reader_full pk ps j then ERR_PARTIAL_WRITE else status, awake', ps', k')"
      "kinv k'" "current k' = current k1" "0 \<le> awake'" "write_port_list ps' = write_port_list ?ps"
      "p_heap ps' = (\<lambda>j. if j \<in> set is then reader_after pk (p_heap ?ps j) else p_heap ?ps j)"
      using Cons.IH [OF rk k1(2), of "awake + n" status] k1(3,4) Cons.prems(3,4) fl by auto
    have hp: "p_heap ps' = (\<lambda>j. if j \<in> set (i # is) then reader_after pk (p_heap ps j) else p_heap ps j)"
      using ih(6) ni h r(2) w by (auto simp: fun_eq_iff set_port_def reader_after_def)
    have "port_write_loop cpu pk (i # is) status awake ps k =
        Some (if \<exists>j \<in> set (i # is). reader_full pk ps j then ERR_PARTIAL_WRITE else status, awake', ps', k')"
      using r(1,2) w k1(1) ih(1) nf by (simp add: NO_ERROR_def)
    moreover have "write_port_list ps' = write_port_list ps" "current k' = current k"
      using ih(3,5) k1(4) by (simp_all add: set_port_def)
    ultimately show ?thesis using ih(2,4) hp by blast
  qed
qed

text \<open>
  C21 A write to an open port with readers reaches every reader that has room for all of it, in
  order and exactly once; a reader without room keeps its queue and makes the result
  \<^verbatim>\<open>ERR_PARTIAL_WRITE\<close>, otherwise the result is \<open>NO_ERROR\<close>. Nothing else
  in the ports changes, no assertion fails, and the kernel's invariant holds.
\<close>

theorem port_write_reaches_readers:
  assumes wp: "get_wp ps w = Some wp" "wp_magic wp = WRITEPORT_MAGIC_W" "wp_buf wp = None"
    and rd: "readers_ok ps k (wp_rp_list wp)" and inv: "kinv k" and cur: "current k cpu = Some self"
  shows "\<exists>ps' k'. port_write cpu (Some w) (Some pk) (ps, k) =
      Some (if \<exists>i \<in> set (wp_rp_list wp). reader_full pk ps i then ERR_PARTIAL_WRITE else NO_ERROR, ps', k') \<and>
    kinv k' \<and>
    (\<forall>i \<in> set (wp_rp_list wp). \<exists>r b r' b'. get_rp ps i = Some r \<and> rp_buf r = Some b \<and>
       get_rp ps' i = Some r' \<and> rp_buf r' = Some b' \<and> pbuf_ok b' \<and>
       pbuf_contents b' = pbuf_contents b @ (if reader_full pk ps i then [] else pk)) \<and>
    (\<forall>i. i \<notin> set (wp_rp_list wp) \<longrightarrow> p_heap ps' i = p_heap ps i)"
proof -
  have hw: "p_heap ps w = Some (WPort wp)" using wp(1) by (auto simp: get_wp_def split: option.splits port.splits)
  obtain awake ps' k1 where l: "port_write_loop cpu pk (wp_rp_list wp) NO_ERROR 0 ps k =
      Some (if \<exists>i \<in> set (wp_rp_list wp). reader_full pk ps i then ERR_PARTIAL_WRITE else NO_ERROR, awake, ps', k1)"
    "kinv k1" "current k1 = current k"
    "p_heap ps' = (\<lambda>i. if i \<in> set (wp_rp_list wp) then reader_after pk (p_heap ps i) else p_heap ps i)"
    using port_write_loop_ok [OF rd inv cur, of 0 pk NO_ERROR] by auto
  have "rescheduled cpu k1 (thread_yield cpu k1)" using thread_yield_ok [OF l(2)] l(3) cur by simp
  then obtain k2 where y: "thread_yield cpu k1 = Some k2" "kinv k2" by (auto simp: rescheduled_def)
  have "\<exists>r b r' b'. get_rp ps i = Some r \<and> rp_buf r = Some b \<and> get_rp ps' i = Some r' \<and> rp_buf r' = Some b' \<and>
      pbuf_ok b' \<and> pbuf_contents b' = pbuf_contents b @ (if reader_full pk ps i then [] else pk)"
    if i: "i \<in> set (wp_rp_list wp)" for i
  proof -
    obtain r b where r: "get_rp ps i = Some r" "rp_buf r = Some b" "pbuf_ok b"
      using rd i by (auto simp: readers_ok_def)
    have h: "p_heap ps i = Some (RPort r)" using r(1) by (auto simp: get_rp_def split: option.splits port.splits)
    have g: "get_rp ps' i = Some (r\<lparr>rp_buf := Some (snd (buf_write pk b))\<rparr>)"
      using l(4) i h r(2) by (simp add: get_rp_def reader_after_def)
    have fl: "reader_full pk ps i \<longleftrightarrow> \<not> length (pbuf_contents b) + length pk \<le> 2 ^ pb_log2 b"
      using r by (auto simp: reader_full_def pbuf_ok_def)
    have "pbuf_ok (snd (buf_write pk b)) \<and>
        pbuf_contents (snd (buf_write pk b)) = pbuf_contents b @ (if reader_full pk ps i then [] else pk)"
      using buf_write_ok [OF r(3), of pk] r(3) fl
      by (cases "reader_full pk ps i") (auto dest: arg_cong [of _ _ snd])
    then show ?thesis using r g by auto
  qed
  moreover have "port_write cpu (Some w) (Some pk) (ps, k) =
      Some (if \<exists>i \<in> set (wp_rp_list wp). reader_full pk ps i then ERR_PARTIAL_WRITE else NO_ERROR, ps',
            if awake \<noteq> 0 then k2 else k1)"
    using hw wp l(1) y(1) by (simp add: port_write_def)
  ultimately show ?thesis using l(2,4) y(2) by (intro exI [of _ ps']) auto
qed

text \<open>A broadcast port with two readers.\<close>

definition two_readers :: pstate where
  "two_readers = \<lparr>p_heap = [1 \<mapsto> WPort \<lparr>wp_magic = WRITEPORT_MAGIC_W, wp_buf = None, wp_rp_list = [9, 10],
        wp_mode = 0, wp_name = ''sensors''\<rparr>,
      9 \<mapsto> RPort \<lparr>rp_magic = READPORT_MAGIC, rp_g_node = None, rp_buf = Some small_pbuf, rp_ctx = 0,
        rp_wport = Some 1, rp_gport = None\<rparr>,
      10 \<mapsto> RPort \<lparr>rp_magic = READPORT_MAGIC, rp_g_node = None, rp_buf = Some small_pbuf, rp_ctx = 0,
        rp_wport = Some 1, rp_gport = None\<rparr>],
     write_port_list = [1]\<rparr>"

definition port_kernel :: kstate where
  "port_kernel = wait_queue_init (port_wait 10) (wait_queue_init (port_wait 9) booted)"

lemma port_kernel_facts:
  "kinv port_kernel" "current port_kernel 0 = Some (Thr 5)" "\<not> is_idle port_kernel (Thr 5)"
  "wqs port_kernel (port_wait 9) = WAIT_QUEUE_INITIAL_VALUE" "wqs port_kernel (port_wait 10) = WAIT_QUEUE_INITIAL_VALUE"
proof -
  have "wq_list (wqs (wait_queue_init (port_wait 9) booted) (port_wait 10)) = []"
    using booted_wq by (simp add: wait_queue_init_def port_wait_def)
  then show "kinv port_kernel"
    unfolding port_kernel_def using wait_queue_init_inv booted_facts(2) booted_wq by blast
  show "current port_kernel 0 = Some (Thr 5)" "\<not> is_idle port_kernel (Thr 5)"
    "wqs port_kernel (port_wait 9) = WAIT_QUEUE_INITIAL_VALUE" "wqs port_kernel (port_wait 10) = WAIT_QUEUE_INITIAL_VALUE"
    using booted_facts(3) booted_not_idle by (simp_all add: port_kernel_def wait_queue_init_def port_wait_def)
qed

theorem port_write_reaches_readers_witness:
  "\<exists>ps' k' r' b'. port_write 0 (Some 1) (Some [[1, 2]]) (two_readers, port_kernel) = Some (NO_ERROR, ps', k') \<and>
     get_rp ps' 10 = Some r' \<and> rp_buf r' = Some b' \<and> pbuf_contents b' = [[1, 2]]"
proof -
  let ?w = "\<lparr>wp_magic = WRITEPORT_MAGIC_W, wp_buf = None, wp_rp_list = [9, 10], wp_mode = 0, wp_name = ''sensors''\<rparr>"
  have w: "get_wp two_readers 1 = Some ?w" by (simp add: get_wp_def two_readers_def)
  have rd: "readers_ok two_readers port_kernel (wp_rp_list ?w)"
    using port_kernel_facts(4,5) small_pbuf_ok(1)
    by (simp add: readers_ok_def get_rp_def two_readers_def WAIT_QUEUE_INITIAL_VALUE_def)
  have nf: "\<not> reader_full [[1, 2]] two_readers i" for i
    by (auto simp: reader_full_def get_rp_def two_readers_def small_pbuf_eq split: if_splits)
  have b: "rp_buf r = Some b \<Longrightarrow> get_rp two_readers 10 = Some r \<Longrightarrow> b = small_pbuf" for r b
    by (auto simp: get_rp_def two_readers_def)
  show ?thesis
    using port_write_reaches_readers [OF w _ _ rd port_kernel_facts(1,2), of "[[1, 2]]"] nf b small_pbuf_ok(2)
    by simp (metis append_Nil)
qed

text \<open>
  C22 Opening the first reader of a port and closing it again is a round trip: the reader gets
  exactly the packets queued in the write port, which no longer holds them; when it closes,
  the write port has them back, and the ports are as they were before the open. While
  the reader is there, a second open of a unicast port is refused.
\<close>

theorem port_open_close_roundtrip:
  assumes w: "find_wport name ps = Some w" "get_wp ps w = Some wp" "wp_buf wp = Some b" "wp_rp_list wp = []"
    and i: "p_heap ps i = None" "wq_list (wqs k (port_wait i)) = []"
    and k: "kinv k" "current k cpu = Some self" "\<not> is_idle k self"
  shows "\<exists>ps1 k1 r ps2 k2 k3. port_open (Some name) ctx True (Some i) (Some mem) (ps, k) = Some (NO_ERROR, Some i, ps1, k1) \<and>
    get_rp ps1 i = Some r \<and> rp_buf r = Some b \<and> map_option wp_buf (get_wp ps1 w) = Some None \<and>
    (wp_mode wp AND PORT_MODE_UNICAST \<noteq> 0 \<longrightarrow>
       (\<exists>k'. port_open (Some name) ctx' True (Some j) (Some mem') (ps1, k1) = Some (ERR_NOT_ALLOWED, None, ps1, k'))) \<and>
    port_close cpu (Some i) (ps1, k1) = Some (NO_ERROR, ps2, k2) \<and>
    port_close_exit i (ps2, k2) = Some (ps, k3)"
proof -
  let ?k1 = "wait_queue_init (port_wait i) k"
  let ?rp = "\<lparr>rp_magic = READPORT_MAGIC, rp_g_node = None, rp_buf = Some b, rp_ctx = ctx, rp_wport = Some w, rp_gport = None\<rparr>"
  let ?wp1 = "wp\<lparr>wp_rp_list := [i], wp_buf := None\<rparr>"
  let ?ps1 = "set_port i (RPort ?rp) (set_port w (WPort ?wp1) ps)"
  have hw: "p_heap ps w = Some (WPort wp)" using w(2) by (auto simp: get_wp_def split: option.splits port.splits)
  then have ne: "w \<noteq> i" using i(1) by auto
  obtain buf where mk: "make_buf False (Some mem) = Some buf" "\<exists>buf'. make_buf False (Some mem') = Some buf'"
    by (simp add: make_buf_def)
  have op: "port_open (Some name) ctx True (Some i) (Some mem) (ps, k) = Some (NO_ERROR, Some i, ?ps1, ?k1)"
    using w mk(1) by (simp add: port_open_def)
  have g: "get_rp ?ps1 i = Some ?rp" "get_wp ?ps1 w = Some ?wp1" "p_heap ?ps1 i = Some (RPort ?rp)"
    using ne by (simp, simp_all add: get_wp_def set_port_def)
  have inv1: "kinv ?k1" by (rule wait_queue_init_inv [OF k(1) i(2)])
  have k1: "current ?k1 cpu = Some self" "\<not> is_idle ?k1 self" "wq_magic (wqs ?k1 (port_wait i)) = WAIT_QUEUE_MAGIC"
    using k by (simp_all add: wait_queue_init_def WAIT_QUEUE_INITIAL_VALUE_def)
  obtain n k2 where d: "wait_queue_wake_all cpu (port_wait i) True ERR_OBJECT_DESTROYED ?k1 = Some (n, k2)"
    using wait_queue_wake_all_ok [OF inv1 k1(1,3), of True ERR_OBJECT_DESTROYED] k1(2) by auto
  let ?ps2 = "set_port i (RPort (?rp\<lparr>rp_buf := None\<rparr>)) (set_port w (WPort wp) ?ps1)"
  have "wp\<lparr>wp_rp_list := [], wp_buf := Some b\<rparr> = wp" using w(3,4) by simp
  then have dr: "detach_reader i ?rp ?ps1 = Some ?ps2" using g(2) by (simp add: detach_reader_def)
  have cl: "port_close cpu (Some i) (?ps1, ?k1) = Some (NO_ERROR, ?ps2, k2)"
    using g(1,3) dr d k1(3) by (simp add: port_close_def wait_queue_destroy_def)
  have "free_port i ?ps2 = ps"
    using hw i(1) ne by (intro pstate.equality) (auto simp: free_port_def set_port_def fun_eq_iff)
  then have ex: "port_close_exit i (?ps2, k2) = Some (ps, wait_queue_destroy_exit (port_wait i) k2)"
    by (simp add: port_close_exit_def) (simp add: set_port_def)
  have f1: "find_wport name ?ps1 = Some w"
  proof -
    have "(case get_wp ?ps1 x of None \<Rightarrow> False | Some w \<Rightarrow> wp_name w = name) =
        (case get_wp ps x of None \<Rightarrow> False | Some w \<Rightarrow> wp_name w = name)" for x
      using hw i(1) ne by (simp add: get_wp_def set_port_def)
    then show ?thesis using w(1) by (simp add: find_wport_def set_port_def)
  qed
  have "\<exists>k'. port_open (Some name) ctx' True (Some j) (Some mem') (?ps1, ?k1) = Some (ERR_NOT_ALLOWED, None, ?ps1, k')"
    if "wp_mode wp AND PORT_MODE_UNICAST \<noteq> 0"
    using that mk(2) f1 g(2) by (auto simp: port_open_def)
  moreover have "rp_buf ?rp = Some b" "map_option wp_buf (get_wp ?ps1 w) = Some None" using g(2) by simp_all
  ultimately show ?thesis using op g(1) cl ex by blast
qed

definition one_wport :: pstate where
  "one_wport = \<lparr>p_heap = [1 \<mapsto> WPort \<lparr>wp_magic = WRITEPORT_MAGIC_W, wp_buf = Some small_pbuf, wp_rp_list = [],
      wp_mode = PORT_MODE_UNICAST, wp_name = ''sensors''\<rparr>], write_port_list = [1]\<rparr>"

theorem port_open_close_roundtrip_witness:
  "\<exists>ps1 k1 ps2 k2 k3. port_open (Some ''sensors'') 0 True (Some 9) (Some (replicate 8 [])) (one_wport, booted) =
     Some (NO_ERROR, Some 9, ps1, k1) \<and> port_close 0 (Some 9) (ps1, k1) = Some (NO_ERROR, ps2, k2) \<and>
     port_close_exit 9 (ps2, k2) = Some (one_wport, k3)"
proof -
  let ?wp = "\<lparr>wp_magic = WRITEPORT_MAGIC_W, wp_buf = Some small_pbuf, wp_rp_list = [],
      wp_mode = PORT_MODE_UNICAST, wp_name = ''sensors''\<rparr>"
  have "get_wp one_wport 1 = Some ?wp" "find_wport ''sensors'' one_wport = Some 1" "p_heap one_wport 9 = None"
    by (simp_all add: get_wp_def find_wport_def one_wport_def)
  from port_open_close_roundtrip [OF this(2,1) _ _ this(3) _ booted_facts(2,3) booted_not_idle, of small_pbuf]
  show ?thesis using booted_wq by simp blast
qed

lemma detach_reader_node:
  assumes d: "detach_reader i r ps = Some ps'" and r: "get_rp ps i = Some r"
  shows "\<exists>x. get_rp ps' i = Some (r\<lparr>rp_buf := x\<rparr>)"
proof (cases "rp_wport r")
  case None
  then have "get_rp ps' i = Some (r\<lparr>rp_buf := rp_buf r\<rparr>)" using d r by (simp add: detach_reader_def)
  then show ?thesis by blast
next
  case (Some w)
  then obtain wp where w: "get_wp ps w = Some wp" using d by (cases "get_wp ps w") (auto simp: detach_reader_def)
  then have "w \<noteq> i" using r by (auto simp: get_wp_def get_rp_def split: option.splits port.splits)
  then have "get_rp (set_port w (WPort q) ps) i = Some (r\<lparr>rp_buf := rp_buf r\<rparr>)" for q
    using r by (simp add: get_rp_def set_port_def)
  moreover have "ps' = set_port i (RPort (r\<lparr>rp_buf := None\<rparr>)) q \<or> (\<exists>q. ps' = set_port w (WPort q) ps)"
    if "q = set_port w (WPort (wp\<lparr>wp_rp_list := [], wp_buf := rp_buf r\<rparr>)) ps" for q
    using d Some w that by (auto simp: detach_reader_def Let_def split: if_splits)
  ultimately show ?thesis by (metis get_rp_set_port)
qed

text \<open>
  C23 A read port that has been removed from its group keeps its pointer to the group: it cannot
  join another group, a second removal returns with the thread lock held, and closing it
  unlinks a list node that is not linked, which follows null pointers.
\<close>

theorem port_group_remove_leaves_pointer:
  assumes g: "get_pg ps g = Some pg" "pg_magic pg = PORTGROUP_MAGIC" "distinct (pg_rp_list pg)"
    and i: "get_rp ps i = Some r" "rp_magic r = READPORT_MAGIC" "rp_gport r = Some g" "rp_g_node r = Some g"
      "i \<in> set (pg_rp_list pg)"
    and g': "get_pg ps g' = Some pg'" "pg_magic pg' = PORTGROUP_MAGIC"
  shows "\<exists>ps1. port_group_remove (Some g) (Some i) ps = Some (NO_ERROR, False, ps1) \<and>
    port_group_remove (Some g) (Some i) ps1 = Some (ERR_BAD_HANDLE, True, ps1) \<and>
    port_group_add cpu (Some g') (Some i) (ps1, k) = Some (ERR_BAD_HANDLE, ps1, k) \<and>
    port_close cpu (Some i) (ps1, k) = None"
proof -
  have h: "p_heap ps g = Some (PGroup pg)" "p_heap ps i = Some (RPort r)" "p_heap ps g' = Some (PGroup pg')"
    using g i g' by (auto simp: get_pg_def get_rp_def split: option.splits port.splits)
  then have ne: "g \<noteq> i" "g' \<noteq> i" by auto
  let ?r = "r\<lparr>rp_g_node := None\<rparr>" and ?pg = "pg\<lparr>pg_rp_list := remove1 i (pg_rp_list pg)\<rparr>"
  let ?ps = "set_port g (PGroup ?pg) (set_port i (RPort ?r) ps)"
  have hp: "p_heap ?ps g = Some (PGroup ?pg)" "p_heap ?ps i = Some (RPort ?r)" "get_rp ?ps i = Some ?r"
    "get_pg ?ps g = Some ?pg" "\<exists>q. p_heap ?ps g' = Some (PGroup q) \<and> pg_magic q = PORTGROUP_MAGIC"
    using ne h g' g(2) by (auto simp: set_port_def get_rp_def get_pg_def)
  have del: "delete_g_node i ps = Some ?ps"
    using i(1,4) g(1) ne by (simp add: delete_g_node_def get_pg_def set_port_def)
  have rm: "port_group_remove (Some g) (Some i) ps = Some (NO_ERROR, False, ?ps)"
    using h i g del by (simp add: port_group_remove_def)
  have rm2: "port_group_remove (Some g) (Some i) ?ps = Some (ERR_BAD_HANDLE, True, ?ps)"
    using hp i g by (simp add: port_group_remove_def)
  have ad: "port_group_add cpu (Some g') (Some i) (?ps, k) = Some (ERR_BAD_HANDLE, ?ps, k)"
    using hp i by (auto simp: port_group_add_def)
  have "delete_g_node i ps' = None" if "detach_reader i ?r ?ps = Some ps'" for ps'
    using detach_reader_node [OF that hp(3)] by (auto simp: delete_g_node_def)
  then have "port_close cpu (Some i) (?ps, k) = None"
    using hp(2,3) i(2,3) by (cases "detach_reader i ?r ?ps") (simp_all add: port_close_def)
  then show ?thesis using rm rm2 ad by blast
qed

definition grouped :: pstate where
  "grouped = \<lparr>p_heap = [2 \<mapsto> PGroup \<lparr>pg_magic = PORTGROUP_MAGIC, pg_rp_list = [9]\<rparr>,
      9 \<mapsto> RPort \<lparr>rp_magic = READPORT_MAGIC, rp_g_node = Some 2, rp_buf = Some small_pbuf, rp_ctx = 0,
        rp_wport = None, rp_gport = Some 2\<rparr>], write_port_list = []\<rparr>"

theorem port_group_remove_leaves_pointer_witness:
  "\<exists>ps1. port_group_remove (Some 2) (Some 9) grouped = Some (NO_ERROR, False, ps1) \<and>
     port_close 0 (Some 9) (ps1, booted) = None"
proof -
  let ?r = "\<lparr>rp_magic = READPORT_MAGIC, rp_g_node = Some 2, rp_buf = Some small_pbuf, rp_ctx = 0,
        rp_wport = None, rp_gport = Some 2\<rparr>" and ?g = "\<lparr>pg_magic = PORTGROUP_MAGIC, pg_rp_list = [9]\<rparr>"
  have "get_pg grouped 2 = Some ?g" "get_rp grouped 9 = Some ?r"
    by (simp_all add: grouped_def get_pg_def get_rp_def)
  from port_group_remove_leaves_pointer [OF this(1) _ _ this(2) _ _ _ _ this(1), of 0 booted]
  show ?thesis by auto
qed

end
