(* ===== verification/LK_Refine.thy ===== *)
theory LK_Refine
  imports LK_Prelude
begin

text \<open>
  The contract by which a component with pointers, tables or counters implements a simpler
  one: a relation between the two states that every operation of the implementation keeps,
  with the result the specification gives, as long as the operation is allowed in the
  specification's state. The client lemmas are about whole sequences of operations.
\<close>

primrec run_ops :: "('o \<Rightarrow> 'm \<Rightarrow> ('r \<times> 'm) option) \<Rightarrow> 'o list \<Rightarrow> 'm \<Rightarrow> ('r list \<times> 'm) option" where
  "run_ops step [] m = Some ([], m)"
| "run_ops step (p # ps) m = do {
     (r, m) \<leftarrow> step p m;
     (rs, m) \<leftarrow> run_ops step ps m;
     Some (r # rs, m)
   }"

primrec run_spec :: "('o \<Rightarrow> 'x \<Rightarrow> 'r \<times> 'x) \<Rightarrow> 'o list \<Rightarrow> 'x \<Rightarrow> 'r list \<times> 'x" where
  "run_spec spec [] x = ([], x)"
| "run_spec spec (p # ps) x =
     (let (r, x) = spec p x; (rs, x) = run_spec spec ps x in (r # rs, x))"

primrec run_pre :: "('o \<Rightarrow> 'x \<Rightarrow> bool) \<Rightarrow> ('o \<Rightarrow> 'x \<Rightarrow> 'r \<times> 'x) \<Rightarrow> 'o list \<Rightarrow> 'x \<Rightarrow> bool" where
  "run_pre pre spec [] x \<longleftrightarrow> True"
| "run_pre pre spec (p # ps) x \<longleftrightarrow> pre p x \<and> run_pre pre spec ps (snd (spec p x))"

lemma run_pre_append:
  "run_pre pre spec (ps @ qs) x \<longleftrightarrow> run_pre pre spec ps x \<and> run_pre pre spec qs (snd (run_spec spec ps x))"
  by (induction ps arbitrary: x) (auto simp: split_beta Let_def)

locale data_refinement =
  fixes rep :: "'m \<Rightarrow> 'x \<Rightarrow> bool"
    and pre :: "'o \<Rightarrow> 'x \<Rightarrow> bool"
    and spec :: "'o \<Rightarrow> 'x \<Rightarrow> 'r \<times> 'x"
    and step :: "'o \<Rightarrow> 'm \<Rightarrow> ('r \<times> 'm) option"
  assumes sim: "rep m x \<Longrightarrow> pre p x \<Longrightarrow>
    \<exists>m'. step p m = Some (fst (spec p x), m') \<and> rep m' (snd (spec p x))"
begin

lemma simulates:
  assumes "rep m x" "run_pre pre spec ps x"
  shows "\<exists>m'. run_ops step ps m = Some (fst (run_spec spec ps x), m') \<and> rep m' (snd (run_spec spec ps x))"
  using assms
proof (induction ps arbitrary: m x)
  case (Cons p ps)
  obtain n where n: "step p m = Some (fst (spec p x), n)" "rep n (snd (spec p x))"
    using sim Cons.prems by fastforce
  obtain m' where "run_ops step ps n = Some (fst (run_spec spec ps (snd (spec p x))), m')"
      "rep m' (snd (run_spec spec ps (snd (spec p x))))"
    using Cons.IH [OF n(2)] Cons.prems by auto
  then show ?case using n by (auto simp: split_beta Let_def)
qed simp

end

end
