(* ===== verification/Lib_List.thy ===== *)
theory Lib_List
  imports LK_Refine
begin

text \<open>
  The intrusive doubly linked lists of \<^verbatim>\<open>include/list.h\<close>, at the level of their
  pointers. Memory maps the address of a node to its two pointers, \<open>0\<close> is the null
  pointer, and a computation is \<open>None\<close> when it follows a null pointer. \<open>linked\<close>
  says that the nodes reached from a list head are the elements of a HOL list: the operations on it
  are what the other components use when they keep a queue as a HOL list.
\<close>

section \<open>Nodes and operations\<close>

type_synonym naddr = nat

record list_node =
  ln_prev :: naddr
  ln_next :: naddr

type_synonym lmem = "naddr \<Rightarrow> list_node"

abbreviation set_prev :: "naddr \<Rightarrow> naddr \<Rightarrow> lmem \<Rightarrow> lmem" where
  "set_prev a v m \<equiv> m(a := (m a)\<lparr>ln_prev := v\<rparr>)"

abbreviation set_next :: "naddr \<Rightarrow> naddr \<Rightarrow> lmem \<Rightarrow> lmem" where
  "set_next a v m \<equiv> m(a := (m a)\<lparr>ln_next := v\<rparr>)"

text \<open>Following a pointer.\<close>

abbreviation deref :: "naddr \<Rightarrow> unit option" where
  "deref a \<equiv> ASSERT (a \<noteq> 0)"

definition list_initialize :: "naddr \<Rightarrow> lmem \<Rightarrow> lmem option" where
  "list_initialize l m = do {
     deref l;
     Some (set_prev l l (set_next l l m))
   }"

definition list_clear_node :: "naddr \<Rightarrow> lmem \<Rightarrow> lmem option" where
  "list_clear_node item m = do {
     deref item;
     Some (set_prev item 0 (set_next item 0 m))
   }"

definition list_in_list :: "naddr \<Rightarrow> lmem \<Rightarrow> bool option" where
  "list_in_list item m = do {
     deref item;
     Some (\<not> (ln_prev (m item) = 0 \<and> ln_next (m item) = 0))
   }"

definition list_add_head :: "naddr \<Rightarrow> naddr \<Rightarrow> lmem \<Rightarrow> lmem option" where
  "list_add_head l item m = do {
     deref l;
     deref item;
     let m = set_next item (ln_next (m l)) m;
     let m = set_prev item l m;
     deref (ln_next (m l));
     let m = set_prev (ln_next (m l)) item m;
     Some (set_next l item m)
   }"

definition list_add_tail :: "naddr \<Rightarrow> naddr \<Rightarrow> lmem \<Rightarrow> lmem option" where
  "list_add_tail l item m = do {
     deref l;
     deref item;
     let m = set_prev item (ln_prev (m l)) m;
     let m = set_next item l m;
     deref (ln_prev (m l));
     let m = set_next (ln_prev (m l)) item m;
     Some (set_prev l item m)
   }"

text \<open>\<^verbatim>\<open>list_add_after\<close> and \<^verbatim>\<open>list_add_before\<close> are these two at an entry.\<close>

definition list_add_after :: "naddr \<Rightarrow> naddr \<Rightarrow> lmem \<Rightarrow> lmem option" where
  "list_add_after entry new_entry = list_add_head entry new_entry"

definition list_add_before :: "naddr \<Rightarrow> naddr \<Rightarrow> lmem \<Rightarrow> lmem option" where
  "list_add_before entry new_entry = list_add_tail entry new_entry"

definition list_delete :: "naddr \<Rightarrow> lmem \<Rightarrow> lmem option" where
  "list_delete item m = do {
     deref item;
     deref (ln_next (m item));
     let m = set_prev (ln_next (m item)) (ln_prev (m item)) m;
     deref (ln_prev (m item));
     let m = set_next (ln_prev (m item)) (ln_next (m item)) m;
     Some (set_prev item 0 (set_next item 0 m))
   }"

definition list_remove_head :: "naddr \<Rightarrow> lmem \<Rightarrow> (naddr \<times> lmem) option" where
  "list_remove_head l m = do {
     deref l;
     if ln_next (m l) \<noteq> l then do {
       let item = ln_next (m l);
       m \<leftarrow> list_delete item m;
       Some (item, m)
     } else Some (0, m)
   }"

definition list_remove_tail :: "naddr \<Rightarrow> lmem \<Rightarrow> (naddr \<times> lmem) option" where
  "list_remove_tail l m = do {
     deref l;
     if ln_prev (m l) \<noteq> l then do {
       let item = ln_prev (m l);
       m \<leftarrow> list_delete item m;
       Some (item, m)
     } else Some (0, m)
   }"

definition list_peek_head :: "naddr \<Rightarrow> lmem \<Rightarrow> naddr option" where
  "list_peek_head l m = do {
     deref l;
     Some (if ln_next (m l) \<noteq> l then ln_next (m l) else 0)
   }"

definition list_peek_tail :: "naddr \<Rightarrow> lmem \<Rightarrow> naddr option" where
  "list_peek_tail l m = do {
     deref l;
     Some (if ln_prev (m l) \<noteq> l then ln_prev (m l) else 0)
   }"

definition list_prev :: "naddr \<Rightarrow> naddr \<Rightarrow> lmem \<Rightarrow> naddr option" where
  "list_prev l item m = do {
     deref item;
     Some (if ln_prev (m item) \<noteq> l then ln_prev (m item) else 0)
   }"

definition list_prev_wrap :: "naddr \<Rightarrow> naddr \<Rightarrow> lmem \<Rightarrow> naddr option" where
  "list_prev_wrap l item m = do {
     deref item;
     if ln_prev (m item) \<noteq> l then Some (ln_prev (m item))
     else do {
       deref (ln_prev (m item));
       Some (if ln_prev (m (ln_prev (m item))) \<noteq> l then ln_prev (m (ln_prev (m item))) else 0)
     }
   }"

definition list_next :: "naddr \<Rightarrow> naddr \<Rightarrow> lmem \<Rightarrow> naddr option" where
  "list_next l item m = do {
     deref item;
     Some (if ln_next (m item) \<noteq> l then ln_next (m item) else 0)
   }"

definition list_next_wrap :: "naddr \<Rightarrow> naddr \<Rightarrow> lmem \<Rightarrow> naddr option" where
  "list_next_wrap l item m = do {
     deref item;
     if ln_next (m item) \<noteq> l then Some (ln_next (m item))
     else do {
       deref (ln_next (m item));
       Some (if ln_next (m (ln_next (m item))) \<noteq> l then ln_next (m (ln_next (m item))) else 0)
     }
   }"

definition list_is_empty :: "naddr \<Rightarrow> lmem \<Rightarrow> bool option" where
  "list_is_empty l m = do {
     deref l;
     Some (ln_next (m l) = l)
   }"

text \<open>
  The loop \<^verbatim>\<open>for (node = list->next; node != list; node = node->next)\<close>: the nodes it
  visits from \<open>node\<close> on. It has no result while it has not come back to the head.
\<close>

partial_function (option) list_for_every :: "lmem \<Rightarrow> naddr \<Rightarrow> naddr \<Rightarrow> naddr list option" where
  "list_for_every m l node =
     (if node = l then Some []
      else if node = 0 then None
      else do {
        ns \<leftarrow> list_for_every m l (ln_next (m node));
        Some (node # ns)
      })"

text \<open>The loop of \<^verbatim>\<open>list_for_every_entry_reverse\<close>.\<close>

partial_function (option) list_for_every_reverse :: "lmem \<Rightarrow> naddr \<Rightarrow> naddr \<Rightarrow> naddr list option" where
  "list_for_every_reverse m l node =
     (if node = l then Some []
      else if node = 0 then None
      else do {
        ns \<leftarrow> list_for_every_reverse m l (ln_prev (m node));
        Some (node # ns)
      })"

partial_function (option) list_length_loop :: "lmem \<Rightarrow> naddr \<Rightarrow> naddr \<Rightarrow> u64 \<Rightarrow> u64 option" where
  "list_length_loop m l node cnt =
     (if node = l then Some cnt
      else if node = 0 then None
      else list_length_loop m l (ln_next (m node)) (cnt + 1))"

definition list_length :: "naddr \<Rightarrow> lmem \<Rightarrow> u64 option" where
  "list_length l m = do {
     deref l;
     list_length_loop m l (ln_next (m l)) 0
   }"

section \<open>The list a head stands for\<close>

text \<open>Neighbours in \<open>xs\<close> point to each other.\<close>

fun seg :: "lmem \<Rightarrow> naddr list \<Rightarrow> bool" where
  "seg m (a # b # xs) \<longleftrightarrow> ln_next (m a) = b \<and> ln_prev (m b) = a \<and> seg m (b # xs)"
| "seg m _ \<longleftrightarrow> True"

definition linked :: "lmem \<Rightarrow> naddr \<Rightarrow> naddr list \<Rightarrow> bool" where
  "linked m l xs \<longleftrightarrow> distinct (l # xs) \<and> 0 \<notin> set (l # xs) \<and> seg m (l # xs @ [l])"

lemma seg_append: "seg m (xs @ a # ys) \<longleftrightarrow> seg m (xs @ [a]) \<and> seg m (a # ys)"
proof (induction xs)
  case (Cons x xs)
  then show ?case by (cases xs) auto
qed simp

lemma seg_cong:
  assumes "\<And>a. a \<in> set (butlast xs) \<Longrightarrow> ln_next (m a) = ln_next (m' a)"
    and "\<And>a. a \<in> set (tl xs) \<Longrightarrow> ln_prev (m a) = ln_prev (m' a)"
  shows "seg m xs \<longleftrightarrow> seg m' xs"
  using assms by (induction m xs rule: seg.induct) auto

text \<open>A circular list can be entered at any of its nodes.\<close>

lemma linked_rotate: "linked m l (ys @ e # zs) \<longleftrightarrow> linked m e (zs @ l # ys)"
proof -
  have "seg m (l # ys @ e # zs @ [l]) \<longleftrightarrow> seg m (l # ys @ [e]) \<and> seg m (e # zs @ [l])"
    using seg_append [of m "l # ys" e "zs @ [l]"] by simp
  moreover have "seg m (e # zs @ l # ys @ [e]) \<longleftrightarrow> seg m (e # zs @ [l]) \<and> seg m (l # ys @ [e])"
    using seg_append [of m "e # zs" l "ys @ [e]"] by simp
  ultimately show ?thesis by (auto simp: linked_def)
qed

lemma linked_nonnull [dest]: "linked m l xs \<Longrightarrow> l \<noteq> 0"
  by (simp add: linked_def)

lemma linked_next: "linked m l xs \<Longrightarrow> ln_next (m l) = hd (xs @ [l])"
  by (cases xs) (auto simp: linked_def)

lemma linked_prev: "linked m l xs \<Longrightarrow> ln_prev (m l) = last (l # xs)"
  by (cases xs rule: rev_cases) (auto simp: linked_def dest: seg_append [THEN iffD1, of _ "l # _" _ "[l]", simplified])

subsection \<open>Insertion\<close>

lemma list_add_head_ok:
  assumes l: "linked m l xs" and x: "x \<noteq> 0" "x \<notin> set (l # xs)"
  shows "\<exists>m'. list_add_head l x m = Some m' \<and> linked m' l (x # xs)
           \<and> (\<forall>a. a \<notin> set (l # x # xs) \<longrightarrow> m' a = m a)"
proof (cases xs)
  case Nil
  then show ?thesis using assms by (auto simp: list_add_head_def linked_def Let_def)
next
  case (Cons n r)
  let ?m = "(set_next l x (set_prev n x (set_prev x l (set_next x n m))))"
  have run: "list_add_head l x m = Some ?m"
    using assms Cons by (auto simp: list_add_head_def linked_def Let_def)
  have d: "distinct (l # x # n # r)" "0 \<notin> set (l # x # n # r)"
    using assms Cons by (auto simp: linked_def)
  have "seg ?m (n # r @ [l]) \<longleftrightarrow> seg m (n # r @ [l])"
    using d by (intro seg_cong) (auto simp: butlast_append)
  then have "linked ?m l (x # xs)"
    using l d Cons by (auto simp: linked_def)
  then show ?thesis using run Cons by auto
qed

text \<open>Adding at the tail is adding behind the last node.\<close>

lemma list_add_tail_head:
  assumes l: "linked m l xs" and x: "x \<noteq> 0" "x \<notin> set (l # xs)"
  shows "list_add_tail l x m = list_add_head (last (l # xs)) x m"
proof -
  have p: "ln_prev (m l) = last (l # xs)" by (rule linked_prev [OF l])
  have n: "ln_next (m (last (l # xs))) = l"
  proof (cases xs rule: rev_cases)
    case Nil
    then show ?thesis using linked_next [OF l] by simp
  next
    case (snoc ys e)
    then have "linked m e (l # ys)" using l linked_rotate [of m l ys e "[]"] by simp
    from linked_next [OF this] snoc show ?thesis by simp
  qed
  have "last (l # xs) \<in> set (l # xs)" by (rule last_in_set) simp
  then have ne: "last (l # xs) \<noteq> 0" "last (l # xs) \<noteq> x"
    using l x unfolding linked_def by metis+
  show ?thesis
    using p n ne x linked_nonnull [OF l]
    by (auto simp: list_add_tail_def list_add_head_def Let_def fun_upd_def fun_eq_iff simp del: last.simps)
qed

lemma list_add_tail_ok:
  assumes l: "linked m l xs" and x: "x \<noteq> 0" "x \<notin> set (l # xs)"
  shows "\<exists>m'. list_add_tail l x m = Some m' \<and> linked m' l (xs @ [x])
           \<and> (\<forall>a. a \<notin> set (l # x # xs) \<longrightarrow> m' a = m a)"
proof (cases xs rule: rev_cases)
  case Nil
  then show ?thesis using list_add_head_ok [OF assms] list_add_tail_head [OF assms] by simp
next
  case (snoc ys p)
  then have "linked m p (l # ys)" using l linked_rotate [of m l ys p "[]"] by simp
  then obtain m' where m': "list_add_head p x m = Some m'" "linked m' p (x # l # ys)"
      "\<forall>a. a \<notin> set (p # x # l # ys) \<longrightarrow> m' a = m a"
    using list_add_head_ok [of m p "l # ys" x] x snoc by auto
  have "linked m' l (ys @ p # [x])" using m'(2) linked_rotate [of m' l ys p "[x]"] by simp
  then show ?thesis using m' snoc list_add_tail_head [OF assms] by auto
qed

lemma list_add_after_ok:
  assumes l: "linked m l (ys @ e # zs)" and x: "x \<noteq> 0" "x \<notin> set (l # ys @ e # zs)"
  shows "\<exists>m'. list_add_after e x m = Some m' \<and> linked m' l (ys @ e # x # zs)"
proof -
  have "linked m e (zs @ l # ys)" using l linked_rotate by simp
  then obtain m' where "list_add_head e x m = Some m'" "linked m' e (x # zs @ l # ys)"
    using list_add_head_ok [of m e "zs @ l # ys" x] x by auto
  then show ?thesis using linked_rotate [of m' l ys e "x # zs"] by (simp add: list_add_after_def)
qed

lemma list_add_before_ok:
  assumes l: "linked m l (ys @ e # zs)" and x: "x \<noteq> 0" "x \<notin> set (l # ys @ e # zs)"
  shows "\<exists>m'. list_add_before e x m = Some m' \<and> linked m' l (ys @ x # e # zs)"
proof -
  have "linked m e (zs @ l # ys)" using l linked_rotate by simp
  then obtain m' where "list_add_tail e x m = Some m'" "linked m' e ((zs @ l # ys) @ [x])"
    using list_add_tail_ok [of m e "zs @ l # ys" x] x by auto
  then show ?thesis using linked_rotate [of m' l "ys @ [x]" e zs] by (simp add: list_add_before_def)
qed

subsection \<open>Removal\<close>

lemma list_delete_first:
  assumes l: "linked m l (x # xs)"
  shows "\<exists>m'. list_delete x m = Some m' \<and> linked m' l xs \<and> list_in_list x m' = Some False
           \<and> (\<forall>a. a \<notin> set (l # x # xs) \<longrightarrow> m' a = m a)"
proof -
  let ?n = "hd (xs @ [l])"
  let ?m = "set_prev x 0 (set_next x 0 (set_next l ?n (set_prev ?n l m)))"
  have f: "ln_next (m l) = x" "ln_prev (m x) = l" "x \<noteq> 0" "l \<noteq> 0" "x \<noteq> l" "x \<notin> set xs"
      "ln_next (m x) = ?n" "?n \<noteq> 0" "?n \<noteq> x" "distinct (l # xs)" "0 \<notin> set xs"
    using l by (cases xs; auto simp: linked_def)+
  have run: "list_delete x m = Some ?m"
    using f by (simp add: list_delete_def Let_def)
  have "linked ?m l xs"
  proof (cases xs)
    case Nil
    then show ?thesis using f by (auto simp: linked_def)
  next
    case (Cons n r)
    have "seg ?m (n # r @ [l]) \<longleftrightarrow> seg m (n # r @ [l])"
      using f Cons by (intro seg_cong) (auto simp: butlast_append)
    then show ?thesis using l f Cons by (auto simp: linked_def)
  qed
  moreover have "list_in_list x ?m = Some False" using f by (simp add: list_in_list_def)
  moreover have "\<forall>a. a \<notin> set (l # x # xs) \<longrightarrow> ?m a = m a"
    using hd_in_set [of "xs @ [l]"] by auto
  ultimately show ?thesis using run by blast
qed

lemma list_delete_ok:
  assumes l: "linked m l (ys @ x # zs)"
  shows "\<exists>m'. list_delete x m = Some m' \<and> linked m' l (ys @ zs) \<and> list_in_list x m' = Some False
           \<and> (\<forall>a. a \<notin> set (l # ys @ x # zs) \<longrightarrow> m' a = m a)"
proof (cases ys rule: rev_cases)
  case Nil
  then show ?thesis using list_delete_first [of m l x zs] l by simp
next
  case (snoc ws p)
  have "linked m p (x # zs @ l # ws)"
    using l snoc linked_rotate [of m l ws p "x # zs"] by simp
  from list_delete_first [OF this] obtain m' where m': "list_delete x m = Some m'"
      "linked m' p (zs @ l # ws)" "list_in_list x m' = Some False"
      "\<forall>a. a \<notin> set (p # x # zs @ l # ws) \<longrightarrow> m' a = m a" by blast
  have "linked m' l (ys @ zs)" using m'(2) snoc linked_rotate [of m' l ws p zs] by simp
  then show ?thesis using m' snoc by auto
qed

text \<open>A node that is in no list cannot be deleted: the null pointers are followed.\<close>

lemma list_delete_unlinked: "list_in_list x m = Some False \<Longrightarrow> list_delete x m = None"
  by (auto simp: list_in_list_def list_delete_def ASSERT_def split: if_splits)

lemma list_remove_head_ok:
  "linked m l [] \<Longrightarrow> list_remove_head l m = Some (0, m)"
  "linked m l (x # xs) \<Longrightarrow> \<exists>m'. list_remove_head l m = Some (x, m') \<and> linked m' l xs
     \<and> list_in_list x m' = Some False \<and> (\<forall>a. a \<notin> set (l # x # xs) \<longrightarrow> m' a = m a)"
proof -
  assume "linked m l []"
  then show "list_remove_head l m = Some (0, m)"
    by (auto simp: list_remove_head_def linked_def)
next
  assume l: "linked m l (x # xs)"
  then have "l \<noteq> 0" "ln_next (m l) = x" "x \<noteq> l" by (auto simp: linked_def)
  then show "\<exists>m'. list_remove_head l m = Some (x, m') \<and> linked m' l xs
     \<and> list_in_list x m' = Some False \<and> (\<forall>a. a \<notin> set (l # x # xs) \<longrightarrow> m' a = m a)"
    using list_delete_first [OF l] by (auto simp: list_remove_head_def)
qed

lemma list_remove_tail_ok:
  "linked m l [] \<Longrightarrow> list_remove_tail l m = Some (0, m)"
  "linked m l (xs @ [x]) \<Longrightarrow> \<exists>m'. list_remove_tail l m = Some (x, m') \<and> linked m' l xs
     \<and> list_in_list x m' = Some False \<and> (\<forall>a. a \<notin> set (l # x # xs) \<longrightarrow> m' a = m a)"
proof -
  assume "linked m l []"
  then show "list_remove_tail l m = Some (0, m)"
    by (auto simp: list_remove_tail_def linked_def)
next
  assume l: "linked m l (xs @ [x])"
  then have "l \<noteq> 0" "x \<noteq> l" by (auto simp: linked_def)
  moreover have "ln_prev (m l) = x" using linked_prev [OF l] by simp
  ultimately show "\<exists>m'. list_remove_tail l m = Some (x, m') \<and> linked m' l xs
     \<and> list_in_list x m' = Some False \<and> (\<forall>a. a \<notin> set (l # x # xs) \<longrightarrow> m' a = m a)"
    using list_delete_ok [of m l xs x "[]"] l by (auto simp: list_remove_tail_def)
qed

subsection \<open>Looking and walking\<close>

lemma list_initialize_ok: "l \<noteq> 0 \<Longrightarrow> \<exists>m'. list_initialize l m = Some m' \<and> linked m' l []"
  by (auto simp: list_initialize_def linked_def)

lemma list_peek_head_ok: "linked m l xs \<Longrightarrow> list_peek_head l m = Some (case xs of [] \<Rightarrow> 0 | x # _ \<Rightarrow> x)"
  by (cases xs) (auto simp: list_peek_head_def linked_def)

lemma list_peek_tail_ok: "linked m l xs \<Longrightarrow> list_peek_tail l m = Some (if xs = [] then 0 else last xs)"
  using linked_prev [of m l xs] by (cases xs rule: rev_cases) (auto simp: list_peek_tail_def linked_def)

lemma list_is_empty_ok: "linked m l xs \<Longrightarrow> list_is_empty l m = Some (xs = [])"
  using linked_next [of m l xs] by (cases xs) (auto simp: list_is_empty_def linked_def)

lemma linked_node:
  assumes "linked m l (ys @ e # zs)"
  shows "e \<noteq> 0" "ln_next (m e) = hd (zs @ [l])" "ln_prev (m e) = last (l # ys)"
proof -
  have r: "linked m e (zs @ l # ys)" using assms linked_rotate by simp
  show "e \<noteq> 0" using r by blast
  show "ln_next (m e) = hd (zs @ [l])" using linked_next [OF r] by (cases zs) auto
  show "ln_prev (m e) = last (l # ys)" using linked_prev [OF r] by simp
qed

lemma list_next_ok:
  assumes "linked m l (ys @ e # zs)"
  shows "list_next l e m = Some (case zs of [] \<Rightarrow> 0 | z # _ \<Rightarrow> z)"
  using linked_node [OF assms] assms by (cases zs) (auto simp: list_next_def linked_def)

lemma list_prev_ok:
  assumes "linked m l (ys @ e # zs)"
  shows "list_prev l e m = Some (if ys = [] then 0 else last ys)"
  using linked_node [OF assms] assms by (auto simp: list_prev_def linked_def)

text \<open>The wrapping variants go around the head once, and find nothing in a list of one.\<close>

lemma list_next_wrap_ok:
  assumes l: "linked m l (ys @ e # zs)"
  shows "list_next_wrap l e m = Some (case zs @ ys @ [e] of [] \<Rightarrow> 0 | n # _ \<Rightarrow> n)"
proof (cases zs)
  case Nil
  have "ln_next (m l) = hd (ys @ [e])" using linked_next [OF l] Nil by (cases ys) auto
  moreover have "hd (ys @ [e]) \<noteq> l" using l by (cases ys) (auto simp: linked_def)
  ultimately show ?thesis
    using linked_node [OF l] Nil linked_nonnull [OF l] by (cases ys) (auto simp: list_next_wrap_def)
next
  case (Cons z r)
  then show ?thesis using linked_node [OF l] l by (auto simp: list_next_wrap_def linked_def)
qed

lemma list_prev_wrap_ok:
  assumes l: "linked m l (ys @ e # zs)"
  shows "list_prev_wrap l e m = Some (last (e # zs @ ys))"
proof (cases ys rule: rev_cases)
  case Nil
  have "ln_prev (m l) = last (e # zs)" using linked_prev [OF l] Nil by simp
  moreover have "last (e # zs) \<noteq> l" using l last_in_set [of "e # zs"] by (auto simp: linked_def simp del: last.simps)
  ultimately show ?thesis
    using linked_node [OF l] Nil linked_nonnull [OF l] by (auto simp: list_prev_wrap_def)
next
  case (snoc r z)
  then show ?thesis using linked_node [OF l] l by (auto simp: list_prev_wrap_def linked_def)
qed

lemma list_for_every_from:
  assumes "linked m l (ys @ zs)"
  shows "list_for_every m l (hd (zs @ [l])) = Some zs"
  using assms
proof (induction zs arbitrary: ys)
  case Nil
  then show ?case by (simp add: list_for_every.simps)
next
  case (Cons e zs)
  have n: "e \<noteq> 0" "ln_next (m e) = hd (zs @ [l])" "e \<noteq> l"
    using linked_node [of m l ys e zs] Cons.prems by (auto simp: linked_def)
  have "list_for_every m l (hd (zs @ [l])) = Some zs" using Cons.IH [of "ys @ [e]"] Cons.prems by simp
  then show ?case using n by (simp add: list_for_every.simps [of m l e])
qed

lemma list_for_every_ok: "linked m l xs \<Longrightarrow> list_for_every m l (ln_next (m l)) = Some xs"
  using list_for_every_from [of m l "[]" xs] linked_next by simp

lemma list_for_every_reverse_from:
  assumes "linked m l (ys @ zs)"
  shows "list_for_every_reverse m l (last (l # ys)) = Some (rev ys)"
  using assms
proof (induction ys arbitrary: zs rule: rev_induct)
  case Nil
  then show ?case by (simp add: list_for_every_reverse.simps)
next
  case (snoc e ys)
  have n: "e \<noteq> 0" "ln_prev (m e) = last (l # ys)" "e \<noteq> l"
    using linked_node [of m l ys e zs] snoc.prems by (auto simp: linked_def)
  have "list_for_every_reverse m l (last (l # ys)) = Some (rev ys)"
    using snoc.IH [of "e # zs"] snoc.prems by simp
  then show ?case using n by (simp add: list_for_every_reverse.simps [of m l e])
qed

lemma list_for_every_reverse_ok:
  "linked m l xs \<Longrightarrow> list_for_every_reverse m l (ln_prev (m l)) = Some (rev xs)"
  using list_for_every_reverse_from [of m l xs "[]"] linked_prev [of m l xs] by simp

lemma list_length_loop_from:
  assumes "linked m l (ys @ zs)"
  shows "list_length_loop m l (hd (zs @ [l])) c = Some (c + of_nat (length zs))"
  using assms
proof (induction zs arbitrary: ys c)
  case Nil
  then show ?case by (simp add: list_length_loop.simps)
next
  case (Cons e zs)
  have n: "e \<noteq> 0" "ln_next (m e) = hd (zs @ [l])" "e \<noteq> l"
    using linked_node [of m l ys e zs] Cons.prems by (auto simp: linked_def)
  have "list_length_loop m l (hd (zs @ [l])) (c + 1) = Some (c + 1 + of_nat (length zs))"
    using Cons.IH [of "ys @ [e]"] Cons.prems by simp
  then show ?case using n by (simp add: list_length_loop.simps [of m l e] algebra_simps)
qed

lemma list_length_ok: "linked m l xs \<Longrightarrow> list_length l m = Some (of_nat (length xs))"
  using list_length_loop_from [of m l "[]" xs 0] linked_next [of m l xs]
  by (auto simp: list_length_def)

section \<open>Sequences of operations\<close>

datatype list_op = AddHead naddr | AddTail naddr | AddAfter naddr naddr | AddBefore naddr naddr
  | Delete naddr | RemoveHead | RemoveTail | PeekHead | PeekTail

text \<open>What the operations do to the list of elements; the result is \<open>0\<close> where the code has none.\<close>

fun list_spec :: "list_op \<Rightarrow> naddr list \<Rightarrow> naddr \<times> naddr list" where
  "list_spec (AddHead x) xs = (0, x # xs)"
| "list_spec (AddTail x) xs = (0, xs @ [x])"
| "list_spec (AddAfter e x) xs = (0, takeWhile (\<lambda>y. y \<noteq> e) xs @ e # x # tl (dropWhile (\<lambda>y. y \<noteq> e) xs))"
| "list_spec (AddBefore e x) xs = (0, takeWhile (\<lambda>y. y \<noteq> e) xs @ x # dropWhile (\<lambda>y. y \<noteq> e) xs)"
| "list_spec (Delete x) xs = (0, remove1 x xs)"
| "list_spec RemoveHead xs = (if xs = [] then (0, []) else (hd xs, tl xs))"
| "list_spec RemoveTail xs = (if xs = [] then (0, []) else (last xs, butlast xs))"
| "list_spec PeekHead xs = (if xs = [] then 0 else hd xs, xs)"
| "list_spec PeekTail xs = (if xs = [] then 0 else last xs, xs)"

text \<open>New nodes are not in the list, the nodes an operation names are.\<close>

fun list_pre :: "naddr \<Rightarrow> list_op \<Rightarrow> naddr list \<Rightarrow> bool" where
  "list_pre l (AddHead x) xs \<longleftrightarrow> x \<noteq> 0 \<and> x \<notin> set (l # xs)"
| "list_pre l (AddTail x) xs \<longleftrightarrow> x \<noteq> 0 \<and> x \<notin> set (l # xs)"
| "list_pre l (AddAfter e x) xs \<longleftrightarrow> x \<noteq> 0 \<and> x \<notin> set (l # xs) \<and> e \<in> set xs"
| "list_pre l (AddBefore e x) xs \<longleftrightarrow> x \<noteq> 0 \<and> x \<notin> set (l # xs) \<and> e \<in> set xs"
| "list_pre l (Delete x) xs \<longleftrightarrow> x \<in> set xs"
| "list_pre l _ xs \<longleftrightarrow> True"

fun list_step :: "naddr \<Rightarrow> list_op \<Rightarrow> lmem \<Rightarrow> (naddr \<times> lmem) option" where
  "list_step l (AddHead x) m = map_option (Pair 0) (list_add_head l x m)"
| "list_step l (AddTail x) m = map_option (Pair 0) (list_add_tail l x m)"
| "list_step l (AddAfter e x) m = map_option (Pair 0) (list_add_after e x m)"
| "list_step l (AddBefore e x) m = map_option (Pair 0) (list_add_before e x m)"
| "list_step l (Delete x) m = map_option (Pair 0) (list_delete x m)"
| "list_step l RemoveHead m = list_remove_head l m"
| "list_step l RemoveTail m = list_remove_tail l m"
| "list_step l PeekHead m = map_option (\<lambda>r. (r, m)) (list_peek_head l m)"
| "list_step l PeekTail m = map_option (\<lambda>r. (r, m)) (list_peek_tail l m)"

lemma split_at:
  assumes "e \<in> set xs"
  obtains ys zs where "xs = ys @ e # zs" "takeWhile (\<lambda>y. y \<noteq> e) xs = ys" "dropWhile (\<lambda>y. y \<noteq> e) xs = e # zs"
proof -
  obtain ys zs where "xs = ys @ e # zs" "e \<notin> set ys" using assms by (auto dest: split_list_first)
  moreover from this(2) have "takeWhile (\<lambda>y. y \<noteq> e) (ys @ e # zs) = ys \<and> dropWhile (\<lambda>y. y \<noteq> e) (ys @ e # zs) = e # zs"
    by (induction ys) auto
  ultimately show ?thesis by (intro that [of ys zs]) auto
qed

lemma list_step_sim:
  assumes l: "linked m l xs" and p: "list_pre l p xs"
  shows "\<exists>m'. list_step l p m = Some (fst (list_spec p xs), m') \<and> linked m' l (snd (list_spec p xs))"
proof (cases p)
  case (AddHead x)
  then show ?thesis using list_add_head_ok [OF l, of x] p by auto
next
  case (AddTail x)
  then show ?thesis using list_add_tail_ok [OF l, of x] p by auto
next
  case (AddAfter e x)
  then have e: "e \<in> set xs" "x \<noteq> 0" "x \<notin> set (l # xs)" using p by auto
  obtain ys zs where "xs = ys @ e # zs" "takeWhile (\<lambda>y. y \<noteq> e) xs = ys" "dropWhile (\<lambda>y. y \<noteq> e) xs = e # zs"
    by (rule split_at [OF e(1)])
  then show ?thesis using list_add_after_ok [of m l ys e zs x] l e AddAfter by auto
next
  case (AddBefore e x)
  then have e: "e \<in> set xs" "x \<noteq> 0" "x \<notin> set (l # xs)" using p by auto
  obtain ys zs where "xs = ys @ e # zs" "takeWhile (\<lambda>y. y \<noteq> e) xs = ys" "dropWhile (\<lambda>y. y \<noteq> e) xs = e # zs"
    by (rule split_at [OF e(1)])
  then show ?thesis using list_add_before_ok [of m l ys e zs x] l e AddBefore by auto
next
  case (Delete x)
  then obtain ys zs where xs: "xs = ys @ x # zs" using p by (auto dest: split_list)
  have "remove1 x xs = ys @ zs" using l xs by (auto simp: linked_def remove1_append)
  then show ?thesis using list_delete_ok [of m l ys x zs] l xs Delete by auto
next
  case RemoveHead
  show ?thesis
  proof (cases xs)
    case Nil
    then show ?thesis using RemoveHead l list_remove_head_ok(1) [of m l] by auto
  next
    case (Cons x r)
    then show ?thesis using RemoveHead l list_remove_head_ok(2) [of m l x r] by auto
  qed
next
  case RemoveTail
  show ?thesis
  proof (cases xs rule: rev_cases)
    case Nil
    then show ?thesis using RemoveTail l list_remove_tail_ok(1) [of m l] by auto
  next
    case (snoc r x)
    then show ?thesis using RemoveTail l list_remove_tail_ok(2) [of m l r x] by auto
  qed
next
  case PeekHead
  then show ?thesis using list_peek_head_ok [OF l] l by (cases xs) auto
next
  case PeekTail
  then show ?thesis using list_peek_tail_ok [OF l] l by auto
qed

interpretation dll: data_refinement "\<lambda>m xs. linked m l xs" "list_pre l" list_spec "list_step l" for l
  by unfold_locales (rule list_step_sim)

section \<open>Properties\<close>

text \<open>
  C24 The pointer operations of \<^verbatim>\<open>include/list.h\<close> implement a list. After
  \<^verbatim>\<open>list_initialize\<close>, for every sequence of insertions at the head, at the tail and
  next to an element, of deletions, removals and peeks in which a new node is not
  already linked and a named one is: no null pointer is followed, every operation returns what
  it returns on the list of elements, and at the end walking the nodes forwards and backwards
  visits exactly that list and its reverse, and \<^verbatim>\<open>list_length\<close> is its length (modulo the
  width of \<^verbatim>\<open>size_t\<close>).
\<close>

theorem list_refines:
  assumes "l \<noteq> 0" and "run_pre (list_pre l) list_spec ps []"
  shows "\<exists>m0 m'. list_initialize l m = Some m0
      \<and> run_ops (list_step l) ps m0 = Some (fst (run_spec list_spec ps []), m')
      \<and> list_for_every m' l (ln_next (m' l)) = Some (snd (run_spec list_spec ps []))
      \<and> list_for_every_reverse m' l (ln_prev (m' l)) = Some (rev (snd (run_spec list_spec ps [])))
      \<and> list_length l m' = Some (of_nat (length (snd (run_spec list_spec ps []))))"
proof -
  obtain m0 where m0: "list_initialize l m = Some m0" "linked m0 l []"
    using list_initialize_ok [OF assms(1)] by blast
  from dll.simulates [OF m0(2) assms(2)] obtain m' where
    "run_ops (list_step l) ps m0 = Some (fst (run_spec list_spec ps []), m')"
    "linked m' l (snd (run_spec list_spec ps []))" by blast
  then show ?thesis
    using m0 list_for_every_ok list_for_every_reverse_ok list_length_ok by blast
qed

theorem list_refines_witness:
  "\<exists>m0 m'. list_initialize 8 (\<lambda>_. \<lparr>ln_prev = 0, ln_next = 0\<rparr>) = Some m0
      \<and> run_ops (list_step 8) [AddTail 16, AddHead 24, AddAfter 24 32, AddBefore 16 40, Delete 24, RemoveTail] m0
          = Some ([0, 0, 0, 0, 0, 16], m')
      \<and> list_for_every m' 8 (ln_next (m' 8)) = Some [32, 40]
      \<and> list_length 8 m' = Some 2"
  using list_refines [of 8 "[AddTail 16, AddHead 24, AddAfter 24 32, AddBefore 16 40, Delete 24, RemoveTail]"
      "\<lambda>_. \<lparr>ln_prev = 0, ln_next = 0\<rparr>"]
  by auto

text \<open>
  Deleting a node twice is a null pointer access. \<^verbatim>\<open>list_delete\<close> unlinks an element
  and leaves its two pointers null, so that \<^verbatim>\<open>list_in_list\<close> is false for it, and a
  second \<^verbatim>\<open>list_delete\<close> of the same node follows a null pointer; a node that is not an
  element of the list keeps its pointers.
\<close>

lemma list_delete_twice:
  assumes "linked m l (ys @ x # zs)"
  shows "\<exists>m'. list_delete x m = Some m' \<and> linked m' l (ys @ zs)
      \<and> list_in_list x m = Some True \<and> list_in_list x m' = Some False \<and> list_delete x m' = None
      \<and> (\<forall>a. a \<noteq> l \<and> a \<notin> set (ys @ x # zs) \<longrightarrow> m' a = m a)"
proof -
  have "list_in_list x m = Some True"
    using linked_node [OF assms] assms by (cases zs) (auto simp: list_in_list_def linked_def)
  then show ?thesis using list_delete_ok [OF assms] list_delete_unlinked by fastforce
qed

end
