(* ===== verification/Lib_Align.thy ===== *)
theory Lib_Align
  imports LK_Prelude
begin

text \<open>
  The rounding macros of \<^verbatim>\<open>lib/libc/include/stdlib.h\<close> on 64-bit unsigned values, as the
  memory allocators use them, and what they compute when the second argument is a power of two.
\<close>

definition ROUNDUP :: "u64 \<Rightarrow> u64 \<Rightarrow> u64" where
  "ROUNDUP a b = (a + (b - 1)) AND NOT (b - 1)"

definition ROUNDDOWN :: "u64 \<Rightarrow> u64 \<Rightarrow> u64" where
  "ROUNDDOWN a b = a AND NOT (b - 1)"

definition ALIGN :: "u64 \<Rightarrow> u64 \<Rightarrow> u64" where
  "ALIGN a b = ROUNDUP a b"

definition IS_ALIGNED :: "u64 \<Rightarrow> u64 \<Rightarrow> bool" where
  "IS_ALIGNED a b \<longleftrightarrow> \<not> (a AND (b - 1) \<noteq> 0)"

text \<open>\<open>1UL << n\<close>, for the shifts the language defines.\<close>

definition shl1 :: "nat \<Rightarrow> u64" where
  "shl1 n = push_bit n 1"

lemma shl1_minus_1: "shl1 n - 1 = mask n"
  by (simp add: shl1_def mask_eq_exp_minus_1)

lemma unat_shl1: "n < 64 \<Longrightarrow> unat (shl1 n) = 2 ^ n"
  unfolding shl1_def unsigned_push_bit_eq by (simp add: push_bit_nat_def take_bit_nat_eq_self)

lemma unat_less64: "unat w < 2 ^ 64" for w :: u64
  using unsigned_less [of w, where ?'a = nat] by simp

lemma and_not_mask_unat: "unat (w AND NOT (mask n)) = unat w div 2 ^ n * 2 ^ n" for w :: u64
proof -
  have "w AND NOT (mask n) = push_bit n (drop_bit n w)"
    by (rule bit_word_eqI) (auto simp: bit_simps)
  moreover have "unat w div 2 ^ n * 2 ^ n < 2 ^ 64"
    using unat_less64 [of w] div_times_less_eq_dividend [of "unat w" "2 ^ n"] by (simp del: div_times_less_eq_dividend)
  ultimately show ?thesis
    by (simp add: unsigned_push_bit_eq unat_drop_bit_eq push_bit_nat_def drop_bit_nat_def take_bit_nat_eq_self)
qed

lemma unat_ROUNDDOWN: "unat (ROUNDDOWN a (shl1 n)) = unat a div 2 ^ n * 2 ^ n"
  by (simp add: ROUNDDOWN_def shl1_minus_1 and_not_mask_unat)

lemma IS_ALIGNED_iff: "IS_ALIGNED a (shl1 n) \<longleftrightarrow> 2 ^ n dvd unat a"
proof -
  have "a AND mask n = take_bit n a" by (simp add: take_bit_eq_mask)
  moreover have "take_bit n a = 0 \<longleftrightarrow> take_bit n (unat a) = 0"
    by (metis unat_eq_zero unsigned_take_bit_eq)
  ultimately show ?thesis
    by (simp add: IS_ALIGNED_def shl1_minus_1 take_bit_eq_0_iff)
qed

lemma unat_mask: "n < 64 \<Longrightarrow> unat (mask n :: u64) = 2 ^ n - 1"
  using unat_shl1 [of n] by (simp add: shl1_minus_1 [symmetric] unat_sub_if')

text \<open>\<open>round_up x A\<close> is the least multiple of \<open>A\<close> that is not below \<open>x\<close>.\<close>

definition round_up :: "nat \<Rightarrow> nat \<Rightarrow> nat" where
  "round_up x A = (x + (A - 1)) div A * A"

lemma round_up_ge: "0 < A \<Longrightarrow> x \<le> round_up x A"
  using div_mult_mod_eq [of "x + (A - 1)" A] mod_less_divisor [of A "x + (A - 1)"]
  unfolding round_up_def by linarith

lemma round_up_le: "round_up x A \<le> x + (A - 1)"
  unfolding round_up_def by simp

lemma round_up_dvd: "A dvd round_up x A"
  by (simp add: round_up_def)

lemma round_up_least:
  assumes "0 < A" "A dvd y" "x \<le> y"
  shows "round_up x A \<le> y"
proof -
  obtain k where k: "y = A * k" using assms(2) by blast
  have "x + (A - 1) < A * k + A" using k assms by linarith
  then have "(x + (A - 1)) div A < k + 1" using assms(1) by (simp add: div_less_iff_less_mult algebra_simps)
  then have "(x + (A - 1)) div A \<le> k" by simp
  then have "(x + (A - 1)) div A * A \<le> k * A" by (rule mult_le_mono1)
  then show ?thesis using k by (simp only: round_up_def mult.commute)
qed

lemma unat_ROUNDUP:
  assumes "n < 64" "unat a + (2 ^ n - 1) < 2 ^ 64"
  shows "unat (ROUNDUP a (shl1 n)) = round_up (unat a) (2 ^ n)"
proof -
  have "unat (mask n :: u64) = 2 ^ n - 1" using assms(1) by (rule unat_mask)
  then have "unat (a + mask n) = unat a + (2 ^ n - 1)" using assms(2) by (simp add: unat_word_ariths)
  then show ?thesis by (simp add: ROUNDUP_def shl1_minus_1 and_not_mask_unat round_up_def)
qed

text \<open>When the sum wraps around, the result is below the argument.\<close>

lemma ROUNDUP_wraps:
  assumes "n < 64" "2 ^ 64 \<le> unat a + (2 ^ n - 1)"
  shows "ROUNDUP a (shl1 n) < a"
proof -
  have m: "unat (mask n :: u64) = 2 ^ n - 1" using assms(1) by (rule unat_mask)
  have "(2::nat) ^ n \<le> 2 ^ 64" by (rule power_increasing) (use assms(1) in auto)
  then have le: "(2::nat) ^ n - 1 < 2 ^ 64" by simp
  define u where "u = unat a"
  define k where "k = (2::nat) ^ n - 1"
  have "unat (a + mask n) = (u + k) mod 2 ^ 64" using m by (simp add: unat_word_ariths u_def k_def)
  also have "\<dots> = u + k - 2 ^ 64"
    using assms(2) le unat_less64 [of a] unfolding u_def [symmetric] k_def [symmetric] by (simp add: mod_if)
  finally have "unat (a + mask n) < unat a"
    using le unat_less64 [of a] assms(2) unfolding u_def [symmetric] k_def [symmetric] by simp
  then have "a + mask n < a" by (simp add: word_less_nat_alt)
  moreover have "ROUNDUP a (shl1 n) \<le> a + mask n"
    by (simp add: ROUNDUP_def shl1_minus_1 word_and_le2)
  ultimately show ?thesis by simp
qed

end
