(* ===== verification/Kernel_Pmm.thy ===== *)
theory Kernel_Pmm
  imports Lib_Align
begin

text \<open>
  The physical memory manager \<^verbatim>\<open>kernel/vm/pmm.c\<close> and the boot allocator
  \<^verbatim>\<open>kernel/vm/bootalloc.c\<close> behind it, on a 64-bit machine with pages of 4 KB. A page
  descriptor is its address; the state maps the addresses to the descriptors. The mutex of the
  file makes every operation atomic. An access to an element beyond the end of a page array
  is \<open>None\<close>, like a failed assertion.
\<close>

section \<open>Data\<close>

type_synonym paddr_t = u64
type_synonym page_ptr = u64

definition PAGE_SIZE_SHIFT :: nat where "PAGE_SIZE_SHIFT = 12"

definition PAGE_SIZE :: u64 where "PAGE_SIZE = shl1 PAGE_SIZE_SHIFT"

text \<open>Two list pointers of 8 bytes and 32 bits of flags, padded to a multiple of 8.\<close>

definition sizeof_vm_page :: u64 where "sizeof_vm_page = 24"

record vm_page =
  pg_flags :: u8
  pg_ref :: u32

definition VM_PAGE_FLAG_NONFREE :: u8 where [lk_defs]: "VM_PAGE_FLAG_NONFREE = 1"

record pmm_arena =
  ar_name :: string
  ar_flags :: u32
  ar_priority :: u32
  ar_base :: paddr_t
  ar_size :: u64
  ar_free_count :: u64
  ar_page_array :: page_ptr
  ar_free_list :: "page_ptr list"

definition PMM_ARENA_FLAG_KMAP :: u32 where [lk_defs]: "PMM_ARENA_FLAG_KMAP = 1"

record pmm_state =
  arena_list :: "pmm_arena list"
  pages :: "page_ptr \<Rightarrow> vm_page"
  boot_alloc_end :: u64

section \<open>Boot allocator\<close>

definition boot_alloc_mem :: "u64 \<Rightarrow> pmm_state \<Rightarrow> u64 \<times> pmm_state" where
  "boot_alloc_mem len s =
     (let ptr = ALIGN (boot_alloc_end s) 8
      in (ptr, s\<lparr>boot_alloc_end := ptr + ALIGN len 8\<rparr>))"

section \<open>Pages and addresses\<close>

definition PAGE_BELONGS_TO_ARENA :: "page_ptr \<Rightarrow> pmm_arena \<Rightarrow> bool" where
  "PAGE_BELONGS_TO_ARENA page a \<longleftrightarrow>
     page \<ge> ar_page_array a \<and> page < ar_page_array a + ar_size a div PAGE_SIZE * sizeof_vm_page"

definition PAGE_ADDRESS_FROM_ARENA :: "page_ptr \<Rightarrow> pmm_arena \<Rightarrow> paddr_t" where
  "PAGE_ADDRESS_FROM_ARENA page a =
     (page - ar_page_array a) div sizeof_vm_page * PAGE_SIZE + ar_base a"

definition ADDRESS_IN_ARENA :: "paddr_t \<Rightarrow> pmm_arena \<Rightarrow> bool" where
  "ADDRESS_IN_ARENA address a \<longleftrightarrow> address \<ge> ar_base a \<and> address \<le> ar_base a + ar_size a - 1"

text \<open>\<open>&a->page_array[index]\<close>\<close>

definition page_at :: "pmm_arena \<Rightarrow> u64 \<Rightarrow> page_ptr" where
  "page_at a index = ar_page_array a + index * sizeof_vm_page"

definition page_is_free :: "vm_page \<Rightarrow> bool" where
  "page_is_free page \<longleftrightarrow> \<not> (pg_flags page AND VM_PAGE_FLAG_NONFREE \<noteq> 0)"

definition vm_page_to_paddr :: "page_ptr \<Rightarrow> pmm_state \<Rightarrow> paddr_t" where
  "vm_page_to_paddr page s =
     (case find (PAGE_BELONGS_TO_ARENA page) (arena_list s) of
        Some a \<Rightarrow> PAGE_ADDRESS_FROM_ARENA page a
      | None \<Rightarrow> - 1)"

definition paddr_to_vm_page :: "paddr_t \<Rightarrow> pmm_state \<Rightarrow> page_ptr option" where
  "paddr_to_vm_page addr s =
     (case find (\<lambda>a. addr \<ge> ar_base a \<and> addr \<le> ar_base a + ar_size a - 1) (arena_list s) of
        Some a \<Rightarrow> Some (page_at a ((addr - ar_base a) div PAGE_SIZE))
      | None \<Rightarrow> None)"

text \<open>Setting and clearing the flag that marks a page allocated.\<close>

definition set_nonfree :: "page_ptr \<Rightarrow> (page_ptr \<Rightarrow> vm_page) \<Rightarrow> (page_ptr \<Rightarrow> vm_page)" where
  "set_nonfree p pg = pg(p := (pg p)\<lparr>pg_flags := pg_flags (pg p) OR VM_PAGE_FLAG_NONFREE\<rparr>)"

definition clear_nonfree :: "page_ptr \<Rightarrow> (page_ptr \<Rightarrow> vm_page) \<Rightarrow> (page_ptr \<Rightarrow> vm_page)" where
  "clear_nonfree p pg = pg(p := (pg p)\<lparr>pg_flags := pg_flags (pg p) AND NOT VM_PAGE_FLAG_NONFREE\<rparr>)"

section \<open>Adding an arena\<close>

text \<open>The walk that finds the place of the arena by its priority.\<close>

primrec insert_arena :: "pmm_arena \<Rightarrow> pmm_arena list \<Rightarrow> pmm_arena list" where
  "insert_arena arena [] = [arena]"
| "insert_arena arena (a # as) =
     (if ar_priority a > ar_priority arena then arena # a # as else a # insert_arena arena as)"

definition page_init :: "page_ptr list \<Rightarrow> (page_ptr \<Rightarrow> vm_page) \<Rightarrow> (page_ptr \<Rightarrow> vm_page)" where
  "page_init ps pg = (\<lambda>p. if p \<in> set ps then \<lparr>pg_flags = 0, pg_ref = 0\<rparr> else pg p)"

definition pmm_add_arena :: "pmm_arena \<Rightarrow> pmm_state \<Rightarrow> (status_t \<times> pmm_state) option" where
  "pmm_add_arena arena s = do {
     ASSERT (IS_ALIGNED (ar_base arena) PAGE_SIZE);
     ASSERT (IS_ALIGNED (ar_size arena) PAGE_SIZE);
     ASSERT (ar_size arena > 0);
     let page_count = ar_size arena div PAGE_SIZE;
     let (array, s) = boot_alloc_mem (page_count * sizeof_vm_page) s;
     let arena = arena\<lparr>ar_page_array := array\<rparr>;
     let ps = map (\<lambda>i. page_at arena (of_nat i)) [0..<unat page_count];
     let arena = arena\<lparr>ar_free_count := of_nat (length ps), ar_free_list := ps\<rparr>;
     Some (NO_ERROR, s\<lparr>arena_list := insert_arena arena (arena_list s), pages := page_init ps (pages s)\<rparr>)
   }"

section \<open>Allocation\<close>

text \<open>
  \<^verbatim>\<open>pmm_alloc_pages\<close>: the inner loop takes pages off the free list of one arena. Its
  first result says that the list ran out, where the code jumps to the end of the function.
\<close>

fun alloc_from_arena ::
  "u32 \<Rightarrow> u32 \<Rightarrow> pmm_arena \<Rightarrow> page_ptr list \<Rightarrow> u64 \<Rightarrow> (page_ptr \<Rightarrow> vm_page) \<Rightarrow> page_ptr list \<Rightarrow>
   bool \<times> u32 \<times> pmm_arena \<times> (page_ptr \<Rightarrow> vm_page) \<times> page_ptr list" where
  "alloc_from_arena count allocated a [] fc pg lst =
     (allocated < count, allocated, a\<lparr>ar_free_list := [], ar_free_count := fc\<rparr>, pg, lst)"
| "alloc_from_arena count allocated a (p # fl) fc pg lst =
     (if allocated < count
      then alloc_from_arena count (allocated + 1) a fl (fc - 1) (set_nonfree p pg) (lst @ [p])
      else (False, allocated, a\<lparr>ar_free_list := p # fl, ar_free_count := fc\<rparr>, pg, lst))"

fun alloc_pages_walk ::
  "u32 \<Rightarrow> u32 \<Rightarrow> pmm_arena list \<Rightarrow> (page_ptr \<Rightarrow> vm_page) \<Rightarrow> page_ptr list \<Rightarrow>
   u32 \<times> pmm_arena list \<times> (page_ptr \<Rightarrow> vm_page) \<times> page_ptr list" where
  "alloc_pages_walk count allocated [] pg lst = (allocated, [], pg, lst)"
| "alloc_pages_walk count allocated (a # as) pg lst =
     (let (done, allocated, a, pg, lst) =
            alloc_from_arena count allocated a (ar_free_list a) (ar_free_count a) pg lst
      in if done then (allocated, a # as, pg, lst)
         else let (allocated, as, pg, lst) = alloc_pages_walk count allocated as pg lst
              in (allocated, a # as, pg, lst))"

definition pmm_alloc_pages :: "u32 \<Rightarrow> page_ptr list \<Rightarrow> pmm_state \<Rightarrow> u64 \<times> page_ptr list \<times> pmm_state" where
  "pmm_alloc_pages count lst s =
     (if count = 0 then (0, lst, s)
      else let (allocated, as, pg, lst) = alloc_pages_walk count 0 (arena_list s) (pages s) lst
           in (ucast allocated, lst, s\<lparr>arena_list := as, pages := pg\<rparr>))"

text \<open>
  Unlinking a page from the free list of its arena. A page that is not marked allocated is in
  that list; \<^verbatim>\<open>DEBUG_ASSERT(list_in_list(&page->node))\<close> is the check that it is in a list.
\<close>

definition take_page :: "page_ptr \<Rightarrow> pmm_arena \<Rightarrow> (page_ptr \<Rightarrow> vm_page) \<Rightarrow>
    (pmm_arena \<times> (page_ptr \<Rightarrow> vm_page)) option" where
  "take_page p a pg = do {
     ASSERT (p \<in> set (ar_free_list a));
     Some (a\<lparr>ar_free_list := remove1 p (ar_free_list a), ar_free_count := ar_free_count a - 1\<rparr>,
           set_nonfree p pg)
   }"

lemma count_down: "i < n \<Longrightarrow> unat (n - (i + 1)) < unat (n - i)" for i n :: u32
  by unat_arith

text \<open>\<^verbatim>\<open>pmm_alloc_range\<close>: the inner loop takes the pages of consecutive addresses.\<close>

function alloc_range_loop ::
  "u32 \<Rightarrow> u32 \<Rightarrow> paddr_t \<Rightarrow> pmm_arena \<Rightarrow> (page_ptr \<Rightarrow> vm_page) \<Rightarrow> page_ptr list \<Rightarrow>
   (u32 \<times> paddr_t \<times> pmm_arena \<times> (page_ptr \<Rightarrow> vm_page) \<times> page_ptr list) option" where
  "alloc_range_loop count allocated address a pg lst =
     (if allocated < count \<and> ADDRESS_IN_ARENA address a then do {
        let index = (address - ar_base a) div PAGE_SIZE;
        ASSERT (index < ar_size a div PAGE_SIZE);
        let p = page_at a index;
        if pg_flags (pg p) AND VM_PAGE_FLAG_NONFREE \<noteq> 0 then Some (allocated, address, a, pg, lst)
        else do {
          (a, pg) \<leftarrow> take_page p a pg;
          alloc_range_loop count (allocated + 1) (address + PAGE_SIZE) a pg (lst @ [p])
        }
      } else Some (allocated, address, a, pg, lst))"
  by pat_completeness auto
termination
  by (relation "measure (\<lambda>(count, allocated, _). unat (count - allocated))") (auto simp: count_down)

fun alloc_range_walk ::
  "u32 \<Rightarrow> u32 \<Rightarrow> paddr_t \<Rightarrow> pmm_arena list \<Rightarrow> (page_ptr \<Rightarrow> vm_page) \<Rightarrow> page_ptr list \<Rightarrow>
   (u32 \<times> pmm_arena list \<times> (page_ptr \<Rightarrow> vm_page) \<times> page_ptr list) option" where
  "alloc_range_walk count allocated address [] pg lst = Some (allocated, [], pg, lst)"
| "alloc_range_walk count allocated address (a # as) pg lst = do {
     (allocated, address, a, pg, lst) \<leftarrow> alloc_range_loop count allocated address a pg lst;
     if allocated = count then Some (allocated, a # as, pg, lst)
     else do {
       (allocated, as, pg, lst) \<leftarrow> alloc_range_walk count allocated address as pg lst;
       Some (allocated, a # as, pg, lst)
     }
   }"

definition pmm_alloc_range ::
  "paddr_t \<Rightarrow> u32 \<Rightarrow> page_ptr list \<Rightarrow> pmm_state \<Rightarrow> (u64 \<times> page_ptr list \<times> pmm_state) option" where
  "pmm_alloc_range address count lst s =
     (if count = 0 then Some (0, lst, s)
      else do {
        let address = ROUNDDOWN address PAGE_SIZE;
        (allocated, as, pg, lst) \<leftarrow> alloc_range_walk count 0 address (arena_list s) (pages s) lst;
        Some (ucast allocated, lst, s\<lparr>arena_list := as, pages := pg\<rparr>)
      })"

section \<open>Freeing\<close>

text \<open>A page goes to the head of the free list of the first arena it belongs to.\<close>

fun free_to_arena :: "page_ptr \<Rightarrow> pmm_arena list \<Rightarrow> (page_ptr \<Rightarrow> vm_page) \<Rightarrow>
    bool \<times> pmm_arena list \<times> (page_ptr \<Rightarrow> vm_page)" where
  "free_to_arena p [] pg = (False, [], pg)"
| "free_to_arena p (a # as) pg =
     (if PAGE_BELONGS_TO_ARENA p a
      then (True, a\<lparr>ar_free_list := p # ar_free_list a, ar_free_count := ar_free_count a + 1\<rparr> # as,
            clear_nonfree p pg)
      else let (found, as, pg) = free_to_arena p as pg in (found, a # as, pg))"

primrec pmm_free_loop :: "page_ptr list \<Rightarrow> u32 \<Rightarrow> pmm_state \<Rightarrow> (u32 \<times> pmm_state) option" where
  "pmm_free_loop [] count s = Some (count, s)"
| "pmm_free_loop (p # lst) count s = do {
     ASSERT (pg_flags (pages s p) AND VM_PAGE_FLAG_NONFREE \<noteq> 0);
     let (found, as, pg) = free_to_arena p (arena_list s) (pages s);
     pmm_free_loop lst (if found then count + 1 else count) (s\<lparr>arena_list := as, pages := pg\<rparr>)
   }"

definition pmm_free :: "page_ptr list \<Rightarrow> pmm_state \<Rightarrow> (u64 \<times> pmm_state) option" where
  "pmm_free lst s = do {
     (count, s) \<leftarrow> pmm_free_loop lst 0 s;
     Some (ucast count, s)
   }"

definition pmm_free_page :: "page_ptr \<Rightarrow> pmm_state \<Rightarrow> (u64 \<times> pmm_state) option" where
  "pmm_free_page page s = pmm_free [page] s"

section \<open>Contiguous runs\<close>

text \<open>
  The inner loop of \<^verbatim>\<open>pmm_alloc_contiguous\<close>: the number of the first page of the run
  that is not free, if there is one. \<open>n\<close> pages are left to look at.
\<close>

primrec scan_run :: "nat \<Rightarrow> u32 \<Rightarrow> u32 \<Rightarrow> pmm_arena \<Rightarrow> (page_ptr \<Rightarrow> vm_page) \<Rightarrow> u32 option option" where
  "scan_run 0 start i a pg = Some None"
| "scan_run (Suc n) start i a pg = do {
     let index = ucast start + ucast i;
     ASSERT (index < ar_size a div PAGE_SIZE);
     if pg_flags (pg (page_at a index)) AND VM_PAGE_FLAG_NONFREE \<noteq> 0 then Some (Some i)
     else scan_run n start (i + 1) a pg
   }"

text \<open>The next candidate: the alignment boundary after the page that broke the run.\<close>

definition next_start :: "u32 \<Rightarrow> u32 \<Rightarrow> u32 \<Rightarrow> nat \<Rightarrow> u32" where
  "next_start start i aligned_offset alignment_log2 =
     ucast (ROUNDUP (ucast (start - aligned_offset + i + 1)) (shl1 (alignment_log2 - PAGE_SIZE_SHIFT))
            + ucast aligned_offset)"

text \<open>The search in one arena: the start of a free run, or \<open>None\<close> when there is none.\<close>

partial_function (option) search_run ::
  "u32 \<Rightarrow> nat \<Rightarrow> u32 \<Rightarrow> u32 \<Rightarrow> pmm_arena \<Rightarrow> (page_ptr \<Rightarrow> vm_page) \<Rightarrow> u32 option option" where
  "search_run count alignment_log2 aligned_offset start a pg =
     (if ucast start < ar_size a div PAGE_SIZE \<and> ucast (start + count) \<le> ar_size a div PAGE_SIZE then do {
        broken \<leftarrow> scan_run (unat count) start 0 a pg;
        (case broken of
           Some i \<Rightarrow> search_run count alignment_log2 aligned_offset
                       (next_start start i aligned_offset alignment_log2) a pg
         | None \<Rightarrow> Some (Some start))
      } else Some None)"

text \<open>Taking the pages of the run out of the free list.\<close>

primrec take_run :: "page_ptr list \<Rightarrow> pmm_arena \<Rightarrow> (page_ptr \<Rightarrow> vm_page) \<Rightarrow> page_ptr list option \<Rightarrow>
    (pmm_arena \<times> (page_ptr \<Rightarrow> vm_page) \<times> page_ptr list option) option" where
  "take_run [] a pg lst = Some (a, pg, lst)"
| "take_run (p # ps) a pg lst = do {
     ASSERT (\<not> (pg_flags (pg p) AND VM_PAGE_FLAG_NONFREE \<noteq> 0));
     (a, pg) \<leftarrow> take_page p a pg;
     take_run ps a pg (map_option (\<lambda>l. l @ [p]) lst)
   }"

definition run_pages :: "u32 \<Rightarrow> u32 \<Rightarrow> pmm_arena \<Rightarrow> page_ptr list" where
  "run_pages start count a = map (\<lambda>i. page_at a (of_nat i)) [unat start..<unat (start + count)]"

fun alloc_contiguous_walk ::
  "u32 \<Rightarrow> nat \<Rightarrow> pmm_arena list \<Rightarrow> (page_ptr \<Rightarrow> vm_page) \<Rightarrow> page_ptr list option \<Rightarrow>
   (paddr_t option \<times> pmm_arena list \<times> (page_ptr \<Rightarrow> vm_page) \<times> page_ptr list option) option" where
  "alloc_contiguous_walk count alignment_log2 [] pg lst = Some (None, [], pg, lst)"
| "alloc_contiguous_walk count alignment_log2 (a # as) pg lst = do {
     let rounded_base = ROUNDUP (ar_base a) (shl1 alignment_log2);
     let aligned_offset = ucast ((rounded_base - ar_base a) div PAGE_SIZE);
     found \<leftarrow> (if ar_flags a AND PMM_ARENA_FLAG_KMAP = 0 then Some None
               else if rounded_base < ar_base a \<or> rounded_base > ar_base a + ar_size a - 1 then Some None
               else search_run count alignment_log2 aligned_offset aligned_offset a pg);
     (case found of
        Some start \<Rightarrow> do {
          (a, pg, lst) \<leftarrow> take_run (run_pages start count a) a pg lst;
          Some (Some (ar_base a + ucast start * PAGE_SIZE), a # as, pg, lst)
        }
      | None \<Rightarrow> do {
          (pa, as, pg, lst) \<leftarrow> alloc_contiguous_walk count alignment_log2 as pg lst;
          Some (pa, a # as, pg, lst)
        })
   }"

text \<open>
  \<open>pa\<close> is the value stored through the pointer argument, if it is not null, and \<open>lst\<close>
  is \<open>None\<close> when no list was given. A shift by the width of the type or more is
  undefined, and \<open>None\<close> here.
\<close>

definition pmm_alloc_contiguous ::
  "u32 \<Rightarrow> u8 \<Rightarrow> page_ptr list option \<Rightarrow> pmm_state \<Rightarrow>
   (u64 \<times> paddr_t option \<times> page_ptr list option \<times> pmm_state) option" where
  "pmm_alloc_contiguous count alignment_log2 lst s =
     (if count = 0 then Some (0, None, lst, s)
      else do {
        let alignment = (if unat alignment_log2 < PAGE_SIZE_SHIFT then PAGE_SIZE_SHIFT else unat alignment_log2);
        ASSERT (alignment < 64);
        (pa, as, pg, lst) \<leftarrow> alloc_contiguous_walk count alignment (arena_list s) (pages s) lst;
        Some (if pa = None then 0 else ucast count, pa, lst, s\<lparr>arena_list := as, pages := pg\<rparr>)
      })"

section \<open>Pages of the kernel's direct mapping\<close>

record mmu_initial_mapping =
  map_phys :: paddr_t
  map_virt :: u64
  map_size :: u64
  map_flags :: u32
  map_name :: string

definition MMU_INITIAL_MAPPING_TEMPORARY :: u32 where [lk_defs]: "MMU_INITIAL_MAPPING_TEMPORARY = 1"

text \<open>
  \<^verbatim>\<open>paddr_to_kvaddr\<close> of \<^verbatim>\<open>kernel/vm/vm.c\<close>: the table of the platform, without the
  terminating entry of size 0. The result 0 is the null pointer.
\<close>

definition paddr_to_kvaddr :: "mmu_initial_mapping list \<Rightarrow> paddr_t \<Rightarrow> u64" where
  "paddr_to_kvaddr maps pa =
     (case find (\<lambda>m. map_flags m AND MMU_INITIAL_MAPPING_TEMPORARY = 0 \<and> pa \<ge> map_phys m
                    \<and> pa \<le> map_phys m + map_size m - 1) (takeWhile (\<lambda>m. map_size m > 0) maps) of
        Some m \<Rightarrow> map_virt m + (pa - map_phys m)
      | None \<Rightarrow> 0)"

definition pmm_alloc_kpages ::
  "mmu_initial_mapping list \<Rightarrow> u32 \<Rightarrow> page_ptr list option \<Rightarrow> pmm_state \<Rightarrow>
   (u64 \<times> page_ptr list option \<times> pmm_state) option" where
  "pmm_alloc_kpages maps count lst s = do {
     (alloc_count, pa, lst, s) \<leftarrow> pmm_alloc_contiguous count (of_nat PAGE_SIZE_SHIFT) lst s;
     if alloc_count = 0 then Some (0, lst, s)
     else do {
       pa \<leftarrow> pa;
       Some (paddr_to_kvaddr maps pa, lst, s)
     }
   }"

text \<open>
  The pages of \<open>count\<close> consecutive virtual pages from \<open>ptr\<close> on; the translation of virtual
  addresses belongs to the architecture and is an argument.
\<close>

primrec kpages_list :: "(u64 \<Rightarrow> paddr_t) \<Rightarrow> u64 \<Rightarrow> nat \<Rightarrow> pmm_state \<Rightarrow> page_ptr list" where
  "kpages_list vaddr_to_paddr ptr 0 s = []"
| "kpages_list vaddr_to_paddr ptr (Suc n) s =
     (case paddr_to_vm_page (vaddr_to_paddr ptr) s of Some p \<Rightarrow> [p] | None \<Rightarrow> [])
       @ kpages_list vaddr_to_paddr (ptr + PAGE_SIZE) n s"

definition pmm_free_kpages :: "(u64 \<Rightarrow> paddr_t) \<Rightarrow> u64 \<Rightarrow> u32 \<Rightarrow> pmm_state \<Rightarrow> (u64 \<times> pmm_state) option" where
  "pmm_free_kpages vaddr_to_paddr ptr count s =
     pmm_free (kpages_list vaddr_to_paddr ptr (unat count) s) s"

end
