(* ===== verification/Kernel_Vmm.thy ===== *)
theory Kernel_Vmm
  imports Kernel_Pmm
begin

text \<open>
  The virtual memory regions of \<^verbatim>\<open>kernel/vm/vmm.c\<close> and the start-up code of
  \<^verbatim>\<open>kernel/vm/vm.c\<close>, on arm64. An address space is named by a number, the address of its
  structure; its regions are a list in the order of \<^verbatim>\<open>region_list\<close>, and a region is
  its position in that list. Every operation is one step: the mutex of the file protects the
  lists, but pages are taken and given back outside it, and those interleavings are not
  modelled. The thread that makes a call is an argument where the code asks for it. The calls
  into the architecture (map, unmap, switch, create, destroy) are recorded in order in a log;
  what a query of the page tables answers and whether \<^verbatim>\<open>calloc\<close> finds memory are
  arguments. \<open>None\<close> is a failed assertion.
\<close>

section \<open>Data\<close>

type_synonym vaddr_t = u64
type_synonym aspace_ptr = nat

definition ERR_OUT_OF_RANGE :: status_t where [lk_defs]: "ERR_OUT_OF_RANGE = -37"

record vmm_region =
  rg_name :: string
  rg_flags :: u32
  rg_arch_mmu_flags :: u32
  rg_base :: vaddr_t
  rg_size :: u64
  rg_page_list :: "page_ptr list"

definition VMM_REGION_FLAG_RESERVED :: u32 where [lk_defs]: "VMM_REGION_FLAG_RESERVED = 1"
definition VMM_REGION_FLAG_PHYSICAL :: u32 where [lk_defs]: "VMM_REGION_FLAG_PHYSICAL = 2"
definition VMM_FLAG_VALLOC_SPECIFIC :: u32 where [lk_defs]: "VMM_FLAG_VALLOC_SPECIFIC = 1"
definition VMM_ASPACE_FLAG_KERNEL :: u32 where [lk_defs]: "VMM_ASPACE_FLAG_KERNEL = 1"
definition ARCH_MMU_FLAG_INVALID :: u32 where [lk_defs]: "ARCH_MMU_FLAG_INVALID = 128"
definition ARCH_ASPACE_FLAG_KERNEL :: u32 where [lk_defs]: "ARCH_ASPACE_FLAG_KERNEL = 1"

record vmm_aspace =
  as_name :: string
  as_flags :: u32
  as_base :: vaddr_t
  as_size :: u64
  region_list :: "vmm_region list"

datatype mmu_op = MmuInit aspace_ptr vaddr_t u64 u32 | MmuMap aspace_ptr vaddr_t paddr_t u64 u32
  | MmuUnmap aspace_ptr vaddr_t u64 | MmuSwitch "aspace_ptr option" | MmuDestroy aspace_ptr

text \<open>
  \<open>thr_aspace t\<close> is the field \<^verbatim>\<open>aspace\<close> of the thread structure \<open>t\<close>, named
  by its address.
\<close>

type_synonym thread_ptr = nat

record vmm_state =
  aspaces :: "aspace_ptr \<Rightarrow> vmm_aspace"
  aspace_list :: "aspace_ptr list"
  vm_pmm :: pmm_state
  mmu_log :: "mmu_op list"
  thr_aspace :: "thread_ptr \<Rightarrow> aspace_ptr option"

text \<open>The address of \<^verbatim>\<open>_kernel_aspace\<close>, and the ranges of arm64.\<close>

definition kernel_aspace :: aspace_ptr where "kernel_aspace = 0"
definition KERNEL_ASPACE_BASE :: vaddr_t where [lk_defs]: "KERNEL_ASPACE_BASE = 0xffff000000000000"
definition KERNEL_ASPACE_SIZE :: u64 where [lk_defs]: "KERNEL_ASPACE_SIZE = 0x0001000000000000"
definition USER_ASPACE_BASE :: vaddr_t where [lk_defs]: "USER_ASPACE_BASE = 0x0000000001000000"
definition USER_ASPACE_SIZE :: u64 where [lk_defs]: "USER_ASPACE_SIZE = 0x0000fffffe000000"

definition is_kernel_address :: "vaddr_t \<Rightarrow> bool" where
  "is_kernel_address va \<longleftrightarrow> va \<ge> KERNEL_ASPACE_BASE \<and> va \<le> KERNEL_ASPACE_BASE + (KERNEL_ASPACE_SIZE - 1)"

definition is_user_address :: "vaddr_t \<Rightarrow> bool" where
  "is_user_address va \<longleftrightarrow> va \<ge> USER_ASPACE_BASE \<and> va \<le> USER_ASPACE_BASE + (USER_ASPACE_SIZE - 1)"

definition IS_PAGE_ALIGNED :: "u64 \<Rightarrow> bool" where
  "IS_PAGE_ALIGNED x = IS_ALIGNED x PAGE_SIZE"

text \<open>\<^verbatim>\<open>strlcpy\<close> into a field of 32 bytes.\<close>

definition strlcpy32 :: "string \<Rightarrow> string" where
  "strlcpy32 name = take 31 name"

definition mmu_do :: "mmu_op list \<Rightarrow> vmm_state \<Rightarrow> vmm_state" where
  "mmu_do ops s = s\<lparr>mmu_log := mmu_log s @ ops\<rparr>"

definition set_aspace :: "aspace_ptr \<Rightarrow> vmm_aspace \<Rightarrow> vmm_state \<Rightarrow> vmm_state" where
  "set_aspace p a s = s\<lparr>aspaces := (aspaces s)(p := a)\<rparr>"

definition vmm_init_preheap :: "vmm_state \<Rightarrow> vmm_state" where
  "vmm_init_preheap s =
     (let a = \<lparr>as_name = strlcpy32 ''kernel'', as_flags = VMM_ASPACE_FLAG_KERNEL, as_base = KERNEL_ASPACE_BASE,
               as_size = KERNEL_ASPACE_SIZE, region_list = []\<rparr>;
          s = mmu_do [MmuInit kernel_aspace KERNEL_ASPACE_BASE KERNEL_ASPACE_SIZE ARCH_ASPACE_FLAG_KERNEL]
                (set_aspace kernel_aspace a s)
      in s\<lparr>aspace_list := kernel_aspace # aspace_list s\<rparr>)"

section \<open>Ranges of an address space\<close>

definition is_inside_aspace :: "vmm_aspace \<Rightarrow> vaddr_t \<Rightarrow> bool" where
  "is_inside_aspace aspace vaddr \<longleftrightarrow> vaddr \<ge> as_base aspace \<and> vaddr \<le> as_base aspace + as_size aspace - 1"

definition is_region_inside_aspace :: "vmm_aspace \<Rightarrow> vaddr_t \<Rightarrow> u64 \<Rightarrow> bool" where
  "is_region_inside_aspace aspace vaddr sz =
     (if \<not> is_inside_aspace aspace vaddr then False
      else if sz = 0 then True
      else if vaddr + sz - 1 < vaddr then False
      else if vaddr + sz - 1 > as_base aspace + as_size aspace - 1 then False
      else True)"

definition trim_to_aspace :: "vmm_aspace \<Rightarrow> vaddr_t \<Rightarrow> u64 \<Rightarrow> u64 option" where
  "trim_to_aspace aspace vaddr sz = do {
     ASSERT (is_inside_aspace aspace vaddr);
     if sz = 0 then Some sz
     else do {
       let offset = vaddr - as_base aspace;
       let sz = (if offset + sz < offset then - 1 - offset - 1 else sz);
       let sz = (if offset + sz \<ge> as_size aspace - 1 then as_size aspace - offset else sz);
       Some sz
     }
   }"

text \<open>The argument \<open>mem\<close> says whether \<^verbatim>\<open>calloc\<close> finds memory.\<close>

definition alloc_region_struct :: "bool \<Rightarrow> string \<Rightarrow> vaddr_t \<Rightarrow> u64 \<Rightarrow> u32 \<Rightarrow> u32 \<Rightarrow> vmm_region option" where
  "alloc_region_struct mem name base sz flags arch_mmu_flags =
     (if \<not> mem then None
      else Some \<lparr>rg_name = strlcpy32 name, rg_flags = flags, rg_arch_mmu_flags = arch_mmu_flags,
                 rg_base = base, rg_size = sz, rg_page_list = []\<rparr>)"

definition last_byte :: "vmm_region \<Rightarrow> vaddr_t" where
  "last_byte r = rg_base r + rg_size r - 1"

text \<open>Linking a region in so that it gets position \<open>i\<close>.\<close>

definition link_region :: "nat \<Rightarrow> vmm_region \<Rightarrow> vmm_aspace \<Rightarrow> vmm_aspace" where
  "link_region i r a = a\<lparr>region_list := take i (region_list a) @ r # drop i (region_list a)\<rparr>"

text \<open>The walk of \<^verbatim>\<open>add_region_to_aspace\<close>; the regions before \<open>lst\<close> are \<open>i\<close>.\<close>

fun place_walk :: "vaddr_t \<Rightarrow> vaddr_t \<Rightarrow> nat \<Rightarrow> vmm_region list \<Rightarrow> nat option" where
  "place_walk base r_end i [] = None"
| "place_walk base r_end i (lst # rest) =
     (if base > last_byte lst \<and> (case rest of [] \<Rightarrow> True | nxt # _ \<Rightarrow> r_end < rg_base nxt)
      then Some (i + 1)
      else place_walk base r_end (i + 1) rest)"

text \<open>An error, or the position of the region and the address space it is linked into.\<close>

definition add_region_to_aspace :: "vmm_aspace \<Rightarrow> vmm_region \<Rightarrow> status_t + nat \<times> vmm_aspace" where
  "add_region_to_aspace aspace r =
     (if rg_size r = 0 \<or> \<not> is_region_inside_aspace aspace (rg_base r) (rg_size r) then Inl ERR_OUT_OF_RANGE
      else let r_end = rg_base r + rg_size r - 1 in
        if (case region_list aspace of [] \<Rightarrow> True | lst # _ \<Rightarrow> r_end < rg_base lst)
        then Inr (0, link_region 0 r aspace)
        else (case place_walk (rg_base r) r_end 0 (region_list aspace) of
                Some i \<Rightarrow> Inr (i, link_region i r aspace)
              | None \<Rightarrow> Inl ERR_NO_MEMORY))"

section \<open>Finding a spot\<close>

definition arch_mmu_pick_spot :: "vaddr_t \<Rightarrow> u32 \<Rightarrow> vaddr_t \<Rightarrow> u32 \<Rightarrow> vaddr_t \<Rightarrow> u64 \<Rightarrow> u32 \<Rightarrow> vaddr_t" where
  "arch_mmu_pick_spot base prev_flags gap_end next_flags align sz flags = ALIGN base align"

text \<open>
  The result of \<^verbatim>\<open>check_gap\<close>: go on, or stop the search with the address stored
  through \<^verbatim>\<open>pva\<close>.
\<close>

datatype gap_result = NextGap | StopSearch vaddr_t

definition check_gap :: "vmm_aspace \<Rightarrow> vmm_region option \<Rightarrow> vmm_region option \<Rightarrow> vaddr_t \<Rightarrow> u64 \<Rightarrow> u32 \<Rightarrow> gap_result" where
  "check_gap aspace prev nxt align sz arch_mmu_flags =
     (let gap_beg = (case prev of Some p \<Rightarrow> rg_base p + rg_size p | None \<Rightarrow> as_base aspace);
          pick = (\<lambda>gap_end.
            let pva = arch_mmu_pick_spot gap_beg
                        (case prev of Some p \<Rightarrow> rg_arch_mmu_flags p | None \<Rightarrow> ARCH_MMU_FLAG_INVALID)
                        gap_end
                        (case nxt of Some n \<Rightarrow> rg_arch_mmu_flags n | None \<Rightarrow> ARCH_MMU_FLAG_INVALID)
                        align sz arch_mmu_flags
            in if pva < gap_beg then StopSearch (- 1)
               else if pva < gap_end \<and> gap_end - pva + 1 \<ge> sz then StopSearch pva
               else NextGap)
      in case nxt of
           Some n \<Rightarrow> if gap_beg = rg_base n then NextGap else pick (rg_base n - 1)
         | None \<Rightarrow> if gap_beg = as_base aspace + as_size aspace then StopSearch (- 1)
                   else pick (as_base aspace + as_size aspace - 1))"

definition list_head :: "'a list \<Rightarrow> 'a option" where
  "list_head xs = (case xs of [] \<Rightarrow> None | x # _ \<Rightarrow> Some x)"

text \<open>The gaps after a region; the result has the position a new region gets.\<close>

fun spot_walk :: "vmm_aspace \<Rightarrow> vaddr_t \<Rightarrow> u64 \<Rightarrow> u32 \<Rightarrow> nat \<Rightarrow> vmm_region list \<Rightarrow> vaddr_t \<times> nat option" where
  "spot_walk aspace align sz arch_mmu_flags i [] = (- 1, None)"
| "spot_walk aspace align sz arch_mmu_flags i (r # rest) =
     (case check_gap aspace (Some r) (list_head rest) align sz arch_mmu_flags of
        StopSearch spot \<Rightarrow> (spot, Some (i + 1))
      | NextGap \<Rightarrow> spot_walk aspace align sz arch_mmu_flags (i + 1) rest)"

text \<open>A shift by the width of the type or more is undefined, and \<open>None\<close> here.\<close>

definition alloc_spot :: "vmm_aspace \<Rightarrow> u64 \<Rightarrow> u8 \<Rightarrow> u32 \<Rightarrow> (vaddr_t \<times> nat option) option" where
  "alloc_spot aspace sz align_pow2 arch_mmu_flags = do {
     ASSERT (sz > 0 \<and> IS_PAGE_ALIGNED sz);
     let align_pow2 = (if unat align_pow2 < PAGE_SIZE_SHIFT then PAGE_SIZE_SHIFT else unat align_pow2);
     ASSERT (align_pow2 < 64);
     let align = shl1 align_pow2;
     (case check_gap aspace None (list_head (region_list aspace)) align sz arch_mmu_flags of
        StopSearch spot \<Rightarrow> Some (spot, Some 0)
      | NextGap \<Rightarrow> Some (spot_walk aspace align sz arch_mmu_flags 0 (region_list aspace)))
   }"

text \<open>The inner \<open>None\<close> is the null pointer.\<close>

definition alloc_region ::
  "bool \<Rightarrow> vmm_aspace \<Rightarrow> string \<Rightarrow> u64 \<Rightarrow> vaddr_t \<Rightarrow> u8 \<Rightarrow> u32 \<Rightarrow> u32 \<Rightarrow> u32 \<Rightarrow> (nat \<times> vmm_aspace) option option" where
  "alloc_region mem aspace name sz vaddr align_pow2 vmm_flags region_flags arch_mmu_flags =
     (case alloc_region_struct mem name vaddr sz region_flags arch_mmu_flags of
        None \<Rightarrow> Some None
      | Some r \<Rightarrow>
          if vmm_flags AND VMM_FLAG_VALLOC_SPECIFIC \<noteq> 0
          then (case add_region_to_aspace aspace r of Inl err \<Rightarrow> Some None | Inr res \<Rightarrow> Some (Some res))
          else do {
            (vaddr, before) \<leftarrow> alloc_spot aspace sz align_pow2 arch_mmu_flags;
            if vaddr = - 1 then Some None
            else do {
              i \<leftarrow> before;
              Some (Some (i, link_region i (r\<lparr>rg_base := vaddr\<rparr>) aspace))
            }
          })"

section \<open>Operations\<close>

text \<open>\<open>query\<close> is \<^verbatim>\<open>arch_mmu_query\<close>: the translation of an address and its flags.\<close>

type_synonym mmu_query = "aspace_ptr \<Rightarrow> vaddr_t \<Rightarrow> (paddr_t \<times> u32) option"

definition vmm_reserve_space ::
  "bool \<Rightarrow> mmu_query \<Rightarrow> aspace_ptr \<Rightarrow> string option \<Rightarrow> u64 \<Rightarrow> vaddr_t \<Rightarrow> vmm_state \<Rightarrow> (status_t \<times> vmm_state) option" where
  "vmm_reserve_space mem query ap name sz vaddr s = do {
     ASSERT (IS_PAGE_ALIGNED vaddr);
     ASSERT (IS_PAGE_ALIGNED sz);
     let name = (case name of None \<Rightarrow> '''' | Some n \<Rightarrow> n);
     let aspace = aspaces s ap;
     if sz = 0 then Some (NO_ERROR, s)
     else if \<not> IS_PAGE_ALIGNED vaddr \<or> \<not> IS_PAGE_ALIGNED sz then Some (ERR_INVALID_ARGS, s)
     else if \<not> is_inside_aspace aspace vaddr then Some (ERR_OUT_OF_RANGE, s)
     else do {
       sz \<leftarrow> trim_to_aspace aspace vaddr sz;
       let arch_mmu_flags = (case query ap vaddr of Some (_, flags) \<Rightarrow> flags | None \<Rightarrow> 0);
       r \<leftarrow> alloc_region mem aspace name sz vaddr 0 VMM_FLAG_VALLOC_SPECIFIC VMM_REGION_FLAG_RESERVED arch_mmu_flags;
       (case r of
          Some (i, aspace) \<Rightarrow> Some (NO_ERROR, set_aspace ap aspace s)
        | None \<Rightarrow> Some (ERR_NO_MEMORY, s))
     }
   }"

text \<open>
  \<open>ptr\<close> is the pointer argument with the address it points to; the second result is what
  it points to afterwards.
\<close>

definition vmm_alloc_physical ::
  "bool \<Rightarrow> aspace_ptr \<Rightarrow> string option \<Rightarrow> u64 \<Rightarrow> vaddr_t option \<Rightarrow> u8 \<Rightarrow> paddr_t \<Rightarrow> u32 \<Rightarrow> u32 \<Rightarrow> vmm_state \<Rightarrow>
   (status_t \<times> vaddr_t option \<times> vmm_state) option" where
  "vmm_alloc_physical mem ap name sz ptr align_log2 paddr vmm_flags arch_mmu_flags s = do {
     ASSERT (IS_PAGE_ALIGNED paddr);
     ASSERT (IS_PAGE_ALIGNED sz);
     let name = (case name of None \<Rightarrow> '''' | Some n \<Rightarrow> n);
     let specific = (vmm_flags AND VMM_FLAG_VALLOC_SPECIFIC \<noteq> 0);
     if sz = 0 then Some (NO_ERROR, ptr, s)
     else if \<not> IS_PAGE_ALIGNED paddr \<or> \<not> IS_PAGE_ALIGNED sz then Some (ERR_INVALID_ARGS, ptr, s)
     else if specific \<and> ptr = None then Some (ERR_INVALID_ARGS, ptr, s)
     else do {
       let vaddr = (if specific then the ptr else 0);
       r \<leftarrow> alloc_region mem (aspaces s ap) name sz vaddr align_log2 vmm_flags VMM_REGION_FLAG_PHYSICAL arch_mmu_flags;
       (case r of
          None \<Rightarrow> Some (ERR_NO_MEMORY, ptr, s)
        | Some (i, aspace) \<Rightarrow>
            let base = rg_base (region_list aspace ! i) in
            Some (NO_ERROR, map_option (\<lambda>_. base) ptr,
                  mmu_do [MmuMap ap base paddr (sz div PAGE_SIZE) arch_mmu_flags] (set_aspace ap aspace s)))
     }
   }"

text \<open>\<open>r->page_list\<close> of the region at position \<open>i\<close>.\<close>

definition set_pages :: "nat \<Rightarrow> page_ptr list \<Rightarrow> vmm_aspace \<Rightarrow> vmm_aspace" where
  "set_pages i ps a = a\<lparr>region_list := (region_list a)[i := (region_list a ! i)\<lparr>rg_page_list := rg_page_list (region_list a ! i) @ ps\<rparr>]\<rparr>"

definition vmm_alloc_contiguous ::
  "bool \<Rightarrow> aspace_ptr \<Rightarrow> string option \<Rightarrow> u64 \<Rightarrow> vaddr_t option \<Rightarrow> u8 \<Rightarrow> u32 \<Rightarrow> u32 \<Rightarrow> vmm_state \<Rightarrow>
   (status_t \<times> vaddr_t option \<times> vmm_state) option" where
  "vmm_alloc_contiguous mem ap name sz ptr align_pow2 vmm_flags arch_mmu_flags s =
     (let sz = ROUNDUP sz PAGE_SIZE;
          name = (case name of None \<Rightarrow> '''' | Some n \<Rightarrow> n);
          specific = (vmm_flags AND VMM_FLAG_VALLOC_SPECIFIC \<noteq> 0) in
      if sz = 0 then Some (ERR_INVALID_ARGS, ptr, s)
      else if specific \<and> ptr = None then Some (ERR_INVALID_ARGS, ptr, s)
      else do {
        let vaddr = (if specific then the ptr else 0);
        (count, pa, page_list, pmm) \<leftarrow> pmm_alloc_contiguous (ucast (sz div PAGE_SIZE)) align_pow2 (Some []) (vm_pmm s);
        let pa = (case pa of Some a \<Rightarrow> a | None \<Rightarrow> 0);
        page_list \<leftarrow> page_list;
        if count < sz div PAGE_SIZE then do {
          ASSERT (count = 0);
          Some (ERR_NO_MEMORY, ptr, s\<lparr>vm_pmm := pmm\<rparr>)
        }
        else do {
          r \<leftarrow> alloc_region mem (aspaces s ap) name sz vaddr align_pow2 vmm_flags VMM_REGION_FLAG_PHYSICAL arch_mmu_flags;
          (case r of
             None \<Rightarrow> do {
               (_, pmm) \<leftarrow> pmm_free page_list pmm;
               Some (ERR_NO_MEMORY, ptr, s\<lparr>vm_pmm := pmm\<rparr>)
             }
           | Some (i, aspace) \<Rightarrow>
               let base = rg_base (region_list aspace ! i) in
               Some (NO_ERROR, map_option (\<lambda>_. base) ptr,
                     mmu_do [MmuMap ap base pa (sz div PAGE_SIZE) arch_mmu_flags]
                       (set_aspace ap (set_pages i page_list aspace) (s\<lparr>vm_pmm := pmm\<rparr>))))
        }
      })"

text \<open>The loop of \<^verbatim>\<open>vmm_alloc\<close> that maps the pages one by one: the calls it makes.\<close>

primrec map_pages :: "aspace_ptr \<Rightarrow> vmm_region \<Rightarrow> u32 \<Rightarrow> pmm_state \<Rightarrow> vaddr_t \<Rightarrow> page_ptr list \<Rightarrow> mmu_op list option" where
  "map_pages ap r arch_mmu_flags pmm va [] = Some []"
| "map_pages ap r arch_mmu_flags pmm va (p # ps) = do {
     ASSERT (va \<le> last_byte r);
     let pa = vm_page_to_paddr p pmm;
     ASSERT (IS_PAGE_ALIGNED pa);
     ops \<leftarrow> map_pages ap r arch_mmu_flags pmm (va + PAGE_SIZE) ps;
     Some (MmuMap ap va pa 1 arch_mmu_flags # ops)
   }"

definition vmm_alloc ::
  "bool \<Rightarrow> aspace_ptr \<Rightarrow> string option \<Rightarrow> u64 \<Rightarrow> vaddr_t option \<Rightarrow> u8 \<Rightarrow> u32 \<Rightarrow> u32 \<Rightarrow> vmm_state \<Rightarrow>
   (status_t \<times> vaddr_t option \<times> vmm_state) option" where
  "vmm_alloc mem ap name sz ptr align_pow2 vmm_flags arch_mmu_flags s =
     (let sz = ROUNDUP sz PAGE_SIZE;
          name = (case name of None \<Rightarrow> '''' | Some n \<Rightarrow> n);
          specific = (vmm_flags AND VMM_FLAG_VALLOC_SPECIFIC \<noteq> 0) in
      if sz = 0 then Some (ERR_INVALID_ARGS, ptr, s)
      else if specific \<and> ptr = None then Some (ERR_INVALID_ARGS, ptr, s)
      else do {
        let vaddr = (if specific then the ptr else 0);
        let (count, page_list, pmm) = pmm_alloc_pages (ucast (sz div PAGE_SIZE)) [] (vm_pmm s);
        ASSERT (count \<le> sz);
        if count < sz div PAGE_SIZE then do {
          (_, pmm) \<leftarrow> pmm_free page_list pmm;
          Some (ERR_NO_MEMORY, ptr, s\<lparr>vm_pmm := pmm\<rparr>)
        }
        else do {
          r \<leftarrow> alloc_region mem (aspaces s ap) name sz vaddr align_pow2 vmm_flags VMM_REGION_FLAG_PHYSICAL arch_mmu_flags;
          (case r of
             None \<Rightarrow> do {
               (_, pmm) \<leftarrow> pmm_free page_list pmm;
               Some (ERR_NO_MEMORY, ptr, s\<lparr>vm_pmm := pmm\<rparr>)
             }
           | Some (i, aspace) \<Rightarrow> do {
               let r = region_list aspace ! i;
               let va = rg_base r;
               ASSERT (IS_PAGE_ALIGNED va);
               ops \<leftarrow> map_pages ap r arch_mmu_flags pmm va page_list;
               Some (NO_ERROR, map_option (\<lambda>_. rg_base r) ptr,
                     mmu_do ops (set_aspace ap (set_pages i page_list aspace) (s\<lparr>vm_pmm := pmm\<rparr>)))
             })
        }
      })"

text \<open>The region of an address, by its position.\<close>

fun find_walk :: "vaddr_t \<Rightarrow> nat \<Rightarrow> vmm_region list \<Rightarrow> nat option" where
  "find_walk vaddr i [] = None"
| "find_walk vaddr i (r # rest) =
     (if vaddr \<ge> rg_base r \<and> vaddr \<le> last_byte r then Some i else find_walk vaddr (i + 1) rest)"

definition vmm_find_region :: "vmm_aspace \<Rightarrow> vaddr_t \<Rightarrow> nat option" where
  "vmm_find_region aspace vaddr = find_walk vaddr 0 (region_list aspace)"

definition vmm_free_region :: "aspace_ptr \<Rightarrow> vaddr_t \<Rightarrow> vmm_state \<Rightarrow> (status_t \<times> vmm_state) option" where
  "vmm_free_region ap vaddr s =
     (let aspace = aspaces s ap in
      case vmm_find_region aspace vaddr of
        None \<Rightarrow> Some (ERR_NOT_FOUND, s)
      | Some i \<Rightarrow> do {
          let r = region_list aspace ! i;
          let aspace = aspace\<lparr>region_list := take i (region_list aspace) @ drop (i + 1) (region_list aspace)\<rparr>;
          let s = mmu_do [MmuUnmap ap (rg_base r) (rg_size r div PAGE_SIZE)] (set_aspace ap aspace s);
          (_, pmm) \<leftarrow> pmm_free (rg_page_list r) (vm_pmm s);
          Some (NO_ERROR, s\<lparr>vm_pmm := pmm\<rparr>)
        })"

text \<open>
  \<open>mem\<close> is the structure that \<^verbatim>\<open>calloc\<close> returns, if any, and \<open>err\<close> the result of
  \<^verbatim>\<open>arch_mmu_init_aspace\<close>.
\<close>

definition vmm_create_aspace ::
  "aspace_ptr option \<Rightarrow> status_t \<Rightarrow> string option \<Rightarrow> u32 \<Rightarrow> vmm_state \<Rightarrow> status_t \<times> aspace_ptr option \<times> vmm_state" where
  "vmm_create_aspace mem err name flags s =
     (case mem of
        None \<Rightarrow> (ERR_NO_MEMORY, None, s)
      | Some p \<Rightarrow>
          let kernel = (flags AND VMM_ASPACE_FLAG_KERNEL \<noteq> 0);
              a = \<lparr>as_name = strlcpy32 (case name of Some n \<Rightarrow> n | None \<Rightarrow> ''unnamed''), as_flags = flags,
                   as_base = (if kernel then KERNEL_ASPACE_BASE else USER_ASPACE_BASE),
                   as_size = (if kernel then KERNEL_ASPACE_SIZE else USER_ASPACE_SIZE), region_list = []\<rparr>;
              s = mmu_do [MmuInit p (as_base a) (as_size a) (if kernel then ARCH_ASPACE_FLAG_KERNEL else 0)] s
          in if err < 0 then (err, None, s)
             else (NO_ERROR, Some p, (set_aspace p a s)\<lparr>aspace_list := p # aspace_list s\<rparr>))"

definition vmm_context_switch :: "aspace_ptr option \<Rightarrow> aspace_ptr option \<Rightarrow> vmm_state \<Rightarrow> vmm_state" where
  "vmm_context_switch oldspace newaspace s = mmu_do [MmuSwitch newaspace] s"

text \<open>The second loop of \<^verbatim>\<open>vmm_free_aspace\<close>: giving the pages of every region back.\<close>

primrec free_regions :: "vmm_region list \<Rightarrow> pmm_state \<Rightarrow> pmm_state option" where
  "free_regions [] pmm = Some pmm"
| "free_regions (r # rs) pmm = do {
     (_, pmm) \<leftarrow> pmm_free (rg_page_list r) pmm;
     free_regions rs pmm
   }"

text \<open>The thread \<open>t\<close> makes the call; only its own field is cleared.\<close>

definition vmm_free_aspace :: "thread_ptr \<Rightarrow> aspace_ptr \<Rightarrow> vmm_state \<Rightarrow> (status_t \<times> vmm_state) option" where
  "vmm_free_aspace t ap s =
     (if ap \<notin> set (aspace_list s) then Some (ERR_INVALID_ARGS, s)
      else do {
        let rs = region_list (aspaces s ap);
        let s = s\<lparr>aspace_list := remove1 ap (aspace_list s)\<rparr>;
        let s = set_aspace ap ((aspaces s ap)\<lparr>region_list := []\<rparr>) s;
        let s = mmu_do (map (\<lambda>r. MmuUnmap ap (rg_base r) (rg_size r div PAGE_SIZE)) rs) s;
        pmm \<leftarrow> free_regions rs (vm_pmm s);
        let s = s\<lparr>vm_pmm := pmm\<rparr>;
        let s = (if thr_aspace s t = Some ap
                 then vmm_context_switch (Some ap) None (s\<lparr>thr_aspace := (thr_aspace s)(t := None)\<rparr>) else s);
        Some (NO_ERROR, mmu_do [MmuDestroy ap] s)
      })"

definition vmm_set_active_aspace :: "thread_ptr \<Rightarrow> aspace_ptr option \<Rightarrow> vmm_state \<Rightarrow> vmm_state" where
  "vmm_set_active_aspace t aspace s =
     (if aspace = thr_aspace s t then s
      else vmm_context_switch (thr_aspace s t) aspace (s\<lparr>thr_aspace := (thr_aspace s)(t := aspace)\<rparr>))"

section \<open>Start-up and translation\<close>

text \<open>The loop of \<^verbatim>\<open>mark_pages_in_use\<close>, for the \<open>n\<close> pages from \<open>va\<close> on.\<close>

primrec mark_loop :: "mmu_query \<Rightarrow> vaddr_t \<Rightarrow> nat \<Rightarrow> page_ptr list \<Rightarrow> pmm_state \<Rightarrow> (page_ptr list \<times> pmm_state) option" where
  "mark_loop query va 0 lst pmm = Some (lst, pmm)"
| "mark_loop query va (Suc n) lst pmm = do {
     (pa, flags) \<leftarrow> query kernel_aspace va;
     (_, lst, pmm) \<leftarrow> pmm_alloc_range pa 1 lst pmm;
     mark_loop query (va + PAGE_SIZE) n lst pmm
   }"

text \<open>The list of the pages is dropped by the code; it is a result here to name the pages.\<close>

definition mark_pages_in_use :: "mmu_query \<Rightarrow> vaddr_t \<Rightarrow> u64 \<Rightarrow> pmm_state \<Rightarrow> (page_ptr list \<times> pmm_state) option" where
  "mark_pages_in_use query va len pmm =
     (let len = ALIGN (len + (va AND (PAGE_SIZE - 1))) PAGE_SIZE;
          va = ROUNDDOWN va PAGE_SIZE
      in mark_loop query va (unat (len div PAGE_SIZE)) [] pmm)"

definition vm_init_preheap ::
  "mmu_query \<Rightarrow> vaddr_t \<Rightarrow> vaddr_t \<Rightarrow> vaddr_t \<Rightarrow> vmm_state \<Rightarrow> vmm_state option" where
  "vm_init_preheap query kstart kend boot_alloc_start s = do {
     let s = vmm_init_preheap s;
     (_, pmm) \<leftarrow> mark_pages_in_use query kstart (kend - kstart) (vm_pmm s);
     (_, pmm) \<leftarrow> (if boot_alloc_end pmm \<noteq> boot_alloc_start
                   then mark_pages_in_use query boot_alloc_start (boot_alloc_end pmm - boot_alloc_start) pmm
                   else Some ([], pmm));
     Some (s\<lparr>vm_pmm := pmm\<rparr>)
   }"

text \<open>\<open>mem m\<close> says whether the heap has a structure for the mapping \<open>m\<close>.\<close>

fun vm_init_postheap ::
  "(mmu_initial_mapping \<Rightarrow> bool) \<Rightarrow> mmu_query \<Rightarrow> mmu_initial_mapping list \<Rightarrow> vmm_state \<Rightarrow> vmm_state option" where
  "vm_init_postheap mem query [] s = Some s"
| "vm_init_postheap mem query (m # maps) s =
     (if map_size m > 0 then do {
        s \<leftarrow> (if map_flags m AND MMU_INITIAL_MAPPING_TEMPORARY = 0 then do {
                (_, s) \<leftarrow> vmm_reserve_space (mem m) query kernel_aspace (Some (map_name m)) (map_size m) (map_virt m) s;
                Some s
              } else Some s);
        vm_init_postheap mem query maps s
      } else Some s)"

text \<open>A user address is looked up in the address space of the calling thread.\<close>

definition vaddr_to_aspace :: "thread_ptr \<Rightarrow> vaddr_t \<Rightarrow> vmm_state \<Rightarrow> aspace_ptr option" where
  "vaddr_to_aspace t ptr s =
     (if is_kernel_address ptr then Some kernel_aspace
      else if is_user_address ptr then thr_aspace s t
      else None)"

definition vaddr_to_paddr :: "mmu_query \<Rightarrow> thread_ptr \<Rightarrow> vaddr_t \<Rightarrow> vmm_state \<Rightarrow> paddr_t" where
  "vaddr_to_paddr query t ptr s =
     (case vaddr_to_aspace t ptr s of
        None \<Rightarrow> 0
      | Some ap \<Rightarrow> (case query ap ptr of Some (pa, _) \<Rightarrow> pa | None \<Rightarrow> 0))"

end
