(* ===== verification/Vmm_Inv.thy ===== *)
theory Vmm_Inv
  imports Kernel_Vmm
begin

text \<open>
  Well-formed address spaces, read in natural numbers so that a range may end at 2^64, and
  what the two placements of \<^verbatim>\<open>vmm.c\<close> do on them: \<^verbatim>\<open>add_region_to_aspace\<close> at a
  given address and \<^verbatim>\<open>alloc_spot\<close> at the lowest aligned one.
\<close>

section \<open>Well-formed address spaces\<close>

definition rbeg :: "vmm_region \<Rightarrow> nat" where "rbeg r = unat (rg_base r)"
definition rfin :: "vmm_region \<Rightarrow> nat" where "rfin r = rbeg r + unat (rg_size r)"
definition as_beg :: "vmm_aspace \<Rightarrow> nat" where "as_beg a = unat (as_base a)"
definition as_end :: "vmm_aspace \<Rightarrow> nat" where "as_end a = as_beg a + unat (as_size a)"

definition region_ok :: "vmm_aspace \<Rightarrow> vmm_region \<Rightarrow> bool" where
  "region_ok a r \<longleftrightarrow> rg_size r \<noteq> 0 \<and> 4096 dvd rbeg r \<and> 4096 dvd unat (rg_size r)
     \<and> as_beg a \<le> rbeg r \<and> rfin r \<le> as_end a"

definition rbefore :: "vmm_region \<Rightarrow> vmm_region \<Rightarrow> bool" where
  "rbefore r q \<longleftrightarrow> rfin r \<le> rbeg q"

definition aspace_ok :: "vmm_aspace \<Rightarrow> bool" where
  "aspace_ok a \<longleftrightarrow> as_size a \<noteq> 0 \<and> 4096 dvd as_beg a \<and> 4096 dvd unat (as_size a) \<and> as_end a \<le> 2 ^ 64
     \<and> (\<forall>r \<in> set (region_list a). region_ok a r) \<and> sorted_wrt rbefore (region_list a)"

text \<open>The range of \<open>z\<close> bytes from \<open>v\<close> on lies in the address space and meets no region.\<close>

definition free_range :: "vmm_aspace \<Rightarrow> nat \<Rightarrow> nat \<Rightarrow> bool" where
  "free_range a v z \<longleftrightarrow> as_beg a \<le> v \<and> v + z \<le> as_end a
     \<and> (\<forall>q \<in> set (region_list a). v + z \<le> rbeg q \<or> rfin q \<le> v)"

lemma region_bounds:
  assumes "aspace_ok a" "r \<in> set (region_list a)"
  shows "rbeg r < rfin r" "rfin r \<le> as_end a" "as_beg a \<le> rbeg r" "rfin r \<le> 2 ^ 64" "4096 \<le> unat (rg_size r)"
proof -
  have ok: "region_ok a r" "as_end a \<le> 2 ^ 64" using assms by (auto simp: aspace_ok_def)
  then have "0 < unat (rg_size r)" by (simp add: region_ok_def unat_gt_0)
  then show "rbeg r < rfin r" "rfin r \<le> as_end a" "as_beg a \<le> rbeg r" "rfin r \<le> 2 ^ 64" "4096 \<le> unat (rg_size r)"
    using ok by (auto simp: region_ok_def rfin_def dest: dvd_imp_le)
qed

lemma unat_range_last:
  fixes b z :: u64
  assumes "z \<noteq> 0" "unat b + unat z \<le> 2 ^ 64"
  shows "unat (b + z - 1) = unat b + unat z - 1"
proof -
  have p: "0 < unat z" using assms(1) by (simp add: unat_gt_0)
  have u: "unat (z - 1) = unat z - 1" using assms(1) by (rule unat_minus_one)
  have "unat (b + (z - 1)) = (unat b + (unat z - 1)) mod 2 ^ 64" by (simp only: unat_word_ariths u) simp
  also have "\<dots> = unat b + unat z - 1" using assms(2) p by simp
  finally show ?thesis by (simp only: add_diff_eq)
qed

lemma unat_range_wraps:
  fixes b z :: u64
  assumes "2 ^ 64 < unat b + unat z"
  shows "b + z - 1 < b"
proof -
  have z: "0 < unat z" using assms unat_less64 [of b] by linarith
  then have u: "unat (z - 1) = unat z - 1" by (intro unat_minus_one) auto
  have "unat (b + (z - 1)) = (unat b + (unat z - 1)) mod 2 ^ 64" by (simp only: unat_word_ariths u) simp
  also have "\<dots> = unat b + (unat z - 1) - 2 ^ 64"
    using assms unat_less64 [of b] unat_less64 [of z] by (simp add: mod_if)
  finally have "unat (b + z - 1) < unat b" using assms z unat_less64 [of z] by (simp only: add_diff_eq)
  then show ?thesis by (simp only: word_less_nat_alt)
qed

lemma is_inside_aspace_iff:
  assumes "aspace_ok a"
  shows "is_inside_aspace a v \<longleftrightarrow> as_beg a \<le> unat v \<and> unat v < as_end a"
proof -
  have "unat (as_base a + as_size a - 1) = as_end a - 1" "0 < as_end a"
    using assms unat_range_last [of "as_size a" "as_base a"] unat_gt_0 [of "as_size a"]
    by (auto simp: aspace_ok_def as_end_def as_beg_def)
  then show ?thesis by (auto simp: is_inside_aspace_def word_le_nat_alt as_beg_def)
qed

lemma is_region_inside_aspace_iff:
  assumes ok: "aspace_ok a" and z: "z \<noteq> 0"
  shows "is_region_inside_aspace a v z \<longleftrightarrow> as_beg a \<le> unat v \<and> unat v + unat z \<le> as_end a"
proof -
  have e: "unat (as_base a + as_size a - 1) = as_end a - 1" "0 < as_end a" "as_end a \<le> 2 ^ 64"
    using ok unat_range_last [of "as_size a" "as_base a"] unat_gt_0 [of "as_size a"]
    by (auto simp: aspace_ok_def as_end_def as_beg_def)
  have zp: "0 < unat z" using z by (simp add: unat_gt_0)
  note in_iff = is_inside_aspace_iff [OF ok, of v]
  show ?thesis
  proof (cases "unat v + unat z \<le> 2 ^ 64")
    case True
    have "unat (v + z - 1) = unat v + unat z - 1" by (rule unat_range_last [OF z True])
    then show ?thesis using in_iff zp e(1,2) z
      by (auto simp: is_region_inside_aspace_def word_less_nat_alt)
  next
    case False
    then have "v + z - 1 < v" by (intro unat_range_wraps) simp
    moreover have "\<not> unat v + unat z \<le> as_end a" using False e(3) by linarith
    ultimately show ?thesis using z by (simp add: is_region_inside_aspace_def)
  qed
qed

lemma last_byte_region: "aspace_ok a \<Longrightarrow> r \<in> set (region_list a) \<Longrightarrow> unat (last_byte r) = rfin r - 1"
  using unat_range_last [of "rg_size r" "rg_base r"] region_bounds(4) [of a r]
  by (auto simp: last_byte_def rfin_def rbeg_def aspace_ok_def region_ok_def)

section \<open>Placing a region at its address\<close>

text \<open>\<open>r\<close> may be linked at position \<open>i\<close>: it lies between its new neighbours.\<close>

definition between :: "vmm_region list \<Rightarrow> vmm_region \<Rightarrow> nat \<Rightarrow> bool" where
  "between qs r i \<longleftrightarrow> i \<le> length qs \<and> (\<forall>q \<in> set (take i qs). rbefore q r) \<and> (\<forall>q \<in> set (drop i qs). rbefore r q)"

lemma link_region_ok:
  assumes ok: "aspace_ok a" and r: "region_ok a r" and i: "between (region_list a) r i"
  shows "aspace_ok (link_region i r a)"
proof -
  have "sorted_wrt rbefore (take i (region_list a) @ drop i (region_list a))" using ok by (simp add: aspace_ok_def)
  then have "sorted_wrt rbefore (take i (region_list a) @ r # drop i (region_list a))"
    using i unfolding sorted_wrt_append between_def by auto
  moreover have "region_ok a q" if "q \<in> set (take i (region_list a) @ r # drop i (region_list a))" for q
    using that ok r by (auto simp: aspace_ok_def dest: in_set_takeD in_set_dropD)
  ultimately show ?thesis using ok
    by (auto simp: aspace_ok_def link_region_def region_ok_def as_beg_def as_end_def)
qed

lemma free_range_between:
  assumes ok: "aspace_ok a" and fr: "free_range a (rbeg r) (unat (rg_size r))"
  defines "k \<equiv> length (takeWhile (\<lambda>q. rbefore q r) (region_list a))"
  shows "between (region_list a) r k"
proof -
  let ?qs = "region_list a"
  have t: "take k ?qs = takeWhile (\<lambda>q. rbefore q r) ?qs" "drop k ?qs = dropWhile (\<lambda>q. rbefore q r) ?qs"
    by (simp_all add: k_def takeWhile_eq_take [symmetric] dropWhile_eq_drop [symmetric])
  have "rbefore r q" if q: "q \<in> set (dropWhile (\<lambda>q. rbefore q r) ?qs)" for q
  proof -
    obtain x xs where x: "dropWhile (\<lambda>q. rbefore q r) ?qs = x # xs" using q by (cases "dropWhile (\<lambda>q. rbefore q r) ?qs") auto
    then have "\<not> rbefore x r" by (metis dropWhile_eq_Cons_conv)
    moreover have xin: "x \<in> set ?qs" using x by (metis list.set_intros(1) set_dropWhileD)
    ultimately have rx: "rbefore r x" using fr by (auto simp: free_range_def rbefore_def rfin_def)
    have "sorted_wrt rbefore (x # xs)"
      using ok x by (metis aspace_ok_def sorted_wrt_append takeWhile_dropWhile_id)
    then show ?thesis using q x rx region_bounds(1) [OF ok xin] by (auto simp: rbefore_def)
  qed
  then show ?thesis using t by (auto simp: between_def k_def length_takeWhile_le dest: set_takeWhileD)
qed

lemma between_free_range:
  assumes "region_ok a r" "between (region_list a) r i"
  shows "free_range a (rbeg r) (unat (rg_size r))"
proof -
  have "rbefore q r \<or> rbefore r q" if "q \<in> set (region_list a)" for q
    using assms(2) that by (metis append_take_drop_id between_def Un_iff set_append)
  then show ?thesis using assms(1) by (auto simp: free_range_def region_ok_def rbefore_def rfin_def)
qed

lemma place_walk_sound:
  assumes "place_walk b e i qs = Some j" "sorted_wrt rbefore qs"
    and "\<forall>q \<in> set qs. (b > last_byte q \<longleftrightarrow> rbefore q r) \<and> (e < rg_base q \<longleftrightarrow> rbefore r q) \<and> rbeg q < rfin q"
  shows "\<exists>k. j = i + k \<and> 0 < k \<and> between qs r k"
  using assms
proof (induction qs arbitrary: i)
  case Nil
  then show ?case by simp
next
  case (Cons q rest)
  show ?case
  proof (cases "b > last_byte q \<and> (case rest of [] \<Rightarrow> True | nxt # _ \<Rightarrow> e < rg_base nxt)")
    case True
    have "rbefore r p" if p: "p \<in> set rest" for p
    proof -
      obtain n ns where n: "rest = n # ns" using p by (cases rest) auto
      then have "rbefore r n" using True Cons.prems(3) by simp
      then show ?thesis using n p Cons.prems(2,3) by (auto simp: rbefore_def)
    qed
    then show ?thesis using True Cons.prems(1,3) by (intro exI [of _ 1]) (auto simp: between_def)
  next
    case False
    then have "place_walk b e (i + 1) rest = Some j" using Cons.prems(1) by (simp split: if_splits)
    with Cons.IH Cons.prems obtain k where k: "j = i + 1 + k" "0 < k" "between rest r k" by fastforce
    then have "rest \<noteq> []" by (auto simp: between_def)
    then obtain n ns where n: "rest = n # ns" by (cases rest) auto
    then have "rbefore n r" using k(2,3) by (cases k) (auto simp: between_def)
    then have "rbefore q r" using Cons.prems(2,3) n by (auto simp: rbefore_def)
    then show ?thesis using k by (intro exI [of _ "Suc k"]) (auto simp: between_def)
  qed
qed

lemma place_walk_complete:
  assumes "between qs r k" "0 < k" "rbeg r < rfin r"
    and "\<forall>q \<in> set qs. (b > last_byte q \<longleftrightarrow> rbefore q r) \<and> (e < rg_base q \<longleftrightarrow> rbefore r q) \<and> rbeg q < rfin q"
  shows "place_walk b e i qs = Some (i + k)"
  using assms
proof (induction qs arbitrary: i k)
  case Nil
  then show ?case by (simp add: between_def)
next
  case (Cons q rest)
  then obtain k' where k': "k = Suc k'" by (cases k) auto
  have q: "b > last_byte q" using Cons.prems k' by (simp add: between_def)
  have bt: "between rest r k'" using Cons.prems(1) k' by (auto simp: between_def)
  show ?case
  proof (cases "k' = 0")
    case True
    then have "case rest of [] \<Rightarrow> True | nxt # _ \<Rightarrow> e < rg_base nxt"
      using bt Cons.prems(4) by (auto simp: between_def split: list.splits)
    then show ?thesis using q True k' by simp
  next
    case False
    then obtain n ns where n: "rest = n # ns" using bt by (cases rest) (auto simp: between_def)
    then have "rbefore n r" using bt False by (cases k') (auto simp: between_def)
    then have "\<not> e < rg_base n" using Cons.prems(3,4) n by (auto simp: rbefore_def)
    then show ?thesis using Cons.IH [OF bt _ Cons.prems(3)] False n k' Cons.prems(4) by auto
  qed
qed

lemma add_region_ok:
  assumes ok: "aspace_ok a" and al: "4096 dvd rbeg r" "4096 dvd unat (rg_size r)" and z: "rg_size r \<noteq> 0"
  shows "case add_region_to_aspace a r of
      Inl err \<Rightarrow> err < 0 \<and> \<not> free_range a (rbeg r) (unat (rg_size r))
    | Inr (i, a') \<Rightarrow> region_ok a r \<and> between (region_list a) r i \<and> a' = link_region i r a"
proof (cases "is_region_inside_aspace a (rg_base r) (rg_size r)")
  case False
  then show ?thesis using is_region_inside_aspace_iff [OF ok z, of "rg_base r"]
    by (auto simp: add_region_to_aspace_def free_range_def rbeg_def lk_defs)
next
  case True
  then have b: "as_beg a \<le> rbeg r" "rfin r \<le> as_end a" and zp: "0 < unat (rg_size r)"
    using is_region_inside_aspace_iff [OF ok z, of "rg_base r"] z by (auto simp: rbeg_def rfin_def unat_gt_0)
  then have rok: "region_ok a r" and rl: "rbeg r < rfin r" using al z by (auto simp: region_ok_def rfin_def)
  let ?e = "rg_base r + rg_size r - 1"
  have e: "unat ?e = rfin r - 1"
    using unat_range_last [OF z, of "rg_base r"] b ok by (simp add: rfin_def rbeg_def aspace_ok_def)
  have conv: "\<forall>q \<in> set (region_list a). (rg_base r > last_byte q \<longleftrightarrow> rbefore q r)
      \<and> (?e < rg_base q \<longleftrightarrow> rbefore r q) \<and> rbeg q < rfin q"
  proof
    fix q assume q: "q \<in> set (region_list a)"
    show "(rg_base r > last_byte q \<longleftrightarrow> rbefore q r) \<and> (?e < rg_base q \<longleftrightarrow> rbefore r q) \<and> rbeg q < rfin q"
      using last_byte_region [OF ok q] region_bounds(1) [OF ok q] e rl
      by (auto simp: word_less_nat_alt rbefore_def rbeg_def)
  qed
  have so: "sorted_wrt rbefore (region_list a)" using ok by (simp add: aspace_ok_def)
  let ?front = "case region_list a of [] \<Rightarrow> True | lst # _ \<Rightarrow> ?e < rg_base lst"
  have f0: "?front \<longleftrightarrow> between (region_list a) r 0"
  proof (cases "region_list a")
    case (Cons x xs)
    then have "rbefore r x \<Longrightarrow> q \<in> set xs \<Longrightarrow> rbefore r q" for q using so conv by (auto simp: rbefore_def)
    then show ?thesis using Cons conv by (auto simp: between_def)
  qed (simp add: between_def)
  show ?thesis
  proof (cases ?front)
    case True
    then show ?thesis using f0 rok z \<open>is_region_inside_aspace a _ _\<close> by (simp add: add_region_to_aspace_def)
  next
    case False
    show ?thesis
    proof (cases "place_walk (rg_base r) ?e 0 (region_list a)")
      case (Some j)
      then have "between (region_list a) r j" using place_walk_sound [OF Some so conv] by auto
      then show ?thesis using Some False rok z \<open>is_region_inside_aspace a _ _\<close> by (simp add: add_region_to_aspace_def)
    next
      case None
      have "\<not> free_range a (rbeg r) (unat (rg_size r))"
      proof
        assume "free_range a (rbeg r) (unat (rg_size r))"
        then obtain k where k: "between (region_list a) r k" using free_range_between [OF ok] by blast
        then have "0 < k" using False f0 by (cases k) auto
        then show False using place_walk_complete [OF k _ rl conv, of 0] None by simp
      qed
      then show ?thesis using None False z \<open>is_region_inside_aspace a _ _\<close> by (simp add: add_region_to_aspace_def lk_defs)
    qed
  qed
qed

end
