(* ===== verification/Vmm_Spot.thy ===== *)
theory Vmm_Spot
  imports Vmm_Inv
begin

text \<open>
  The search for a gap: \<^verbatim>\<open>alloc_spot\<close> returns the lowest aligned address at which the
  region fits, if there is one.
\<close>

section \<open>One gap\<close>

definition has_spot :: "nat \<Rightarrow> nat \<Rightarrow> nat \<Rightarrow> nat \<Rightarrow> bool" where
  "has_spot A z g h \<longleftrightarrow> (\<exists>v. A dvd v \<and> g \<le> v \<and> v + z \<le> h)"

lemma has_spot_iff: "0 < A \<Longrightarrow> has_spot A z g h \<longleftrightarrow> round_up g A + z \<le> h"
  unfolding has_spot_def using round_up_ge round_up_dvd round_up_least
  by (meson add_le_mono1 le_trans)

text \<open>The gaps of an address space, before the first region, between two, and after the last.\<close>

definition gap_lo :: "vmm_aspace \<Rightarrow> nat \<Rightarrow> nat" where
  "gap_lo a i = (if i = 0 then as_beg a else rfin (region_list a ! (i - 1)))"

definition gap_hi :: "vmm_aspace \<Rightarrow> nat \<Rightarrow> nat" where
  "gap_hi a i = (if i < length (region_list a) then rbeg (region_list a ! i) else as_end a)"

definition prev_of :: "vmm_aspace \<Rightarrow> nat \<Rightarrow> vmm_region option" where
  "prev_of a i = (if i = 0 then None else Some (region_list a ! (i - 1)))"

definition next_of :: "vmm_aspace \<Rightarrow> nat \<Rightarrow> vmm_region option" where
  "next_of a i = (if i < length (region_list a) then Some (region_list a ! i) else None)"

lemma rfin_mono:
  assumes ok: "aspace_ok a" and "i < j" "j < length (region_list a)"
  shows "rfin (region_list a ! i) \<le> rbeg (region_list a ! j)"
proof -
  have "sorted_wrt rbefore (region_list a)" using ok by (simp add: aspace_ok_def)
  then have "rbefore (region_list a ! i) (region_list a ! j)" using assms(2,3) by (rule sorted_wrt_nth_less)
  then show ?thesis by (simp add: rbefore_def)
qed

lemma gap_lo_le_hi:
  assumes ok: "aspace_ok a" and i: "i \<le> length (region_list a)"
  shows "gap_lo a i \<le> gap_hi a i"
proof (cases i)
  case 0
  then show ?thesis using region_bounds(3) [OF ok, of "region_list a ! 0"] by (auto simp: gap_lo_def gap_hi_def as_end_def)
next
  case (Suc k)
  then show ?thesis using i region_bounds(2) [OF ok, of "region_list a ! k"] rfin_mono [OF ok, of k "Suc k"]
    by (auto simp: gap_lo_def gap_hi_def)
qed

lemma gap_lo_mono:
  assumes ok: "aspace_ok a" and ij: "i \<le> j" "j \<le> length (region_list a)"
  shows "gap_lo a i \<le> gap_lo a j"
proof (cases "i = j")
  case False
  then have j: "j - 1 < length (region_list a)" "0 < j" using ij by auto
  then have jb: "rbeg (region_list a ! (j - 1)) < rfin (region_list a ! (j - 1))"
      "as_beg a \<le> rbeg (region_list a ! (j - 1))"
    using region_bounds [OF ok] by simp_all
  show ?thesis
  proof (cases "i = 0")
    case True
    then show ?thesis using jb j by (simp add: gap_lo_def)
  next
    case i0: False
    then have "rfin (region_list a ! (i - 1)) \<le> rbeg (region_list a ! (j - 1))"
      using False ij by (intro rfin_mono [OF ok]) auto
    then show ?thesis using jb j i0 by (simp add: gap_lo_def)
  qed
qed simp

lemma gap_hi_le: "aspace_ok a \<Longrightarrow> gap_hi a i \<le> 2 ^ 64"
  using unat_less64 by (auto simp: gap_hi_def aspace_ok_def rbeg_def less_imp_le)

lemma unat_max_word: "unat (- 1 :: u64) = 2 ^ 64 - 1"
  by (simp add: unsigned_minus_1_eq_mask mask_eq_exp_minus_1)

lemma pow2_multiple_room:
  fixes n v g :: nat
  assumes "n < 64" "2 ^ n dvd v" "v < 2 ^ 64" "g \<le> v"
  shows "g + (2 ^ n - 1) < 2 ^ 64"
proof -
  have p: "(2::nat) ^ 64 = 2 ^ n * 2 ^ (64 - n)" using assms(1) by (simp flip: power_add)
  obtain k where k: "v = 2 ^ n * k" using assms(2) by blast
  have "2 ^ n * k < 2 ^ n * 2 ^ (64 - n)" using assms(3) unfolding k p .
  then have "k < 2 ^ (64 - n)" by simp
  then have "Suc k * 2 ^ n \<le> 2 ^ (64 - n) * 2 ^ n" by (intro mult_le_mono1) simp
  then have "v + 2 ^ n \<le> 2 ^ 64" using k assms(1) by (simp add: algebra_simps flip: power_add)
  moreover have "0 < (2::nat) ^ n" by simp
  ultimately show ?thesis using assms(4) by linarith
qed

text \<open>The part of \<^verbatim>\<open>check_gap\<close> after the ends of the gap are known.\<close>

lemma pick_spot_ok:
  fixes sz gb ge :: u64
  assumes n: "n < 64" and z: "2 \<le> unat sz" and g: "unat gb = g" "unat ge = h - 1" "g < h" "h \<le> 2 ^ 64"
    and nz: "h = 2 ^ 64 \<Longrightarrow> 0 < g"
  defines "pva \<equiv> ALIGN gb (shl1 n)"
  defines "res \<equiv> (if pva < gb then StopSearch (- 1) else if pva < ge \<and> ge - pva + 1 \<ge> sz then StopSearch pva else NextGap)"
  shows "if has_spot (2 ^ n) (unat sz) g h then unat pva = round_up g (2 ^ n) \<and> res = StopSearch pva
         else res = NextGap \<or> res = StopSearch (- 1) \<and> (\<forall>g' h'. g \<le> g' \<longrightarrow> h' \<le> 2 ^ 64 \<longrightarrow> \<not> has_spot (2 ^ n) (unat sz) g' h')"
proof (cases "g + (2 ^ n - 1) < 2 ^ 64")
  case True
  have A: "0 < (2::nat) ^ n" by simp
  have v: "unat pva = round_up g (2 ^ n)" using unat_ROUNDUP [OF n, of gb] True g(1) by (simp add: pva_def ALIGN_def)
  have ge: "g \<le> round_up g (2 ^ n)" by (rule round_up_ge) simp
  then have nlt: "\<not> pva < gb" using v g(1) by (simp add: word_less_nat_alt)
  have "pva < ge \<and> ge - pva + 1 \<ge> sz \<longleftrightarrow> round_up g (2 ^ n) + unat sz \<le> h"
  proof (cases "pva < ge")
    case lt: True
    then have l: "round_up g (2 ^ n) < h - 1" using v g(2) by (simp add: word_less_nat_alt)
    have "unat (ge - pva) = h - 1 - round_up g (2 ^ n)" using lt v g(2) by (simp add: unat_sub order_less_imp_le)
    moreover have "h - 1 - round_up g (2 ^ n) + 1 < 2 ^ 64" using l ge nz g(4) by linarith
    ultimately have "unat (ge - pva + 1) = h - round_up g (2 ^ n)"
      using l by (simp add: unat_word_ariths)
    then show ?thesis using lt l by (auto simp: word_le_nat_alt)
  next
    case False
    then have "h - 1 \<le> round_up g (2 ^ n)" using v g(2) by (simp add: word_less_nat_alt)
    then show ?thesis using False z by auto
  qed
  then show ?thesis using nlt v has_spot_iff [OF A] by (auto simp: res_def)
next
  case False
  have lt: "pva < gb" using ROUNDUP_wraps [OF n, of gb] False g(1) by (simp add: pva_def ALIGN_def)
  have "\<not> has_spot (2 ^ n) (unat sz) g' h'" if g': "g \<le> g'" and h': "h' \<le> 2 ^ 64" for g' h'
  proof
    assume "has_spot (2 ^ n) (unat sz) g' h'"
    then obtain v where "2 ^ n dvd v" "g' \<le> v" "v + unat sz \<le> h'" by (auto simp: has_spot_def)
    then have "g + (2 ^ n - 1) < 2 ^ 64" using g' h' z by (intro pow2_multiple_room [OF n, of v]) auto
    then show False using False by simp
  qed
  then show ?thesis using lt g(4) by (auto simp: res_def)
qed

lemma check_gap_ok:
  fixes sz :: u64 and fl :: u32
  assumes ok: "aspace_ok a" and n: "n < 64" and z: "2 \<le> unat sz" and i: "i \<le> length (region_list a)"
  defines "res \<equiv> check_gap a (prev_of a i) (next_of a i) (shl1 n) sz fl"
  shows "if has_spot (2 ^ n) (unat sz) (gap_lo a i) (gap_hi a i)
         then \<exists>v. unat v = round_up (gap_lo a i) (2 ^ n) \<and> res = StopSearch v
         else res = NextGap \<or> res = StopSearch (- 1)
           \<and> (\<forall>j > i. j \<le> length (region_list a) \<longrightarrow> \<not> has_spot (2 ^ n) (unat sz) (gap_lo a j) (gap_hi a j))"
proof -
  let ?g = "gap_lo a i" and ?h = "gap_hi a i"
  let ?gb = "case prev_of a i of Some p \<Rightarrow> rg_base p + rg_size p | None \<Rightarrow> as_base a"
  let ?hw = "case next_of a i of Some q \<Rightarrow> rg_base q | None \<Rightarrow> as_base a + as_size a"
  have gh: "?g \<le> ?h" "?h \<le> 2 ^ 64" using gap_lo_le_hi [OF ok i] gap_hi_le [OF ok] by auto
  have gb: "unat ?gb = ?g mod 2 ^ 64"
    by (auto simp: prev_of_def gap_lo_def rfin_def rbeg_def as_beg_def unat_word_ariths mod_less unat_less64 [simplified])
  have hw: "unat ?hw = ?h mod 2 ^ 64"
    by (auto simp: next_of_def gap_hi_def rbeg_def as_beg_def as_end_def unat_word_ariths unat_less64 [simplified])
  show ?thesis
  proof (cases "?g = ?h")
    case True
    then have "?gb = ?hw" using gb hw by (simp only: word_unat_eq_iff)
    then have "res = (if next_of a i = None then StopSearch (- 1) else NextGap)"
      by (auto simp: res_def check_gap_def Let_def split: option.splits)
    moreover have "\<not> has_spot (2 ^ n) (unat sz) ?g ?h" using z True by (auto simp: has_spot_def)
    moreover have "next_of a i = None \<Longrightarrow> i = length (region_list a)" using i by (auto simp: next_of_def split: if_splits)
    ultimately show ?thesis by auto
  next
    case False
    then have lt: "?g < ?h" using gh by simp
    have nz: "?h = 2 ^ 64 \<Longrightarrow> 0 < ?g"
    proof -
      assume h: "?h = 2 ^ 64"
      then have "\<not> i < length (region_list a)" using unat_less64 [of "rg_base (region_list a ! i)"]
        by (auto simp: gap_hi_def rbeg_def)
      then have "as_end a = 2 ^ 64" using h by (simp add: gap_hi_def)
      then have "0 < as_beg a" using unat_less64 [of "as_size a"] by (auto simp: as_end_def)
      moreover have "as_beg a \<le> ?g" using gap_lo_mono [OF ok _ i, of 0] by (simp add: gap_lo_def)
      ultimately show "0 < ?g" by simp
    qed
    have ug: "unat ?gb = ?g" using gb lt gh by simp
    have ne: "?gb \<noteq> ?hw"
    proof (cases "?h = 2 ^ 64")
      case True
      then have "unat ?hw = 0" using hw by simp
      then show ?thesis using ug nz True by (metis less_numeral_extra(3))
    next
      case h: False
      then have "unat ?hw = ?h" using hw gh by simp
      then show ?thesis using ug lt by (metis less_irrefl)
    qed
    have uh: "unat (?hw - 1) = ?h - 1"
    proof (cases "?h = 2 ^ 64")
      case True
      then have "?hw = 0" using hw by (simp only: word_unat_eq_iff) simp
      then show ?thesis using True unat_max_word by simp
    next
      case h: False
      then have u: "unat ?hw = ?h" using hw gh by simp
      then have "?hw \<noteq> 0" using lt by (metis gr_implies_not0 unat_0)
      then show ?thesis using u by (simp add: unat_minus_one)
    qed
    let ?pva = "ALIGN ?gb (shl1 n)"
    have "res = (if ?pva < ?gb then StopSearch (- 1)
        else if ?pva < ?hw - 1 \<and> ?hw - 1 - ?pva + 1 \<ge> sz then StopSearch ?pva else NextGap)"
      using ne by (cases "next_of a i") (simp_all add: res_def check_gap_def arch_mmu_pick_spot_def Let_def)
    then show ?thesis
      using pick_spot_ok [OF n z ug uh lt gh(2) nz] gap_lo_mono [OF ok] gap_hi_le [OF ok]
      by (simp split: if_splits) (metis less_imp_le)+
  qed
qed

section \<open>The walk over the gaps\<close>

abbreviation spot_in :: "vmm_aspace \<Rightarrow> nat \<Rightarrow> u64 \<Rightarrow> nat \<Rightarrow> bool" where
  "spot_in a n sz j \<equiv> has_spot (2 ^ n) (unat sz) (gap_lo a j) (gap_hi a j)"

text \<open>The result of a search: the first gap from number \<open>i\<close> on that has room, or none has.\<close>

definition spot_found :: "vmm_aspace \<Rightarrow> nat \<Rightarrow> u64 \<Rightarrow> nat \<Rightarrow> vaddr_t \<times> nat option \<Rightarrow> bool" where
  "spot_found a n sz i res \<longleftrightarrow>
     (\<exists>v j. res = (v, Some j) \<and> i \<le> j \<and> j \<le> length (region_list a) \<and> spot_in a n sz j
        \<and> unat v = round_up (gap_lo a j) (2 ^ n) \<and> (\<forall>k. i \<le> k \<longrightarrow> k < j \<longrightarrow> \<not> spot_in a n sz k))
   \<or> fst res = - 1 \<and> (\<forall>k. i \<le> k \<longrightarrow> k \<le> length (region_list a) \<longrightarrow> \<not> spot_in a n sz k)"

lemma spot_found_step:
  assumes ok: "aspace_ok a" and n: "n < 64" and z: "2 \<le> unat sz" and i: "i \<le> length (region_list a)"
    and next_ok: "spot_found a n sz (i + 1) res"
  shows "spot_found a n sz i (case check_gap a (prev_of a i) (next_of a i) (shl1 n) sz fl of
      StopSearch v \<Rightarrow> (v, Some i) | NextGap \<Rightarrow> res)"
proof (cases "spot_in a n sz i")
  case True
  then show ?thesis using check_gap_ok [OF ok n z i, of fl] i by (auto simp: spot_found_def)
next
  case False
  have later: "i + 1 \<le> k" if "i \<le> k" "spot_in a n sz k" for k
    using that False by (cases "k = i") auto
  have skip: "spot_found a n sz i res"
  proof (cases "\<forall>k. i + 1 \<le> k \<longrightarrow> k \<le> length (region_list a) \<longrightarrow> \<not> spot_in a n sz k")
    case True
    then have "fst res = - 1" using next_ok by (auto simp: spot_found_def)
    then show ?thesis using True later by (auto simp: spot_found_def)
  next
    case False
    then obtain v j where j: "res = (v, Some j)" "i + 1 \<le> j" "j \<le> length (region_list a)" "spot_in a n sz j"
      "unat v = round_up (gap_lo a j) (2 ^ n)" "\<forall>k. i + 1 \<le> k \<longrightarrow> k < j \<longrightarrow> \<not> spot_in a n sz k"
      using next_ok by (auto simp: spot_found_def)
    have "\<forall>k. i \<le> k \<longrightarrow> k < j \<longrightarrow> \<not> spot_in a n sz k" using j(6) later by blast
    then show ?thesis using j(1-5) by (auto simp: spot_found_def)
  qed
  have stop: "spot_found a n sz i (- 1, Some i)"
    if "\<forall>j > i. j \<le> length (region_list a) \<longrightarrow> \<not> spot_in a n sz j"
    using that later unfolding spot_found_def by (metis Suc_eq_plus1 Suc_le_lessD fst_conv)
  show ?thesis
    using check_gap_ok [OF ok n z i, of fl] False skip stop unfolding if_not_P [OF False] by auto
qed

lemma spot_walk_ok:
  assumes "aspace_ok a" "n < 64" "2 \<le> unat sz" "i \<le> length (region_list a)" "rs = drop i (region_list a)"
  shows "spot_found a n sz (i + 1) (spot_walk a (shl1 n) sz fl i rs)"
  using assms(4,5)
proof (induction rs arbitrary: i)
  case Nil
  then show ?case by (auto simp: spot_found_def)
next
  case (Cons r rest)
  have lt: "i < length (region_list a)"
  proof (rule ccontr)
    assume "\<not> i < length (region_list a)"
    then show False using Cons.prems(2) by simp
  qed
  then have i: "r = region_list a ! i" "rest = drop (i + 1) (region_list a)"
    using Cons.prems(2) unfolding Cons_nth_drop_Suc [OF lt, symmetric] by auto
  have "list_head rest = next_of a (i + 1)"
    using i(2) Cons_nth_drop_Suc [of "i + 1" "region_list a"] by (auto simp: list_head_def next_of_def split: list.splits)
  moreover have "prev_of a (i + 1) = Some r" using i by (simp add: prev_of_def)
  moreover have "spot_found a n sz (i + 1 + 1) (spot_walk a (shl1 n) sz fl (i + 1) rest)"
    using Cons.IH [of "i + 1"] i lt by simp
  ultimately show ?case using spot_found_step [OF assms(1-3), of "i + 1"] lt by (simp split: gap_result.splits)
qed

lemma alloc_spot_ok:
  assumes ok: "aspace_ok a" and z: "sz \<noteq> 0" "4096 dvd unat sz" and al: "unat al < 64"
  shows "\<exists>res. alloc_spot a sz al fl = Some res \<and> spot_found a (max 12 (unat al)) sz 0 res"
proof -
  define n where "n = max 12 (unat al)"
  have n: "n < 64" using al by (simp add: n_def)
  have z2: "2 \<le> unat sz" using z dvd_imp_le [of 4096 "unat sz"] by (simp add: unat_gt_0)
  have "prev_of a 0 = None" "next_of a 0 = list_head (region_list a)"
    by (auto simp: prev_of_def next_of_def list_head_def split: list.splits)
  moreover have "spot_found a n sz (0 + 1) (spot_walk a (shl1 n) sz fl 0 (region_list a))"
    by (rule spot_walk_ok [OF ok n z2]) simp_all
  ultimately have "spot_found a n sz 0 (case check_gap a None (list_head (region_list a)) (shl1 n) sz fl of
      StopSearch v \<Rightarrow> (v, Some 0) | NextGap \<Rightarrow> spot_walk a (shl1 n) sz fl 0 (region_list a))"
    using spot_found_step [OF ok n z2, of 0] by simp
  moreover have "sz > 0 \<and> IS_PAGE_ALIGNED sz"
    using z IS_ALIGNED_iff [of sz 12] word_neq_0_conv by (auto simp: IS_PAGE_ALIGNED_def PAGE_SIZE_def PAGE_SIZE_SHIFT_def)
  moreover have "(if unat al < PAGE_SIZE_SHIFT then PAGE_SIZE_SHIFT else unat al) = n"
    by (simp add: n_def PAGE_SIZE_SHIFT_def)
  ultimately show ?thesis using n unfolding n_def [symmetric] alloc_spot_def
    by (intro exI conjI) (auto simp: Let_def split: gap_result.splits)
qed

section \<open>Gaps and free ranges\<close>

lemma gap_between:
  assumes ok: "aspace_ok a" and i: "i \<le> length (region_list a)" "gap_lo a i \<le> rbeg r" "rfin r \<le> gap_hi a i"
  shows "between (region_list a) r i"
proof -
  have "rbefore q r" if q: "q \<in> set (take i (region_list a))" for q
  proof -
    obtain k where k: "k < i" "q = region_list a ! k" "k < length (region_list a)"
      using q by (auto simp: in_set_conv_nth)
    then have "rfin q \<le> gap_lo a (Suc k)" "gap_lo a (Suc k) \<le> gap_lo a i"
      using gap_lo_mono [OF ok, of "Suc k" i] i(1) by (auto simp: gap_lo_def)
    then show ?thesis using i(2) by (simp add: rbefore_def)
  qed
  moreover have "rbefore r q" if q: "q \<in> set (drop i (region_list a))" for q
  proof -
    obtain m where m: "m < length (region_list a) - i" "q = region_list a ! (i + m)"
      using q by (auto simp: in_set_conv_nth)
    then have "i + m < length (region_list a)" by simp
    then have "gap_hi a i \<le> rbeg q"
      using m(2) rfin_mono [OF ok, of i "i + m"] region_bounds(1) [OF ok, of "region_list a ! i"]
      by (cases "m = 0") (auto simp: gap_hi_def)
    then show ?thesis using i(3) by (simp add: rbefore_def)
  qed
  ultimately show ?thesis using i(1) by (simp add: between_def)
qed

lemma free_range_gap:
  fixes sz :: u64
  assumes ok: "aspace_ok a" and fr: "free_range a v (unat sz)" and z: "sz \<noteq> 0"
  shows "\<exists>i \<le> length (region_list a). gap_lo a i \<le> v \<and> v + unat sz \<le> gap_hi a i"
proof -
  have "v + unat sz \<le> 2 ^ 64" using ok fr by (auto simp: free_range_def aspace_ok_def)
  moreover have "0 < unat sz" using z by (simp add: unat_gt_0)
  ultimately have "v < 2 ^ 64" by linarith
  then have v: "unat (of_nat v :: u64) = v" by (simp add: take_bit_nat_eq_self unsigned_of_nat)
  define r where "r = \<lparr>rg_name = '''', rg_flags = 0, rg_arch_mmu_flags = 0, rg_base = of_nat v, rg_size = sz, rg_page_list = []\<rparr>"
  have r: "rbeg r = v" "rfin r = v + unat sz" "rg_size r = sz" by (simp_all add: r_def rbeg_def rfin_def v)
  obtain k where k: "between (region_list a) r k" using free_range_between [OF ok, of r] fr r by auto
  have "gap_lo a k \<le> v"
  proof (cases k)
    case (Suc m)
    then have "region_list a ! m \<in> set (take k (region_list a))"
      using k by (auto simp: between_def in_set_conv_nth intro!: exI [of _ m])
    then show ?thesis using k r Suc by (auto simp: between_def gap_lo_def rbefore_def)
  qed (use fr in \<open>simp add: gap_lo_def free_range_def\<close>)
  moreover have "v + unat sz \<le> gap_hi a k"
  proof (cases "k < length (region_list a)")
    case True
    then have "region_list a ! k \<in> set (drop k (region_list a))" by (metis Cons_nth_drop_Suc list.set_intros(1))
    then show ?thesis using k r True by (auto simp: between_def gap_hi_def rbefore_def)
  qed (use fr in \<open>simp add: gap_hi_def free_range_def\<close>)
  ultimately show ?thesis using k by (auto simp: between_def)
qed

section \<open>Allocating a region\<close>

text \<open>What a region returned by \<^verbatim>\<open>alloc_region\<close> looks like, and where it is linked in.\<close>

definition region_made :: "vmm_aspace \<Rightarrow> string \<Rightarrow> u64 \<Rightarrow> u32 \<Rightarrow> u32 \<Rightarrow> nat \<Rightarrow> vmm_aspace \<Rightarrow> vmm_region \<Rightarrow> bool" where
  "region_made a name sz rflags mflags i a' r \<longleftrightarrow> a' = link_region i r a \<and> region_ok a r \<and> between (region_list a) r i
     \<and> rg_size r = sz \<and> rg_name r = take 31 name \<and> rg_flags r = rflags \<and> rg_arch_mmu_flags r = mflags \<and> rg_page_list r = []"

lemma linked_at: "between (region_list a) r i \<Longrightarrow> region_list (link_region i r a) ! i = r"
  by (simp add: link_region_def between_def nth_append min_def)

lemma spot_region:
  assumes ok: "aspace_ok a" and z: "rg_size r = sz" "sz \<noteq> 0" "4096 dvd unat sz" and n: "12 \<le> n"
    and j: "j \<le> length (region_list a)" "spot_in a n sz j" "rbeg r = round_up (gap_lo a j) (2 ^ n)"
    and first: "\<forall>k < j. \<not> spot_in a n sz k"
  shows "region_ok a r \<and> between (region_list a) r j \<and> 2 ^ n dvd rbeg r
    \<and> (\<forall>v < rbeg r. 2 ^ n dvd v \<longrightarrow> \<not> free_range a v (unat sz))"
proof -
  have A: "0 < (2::nat) ^ n" by simp
  have r: "gap_lo a j \<le> rbeg r" "rfin r \<le> gap_hi a j"
    using j z(1) round_up_ge [OF A] has_spot_iff [OF A] by (auto simp: rfin_def)
  then have bt: "between (region_list a) r j" by (rule gap_between [OF ok j(1)])
  have d: "2 ^ n dvd rbeg r" using j(3) round_up_dvd by simp
  have "(4096::nat) = 2 ^ 12" by simp
  then have d4: "4096 dvd rbeg r" using d n by (metis dvd_trans le_imp_power_dvd)
  have "gap_lo a 0 \<le> gap_lo a j" by (rule gap_lo_mono [OF ok]) (use j in auto)
  then have "as_beg a \<le> rbeg r" using r(1) by (simp add: gap_lo_def)
  moreover have "gap_hi a j \<le> as_end a"
  proof (cases "j < length (region_list a)")
    case True
    then show ?thesis using region_bounds(1,2) [OF ok, of "region_list a ! j"] by (simp add: gap_hi_def)
  qed (simp add: gap_hi_def)
  then have "rfin r \<le> as_end a" using r(2) by simp
  ultimately have rok: "region_ok a r" using d4 z by (simp add: region_ok_def)
  have "\<not> free_range a v (unat sz)" if v: "v < rbeg r" "2 ^ n dvd v" for v
  proof
    assume "free_range a v (unat sz)"
    then obtain i where i: "i \<le> length (region_list a)" "gap_lo a i \<le> v" "v + unat sz \<le> gap_hi a i"
      using free_range_gap [OF ok] z(2) by blast
    then have "spot_in a n sz i" using v(2) by (auto simp: has_spot_def)
    then have "j \<le> i" using first not_less by blast
    then have "gap_lo a j \<le> v" using gap_lo_mono [OF ok _ i(1)] i(2) by (meson le_trans)
    then have "rbeg r \<le> v" using j(3) round_up_least [OF A v(2)] by simp
    then show False using v(1) by simp
  qed
  then show ?thesis using rok bt d by blast
qed

lemma no_spot_no_range:
  assumes ok: "aspace_ok a" and z: "sz \<noteq> 0" and none: "\<forall>k \<le> length (region_list a). \<not> spot_in a n sz k" and v: "2 ^ n dvd v"
  shows "\<not> free_range a v (unat sz)"
  using free_range_gap [OF ok _ z, of v] none v by (auto simp: has_spot_def)

lemma page_multiple_not_max: "4096 dvd unat w \<Longrightarrow> w \<noteq> - 1" for w :: u64
  using unat_max_word by auto

lemma alloc_region_ok:
  fixes vf :: u32 and al :: u8 and vaddr sz :: u64
  defines "specific \<equiv> vf AND VMM_FLAG_VALLOC_SPECIFIC \<noteq> 0" and "A \<equiv> (2::nat) ^ max 12 (unat al)"
  assumes ok: "aspace_ok a" and z: "sz \<noteq> 0" "4096 dvd unat sz"
    and al: "if specific then 4096 dvd unat vaddr else unat al < 64"
  shows "\<exists>res. alloc_region mem a name sz vaddr al vf rf af = Some res \<and>
    (case res of
       None \<Rightarrow> \<not> mem \<or> (if specific then \<not> free_range a (unat vaddr) (unat sz)
                          else \<forall>v. A dvd v \<longrightarrow> \<not> free_range a v (unat sz))
     | Some (i, a') \<Rightarrow> mem \<and> (\<exists>r. region_made a name sz rf af i a' r
         \<and> (if specific then rg_base r = vaddr
            else A dvd rbeg r \<and> (\<forall>v < rbeg r. A dvd v \<longrightarrow> \<not> free_range a v (unat sz)))))"
proof (cases mem)
  case False
  then show ?thesis by (simp add: alloc_region_def alloc_region_struct_def)
next
  case mem: True
  define r where "r = \<lparr>rg_name = strlcpy32 name, rg_flags = rf, rg_arch_mmu_flags = af, rg_base = vaddr, rg_size = sz, rg_page_list = []\<rparr>"
  have r: "alloc_region_struct mem name vaddr sz rf af = Some r" "rg_size r = sz" "rbeg r = unat vaddr" "rg_base r = vaddr"
    using mem by (simp_all add: r_def alloc_region_struct_def rbeg_def)
  have made: "region_made a name sz rf af i (link_region i q a) q"
    if "region_ok a q" "between (region_list a) q i" "q = r\<lparr>rg_base := v\<rparr>" for i q v
    using that by (simp add: region_made_def r_def strlcpy32_def)
  show ?thesis
  proof (cases specific)
    case True
    have "r = r\<lparr>rg_base := vaddr\<rparr>" using r(4) by simp
    then show ?thesis using add_region_ok [OF ok, of r] al z r True made [of r _ vaddr] mem
      unfolding alloc_region_def specific_def by (auto split: sum.splits)
  next
    case False
    define n where "n = max 12 (unat al)"
    have An: "A = 2 ^ n" "12 \<le> n" by (simp_all add: A_def n_def)
    obtain v p where sp: "alloc_spot a sz al af = Some (v, p)" "spot_found a n sz 0 (v, p)"
      using alloc_spot_ok [OF ok z, of al af] al False by (auto simp: n_def)
    show ?thesis
    proof (cases "\<forall>k \<le> length (region_list a). \<not> spot_in a n sz k")
      case True
      then have "v = - 1" using sp(2) by (auto simp: spot_found_def)
      then show ?thesis using sp(1) r(1) False no_spot_no_range [OF ok z(1) True] mem An
        unfolding alloc_region_def specific_def by auto
    next
      case some: False
      then obtain j where j: "p = Some j" "j \<le> length (region_list a)" "spot_in a n sz j"
        "unat v = round_up (gap_lo a j) (2 ^ n)" "\<forall>k < j. \<not> spot_in a n sz k"
        using sp(2) by (auto simp: spot_found_def)
      let ?q = "r\<lparr>rg_base := v\<rparr>"
      have q: "region_ok a ?q \<and> between (region_list a) ?q j \<and> 2 ^ n dvd rbeg ?q
          \<and> (\<forall>v < rbeg ?q. 2 ^ n dvd v \<longrightarrow> \<not> free_range a v (unat sz))"
        by (rule spot_region [OF ok _ z An(2) j(2,3) _ j(5)]) (use j r in \<open>simp_all add: rbeg_def\<close>)
      then have "v \<noteq> - 1" by (intro page_multiple_not_max) (simp add: region_ok_def rbeg_def)
      then show ?thesis using sp(1) r(1) False q j(1) made [of ?q] mem An
        unfolding alloc_region_def specific_def by auto
    qed
  qed
qed

end
