(* ===== verification/Pmm_Inv.thy ===== *)
theory Pmm_Inv
  imports Kernel_Pmm LK_System
begin

text \<open>
  The invariant of the physical memory manager, and that taking one page off a free list and
  giving one back keep it. Every operation is a sequence of these two.
\<close>

section \<open>Pages of an arena\<close>

definition npages :: "pmm_arena \<Rightarrow> nat" where
  "npages a = unat (ar_size a) div 4096"

abbreviation pptr :: "pmm_arena \<Rightarrow> nat \<Rightarrow> page_ptr" where
  "pptr a i \<equiv> page_at a (of_nat i)"

text \<open>
  What a platform must respect when it describes an arena: whole pages, inside the address
  space, and fewer than 2^31 of them (8 TB), so that page numbers fit the 32-bit counters.
\<close>

definition arena_ok :: "pmm_arena \<Rightarrow> bool" where
  "arena_ok a \<longleftrightarrow> 4096 dvd unat (ar_base a) \<and> 4096 dvd unat (ar_size a) \<and> 0 < unat (ar_size a)
     \<and> unat (ar_base a) + unat (ar_size a) \<le> 2 ^ 64
     \<and> unat (ar_page_array a) + npages a * 24 < 2 ^ 64 \<and> npages a < 2 ^ 31"

definition arena_pages :: "pmm_arena \<Rightarrow> page_ptr set" where
  "arena_pages a = pptr a ` {..<npages a}"

text \<open>Different arenas have different memory and different page descriptors.\<close>

definition apart :: "pmm_arena \<Rightarrow> pmm_arena \<Rightarrow> bool" where
  "apart a b \<longleftrightarrow>
     (unat (ar_base a) + unat (ar_size a) \<le> unat (ar_base b) \<or> unat (ar_base b) + unat (ar_size b) \<le> unat (ar_base a))
     \<and> (unat (ar_page_array a) + npages a * 24 \<le> unat (ar_page_array b)
        \<or> unat (ar_page_array b) + npages b * 24 \<le> unat (ar_page_array a))"

lemma unat_PAGE_SIZE: "unat PAGE_SIZE = 4096"
  by (simp add: PAGE_SIZE_def PAGE_SIZE_SHIFT_def unat_shl1)

lemma unat_div_page: "unat (ar_size a div PAGE_SIZE) = npages a"
  by (simp add: npages_def unat_div_distrib unat_PAGE_SIZE)

lemma npages_update [simp]:
  "npages (a\<lparr>ar_free_list := fl\<rparr>) = npages a" "npages (a\<lparr>ar_free_count := fc\<rparr>) = npages a"
  by (simp_all add: npages_def)

lemma page_at_update [simp]:
  "page_at (a\<lparr>ar_free_list := fl\<rparr>) i = page_at a i" "page_at (a\<lparr>ar_free_count := fc\<rparr>) i = page_at a i"
  by (simp_all add: page_at_def)

lemma arena_ok_update [simp]:
  "arena_ok (a\<lparr>ar_free_list := fl\<rparr>) = arena_ok a" "arena_ok (a\<lparr>ar_free_count := fc\<rparr>) = arena_ok a"
  by (simp_all add: arena_ok_def)

lemma apart_update [simp]:
  "apart (a\<lparr>ar_free_list := fl\<rparr>) b = apart a b" "apart (a\<lparr>ar_free_count := fc\<rparr>) b = apart a b"
  "apart b (a\<lparr>ar_free_list := fl\<rparr>) = apart b a" "apart b (a\<lparr>ar_free_count := fc\<rparr>) = apart b a"
  by (simp_all add: apart_def)

lemma arena_pages_update [simp]:
  "arena_pages (a\<lparr>ar_free_list := fl\<rparr>) = arena_pages a" "arena_pages (a\<lparr>ar_free_count := fc\<rparr>) = arena_pages a"
  by (simp_all add: arena_pages_def)

lemma apart_sym: "apart a b \<longleftrightarrow> apart b a"
  by (auto simp: apart_def)

lemma unat_pptr:
  assumes "arena_ok a" "i < npages a"
  shows "unat (pptr a i) = unat (ar_page_array a) + i * 24"
proof -
  define b where "b = unat (ar_page_array a)"
  have lt: "b + i * 24 < 2 ^ 64"
    using assms by (auto simp: arena_ok_def b_def intro: le_less_trans [of _ "unat (ar_page_array a) + npages a * 24"])
  then have "unat (of_nat i :: u64) = i" by (simp add: unat_of_nat)
  then have "unat (of_nat i * sizeof_vm_page) = i * 24"
    using lt by (simp add: unat_word_ariths sizeof_vm_page_def)
  then show ?thesis using lt by (simp add: page_at_def unat_word_ariths b_def)
qed

lemma pptr_inj: "arena_ok a \<Longrightarrow> i < npages a \<Longrightarrow> j < npages a \<Longrightarrow> pptr a i = pptr a j \<longleftrightarrow> i = j"
  by (auto dest!: arg_cong [of _ _ unat] simp: unat_pptr simp del: unsigned_of_nat)

lemma belongs_iff:
  assumes "arena_ok a"
  shows "PAGE_BELONGS_TO_ARENA p a \<longleftrightarrow>
    unat (ar_page_array a) \<le> unat p \<and> unat p < unat (ar_page_array a) + npages a * 24"
proof -
  define b where "b = unat (ar_page_array a)"
  have lt: "b + npages a * 24 < 2 ^ 64" using assms by (simp add: arena_ok_def b_def)
  have "unat (ar_size a div PAGE_SIZE * sizeof_vm_page) = npages a * 24"
    using lt unat_div_page [of a] by (simp add: unat_mult_lem [THEN iffD1] sizeof_vm_page_def)
  then have "unat (ar_page_array a + ar_size a div PAGE_SIZE * sizeof_vm_page) = b + npages a * 24"
    using lt by (simp add: unat_word_ariths b_def)
  then show ?thesis
    by (simp add: PAGE_BELONGS_TO_ARENA_def word_le_nat_alt word_less_nat_alt b_def)
qed

lemma belongs_pptr: "arena_ok a \<Longrightarrow> i < npages a \<Longrightarrow> PAGE_BELONGS_TO_ARENA (pptr a i) a"
  by (simp add: belongs_iff unat_pptr)

lemma belongs_apart: "arena_ok a \<Longrightarrow> arena_ok b \<Longrightarrow> apart a b \<Longrightarrow> p \<in> arena_pages a \<Longrightarrow> \<not> PAGE_BELONGS_TO_ARENA p b"
  by (auto simp: arena_pages_def belongs_iff unat_pptr apart_def)

lemma arena_pages_disjoint: "arena_ok a \<Longrightarrow> arena_ok b \<Longrightarrow> apart a b \<Longrightarrow> arena_pages a \<inter> arena_pages b = {}"
  by (auto simp: arena_pages_def dest: belongs_apart [unfolded arena_pages_def] simp: belongs_pptr)

section \<open>The invariant\<close>

lemma page_is_free_iff: "page_is_free pg \<longleftrightarrow> pg_flags pg AND VM_PAGE_FLAG_NONFREE = 0"
  by (simp add: page_is_free_def)

lemma set_nonfree_free [simp]: "page_is_free (set_nonfree p pg q) \<longleftrightarrow> q \<noteq> p \<and> page_is_free (pg q)"
proof -
  have "(pg_flags (pg p) OR VM_PAGE_FLAG_NONFREE) AND VM_PAGE_FLAG_NONFREE = VM_PAGE_FLAG_NONFREE"
    by (rule bit_word_eqI) (auto simp: bit_simps)
  moreover have "VM_PAGE_FLAG_NONFREE \<noteq> 0" by (simp add: lk_defs)
  ultimately show ?thesis by (auto simp: page_is_free_iff set_nonfree_def)
qed

lemma clear_nonfree_free [simp]: "page_is_free (clear_nonfree p pg q) \<longleftrightarrow> q = p \<or> page_is_free (pg q)"
proof -
  have "(pg_flags (pg p) AND NOT VM_PAGE_FLAG_NONFREE) AND VM_PAGE_FLAG_NONFREE = 0"
    by (rule bit_word_eqI) (auto simp: bit_simps)
  then show ?thesis by (auto simp: page_is_free_iff clear_nonfree_def)
qed

text \<open>The free list of an arena holds its pages that are not marked allocated, each once.\<close>

definition free_inv :: "(page_ptr \<Rightarrow> vm_page) \<Rightarrow> pmm_arena \<Rightarrow> bool" where
  "free_inv pg a \<longleftrightarrow> distinct (ar_free_list a)
     \<and> set (ar_free_list a) = {p \<in> arena_pages a. page_is_free (pg p)}
     \<and> ar_free_count a = of_nat (length (ar_free_list a))"

definition arenas_inv :: "pmm_arena list \<Rightarrow> (page_ptr \<Rightarrow> vm_page) \<Rightarrow> bool" where
  "arenas_inv as pg \<longleftrightarrow> (\<forall>a \<in> set as. arena_ok a \<and> free_inv pg a) \<and> sorted_wrt apart as
     \<and> sorted_wrt (\<lambda>a b. ar_priority a \<le> ar_priority b) as"

text \<open>The pages that are marked allocated.\<close>

definition nonfree :: "pmm_arena list \<Rightarrow> (page_ptr \<Rightarrow> vm_page) \<Rightarrow> page_ptr set" where
  "nonfree as pg = {p. (\<exists>a \<in> set as. p \<in> arena_pages a) \<and> \<not> page_is_free (pg p)}"

text \<open>What an operation may not change of an arena.\<close>

definition ar_static :: "pmm_arena \<Rightarrow> pmm_arena" where
  "ar_static a = a\<lparr>ar_free_list := [], ar_free_count := 0\<rparr>"

lemma ar_static_update [simp]:
  "ar_static (a\<lparr>ar_free_list := fl, ar_free_count := fc\<rparr>) = ar_static a"
  by (simp add: ar_static_def)

lemma ar_static_eqD:
  assumes "ar_static a = ar_static b"
  shows "ar_base a = ar_base b" "ar_size a = ar_size b" "ar_flags a = ar_flags b"
    "ar_priority a = ar_priority b" "ar_page_array a = ar_page_array b" "ar_name a = ar_name b"
proof -
  have "a\<lparr>ar_free_list := [], ar_free_count := 0\<rparr> = b\<lparr>ar_free_list := [], ar_free_count := 0\<rparr>"
    using assms by (simp add: ar_static_def)
  then show "ar_base a = ar_base b" "ar_size a = ar_size b" "ar_flags a = ar_flags b"
    "ar_priority a = ar_priority b" "ar_page_array a = ar_page_array b" "ar_name a = ar_name b"
    by (cases a, cases b, simp)+
qed

lemma free_inv_other:
  assumes "free_inv pg b" "arena_ok a" "arena_ok b" "apart a b" "p \<in> arena_pages a"
  shows "free_inv (set_nonfree p pg) b" "free_inv (clear_nonfree p pg) b"
proof -
  have "p \<notin> arena_pages b" using assms arena_pages_disjoint by blast
  then show "free_inv (set_nonfree p pg) b" "free_inv (clear_nonfree p pg) b"
    using assms(1) by (auto simp: free_inv_def)
qed

lemma arenas_inv_mid:
  assumes "arenas_inv (xs @ a # ys) pg"
  shows "arena_ok a" "free_inv pg a" "b \<in> set (xs @ ys) \<Longrightarrow> arena_ok b \<and> free_inv pg b \<and> apart a b"
  using assms apart_sym [of a b] by (auto simp: arenas_inv_def sorted_wrt_append)

lemma arenas_inv_replace:
  assumes inv: "arenas_inv (xs @ a # ys) pg" and st: "a' = a\<lparr>ar_free_list := fl, ar_free_count := fc\<rparr>"
    and other: "\<And>b. b \<in> set (xs @ ys) \<Longrightarrow> free_inv pg' b" and fi: "free_inv pg' a'"
  shows "arenas_inv (xs @ a' # ys) pg'"
  using assms unfolding arenas_inv_def by (auto simp: sorted_wrt_append)

lemma nonfree_mid: "nonfree (xs @ a # ys) pg =
    {p. (p \<in> arena_pages a \<or> (\<exists>b \<in> set (xs @ ys). p \<in> arena_pages b)) \<and> \<not> page_is_free (pg p)}"
  by (auto simp: nonfree_def)

section \<open>Taking one page, giving one back\<close>

text \<open>\<open>ps\<close> were free before, are allocated now, and nothing else has changed.\<close>

definition took :: "pmm_arena list \<Rightarrow> (page_ptr \<Rightarrow> vm_page) \<Rightarrow> page_ptr list \<Rightarrow>
    pmm_arena list \<Rightarrow> (page_ptr \<Rightarrow> vm_page) \<Rightarrow> bool" where
  "took as pg ps as' pg' \<longleftrightarrow> arenas_inv as' pg' \<and> nonfree as' pg' = nonfree as pg \<union> set ps
     \<and> distinct ps \<and> set ps \<inter> nonfree as pg = {} \<and> map ar_static as' = map ar_static as"

lemma took_refl: "arenas_inv as pg \<Longrightarrow> took as pg [] as pg"
  by (simp add: took_def)

lemma took_trans: "took as pg ps bs pg' \<Longrightarrow> took bs pg' qs cs pg'' \<Longrightarrow> took as pg (ps @ qs) cs pg''"
  by (auto simp: took_def)

lemma take_one:
  assumes inv: "arenas_inv (xs @ a # ys) pg" and p: "p \<in> set (ar_free_list a)"
  shows "took (xs @ a # ys) pg [p]
     (xs @ a\<lparr>ar_free_list := remove1 p (ar_free_list a), ar_free_count := ar_free_count a - 1\<rparr> # ys) (set_nonfree p pg)"
proof -
  note mid = arenas_inv_mid [OF inv]
  have pa: "p \<in> arena_pages a" "page_is_free (pg p)" "distinct (ar_free_list a)"
    using mid(2) p by (auto simp: free_inv_def)
  have cnt: "of_nat (length (ar_free_list a) - 1) = (of_nat (length (ar_free_list a)) - 1 :: u64)"
    using p by (cases "ar_free_list a") auto
  let ?a = "a\<lparr>ar_free_list := remove1 p (ar_free_list a), ar_free_count := ar_free_count a - 1\<rparr>"
  have fi: "free_inv (set_nonfree p pg) ?a"
    using mid(2) p pa cnt by (auto simp: free_inv_def length_remove1)
  have "arenas_inv (xs @ ?a # ys) (set_nonfree p pg)"
    by (rule arenas_inv_replace [OF inv _ _ fi])
      (use mid free_inv_other(1) [OF _ mid(1)] pa in auto)
  moreover have "nonfree (xs @ ?a # ys) (set_nonfree p pg) = nonfree (xs @ a # ys) pg \<union> {p}"
    using pa by (auto simp: nonfree_mid)
  ultimately show ?thesis using pa by (auto simp: took_def nonfree_def)
qed

lemma give_one:
  assumes inv: "arenas_inv (xs @ a # ys) pg" and p: "p \<in> arena_pages a" "\<not> page_is_free (pg p)"
  shows "arenas_inv (xs @ a\<lparr>ar_free_list := p # ar_free_list a, ar_free_count := ar_free_count a + 1\<rparr> # ys) (clear_nonfree p pg)"
    and "nonfree (xs @ a\<lparr>ar_free_list := p # ar_free_list a, ar_free_count := ar_free_count a + 1\<rparr> # ys) (clear_nonfree p pg)
       = nonfree (xs @ a # ys) pg - {p}"
proof -
  note mid = arenas_inv_mid [OF inv]
  let ?a = "a\<lparr>ar_free_list := p # ar_free_list a, ar_free_count := ar_free_count a + 1\<rparr>"
  have fi: "free_inv (clear_nonfree p pg) ?a" using mid(2) p by (auto simp: free_inv_def)
  show "arenas_inv (xs @ ?a # ys) (clear_nonfree p pg)"
    by (rule arenas_inv_replace [OF inv _ _ fi])
      (use mid free_inv_other(2) [OF _ mid(1)] p in auto)
  show "nonfree (xs @ ?a # ys) (clear_nonfree p pg) = nonfree (xs @ a # ys) pg - {p}"
    using p by (auto simp: nonfree_mid)
qed

end
