(* ===== verification/Pmm_Ops.thy ===== *)
theory Pmm_Ops
  imports Pmm_Inv
begin

text \<open>
  What each operation of the physical memory manager does: which pages it takes, that it keeps
  the invariant, and that it reaches no assertion.
\<close>

definition pmm_inv :: "pmm_state \<Rightarrow> bool" where
  "pmm_inv s \<longleftrightarrow> arenas_inv (arena_list s) (pages s)
     \<and> (\<forall>a \<in> set (arena_list s). unat (ar_page_array a) + npages a * 24 \<le> unat (boot_alloc_end s))"

text \<open>The pages some client holds.\<close>

definition held :: "pmm_state \<Rightarrow> page_ptr set" where
  "held s = nonfree (arena_list s) (pages s)"

text \<open>\<open>s'\<close> is \<open>s\<close> with the free pages \<open>ps\<close> handed out.\<close>

definition handed_out :: "page_ptr list \<Rightarrow> pmm_state \<Rightarrow> pmm_state \<Rightarrow> bool" where
  "handed_out ps s s' \<longleftrightarrow> pmm_inv s' \<and> held s' = held s \<union> set ps \<and> distinct ps \<and> set ps \<inter> held s = {}
     \<and> map ar_static (arena_list s') = map ar_static (arena_list s)"

lemma static_bound:
  assumes "map ar_static as' = map ar_static as" "\<forall>a \<in> set as. unat (ar_page_array a) + npages a * 24 \<le> e"
  shows "\<forall>a \<in> set as'. unat (ar_page_array a) + npages a * 24 \<le> e"
proof
  fix a assume "a \<in> set as'"
  then obtain b where b: "b \<in> set as" "ar_static a = ar_static b"
    using assms(1) by (metis (no_types, lifting) ex_map_conv list.set_map image_iff)
  then show "unat (ar_page_array a) + npages a * 24 \<le> e"
    using assms(2) ar_static_eqD [OF b(2)] by (auto simp: npages_def)
qed

lemma took_handed_out:
  assumes "pmm_inv s" "took (arena_list s) (pages s) ps as pg"
  shows "handed_out ps s (s\<lparr>arena_list := as, pages := pg\<rparr>)"
  using assms static_bound [of as "arena_list s"]
  by (auto simp: handed_out_def pmm_inv_def took_def held_def)

lemma handed_out_refl: "pmm_inv s \<Longrightarrow> handed_out [] s s"
  by (simp add: handed_out_def)

section \<open>Single pages\<close>

lemma alloc_from_arena_ok:
  assumes "arenas_inv (xs @ a\<lparr>ar_free_list := fl, ar_free_count := fc\<rparr> # ys) pg" "allocated \<le> count"
    and "alloc_from_arena count allocated a fl fc pg lst = (out, al', a', pg', lst')"
  shows "\<exists>ps. took (xs @ a\<lparr>ar_free_list := fl, ar_free_count := fc\<rparr> # ys) pg ps (xs @ a' # ys) pg' \<and> lst' = lst @ ps
     \<and> unat al' = unat allocated + length ps \<and> length ps = min (unat count - unat allocated) (length fl)
     \<and> (out \<longleftrightarrow> al' < count) \<and> al' \<le> count"
  using assms
proof (induction fl arbitrary: fc pg allocated lst)
  case Nil
  then show ?case by (auto intro: took_refl)
next
  case (Cons p fl)
  let ?b = "a\<lparr>ar_free_list := p # fl, ar_free_count := fc\<rparr>"
  show ?case
  proof (cases "allocated < count")
    case False
    then have "a' = ?b" "pg' = pg" "lst' = lst" "al' = allocated" "\<not> out" using Cons.prems by auto
    then show ?thesis using False Cons.prems(1,2)
      by (intro exI [of _ "[]"]) (auto simp: took_refl word_less_nat_alt word_le_nat_alt)
  next
    case True
    have one: "took (xs @ ?b # ys) pg [p] (xs @ a\<lparr>ar_free_list := fl, ar_free_count := fc - 1\<rparr> # ys) (set_nonfree p pg)"
      using take_one [OF Cons.prems(1), of p] by simp
    have u: "unat (allocated + 1) = unat allocated + 1" "allocated + 1 \<le> count"
      using True by unat_arith+
    from Cons.IH [OF _ u(2), of "fc - 1" "set_nonfree p pg" "lst @ [p]"] one Cons.prems(3) True
    obtain ps where ps: "took (xs @ a\<lparr>ar_free_list := fl, ar_free_count := fc - 1\<rparr> # ys) (set_nonfree p pg) ps (xs @ a' # ys) pg'"
      "lst' = (lst @ [p]) @ ps" "unat al' = unat (allocated + 1) + length ps"
      "length ps = min (unat count - unat (allocated + 1)) (length fl)" "out \<longleftrightarrow> al' < count" "al' \<le> count"
      by (auto simp: took_def)
    have lt: "unat allocated < unat count" using True by (simp add: word_less_nat_alt)
    show ?thesis using took_trans [OF one ps(1)] ps u lt by (intro exI [of _ "p # ps"]) auto
  qed
qed

lemma alloc_from_arena_full:
  "alloc_from_arena count count a (ar_free_list a) (ar_free_count a) pg lst = (False, count, a, pg, lst)"
  by (cases "ar_free_list a") (auto simp: pmm_arena.equality)

lemma alloc_pages_walk_full: "alloc_pages_walk count count as pg lst = (count, as, pg, lst)"
  by (induction as) (auto simp: alloc_from_arena_full)

lemma pmm_alloc_pages_ok:
  assumes inv: "pmm_inv s"
  shows "\<exists>ps s'. pmm_alloc_pages count lst s = (of_nat (length ps), lst @ ps, s') \<and> handed_out ps s s'
     \<and> length ps = (case arena_list s of [] \<Rightarrow> 0 | a # _ \<Rightarrow> min (unat count) (length (ar_free_list a)))
     \<and> tl (arena_list s') = tl (arena_list s)"
proof (cases "count = 0 \<or> arena_list s = []")
  case True
  then show ?thesis using inv handed_out_refl [OF inv]
    by (intro exI [of _ "[]"] exI [of _ s]) (auto simp: pmm_alloc_pages_def split: list.splits)
next
  case False
  then obtain a as where as: "arena_list s = a # as" by (cases "arena_list s") auto
  obtain out al' a' pg' lst' where
    r: "alloc_from_arena count 0 a (ar_free_list a) (ar_free_count a) (pages s) lst = (out, al', a', pg', lst')"
    by (metis prod_cases5)
  have "arenas_inv ([] @ a\<lparr>ar_free_list := ar_free_list a, ar_free_count := ar_free_count a\<rparr> # as) (pages s)"
    using inv as by (simp add: pmm_inv_def)
  from alloc_from_arena_ok [OF this _ r] obtain ps where
    ps: "took (a # as) (pages s) ps (a' # as) pg'" "lst' = lst @ ps" "unat al' = length ps"
      "length ps = min (unat count) (length (ar_free_list a))" "out \<longleftrightarrow> al' < count" "al' \<le> count" by auto
  have "al' = count" if "\<not> out" using ps(5,6) that by simp
  then have w: "alloc_pages_walk count 0 (a # as) (pages s) lst = (al', a' # as, pg', lst')"
    using r alloc_pages_walk_full by (cases out) auto
  have "ucast al' = (of_nat (length ps) :: u64)" by (simp add: ps(3) [symmetric])
  moreover have "handed_out ps s (s\<lparr>arena_list := a' # as, pages := pg'\<rparr>)"
    using took_handed_out [OF inv] ps(1) as by simp
  ultimately show ?thesis using w False as ps
    by (intro exI [of _ ps] exI [of _ "s\<lparr>arena_list := a' # as, pages := pg'\<rparr>"]) (auto simp: pmm_alloc_pages_def)
qed

section \<open>Ranges of addresses\<close>

lemma address_in_arena:
  assumes ok: "arena_ok a"
  shows "ADDRESS_IN_ARENA addr a \<longleftrightarrow> unat (ar_base a) \<le> unat addr \<and> unat addr < unat (ar_base a) + unat (ar_size a)"
proof -
  have le: "unat (ar_base a) + unat (ar_size a) \<le> 2 ^ 64" "0 < unat (ar_size a)"
    using ok by (auto simp: arena_ok_def)
  have "unat (ar_base a + ar_size a - 1) = unat (ar_base a) + unat (ar_size a) - 1"
  proof -
    have u: "unat (ar_size a - 1) = unat (ar_size a) - 1" using le(2) by (intro unat_minus_one) auto
    have "unat (ar_base a + (ar_size a - 1)) = (unat (ar_base a) + (unat (ar_size a) - 1)) mod 2 ^ 64"
      by (simp only: unat_word_ariths u) simp
    also have "\<dots> = unat (ar_base a) + unat (ar_size a) - 1" using le by simp
    finally show ?thesis by (simp only: add_diff_eq)
  qed
  then show ?thesis using le(2) by (auto simp: ADDRESS_IN_ARENA_def word_le_nat_alt)
qed

lemma address_index:
  assumes ok: "arena_ok a" and "ADDRESS_IN_ARENA addr a"
  defines "i \<equiv> (unat addr - unat (ar_base a)) div 4096"
  shows "unat ((addr - ar_base a) div PAGE_SIZE) = i" "i < npages a" "page_at a ((addr - ar_base a) div PAGE_SIZE) = pptr a i"
    "(addr - ar_base a) div PAGE_SIZE < ar_size a div PAGE_SIZE"
proof -
  have b: "unat (ar_base a) \<le> unat addr" "unat addr < unat (ar_base a) + unat (ar_size a)"
    using assms address_in_arena by auto
  have d: "unat (addr - ar_base a) = unat addr - unat (ar_base a)"
    using b(1) by (simp add: unat_sub word_le_nat_alt)
  then show u: "unat ((addr - ar_base a) div PAGE_SIZE) = i"
    by (simp add: i_def unat_div_distrib unat_PAGE_SIZE)
  have "4096 dvd unat (ar_size a)" using ok by (simp add: arena_ok_def)
  then show n: "i < npages a" using b by (auto simp: i_def npages_def div_less_iff_less_mult)
  show "page_at a ((addr - ar_base a) div PAGE_SIZE) = pptr a i" by (simp add: u [symmetric])
  show "(addr - ar_base a) div PAGE_SIZE < ar_size a div PAGE_SIZE"
    using u n by (simp add: word_less_nat_alt unat_div_page)
qed

lemma alloc_range_loop_ok:
  assumes "arenas_inv (xs @ a # ys) pg" "allocated \<le> count"
  shows "\<exists>ps al' address' a' pg'. alloc_range_loop count allocated address a pg lst = Some (al', address', a', pg', lst @ ps)
     \<and> took (xs @ a # ys) pg ps (xs @ a' # ys) pg' \<and> unat al' = unat allocated + length ps \<and> al' \<le> count"
  using assms
proof (induction count allocated address a pg lst rule: alloc_range_loop.induct)
  case (1 count allocated address a pg lst)
  note mid = arenas_inv_mid [OF 1(2)]
  let ?i = "(address - ar_base a) div PAGE_SIZE"
  let ?p = "page_at a ?i"
  show ?case
  proof (cases "allocated < count \<and> ADDRESS_IN_ARENA address a \<and> page_is_free (pg ?p)")
    case False
    then have "alloc_range_loop count allocated address a pg lst = Some (allocated, address, a, pg, lst)"
      using address_index(4) [OF mid(1)]
      by (auto simp: alloc_range_loop.simps [of count allocated] page_is_free_iff Let_def)
    then show ?thesis using 1(2,3) took_refl by fastforce
  next
    case True
    note ix = address_index [OF mid(1), of address]
    have p: "?p \<in> set (ar_free_list a)"
      using mid(2) True ix by (auto simp: free_inv_def arena_pages_def)
    let ?a = "a\<lparr>ar_free_list := remove1 ?p (ar_free_list a), ar_free_count := ar_free_count a - 1\<rparr>"
    have one: "took (xs @ a # ys) pg [?p] (xs @ ?a # ys) (set_nonfree ?p pg)"
      by (rule take_one [OF 1(2) p])
    have u: "unat (allocated + 1) = unat allocated + 1" "allocated + 1 \<le> count"
      using True by unat_arith+
    have tp: "take_page ?p a pg = Some (?a, set_nonfree ?p pg)" using p by (simp add: take_page_def)
    have run: "alloc_range_loop count allocated address a pg lst =
        alloc_range_loop count (allocated + 1) (address + PAGE_SIZE) ?a (set_nonfree ?p pg) (lst @ [?p])"
      using True ix tp by (simp add: alloc_range_loop.simps [of count allocated] page_is_free_iff Let_def)
    have "\<exists>ps al' address' a' pg'. alloc_range_loop count (allocated + 1) (address + PAGE_SIZE) ?a (set_nonfree ?p pg) (lst @ [?p])
           = Some (al', address', a', pg', (lst @ [?p]) @ ps)
       \<and> took (xs @ ?a # ys) (set_nonfree ?p pg) ps (xs @ a' # ys) pg' \<and> unat al' = unat (allocated + 1) + length ps \<and> al' \<le> count"
      by (rule 1(1) [OF _ refl _ refl _ tp refl])
        (use True ix one u in \<open>auto simp: took_def page_is_free_iff\<close>)
    then obtain ps al' address' a' pg' where
      r: "alloc_range_loop count (allocated + 1) (address + PAGE_SIZE) ?a (set_nonfree ?p pg) (lst @ [?p])
           = Some (al', address', a', pg', (lst @ [?p]) @ ps)"
      "took (xs @ ?a # ys) (set_nonfree ?p pg) ps (xs @ a' # ys) pg'" "unat al' = unat (allocated + 1) + length ps" "al' \<le> count"
      by blast
    have "took (xs @ a # ys) pg (?p # ps) (xs @ a' # ys) pg'" using took_trans [OF one r(2)] by simp
    then show ?thesis using run r u by (intro exI [of _ "?p # ps"]) auto
  qed
qed

lemma alloc_range_walk_ok:
  assumes "arenas_inv (xs @ as) pg" "allocated \<le> count"
  shows "\<exists>ps al' as' pg'. alloc_range_walk count allocated address as pg lst = Some (al', as', pg', lst @ ps)
     \<and> took (xs @ as) pg ps (xs @ as') pg' \<and> unat al' = unat allocated + length ps \<and> al' \<le> count"
  using assms
proof (induction as arbitrary: xs allocated address pg lst)
  case Nil
  then show ?case by (auto intro: took_refl)
next
  case (Cons a as)
  from alloc_range_loop_ok [OF Cons.prems, of address lst] obtain ps al' address' a' pg' where
    r: "alloc_range_loop count allocated address a pg lst = Some (al', address', a', pg', lst @ ps)"
      "took (xs @ a # as) pg ps (xs @ a' # as) pg'" "unat al' = unat allocated + length ps" "al' \<le> count" by blast
  show ?case
  proof (cases "al' = count")
    case True
    then show ?thesis using r by auto
  next
    case False
    have "arenas_inv ((xs @ [a']) @ as) pg'" using r(2) by (simp add: took_def)
    from Cons.IH [OF this r(4), of address' "lst @ ps"] obtain qs al'' as' pg'' where
      q: "alloc_range_walk count al' address' as pg' (lst @ ps) = Some (al'', as', pg'', (lst @ ps) @ qs)"
        "took (xs @ a' # as) pg' qs (xs @ a' # as') pg''" "unat al'' = unat al' + length qs" "al'' \<le> count" by auto
    show ?thesis using took_trans [OF r(2) q(2)] r q False by (intro exI [of _ "ps @ qs"]) auto
  qed
qed

lemma pmm_alloc_range_ok:
  assumes inv: "pmm_inv s"
  shows "\<exists>ps s'. pmm_alloc_range address count lst s = Some (of_nat (length ps), lst @ ps, s')
     \<and> handed_out ps s s' \<and> length ps \<le> unat count"
proof (cases "count = 0")
  case True
  then show ?thesis using handed_out_refl [OF inv]
    by (intro exI [of _ "[]"] exI [of _ s]) (simp add: pmm_alloc_range_def)
next
  case False
  have ai: "arenas_inv ([] @ arena_list s) (pages s)" using inv by (simp add: pmm_inv_def)
  have "(0::u32) \<le> count" by simp
  from alloc_range_walk_ok [OF ai this, of "ROUNDDOWN address PAGE_SIZE" lst] obtain ps al' as' pg' where
    r: "alloc_range_walk count 0 (ROUNDDOWN address PAGE_SIZE) (arena_list s) (pages s) lst = Some (al', as', pg', lst @ ps)"
      "took (arena_list s) (pages s) ps as' pg'" "unat al' = length ps" "al' \<le> count" by auto
  have "ucast al' = (of_nat (length ps) :: u64)" by (simp add: r(3) [symmetric])
  moreover have "length ps \<le> unat count" using r(3,4) by (simp add: word_le_nat_alt)
  ultimately show ?thesis using r False took_handed_out [OF inv r(2)]
    by (intro exI [of _ ps]) (auto simp: pmm_alloc_range_def)
qed

section \<open>Freeing\<close>

lemma free_to_arena_ok:
  assumes "arenas_inv as pg" "p \<in> nonfree as pg"
  shows "\<exists>xs a ys. as = xs @ a # ys \<and> p \<in> arena_pages a
     \<and> free_to_arena p as pg = (True, xs @ a\<lparr>ar_free_list := p # ar_free_list a, ar_free_count := ar_free_count a + 1\<rparr> # ys,
                                clear_nonfree p pg)"
  using assms
proof (induction as)
  case Nil
  then show ?case by (simp add: nonfree_def)
next
  case (Cons a as)
  have ok: "arena_ok a" "\<forall>b \<in> set as. arena_ok b \<and> apart a b" using Cons.prems(1) by (auto simp: arenas_inv_def)
  show ?case
  proof (cases "p \<in> arena_pages a")
    case True
    then have "PAGE_BELONGS_TO_ARENA p a" using ok belongs_pptr by (auto simp: arena_pages_def)
    then show ?thesis using True by (intro exI [of _ "[]"]) auto
  next
    case False
    then obtain b where b: "b \<in> set as" "p \<in> arena_pages b" using Cons.prems(2) by (auto simp: nonfree_def)
    then have nb: "\<not> PAGE_BELONGS_TO_ARENA p a" using belongs_apart [of b a p] ok apart_sym by blast
    have "arenas_inv as pg" "p \<in> nonfree as pg" using Cons.prems b by (auto simp: arenas_inv_def nonfree_def)
    from Cons.IH [OF this] obtain xs c ys where "as = xs @ c # ys" "p \<in> arena_pages c"
      "free_to_arena p as pg = (True, xs @ c\<lparr>ar_free_list := p # ar_free_list c, ar_free_count := ar_free_count c + 1\<rparr> # ys,
          clear_nonfree p pg)" by blast
    then show ?thesis using nb by (intro exI [of _ "a # xs"] exI [of _ c] exI [of _ ys]) auto
  qed
qed

text \<open>\<open>s'\<close> is \<open>s\<close> with the pages \<open>ps\<close> given back.\<close>

definition given_back :: "page_ptr list \<Rightarrow> pmm_state \<Rightarrow> pmm_state \<Rightarrow> bool" where
  "given_back ps s s' \<longleftrightarrow> pmm_inv s' \<and> held s' = held s - set ps
     \<and> map ar_static (arena_list s') = map ar_static (arena_list s)"

lemma free_one:
  assumes inv: "pmm_inv s" and p: "p \<in> held s"
    and r: "free_to_arena p (arena_list s) (pages s) = (found, as, pg)"
  shows "found \<and> given_back [p] s (s\<lparr>arena_list := as, pages := pg\<rparr>)"
proof -
  have "arenas_inv (arena_list s) (pages s)" using inv by (simp add: pmm_inv_def)
  from free_to_arena_ok [OF this, of p] p r obtain xs a ys where
    x: "arena_list s = xs @ a # ys" "p \<in> arena_pages a" "found"
      "as = xs @ a\<lparr>ar_free_list := p # ar_free_list a, ar_free_count := ar_free_count a + 1\<rparr> # ys"
      "pg = clear_nonfree p (pages s)" by (auto simp: held_def)
  have np: "\<not> page_is_free (pages s p)" using p by (simp add: held_def nonfree_def)
  have ai: "arenas_inv (xs @ a # ys) (pages s)" using inv x(1) by (simp add: pmm_inv_def)
  have st: "map ar_static as = map ar_static (arena_list s)" using x by simp
  show ?thesis
    using give_one [OF ai x(2) np] x st static_bound [OF st] inv
    by (auto simp: given_back_def pmm_inv_def held_def)
qed

lemma pmm_free_loop_ok:
  assumes "pmm_inv s" "distinct ps" "set ps \<subseteq> held s"
  shows "\<exists>s'. pmm_free_loop ps count s = Some (count + of_nat (length ps), s') \<and> given_back ps s s'"
  using assms
proof (induction ps arbitrary: count s)
  case Nil
  then show ?case by (simp add: given_back_def)
next
  case (Cons p ps)
  obtain found as pg where r: "free_to_arena p (arena_list s) (pages s) = (found, as, pg)" by (metis prod_cases3)
  let ?s = "s\<lparr>arena_list := as, pages := pg\<rparr>"
  have f: "found" "given_back [p] s ?s" using free_one [OF Cons.prems(1) _ r] Cons.prems by auto
  have "pg_flags (pages s p) AND VM_PAGE_FLAG_NONFREE \<noteq> 0"
    using Cons.prems(3) by (auto simp: held_def nonfree_def page_is_free_iff)
  moreover have "pmm_inv ?s" "set ps \<subseteq> held ?s" using f(2) Cons.prems by (auto simp: given_back_def)
  ultimately obtain s' where "pmm_free_loop ps (count + 1) ?s = Some (count + 1 + of_nat (length ps), s')" "given_back ps ?s s'"
    using Cons.IH Cons.prems(2) by fastforce
  then show ?case using r f \<open>pg_flags (pages s p) AND VM_PAGE_FLAG_NONFREE \<noteq> 0\<close>
    by (auto simp: given_back_def algebra_simps)
qed

lemma pmm_free_ok:
  assumes "pmm_inv s" "distinct ps" "set ps \<subseteq> held s"
  shows "\<exists>s'. pmm_free ps s = Some (ucast (of_nat (length ps) :: u32), s') \<and> given_back ps s s'"
  using pmm_free_loop_ok [OF assms, of 0] by (auto simp: pmm_free_def)

section \<open>Adding an arena\<close>

definition arena_addable :: "pmm_arena \<Rightarrow> pmm_state \<Rightarrow> bool" where
  "arena_addable a s \<longleftrightarrow> 4096 dvd unat (ar_base a) \<and> 4096 dvd unat (ar_size a) \<and> 0 < unat (ar_size a)
     \<and> unat (ar_base a) + unat (ar_size a) \<le> 2 ^ 64 \<and> npages a < 2 ^ 31
     \<and> unat (boot_alloc_end s) + 8 + npages a * 24 < 2 ^ 64
     \<and> (\<forall>b \<in> set (arena_list s). unat (ar_base a) + unat (ar_size a) \<le> unat (ar_base b)
                                \<or> unat (ar_base b) + unat (ar_size b) \<le> unat (ar_base a))"

lemma insert_arena_set [simp]: "set (insert_arena a as) = insert a (set as)"
  by (induction as) auto

lemma insert_arena_sorted:
  "sorted_wrt (\<lambda>a b. ar_priority a \<le> ar_priority b) as \<Longrightarrow> sorted_wrt (\<lambda>a b. ar_priority a \<le> ar_priority b) (insert_arena a as)"
  by (induction as) (auto simp: not_less)

lemma insert_arena_apart:
  "sorted_wrt apart as \<Longrightarrow> \<forall>b \<in> set as. apart a b \<Longrightarrow> sorted_wrt apart (insert_arena a as)"
  using apart_sym by (induction as) auto

lemma shl1_3: "shl1 3 = 8"
  by (simp add: shl1_def)

lemma boot_alloc_mem_ok:
  assumes n: "unat len = n" "8 dvd n" and space: "unat (boot_alloc_end s) + 8 + n < 2 ^ 64"
  shows "\<exists>ptr e. boot_alloc_mem len s = (ptr, s\<lparr>boot_alloc_end := e\<rparr>) \<and> unat (boot_alloc_end s) \<le> unat ptr
     \<and> unat e = unat ptr + n \<and> unat ptr + n < 2 ^ 64"
proof -
  let ?ptr = "ALIGN (boot_alloc_end s) 8"
  have p: "unat ?ptr = round_up (unat (boot_alloc_end s)) 8"
    using unat_ROUNDUP [of 3 "boot_alloc_end s"] space by (simp add: ALIGN_def shl1_3)
  have "unat ?ptr \<le> unat (boot_alloc_end s) + 7" using round_up_le [of "unat (boot_alloc_end s)" 8] p by simp
  then have lt: "unat ?ptr + n < 2 ^ 64" using space by simp
  have l: "unat (ALIGN len 8) = n"
  proof -
    have "unat (ALIGN len 8) = round_up n 8"
      using unat_ROUNDUP [of 3 len] space n by (simp add: ALIGN_def shl1_3)
    moreover have "round_up n 8 = n" using round_up_least [of 8 n n] round_up_ge [of 8 n] n by simp
    ultimately show ?thesis by simp
  qed
  have "unat (?ptr + ALIGN len 8) = unat ?ptr + n" using lt l by (simp add: unat_word_ariths)
  then show ?thesis using lt p round_up_ge [of 8 "unat (boot_alloc_end s)"]
    by (intro exI [of _ ?ptr] exI [of _ "?ptr + ALIGN len 8"]) (simp add: boot_alloc_mem_def Let_def)
qed

lemma dvd_aligned: "4096 dvd unat w \<longleftrightarrow> IS_ALIGNED w PAGE_SIZE"
  using IS_ALIGNED_iff [of w 12] by (simp add: PAGE_SIZE_def PAGE_SIZE_SHIFT_def)

text \<open>A fresh arena, all of whose pages are free.\<close>

lemma add_arena_inv:
  assumes inv: "arenas_inv as pg" and ok: "arena_ok a" and ap: "\<forall>c \<in> set as. apart a c"
    and fl: "set (ar_free_list a) = arena_pages a" "distinct (ar_free_list a)"
    and fc: "ar_free_count a = of_nat (length (ar_free_list a))"
  shows "arenas_inv (insert_arena a as) (page_init (ar_free_list a) pg)"
    "nonfree (insert_arena a as) (page_init (ar_free_list a) pg) = nonfree as pg"
proof -
  have oks: "\<forall>c \<in> set as. arena_ok c \<and> free_inv pg c"
    using inv by (simp add: arenas_inv_def)
  have disj: "arena_pages c \<inter> arena_pages a = {}" if "c \<in> set as" for c
    using arena_pages_disjoint [OF ok] ap oks that by blast
  have "free_inv (page_init (ar_free_list a) pg) c" if "c \<in> set as" for c
    using oks disj [OF that] that fl(1) unfolding free_inv_def page_init_def by (auto split: if_splits)
  moreover have "free_inv (page_init (ar_free_list a) pg) a"
    using fl fc by (auto simp: free_inv_def page_init_def page_is_free_def)
  ultimately show "arenas_inv (insert_arena a as) (page_init (ar_free_list a) pg)"
    using inv ok oks ap insert_arena_sorted insert_arena_apart by (auto simp: arenas_inv_def)
  show "nonfree (insert_arena a as) (page_init (ar_free_list a) pg) = nonfree as pg"
    using disj fl(1) by (auto simp: nonfree_def page_init_def page_is_free_def)
qed

lemma pmm_add_arena_ok:
  assumes inv: "pmm_inv s" and ok: "arena_addable arena s"
  shows "\<exists>s'. pmm_add_arena arena s = Some (NO_ERROR, s') \<and> pmm_inv s' \<and> held s' = held s"
proof -
  define len where "len = ar_size arena div PAGE_SIZE * sizeof_vm_page"
  define n where "n = npages arena * 24"
  have ok': "npages arena < 2 ^ 31" "unat (boot_alloc_end s) + 8 + n < 2 ^ 64"
    using ok by (auto simp: arena_addable_def n_def)
  have len: "unat len = n"
    using ok' unat_div_page [of arena] unfolding len_def n_def
    by (simp add: unat_mult_lem [THEN iffD1] sizeof_vm_page_def)
  obtain ptr e where b: "boot_alloc_mem len s = (ptr, s\<lparr>boot_alloc_end := e\<rparr>)" "unat (boot_alloc_end s) \<le> unat ptr"
      "unat e = unat ptr + n" "unat ptr + n < 2 ^ 64"
    using boot_alloc_mem_ok [OF len _ ok'(2)] by (auto simp: n_def)
  define ps where "ps = map (pptr (arena\<lparr>ar_page_array := ptr\<rparr>)) [0..<npages arena]"
  define a where "a = arena\<lparr>ar_page_array := ptr, ar_free_count := of_nat (length ps), ar_free_list := ps\<rparr>"
  have na: "npages a = npages arena" "\<And>i. pptr a i = pptr (arena\<lparr>ar_page_array := ptr\<rparr>) i"
    by (simp_all add: a_def npages_def page_at_def)
  have aok: "arena_ok a" using ok b(4) by (auto simp: arena_ok_def arena_addable_def a_def npages_def n_def)
  have set_ps: "set (ar_free_list a) = arena_pages a"
    unfolding arena_pages_def na(1) by (auto simp: a_def ps_def page_at_def)
  have dist: "distinct (ar_free_list a)"
    using pptr_inj [OF aok] unfolding na by (auto simp: a_def ps_def distinct_map inj_on_def)
  have below: "\<forall>c \<in> set (arena_list s). unat (ar_page_array c) + npages c * 24 \<le> unat ptr"
    using inv b(2) by (fastforce simp: pmm_inv_def)
  then have ap: "\<forall>c \<in> set (arena_list s). apart a c"
    using ok by (auto simp: apart_def arena_addable_def a_def)
  have ai: "arenas_inv (arena_list s) (pages s)" using inv by (simp add: pmm_inv_def)
  have "ar_free_count a = of_nat (length (ar_free_list a))" by (simp add: a_def)
  note new = add_arena_inv [OF ai aok ap set_ps dist this]
  let ?s = "s\<lparr>boot_alloc_end := e, arena_list := insert_arena a (arena_list s), pages := page_init ps (pages s)\<rparr>"
  have bound: "unat (ar_page_array c) + npages c * 24 \<le> unat e" if "c \<in> insert a (set (arena_list s))" for c
    using that below b(3) na(1) by (auto simp: a_def n_def)
  have "pmm_inv ?s" "held ?s = held s"
    using new bound by (auto simp: pmm_inv_def held_def a_def)
  moreover have "of_nat (npages arena) = ar_size arena div PAGE_SIZE"
    by (simp add: unat_div_page [symmetric])
  then have "pmm_add_arena arena s = Some (NO_ERROR, ?s)"
    using ok b(1) unat_div_page [of arena]
    by (simp add: pmm_add_arena_def arena_addable_def dvd_aligned Let_def len_def [symmetric] ps_def a_def word_less_nat_alt)
  ultimately show ?thesis by blast
qed

end
