(* ===== verification/Pmm_Contig.thy ===== *)
theory Pmm_Contig
  imports Pmm_Ops
begin

text \<open>
  The search for a contiguous run: it returns a run of free pages at the requested alignment,
  and when it returns nothing there is none.
\<close>

section \<open>One arena\<close>

abbreviation pg_free :: "(page_ptr \<Rightarrow> vm_page) \<Rightarrow> pmm_arena \<Rightarrow> nat \<Rightarrow> bool" where
  "pg_free pg a j \<equiv> page_is_free (pg (pptr a j))"

text \<open>The pages \<open>s\<close> to \<open>s + n - 1\<close> exist and are free.\<close>

definition free_run :: "(page_ptr \<Rightarrow> vm_page) \<Rightarrow> pmm_arena \<Rightarrow> nat \<Rightarrow> nat \<Rightarrow> bool" where
  "free_run pg a s n \<longleftrightarrow> s + n \<le> npages a \<and> (\<forall>j. s \<le> j \<and> j < s + n \<longrightarrow> pg_free pg a j)"

lemma unat_u32_64 [simp]: "unat (ucast x :: u64) = unat x" for x :: u32
proof -
  have "unat x < 2 ^ 32" using unsigned_less [of x, where ?'a = nat] by simp
  then show ?thesis by (simp add: unsigned_ucast_eq take_bit_nat_eq_self)
qed

lemma ucast_sum:
  fixes s i :: u32
  assumes "unat s + unat i < 2 ^ 32"
  shows "(ucast s + ucast i :: u64) = of_nat (unat s + unat i)"
  by simp

lemma scan_run_ok:
  assumes "unat start + unat i + n \<le> npages a" "npages a < 2 ^ 31"
  shows "\<exists>r. scan_run n start i a pg = Some r \<and>
    (case r of None \<Rightarrow> \<forall>j. unat start + unat i \<le> j \<and> j < unat start + unat i + n \<longrightarrow> pg_free pg a j
     | Some k \<Rightarrow> unat i \<le> unat k \<and> unat k < unat i + n \<and> \<not> pg_free pg a (unat start + unat k))"
  using assms
proof (induction n arbitrary: i)
  case 0
  then show ?case by auto
next
  case (Suc n)
  have ix: "(ucast start + ucast i :: u64) = of_nat (unat start + unat i)"
    using Suc.prems by (intro ucast_sum) simp
  have lt: "of_nat (unat start + unat i) < ar_size a div PAGE_SIZE"
    using Suc.prems by (simp add: word_less_nat_alt unat_div_page unat_of_nat del: of_nat_add)
  have i1: "unat (i + 1) = unat i + 1" using Suc.prems by (simp add: unat_word_ariths)
  show ?case
  proof (cases "pg_free pg a (unat start + unat i)")
    case False
    then show ?thesis using ix lt by (auto simp: page_is_free_iff Let_def simp del: of_nat_add of_nat_unat)
  next
    case True
    obtain r where r: "scan_run n start (i + 1) a pg = Some r"
      "case r of None \<Rightarrow> \<forall>j. unat start + unat (i + 1) \<le> j \<and> j < unat start + unat (i + 1) + n \<longrightarrow> pg_free pg a j
       | Some k \<Rightarrow> unat (i + 1) \<le> unat k \<and> unat k < unat (i + 1) + n \<and> \<not> pg_free pg a (unat start + unat k)"
      using Suc.IH [of "i + 1"] Suc.prems i1 by auto
    have "scan_run (Suc n) start i a pg = Some r"
      using True ix lt r(1) by (simp add: page_is_free_iff Let_def del: of_nat_add of_nat_unat)
    moreover have "pg_free pg a j" if "unat start + unat i \<le> j" "j < unat start + unat i + Suc n" "r = None" for j
      using r(2) that True i1 by (cases "j = unat start + unat i") auto
    ultimately show ?thesis using r(2) i1 by (cases r) auto
  qed
qed

text \<open>The next candidate is the next multiple of the alignment after the broken page.\<close>

lemma next_start_ok:
  assumes "unat off \<le> unat start" "unat start + unat i < 2 ^ 31" "al \<le> 31" "12 \<le> al"
  shows "unat (next_start start i off al) = round_up (unat start - unat off + unat i + 1) (2 ^ (al - 12)) + unat off"
proof -
  let ?x = "start - off + i + 1"
  have x: "unat ?x = unat start - unat off + unat i + 1"
  proof -
    have "unat (start - off) = unat start - unat off" using assms(1) by (simp add: unat_sub word_le_nat_alt)
    then show ?thesis using assms(2) by (simp add: unat_word_ariths)
  qed
  have p: "(2::nat) ^ (al - 12) \<le> 2 ^ 19" by (rule power_increasing) (use assms in auto)
  have "unat (ucast ?x :: u64) = unat ?x" by simp
  then have r: "unat (ROUNDUP (ucast ?x) (shl1 (al - 12))) = round_up (unat ?x) (2 ^ (al - 12))"
    using unat_ROUNDUP [of "al - 12" "ucast ?x"] p assms x by simp
  have b: "round_up (unat ?x) (2 ^ (al - 12)) + unat off < 2 ^ 32"
    using round_up_le [of "unat ?x" "2 ^ (al - 12)"] p assms x by simp
  have "unat (ROUNDUP (ucast ?x) (shl1 (al - 12)) + ucast off) = round_up (unat ?x) (2 ^ (al - 12)) + unat off"
    using r b by (simp add: unat_word_ariths)
  then show ?thesis using b x by (simp add: next_start_def PAGE_SIZE_SHIFT_def unsigned_ucast_eq take_bit_nat_eq_self)
qed

text \<open>
  Every run at a multiple of \<open>A\<close> that starts before the next candidate contains the broken page.
\<close>

lemma skipped_broken:
  assumes A: "0 < A" and s: "A dvd s - off" "off \<le> start" "start \<le> s" "off \<le> s" and i: "i < n"
    and lt: "s < round_up (start - off + i + 1) A + off" and bad: "\<not> pg_free pg a (start + i)"
  shows "\<not> free_run pg a s n"
proof -
  have "\<not> start - off + i + 1 \<le> s - off" using round_up_least [OF A s(1)] lt s by fastforce
  then have "s \<le> start + i" using s by simp
  then show ?thesis using bad i s by (auto simp: free_run_def)
qed

text \<open>\<open>s\<close> is a place where the search of the arena may stop.\<close>

definition candidate :: "pmm_arena \<Rightarrow> (page_ptr \<Rightarrow> vm_page) \<Rightarrow> nat \<Rightarrow> nat \<Rightarrow> nat \<Rightarrow> nat \<Rightarrow> bool" where
  "candidate a pg n A off s \<longleftrightarrow> off \<le> s \<and> A dvd s - off \<and> free_run pg a s n"

lemma search_run_ok:
  assumes "npages a < 2 ^ 31" "0 < unat count" "unat count < 2 ^ 31" "12 \<le> al" "al \<le> 31"
    and "unat off \<le> unat start" "2 ^ (al - 12) dvd unat start - unat off"
    and "\<forall>s < unat start. \<not> candidate a pg (unat count) (2 ^ (al - 12)) (unat off) s"
  shows "\<exists>r. search_run count al off start a pg = Some r \<and>
    (case r of Some st \<Rightarrow> candidate a pg (unat count) (2 ^ (al - 12)) (unat off) (unat st) \<and> unat st < npages a
     | None \<Rightarrow> \<forall>s. \<not> candidate a pg (unat count) (2 ^ (al - 12)) (unat off) s)"
  using assms
proof (induction "npages a - unat start" arbitrary: start rule: less_induct)
  case less
  let ?A = "(2::nat) ^ (al - 12)" and ?n = "unat count"
  show ?case
  proof (cases "unat start < npages a \<and> unat start + ?n \<le> npages a")
    case False
    have c: "\<not> (ucast start < ar_size a div PAGE_SIZE \<and> ucast (start + count) \<le> ar_size a div PAGE_SIZE)"
    proof
      assume as: "ucast start < ar_size a div PAGE_SIZE \<and> ucast (start + count) \<le> ar_size a div PAGE_SIZE"
      then have lt: "unat start < npages a" by (simp add: word_less_nat_alt unat_div_page)
      then have "unat (start + count) = unat start + ?n" using less.prems by (simp add: unat_word_ariths)
      then show False using as lt False by (simp add: word_le_nat_alt unat_div_page)
    qed
    have "\<not> candidate a pg ?n ?A (unat off) s" for s
      using False less.prems(2,8) by (cases "s < unat start") (auto simp: candidate_def free_run_def)
    then show ?thesis using c by (auto simp: search_run.simps [of count al off start])
  next
    case True
    have sum: "unat (start + count) = unat start + ?n" using True less.prems by (simp add: unat_word_ariths)
    have c: "ucast start < ar_size a div PAGE_SIZE" "ucast (start + count) \<le> ar_size a div PAGE_SIZE"
      using True sum by (simp_all add: word_less_nat_alt word_le_nat_alt unat_div_page)
    obtain r where r: "scan_run ?n start 0 a pg = Some r"
      "case r of None \<Rightarrow> \<forall>j. unat start \<le> j \<and> j < unat start + ?n \<longrightarrow> pg_free pg a j
       | Some k \<Rightarrow> unat k < ?n \<and> \<not> pg_free pg a (unat start + unat k)"
      using scan_run_ok [of start 0 ?n a pg] True less.prems(1) by (auto cong: option.case_cong)
    show ?thesis
    proof (cases r)
      case None
      then have "candidate a pg ?n ?A (unat off) (unat start)"
        using r True less.prems by (auto simp: candidate_def free_run_def)
      then show ?thesis using None r c True by (simp add: search_run.simps [of count al off start])
    next
      case (Some k)
      let ?st = "next_start start k off al"
      have k: "unat k < ?n" "\<not> pg_free pg a (unat start + unat k)" using r Some by auto
      have st: "unat ?st = round_up (unat start - unat off + unat k + 1) ?A + unat off"
        using next_start_ok [of off start k al] less.prems k True by simp
      have gt: "unat start < unat ?st"
        using st round_up_ge [of ?A "unat start - unat off + unat k + 1"] less.prems by simp
      have "\<not> candidate a pg ?n ?A (unat off) s" if "s < unat ?st" for s
      proof (cases "s < unat start")
        case False
        then show ?thesis
          using skipped_broken [of ?A s "unat off" "unat start" "unat k" ?n pg a] that st k less.prems
          by (auto simp: candidate_def)
      qed (use less.prems in blast)
      then have "\<exists>r. search_run count al off ?st a pg = Some r \<and>
          (case r of Some st \<Rightarrow> candidate a pg ?n ?A (unat off) (unat st) \<and> unat st < npages a
           | None \<Rightarrow> \<forall>s. \<not> candidate a pg ?n ?A (unat off) s)"
        using less.prems gt st True by (intro less.hyps) (auto simp: round_up_dvd)
      then show ?thesis using Some r c by (simp add: search_run.simps [of count al off start])
    qed
  qed
qed

section \<open>Alignment\<close>

text \<open>A free run of \<open>n\<close> pages at an address that is a multiple of \<open>2 ^ al\<close>.\<close>

definition aligned_run :: "(page_ptr \<Rightarrow> vm_page) \<Rightarrow> pmm_arena \<Rightarrow> nat \<Rightarrow> nat \<Rightarrow> nat \<Rightarrow> bool" where
  "aligned_run pg a n al s \<longleftrightarrow> free_run pg a s n \<and> 2 ^ al dvd unat (ar_base a) + s * 4096"

lemma pow2_split: "12 \<le> al \<Longrightarrow> (2::nat) ^ al = 2 ^ (al - 12) * 4096"
  using power_add [of "2::nat" "al - 12" 12] by simp

lemma offset_multiple:
  assumes b: "4096 dvd b" and al: "12 \<le> al"
  defines "off \<equiv> (round_up b (2 ^ al) - b) div 4096"
  shows "round_up b (2 ^ al) = b + off * 4096"
    and "off \<le> s \<and> 2 ^ (al - 12) dvd s - off \<longleftrightarrow> 2 ^ al dvd b + s * 4096"
proof -
  let ?A = "(2::nat) ^ al" and ?R = "round_up b (2 ^ al)"
  have R: "?A dvd ?R" "b \<le> ?R" using round_up_dvd round_up_ge [of ?A b] by auto
  have "4096 dvd ?A" using pow2_split [OF al] by simp
  then have "4096 dvd ?R - b" using R b dvd_trans by (blast intro: dvd_diff_nat)
  then show e: "?R = b + off * 4096" using R(2) by (simp add: off_def)
  show "off \<le> s \<and> 2 ^ (al - 12) dvd s - off \<longleftrightarrow> ?A dvd b + s * 4096"
  proof
    assume l: "off \<le> s \<and> 2 ^ (al - 12) dvd s - off"
    then have "b + s * 4096 = ?R + (s - off) * 4096" using e by (simp add: diff_mult_distrib)
    moreover have "?A dvd (s - off) * 4096" using l pow2_split [OF al] by (simp add: mult_dvd_mono)
    ultimately show "?A dvd b + s * 4096" using R(1) by (simp add: dvd_add)
  next
    assume d: "?A dvd b + s * 4096"
    then have le: "off \<le> s" using round_up_least [of ?A "b + s * 4096" b] e by simp
    have "b + s * 4096 - ?R = (s - off) * 4096" using e by (simp add: diff_mult_distrib)
    then have "?A dvd (s - off) * 4096" using d R(1) dvd_diff_nat by metis
    then have "2 ^ (al - 12) dvd s - off" using pow2_split [OF al] by simp
    then show "off \<le> s \<and> 2 ^ (al - 12) dvd s - off" using le by simp
  qed
qed

lemma arena_offset:
  assumes ok: "arena_ok a" and al: "12 \<le> al" "al \<le> 31"
  defines "rb \<equiv> ROUNDUP (ar_base a) (shl1 al)"
    and "off \<equiv> (round_up (unat (ar_base a)) (2 ^ al) - unat (ar_base a)) div 4096"
  shows "rb < ar_base a \<or> rb > ar_base a + ar_size a - 1 \<Longrightarrow> npages a \<le> off"
    and "\<not> (rb < ar_base a \<or> rb > ar_base a + ar_size a - 1) \<Longrightarrow>
      unat (ucast ((rb - ar_base a) div PAGE_SIZE) :: u32) = off \<and> off < npages a"
proof -
  define b z where "b = unat (ar_base a)" and "z = unat (ar_size a)"
  have f: "4096 dvd b" "4096 dvd z" "0 < z" "b + z \<le> 2 ^ 64" "npages a = z div 4096" "npages a < 2 ^ 31"
    using ok by (auto simp: arena_ok_def b_def z_def npages_def)
  have R: "round_up b (2 ^ al) = b + off * 4096"
    using offset_multiple(1) [OF f(1) al(1)] by (simp add: off_def b_def)
  have inside: "rb < ar_base a \<or> rb > ar_base a + ar_size a - 1 \<longleftrightarrow> \<not> ADDRESS_IN_ARENA rb a"
    by (auto simp: ADDRESS_IN_ARENA_def)
  have small: "unat rb = b + off * 4096" if "b + (2 ^ al - 1) < 2 ^ 64"
    using unat_ROUNDUP [of al "ar_base a"] al that R by (simp add: rb_def b_def)
  have wrap: "\<not> ADDRESS_IN_ARENA rb a \<and> npages a \<le> off" if w: "\<not> b + (2 ^ al - 1) < 2 ^ 64"
  proof
    have "rb < ar_base a" using ROUNDUP_wraps [of al "ar_base a"] w al by (simp add: rb_def b_def)
    then show "\<not> ADDRESS_IN_ARENA rb a" by (auto simp: ADDRESS_IN_ARENA_def)
    have dvd: "(2::nat) ^ al dvd 2 ^ 64" by (rule le_imp_power_dvd) (use al in auto)
    have "2 ^ 64 \<le> round_up b (2 ^ al)"
    proof (rule ccontr)
      assume n: "\<not> 2 ^ 64 \<le> round_up b (2 ^ al)"
      have "2 ^ al dvd 2 ^ 64 - round_up b (2 ^ al)" using dvd round_up_dvd by (rule dvd_diff_nat)
      then have "2 ^ al \<le> 2 ^ 64 - round_up b (2 ^ al)" using n by (intro dvd_imp_le) auto
      moreover have "b \<le> round_up b (2 ^ al)" "(0::nat) < 2 ^ al" using round_up_ge [of "2 ^ al" b] by auto
      ultimately show False using w n by linarith
    qed
    then show "npages a \<le> off" using R f by (simp add: div_le_mono less_imp_le)
  qed
  show "rb < ar_base a \<or> rb > ar_base a + ar_size a - 1 \<Longrightarrow> npages a \<le> off"
    using inside wrap small address_in_arena [OF ok, of rb] f b_def z_def by fastforce
  show "\<not> (rb < ar_base a \<or> rb > ar_base a + ar_size a - 1) \<Longrightarrow>
      unat (ucast ((rb - ar_base a) div PAGE_SIZE) :: u32) = off \<and> off < npages a"
  proof -
    assume "\<not> (rb < ar_base a \<or> rb > ar_base a + ar_size a - 1)"
    then have i: "ADDRESS_IN_ARENA rb a" using inside by blast
    then have rb: "unat rb = b + off * 4096" using wrap small by blast
    then have "unat ((rb - ar_base a) div PAGE_SIZE) = off" "off < npages a"
      using address_index(1,2) [OF ok i] by (auto simp: b_def)
    then show ?thesis using f by (simp add: unsigned_ucast_eq take_bit_nat_eq_self)
  qed
qed

section \<open>All arenas\<close>

abbreviation kmap :: "pmm_arena \<Rightarrow> bool" where
  "kmap a \<equiv> ar_flags a AND PMM_ARENA_FLAG_KMAP \<noteq> 0"

text \<open>What the walk finds in one arena.\<close>

definition find_run :: "u32 \<Rightarrow> nat \<Rightarrow> pmm_arena \<Rightarrow> (page_ptr \<Rightarrow> vm_page) \<Rightarrow> u32 option option" where
  "find_run count al a pg =
     (let rounded_base = ROUNDUP (ar_base a) (shl1 al);
          aligned_offset = ucast ((rounded_base - ar_base a) div PAGE_SIZE)
      in if ar_flags a AND PMM_ARENA_FLAG_KMAP = 0 then Some None
         else if rounded_base < ar_base a \<or> rounded_base > ar_base a + ar_size a - 1 then Some None
         else search_run count al aligned_offset aligned_offset a pg)"

lemma find_run_ok:
  assumes ok: "arena_ok a" and n: "0 < unat count" "unat count < 2 ^ 31" and al: "12 \<le> al" "al \<le> 31"
  shows "\<exists>r. find_run count al a pg = Some r \<and>
    (case r of Some st \<Rightarrow> kmap a \<and> aligned_run pg a (unat count) al (unat st)
     | None \<Rightarrow> kmap a \<longrightarrow> (\<forall>s. \<not> aligned_run pg a (unat count) al s))"
proof -
  define rb where "rb = ROUNDUP (ar_base a) (shl1 al)"
  define off where "off = (round_up (unat (ar_base a)) (2 ^ al) - unat (ar_base a)) div 4096"
  note ao = arena_offset [OF ok al, folded rb_def off_def]
  have "4096 dvd unat (ar_base a)" using ok by (simp add: arena_ok_def)
  note om = offset_multiple(2) [OF this al(1), folded off_def]
  have cand: "candidate a pg (unat count) (2 ^ (al - 12)) off s \<longleftrightarrow> aligned_run pg a (unat count) al s" for s
    using om by (auto simp: candidate_def aligned_run_def)
  show ?thesis
  proof (cases "kmap a \<and> \<not> (rb < ar_base a \<or> rb > ar_base a + ar_size a - 1)")
    case True
    let ?off = "ucast ((rb - ar_base a) div PAGE_SIZE) :: u32"
    have o: "unat ?off = off" using ao(2) True by blast
    have "\<exists>r. search_run count al ?off ?off a pg = Some r \<and>
      (case r of Some st \<Rightarrow> candidate a pg (unat count) (2 ^ (al - 12)) (unat ?off) (unat st) \<and> unat st < npages a
       | None \<Rightarrow> \<forall>s. \<not> candidate a pg (unat count) (2 ^ (al - 12)) (unat ?off) s)"
      using ok n al by (intro search_run_ok) (auto simp: arena_ok_def candidate_def)
    then obtain r where r: "search_run count al ?off ?off a pg = Some r"
      "case r of Some st \<Rightarrow> candidate a pg (unat count) (2 ^ (al - 12)) off (unat st)
       | None \<Rightarrow> \<forall>s. \<not> candidate a pg (unat count) (2 ^ (al - 12)) off s"
      unfolding o by (auto split: option.splits)
    then have "find_run count al a pg = Some r" using True by (simp add: find_run_def rb_def [symmetric])
    then show ?thesis using r(2) True cand by (auto split: option.splits)
  next
    case False
    have "\<not> aligned_run pg a (unat count) al s" if "kmap a" for s
      using cand [of s] ao(1) False that n(1) by (auto simp: candidate_def free_run_def)
    then show ?thesis using False by (auto simp: find_run_def rb_def [symmetric] Let_def)
  qed
qed

lemma take_run_ok:
  assumes "arenas_inv (xs @ a # ys) pg" "distinct ps" "set ps \<subseteq> set (ar_free_list a)"
  shows "\<exists>a' pg'. take_run ps a pg lst = Some (a', pg', map_option (\<lambda>l. l @ ps) lst)
     \<and> took (xs @ a # ys) pg ps (xs @ a' # ys) pg' \<and> ar_base a' = ar_base a"
  using assms
proof (induction ps arbitrary: a pg lst)
  case Nil
  then show ?case by (auto intro: took_refl simp: option.map_id [unfolded id_def])
next
  case (Cons p ps)
  let ?a = "a\<lparr>ar_free_list := remove1 p (ar_free_list a), ar_free_count := ar_free_count a - 1\<rparr>"
  note mid = arenas_inv_mid [OF Cons.prems(1)]
  have p: "p \<in> set (ar_free_list a)" "page_is_free (pg p)" "distinct (ar_free_list a)"
    using Cons.prems(3) mid(2) by (auto simp: free_inv_def)
  have one: "took (xs @ a # ys) pg [p] (xs @ ?a # ys) (set_nonfree p pg)"
    by (rule take_one [OF Cons.prems(1) p(1)])
  have "arenas_inv (xs @ ?a # ys) (set_nonfree p pg)" using one by (simp add: took_def)
  moreover have "distinct ps" "set ps \<subseteq> set (ar_free_list ?a)" using Cons.prems p(3) by auto
  ultimately obtain a' pg' where
    r: "take_run ps ?a (set_nonfree p pg) (map_option (\<lambda>l. l @ [p]) lst)
          = Some (a', pg', map_option (\<lambda>l. l @ ps) (map_option (\<lambda>l. l @ [p]) lst))"
      "took (xs @ ?a # ys) (set_nonfree p pg) ps (xs @ a' # ys) pg'" "ar_base a' = ar_base ?a"
    using Cons.IH by blast
  have "take_run (p # ps) a pg lst = Some (a', pg', map_option (\<lambda>l. l @ p # ps) lst)"
    using p r(1) by (simp add: take_page_def page_is_free_iff option.map_comp comp_def)
  then show ?case using took_trans [OF one r(2)] r(3) by auto
qed

lemma run_pages_free:
  assumes "arena_ok a" "free_inv pg a" "free_run pg a s n" "unat start = s" "unat count = n"
  shows "run_pages start count a = map (pptr a) [s..<s + n]"
    "distinct (map (pptr a) [s..<s + n])" "set (map (pptr a) [s..<s + n]) \<subseteq> set (ar_free_list a)"
proof -
  have "s + n < 2 ^ 32" using assms by (auto simp: free_run_def arena_ok_def)
  then have "unat (start + count) = s + n" using assms by (simp add: unat_word_ariths)
  then show "run_pages start count a = map (pptr a) [s..<s + n]" using assms by (simp add: run_pages_def)
  show "distinct (map (pptr a) [s..<s + n])"
    using assms(3) pptr_inj [OF assms(1)] by (auto simp: distinct_map inj_on_def free_run_def)
  show "set (map (pptr a) [s..<s + n]) \<subseteq> set (ar_free_list a)"
    using assms by (auto simp: free_inv_def arena_pages_def free_run_def)
qed

definition found_run :: "(page_ptr \<Rightarrow> vm_page) \<Rightarrow> pmm_arena list \<Rightarrow> nat \<Rightarrow> nat \<Rightarrow> paddr_t \<Rightarrow> page_ptr list \<Rightarrow> bool" where
  "found_run pg as n al pa ps \<longleftrightarrow> (\<exists>a \<in> set as. \<exists>s. kmap a \<and> aligned_run pg a n al s
     \<and> unat pa = unat (ar_base a) + s * 4096 \<and> ps = map (pptr a) [s..<s + n])"

lemma run_address:
  fixes st :: u32
  assumes ok: "arena_ok a" and s: "free_run pg a (unat st) n" "0 < n"
  shows "unat (ar_base a + ucast st * PAGE_SIZE) = unat (ar_base a) + unat st * 4096"
proof -
  have "unat st < npages a" using s by (simp add: free_run_def)
  then have "unat st * 4096 + 4096 \<le> unat (ar_size a)"
    using ok by (auto simp: npages_def arena_ok_def elim!: dvdE)
  then have "unat (ar_base a) + unat st * 4096 < 2 ^ 64" using ok by (auto simp: arena_ok_def)
  then show ?thesis by (simp add: unat_word_ariths unat_PAGE_SIZE)
qed

lemma alloc_contiguous_walk_ok:
  assumes "arenas_inv (xs @ as) pg" and n: "0 < unat count" "unat count < 2 ^ 31" and al: "12 \<le> al" "al \<le> 31"
  shows "\<exists>pa as' pg' ps. alloc_contiguous_walk count al as pg lst = Some (pa, as', pg', map_option (\<lambda>l. l @ ps) lst)
    \<and> took (xs @ as) pg ps (xs @ as') pg'
    \<and> (case pa of None \<Rightarrow> ps = [] \<and> as' = as \<and> pg' = pg \<and> (\<forall>a \<in> set as. kmap a \<longrightarrow> (\<forall>s. \<not> aligned_run pg a (unat count) al s))
       | Some p \<Rightarrow> found_run pg as (unat count) al p ps)"
  using assms(1)
proof (induction as arbitrary: xs)
  case Nil
  then show ?case by (auto intro: took_refl simp: option.map_id [unfolded id_def])
next
  case (Cons a as)
  note mid = arenas_inv_mid [OF Cons.prems]
  obtain r where r: "find_run count al a pg = Some r"
    "case r of Some st \<Rightarrow> kmap a \<and> aligned_run pg a (unat count) al (unat st)
     | None \<Rightarrow> kmap a \<longrightarrow> (\<forall>s. \<not> aligned_run pg a (unat count) al s)"
    using find_run_ok [OF mid(1) n al, of pg] by auto
  show ?case
  proof (cases r)
    case None
    obtain pa as' pg' ps where
      w: "alloc_contiguous_walk count al as pg lst = Some (pa, as', pg', map_option (\<lambda>l. l @ ps) lst)"
        "took ((xs @ [a]) @ as) pg ps ((xs @ [a]) @ as') pg'"
        "case pa of None \<Rightarrow> ps = [] \<and> as' = as \<and> pg' = pg \<and> (\<forall>a \<in> set as. kmap a \<longrightarrow> (\<forall>s. \<not> aligned_run pg a (unat count) al s))
         | Some p \<Rightarrow> found_run pg as (unat count) al p ps"
      using Cons.IH [of "xs @ [a]"] Cons.prems by auto
    have "alloc_contiguous_walk count al (a # as) pg lst = Some (pa, a # as', pg', map_option (\<lambda>l. l @ ps) lst)"
      using r(1) None w(1) by (simp add: find_run_def Let_def)
    then show ?thesis using w(2,3) r(2) None
      by (intro exI [of _ pa] exI [of _ "a # as'"] exI [of _ pg'] exI [of _ ps]) (auto simp: found_run_def split: option.splits)
  next
    case (Some st)
    then have ar: "aligned_run pg a (unat count) al (unat st)" "kmap a" using r(2) by auto
    then have fr: "free_run pg a (unat st) (unat count)" by (simp add: aligned_run_def)
    let ?ps = "map (pptr a) [unat st..<unat st + unat count]"
    note rp = run_pages_free [OF mid(1,2) fr refl refl]
    obtain a' pg' where t: "take_run ?ps a pg lst = Some (a', pg', map_option (\<lambda>l. l @ ?ps) lst)"
        "took (xs @ a # as) pg ?ps (xs @ a' # as) pg'" "ar_base a' = ar_base a"
      using take_run_ok [OF Cons.prems rp(2,3), of lst] by blast
    have w: "alloc_contiguous_walk count al (a # as) pg lst
        = Some (Some (ar_base a + ucast st * PAGE_SIZE), a' # as, pg', map_option (\<lambda>l. l @ ?ps) lst)"
      using r(1) Some t(1,3) rp(1) by (simp add: find_run_def Let_def)
    have "found_run pg (a # as) (unat count) al (ar_base a + ucast st * PAGE_SIZE) ?ps"
      using ar run_address [OF mid(1) fr n(1)] by (auto simp: found_run_def)
    then show ?thesis using w t(2) by auto
  qed
qed

lemma pmm_alloc_contiguous_ok:
  assumes inv: "pmm_inv s" and n: "0 < unat count" "unat count < 2 ^ 31" and al: "unat alog \<le> 31"
  shows "\<exists>pa ps s'. pmm_alloc_contiguous count alog lst s
      = Some (if pa = None then 0 else ucast count, pa, map_option (\<lambda>l. l @ ps) lst, s')
    \<and> handed_out ps s s'
    \<and> (case pa of None \<Rightarrow> ps = [] \<and> s' = s
          \<and> (\<forall>a \<in> set (arena_list s). kmap a \<longrightarrow> (\<forall>i. \<not> aligned_run (pages s) a (unat count) (max 12 (unat alog)) i))
       | Some p \<Rightarrow> found_run (pages s) (arena_list s) (unat count) (max 12 (unat alog)) p ps)"
proof -
  let ?al = "max 12 (unat alog)"
  have ai: "arenas_inv ([] @ arena_list s) (pages s)" using inv by (simp add: pmm_inv_def)
  have al': "12 \<le> ?al" "?al \<le> 31" using al by auto
  obtain pa as' pg' ps where
    w: "alloc_contiguous_walk count ?al (arena_list s) (pages s) lst = Some (pa, as', pg', map_option (\<lambda>l. l @ ps) lst)"
      "took (arena_list s) (pages s) ps as' pg'"
      "case pa of None \<Rightarrow> ps = [] \<and> as' = arena_list s \<and> pg' = pages s
          \<and> (\<forall>a \<in> set (arena_list s). kmap a \<longrightarrow> (\<forall>i. \<not> aligned_run (pages s) a (unat count) ?al i))
       | Some p \<Rightarrow> found_run (pages s) (arena_list s) (unat count) ?al p ps"
    using alloc_contiguous_walk_ok [OF ai n al', of lst] by auto
  have e: "(if unat alog < PAGE_SIZE_SHIFT then PAGE_SIZE_SHIFT else unat alog) = ?al"
    by (simp add: PAGE_SIZE_SHIFT_def max_def)
  have "count \<noteq> 0" using n by auto
  then have "pmm_alloc_contiguous count alog lst s = Some (if pa = None then 0 else ucast count, pa,
      map_option (\<lambda>l. l @ ps) lst, s\<lparr>arena_list := as', pages := pg'\<rparr>)"
    using w(1) al' by (simp add: pmm_alloc_contiguous_def e)
  moreover have "s\<lparr>arena_list := as', pages := pg'\<rparr> = s" if "pa = None" using w(3) that by simp
  ultimately show ?thesis using w(3) took_handed_out [OF inv w(2)] by (cases pa) fastforce+
qed

end
