(* ===== verification/Pmm_Props.thy ===== *)
theory Pmm_Props
  imports Pmm_Contig
begin

text \<open>
  The physical memory manager as a system of calls, with the pages its clients hold as a
  ghost list, and its properties over every sequence of allowed calls.
\<close>

section \<open>The system\<close>

datatype pmm_call = AddArena pmm_arena | AllocPages u32 | AllocRange paddr_t u32
  | AllocContiguous u32 u8 | FreePages "page_ptr list"

type_synonym pmm_sys = "pmm_state \<times> page_ptr list"

definition pmm_boot :: "pmm_sys \<Rightarrow> bool" where
  "pmm_boot = (\<lambda>(s, h). arena_list s = [] \<and> h = [])"

text \<open>
  A client gives back pages it holds, each once. An arena is described truthfully, and a
  contiguous allocation stays within the documented range of alignments and below 2^31 pages.
\<close>

fun pmm_allowed :: "pmm_call \<Rightarrow> pmm_sys \<Rightarrow> bool" where
  "pmm_allowed (AddArena a) (s, h) \<longleftrightarrow> arena_addable a s"
| "pmm_allowed (AllocContiguous n al) (s, h) \<longleftrightarrow> unat n < 2 ^ 31 \<and> unat al \<le> 31"
| "pmm_allowed (FreePages ps) (s, h) \<longleftrightarrow> distinct ps \<and> set ps \<subseteq> set h"
| "pmm_allowed _ _ \<longleftrightarrow> True"

fun pmm_exec :: "pmm_call \<Rightarrow> pmm_sys \<Rightarrow> pmm_sys option" where
  "pmm_exec (AddArena a) (s, h) = do { (_, s) \<leftarrow> pmm_add_arena a s; Some (s, h) }"
| "pmm_exec (AllocPages n) (s, h) = (let (_, h, s) = pmm_alloc_pages n h s in Some (s, h))"
| "pmm_exec (AllocRange addr n) (s, h) = do { (_, h, s) \<leftarrow> pmm_alloc_range addr n h s; Some (s, h) }"
| "pmm_exec (AllocContiguous n al) (s, h) = do {
     (_, _, l, s) \<leftarrow> pmm_alloc_contiguous n al (Some h) s;
     h \<leftarrow> l;
     Some (s, h)
   }"
| "pmm_exec (FreePages ps) (s, h) = do {
     (_, s) \<leftarrow> pmm_free ps s;
     Some (s, filter (\<lambda>p. p \<notin> set ps) h)
   }"

definition pmm_good :: "pmm_sys \<Rightarrow> bool" where
  "pmm_good = (\<lambda>(s, h). pmm_inv s \<and> distinct h \<and> set h = held s)"

lemma good_handed_out: "pmm_good (s, h) \<Longrightarrow> handed_out ps s s' \<Longrightarrow> pmm_good (s', h @ ps)"
  by (auto simp: pmm_good_def handed_out_def)

lemma pmm_call_good:
  assumes g: "pmm_good (s, h)" and al: "pmm_allowed c (s, h)"
  shows "\<exists>t. pmm_exec c (s, h) = Some t \<and> pmm_good t"
proof -
  have inv: "pmm_inv s" and h: "distinct h" "set h = held s" using g by (auto simp: pmm_good_def)
  show ?thesis
  proof (cases c)
    case (AddArena a)
    then show ?thesis using pmm_add_arena_ok [OF inv, of a] al h by (auto simp: pmm_good_def)
  next
    case (AllocPages n)
    obtain ps s' where "pmm_alloc_pages n h s = (of_nat (length ps), h @ ps, s')" "handed_out ps s s'"
      using pmm_alloc_pages_ok [OF inv, of n h] by blast
    then show ?thesis using AllocPages good_handed_out [OF g] by auto
  next
    case (AllocRange addr n)
    obtain ps s' where "pmm_alloc_range addr n h s = Some (of_nat (length ps), h @ ps, s')" "handed_out ps s s'"
      using pmm_alloc_range_ok [OF inv, of addr n h] by blast
    then show ?thesis using AllocRange good_handed_out [OF g] by auto
  next
    case (AllocContiguous n a)
    show ?thesis
    proof (cases "n = 0")
      case True
      then show ?thesis using AllocContiguous g by (simp add: pmm_alloc_contiguous_def)
    next
      case False
      then obtain r pa ps s' where "pmm_alloc_contiguous n a (Some h) s = Some (r, pa, Some (h @ ps), s')" "handed_out ps s s'"
        using pmm_alloc_contiguous_ok [OF inv, of n a "Some h"] al AllocContiguous by (auto simp: unat_gt_0)
      then show ?thesis using AllocContiguous good_handed_out [OF g] by auto
    qed
  next
    case (FreePages ps)
    then obtain r s' where "pmm_free ps s = Some (r, s')" "given_back ps s s'"
      using pmm_free_ok [OF inv, of ps] al h by auto
    then show ?thesis using FreePages h by (auto simp: pmm_good_def given_back_def)
  qed
qed

interpretation pmms: guarded_system pmm_boot pmm_allowed pmm_exec pmm_good
proof
  fix s assume "pmm_boot s"
  then show "pmm_good s"
    by (cases s) (auto simp: pmm_boot_def pmm_good_def pmm_inv_def arenas_inv_def held_def nonfree_def)
next
  fix s c assume "pmm_good s" "pmm_allowed c s"
  then show "\<exists>s'. pmm_exec c s = Some s' \<and> pmm_good s'" using pmm_call_good by (cases s) auto
qed

abbreviation pmm_reach :: "pmm_sys \<Rightarrow> bool" where
  "pmm_reach \<equiv> reach pmm_boot pmm_allowed pmm_exec"

lemma reach_inv: "pmm_reach (s, h) \<Longrightarrow> pmm_inv s \<and> distinct h \<and> set h = held s"
  using pmms.reach_good [of "(s, h)"] by (simp add: pmm_good_def)

section \<open>Looking up an arena\<close>

lemma find_unique:
  assumes "a \<in> set as" "P a" and u: "\<And>b. b \<in> set as \<Longrightarrow> P b \<Longrightarrow> b = a"
  shows "find P as = Some a"
proof (cases "find P as")
  case None
  then show ?thesis using find_None_all assms by fast
next
  case (Some b)
  then show ?thesis using find_Some_mem u by fast
qed

lemma arenas_apart: "sorted_wrt apart as \<Longrightarrow> a \<in> set as \<Longrightarrow> b \<in> set as \<Longrightarrow> a \<noteq> b \<Longrightarrow> apart a b"
  using apart_sym by (induction as) auto

lemma find_address:
  assumes inv: "arenas_inv as pg" and a: "a \<in> set as" "ADDRESS_IN_ARENA addr a"
  shows "find (ADDRESS_IN_ARENA addr) as = Some a"
proof (rule find_unique [of a as])
  fix b assume b: "b \<in> set as" "ADDRESS_IN_ARENA addr b"
  show "b = a"
  proof (rule ccontr)
    assume "b \<noteq> a"
    then have "apart b a" using inv a b arenas_apart by (auto simp: arenas_inv_def)
    moreover have "arena_ok a" "arena_ok b" using inv a b by (simp_all add: arenas_inv_def)
    ultimately show False
      using a(2) b(2) address_in_arena [of a addr] address_in_arena [of b addr] unfolding apart_def by linarith
  qed
qed (use a in auto)

lemma find_page:
  assumes inv: "arenas_inv as pg" and a: "a \<in> set as" "i < npages a"
  shows "find (PAGE_BELONGS_TO_ARENA (pptr a i)) as = Some a"
proof (rule find_unique [of a as])
  show "PAGE_BELONGS_TO_ARENA (pptr a i) a" using inv a belongs_pptr by (simp add: arenas_inv_def)
  fix b assume b: "b \<in> set as" "PAGE_BELONGS_TO_ARENA (pptr a i) b"
  show "b = a"
  proof (rule ccontr)
    assume "b \<noteq> a"
    then have "apart a b" using inv a b arenas_apart by (auto simp: arenas_inv_def)
    then show False
      using inv a b belongs_apart [of a b "pptr a i"] by (auto simp: arenas_inv_def arena_pages_def)
  qed
qed (use a in auto)

lemma page_address:
  assumes ok: "arena_ok a" and "ADDRESS_IN_ARENA addr a"
  shows "PAGE_ADDRESS_FROM_ARENA (pptr a ((unat addr - unat (ar_base a)) div 4096)) a = ROUNDDOWN addr PAGE_SIZE"
proof -
  define b i where "b = unat (ar_base a)" and "i = (unat addr - b) div 4096"
  have f: "4096 dvd b" "b \<le> unat addr" using assms address_in_arena by (auto simp: arena_ok_def b_def)
  have i: "i < npages a" using address_index(2) [OF assms] by (simp add: i_def b_def)
  obtain k where k: "b = 4096 * k" using f(1) by blast
  define y where "y = unat addr - b"
  have "unat addr = 4096 * k + y" using f(2) k by (simp add: y_def)
  then have e: "b + i * 4096 = unat addr div 4096 * 4096" using k by (simp add: i_def)
  have lt: "b + i * 4096 < 2 ^ 64" using e unat_less64 [of addr] by simp
  have "unat (pptr a i - ar_page_array a) = i * 24"
    using unat_pptr [OF ok i] by (simp add: unat_sub word_le_nat_alt)
  then have "unat ((pptr a i - ar_page_array a) div sizeof_vm_page) = i"
    by (simp add: unat_div_distrib sizeof_vm_page_def)
  then have "unat (PAGE_ADDRESS_FROM_ARENA (pptr a i) a) = b + i * 4096"
    using lt by (simp add: PAGE_ADDRESS_FROM_ARENA_def unat_word_ariths unat_PAGE_SIZE b_def)
  also have "\<dots> = unat (ROUNDDOWN addr PAGE_SIZE)"
    using e unat_ROUNDDOWN [of addr 12] by (simp add: PAGE_SIZE_def PAGE_SIZE_SHIFT_def)
  finally show ?thesis unfolding i_def b_def by (rule word_unat_eq_iff [THEN iffD2])
qed

text \<open>A machine with two arenas of two and three pages.\<close>

definition ram0 :: pmm_arena where
  "ram0 = \<lparr>ar_name = ''sram'', ar_flags = 0, ar_priority = 0, ar_base = 0x10000, ar_size = 0x2000,
     ar_free_count = 0, ar_page_array = 0, ar_free_list = []\<rparr>"

definition ram1 :: pmm_arena where
  "ram1 = \<lparr>ar_name = ''sdram'', ar_flags = PMM_ARENA_FLAG_KMAP, ar_priority = 1, ar_base = 0x80000, ar_size = 0x3000,
     ar_free_count = 0, ar_page_array = 0, ar_free_list = []\<rparr>"

definition pmm0 :: pmm_state where
  "pmm0 = \<lparr>arena_list = [], pages = (\<lambda>_. \<lparr>pg_flags = 0, pg_ref = 0\<rparr>), boot_alloc_end = 0x9000\<rparr>"

lemma PAGE_SIZE_num: "PAGE_SIZE = 4096"
  by (simp add: PAGE_SIZE_def PAGE_SIZE_SHIFT_def shl1_def)

lemma page_free_zero: "page_is_free \<lparr>pg_flags = 0, pg_ref = 0\<rparr>"
  by (simp add: page_is_free_def)

lemma page_free_init: "\<forall>p. page_is_free (pg p) \<Longrightarrow> page_is_free (page_init ps pg p)"
  by (simp add: page_init_def page_free_zero)

lemma two_arenas:
  "\<exists>s a b. pmm_reach (s, []) \<and> arena_list s = [a, b] \<and> length (ar_free_list a) = 2 \<and> length (ar_free_list b) = 3
     \<and> ar_base a = 0x10000 \<and> ar_size a = 0x2000 \<and> ar_base b = 0x80000 \<and> ar_size b = 0x3000 \<and> kmap b
     \<and> (\<forall>p. page_is_free (pages s p))"
proof -
  have r0: "pmm_reach (pmm0, [])" by (rule reach_start) (simp add: pmm_boot_def pmm0_def)
  have a0: "pmm_allowed (AddArena ram0) (pmm0, [])"
    by (auto simp: arena_addable_def ram0_def pmm0_def npages_def)
  obtain s1 a where s1: "pmm_exec (AddArena ram0) (pmm0, []) = Some (s1, [])" "arena_list s1 = [a]" "ar_priority a = 0"
      "length (ar_free_list a) = 2" "ar_base a = 0x10000" "ar_size a = 0x2000" "boot_alloc_end s1 = 0x9030" "\<forall>p. page_is_free (pages s1 p)"
    by (simp add: page_free_init page_free_zero pmm_add_arena_def boot_alloc_mem_def ram0_def pmm0_def PAGE_SIZE_num IS_ALIGNED_def ALIGN_def
        ROUNDUP_def sizeof_vm_page_def Let_def)
  have r1: "pmm_reach (s1, [])" by (rule reach_call [OF r0 a0 s1(1)])
  have a1: "pmm_allowed (AddArena ram1) (s1, [])"
    using s1 by (auto simp: arena_addable_def ram1_def npages_def)
  obtain s2 b where s2: "pmm_exec (AddArena ram1) (s1, []) = Some (s2, [])" "arena_list s2 = [a, b]" "length (ar_free_list b) = 3"
      "ar_base b = 0x80000" "ar_size b = 0x3000" "kmap b" "\<forall>p. page_is_free (pages s2 p)"
    using s1 by (simp add: page_free_init PMM_ARENA_FLAG_KMAP_def pmm_add_arena_def boot_alloc_mem_def ram1_def PAGE_SIZE_num IS_ALIGNED_def ALIGN_def
        ROUNDUP_def sizeof_vm_page_def Let_def)
  have "pmm_reach (s2, [])" by (rule reach_call [OF r1 a1 s2(1)])
  then show ?thesis using s1 s2 by blast
qed

section \<open>Properties\<close>

text \<open>
  C25 Every physical page has one owner. After any sequence of arenas added, pages allocated
  (single pages, address ranges, contiguous runs) and pages freed by the clients that hold them:
  each page of each arena is either on the free list of its arena, once, or held by a client,
  once, and never both; the free count is the length of the free list; and the next allowed call
  runs without reaching one of the assertions of \<^verbatim>\<open>pmm.c\<close>.
\<close>

theorem pmm_pages_have_one_owner:
  assumes "pmm_reach (s, h)"
  shows "(\<forall>a \<in> set (arena_list s). distinct (ar_free_list a)
        \<and> ar_free_count a = of_nat (length (ar_free_list a))
        \<and> (\<forall>i < npages a. (pptr a i \<in> set (ar_free_list a)) \<noteq> (pptr a i \<in> set h)))
    \<and> distinct h
    \<and> (\<forall>c. pmm_allowed c (s, h) \<longrightarrow> pmm_exec c (s, h) \<noteq> None)"
proof -
  note inv = reach_inv [OF assms]
  have "distinct (ar_free_list a) \<and> ar_free_count a = of_nat (length (ar_free_list a))
      \<and> (\<forall>i < npages a. (pptr a i \<in> set (ar_free_list a)) \<noteq> (pptr a i \<in> set h))" if "a \<in> set (arena_list s)" for a
    using inv that by (auto simp: pmm_inv_def arenas_inv_def free_inv_def held_def nonfree_def arena_pages_def)
  then show ?thesis using inv pmms.reach_not_stuck [OF assms] by fastforce
qed

theorem pmm_pages_have_one_owner_witness:
  "\<exists>s a b. arena_list s = [a, b] \<and> length (ar_free_list a) = 2 \<and> distinct (ar_free_list a)
     \<and> ar_free_count a = 2 \<and> pmm_exec (AllocPages 2) (s, []) \<noteq> None"
proof -
  obtain s a b where r: "pmm_reach (s, [])" "arena_list s = [a, b]" "length (ar_free_list a) = 2"
    using two_arenas by blast
  have "pmm_allowed (AllocPages 2) (s, [])" by simp
  then have "pmm_exec (AllocPages 2) (s, []) \<noteq> None" "distinct (ar_free_list a) \<and> ar_free_count a = of_nat (length (ar_free_list a))"
    using pmm_pages_have_one_owner [OF r(1)] r(2) by (blast, simp)
  then show ?thesis using r(2,3) by auto
qed

text \<open>
  C26 The search for a contiguous run is correct and complete. For a count below 2^31 and an
  alignment of at most 2^31 bytes, \<^verbatim>\<open>pmm_alloc_contiguous\<close> returns: if some arena
  mapped by the kernel has \<open>count\<close> free consecutive pages at a multiple of the alignment
  (which is at least a page), it returns \<open>count\<close>, the address is such a multiple inside an
  arena, and exactly the pages of that run change hands; otherwise it returns 0 and nothing has changed.
\<close>

theorem pmm_alloc_contiguous_complete:
  assumes "pmm_reach (s, h)" "count \<noteq> 0" "unat count < 2 ^ 31" "unat alog \<le> 31"
  shows "\<exists>pa ps s'. pmm_alloc_contiguous count alog lst s
        = Some (if pa = None then 0 else ucast count, pa, map_option (\<lambda>l. l @ ps) lst, s')
      \<and> held s' = held s \<union> set ps \<and> set ps \<inter> held s = {} \<and> distinct ps
      \<and> (case pa of
          None \<Rightarrow> s' = s \<and> \<not> (\<exists>a \<in> set (arena_list s). \<exists>i. kmap a \<and> aligned_run (pages s) a (unat count) (max 12 (unat alog)) i)
        | Some p \<Rightarrow> 2 ^ unat alog dvd unat p \<and> (\<exists>a \<in> set (arena_list s). \<exists>i. kmap a \<and> ADDRESS_IN_ARENA p a
              \<and> free_run (pages s) a i (unat count) \<and> unat p = unat (ar_base a) + i * 4096
              \<and> ps = map (pptr a) [i..<i + unat count]))"
proof -
  have inv: "pmm_inv s" using reach_inv [OF assms(1)] by simp
  have n: "0 < unat count" using assms(2) by (simp add: unat_gt_0)
  let ?al = "max 12 (unat alog)"
  obtain pa ps s' where
    r: "pmm_alloc_contiguous count alog lst s = Some (if pa = None then 0 else ucast count, pa, map_option (\<lambda>l. l @ ps) lst, s')"
      "handed_out ps s s'"
      "case pa of None \<Rightarrow> ps = [] \<and> s' = s \<and> (\<forall>a \<in> set (arena_list s). kmap a \<longrightarrow> (\<forall>i. \<not> aligned_run (pages s) a (unat count) ?al i))
       | Some p \<Rightarrow> found_run (pages s) (arena_list s) (unat count) ?al p ps"
    using pmm_alloc_contiguous_ok [OF inv n assms(3,4), of lst] by blast
  have "2 ^ unat alog dvd unat p \<and> (\<exists>a \<in> set (arena_list s). \<exists>i. kmap a \<and> ADDRESS_IN_ARENA p a
      \<and> free_run (pages s) a i (unat count) \<and> unat p = unat (ar_base a) + i * 4096 \<and> ps = map (pptr a) [i..<i + unat count])"
    if eq: "pa = Some p" for p
  proof -
    obtain a i where a: "a \<in> set (arena_list s)" "kmap a" "aligned_run (pages s) a (unat count) ?al i"
        "unat p = unat (ar_base a) + i * 4096" "ps = map (pptr a) [i..<i + unat count]"
      using r(3) unfolding eq by (auto simp: found_run_def)
    have ok: "arena_ok a" using inv a(1) by (simp add: pmm_inv_def arenas_inv_def)
    have "i < npages a" using a(3) n by (auto simp: aligned_run_def free_run_def)
    then have "i * 4096 < unat (ar_size a)" using ok by (auto simp: npages_def arena_ok_def elim!: dvdE)
    then have "ADDRESS_IN_ARENA p a" using address_in_arena [OF ok] a(4) by simp
    moreover have "(2::nat) ^ unat alog dvd 2 ^ ?al" by (rule le_imp_power_dvd) simp
    then have "2 ^ unat alog dvd unat p" using a(3,4) by (auto simp: aligned_run_def intro: dvd_trans)
    ultimately show ?thesis using a by (auto simp: aligned_run_def)
  qed
  then show ?thesis using r by (intro exI [of _ pa] exI [of _ ps] exI [of _ s']) (auto simp: handed_out_def split: option.splits)
qed

theorem pmm_alloc_contiguous_complete_witness:
  "\<exists>s p s'. pmm_alloc_contiguous 2 13 None s = Some (2, Some p, None, s') \<and> 8192 dvd unat p
     \<and> card (held s') = card (held s) + 2"
proof -
  obtain s a b where r: "pmm_reach (s, [])" "arena_list s = [a, b]" "ar_base b = 0x80000" "ar_size b = 0x3000" "kmap b"
      "\<forall>p. page_is_free (pages s p)" using two_arenas by blast
  have run: "aligned_run (pages s) b 2 13 0"
    using r by (auto simp: aligned_run_def free_run_def npages_def)
  obtain pa ps s' where x: "pmm_alloc_contiguous 2 13 None s = Some (if pa = None then 0 else 2, pa, None, s')"
      "held s' = held s \<union> set ps" "set ps \<inter> held s = {}" "distinct ps"
      "case pa of
          None \<Rightarrow> s' = s \<and> \<not> (\<exists>a \<in> set (arena_list s). \<exists>i. kmap a \<and> aligned_run (pages s) a 2 13 i)
        | Some p \<Rightarrow> 8192 dvd unat p \<and> (\<exists>a \<in> set (arena_list s). \<exists>i. ps = map (pptr a) [i..<i + 2])"
    using pmm_alloc_contiguous_complete [OF r(1), of 2 13 None] by (fastforce split: option.splits)
  have h: "held s = {}" using r by (auto simp: held_def nonfree_def)
  show ?thesis
  proof (cases pa)
    case None
    then show ?thesis using x(5) run r(2,5) by auto
  next
    case (Some p)
    then have "length ps = 2" using x(5) by auto
    then have "card (set ps) = 2" using x(4) by (simp add: distinct_card)
    moreover have "8192 dvd unat p" using x(5) Some by simp
    moreover have "pmm_alloc_contiguous 2 13 None s = Some (2, Some p, None, s')" using x(1) Some by simp
    ultimately show ?thesis using x(2) h by (metis Un_empty_left add_0 card.empty)
  qed
qed

text \<open>
  C27 \<^verbatim>\<open>pmm_alloc_pages\<close> only ever uses the first arena. The comment says that the walk
  takes as many pages as it can from each arena in order; but when the free list of an arena runs
  out, the code leaves the function, so that the result is the smaller of the count and the
  free pages of the arena of the lowest priority number, and every other arena keeps its pages.
\<close>

theorem pmm_alloc_pages_first_arena:
  assumes "pmm_reach (s, h)" "arena_list s = a # as"
  shows "\<exists>ps s'. pmm_alloc_pages count lst s = (of_nat (length ps), lst @ ps, s')
      \<and> length ps = min (unat count) (length (ar_free_list a))
      \<and> tl (arena_list s') = as \<and> held s' = held s \<union> set ps \<and> distinct ps \<and> set ps \<inter> held s = {}"
proof -
  have "pmm_inv s" using reach_inv [OF assms(1)] by simp
  from pmm_alloc_pages_ok [OF this, of count lst] show ?thesis
    using assms(2) by (auto simp: handed_out_def)
qed

theorem pmm_alloc_pages_first_arena_witness:
  "\<exists>s a b ps s'. arena_list s = [a, b] \<and> length (ar_free_list a) = 2 \<and> length (ar_free_list b) = 3
     \<and> pmm_alloc_pages 4 [] s = (2, ps, s') \<and> tl (arena_list s') = [b]"
proof -
  obtain s a b where r: "pmm_reach (s, [])" "arena_list s = [a, b]" "length (ar_free_list a) = 2" "length (ar_free_list b) = 3"
    using two_arenas by blast
  show ?thesis using pmm_alloc_pages_first_arena [OF r(1,2), of 4 "[]"] r by fastforce
qed

text \<open>
  Addresses and page descriptors translate back and forth: for an address inside an arena,
  \<^verbatim>\<open>paddr_to_vm_page\<close> finds a descriptor, and \<^verbatim>\<open>vm_page_to_paddr\<close> of it is the address
  rounded down to its page, whatever other arenas there are.
\<close>

lemma pmm_address_roundtrip:
  assumes "pmm_reach (s, h)" "a \<in> set (arena_list s)" "ADDRESS_IN_ARENA addr a"
  shows "\<exists>p. paddr_to_vm_page addr s = Some p \<and> vm_page_to_paddr p s = ROUNDDOWN addr PAGE_SIZE"
proof -
  have inv: "arenas_inv (arena_list s) (pages s)" using reach_inv [OF assms(1)] by (simp add: pmm_inv_def)
  then have ok: "arena_ok a" using assms(2) by (simp add: arenas_inv_def)
  let ?i = "(unat addr - unat (ar_base a)) div 4096"
  note ix = address_index [OF ok assms(3)]
  have "(\<lambda>a. ar_base a \<le> addr \<and> addr \<le> ar_base a + ar_size a - 1) = ADDRESS_IN_ARENA addr"
    by (simp add: fun_eq_iff ADDRESS_IN_ARENA_def)
  then have "paddr_to_vm_page addr s = Some (pptr a ?i)"
    using find_address [OF inv assms(2,3)] ix(3) by (simp add: paddr_to_vm_page_def)
  moreover have "vm_page_to_paddr (pptr a ?i) s = ROUNDDOWN addr PAGE_SIZE"
    using find_page [OF inv assms(2) ix(2)] page_address [OF ok assms(3)] by (simp add: vm_page_to_paddr_def)
  ultimately show ?thesis by blast
qed

end
