(* ===== verification/Vmm_Ops.thy ===== *)
theory Vmm_Ops
  imports Vmm_Spot Pmm_Props "HOL-Library.Multiset"
begin

text \<open>
  The invariant of the virtual memory manager together with the physical one, and that every
  operation of \<^verbatim>\<open>vmm.c\<close> keeps it and reaches no assertion. The pages are counted in
  multisets: the pages of all regions and the pages of the other clients are, each once, the
  pages that the physical memory manager has handed out.
\<close>

section \<open>Owners of pages\<close>

definition owned :: "pmm_state \<Rightarrow> page_ptr multiset \<Rightarrow> bool" where
  "owned s M \<longleftrightarrow> pmm_inv s \<and> (\<forall>p. count M p = (if p \<in> held s then 1 else 0))"

lemma owned_handed_out: "owned s M \<Longrightarrow> handed_out ps s s' \<Longrightarrow> owned s' (M + mset ps)"
  by (auto simp: owned_def handed_out_def distinct_count_atmost_1)

lemma owned_free:
  assumes "owned s (M + mset ps)"
  shows "\<exists>r s'. pmm_free ps s = Some (r, s') \<and> owned s' M"
proof -
  have c: "count M p + count (mset ps) p = (if p \<in> held s then 1 else 0)" for p
    using assms by (simp add: owned_def)
  have le: "count (mset ps) p \<le> 1" for p using c [of p] by (metis add_leD2 order_refl zero_le_one)
  then have d: "distinct ps"
    by (metis One_nat_def Suc_leI count_greater_zero_iff distinct_count_atmost_1 le_antisym not_in_iff set_mset_mset Suc_leI)
  have sub: "set ps \<subseteq> held s"
  proof
    fix p assume "p \<in> set ps"
    then have "0 < count (mset ps) p" by (simp flip: set_mset_mset)
    then show "p \<in> held s" using c [of p] by (simp split: if_splits)
  qed
  obtain s' where s': "pmm_free ps s = Some (ucast (of_nat (length ps) :: u32), s')" "given_back ps s s'"
    using pmm_free_ok [OF _ d sub] assms by (auto simp: owned_def)
  have "count M p = (if p \<in> held s' then 1 else 0)" for p
    using c [of p] s'(2) d distinct_count_atmost_1 [of ps] by (auto simp: given_back_def split: if_splits)
  then show ?thesis using s' by (auto simp: owned_def given_back_def)
qed

lemma owned_alloc_pages:
  assumes "owned s M"
  shows "\<exists>ps s'. pmm_alloc_pages n lst s = (of_nat (length ps), lst @ ps, s') \<and> owned s' (M + mset ps)
     \<and> length ps \<le> unat n \<and> set ps \<subseteq> held s'"
proof -
  have "pmm_inv s" using assms by (simp add: owned_def)
  from pmm_alloc_pages_ok [OF this, of n lst] show ?thesis
    using owned_handed_out [OF assms] by (fastforce simp: handed_out_def split: list.splits)
qed

lemma owned_alloc_contiguous:
  assumes "owned s M" "0 < unat n" "unat n < 2 ^ 31" "unat al \<le> 31"
  shows "\<exists>pa ps s'. pmm_alloc_contiguous n al (Some lst) s = Some (if pa = None then 0 else ucast n, pa, Some (lst @ ps), s')
     \<and> owned s' (M + mset ps) \<and> (pa = None \<longrightarrow> ps = [])"
proof -
  have "pmm_inv s" using assms(1) by (simp add: owned_def)
  from pmm_alloc_contiguous_ok [OF this assms(2-4), of "Some lst"] show ?thesis
    using owned_handed_out [OF assms(1)] by (fastforce split: option.splits)
qed

lemma held_page_aligned:
  assumes inv: "pmm_inv s" and p: "p \<in> held s"
  shows "4096 dvd unat (vm_page_to_paddr p s)"
proof -
  have ai: "arenas_inv (arena_list s) (pages s)" using inv by (simp add: pmm_inv_def)
  obtain a i where a: "a \<in> set (arena_list s)" "i < npages a" "p = pptr a i"
    using p by (auto simp: held_def nonfree_def arena_pages_def)
  have ok: "arena_ok a" using ai a by (simp add: arenas_inv_def)
  have "vm_page_to_paddr p s = PAGE_ADDRESS_FROM_ARENA p a"
    using find_page [OF ai a(1,2)] a(3) by (simp add: vm_page_to_paddr_def)
  moreover have "4096 dvd unat (x * PAGE_SIZE + ar_base a)" for x :: u64
  proof -
    have "unat (x * PAGE_SIZE + ar_base a) = (unat x * 4096 + unat (ar_base a)) mod 2 ^ 64"
      by (simp add: unat_word_ariths unat_PAGE_SIZE mod_simps)
    moreover have "(4096::nat) dvd 2 ^ 64" by simp
    moreover have "4096 dvd unat x * 4096 + unat (ar_base a)" using ok by (simp add: arena_ok_def)
    ultimately show ?thesis by (metis dvd_mod)
  qed
  ultimately show ?thesis by (simp add: PAGE_ADDRESS_FROM_ARENA_def)
qed

section \<open>The invariant\<close>

definition aspace_pages :: "vmm_aspace \<Rightarrow> page_ptr multiset" where
  "aspace_pages a = (\<Sum>r\<leftarrow>region_list a. mset (rg_page_list r))"

definition pages_of :: "(aspace_ptr \<Rightarrow> vmm_aspace) \<Rightarrow> aspace_ptr list \<Rightarrow> page_ptr multiset" where
  "pages_of f L = (\<Sum>p\<leftarrow>L. aspace_pages (f p))"

definition vmm_inv :: "vmm_state \<Rightarrow> page_ptr multiset \<Rightarrow> bool" where
  "vmm_inv s M \<longleftrightarrow> distinct (aspace_list s) \<and> kernel_aspace \<in> set (aspace_list s)
     \<and> (\<forall>p \<in> set (aspace_list s). aspace_ok (aspaces s p))
     \<and> owned (vm_pmm s) (pages_of (aspaces s) (aspace_list s) + M)"

lemma pages_of_remove1: "p \<in> set L \<Longrightarrow> pages_of f L = aspace_pages (f p) + pages_of f (remove1 p L)"
  unfolding pages_of_def by (rule sum_list_map_remove1)

lemma pages_of_update: "p \<notin> set L \<Longrightarrow> pages_of (f(p := a)) L = pages_of f L"
  unfolding pages_of_def by (intro arg_cong [of _ _ sum_list] map_cong) auto

lemma mmu_do_simps [simp]:
  "aspaces (mmu_do ops s) = aspaces s" "aspace_list (mmu_do ops s) = aspace_list s"
  "vm_pmm (mmu_do ops s) = vm_pmm s" "thr_aspace (mmu_do ops s) = thr_aspace s"
  by (simp_all add: mmu_do_def)

lemma set_aspace_simps [simp]:
  "aspaces (set_aspace p a s) = (aspaces s)(p := a)" "aspace_list (set_aspace p a s) = aspace_list s"
  "vm_pmm (set_aspace p a s) = vm_pmm s" "thr_aspace (set_aspace p a s) = thr_aspace s"
  by (simp_all add: set_aspace_def)

lemma vmm_inv_cong:
  "aspaces s' = aspaces s \<Longrightarrow> aspace_list s' = aspace_list s \<Longrightarrow> vm_pmm s' = vm_pmm s \<Longrightarrow>
   vmm_inv s' M = vmm_inv s M"
  by (simp add: vmm_inv_def)

lemma vmm_inv_mmu_do [simp]: "vmm_inv (mmu_do ops s) M = vmm_inv s M"
  by (rule vmm_inv_cong) simp_all

lemma vmm_inv_pmm:
  "vmm_inv s M \<Longrightarrow> owned pmm (pages_of (aspaces s) (aspace_list s) + M') \<Longrightarrow> vmm_inv (s\<lparr>vm_pmm := pmm\<rparr>) M'"
  by (simp add: vmm_inv_def)

text \<open>Replacing one address space, whose pages change by what the physical memory manager has handed out or got back.\<close>

lemma vmm_inv_update:
  assumes inv: "vmm_inv s M" and p: "ap \<in> set (aspace_list s)" and ok: "aspace_ok a'"
    and own: "owned pmm (aspace_pages a' + (pages_of (aspaces s) (remove1 ap (aspace_list s)) + M))"
  shows "vmm_inv ((set_aspace ap a' s)\<lparr>vm_pmm := pmm\<rparr>) M"
proof -
  have d: "distinct (aspace_list s)" using inv by (simp add: vmm_inv_def)
  then have "ap \<notin> set (remove1 ap (aspace_list s))" by simp
  then have "pages_of ((aspaces s)(ap := a')) (aspace_list s)
      = aspace_pages a' + pages_of (aspaces s) (remove1 ap (aspace_list s))"
    using pages_of_remove1 [OF p, of "(aspaces s)(ap := a')"] pages_of_update by simp
  then show ?thesis using inv ok own by (auto simp: vmm_inv_def add.assoc)
qed

lemma vmm_inv_split:
  assumes "vmm_inv s M" "ap \<in> set (aspace_list s)"
  shows "aspace_ok (aspaces s ap)"
    "owned (vm_pmm s) (aspace_pages (aspaces s ap) + (pages_of (aspaces s) (remove1 ap (aspace_list s)) + M))"
  using assms pages_of_remove1 [OF assms(2), of "aspaces s"] by (auto simp: vmm_inv_def add.assoc)

lemma set_pmm_set_aspace: "set_aspace ap a (s\<lparr>vm_pmm := pmm\<rparr>) = (set_aspace ap a s)\<lparr>vm_pmm := pmm\<rparr>"
  by (simp add: set_aspace_def)

lemma pages_link: "rg_page_list r = [] \<Longrightarrow> aspace_pages (link_region i r a) = aspace_pages a"
proof -
  assume r: "rg_page_list r = []"
  have "aspace_pages (link_region i r a) = (\<Sum>r\<leftarrow>take i (region_list a) @ drop i (region_list a). mset (rg_page_list r))"
    unfolding aspace_pages_def link_region_def using r by (simp del: append_take_drop_id)
  then show ?thesis by (simp add: aspace_pages_def)
qed

lemma set_pages_link:
  assumes "between (region_list a) r i" "rg_page_list r = []"
  shows "set_pages i ps (link_region i r a) = link_region i (r\<lparr>rg_page_list := ps\<rparr>) a"
proof -
  have "i = length (take i (region_list a))" using assms(1) by (simp add: between_def min_def)
  then have "(take i (region_list a) @ r # drop i (region_list a))[i := x] = take i (region_list a) @ x # drop i (region_list a)" for x
    by (metis list_update_length)
  then show ?thesis using linked_at [OF assms(1)] assms(2) by (simp add: set_pages_def link_region_def)
qed

lemma pages_link_pages: "aspace_pages (link_region i r a) = aspace_pages a + mset (rg_page_list r)"
proof -
  have "aspace_pages (link_region i r a)
      = (\<Sum>r\<leftarrow>take i (region_list a) @ drop i (region_list a). mset (rg_page_list r)) + mset (rg_page_list r)"
    unfolding aspace_pages_def link_region_def by (simp del: append_take_drop_id add: ac_simps)
  then show ?thesis by (simp add: aspace_pages_def)
qed

lemma region_ok_pages [simp]: "region_ok a (r\<lparr>rg_page_list := ps\<rparr>) = region_ok a r"
  by (simp add: region_ok_def rbeg_def rfin_def)

lemma between_pages [simp]: "between qs (r\<lparr>rg_page_list := ps\<rparr>) i = between qs r i"
  by (simp add: between_def rbefore_def rbeg_def rfin_def)

lemma region_made_ok: "aspace_ok a \<Longrightarrow> region_made a name sz rf af i a' r \<Longrightarrow> aspace_ok a' \<and> aspace_pages a' = aspace_pages a"
  using link_region_ok pages_link by (auto simp: region_made_def)

lemma region_made_pages:
  assumes "aspace_ok a" "region_made a name sz rf af i a' r"
  shows "aspace_ok (set_pages i ps a') \<and> aspace_pages (set_pages i ps a') = aspace_pages a + mset ps"
proof -
  have "set_pages i ps a' = link_region i (r\<lparr>rg_page_list := ps\<rparr>) a"
    using assms(2) set_pages_link by (auto simp: region_made_def)
  moreover have "aspace_ok (link_region i (r\<lparr>rg_page_list := ps\<rparr>) a)"
    using assms by (intro link_region_ok) (auto simp: region_made_def)
  ultimately show ?thesis by (simp add: pages_link_pages)
qed

section \<open>Operations\<close>

lemma page_aligned_iff: "IS_PAGE_ALIGNED w \<longleftrightarrow> 4096 dvd unat w"
  using IS_ALIGNED_iff [of w 12] by (simp add: IS_PAGE_ALIGNED_def PAGE_SIZE_def PAGE_SIZE_SHIFT_def)

lemma roundup_page: "4096 dvd unat (ROUNDUP w PAGE_SIZE)"
proof -
  have "ROUNDUP w PAGE_SIZE = ROUNDDOWN (w + (PAGE_SIZE - 1)) PAGE_SIZE" by (simp add: ROUNDUP_def ROUNDDOWN_def)
  then show ?thesis using unat_ROUNDDOWN [of _ 12] by (simp add: PAGE_SIZE_def PAGE_SIZE_SHIFT_def)
qed

lemma trim_to_aspace_ok:
  assumes ok: "aspace_ok a" and v: "is_inside_aspace a v" "4096 dvd unat v" and z: "sz \<noteq> 0" "4096 dvd unat sz"
  shows "\<exists>t. trim_to_aspace a v sz = Some t \<and> unat t = min (unat sz) (as_end a - unat v)"
proof -
  define off where "off = v - as_base a"
  have b: "as_beg a \<le> unat v" "unat v < as_end a" using is_inside_aspace_iff [OF ok] v(1) by auto
  have o: "unat off = unat v - as_beg a" using b(1) by (simp add: off_def unat_sub word_le_nat_alt as_beg_def)
  have asz: "as_size a \<noteq> 0" "4096 dvd unat (as_size a)" "4096 dvd as_beg a" using ok by (auto simp: aspace_ok_def)
  have olt: "unat off < unat (as_size a)" using b o by (auto simp: as_end_def)
  then have rest: "unat (as_size a - off) = as_end a - unat v"
    using o b by (simp add: unat_sub word_le_nat_alt as_end_def)
  have s1: "unat (as_size a - 1) = unat (as_size a) - 1" using asz(1) by (rule unat_minus_one)
  have d: "4096 dvd unat off + unat sz" using o b(1) v(2) asz(3) z(2) by (simp add: dvd_diff_nat)
  let ?t = "if off + sz < off then - 1 - off - 1 else sz"
  let ?u = "if off + ?t \<ge> as_size a - 1 then as_size a - off else ?t"
  have "unat ?u = min (unat sz) (as_end a - unat v)"
  proof (cases "unat off + unat sz < 2 ^ 64")
    case True
    then have s: "unat (off + sz) = unat off + unat sz" by (simp add: unat_word_ariths)
    then have "\<not> off + sz < off" by (simp add: word_less_nat_alt)
    moreover have "off + sz \<ge> as_size a - 1 \<longleftrightarrow> unat (as_size a) \<le> unat off + unat sz"
    proof -
      have "unat off + unat sz \<noteq> unat (as_size a) - 1"
      proof
        assume "unat off + unat sz = unat (as_size a) - 1"
        then have "4096 dvd unat (as_size a) - (unat (as_size a) - 1)" using d asz(2) by (metis dvd_diff_nat)
        then show False using asz(1) unat_gt_0 [of "as_size a"] by simp
      qed
      then show ?thesis using s s1 by (simp add: word_le_nat_alt) linarith
    qed
    moreover have "unat (as_size a) \<le> unat off + unat sz \<longleftrightarrow> as_end a - unat v \<le> unat sz"
      using o b by (simp add: as_end_def) linarith
    ultimately show ?thesis using rest by (simp add: min_def)
  next
    case False
    have "unat (off + sz) = unat off + unat sz - 2 ^ 64"
      using False unat_less64 [of off] unat_less64 [of sz] by (simp add: unat_word_ariths mod_if)
    then have w: "off + sz < off" using False unat_less64 [of sz] by (simp add: word_less_nat_alt)
    have "off + (- 1 - off - 1) = - 2" by simp
    moreover have "as_size a - 1 \<le> - 2"
    proof -
      have "(- 2 :: u64) = 0xFFFFFFFFFFFFFFFE" by simp
      then have "unat (- 2 :: u64) = 2 ^ 64 - 2" by (simp only:) simp
      then show ?thesis using s1 unat_less64 [of "as_size a"] by (simp add: word_le_nat_alt)
    qed
    ultimately have "?u = as_size a - off" using w by simp
    moreover have "as_end a - unat v \<le> unat sz" using False o b unat_less64 [of "as_size a"] by (simp add: as_end_def)
    ultimately show ?thesis using rest by (simp add: min_def)
  qed
  then show ?thesis using v(1) z(1) by (intro exI [of _ ?u]) (simp add: trim_to_aspace_def off_def Let_def)
qed

text \<open>Either no region, or one that is linked in.\<close>

lemma alloc_region_made:
  fixes vf :: u32 and al :: u8 and vaddr sz :: u64
  assumes "aspace_ok a" "sz \<noteq> 0" "4096 dvd unat sz"
    "if vf AND VMM_FLAG_VALLOC_SPECIFIC \<noteq> 0 then 4096 dvd unat vaddr else unat al < 64"
  obtains "alloc_region mem a name sz vaddr al vf rf af = Some None"
  | i a' r where "alloc_region mem a name sz vaddr al vf rf af = Some (Some (i, a'))"
      "region_made a name sz rf af i a' r" "region_list a' ! i = r"
proof -
  obtain res where res: "alloc_region mem a name sz vaddr al vf rf af = Some res"
    "res \<noteq> None \<Longrightarrow> \<exists>i a' r. res = Some (i, a') \<and> region_made a name sz rf af i a' r"
    using alloc_region_ok [OF assms, of mem name rf af] by (fastforce split: option.splits)
  show thesis
  proof (cases res)
    case None
    then show ?thesis using res that(1) by blast
  next
    case (Some x)
    then obtain i a' r where r: "res = Some (i, a')" "region_made a name sz rf af i a' r" using res(2) by blast
    then have "region_list a' ! i = r" using linked_at by (auto simp: region_made_def)
    then show ?thesis using r res(1) that(2) by blast
  qed
qed

lemma vmm_inv_made:
  assumes inv: "vmm_inv s M" and ap: "ap \<in> set (aspace_list s)" and r: "region_made (aspaces s ap) name sz rf af i a' r"
  shows "vmm_inv (set_aspace ap a' s) M"
proof -
  have "vmm_inv ((set_aspace ap a' s)\<lparr>vm_pmm := vm_pmm s\<rparr>) M"
    using vmm_inv_split [OF inv ap] region_made_ok [OF _ r] by (intro vmm_inv_update [OF inv ap]) auto
  then show ?thesis by (simp add: vmm_inv_def)
qed

lemma specific_one: "VMM_FLAG_VALLOC_SPECIFIC AND VMM_FLAG_VALLOC_SPECIFIC \<noteq> 0"
  by (simp add: lk_defs)

lemma vmm_reserve_space_ok:
  assumes inv: "vmm_inv s M" and ap: "ap \<in> set (aspace_list s)" and al: "4096 dvd unat vaddr" "4096 dvd unat sz"
  shows "\<exists>e s'. vmm_reserve_space mem query ap name sz vaddr s = Some (e, s') \<and> vmm_inv s' M \<and> aspace_list s' = aspace_list s"
proof (cases "sz = 0 \<or> \<not> is_inside_aspace (aspaces s ap) vaddr")
  case True
  then show ?thesis using inv al by (auto simp: vmm_reserve_space_def page_aligned_iff Let_def)
next
  case False
  note sp = vmm_inv_split [OF inv ap]
  obtain t where t: "trim_to_aspace (aspaces s ap) vaddr sz = Some t" "unat t = min (unat sz) (as_end (aspaces s ap) - unat vaddr)"
    using trim_to_aspace_ok [OF sp(1)] False al by blast
  have t0: "t \<noteq> 0" using t(2) False is_inside_aspace_iff [OF sp(1), of vaddr] unat_gt_0 [of sz] by (auto simp: min_def split: if_splits)
  have t4: "4096 dvd unat t" using t(2) al sp(1) by (auto simp: min_def aspace_ok_def as_end_def dvd_diff_nat)
  show ?thesis
  proof (rule alloc_region_made [OF sp(1) t0 t4, of VMM_FLAG_VALLOC_SPECIFIC vaddr 0 mem "case name of None \<Rightarrow> '''' | Some n \<Rightarrow> n"
        VMM_REGION_FLAG_RESERVED "case query ap vaddr of Some (_, flags) \<Rightarrow> flags | None \<Rightarrow> 0"])
    show "if VMM_FLAG_VALLOC_SPECIFIC AND VMM_FLAG_VALLOC_SPECIFIC \<noteq> 0 then 4096 dvd unat vaddr else unat (0 :: u8) < 64"
      using al specific_one by simp
  qed (use False al t(1) inv vmm_inv_made [OF inv ap]
      in \<open>auto simp: vmm_reserve_space_def page_aligned_iff Let_def\<close>)
qed

lemma vmm_alloc_physical_ok:
  assumes inv: "vmm_inv s M" and ap: "ap \<in> set (aspace_list s)" and al: "4096 dvd unat paddr" "4096 dvd unat sz"
    and sp: "if vf AND VMM_FLAG_VALLOC_SPECIFIC \<noteq> 0 then \<forall>v. ptr = Some v \<longrightarrow> 4096 dvd unat v else unat alog < 64"
  shows "\<exists>e p s'. vmm_alloc_physical mem ap name sz ptr alog paddr vf af s = Some (e, p, s') \<and> vmm_inv s' M"
proof (cases "sz = 0 \<or> (vf AND VMM_FLAG_VALLOC_SPECIFIC \<noteq> 0 \<and> ptr = None)")
  case True
  then show ?thesis using inv al by (auto simp: vmm_alloc_physical_def page_aligned_iff Let_def)
next
  case False
  note ok = vmm_inv_split [OF inv ap]
  let ?v = "if vf AND VMM_FLAG_VALLOC_SPECIFIC \<noteq> 0 then the ptr else 0"
  show ?thesis
  proof (rule alloc_region_made [OF ok(1) _ al(2), of vf ?v alog mem "case name of None \<Rightarrow> '''' | Some n \<Rightarrow> n" VMM_REGION_FLAG_PHYSICAL af])
    show "if vf AND VMM_FLAG_VALLOC_SPECIFIC \<noteq> 0 then 4096 dvd unat ?v else unat alog < 64"
      using sp False by auto
  qed (use False al inv vmm_inv_made [OF inv ap]
      in \<open>auto simp: vmm_alloc_physical_def page_aligned_iff Let_def\<close>)
qed

lemma vmm_inv_made_pages:
  assumes inv: "vmm_inv s M" and ap: "ap \<in> set (aspace_list s)" and r: "region_made (aspaces s ap) name sz rf af i a' r"
    and own: "owned pmm (pages_of (aspaces s) (aspace_list s) + M + mset ps)"
  shows "vmm_inv ((set_aspace ap (set_pages i ps a') s)\<lparr>vm_pmm := pmm\<rparr>) M"
proof -
  note ok = vmm_inv_split [OF inv ap]
  note made = region_made_pages [OF ok(1) r, of ps]
  show ?thesis
    using made own pages_of_remove1 [OF ap, of "aspaces s"]
    by (intro vmm_inv_update [OF inv ap]) (auto simp: ac_simps)
qed

lemma vmm_inv_owned: "vmm_inv s M \<Longrightarrow> owned (vm_pmm s) (pages_of (aspaces s) (aspace_list s) + M)"
  by (simp add: vmm_inv_def)

lemma unat_page_count: "unat (sz div PAGE_SIZE) = unat sz div 4096"
  by (simp add: unat_div_distrib unat_PAGE_SIZE)

text \<open>The pages taken for a region go back when there is no place for it.\<close>

lemma vmm_inv_give_back:
  assumes "vmm_inv s M" "owned pmm (pages_of (aspaces s) (aspace_list s) + M + mset ps)"
  shows "\<exists>r pmm'. pmm_free ps pmm = Some (r, pmm') \<and> vmm_inv (s\<lparr>vm_pmm := pmm'\<rparr>) M"
  using owned_free [OF assms(2)] vmm_inv_pmm [OF assms(1)] by blast

lemma vmm_alloc_contiguous_ok:
  fixes sz :: u64 and vf :: u32
  defines "z \<equiv> ROUNDUP sz PAGE_SIZE"
  assumes inv: "vmm_inv s M" and ap: "ap \<in> set (aspace_list s)" and n: "unat z div 4096 < 2 ^ 31" "unat al \<le> 31"
    and sp: "vf AND VMM_FLAG_VALLOC_SPECIFIC \<noteq> 0 \<Longrightarrow> \<forall>v. ptr = Some v \<longrightarrow> 4096 dvd unat v"
  shows "\<exists>e p s'. vmm_alloc_contiguous mem ap name sz ptr al vf af s = Some (e, p, s') \<and> vmm_inv s' M"
proof (cases "z = 0 \<or> (vf AND VMM_FLAG_VALLOC_SPECIFIC \<noteq> 0 \<and> ptr = None)")
  case True
  then show ?thesis using inv by (auto simp: vmm_alloc_contiguous_def z_def Let_def)
next
  case False
  then have z: "z \<noteq> 0" "4096 dvd unat z" by (simp_all add: z_def roundup_page)
  note ok = vmm_inv_split [OF inv ap]
  let ?n = "ucast (z div PAGE_SIZE) :: u32"
  have un: "unat ?n = unat z div 4096"
    using n(1) unat_page_count [of z] by (simp add: unsigned_ucast_eq take_bit_nat_eq_self)
  have pos: "0 < unat z div 4096" using z unat_gt_0 [of z] by (auto simp: div_greater_zero_iff dest: dvd_imp_le)
  have bk: "ucast ?n = z div PAGE_SIZE" using un unat_page_count [of z] by (simp add: word_unat_eq_iff unat_u32_64)
  obtain pa ps pmm where c: "pmm_alloc_contiguous ?n al (Some []) (vm_pmm s)
      = Some (if pa = None then 0 else ucast ?n, pa, Some ps, pmm)"
      "owned pmm (pages_of (aspaces s) (aspace_list s) + M + mset ps)" "pa = None \<longrightarrow> ps = []"
    using owned_alloc_contiguous [OF vmm_inv_owned [OF inv], of ?n al "[]"] un pos n by auto
  have gt: "0 < z div PAGE_SIZE" using pos unat_page_count [of z] by (simp add: word_less_nat_alt)
  show ?thesis
  proof (cases pa)
    case None
    then have "vmm_inv (s\<lparr>vm_pmm := pmm\<rparr>) M" using c(2,3) vmm_inv_pmm [OF inv] by simp
    then show ?thesis using False c(1) None gt by (auto simp: vmm_alloc_contiguous_def z_def [symmetric] Let_def)
  next
    case (Some p)
    let ?v = "if vf AND VMM_FLAG_VALLOC_SPECIFIC \<noteq> 0 then the ptr else 0"
    show ?thesis
    proof (rule alloc_region_made [OF ok(1) z, of vf ?v al mem "case name of None \<Rightarrow> '''' | Some n \<Rightarrow> n" VMM_REGION_FLAG_PHYSICAL af])
      show "if vf AND VMM_FLAG_VALLOC_SPECIFIC \<noteq> 0 then 4096 dvd unat ?v else unat al < 64"
        using sp False n by auto
    qed (use False c(1) Some bk vmm_inv_give_back [OF inv c(2)] vmm_inv_made_pages [OF inv ap _ c(2)]
        in \<open>auto simp: vmm_alloc_contiguous_def z_def [symmetric] Let_def set_pmm_set_aspace\<close>)
  qed
qed

lemma map_pages_ok:
  assumes ok: "aspace_ok a" "region_ok a r" and pg: "\<forall>p \<in> set ps. 4096 dvd unat (vm_page_to_paddr p pmm)"
    and len: "k + length ps * 4096 \<le> unat (rg_size r)" and va: "ps = [] \<or> unat va = rbeg r + k"
  shows "\<exists>ops. map_pages ap r af pmm va ps = Some ops"
  using pg len va
proof (induction ps arbitrary: k va)
  case Nil
  then show ?case by simp
next
  case (Cons p ps)
  have b: "rbeg r + k + 4096 + length ps * 4096 \<le> rfin r" using Cons.prems(2) by (simp add: rfin_def)
  have e: "rfin r \<le> 2 ^ 64" using ok by (simp add: aspace_ok_def region_ok_def)
  have "unat (last_byte r) = rfin r - 1"
    using unat_range_last [of "rg_size r" "rg_base r"] ok e by (simp add: last_byte_def rfin_def rbeg_def region_ok_def)
  then have "va \<le> last_byte r" using Cons.prems(3) b by (simp add: word_le_nat_alt)
  moreover have "IS_PAGE_ALIGNED (vm_page_to_paddr p pmm)" using Cons.prems(1) by (simp add: page_aligned_iff)
  moreover have "ps = [] \<or> unat (va + PAGE_SIZE) = rbeg r + (k + 4096)"
  proof (cases "ps = []")
    case False
    then have "0 < length ps" by simp
    moreover have "unat va = rbeg r + k" using Cons.prems(3) by simp
    ultimately have "unat va + 4096 < 2 ^ 64" using b e by linarith
    then show ?thesis using Cons.prems(3) by (simp add: unat_word_ariths unat_PAGE_SIZE)
  qed simp
  moreover have "\<exists>ops. map_pages ap r af pmm (va + PAGE_SIZE) ps = Some ops"
    using Cons.IH [of "k + 4096" "va + PAGE_SIZE"] Cons.prems(1,2) calculation(3) by auto
  ultimately show ?case by auto
qed

lemma vmm_alloc_ok:
  fixes sz :: u64 and vf :: u32
  assumes inv: "vmm_inv s M" and ap: "ap \<in> set (aspace_list s)"
    and sp: "if vf AND VMM_FLAG_VALLOC_SPECIFIC \<noteq> 0 then \<forall>v. ptr = Some v \<longrightarrow> 4096 dvd unat v else unat al < 64"
  shows "\<exists>e p s'. vmm_alloc mem ap name sz ptr al vf af s = Some (e, p, s') \<and> vmm_inv s' M"
proof (cases "ROUNDUP sz PAGE_SIZE = 0 \<or> (vf AND VMM_FLAG_VALLOC_SPECIFIC \<noteq> 0 \<and> ptr = None)")
  case True
  then show ?thesis using inv by (auto simp: vmm_alloc_def Let_def)
next
  case False
  define z where "z = ROUNDUP sz PAGE_SIZE"
  have z: "z \<noteq> 0" "4096 dvd unat z" using False by (simp_all add: z_def roundup_page)
  note ok = vmm_inv_split [OF inv ap]
  let ?n = "ucast (z div PAGE_SIZE) :: u32"
  have un: "unat ?n \<le> unat z div 4096"
    using unat_page_count [of z] by (simp add: unsigned_ucast_eq take_bit_nat_less_eq_self)
  obtain ps pmm where c: "pmm_alloc_pages ?n [] (vm_pmm s) = (of_nat (length ps), ps, pmm)"
      "owned pmm (pages_of (aspaces s) (aspace_list s) + M + mset ps)" "length ps \<le> unat ?n" "set ps \<subseteq> held pmm"
    using owned_alloc_pages [OF vmm_inv_owned [OF inv], of ?n "[]"] by auto
  have len: "length ps \<le> unat z div 4096" using c(3) un by simp
  then have lz: "length ps * 4096 \<le> unat z" "length ps \<le> unat z" by auto
  have "unat (of_nat (length ps) :: u64) = length ps"
    using lz(2) unat_less64 [of z] by (simp add: unsigned_of_nat take_bit_nat_eq_self)
  then have cnt: "of_nat (length ps) \<le> z" using lz(2) by (simp add: word_le_nat_alt)
  have al: "\<forall>p \<in> set ps. 4096 dvd unat (vm_page_to_paddr p pmm)"
    using c(2,4) held_page_aligned by (auto simp: owned_def)
  let ?v = "if vf AND VMM_FLAG_VALLOC_SPECIFIC \<noteq> 0 then the ptr else 0"
  show ?thesis
  proof (rule alloc_region_made [OF ok(1) z, of vf ?v al mem "case name of None \<Rightarrow> '''' | Some n \<Rightarrow> n" VMM_REGION_FLAG_PHYSICAL af])
    show "if vf AND VMM_FLAG_VALLOC_SPECIFIC \<noteq> 0 then 4096 dvd unat ?v else unat al < 64"
      using sp False by auto
  next
    assume "alloc_region mem (aspaces s ap) (case name of None \<Rightarrow> '''' | Some n \<Rightarrow> n) z ?v al vf VMM_REGION_FLAG_PHYSICAL af = Some None"
    then show ?thesis using False c(1) cnt vmm_inv_give_back [OF inv c(2)]
      by (auto simp: vmm_alloc_def z_def [symmetric] Let_def)
  next
    fix i a' r
    assume r: "alloc_region mem (aspaces s ap) (case name of None \<Rightarrow> '''' | Some n \<Rightarrow> n) z ?v al vf VMM_REGION_FLAG_PHYSICAL af = Some (Some (i, a'))"
      "region_made (aspaces s ap) (case name of None \<Rightarrow> '''' | Some n \<Rightarrow> n) z VMM_REGION_FLAG_PHYSICAL af i a' r" "region_list a' ! i = r"
    have rok: "region_ok (aspaces s ap) r" "rg_size r = z" using r(2) by (simp_all add: region_made_def)
    then have "IS_PAGE_ALIGNED (rg_base r)" by (simp add: page_aligned_iff region_ok_def rbeg_def)
    moreover obtain ops where "map_pages ap r af pmm (rg_base r) ps = Some ops"
      using map_pages_ok [OF ok(1) rok(1) al, of 0 "rg_base r"] lz(1) rok(2) by (auto simp: rbeg_def)
    ultimately show ?thesis using False c(1) cnt r vmm_inv_give_back [OF inv c(2)] vmm_inv_made_pages [OF inv ap r(2) c(2)]
      by (auto simp: vmm_alloc_def z_def [symmetric] Let_def set_pmm_set_aspace)
  qed
qed

lemma find_walk_Some:
  "find_walk v i rs = Some j \<Longrightarrow> i \<le> j \<and> j - i < length rs \<and> rg_base (rs ! (j - i)) \<le> v \<and> v \<le> last_byte (rs ! (j - i))"
proof (induction rs arbitrary: i)
  case (Cons r rs)
  show ?case
  proof (cases "rg_base r \<le> v \<and> v \<le> last_byte r")
    case False
    then have j: "i + 1 \<le> j" "j - (i + 1) < length rs" "rg_base (rs ! (j - (i + 1))) \<le> v" "v \<le> last_byte (rs ! (j - (i + 1)))"
      using Cons.prems Cons.IH [of "i + 1"] by (auto split: if_splits)
    then have "j - i = Suc (j - (i + 1))" by linarith
    then show ?thesis using j by simp
  qed (use Cons.prems in auto)
qed simp

lemma find_walk_None: "find_walk v i rs = None \<Longrightarrow> r \<in> set rs \<Longrightarrow> \<not> (rg_base r \<le> v \<and> v \<le> last_byte r)"
  by (induction rs arbitrary: i) (auto split: if_splits)

lemma vmm_find_region_Some:
  "vmm_find_region a v = Some i \<Longrightarrow> i < length (region_list a)
     \<and> rg_base (region_list a ! i) \<le> v \<and> v \<le> last_byte (region_list a ! i)"
  using find_walk_Some [of v 0 "region_list a" i] by (simp add: vmm_find_region_def)

text \<open>Unlinking the region at position \<open>i\<close>.\<close>

definition unlink_region :: "nat \<Rightarrow> vmm_aspace \<Rightarrow> vmm_aspace" where
  "unlink_region i a = a\<lparr>region_list := take i (region_list a) @ drop (i + 1) (region_list a)\<rparr>"

lemma unlink_region_ok:
  assumes "aspace_ok a" "i < length (region_list a)"
  shows "aspace_ok (unlink_region i a)" "aspace_pages a = aspace_pages (unlink_region i a) + mset (rg_page_list (region_list a ! i))"
proof -
  let ?l = "region_list a"
  have e: "?l = take i ?l @ ?l ! i # drop (i + 1) ?l" using assms(2) by (simp add: id_take_nth_drop)
  have "sorted_wrt rbefore (take i ?l @ ?l ! i # drop (i + 1) ?l)" using assms(1) e by (simp add: aspace_ok_def)
  then have "sorted_wrt rbefore (take i ?l @ drop (i + 1) ?l)" by (simp add: sorted_wrt_append)
  then show "aspace_ok (unlink_region i a)" using assms(1)
    by (auto simp: aspace_ok_def unlink_region_def region_ok_def as_beg_def as_end_def dest: in_set_takeD in_set_dropD)
  have "aspace_pages a = (\<Sum>r\<leftarrow>take i ?l @ ?l ! i # drop (i + 1) ?l. mset (rg_page_list r))"
    using e by (simp add: aspace_pages_def)
  then show "aspace_pages a = aspace_pages (unlink_region i a) + mset (rg_page_list (?l ! i))"
    by (simp add: aspace_pages_def unlink_region_def)
qed

lemma vmm_free_region_ok:
  assumes inv: "vmm_inv s M" and ap: "ap \<in> set (aspace_list s)"
  shows "\<exists>e s'. vmm_free_region ap vaddr s = Some (e, s') \<and> vmm_inv s' M"
proof (cases "vmm_find_region (aspaces s ap) vaddr")
  case None
  then show ?thesis using inv by (simp add: vmm_free_region_def)
next
  case (Some i)
  note ok = vmm_inv_split [OF inv ap]
  let ?r = "region_list (aspaces s ap) ! i" and ?a = "unlink_region i (aspaces s ap)"
  have u: "aspace_ok ?a" "aspace_pages (aspaces s ap) = aspace_pages ?a + mset (rg_page_list ?r)"
    using unlink_region_ok [OF ok(1)] vmm_find_region_Some [OF Some] by auto
  have "owned (vm_pmm s) (aspace_pages ?a + (pages_of (aspaces s) (remove1 ap (aspace_list s)) + M) + mset (rg_page_list ?r))"
    using ok(2) u(2) by (simp add: ac_simps)
  then obtain c pmm where f: "pmm_free (rg_page_list ?r) (vm_pmm s) = Some (c, pmm)"
      "owned pmm (aspace_pages ?a + (pages_of (aspaces s) (remove1 ap (aspace_list s)) + M))"
    using owned_free by blast
  have "vmm_inv (mmu_do ops (set_aspace ap ?a s)\<lparr>vm_pmm := pmm\<rparr>) M" for ops
  proof -
    have "vmm_inv ((set_aspace ap ?a s)\<lparr>vm_pmm := pmm\<rparr>) M" by (rule vmm_inv_update [OF inv ap u(1) f(2)])
    then show ?thesis by (simp add: vmm_inv_def)
  qed
  then show ?thesis using Some f(1) by (simp add: vmm_free_region_def Let_def unlink_region_def)
qed

section \<open>Address spaces\<close>

lemma fresh_aspace_ok:
  "aspace_ok \<lparr>as_name = n, as_flags = f, as_base = KERNEL_ASPACE_BASE, as_size = KERNEL_ASPACE_SIZE, region_list = []\<rparr>"
  "aspace_ok \<lparr>as_name = n, as_flags = f, as_base = USER_ASPACE_BASE, as_size = USER_ASPACE_SIZE, region_list = []\<rparr>"
  by (simp_all add: aspace_ok_def as_beg_def as_end_def lk_defs)

lemma vmm_create_aspace_ok:
  assumes inv: "vmm_inv s M" and fresh: "\<forall>p. mem = Some p \<longrightarrow> p \<notin> set (aspace_list s)"
  shows "vmm_inv (snd (snd (vmm_create_aspace mem err name flags s))) M"
proof (cases "mem = None \<or> err < 0")
  case True
  then show ?thesis using inv by (auto simp: vmm_create_aspace_def Let_def split: option.splits)
next
  case False
  then obtain p where p: "mem = Some p" "\<not> err < 0" "p \<notin> set (aspace_list s)" using fresh by auto
  define a where "a = (let kernel = (flags AND VMM_ASPACE_FLAG_KERNEL \<noteq> 0) in
    \<lparr>as_name = strlcpy32 (case name of Some n \<Rightarrow> n | None \<Rightarrow> ''unnamed''), as_flags = flags,
     as_base = (if kernel then KERNEL_ASPACE_BASE else USER_ASPACE_BASE),
     as_size = (if kernel then KERNEL_ASPACE_SIZE else USER_ASPACE_SIZE), region_list = []\<rparr>)"
  have a: "aspace_ok a" "aspace_pages a = {#}"
    using fresh_aspace_ok by (auto simp: a_def Let_def aspace_pages_def)
  have "pages_of ((aspaces s)(p := a)) (p # aspace_list s) = pages_of (aspaces s) (aspace_list s)"
    using a(2) pages_of_update [OF p(3), of "aspaces s" a] by (simp add: pages_of_def)
  then have "vmm_inv ((set_aspace p a s)\<lparr>aspace_list := p # aspace_list s\<rparr>) M"
    using inv a(1) p(3) by (auto simp: vmm_inv_def)
  moreover have "vmm_inv (snd (snd (vmm_create_aspace mem err name flags s))) M
      = vmm_inv ((set_aspace p a s)\<lparr>aspace_list := p # aspace_list s\<rparr>) M"
    using p by (intro vmm_inv_cong) (simp_all add: vmm_create_aspace_def a_def Let_def)
  ultimately show ?thesis by simp
qed

lemma free_regions_ok:
  assumes "owned pmm (X + (\<Sum>r\<leftarrow>rs. mset (rg_page_list r)))"
  shows "\<exists>pmm'. free_regions rs pmm = Some pmm' \<and> owned pmm' X"
  using assms
proof (induction rs arbitrary: pmm)
  case (Cons r rs)
  have "owned pmm (X + (\<Sum>r\<leftarrow>rs. mset (rg_page_list r)) + mset (rg_page_list r))" using Cons.prems by (simp add: ac_simps)
  then obtain c pmm' where "pmm_free (rg_page_list r) pmm = Some (c, pmm')" "owned pmm' (X + (\<Sum>r\<leftarrow>rs. mset (rg_page_list r)))"
    using owned_free by blast
  then show ?case using Cons.IH by simp
qed simp

lemma vmm_free_aspace_ok:
  assumes inv: "vmm_inv s M" and ap: "ap \<in> set (aspace_list s)" "ap \<noteq> kernel_aspace"
  shows "\<exists>s'. vmm_free_aspace t ap s = Some (NO_ERROR, s') \<and> vmm_inv s' M \<and> set (aspace_list s') = set (aspace_list s) - {ap}"
proof -
  note ok = vmm_inv_split [OF inv ap(1)]
  have d: "distinct (aspace_list s)" using inv by (simp add: vmm_inv_def)
  let ?L = "remove1 ap (aspace_list s)" and ?rs = "region_list (aspaces s ap)"
  have notin: "ap \<notin> set ?L" using d by simp
  obtain pmm where f: "free_regions ?rs (vm_pmm s) = Some pmm" "owned pmm (pages_of (aspaces s) ?L + M)"
    using free_regions_ok [of "vm_pmm s" "pages_of (aspaces s) ?L + M" ?rs] ok(2) by (auto simp: aspace_pages_def ac_simps)
  let ?a = "(aspaces s)(ap := (aspaces s ap)\<lparr>region_list := []\<rparr>)"
  let ?t = "s\<lparr>aspaces := ?a, aspace_list := ?L, vm_pmm := pmm\<rparr>"
  have t: "vmm_inv ?t M" using inv f(2) notin ap(2) d pages_of_update [OF notin] by (auto simp: vmm_inv_def)
  obtain s' where s': "vmm_free_aspace t ap s = Some (NO_ERROR, s')" "aspaces s' = ?a" "aspace_list s' = ?L"
      "vm_pmm s' = pmm"
    using ap(1) f(1) by (simp add: vmm_free_aspace_def vmm_context_switch_def Let_def)
  have "vmm_inv s' M = vmm_inv ?t M" using s' by (intro vmm_inv_cong) simp_all
  then show ?thesis using s' t d by simp
qed

lemma vmm_set_active_aspace_ok: "vmm_inv s M \<Longrightarrow> vmm_inv (vmm_set_active_aspace t a s) M"
  by (auto simp: vmm_set_active_aspace_def vmm_context_switch_def vmm_inv_def)

end
