(* ===== verification/Vmm_Boot.thy ===== *)
theory Vmm_Boot
  imports Vmm_Ops
begin

text \<open>
  Start-up of the memory managers (\<^verbatim>\<open>kernel/vm/vm.c\<close>): the pages under the kernel image and
  the boot allocator are taken out of the physical memory manager, and the platform's initial
  mappings become reserved regions.
\<close>

section \<open>Taking the page of one address\<close>

lemma find_map_inv: "(\<And>x. P (f x) = P x) \<Longrightarrow> find P (map f xs) = map_option f (find P xs)"
  by (induction xs) auto

lemma page_lookup_static:
  "paddr_to_vm_page addr s = (case find (ADDRESS_IN_ARENA addr) (map ar_static (arena_list s)) of
     Some a \<Rightarrow> Some (page_at a ((addr - ar_base a) div PAGE_SIZE)) | None \<Rightarrow> None)"
proof -
  have "find (ADDRESS_IN_ARENA addr) (map ar_static (arena_list s)) = map_option ar_static (find (ADDRESS_IN_ARENA addr) (arena_list s))"
    by (rule find_map_inv) (simp add: ADDRESS_IN_ARENA_def ar_static_def)
  moreover have "(\<lambda>a. ar_base a \<le> addr \<and> addr \<le> ar_base a + ar_size a - 1) = ADDRESS_IN_ARENA addr"
    by (simp add: fun_eq_iff ADDRESS_IN_ARENA_def)
  ultimately show ?thesis
    by (auto simp: paddr_to_vm_page_def ar_static_def page_at_def split: option.splits)
qed

lemma handed_out_lookup: "handed_out ps s s' \<Longrightarrow> paddr_to_vm_page addr s' = paddr_to_vm_page addr s"
  by (simp add: page_lookup_static handed_out_def)

lemma rounddown_page: "unat (ROUNDDOWN w PAGE_SIZE) = unat w div 4096 * 4096"
  using unat_ROUNDDOWN [of w 12] by (simp add: PAGE_SIZE_def PAGE_SIZE_SHIFT_def)

lemma rounddown_in_arena:
  assumes ok: "arena_ok a" and ad: "ADDRESS_IN_ARENA addr a"
  shows "ADDRESS_IN_ARENA (ROUNDDOWN addr PAGE_SIZE) a"
    "page_at a ((ROUNDDOWN addr PAGE_SIZE - ar_base a) div PAGE_SIZE) = page_at a ((addr - ar_base a) div PAGE_SIZE)"
proof -
  let ?d = "ROUNDDOWN addr PAGE_SIZE" and ?b = "unat (ar_base a)"
  have b: "?b \<le> unat addr" "unat addr < ?b + unat (ar_size a)" using ok ad address_in_arena by auto
  obtain k where k: "?b = 4096 * k" using ok by (auto simp: arena_ok_def elim: dvdE)
  define y where "y = unat addr - ?b"
  have y: "unat addr = 4096 * k + y" using b(1) k by (simp add: y_def)
  then have d: "unat ?d = ?b + y div 4096 * 4096" using k by (simp add: rounddown_page)
  moreover have "y div 4096 * 4096 \<le> y" by simp
  ultimately show in_d: "ADDRESS_IN_ARENA ?d a" using b y k by (subst address_in_arena [OF ok]) linarith
  have "(unat ?d - ?b) div 4096 = (unat addr - ?b) div 4096" using d by (simp add: y_def)
  then show "page_at a ((?d - ar_base a) div PAGE_SIZE) = page_at a ((addr - ar_base a) div PAGE_SIZE)"
    using address_index(3) [OF ok in_d] address_index(3) [OF ok ad] by simp
qed

lemma range_walk_one:
  assumes "arenas_inv (xs @ as) pg" "a \<in> set as" "ADDRESS_IN_ARENA addr a"
    and p: "p = page_at a ((addr - ar_base a) div PAGE_SIZE)" "page_is_free (pg p)"
  shows "\<exists>al as' pg'. alloc_range_walk 1 0 addr as pg lst = Some (al, as', pg', lst @ [p])"
  using assms(1,2)
proof (induction as arbitrary: xs)
  case (Cons b as)
  have mid: "arena_ok b" "free_inv pg b" using arenas_inv_mid [OF Cons.prems(1)] by auto
  show ?case
  proof (cases "b = a")
    case True
    note ix = address_index [OF mid(1) assms(3) [folded True]]
    have "p \<in> set (ar_free_list b)" using mid(2) p ix True by (auto simp: free_inv_def arena_pages_def)
    then obtain b' pg' where "take_page p b pg = Some (b', pg')" by (simp add: take_page_def)
    moreover have "alloc_range_loop 1 1 x b' pg' l = Some (1, x, b', pg', l)" for x l
      by (subst alloc_range_loop.simps) simp
    ultimately have "alloc_range_loop 1 0 addr b pg lst = Some (1, addr + PAGE_SIZE, b', pg', lst @ [p])"
      using assms(3) True ix(4) p by (subst alloc_range_loop.simps) (simp add: page_is_free_iff Let_def)
    then show ?thesis by simp
  next
    case False
    then have "a \<in> set as" using Cons.prems(2) by simp
    then have ap: "apart b a" "arena_ok a" using Cons.prems(1) by (auto simp: arenas_inv_def sorted_wrt_append)
    have "\<not> ADDRESS_IN_ARENA addr b"
      using ap assms(3) address_in_arena [OF mid(1), of addr] address_in_arena [OF ap(2), of addr]
      unfolding apart_def by linarith
    then have "alloc_range_loop 1 0 addr b pg lst = Some (0, addr, b, pg, lst)"
      by (subst alloc_range_loop.simps) simp
    moreover have "\<exists>al as' pg'. alloc_range_walk 1 0 addr as pg lst = Some (al, as', pg', lst @ [p])"
      using Cons.IH [of "xs @ [b]"] Cons.prems(1) \<open>a \<in> set as\<close> by simp
    ultimately show ?thesis by auto
  qed
qed simp

lemma pmm_alloc_range_one:
  assumes inv: "pmm_inv s"
  shows "\<exists>n ps s'. pmm_alloc_range pa 1 lst s = Some (n, lst @ ps, s') \<and> handed_out ps s s'
    \<and> (\<forall>p. paddr_to_vm_page pa s = Some p \<longrightarrow> p \<in> held s')"
proof -
  obtain ps s' where r: "pmm_alloc_range pa 1 lst s = Some (of_nat (length ps), lst @ ps, s')" "handed_out ps s s'"
    using pmm_alloc_range_ok [OF inv, of pa 1 lst] by blast
  have ai: "arenas_inv ([] @ arena_list s) (pages s)" using inv by (simp add: pmm_inv_def)
  have "p \<in> held s'" if p: "paddr_to_vm_page pa s = Some p" for p
  proof -
    obtain a where fa: "find (\<lambda>a. ar_base a \<le> pa \<and> pa \<le> ar_base a + ar_size a - 1) (arena_list s) = Some a"
        "p = page_at a ((pa - ar_base a) div PAGE_SIZE)"
      using p by (auto simp: paddr_to_vm_page_def split: option.splits)
    have a: "a \<in> set (arena_list s)" "ADDRESS_IN_ARENA pa a" "p = page_at a ((pa - ar_base a) div PAGE_SIZE)"
      using find_Some_mem [OF fa(1)] fa(2) by (simp_all add: ADDRESS_IN_ARENA_def)
    have ok: "arena_ok a" using ai a by (simp add: arenas_inv_def)
    note rd = rounddown_in_arena [OF ok a(2)]
    show ?thesis
    proof (cases "page_is_free (pages s p)")
      case True
      obtain al as' pg' where "alloc_range_walk 1 0 (ROUNDDOWN pa PAGE_SIZE) (arena_list s) (pages s) lst = Some (al, as', pg', lst @ [p])"
        using range_walk_one [OF ai a(1) rd(1), of p lst] rd(2) a(3) True by auto
      then have "lst @ ps = lst @ [p]" using r(1) by (simp add: pmm_alloc_range_def)
      then show ?thesis using r(2) by (simp add: handed_out_def)
    next
      case False
      have "p \<in> arena_pages a" using address_index(2,3) [OF ok a(2)] a(3) by (auto simp: arena_pages_def)
      then have "p \<in> held s" using False a(1) by (auto simp: held_def nonfree_def)
      then show ?thesis using r(2) by (simp add: handed_out_def)
    qed
  qed
  then show ?thesis using r by blast
qed

lemma handed_out_trans: "handed_out ps s t \<Longrightarrow> handed_out qs t u \<Longrightarrow> handed_out (ps @ qs) s u"
  by (auto simp: handed_out_def)

section \<open>Marking the pages of a range\<close>

lemma mark_loop_ok:
  assumes "pmm_inv s" "\<forall>i < n. query kernel_aspace (va + of_nat i * PAGE_SIZE) \<noteq> None"
  shows "\<exists>ps s'. mark_loop query va n lst s = Some (lst @ ps, s') \<and> handed_out ps s s'
    \<and> (\<forall>i < n. \<forall>pa f p. query kernel_aspace (va + of_nat i * PAGE_SIZE) = Some (pa, f) \<longrightarrow> paddr_to_vm_page pa s = Some p \<longrightarrow> p \<in> held s')"
  using assms
proof (induction n arbitrary: va lst s)
  case 0
  then show ?case by (auto intro: handed_out_refl)
next
  case (Suc n)
  have sh: "va + PAGE_SIZE + of_nat i * PAGE_SIZE = va + of_nat (Suc i) * PAGE_SIZE" for i by (simp add: algebra_simps)
  obtain pa f where q: "query kernel_aspace va = Some (pa, f)" using Suc.prems(2) by (fastforce dest: spec [of _ 0])
  obtain c ps t where t: "pmm_alloc_range pa 1 lst s = Some (c, lst @ ps, t)" "handed_out ps s t"
      "\<forall>p. paddr_to_vm_page pa s = Some p \<longrightarrow> p \<in> held t"
    using pmm_alloc_range_one [OF Suc.prems(1), of pa lst] by blast
  have "pmm_inv t" using t(2) by (simp add: handed_out_def)
  moreover have "\<forall>i < n. query kernel_aspace (va + PAGE_SIZE + of_nat i * PAGE_SIZE) \<noteq> None"
    using Suc.prems(2) unfolding sh by (metis Suc_less_eq)
  ultimately obtain qs u where u: "mark_loop query (va + PAGE_SIZE) n (lst @ ps) t = Some ((lst @ ps) @ qs, u)" "handed_out qs t u"
      "\<forall>i < n. \<forall>pa f p. query kernel_aspace (va + PAGE_SIZE + of_nat i * PAGE_SIZE) = Some (pa, f) \<longrightarrow> paddr_to_vm_page pa t = Some p \<longrightarrow> p \<in> held u"
    using Suc.IH [of t "va + PAGE_SIZE" "lst @ ps"] by blast
  have sub: "held t \<subseteq> held u" using u(2) by (auto simp: handed_out_def)
  have "p \<in> held u" if i: "i < Suc n" "query kernel_aspace (va + of_nat i * PAGE_SIZE) = Some (pb, g)" "paddr_to_vm_page pb s = Some p" for i pb g p
  proof (cases i)
    case 0
    then show ?thesis using i q t(3) sub by auto
  next
    case (Suc j)
    then show ?thesis using i u(3) handed_out_lookup [OF t(2)] unfolding sh by (metis Suc_less_eq)
  qed
  then show ?case using q t(1) u(1) handed_out_trans [OF t(2) u(2)] by auto
qed

text \<open>The pages that the range from \<open>va\<close> of \<open>len\<close> bytes touches.\<close>

lemma and_page_mask: "unat (va AND (PAGE_SIZE - 1)) = unat va mod 4096"
proof -
  have "va AND (PAGE_SIZE - 1) = take_bit 12 va"
    by (simp add: PAGE_SIZE_def PAGE_SIZE_SHIFT_def shl1_minus_1 take_bit_eq_mask)
  then show ?thesis by (simp add: unsigned_take_bit_eq take_bit_nat_def)
qed

lemma mark_count:
  assumes "unat len + 8192 \<le> 2 ^ 64"
  shows "unat (ALIGN (len + (va AND (PAGE_SIZE - 1))) PAGE_SIZE div PAGE_SIZE) = (unat len + unat va mod 4096 + 4095) div 4096"
proof -
  let ?x = "len + (va AND (PAGE_SIZE - 1))"
  have m: "unat va mod 4096 < 4096" by simp
  then have x: "unat ?x = unat len + unat va mod 4096"
    using assms and_page_mask [of va] by (simp add: unat_word_ariths)
  then have "unat ?x + (2 ^ 12 - 1) < 2 ^ 64" using m assms by simp
  then have "unat (ALIGN ?x PAGE_SIZE) = round_up (unat ?x) (2 ^ 12)"
    using unat_ROUNDUP [of 12 ?x] by (simp add: ALIGN_def PAGE_SIZE_def PAGE_SIZE_SHIFT_def)
  then show ?thesis using x by (simp add: unat_page_count round_up_def)
qed

lemma pages_in_range:
  fixes v l :: nat
  assumes "0 < l"
  shows "(l + v mod 4096 + 4095) div 4096 = (v mod 4096 + (l - 1)) div 4096 + 1"
proof -
  have "l + v mod 4096 + 4095 = (v mod 4096 + (l - 1)) + 4096" using assms by simp
  then show ?thesis by (simp only: div_add_self2)
qed

lemma touched_number:
  fixes x v l :: nat
  assumes "v \<le> x" "x < v + l"
  shows "x div 4096 - v div 4096 < (l + v mod 4096 + 4095) div 4096"
proof -
  have l: "0 < l" using assms by simp
  have "x \<le> v div 4096 * 4096 + (v mod 4096 + (l - 1))"
    using assms div_mult_mod_eq [of v 4096] by linarith
  then have "x div 4096 \<le> (v div 4096 * 4096 + (v mod 4096 + (l - 1))) div 4096" by (rule div_le_mono)
  also have "\<dots> = v div 4096 + (v mod 4096 + (l - 1)) div 4096" by (simp only: div_mult_self3)
  finally show ?thesis using pages_in_range [OF l, of v] by linarith
qed

lemma number_touched:
  fixes v l i :: nat
  assumes "i < (l + v mod 4096 + 4095) div 4096" "0 < l"
  shows "\<exists>y. v \<le> y \<and> y < v + l \<and> y div 4096 - v div 4096 = i"
proof (cases "i = 0")
  case True
  then show ?thesis using assms(2) by (intro exI [of _ v]) simp
next
  case False
  have "i \<le> (v mod 4096 + (l - 1)) div 4096" using assms(1) pages_in_range [OF assms(2), of v] by linarith
  then have "i * 4096 \<le> (v mod 4096 + (l - 1)) div 4096 * 4096" by (rule mult_le_mono1)
  also have "\<dots> \<le> v mod 4096 + (l - 1)" by (rule div_times_less_eq_dividend)
  finally have le: "i * 4096 \<le> v mod 4096 + (l - 1)" .
  have v: "v = v div 4096 * 4096 + v mod 4096" by simp
  have "v mod 4096 < 4096" "4096 \<le> i * 4096" using False by simp_all
  then have "v \<le> v div 4096 * 4096 + i * 4096" using v by linarith
  moreover have "v div 4096 * 4096 + i * 4096 < v + l" using le v assms(2) by linarith
  moreover have "(v div 4096 * 4096 + i * 4096) div 4096 = v div 4096 + i" by simp
  ultimately show ?thesis by (metis add_diff_cancel_left')
qed

lemma touched_page:
  assumes x: "unat va \<le> unat x" "unat x < unat va + unat len"
  defines "i \<equiv> unat x div 4096 - unat va div 4096"
  shows "i < (unat len + unat va mod 4096 + 4095) div 4096" "ROUNDDOWN x PAGE_SIZE = ROUNDDOWN va PAGE_SIZE + of_nat i * PAGE_SIZE"
proof -
  have le: "unat va div 4096 \<le> unat x div 4096" using x(1) by (rule div_le_mono)
  show "i < (unat len + unat va mod 4096 + 4095) div 4096" using touched_number [OF x] by (simp add: i_def)
  have "unat (ROUNDDOWN va PAGE_SIZE) + i * 4096 = unat (ROUNDDOWN x PAGE_SIZE)"
    using le by (simp add: rounddown_page i_def diff_mult_distrib)
  then have "of_nat (unat (ROUNDDOWN x PAGE_SIZE)) = (of_nat (unat (ROUNDDOWN va PAGE_SIZE) + i * 4096) :: u64)" by simp
  then show "ROUNDDOWN x PAGE_SIZE = ROUNDDOWN va PAGE_SIZE + of_nat i * PAGE_SIZE" by (simp add: PAGE_SIZE_num)
qed

lemma page_touched:
  fixes va len :: u64
  assumes "i < (unat len + unat va mod 4096 + 4095) div 4096" "len \<noteq> 0" "unat va + unat len \<le> 2 ^ 64"
  shows "\<exists>x. unat va \<le> unat x \<and> unat x < unat va + unat len \<and> ROUNDDOWN x PAGE_SIZE = ROUNDDOWN va PAGE_SIZE + of_nat i * PAGE_SIZE"
proof -
  have l: "0 < unat len" using assms(2) by (simp add: unat_gt_0)
  obtain y where y: "unat va \<le> y" "y < unat va + unat len" "y div 4096 - unat va div 4096 = i"
    using number_touched [OF assms(1) l] by blast
  define x :: u64 where "x = of_nat y"
  have ux: "unat x = y" using y(2) assms(3) by (simp add: x_def unsigned_of_nat take_bit_nat_eq_self)
  have "ROUNDDOWN x PAGE_SIZE = ROUNDDOWN va PAGE_SIZE + of_nat (unat x div 4096 - unat va div 4096) * PAGE_SIZE"
    by (rule touched_page(2) [of va x len]) (use y ux in simp_all)
  then show ?thesis using y ux by auto
qed

lemma mark_pages_in_use_ok:
  assumes inv: "pmm_inv s" and len: "len \<noteq> 0" "unat len + 8192 \<le> 2 ^ 64" "unat va + unat len \<le> 2 ^ 64"
    and q: "\<And>x. unat va \<le> unat x \<Longrightarrow> unat x < unat va + unat len \<Longrightarrow> query kernel_aspace (ROUNDDOWN x PAGE_SIZE) \<noteq> None"
  shows "\<exists>ps s'. mark_pages_in_use query va len s = Some (ps, s') \<and> handed_out ps s s'
    \<and> (\<forall>x. unat va \<le> unat x \<longrightarrow> unat x < unat va + unat len \<longrightarrow>
         (\<forall>pa f p. query kernel_aspace (ROUNDDOWN x PAGE_SIZE) = Some (pa, f) \<longrightarrow> paddr_to_vm_page pa s = Some p \<longrightarrow> p \<in> held s'))"
proof -
  let ?n = "(unat len + unat va mod 4096 + 4095) div 4096" and ?v = "ROUNDDOWN va PAGE_SIZE"
  have "query kernel_aspace (?v + of_nat i * PAGE_SIZE) \<noteq> None" if i: "i < ?n" for i
  proof -
    obtain x where "unat va \<le> unat x" "unat x < unat va + unat len" "ROUNDDOWN x PAGE_SIZE = ?v + of_nat i * PAGE_SIZE"
      using page_touched [OF i len(1,3)] by blast
    then show ?thesis using q [of x] by simp
  qed
  then have "\<forall>i < ?n. query kernel_aspace (?v + of_nat i * PAGE_SIZE) \<noteq> None" by blast
  from mark_loop_ok [where n = ?n and va = ?v and query = query and lst = "[]", OF inv this] obtain ps s' where
    m: "mark_loop query ?v ?n [] s = Some (ps, s')" "handed_out ps s s'"
      "\<forall>i < ?n. \<forall>pa f p. query kernel_aspace (?v + of_nat i * PAGE_SIZE) = Some (pa, f) \<longrightarrow> paddr_to_vm_page pa s = Some p \<longrightarrow> p \<in> held s'"
    by auto
  have "mark_pages_in_use query va len s = Some (ps, s')"
    using m(1) mark_count [OF len(2), of va] by (simp add: mark_pages_in_use_def Let_def)
  moreover have "p \<in> held s'" if x: "unat va \<le> unat x" "unat x < unat va + unat len"
      and qx: "query kernel_aspace (ROUNDDOWN x PAGE_SIZE) = Some (pa, f)" "paddr_to_vm_page pa s = Some p" for x pa f p
    using m(3) touched_page [OF x] qx by metis
  ultimately show ?thesis using m(2) by blast
qed

end
