(* ===== verification/Vmm_Props.thy ===== *)
theory Vmm_Props
  imports Vmm_Boot
begin

text \<open>
  The two memory managers as one system of calls, from the start-up code on, with the pages
  that clients other than the regions hold as a ghost list, and the properties of the virtual
  memory manager.
\<close>

section \<open>The system\<close>

datatype vmm_call =
    Reserve bool mmu_query aspace_ptr "string option" u64 vaddr_t
  | AllocPhysical bool aspace_ptr "string option" u64 "vaddr_t option" u8 paddr_t u32 u32
  | AllocContig bool aspace_ptr "string option" u64 "vaddr_t option" u8 u32 u32
  | AllocRegion bool aspace_ptr "string option" u64 "vaddr_t option" u8 u32 u32
  | FreeRegion aspace_ptr vaddr_t
  | CreateAspace "aspace_ptr option" status_t "string option" u32
  | FreeAspace thread_ptr aspace_ptr
  | SetActive thread_ptr "aspace_ptr option"
  | InitMappings "mmu_initial_mapping \<Rightarrow> bool" mmu_query "mmu_initial_mapping list"
  | OtherAlloc u32
  | OtherFree "page_ptr list"

type_synonym vmm_sys = "vmm_state \<times> page_ptr list"

text \<open>The machine after \<^verbatim>\<open>vm_init_preheap\<close>, with any arenas and any pages handed out before.\<close>

definition vmm_boot :: "vmm_sys \<Rightarrow> bool" where
  "vmm_boot = (\<lambda>(s, h). \<exists>s0 h0 query kstart kend bstart. pmm_reach (vm_pmm s0, h0) \<and> aspace_list s0 = []
     \<and> thr_aspace s0 = (\<lambda>_. None) \<and> vm_init_preheap query kstart kend bstart s0 = Some s
     \<and> distinct h \<and> set h = held (vm_pmm s))"

text \<open>
  What a caller must respect: it names a live address space, asks for whole pages where an
  assertion demands them and for an alignment below the width of an address (at most 2^31 bytes
  for contiguous memory); an address it wants is page aligned; a structure that
  \<^verbatim>\<open>calloc\<close> returns is not one that is in use; the kernel's address space is not freed.
\<close>

definition spot_allowed :: "u32 \<Rightarrow> vaddr_t option \<Rightarrow> u8 \<Rightarrow> bool" where
  "spot_allowed vf ptr al \<longleftrightarrow>
     (if vf AND VMM_FLAG_VALLOC_SPECIFIC \<noteq> 0 then \<forall>v. ptr = Some v \<longrightarrow> 4096 dvd unat v else unat al < 64)"

fun vmm_allowed :: "vmm_call \<Rightarrow> vmm_sys \<Rightarrow> bool" where
  "vmm_allowed (Reserve mem query ap name sz va) (s, h) \<longleftrightarrow>
     ap \<in> set (aspace_list s) \<and> 4096 dvd unat va \<and> 4096 dvd unat sz"
| "vmm_allowed (AllocPhysical mem ap name sz ptr al pa vf af) (s, h) \<longleftrightarrow>
     ap \<in> set (aspace_list s) \<and> 4096 dvd unat pa \<and> 4096 dvd unat sz \<and> spot_allowed vf ptr al"
| "vmm_allowed (AllocContig mem ap name sz ptr al vf af) (s, h) \<longleftrightarrow>
     ap \<in> set (aspace_list s) \<and> unat (ROUNDUP sz PAGE_SIZE) div 4096 < 2 ^ 31 \<and> unat al \<le> 31 \<and> spot_allowed vf ptr al"
| "vmm_allowed (AllocRegion mem ap name sz ptr al vf af) (s, h) \<longleftrightarrow>
     ap \<in> set (aspace_list s) \<and> spot_allowed vf ptr al"
| "vmm_allowed (FreeRegion ap va) (s, h) \<longleftrightarrow> ap \<in> set (aspace_list s)"
| "vmm_allowed (CreateAspace mem err name flags) (s, h) \<longleftrightarrow> (\<forall>p. mem = Some p \<longrightarrow> p \<notin> set (aspace_list s))"
| "vmm_allowed (FreeAspace t ap) (s, h) \<longleftrightarrow> ap \<in> set (aspace_list s) \<and> ap \<noteq> kernel_aspace"
| "vmm_allowed (SetActive t a) (s, h) \<longleftrightarrow> (\<forall>p. a = Some p \<longrightarrow> p \<in> set (aspace_list s))"
| "vmm_allowed (InitMappings mem query maps) (s, h) \<longleftrightarrow>
     (\<forall>m \<in> set maps. 4096 dvd unat (map_virt m) \<and> 4096 dvd unat (map_size m))"
| "vmm_allowed (OtherAlloc n) (s, h) \<longleftrightarrow> True"
| "vmm_allowed (OtherFree ps) (s, h) \<longleftrightarrow> distinct ps \<and> set ps \<subseteq> set h"

fun vmm_exec :: "vmm_call \<Rightarrow> vmm_sys \<Rightarrow> vmm_sys option" where
  "vmm_exec (Reserve mem query ap name sz va) (s, h) = do { (_, s) \<leftarrow> vmm_reserve_space mem query ap name sz va s; Some (s, h) }"
| "vmm_exec (AllocPhysical mem ap name sz ptr al pa vf af) (s, h) =
     do { (_, _, s) \<leftarrow> vmm_alloc_physical mem ap name sz ptr al pa vf af s; Some (s, h) }"
| "vmm_exec (AllocContig mem ap name sz ptr al vf af) (s, h) =
     do { (_, _, s) \<leftarrow> vmm_alloc_contiguous mem ap name sz ptr al vf af s; Some (s, h) }"
| "vmm_exec (AllocRegion mem ap name sz ptr al vf af) (s, h) =
     do { (_, _, s) \<leftarrow> vmm_alloc mem ap name sz ptr al vf af s; Some (s, h) }"
| "vmm_exec (FreeRegion ap va) (s, h) = do { (_, s) \<leftarrow> vmm_free_region ap va s; Some (s, h) }"
| "vmm_exec (CreateAspace mem err name flags) (s, h) = Some (snd (snd (vmm_create_aspace mem err name flags s)), h)"
| "vmm_exec (FreeAspace t ap) (s, h) = do { (_, s) \<leftarrow> vmm_free_aspace t ap s; Some (s, h) }"
| "vmm_exec (SetActive t a) (s, h) = Some (vmm_set_active_aspace t a s, h)"
| "vmm_exec (InitMappings mem query maps) (s, h) = do { s \<leftarrow> vm_init_postheap mem query maps s; Some (s, h) }"
| "vmm_exec (OtherAlloc n) (s, h) = (let (_, h, pmm) = pmm_alloc_pages n h (vm_pmm s) in Some (s\<lparr>vm_pmm := pmm\<rparr>, h))"
| "vmm_exec (OtherFree ps) (s, h) = do {
     (_, pmm) \<leftarrow> pmm_free ps (vm_pmm s);
     Some (s\<lparr>vm_pmm := pmm\<rparr>, filter (\<lambda>p. p \<notin> set ps) h)
   }"

definition vmm_good :: "vmm_sys \<Rightarrow> bool" where
  "vmm_good = (\<lambda>(s, h). vmm_inv s (mset h))"

lemma vm_init_postheap_ok:
  "vmm_inv s M \<Longrightarrow> \<forall>m \<in> set maps. 4096 dvd unat (map_virt m) \<and> 4096 dvd unat (map_size m) \<Longrightarrow>
   \<exists>s'. vm_init_postheap mem query maps s = Some s' \<and> vmm_inv s' M"
proof (induction maps arbitrary: s)
  case (Cons m maps)
  have k: "kernel_aspace \<in> set (aspace_list s)" using Cons.prems(1) by (simp add: vmm_inv_def)
  obtain e t where t: "vmm_reserve_space (mem m) query kernel_aspace (Some (map_name m)) (map_size m) (map_virt m) s = Some (e, t)" "vmm_inv t M"
    using vmm_reserve_space_ok [OF Cons.prems(1) k, of "map_virt m" "map_size m" "mem m" query "Some (map_name m)"] Cons.prems(2) by auto
  have "\<forall>m \<in> set maps. 4096 dvd unat (map_virt m) \<and> 4096 dvd unat (map_size m)" using Cons.prems(2) by simp
  then obtain u v where "vm_init_postheap mem query maps t = Some u" "vmm_inv u M"
      "vm_init_postheap mem query maps s = Some v" "vmm_inv v M"
    using Cons.IH [OF t(2)] Cons.IH [OF Cons.prems(1)] by blast
  then show ?case using t(1) Cons.prems(1) by simp
qed simp

lemma owned_split_free:
  assumes "owned pmm (X + mset h)" "distinct ps" "set ps \<subseteq> set h"
  shows "\<exists>r pmm'. pmm_free ps pmm = Some (r, pmm') \<and> owned pmm' (X + mset (filter (\<lambda>p. p \<notin> set ps) h))"
proof -
  have "count (mset h) p \<le> 1" for p
  proof -
    have "count X p + count (mset h) p \<le> 1" using assms(1) by (auto simp: owned_def)
    then show ?thesis by linarith
  qed
  then have d: "distinct h" by (metis distinct_count_atmost_1 count_greater_zero_iff le_antisym not_in_iff One_nat_def Suc_leI set_mset_mset)
  have "mset h = mset (filter (\<lambda>p. p \<notin> set ps) h) + mset (filter (\<lambda>p. p \<in> set ps) h)"
    by (metis add.commute mset_filter multiset_partition)
  moreover have "mset (filter (\<lambda>p. p \<in> set ps) h) = mset ps"
    using d assms(2,3) by (intro set_eq_iff_mset_eq_distinct [THEN iffD1]) auto
  ultimately have "owned pmm (X + mset (filter (\<lambda>p. p \<notin> set ps) h) + mset ps)" using assms(1) by (metis add.assoc)
  then show ?thesis by (rule owned_free)
qed

text \<open>A call that ends in a good state, with one result or with two.\<close>

lemma exec_good:
  "\<exists>e s'. f = Some (e, s') \<and> vmm_inv s' (mset h) \<Longrightarrow> \<exists>t. do { (_, s) \<leftarrow> f; Some (s, h) } = Some t \<and> vmm_good t"
  "\<exists>e p s'. g = Some (e, p, s') \<and> vmm_inv s' (mset h) \<Longrightarrow> \<exists>t. do { (_, _, s) \<leftarrow> g; Some (s, h) } = Some t \<and> vmm_good t"
  by (auto simp: vmm_good_def)

lemma spot_allowed_specific:
  "spot_allowed vf ptr al \<Longrightarrow> vf AND VMM_FLAG_VALLOC_SPECIFIC \<noteq> 0 \<Longrightarrow> \<forall>v. ptr = Some v \<longrightarrow> 4096 dvd unat v"
  by (simp add: spot_allowed_def)

lemma vmm_call_good:
  assumes g: "vmm_good (s, h)" and al: "vmm_allowed c (s, h)"
  shows "\<exists>t. vmm_exec c (s, h) = Some t \<and> vmm_good t"
proof -
  have inv: "vmm_inv s (mset h)" using g by (simp add: vmm_good_def)
  show ?thesis
  proof (cases c)
    case (Reserve mem query ap name sz va)
    then have "\<exists>e s'. vmm_reserve_space mem query ap name sz va s = Some (e, s') \<and> vmm_inv s' (mset h)"
      using al vmm_reserve_space_ok [OF inv, of ap va sz mem query name] by auto
    then show ?thesis unfolding Reserve vmm_exec.simps by (rule exec_good(1))
  next
    case (AllocPhysical mem ap name sz ptr alog pa vf af)
    then have "ap \<in> set (aspace_list s)" "4096 dvd unat pa" "4096 dvd unat sz" "spot_allowed vf ptr alog" using al by auto
    then show ?thesis unfolding AllocPhysical vmm_exec.simps
      by (intro exec_good(2) vmm_alloc_physical_ok [OF inv, folded spot_allowed_def])
  next
    case (AllocContig mem ap name sz ptr alog vf af)
    then have "ap \<in> set (aspace_list s)" "unat (ROUNDUP sz PAGE_SIZE) div 4096 < 2 ^ 31" "unat alog \<le> 31" "spot_allowed vf ptr alog"
      using al by auto
    then show ?thesis unfolding AllocContig vmm_exec.simps
      by (intro exec_good(2)) (rule vmm_alloc_contiguous_ok [OF inv _ _ _ spot_allowed_specific])
  next
    case (AllocRegion mem ap name sz ptr alog vf af)
    then have "ap \<in> set (aspace_list s)" "spot_allowed vf ptr alog" using al by auto
    then show ?thesis unfolding AllocRegion vmm_exec.simps
      by (intro exec_good(2) vmm_alloc_ok [OF inv, folded spot_allowed_def])
  next
    case (FreeRegion ap va)
    then have "ap \<in> set (aspace_list s)" using al by simp
    then show ?thesis unfolding FreeRegion vmm_exec.simps by (intro exec_good(1) vmm_free_region_ok [OF inv])
  next
    case (CreateAspace mem err name flags)
    then show ?thesis using al vmm_create_aspace_ok [OF inv, of mem err name flags] by (auto simp: vmm_good_def)
  next
    case (FreeAspace t ap)
    then have "\<exists>e s'. vmm_free_aspace t ap s = Some (e, s') \<and> vmm_inv s' (mset h)"
      using al vmm_free_aspace_ok [OF inv, of ap t] by auto
    then show ?thesis unfolding FreeAspace vmm_exec.simps by (rule exec_good(1))
  next
    case (SetActive t a)
    then show ?thesis using vmm_set_active_aspace_ok [OF inv, of t a] by (auto simp: vmm_good_def)
  next
    case (InitMappings mem query maps)
    then show ?thesis using al vm_init_postheap_ok [OF inv, of maps mem query] by (auto simp: vmm_good_def)
  next
    case (OtherAlloc n)
    obtain ps pmm where "pmm_alloc_pages n h (vm_pmm s) = (of_nat (length ps), h @ ps, pmm)"
        "owned pmm (pages_of (aspaces s) (aspace_list s) + mset h + mset ps)"
      using owned_alloc_pages [OF vmm_inv_owned [OF inv], of n h] by blast
    then show ?thesis using OtherAlloc vmm_inv_pmm [OF inv, of pmm "mset (h @ ps)"] by (simp add: vmm_good_def add.assoc)
  next
    case (OtherFree ps)
    then obtain r pmm where "pmm_free ps (vm_pmm s) = Some (r, pmm)"
        "owned pmm (pages_of (aspaces s) (aspace_list s) + mset (filter (\<lambda>p. p \<notin> set ps) h))"
      using al owned_split_free [OF vmm_inv_owned [OF inv], of ps] by auto
    then show ?thesis using OtherFree vmm_inv_pmm [OF inv] by (simp add: vmm_good_def)
  qed
qed

lemma mark_loop_inv: "mark_loop query va n lst s = Some (l, s') \<Longrightarrow> pmm_inv s \<Longrightarrow> pmm_inv s'"
proof (induction n arbitrary: va lst s)
  case (Suc n)
  obtain pa f where q: "query kernel_aspace va = Some (pa, f)"
    using Suc.prems(1) by (cases "query kernel_aspace va") auto
  obtain ps t where "pmm_alloc_range pa 1 lst s = Some (of_nat (length ps), lst @ ps, t)" "handed_out ps s t"
    using pmm_alloc_range_ok [OF Suc.prems(2), of pa 1 lst] by blast
  then show ?case using Suc.IH [of "va + PAGE_SIZE" "lst @ ps" t] Suc.prems(1) q by (simp add: handed_out_def)
qed simp

lemma mark_pages_inv: "mark_pages_in_use query va len s = Some (l, s') \<Longrightarrow> pmm_inv s \<Longrightarrow> pmm_inv s'"
  using mark_loop_inv by (simp add: mark_pages_in_use_def Let_def)

lemma vmm_boot_good:
  assumes "vmm_boot (s, h)"
  shows "vmm_good (s, h)"
proof -
  obtain s0 h0 query a b c where b: "pmm_reach (vm_pmm s0, h0)" "aspace_list s0 = []" "thr_aspace s0 = (\<lambda>_. None)"
      "vm_init_preheap query a b c s0 = Some s" "distinct h" "set h = held (vm_pmm s)"
    using assms by (auto simp: vmm_boot_def)
  have "pmm_inv (vm_pmm s0)" using reach_inv [OF b(1)] by simp
  then have inv: "pmm_inv (vm_pmm (vmm_init_preheap s0))" by (simp add: vmm_init_preheap_def Let_def)
  obtain l1 p1 l2 p2 where p: "mark_pages_in_use query a (b - a) (vm_pmm (vmm_init_preheap s0)) = Some (l1, p1)"
      "(if boot_alloc_end p1 \<noteq> c then mark_pages_in_use query c (boot_alloc_end p1 - c) p1 else Some ([], p1)) = Some (l2, p2)"
      "s = (vmm_init_preheap s0)\<lparr>vm_pmm := p2\<rparr>"
    using b(4) by (auto simp: vm_init_preheap_def Let_def bind_Some)
  have "pmm_inv p2" using p(1,2) inv mark_pages_inv by (metis Pair_inject option.inject)
  then have "owned p2 (mset h)" using b(5,6) p(3) by (auto simp: owned_def distinct_count_atmost_1)
  then show ?thesis using b(2,3) p(3) fresh_aspace_ok(1)
    by (simp add: vmm_good_def vmm_inv_def vmm_init_preheap_def Let_def pages_of_def aspace_pages_def)
qed

interpretation vmms: guarded_system vmm_boot vmm_allowed vmm_exec vmm_good
proof
  fix s assume "vmm_boot s"
  then show "vmm_good s" using vmm_boot_good by (cases s) auto
next
  fix s c assume "vmm_good s" "vmm_allowed c s"
  then show "\<exists>s'. vmm_exec c s = Some s' \<and> vmm_good s'" using vmm_call_good by (cases s) auto
qed

abbreviation vmm_reach :: "vmm_sys \<Rightarrow> bool" where
  "vmm_reach \<equiv> reach vmm_boot vmm_allowed vmm_exec"

section \<open>A machine for the examples\<close>

text \<open>Addresses are mapped to themselves; one page of the first arena holds the kernel image.\<close>

definition query_id :: mmu_query where
  "query_id ap va = Some (va, 0)"

definition aspace0 :: vmm_aspace where
  "aspace0 = \<lparr>as_name = ''kernel'', as_flags = VMM_ASPACE_FLAG_KERNEL, as_base = KERNEL_ASPACE_BASE,
     as_size = KERNEL_ASPACE_SIZE, region_list = []\<rparr>"

lemma finite_held: "pmm_inv s \<Longrightarrow> finite (held s)"
proof -
  have "held s \<subseteq> (\<Union>a \<in> set (arena_list s). arena_pages a)" by (auto simp: held_def nonfree_def)
  then show ?thesis by (rule finite_subset) (simp add: arena_pages_def)
qed

lemma booted: "\<exists>s h. vmm_reach (s, h) \<and> aspace_list s = [kernel_aspace]"
proof -
  obtain p where p: "pmm_reach (p, [])" using two_arenas by blast
  define s0 where "s0 = \<lparr>aspaces = (\<lambda>_. aspace0), aspace_list = [], vm_pmm = p, mmu_log = [], thr_aspace = (\<lambda>_. None)\<rparr>"
  have inv: "pmm_inv p" using reach_inv [OF p] by simp
  obtain ps q where m: "mark_pages_in_use query_id 0x10000 0x1000 p = Some (ps, q)" "handed_out ps p q"
    using mark_pages_in_use_ok [where query = query_id and len = "0x1000" and va = "0x10000", OF inv] by (auto simp: query_id_def)
  have "pmm_inv q" using m(2) by (simp add: handed_out_def)
  then obtain h where h: "distinct h" "set h = held q" using finite_held finite_distinct_list by blast
  obtain s where s: "vm_init_preheap query_id 0x10000 0x11000 (boot_alloc_end q) s0 = Some s" "vm_pmm s = q" "aspace_list s = [kernel_aspace]"
    using m(1) by (simp add: vm_init_preheap_def vmm_init_preheap_def s0_def Let_def)
  have "pmm_reach (vm_pmm s0, [])" "aspace_list s0 = []" "thr_aspace s0 = (\<lambda>_. None)" using p by (simp_all add: s0_def)
  then have "vmm_boot (s, h)" using s h unfolding vmm_boot_def case_prod_conv by blast
  then have "vmm_reach (s, h)" by (rule reach_start)
  then show ?thesis using s(3) by blast
qed

section \<open>Properties\<close>

text \<open>The threads' fields and the list of live address spaces across a call.\<close>

lemma alloc_frame:
  "vmm_reserve_space mem query ap name sz va s = Some (e, s') \<Longrightarrow>
     thr_aspace s' = thr_aspace s \<and> aspace_list s' = aspace_list s"
  "vmm_alloc_physical mem ap name sz ptr al pa vf af s = Some (e, p, s') \<Longrightarrow>
     thr_aspace s' = thr_aspace s \<and> aspace_list s' = aspace_list s"
  "vmm_alloc_contiguous mem ap name sz ptr al vf af s = Some (e, p, s') \<Longrightarrow>
     thr_aspace s' = thr_aspace s \<and> aspace_list s' = aspace_list s"
  "vmm_alloc mem ap name sz ptr al vf af s = Some (e, p, s') \<Longrightarrow>
     thr_aspace s' = thr_aspace s \<and> aspace_list s' = aspace_list s"
  "vmm_free_region ap va s = Some (e, s') \<Longrightarrow> thr_aspace s' = thr_aspace s \<and> aspace_list s' = aspace_list s"
  by (auto simp: vmm_reserve_space_def vmm_alloc_physical_def vmm_alloc_contiguous_def vmm_alloc_def
      vmm_free_region_def Let_def ASSERT_def
      split: if_split_asm option.split_asm prod.split_asm bind_split_asm)

lemma init_mappings_frame:
  "vm_init_postheap mem query maps s = Some s' \<Longrightarrow> thr_aspace s' = thr_aspace s \<and> aspace_list s' = aspace_list s"
proof (induction maps arbitrary: s)
  case (Cons m maps)
  show ?case
  proof (cases "map_size m > 0 \<and> map_flags m AND MMU_INITIAL_MAPPING_TEMPORARY = 0")
    case True
    then obtain e t where "vmm_reserve_space (mem m) query kernel_aspace (Some (map_name m)) (map_size m)
        (map_virt m) s = Some (e, t)" "vm_init_postheap mem query maps t = Some s'"
      using Cons.prems by (auto simp: bind_Some)
    then show ?thesis using alloc_frame(1) Cons.IH by metis
  next
    case False
    then show ?thesis using Cons.prems Cons.IH by (auto split: if_splits)
  qed
qed simp

lemma free_aspace_frame:
  assumes "ap \<in> set (aspace_list s)" "vmm_free_aspace t ap s = Some (e, s')"
  shows "aspace_list s' = remove1 ap (aspace_list s)"
    "thr_aspace s' = (if thr_aspace s t = Some ap then (thr_aspace s)(t := None) else thr_aspace s)"
  using assms
  by (cases "thr_aspace s t = Some ap";
      fastforce simp: vmm_free_aspace_def vmm_context_switch_def Let_def bind_Some)+

text \<open>
  What a call can do to the address space a thread names: nothing, except that it activates
  another one or gives up the own one, and that another thread may free it.
\<close>

lemma vmm_exec_threads:
  assumes g: "vmm_good (s, h)" and al: "vmm_allowed c (s, h)" and e: "vmm_exec c (s, h) = Some (s', h')"
    and t: "thr_aspace s' t = Some p"
  shows "p \<in> set (aspace_list s') \<or>
    thr_aspace s t = Some p \<and> (p \<notin> set (aspace_list s) \<or> (\<exists>u. u \<noteq> t \<and> c = FreeAspace u p))"
proof -
  have keep: ?thesis if "thr_aspace s' = thr_aspace s" "set (aspace_list s) \<subseteq> set (aspace_list s')"
    using that t by auto
  show ?thesis
  proof (cases c)
    case (CreateAspace mem err name flags)
    then show ?thesis using e by (intro keep) (auto simp: vmm_create_aspace_def Let_def split: option.splits if_splits)
  next
    case (FreeAspace u ap)
    have d: "distinct (aspace_list s)" using g by (simp add: vmm_good_def vmm_inv_def)
    obtain r where "vmm_free_aspace u ap s = Some (r, s')" using e FreeAspace by (auto simp: bind_Some)
    then have f: "aspace_list s' = remove1 ap (aspace_list s)"
      "thr_aspace s' = (if thr_aspace s u = Some ap then (thr_aspace s)(u := None) else thr_aspace s)"
      using free_aspace_frame [of ap s u r s'] al FreeAspace by simp_all
    then show ?thesis using FreeAspace t d by (auto split: if_splits)
  next
    case (SetActive u a)
    then have "aspace_list s' = aspace_list s" "thr_aspace s' = (thr_aspace s)(u := a)"
      using e by (auto simp: vmm_set_active_aspace_def vmm_context_switch_def)
    then show ?thesis using SetActive al t by (auto split: if_splits)
  next
    case (OtherAlloc n)
    then show ?thesis using e by (intro keep) (auto split: prod.splits)
  next
    case (OtherFree ps)
    then show ?thesis using e by (intro keep) (auto simp: bind_Some)
  next
    case (InitMappings mem query maps)
    then show ?thesis using e init_mappings_frame by (intro keep) (auto simp: bind_Some)
  qed (use e alloc_frame in \<open>(intro keep; auto simp: bind_Some)+\<close>)
qed

text \<open>
  C32 Address spaces stay well formed, and no page of physical memory is leaked or shared. From
  start-up on, after any sequence of regions reserved, allocated and freed (with failing
  allocations of every kind), address spaces created, activated and freed by any threads, and
  pages taken and freed by other clients: the regions of every live address space are nonempty,
  page aligned, inside it, in ascending order and disjoint; every page that the physical memory
  manager has handed out belongs to exactly one region of one address space or to one other
  client; and the next allowed call reaches no assertion of \<^verbatim>\<open>vmm.c\<close> or
  \<^verbatim>\<open>pmm.c\<close>. The address space a thread has activated stays live under all calls but one: the
  free clears the field of the calling thread only, so when another thread frees the
  address space, the thread is left with a pointer to it.
\<close>

theorem vmm_regions_well_formed:
  assumes "vmm_reach (s, h)"
  shows "(\<forall>p \<in> set (aspace_list s). aspace_ok (aspaces s p))
    \<and> (\<forall>pg. count (pages_of (aspaces s) (aspace_list s) + mset h) pg = (if pg \<in> held (vm_pmm s) then 1 else 0))
    \<and> (\<forall>c. vmm_allowed c (s, h) \<longrightarrow> vmm_exec c (s, h) \<noteq> None)
    \<and> (\<forall>c s' h' t p. vmm_allowed c (s, h) \<longrightarrow> vmm_exec c (s, h) = Some (s', h') \<longrightarrow> thr_aspace s' t = Some p \<longrightarrow>
         p \<in> set (aspace_list s') \<or>
         thr_aspace s t = Some p \<and> (p \<notin> set (aspace_list s) \<or> (\<exists>u. u \<noteq> t \<and> c = FreeAspace u p)))
    \<and> (\<forall>t u p s' h'. vmm_allowed (FreeAspace u p) (s, h) \<longrightarrow> vmm_exec (FreeAspace u p) (s, h) = Some (s', h') \<longrightarrow>
         thr_aspace s' u \<noteq> Some p \<and>
         (t \<noteq> u \<longrightarrow> thr_aspace s t = Some p \<longrightarrow> thr_aspace s' t = Some p \<and> p \<notin> set (aspace_list s')))"
proof -
  have g: "vmm_good (s, h)" by (rule vmms.reach_good [OF assms])
  then have inv: "vmm_inv s (mset h)" by (simp add: vmm_good_def)
  have "vmm_exec c (s, h) \<noteq> None" if "vmm_allowed c (s, h)" for c
    using vmms.reach_not_stuck [OF assms that] by auto
  moreover have "thr_aspace s' u \<noteq> Some p \<and>
      (t \<noteq> u \<longrightarrow> thr_aspace s t = Some p \<longrightarrow> thr_aspace s' t = Some p \<and> p \<notin> set (aspace_list s'))"
    if al: "vmm_allowed (FreeAspace u p) (s, h)" and e: "vmm_exec (FreeAspace u p) (s, h) = Some (s', h')"
    for t u p s' h'
  proof -
    obtain r where "vmm_free_aspace u p s = Some (r, s')" using e by (auto simp: bind_Some)
    then have "aspace_list s' = remove1 p (aspace_list s)"
      "thr_aspace s' = (if thr_aspace s u = Some p then (thr_aspace s)(u := None) else thr_aspace s)"
      using free_aspace_frame [of p s u r s'] al by simp_all
    then show ?thesis using inv by (simp add: vmm_inv_def)
  qed
  ultimately show ?thesis
    using inv vmm_exec_threads [OF g] unfolding vmm_inv_def owned_def by (intro conjI) blast+
qed

text \<open>Two threads activate a new address space.\<close>

lemma two_threads_active:
  "\<exists>s h. vmm_reach (s, h) \<and> aspace_list s = [1, kernel_aspace] \<and> thr_aspace s 7 = Some 1 \<and> thr_aspace s 8 = Some 1"
proof -
  obtain s h where r: "vmm_reach (s, h)" "aspace_list s = [kernel_aspace]" using booted by blast
  let ?s1 = "snd (snd (vmm_create_aspace (Some 1) 0 None 0 s))"
  let ?s2 = "vmm_set_active_aspace 7 (Some 1) ?s1"
  let ?s3 = "vmm_set_active_aspace 8 (Some 1) ?s2"
  have l: "aspace_list ?s1 = [1, kernel_aspace]" using r(2) by (simp add: vmm_create_aspace_def Let_def)
  have act: "aspace_list (vmm_set_active_aspace t a s) = aspace_list s"
    "thr_aspace (vmm_set_active_aspace t a s) = (thr_aspace s)(t := a)" for t a s
    by (auto simp: vmm_set_active_aspace_def vmm_context_switch_def)
  have "vmm_reach (?s1, h)"
    by (rule reach_call [OF r(1), where c = "CreateAspace (Some 1) 0 None 0"])
      (simp_all add: r(2) kernel_aspace_def)
  then have "vmm_reach (?s2, h)"
    by (rule reach_call [where c = "SetActive 7 (Some 1)"]) (use l in simp_all)
  then have "vmm_reach (?s3, h)"
    by (rule reach_call [where c = "SetActive 8 (Some 1)"]) (use l in \<open>simp_all add: act\<close>)
  then show ?thesis using l by (intro exI [of _ ?s3] exI [of _ h]) (simp add: act)
qed

theorem vmm_regions_well_formed_witness:
  "\<exists>s h. aspace_list s = [1, kernel_aspace] \<and> aspace_ok (aspaces s kernel_aspace)
     \<and> vmm_exec (AllocRegion True kernel_aspace (Some ''stack'') 0x2000 None 0 0 0) (s, h) \<noteq> None
     \<and> (\<exists>s' h'. vmm_exec (FreeAspace 7 1) (s, h) = Some (s', h') \<and> thr_aspace s' 7 \<noteq> Some 1
          \<and> thr_aspace s' 8 = Some 1 \<and> 1 \<notin> set (aspace_list s'))"
proof -
  obtain s h where r: "vmm_reach (s, h)" "aspace_list s = [1, kernel_aspace]" "thr_aspace s 7 = Some 1"
    "thr_aspace s 8 = Some 1" using two_threads_active by blast
  note w = vmm_regions_well_formed [OF r(1)]
  have al: "vmm_allowed (AllocRegion True kernel_aspace (Some ''stack'') 0x2000 None 0 0 0) (s, h)"
    "vmm_allowed (FreeAspace 7 1) (s, h)"
    using r(2) by (simp_all add: spot_allowed_def kernel_aspace_def)
  have ne: "vmm_exec c (s, h) \<noteq> None" if "vmm_allowed c (s, h)" for c using w that by blast
  obtain s' h' where e: "vmm_exec (FreeAspace 7 1) (s, h) = Some (s', h')" using ne [OF al(2)] by auto
  have "thr_aspace s' 7 \<noteq> Some 1 \<and> thr_aspace s' 8 = Some 1 \<and> 1 \<notin> set (aspace_list s')"
    using w al(2) e r(4) by (metis (no_types) numeral_eq_iff semiring_norm(88,89,90) num.distinct(5))
  moreover have "aspace_ok (aspaces s kernel_aspace)" using w r(2) by simp
  ultimately show ?thesis using r(2) e ne [OF al(1)] by blast
qed

text \<open>
  C33 The placement of a region is correct and complete. On a well-formed address space, for a
  nonzero number of whole pages, \<^verbatim>\<open>alloc_region\<close> returns. With a specific address it
  succeeds exactly when the heap has a structure and the range lies in the address space and
  meets no region; without one, exactly when some range at a multiple of the alignment (at least
  a page) does, and then it takes the lowest such range, also where an address computation
  wraps around. The region has the requested size, name (cut to 31 characters) and flags,
  and is linked between its neighbours; the other regions are unchanged.
\<close>

theorem alloc_region_lowest_spot:
  fixes vf :: u32 and al :: u8 and vaddr sz :: u64
  defines "specific \<equiv> vf AND VMM_FLAG_VALLOC_SPECIFIC \<noteq> 0" and "A \<equiv> (2::nat) ^ max 12 (unat al)"
  assumes "aspace_ok a" "sz \<noteq> 0" "4096 dvd unat sz" "if specific then 4096 dvd unat vaddr else unat al < 64"
  shows "\<exists>res. alloc_region mem a name sz vaddr al vf rf af = Some res \<and>
    (case res of
       None \<Rightarrow> \<not> mem \<or> (if specific then \<not> free_range a (unat vaddr) (unat sz)
                          else \<forall>v. A dvd v \<longrightarrow> \<not> free_range a v (unat sz))
     | Some (i, a') \<Rightarrow> mem \<and> aspace_ok a' \<and> (\<exists>r. a' = link_region i r a \<and> region_list a' ! i = r
         \<and> free_range a (rbeg r) (unat sz) \<and> rg_size r = sz \<and> rg_name r = take 31 name
         \<and> rg_flags r = rf \<and> rg_arch_mmu_flags r = af \<and> rg_page_list r = []
         \<and> (if specific then rg_base r = vaddr
            else A dvd rbeg r \<and> (\<forall>v < rbeg r. A dvd v \<longrightarrow> \<not> free_range a v (unat sz)))))"
proof -
  obtain res where res: "alloc_region mem a name sz vaddr al vf rf af = Some res"
    "case res of
       None \<Rightarrow> \<not> mem \<or> (if specific then \<not> free_range a (unat vaddr) (unat sz)
                          else \<forall>v. A dvd v \<longrightarrow> \<not> free_range a v (unat sz))
     | Some (i, a') \<Rightarrow> mem \<and> (\<exists>r. region_made a name sz rf af i a' r
         \<and> (if specific then rg_base r = vaddr
            else A dvd rbeg r \<and> (\<forall>v < rbeg r. A dvd v \<longrightarrow> \<not> free_range a v (unat sz))))"
    using alloc_region_ok [OF assms(3-6) [unfolded specific_def], of mem name rf af] unfolding specific_def A_def by blast
  show ?thesis
  proof (cases res)
    case None
    then show ?thesis using res by simp
  next
    case (Some x)
    then obtain i a' r where r: "res = Some (i, a')" "mem" "region_made a name sz rf af i a' r"
      "if specific then rg_base r = vaddr else A dvd rbeg r \<and> (\<forall>v < rbeg r. A dvd v \<longrightarrow> \<not> free_range a v (unat sz))"
      using res(2) by (cases x) auto
    have "aspace_ok a'" using region_made_ok [OF assms(3) r(3)] by simp
    moreover have "region_list a' ! i = r" "free_range a (rbeg r) (unat sz)"
      using r(3) linked_at between_free_range by (auto simp: region_made_def)
    ultimately show ?thesis using res(1) r unfolding region_made_def by auto
  qed
qed

theorem alloc_region_lowest_spot_witness:
  "\<exists>i a'. alloc_region True aspace0 ''stack'' 0x2000 0 0 0 2 0 = Some (Some (i, a')) \<and> aspace_ok a'"
proof -
  have ok: "aspace_ok aspace0" unfolding aspace0_def by (rule fresh_aspace_ok)
  have fr: "free_range aspace0 (as_beg aspace0) 0x2000" "4096 dvd as_beg aspace0"
    by (simp_all add: free_range_def aspace0_def as_beg_def as_end_def lk_defs)
  obtain res where r: "alloc_region True aspace0 ''stack'' 0x2000 0 0 0 2 0 = Some res"
      "res = None \<Longrightarrow> \<forall>v. 4096 dvd v \<longrightarrow> \<not> free_range aspace0 v 0x2000"
      "\<And>i a'. res = Some (i, a') \<Longrightarrow> aspace_ok a'"
    using alloc_region_lowest_spot [where sz = "0x2000" and vf = 0 and al = 0 and vaddr = 0 and mem = True
      and name = "''stack''" and rf = 2 and af = 0, OF ok]
    by (fastforce simp: lk_defs split: option.splits)
  show ?thesis using r fr by (cases res) auto
qed

text \<open>
  C34 The memory of the kernel is never given away. If the page tables map every page of the
  range given to \<^verbatim>\<open>mark_pages_in_use\<close> (the kernel image, or what the boot allocator has used),
  the function runs to the end, and the physical page behind every byte of the range, where an
  arena covers it, is marked as handed out afterwards; it takes no page twice.
\<close>

theorem mark_pages_in_use_marks_all:
  assumes "pmm_reach (s, h)" "len \<noteq> 0" "unat len + 8192 \<le> 2 ^ 64" "unat va + unat len \<le> 2 ^ 64"
    and "\<And>x. unat va \<le> unat x \<Longrightarrow> unat x < unat va + unat len \<Longrightarrow> query kernel_aspace (ROUNDDOWN x PAGE_SIZE) \<noteq> None"
  shows "\<exists>ps s'. mark_pages_in_use query va len s = Some (ps, s')
    \<and> held s' = held s \<union> set ps \<and> distinct ps \<and> set ps \<inter> held s = {}
    \<and> (\<forall>x. unat va \<le> unat x \<longrightarrow> unat x < unat va + unat len \<longrightarrow>
         (\<forall>pa f p. query kernel_aspace (ROUNDDOWN x PAGE_SIZE) = Some (pa, f) \<longrightarrow> paddr_to_vm_page pa s = Some p \<longrightarrow> p \<in> held s'))"
proof -
  have "pmm_inv s" using reach_inv [OF assms(1)] by simp
  from mark_pages_in_use_ok [where query = query, OF this assms(2-5)] show ?thesis unfolding handed_out_def by blast
qed

theorem mark_pages_in_use_marks_all_witness:
  "\<exists>s ps s' p. mark_pages_in_use query_id 0x10800 0x1000 s = Some (ps, s') \<and> paddr_to_vm_page 0x11000 s = Some p \<and> p \<in> held s'"
proof -
  obtain s a b where r: "pmm_reach (s, [])" "arena_list s = [a, b]" "ar_base a = 0x10000" "ar_size a = 0x2000"
    using two_arenas by blast
  obtain p where p: "paddr_to_vm_page 0x11000 s = Some p"
    using r(2-4) by (simp add: paddr_to_vm_page_def)
  obtain ps s' where m: "mark_pages_in_use query_id 0x10800 0x1000 s = Some (ps, s')"
      "\<forall>x. unat (0x10800 :: u64) \<le> unat x \<longrightarrow> unat x < unat (0x10800 :: u64) + unat (0x1000 :: u64) \<longrightarrow>
         (\<forall>pa f p. query_id kernel_aspace (ROUNDDOWN x PAGE_SIZE) = Some (pa, f) \<longrightarrow> paddr_to_vm_page pa s = Some p \<longrightarrow> p \<in> held s')"
    using mark_pages_in_use_marks_all [where query = query_id and len = "0x1000" and va = "0x10800", OF r(1)] by (auto simp: query_id_def)
  have "p \<in> held s'"
    using m(2) [THEN spec, of "0x11000"] p by (simp add: query_id_def ROUNDDOWN_def PAGE_SIZE_num)
  then show ?thesis using m(1) p by blast
qed

end
