(* ===== verification/Lib_Miniheap.thy ===== *)
theory Lib_Miniheap
  imports Kernel_Pmm
begin

text \<open>
  The first-fit heap \<^verbatim>\<open>lib/heap/miniheap/miniheap.c\<close> and the page allocator
  \<^verbatim>\<open>lib/heap/page_alloc.c\<close> it grows from, on a 64-bit machine in a debug build
  (\<^verbatim>\<open>LK_DEBUGLEVEL\<close> above 1, \<^verbatim>\<open>DEBUG_HEAP\<close> and \<^verbatim>\<open>MINIHEAP_AUTOTRIM\<close> 0). A
  free chunk is its address and its length; the headers in front of the allocations are a map
  from their addresses. Every operation is one step. The source holds the mutex of the heap
  over each of them except that \<^verbatim>\<open>miniheap_alloc\<close> releases it while the heap grows and
  searches again afterwards; that another thread takes the new chunk in between, and the
  search has to be repeated, is not modelled.
\<close>

section \<open>Data\<close>

record free_heap_chunk =
  ck_addr :: u64
  ck_len :: u64

record alloc_struct_begin =
  as_magic :: u32
  as_ptr :: u64
  as_size :: u64

definition HEAP_MAGIC :: u32 where [lk_defs]: "HEAP_MAGIC = 0x48454150"

definition sizeof_free_heap_chunk :: u64 where "sizeof_free_heap_chunk = 24"

definition sizeof_alloc_struct_begin :: u64 where "sizeof_alloc_struct_begin = 24"

text \<open>\<open>hp_head\<close> is the address of the list head \<^verbatim>\<open>theheap.free_list\<close>.\<close>

record heap =
  hp_base :: u64
  hp_len :: u64
  hp_remaining :: u64
  hp_low_watermark :: u64
  hp_free_list :: "free_heap_chunk list"
  hp_head :: u64
  hp_headers :: "u64 \<Rightarrow> alloc_struct_begin"

section \<open>The page allocator\<close>

definition page_alloc :: "mmu_initial_mapping list \<Rightarrow> u64 \<Rightarrow> pmm_state \<Rightarrow> (u64 \<times> pmm_state) option" where
  "page_alloc maps pgs s = do {
     (result, _, s) \<leftarrow> pmm_alloc_kpages maps (ucast pgs) None s;
     Some (result, s)
   }"

definition page_free :: "(u64 \<Rightarrow> paddr_t) \<Rightarrow> u64 \<Rightarrow> u64 \<Rightarrow> pmm_state \<Rightarrow> pmm_state option" where
  "page_free vaddr_to_paddr ptr pgs s = do {
     ASSERT (IS_ALIGNED ptr PAGE_SIZE);
     (_, s) \<leftarrow> pmm_free_kpages vaddr_to_paddr ptr (ucast pgs) s;
     Some s
   }"

definition page_first_alloc :: "mmu_initial_mapping list \<Rightarrow> pmm_state \<Rightarrow> (u64 \<times> u64 \<times> pmm_state) option" where
  "page_first_alloc maps s = do {
     (p, s) \<leftarrow> page_alloc maps 1 s;
     Some (p, PAGE_SIZE, s)
   }"

section \<open>The free list\<close>

definition heap_create_free_chunk :: "u64 \<Rightarrow> u64 \<Rightarrow> free_heap_chunk option" where
  "heap_create_free_chunk ptr len = do {
     ASSERT (len mod 8 = 0);
     Some \<lparr>ck_addr = ptr, ck_len = len\<rparr>
   }"

text \<open>The walk to the first chunk above the new one: the chunks before it and from it on.\<close>

primrec insert_point :: "free_heap_chunk \<Rightarrow> free_heap_chunk list \<Rightarrow> free_heap_chunk list \<times> free_heap_chunk list" where
  "insert_point c [] = ([], [])"
| "insert_point c (n # ns) =
     (if ck_addr c < ck_addr n then ([], n # ns)
      else let (ps, qs) = insert_point c ns in (n # ps, qs))"

text \<open>Merging with the chunk before: it swallows the new one.\<close>

definition merge_prev :: "free_heap_chunk list \<Rightarrow> free_heap_chunk \<Rightarrow> free_heap_chunk list \<times> free_heap_chunk" where
  "merge_prev ps c =
     (if ps \<noteq> [] \<and> ck_addr (last ps) + ck_len (last ps) = ck_addr c
      then (butlast ps, (last ps)\<lparr>ck_len := ck_len (last ps) + ck_len c\<rparr>)
      else (ps, c))"

text \<open>
  Merging with the chunk behind. When the walk has run off the end, \<^verbatim>\<open>next_chunk\<close> is not
  null but points to the list head: the comparison is made with its address, and if it held,
  the code would read a chunk that is not there.
\<close>

definition merge_next :: "u64 \<Rightarrow> free_heap_chunk \<Rightarrow> free_heap_chunk list \<Rightarrow> (free_heap_chunk \<times> free_heap_chunk list) option" where
  "merge_next head c qs =
     (case qs of
        [] \<Rightarrow> do { ASSERT (ck_addr c + ck_len c \<noteq> head); Some (c, []) }
      | n # ns \<Rightarrow>
          if ck_addr c + ck_len c = ck_addr n
          then Some (c\<lparr>ck_len := ck_len c + ck_len n\<rparr>, ns)
          else Some (c, n # ns))"

definition heap_insert_free_chunk :: "free_heap_chunk \<Rightarrow> heap \<Rightarrow> (u64 \<times> heap) option" where
  "heap_insert_free_chunk c h = do {
     let chunk_end = ck_addr c + ck_len c;
     let h = h\<lparr>hp_remaining := hp_remaining h + ck_len c\<rparr>;
     let (ps, qs) = insert_point c (hp_free_list h);
     ASSERT (qs \<noteq> [] \<longrightarrow> chunk_end \<le> ck_addr (hd qs));
     let (ps, c) = merge_prev ps c;
     (c, qs) \<leftarrow> merge_next (hp_head h) c qs;
     Some (ck_addr c, h\<lparr>hp_free_list := ps @ c # qs\<rparr>)
   }"

section \<open>Allocation\<close>

text \<open>The size that is taken from the free list for a request.\<close>

definition alloc_size :: "u64 \<Rightarrow> u32 \<Rightarrow> u64" where
  "alloc_size sz alignment =
     (let sz = sz + sizeof_alloc_struct_begin;
          sz = (if sz < sizeof_free_heap_chunk then sizeof_free_heap_chunk else sz);
          sz = ROUNDUP sz 8
      in if alignment > 0 then sz + ucast (if alignment < 16 then 16 else alignment) else sz)"

text \<open>The walk through the free list, with the assertion on every chunk it looks at.\<close>

primrec first_fit :: "u64 \<Rightarrow> free_heap_chunk list \<Rightarrow>
    (free_heap_chunk list \<times> free_heap_chunk \<times> free_heap_chunk list) option option" where
  "first_fit sz [] = Some None"
| "first_fit sz (c # cs) = do {
     ASSERT (ck_len c mod 8 = 0);
     if ck_len c \<ge> sz then Some (Some ([], c, cs))
     else do {
       r \<leftarrow> first_fit sz cs;
       Some (map_option (\<lambda>(ps, d, qs). (c # ps, d, qs)) r)
     }
   }"

text \<open>Splitting the chunk that was found: what is allocated and what stays in the list.\<close>

definition split_chunk :: "u64 \<Rightarrow> free_heap_chunk \<Rightarrow> (free_heap_chunk \<times> free_heap_chunk list) option" where
  "split_chunk sz c =
     (if ck_len c > sz + sizeof_free_heap_chunk then do {
        newchunk \<leftarrow> heap_create_free_chunk (ck_addr c + sz) (ck_len c - sz);
        Some (c\<lparr>ck_len := ck_len c - (ck_len c - sz)\<rparr>, [newchunk])
      } else Some (c, []))"

text \<open>One pass over the list. The result 0 is the null pointer.\<close>

definition heap_take :: "u64 \<Rightarrow> u32 \<Rightarrow> heap \<Rightarrow> (u64 \<times> heap) option" where
  "heap_take sz alignment h = do {
     found \<leftarrow> first_fit sz (hp_free_list h);
     (case found of
        None \<Rightarrow> Some (0, h)
      | Some (ps, c, qs) \<Rightarrow> do {
          (c, new) \<leftarrow> split_chunk sz c;
          ASSERT (ck_len c \<ge> sz);
          let sz = ck_len c;
          let ptr = ck_addr c + sizeof_alloc_struct_begin;
          let ptr = (if alignment > 0 then ROUNDUP ptr (ucast alignment) else ptr);
          let as = \<lparr>as_magic = HEAP_MAGIC, as_ptr = ck_addr c, as_size = sz\<rparr>;
          let h = h\<lparr>hp_free_list := ps @ new @ qs,
                    hp_headers := (hp_headers h)(ptr - sizeof_alloc_struct_begin := as),
                    hp_remaining := hp_remaining h - sz\<rparr>;
          Some (ptr, if hp_remaining h < hp_low_watermark h
                     then h\<lparr>hp_low_watermark := hp_remaining h\<rparr> else h)
        })
   }"

text \<open>\<open>grant\<close> is what \<^verbatim>\<open>page_alloc\<close> returns for the number of pages asked for, 0 for none.\<close>

definition heap_grow :: "(u64 \<Rightarrow> u64) \<Rightarrow> u64 \<Rightarrow> heap \<Rightarrow> (int \<times> heap) option" where
  "heap_grow grant sz h = do {
     let sz = ROUNDUP sz PAGE_SIZE;
     let ptr = grant (sz div PAGE_SIZE);
     if ptr = 0 then Some (ERR_NO_MEMORY, h)
     else do {
       c \<leftarrow> heap_create_free_chunk ptr sz;
       (_, h) \<leftarrow> heap_insert_free_chunk c h;
       let h = (if ptr < hp_base h \<or> hp_base h = 0 then h\<lparr>hp_base := ptr\<rparr> else h);
       let endptr = ptr + sz;
       let h = (if endptr > hp_base h + hp_len h then h\<lparr>hp_len := endptr - hp_base h\<rparr> else h);
       Some (sint sz, h)
     }
   }"

definition miniheap_alloc :: "(u64 \<Rightarrow> u64) \<Rightarrow> u64 \<Rightarrow> u32 \<Rightarrow> heap \<Rightarrow> (u64 \<times> heap) option" where
  "miniheap_alloc grant sz alignment h =
     (if alignment AND (alignment - 1) \<noteq> 0 then Some (0, h)
      else do {
        let total = alloc_size sz alignment;
        let alignment = (if alignment > 0 \<and> alignment < 16 then 16 else alignment);
        (ptr, h) \<leftarrow> heap_take total alignment h;
        if ptr = 0 then do {
          (err, h) \<leftarrow> heap_grow grant total h;
          if err \<ge> 0 then heap_take total alignment h else Some (0, h)
        } else Some (ptr, h)
      })"

definition miniheap_free :: "u64 \<Rightarrow> heap \<Rightarrow> heap option" where
  "miniheap_free ptr h =
     (if ptr = 0 then Some h
      else do {
        let as = hp_headers h (ptr - sizeof_alloc_struct_begin);
        ASSERT (as_magic as = HEAP_MAGIC);
        c \<leftarrow> heap_create_free_chunk (as_ptr as) (as_size as);
        (_, h) \<leftarrow> heap_insert_free_chunk c h;
        Some h
      })"

text \<open>
  The contents of the allocations are not part of the state; the second result is the copy the
  function makes (\<open>memcpy\<close> with its destination, source and length).
\<close>

definition miniheap_realloc ::
  "(u64 \<Rightarrow> u64) \<Rightarrow> u64 \<Rightarrow> u64 \<Rightarrow> heap \<Rightarrow> (u64 \<times> (u64 \<times> u64 \<times> u64) option \<times> heap) option" where
  "miniheap_realloc grant ptr sz h =
     (if ptr = 0 then do {
        (p, h) \<leftarrow> miniheap_alloc grant sz 0 h;
        Some (p, None, h)
      } else if sz = 0 then do {
        h \<leftarrow> miniheap_free ptr h;
        Some (0, None, h)
      } else do {
        (p, h) \<leftarrow> miniheap_alloc grant sz 0 h;
        if p = 0 then Some (0, None, h)
        else do {
          h \<leftarrow> miniheap_free ptr h;
          Some (p, Some (p, ptr, sz), h)
        }
      })"

section \<open>Giving pages back\<close>

datatype trim_result = NoTrim | TrimAll u64 u64 | TrimPart u64 u64

text \<open>
  The part of \<^verbatim>\<open>miniheap_trim\<close> from the label \<^verbatim>\<open>retry\<close> on that settles which pages
  of the chunk from \<open>start\<close> to \<open>end\<close> can go: all of it, or the pages from the first to the second
  address.
\<close>

partial_function (option) trim_range :: "u64 \<Rightarrow> u64 \<Rightarrow> u64 \<Rightarrow> u64 \<Rightarrow> trim_result option" where
  "trim_range start end start_page end_page =
     (if end_page > start_page then
        (if start_page = start \<and> end_page = end then Some (TrimAll start_page end_page)
         else if start_page \<noteq> start \<and> start_page - start < sizeof_free_heap_chunk
         then trim_range start end (start_page + PAGE_SIZE) end_page
         else if end_page < end \<and> end - end_page < sizeof_free_heap_chunk
         then trim_range start end start_page (end_page - PAGE_SIZE)
         else Some (TrimPart start_page end_page))
      else Some NoTrim)"

text \<open>What becomes of one chunk, and the pages it gives back (address and length).\<close>

definition trim_chunk :: "free_heap_chunk \<Rightarrow> (free_heap_chunk list \<times> (u64 \<times> u64) list) option" where
  "trim_chunk c = do {
     let start = ck_addr c;
     let end = start + ck_len c;
     ASSERT (end > start);
     let start_page = ROUNDUP start PAGE_SIZE;
     let end_page = ROUNDDOWN end PAGE_SIZE;
     ASSERT (end_page \<le> end);
     ASSERT (start_page \<ge> start);
     r \<leftarrow> trim_range start end start_page end_page;
     (case r of
        NoTrim \<Rightarrow> Some ([c], [])
      | TrimAll sp ep \<Rightarrow> Some ([], [(sp, ep - sp)])
      | TrimPart sp ep \<Rightarrow> do {
          (c, new, end) \<leftarrow> (if ep < end then do {
                              new \<leftarrow> heap_create_free_chunk ep (end - ep);
                              Some (c\<lparr>ck_len := ck_len c - (end - ep)\<rparr>, [new], ep)
                            } else Some (c, [], end));
          if sp = start \<and> ep = end then Some (new, [(sp, ep - sp)])
          else Some (c\<lparr>ck_len := ck_len c - (ep - sp)\<rparr> # new, [(sp, ep - sp)])
        })
   }"

primrec trim_walk :: "free_heap_chunk list \<Rightarrow> (free_heap_chunk list \<times> (u64 \<times> u64) list) option" where
  "trim_walk [] = Some ([], [])"
| "trim_walk (c # cs) = do {
     (ds, fs) \<leftarrow> trim_chunk c;
     (es, gs) \<leftarrow> trim_walk cs;
     Some (ds @ es, fs @ gs)
   }"

text \<open>The second result is the sequence of calls of \<^verbatim>\<open>page_free\<close>, with byte lengths.\<close>

definition miniheap_trim :: "heap \<Rightarrow> ((u64 \<times> u64) list \<times> heap) option" where
  "miniheap_trim h = do {
     (cs, fs) \<leftarrow> trim_walk (hp_free_list h);
     Some (fs, h\<lparr>hp_free_list := cs, hp_remaining := hp_remaining h - sum_list (map snd fs)\<rparr>)
   }"

section \<open>Statistics and set-up\<close>

record miniheap_stats =
  heap_start :: u64
  heap_len :: u64
  heap_free :: u64
  heap_max_chunk :: u64
  heap_low_watermark :: u64

definition miniheap_get_stats :: "heap \<Rightarrow> miniheap_stats" where
  "miniheap_get_stats h =
     foldl (\<lambda>st c. st\<lparr>heap_free := heap_free st + ck_len c,
                      heap_max_chunk := (if ck_len c > heap_max_chunk st then ck_len c else heap_max_chunk st)\<rparr>)
       \<lparr>heap_start = hp_base h, heap_len = hp_len h, heap_free = 0, heap_max_chunk = 0,
        heap_low_watermark = hp_low_watermark h\<rparr>
       (hp_free_list h)"

definition miniheap_init :: "u64 \<Rightarrow> u64 \<Rightarrow> heap \<Rightarrow> heap option" where
  "miniheap_init ptr len h = do {
     let h = h\<lparr>hp_free_list := [], hp_base := ptr, hp_len := len, hp_remaining := 0, hp_low_watermark := 0\<rparr>;
     if len > 0 then do {
       c \<leftarrow> heap_create_free_chunk ptr len;
       (_, h) \<leftarrow> heap_insert_free_chunk c h;
       Some h
     } else Some h
   }"

section \<open>The interface of the C library\<close>

text \<open>
  \<^verbatim>\<open>lib/heap/heap_wrapper.c\<close> over the miniheap: \<open>hw_delayed\<close> is the list of blocks that
  are freed at the next allocation.
\<close>

record heapw =
  hw_heap :: heap
  hw_delayed :: "u64 list"

definition heap_delayed_free :: "u64 \<Rightarrow> heapw \<Rightarrow> heapw" where
  "heap_delayed_free ptr w = w\<lparr>hw_delayed := ptr # hw_delayed w\<rparr>"

primrec free_blocks :: "u64 list \<Rightarrow> heap \<Rightarrow> heap option" where
  "free_blocks [] h = Some h"
| "free_blocks (p # ps) h = do { h \<leftarrow> miniheap_free p h; free_blocks ps h }"

text \<open>The first loop moves the blocks to a local list and reverses it, the second frees them.\<close>

definition heap_free_delayed_list :: "heapw \<Rightarrow> heapw option" where
  "heap_free_delayed_list w = do {
     h \<leftarrow> free_blocks (rev (hw_delayed w)) (hw_heap w);
     Some (w\<lparr>hw_heap := h, hw_delayed := []\<rparr>)
   }"

definition heap_pending :: "heapw \<Rightarrow> heapw option" where
  "heap_pending w = (if hw_delayed w \<noteq> [] then heap_free_delayed_list w else Some w)"

definition heap_init :: "mmu_initial_mapping list \<Rightarrow> pmm_state \<Rightarrow> heapw \<Rightarrow> (pmm_state \<times> heapw) option" where
  "heap_init maps s w = do {
     (ptr, len, s) \<leftarrow> page_first_alloc maps s;
     h \<leftarrow> miniheap_init ptr len (hw_heap w);
     Some (s, w\<lparr>hw_heap := h\<rparr>)
   }"

definition malloc :: "(u64 \<Rightarrow> u64) \<Rightarrow> u64 \<Rightarrow> heapw \<Rightarrow> (u64 \<times> heapw) option" where
  "malloc grant sz w = do {
     w \<leftarrow> heap_pending w;
     (p, h) \<leftarrow> miniheap_alloc grant sz 0 (hw_heap w);
     Some (p, w\<lparr>hw_heap := h\<rparr>)
   }"

text \<open>The boundary is passed on as an \<^verbatim>\<open>unsigned int\<close>.\<close>

definition memalign :: "(u64 \<Rightarrow> u64) \<Rightarrow> u64 \<Rightarrow> u64 \<Rightarrow> heapw \<Rightarrow> (u64 \<times> heapw) option" where
  "memalign grant boundary sz w = do {
     w \<leftarrow> heap_pending w;
     (p, h) \<leftarrow> miniheap_alloc grant sz (ucast boundary) (hw_heap w);
     Some (p, w\<lparr>hw_heap := h\<rparr>)
   }"

text \<open>The second result is the number of bytes that are cleared from the pointer on.\<close>

definition calloc :: "(u64 \<Rightarrow> u64) \<Rightarrow> u64 \<Rightarrow> u64 \<Rightarrow> heapw \<Rightarrow> (u64 \<times> u64 \<times> heapw) option" where
  "calloc grant count sz w = do {
     w \<leftarrow> heap_pending w;
     let realsize = count * sz;
     (p, h) \<leftarrow> miniheap_alloc grant realsize 0 (hw_heap w);
     Some (p, if p \<noteq> 0 then realsize else 0, w\<lparr>hw_heap := h\<rparr>)
   }"

definition realloc ::
  "(u64 \<Rightarrow> u64) \<Rightarrow> u64 \<Rightarrow> u64 \<Rightarrow> heapw \<Rightarrow> (u64 \<times> (u64 \<times> u64 \<times> u64) option \<times> heapw) option" where
  "realloc grant ptr sz w = do {
     w \<leftarrow> heap_pending w;
     (p, cp, h) \<leftarrow> miniheap_realloc grant ptr sz (hw_heap w);
     Some (p, cp, w\<lparr>hw_heap := h\<rparr>)
   }"

definition free :: "u64 \<Rightarrow> heapw \<Rightarrow> heapw option" where
  "free ptr w = do {
     h \<leftarrow> miniheap_free ptr (hw_heap w);
     Some (w\<lparr>hw_heap := h\<rparr>)
   }"

definition heap_trim :: "heapw \<Rightarrow> ((u64 \<times> u64) list \<times> heapw) option" where
  "heap_trim w = do {
     w \<leftarrow> heap_pending w;
     (fs, h) \<leftarrow> miniheap_trim (hw_heap w);
     Some (fs, w\<lparr>hw_heap := h\<rparr>)
   }"

end
