(* ===== verification/Miniheap_Inv.thy ===== *)
theory Miniheap_Inv
  imports Lib_Miniheap Lib_Pow2 LK_System
begin

text \<open>
  Chunks as intervals of bytes: the free list is sorted and fully merged, and inserting,
  splitting and trimming keep it so and account for every byte.
\<close>

section \<open>Chunks as intervals\<close>

abbreviation lo :: "free_heap_chunk \<Rightarrow> nat" where
  "lo c \<equiv> unat (ck_addr c)"

definition hi :: "free_heap_chunk \<Rightarrow> nat" where
  "hi c = lo c + unat (ck_len c)"

text \<open>Not empty, whole words of 8 bytes, and below the last page of the address space.\<close>

definition chunk_ok :: "free_heap_chunk \<Rightarrow> bool" where
  "chunk_ok c \<longleftrightarrow> 0 < unat (ck_len c) \<and> hi c + 4096 \<le> 2 ^ 64 \<and> 8 dvd unat (ck_len c) \<and> 8 dvd lo c"

definition bytes :: "free_heap_chunk \<Rightarrow> nat set" where
  "bytes c = {lo c..<hi c}"

definition cover :: "free_heap_chunk list \<Rightarrow> nat set" where
  "cover cs = (\<Union>c \<in> set cs. bytes c)"

text \<open>Sorted by address, with at least one byte between neighbours.\<close>

definition coalesced :: "free_heap_chunk list \<Rightarrow> bool" where
  "coalesced cs \<longleftrightarrow> sorted_wrt (\<lambda>c d. hi c < lo d) cs"

definition total :: "free_heap_chunk list \<Rightarrow> nat" where
  "total cs = sum_list (map (\<lambda>c. unat (ck_len c)) cs)"

text \<open>The list head does not lie in, or right behind, the chunk.\<close>

definition off_head :: "u64 \<Rightarrow> free_heap_chunk \<Rightarrow> bool" where
  "off_head H c \<longleftrightarrow> \<not> (lo c < unat H \<and> unat H \<le> hi c)"

definition free_ok :: "u64 \<Rightarrow> free_heap_chunk list \<Rightarrow> bool" where
  "free_ok H cs \<longleftrightarrow> coalesced cs \<and> (\<forall>c \<in> set cs. chunk_ok c \<and> off_head H c)"

lemma cover_simps [simp]:
  "cover [] = {}" "cover (c # cs) = bytes c \<union> cover cs" "cover (cs @ ds) = cover cs \<union> cover ds"
  by (auto simp: cover_def)

lemma total_simps [simp]:
  "total [] = 0" "total (c # cs) = unat (ck_len c) + total cs" "total (cs @ ds) = total cs + total ds"
  by (auto simp: total_def)

lemma chunk_ok_lo_hi: "chunk_ok c \<Longrightarrow> lo c < hi c"
  by (simp add: chunk_ok_def hi_def)

lemma chunk_end: "chunk_ok c \<Longrightarrow> unat (ck_addr c + ck_len c) = hi c"
  by (simp add: chunk_ok_def hi_def unat_word_ariths)

lemma bytes_disjoint:
  "chunk_ok c \<Longrightarrow> chunk_ok d \<Longrightarrow> bytes c \<inter> bytes d = {} \<longleftrightarrow> hi c \<le> lo d \<or> hi d \<le> lo c"
proof -
  assume "chunk_ok c" "chunk_ok d"
  then have "lo c < hi c" "lo d < hi d" by (auto intro: chunk_ok_lo_hi)
  then have "max (lo c) (lo d) \<in> bytes c \<inter> bytes d" if "\<not> (hi c \<le> lo d \<or> hi d \<le> lo c)"
    using that by (auto simp: bytes_def)
  then show ?thesis by (auto simp: bytes_def)
qed

text \<open>Two adjacent chunks merged into one.\<close>

lemma merged_chunk:
  assumes "chunk_ok c" "chunk_ok d" "hi c = lo d"
  defines "m \<equiv> c\<lparr>ck_len := ck_len c + ck_len d\<rparr>"
  shows "lo m = lo c" "hi m = hi d" "chunk_ok m" "bytes m = bytes c \<union> bytes d"
    "unat (ck_len m) = unat (ck_len c) + unat (ck_len d)"
    "off_head H c \<Longrightarrow> off_head H d \<Longrightarrow> off_head H m"
proof -
  have "unat (ck_len c + ck_len d) = unat (ck_len c) + unat (ck_len d)"
    using assms by (simp add: chunk_ok_def hi_def unat_word_ariths)
  then show l: "unat (ck_len m) = unat (ck_len c) + unat (ck_len d)" by (simp add: m_def)
  show a: "lo m = lo c" by (simp add: m_def)
  show h: "hi m = hi d" using l a assms(3) by (simp add: hi_def)
  show "chunk_ok m" using l h assms by (simp add: chunk_ok_def)
  show "bytes m = bytes c \<union> bytes d"
    using a h assms chunk_ok_lo_hi [of c] chunk_ok_lo_hi [of d] by (auto simp: bytes_def)
  show "off_head H c \<Longrightarrow> off_head H d \<Longrightarrow> off_head H m"
    using a h assms(3) by (auto simp: off_head_def)
qed

lemma coalesced_Cons [simp]:
  "coalesced []" "coalesced (c # cs) \<longleftrightarrow> (\<forall>d \<in> set cs. hi c < lo d) \<and> coalesced cs"
  by (auto simp: coalesced_def)

lemma coalesced_append:
  "coalesced (ps @ c # qs) \<longleftrightarrow> coalesced ps \<and> coalesced qs \<and> (\<forall>p \<in> set ps. hi p < lo c) \<and> (\<forall>q \<in> set qs. hi c < lo q)
     \<and> (\<forall>p \<in> set ps. \<forall>q \<in> set qs. hi p < lo q)"
  by (auto simp: coalesced_def sorted_wrt_append)

section \<open>Insertion\<close>

lemma insert_point_ok:
  assumes "free_ok H cs" "chunk_ok c" "bytes c \<inter> cover cs = {}" "insert_point c cs = (ps, qs)"
  shows "cs = ps @ qs" "\<forall>p \<in> set ps. hi p \<le> lo c" "\<forall>q \<in> set qs. hi c \<le> lo q"
proof -
  show cs: "cs = ps @ qs" using assms(4) by (induction cs arbitrary: ps) (auto split: if_splits prod.splits)
  have sep: "hi d \<le> lo c \<or> hi c \<le> lo d" if "d \<in> set cs" for d
    using assms that bytes_disjoint [of c d] by (auto simp: free_ok_def cover_def)
  have le: "\<forall>p \<in> set ps. lo p \<le> lo c"
    using assms(4) by (induction cs arbitrary: ps) (auto simp: word_less_nat_alt split: if_splits prod.splits)
  have "hi p \<le> lo c" if "p \<in> set ps" for p
    using sep [of p] le that cs chunk_ok_lo_hi [OF assms(2)] by auto
  then show "\<forall>p \<in> set ps. hi p \<le> lo c" by blast
  have gt: "qs = [] \<or> lo c < lo (hd qs)"
    using assms(4) by (induction cs arbitrary: ps) (auto simp: word_less_nat_alt split: if_splits prod.splits)
  show "\<forall>q \<in> set qs. hi c \<le> lo q"
  proof
    fix q assume q: "q \<in> set qs"
    then have "lo (hd qs) \<le> lo q"
    proof (cases qs)
      case (Cons a r)
      then have "chunk_ok a" "\<forall>d \<in> set r. hi a < lo d"
        using assms(1) cs by (auto simp: free_ok_def coalesced_append)
      then show ?thesis using Cons q chunk_ok_lo_hi [of a] by fastforce
    qed simp
    then have "lo c < lo q" using gt q by auto
    moreover have "lo q < hi q" using assms(1) q cs by (auto simp: free_ok_def intro: chunk_ok_lo_hi)
    ultimately show "hi c \<le> lo q" using sep [of q] q cs by auto
  qed
qed

text \<open>What a free list may become when the bytes of \<open>c\<close> are added.\<close>

definition adds_chunk :: "u64 \<Rightarrow> free_heap_chunk list \<Rightarrow> free_heap_chunk \<Rightarrow> free_heap_chunk list \<Rightarrow> bool" where
  "adds_chunk H cs c ds \<longleftrightarrow> free_ok H ds \<and> cover ds = cover cs \<union> bytes c
     \<and> total ds = total cs + unat (ck_len c)"

lemma merge_prev_ok:
  assumes ps: "free_ok H ps" and c: "chunk_ok c" "off_head H c" "\<forall>p \<in> set ps. hi p \<le> lo c"
    and r: "merge_prev ps c = (rs, d)"
  shows "chunk_ok d \<and> off_head H d \<and> hi d = hi c \<and> adds_chunk H ps c (rs @ [d])"
proof (cases "ps \<noteq> [] \<and> hi (last ps) = lo c")
  case True
  then obtain qs p where p: "ps = qs @ [p]" "hi p = lo c" by (cases ps rule: rev_cases) auto
  have pk: "chunk_ok p" "off_head H p" "coalesced (qs @ [p])" using ps p by (auto simp: free_ok_def)
  have "ck_addr p + ck_len p = ck_addr c"
    using chunk_end [OF pk(1)] p(2) by (simp add: word_unat_eq_iff)
  then have rd: "rs = qs" "d = p\<lparr>ck_len := ck_len p + ck_len c\<rparr>" using r p by (auto simp: merge_prev_def)
  note m = merged_chunk [OF pk(1) c(1) p(2), folded rd(2)]
  have "free_ok H (qs @ [d])"
    using ps p m c pk by (auto simp: free_ok_def coalesced_append)
  then show ?thesis using m pk c rd p by (auto simp: adds_chunk_def)
next
  case False
  have "\<not> (ps \<noteq> [] \<and> ck_addr (last ps) + ck_len (last ps) = ck_addr c)"
    using False ps chunk_end [of "last ps"] by (auto simp: free_ok_def)
  then have rd: "rs = ps" "d = c" using r by (auto simp: merge_prev_def)
  have "hi p < lo c" if "p \<in> set ps" for p
  proof -
    have "hi p \<le> hi (last ps)"
      using ps that chunk_ok_lo_hi [of "last ps"]
      by (cases ps rule: rev_cases) (auto simp: free_ok_def coalesced_append dest: chunk_ok_lo_hi intro: less_imp_le order.strict_trans)
    then show ?thesis using False c(3) that by (cases ps rule: rev_cases) auto
  qed
  then have "free_ok H (ps @ [c])" using ps c by (auto simp: free_ok_def coalesced_append)
  then show ?thesis using rd c by (auto simp: adds_chunk_def)
qed

lemma merge_next_ok:
  assumes ps: "free_ok H (ps @ [c])" and qs: "free_ok H qs" "\<forall>q \<in> set qs. hi c \<le> lo q"
    and pq: "\<forall>p \<in> set ps. \<forall>q \<in> set qs. hi p < lo q"
  shows "\<exists>d rs. merge_next H c qs = Some (d, rs) \<and> adds_chunk H (ps @ qs) c (ps @ d # rs)"
proof -
  have c: "chunk_ok c" "off_head H c" using ps by (auto simp: free_ok_def)
  show ?thesis
  proof (cases qs)
    case Nil
    have "ck_addr c + ck_len c \<noteq> H"
      using c chunk_end [of c] chunk_ok_lo_hi [of c] by (auto simp: off_head_def)
    then show ?thesis using Nil ps by (auto simp: merge_next_def adds_chunk_def)
  next
    case (Cons n ns)
    have n: "chunk_ok n" "off_head H n" "coalesced (n # ns)" using qs Cons by (auto simp: free_ok_def)
    show ?thesis
    proof (cases "hi c = lo n")
      case True
      then have "ck_addr c + ck_len c = ck_addr n" using chunk_end [OF c(1)] by (simp add: word_unat_eq_iff)
      then have r: "merge_next H c qs = Some (c\<lparr>ck_len := ck_len c + ck_len n\<rparr>, ns)" using Cons by (simp add: merge_next_def)
      note m = merged_chunk [OF c(1) n(1) True]
      have "free_ok H (ps @ c\<lparr>ck_len := ck_len c + ck_len n\<rparr> # ns)"
        using ps qs n m c pq Cons by (auto simp: free_ok_def coalesced_append)
      then show ?thesis using r m Cons by (intro exI conjI) (auto simp: adds_chunk_def)
    next
      case False
      then have "ck_addr c + ck_len c \<noteq> ck_addr n" using chunk_end [OF c(1)] by auto
      then have r: "merge_next H c qs = Some (c, n # ns)" using Cons by (simp add: merge_next_def)
      have "hi c < lo q" if "q \<in> set (n # ns)" for q
        using that False qs(2) n chunk_ok_lo_hi [of n] Cons by fastforce
      then have "free_ok H (ps @ c # n # ns)"
        using ps qs pq Cons by (auto simp: free_ok_def coalesced_append)
      then show ?thesis using r Cons by (auto simp: adds_chunk_def)
    qed
  qed
qed

lemma dvd8_mod: "8 dvd unat w \<longleftrightarrow> w mod 8 = 0" for w :: u64
proof -
  have "unat (w mod 8) = unat w mod 8" by (simp add: unat_mod_distrib)
  then show ?thesis by (metis dvd_eq_mod_eq_0 unat_eq_zero)
qed

lemma heap_insert_ok:
  assumes f: "free_ok (hp_head h) (hp_free_list h)" and c: "chunk_ok c" "off_head (hp_head h) c"
    and d: "bytes c \<inter> cover (hp_free_list h) = {}"
  shows "\<exists>r cs. heap_insert_free_chunk c h
      = Some (r, h\<lparr>hp_remaining := hp_remaining h + ck_len c, hp_free_list := cs\<rparr>)
    \<and> adds_chunk (hp_head h) (hp_free_list h) c cs"
proof -
  let ?H = "hp_head h"
  obtain ps qs where ip: "insert_point c (hp_free_list h) = (ps, qs)" by fastforce
  note pt = insert_point_ok [OF f c(1) d ip]
  have fp: "free_ok ?H ps" "free_ok ?H qs" "\<forall>p \<in> set ps. \<forall>q \<in> set qs. hi p < lo q"
    using f pt(1) by (auto simp: free_ok_def coalesced_def sorted_wrt_append)
  obtain rs e where mp: "merge_prev ps c = (rs, e)" by fastforce
  note me = merge_prev_ok [OF fp(1) c pt(2) mp]
  have rs: "\<forall>p \<in> set rs. \<forall>q \<in> set qs. hi p < lo q"
    using mp fp(3) by (auto simp: merge_prev_def split: if_splits dest: in_set_butlastD)
  obtain x xs where mn: "merge_next ?H e qs = Some (x, xs)" "adds_chunk ?H (rs @ qs) e (rs @ x # xs)"
    using merge_next_ok [of ?H rs e qs] me fp(2) pt(3) rs by (auto simp: adds_chunk_def)
  have "qs \<noteq> [] \<longrightarrow> ck_addr c + ck_len c \<le> ck_addr (hd qs)"
    using pt(3) chunk_end [OF c(1)] by (auto simp: word_le_nat_alt)
  then have "heap_insert_free_chunk c h
      = Some (ck_addr x, h\<lparr>hp_remaining := hp_remaining h + ck_len c, hp_free_list := rs @ x # xs\<rparr>)"
    using ip mp mn(1) by (simp add: heap_insert_free_chunk_def Let_def)
  moreover have "adds_chunk ?H (hp_free_list h) c (rs @ x # xs)"
    using me mn(2) pt(1) by (auto simp: adds_chunk_def)
  ultimately show ?thesis by blast
qed

section \<open>Allocation\<close>

lemma first_fit_ok:
  assumes "\<forall>c \<in> set cs. 8 dvd unat (ck_len c)"
  shows "\<exists>r. first_fit sz cs = Some r \<and> (case r of
      None \<Rightarrow> \<forall>c \<in> set cs. ck_len c < sz
    | Some (ps, c, qs) \<Rightarrow> cs = ps @ c # qs \<and> sz \<le> ck_len c \<and> (\<forall>p \<in> set ps. ck_len p < sz))"
  using assms
proof (induction cs)
  case (Cons c cs)
  then obtain r where r: "first_fit sz cs = Some r" "case r of
      None \<Rightarrow> \<forall>c \<in> set cs. ck_len c < sz
    | Some (ps, c, qs) \<Rightarrow> cs = ps @ c # qs \<and> sz \<le> ck_len c \<and> (\<forall>p \<in> set ps. ck_len p < sz)" by auto
  have m: "ck_len c mod 8 = 0" using Cons.prems by (simp add: dvd8_mod)
  show ?case
  proof (cases "sz \<le> ck_len c")
    case True
    then show ?thesis using m by auto
  next
    case False
    then show ?thesis using r m by (cases r) (auto simp: not_le)
  qed
qed simp

lemma split_chunk_ok:
  assumes c: "chunk_ok c" "off_head H c" and sz: "0 < unat sz" "8 dvd unat sz" "unat sz < 2 ^ 63" "sz \<le> ck_len c"
  shows "\<exists>a new. split_chunk sz c = Some (a, new) \<and> chunk_ok a \<and> off_head H a \<and> free_ok H new
    \<and> lo a = lo c \<and> hi a \<le> hi c \<and> sz \<le> ck_len a \<and> bytes a \<union> cover new = bytes c \<and> bytes a \<inter> cover new = {}
    \<and> unat (ck_len a) + total new = unat (ck_len c) \<and> (\<forall>n \<in> set new. lo c < lo n \<and> hi n \<le> hi c)"
proof (cases "ck_len c > sz + sizeof_free_heap_chunk")
  case False
  then show ?thesis using c sz by (auto simp: split_chunk_def free_ok_def)
next
  case True
  let ?a = "c\<lparr>ck_len := ck_len c - (ck_len c - sz)\<rparr>" and ?n = "\<lparr>ck_addr = ck_addr c + sz, ck_len = ck_len c - sz\<rparr>"
  have le: "unat sz \<le> unat (ck_len c)" using sz(4) by (simp add: word_le_nat_alt)
  have ne: "unat sz < unat (ck_len c)"
    using True sz(3) by (simp add: word_less_nat_alt unat_word_ariths sizeof_free_heap_chunk_def)
  have d: "unat (ck_len c - sz) = unat (ck_len c) - unat sz" using sz(4) by (simp add: unat_sub)
  have cl: "hi c + 4096 \<le> 2 ^ 64" "8 dvd unat (ck_len c)" "8 dvd lo c" using c(1) by (auto simp: chunk_ok_def)
  have an: "unat (ck_addr c + sz) = lo c + unat sz" using cl le by (simp add: hi_def unat_word_ariths)
  have d8: "8 dvd unat (ck_len c) - unat sz" using cl sz by (simp add: dvd_diff_nat)
  have len: "ck_len ?a = sz" by simp
  have a: "lo ?a = lo c" "hi ?a = lo c + unat sz" "chunk_ok ?a"
    using cl le sz len by (auto simp: hi_def chunk_ok_def)
  have n: "lo ?n = lo c + unat sz" "hi ?n = hi c" "chunk_ok ?n"
    using cl an d d8 ne sz(2) by (auto simp: hi_def chunk_ok_def)
  have "split_chunk sz c = Some (?a, [?n])"
    using True d8 d by (simp add: split_chunk_def heap_create_free_chunk_def dvd8_mod [symmetric])
  moreover have "off_head H ?a" "off_head H ?n" using c(2) a n ne by (auto simp: off_head_def hi_def)
  moreover have "bytes ?a \<union> bytes ?n = bytes c" "bytes ?a \<inter> bytes ?n = {}"
    using a n ne by (auto simp: bytes_def hi_def)
  ultimately show ?thesis using a n d ne sz le
    by (intro exI [of _ ?a] exI [of _ "[?n]"]) (auto simp: free_ok_def hi_def)
qed

text \<open>Replacing a chunk of the free list by what is left of it.\<close>

lemma replace_chunk:
  assumes f: "free_ok H (ps @ c # qs)" and new: "free_ok H new" "\<forall>n \<in> set new. lo c \<le> lo n \<and> hi n \<le> hi c"
  shows "free_ok H (ps @ new @ qs)"
proof -
  have "hi p < lo n" if "p \<in> set ps" "n \<in> set new" for p n
    using f new that by (fastforce simp: free_ok_def coalesced_append)
  moreover have "hi n < lo q" if "n \<in> set new" "q \<in> set qs" for n q
    using f new that by (fastforce simp: free_ok_def coalesced_append)
  ultimately show ?thesis
    using f new by (auto simp: free_ok_def coalesced_append) (auto simp: coalesced_def sorted_wrt_append)
qed

end
