(* ===== verification/Miniheap_Ops.thy ===== *)
theory Miniheap_Ops
  imports Miniheap_Inv
begin

text \<open>
  The operations of the heap on a state together with the blocks in use: each block is the
  pointer its owner has and the chunk it was cut from.
\<close>

type_synonym heap_sys = "heap \<times> (u64 \<times> free_heap_chunk) list"

definition block_ok :: "heap \<Rightarrow> u64 \<times> free_heap_chunk \<Rightarrow> bool" where
  "block_ok h = (\<lambda>(p, c). chunk_ok c \<and> off_head (hp_head h) c \<and> lo c + 24 \<le> unat p \<and> unat p \<le> hi c
     \<and> hp_headers h (p - sizeof_alloc_struct_begin)
         = \<lparr>as_magic = HEAP_MAGIC, as_ptr = ck_addr c, as_size = ck_len c\<rparr>)"

definition heap_inv :: "heap_sys \<Rightarrow> bool" where
  "heap_inv = (\<lambda>(h, A). free_ok (hp_head h) (hp_free_list h)
     \<and> (\<forall>x \<in> set A. block_ok h x \<and> bytes (snd x) \<inter> cover (hp_free_list h) = {})
     \<and> sorted_wrt (\<lambda>x y. bytes (snd x) \<inter> bytes (snd y) = {}) A
     \<and> hp_remaining h = of_nat (total (hp_free_list h)) \<and> hp_low_watermark h = 0)"

section \<open>Sizes and alignment\<close>

lemma pow2_bracket: "2 ^ m \<le> x \<Longrightarrow> x < 2 ^ Suc n \<Longrightarrow> m \<le> n" for x :: nat
  by (metis le_less_trans less_Suc_eq_le one_less_numeral_iff power_less_imp_less_exp semiring_norm(76))

lemma pow2_u32:
  fixes v :: u32
  assumes "v AND (v - 1) = 0" "v \<noteq> 0"
  shows "\<exists>k < 32. v = valpow2 k"
proof -
  let ?n = "log2_uint v"
  have n: "2 ^ ?n \<le> unat v" "unat v < 2 ^ Suc ?n" "?n < 32"
    using log2_uint_bounds [OF assms(2)] log2_uint_less [OF assms(2)] by auto
  have "unat v = 2 ^ ?n"
  proof (rule ccontr)
    assume "unat v \<noteq> 2 ^ ?n"
    then have ge: "2 ^ ?n \<le> unat v - 1" "0 < unat v - 1"
      using n(1) one_le_power [of "2::nat" ?n] by linarith+
    have u1: "unat (v - 1) = unat v - 1" using assms(2) by (rule unat_minus_one)
    then have nz: "v - 1 \<noteq> 0" using ge by auto
    have "2 ^ log2_uint (v - 1) \<le> unat v - 1" "unat v - 1 < 2 ^ Suc (log2_uint (v - 1))"
      using log2_uint_bounds [OF nz] u1 by auto
    then have "log2_uint (v - 1) = ?n" using pow2_bracket ge(1) n(2) by (meson le_antisym less_imp_diff_less)
    then have "bit v ?n" "bit (v - 1) ?n"
      using highest_bit_set [OF assms(2)] highest_bit_set [OF nz] assms(2) nz
      by (auto simp: log2_uint_def highest_bit_def)
    then have "bit (v AND (v - 1)) ?n" by (simp add: bit_and_iff)
    then show False using assms(1) by simp
  qed
  then have "v = valpow2 ?n" using unat_valpow2 [OF n(3)] by (simp add: word_unat_eq_iff)
  then show ?thesis using n(3) by blast
qed

lemma ucast_valpow2: "k < 32 \<Longrightarrow> ucast (valpow2 k) = shl1 k"
  by (rule bit_word_eqI) (auto simp: valpow2_def shl1_def bit_simps)

text \<open>The alignment the allocator works with.\<close>

definition eff_align :: "u32 \<Rightarrow> u32" where
  "eff_align al = (if al > 0 \<and> al < 16 then 16 else al)"

lemma eff_align_pow2:
  assumes "al AND (al - 1) = 0" "al \<noteq> 0"
  shows "\<exists>k. 4 \<le> k \<and> k < 32 \<and> eff_align al = valpow2 k"
proof (cases "al < 16")
  case True
  moreover have "(16 :: u32) = valpow2 4" by (simp add: valpow2_def)
  ultimately show ?thesis using assms(2) by (intro exI [of _ 4]) (auto simp: eff_align_def word_gt_0)
next
  case False
  obtain k where k: "k < 32" "al = valpow2 k" using pow2_u32 [OF assms] by blast
  then have "2 ^ 4 \<le> (2::nat) ^ k" using False unat_valpow2 [OF k(1)] by (simp add: word_less_nat_alt)
  then have "4 \<le> k" by (rule power_le_imp_le_exp [rotated]) simp
  then show ?thesis using k False by (auto simp: eff_align_def)
qed

lemma unat_alloc_size:
  assumes "unat sz < 2 ^ 62"
  shows "unat (alloc_size sz al) = round_up (unat sz + 24) 8 + unat (eff_align al)"
    and "al AND (al - 1) = 0 \<Longrightarrow> 8 dvd unat (alloc_size sz al)"
proof -
  have al: "unat (eff_align al) < 2 ^ 32" using unsigned_less [of "eff_align al", where ?'a = nat] by simp
  have s: "unat (sz + 24) = unat sz + 24" using assms by (simp add: unat_word_ariths)
  have "unat (ROUNDUP (sz + 24) 8) = round_up (unat sz + 24) 8"
    using unat_ROUNDUP [of 3 "sz + 24"] s assms by (simp add: shl1_def)
  moreover have "round_up (unat sz + 24) 8 \<le> unat sz + 24 + 7" using round_up_le [of "unat sz + 24" 8] by simp
  moreover have "\<not> sz + 24 < 24" using s by (simp add: word_less_nat_alt)
  moreover have "unat (ucast (eff_align al) :: u64) = unat (eff_align al)"
    using al by (simp add: unsigned_ucast_eq take_bit_nat_eq_self)
  ultimately show e: "unat (alloc_size sz al) = round_up (unat sz + 24) 8 + unat (eff_align al)"
    using assms al
    by (auto simp: alloc_size_def eff_align_def Let_def sizeof_alloc_struct_begin_def sizeof_free_heap_chunk_def
        unat_word_ariths word_less_nat_alt split: if_splits)
  assume p: "al AND (al - 1) = 0"
  have "8 dvd unat (eff_align al)"
  proof (cases "al = 0")
    case False
    then obtain k where "4 \<le> k" "k < 32" "eff_align al = valpow2 k" using eff_align_pow2 p by blast
    then show ?thesis using unat_valpow2 [of k] le_imp_power_dvd [of 3 k "2::nat"] by simp
  qed (simp add: eff_align_def)
  then show "8 dvd unat (alloc_size sz al)" unfolding e by (simp add: round_up_dvd)
qed

section \<open>Taking a chunk\<close>

lemma header_inside:
  assumes "chunk_ok c" "lo c + 24 \<le> unat p" "unat p \<le> hi c"
  shows "unat (p - sizeof_alloc_struct_begin) \<in> bytes c"
proof -
  have "unat (p - 24) = unat p - 24" using assms(2) unat_sub [of 24 p] by (simp add: word_le_nat_alt)
  then show ?thesis using assms by (auto simp: bytes_def sizeof_alloc_struct_begin_def)
qed

text \<open>The pointer that is handed out for a chunk.\<close>

lemma block_ptr:
  assumes c: "chunk_ok c" and sz: "24 + unat al \<le> unat (ck_len c)"
    and al: "al = 0 \<or> (\<exists>k. 4 \<le> k \<and> k < 32 \<and> al = valpow2 k)"
  defines "p \<equiv> (let ptr = ck_addr c + sizeof_alloc_struct_begin
               in if al > 0 then ROUNDUP ptr (ucast al) else ptr)"
  shows "lo c + 24 \<le> unat p" "unat p \<le> lo c + 24 + unat al" "unat al dvd unat p \<or> al = 0"
proof -
  have b: "lo c + 24 + unat al + 4096 \<le> 2 ^ 64" using c sz by (simp add: chunk_ok_def hi_def)
  then have u: "unat (ck_addr c + sizeof_alloc_struct_begin) = lo c + 24"
    by (simp add: sizeof_alloc_struct_begin_def unat_word_ariths)
  have "lo c + 24 \<le> unat p \<and> unat p \<le> lo c + 24 + unat al \<and> (unat al dvd unat p \<or> al = 0)"
  proof (cases "al = 0")
    case True
    then show ?thesis using u by (simp add: p_def)
  next
    case False
    then obtain k where k: "k < 32" "al = valpow2 k" using al by blast
    have a: "unat al = 2 ^ k" using unat_valpow2 k by simp
    have "unat p = round_up (lo c + 24) (2 ^ k)"
      using unat_ROUNDUP [of k "ck_addr c + sizeof_alloc_struct_begin"] False k u b a
      by (simp add: p_def ucast_valpow2 word_gt_0)
    then show ?thesis
      using round_up_ge [of "2 ^ k" "lo c + 24"] round_up_le [of "lo c + 24" "2 ^ k"] round_up_dvd [of "2 ^ k" "lo c + 24"] a
      by auto
  qed
  then show "lo c + 24 \<le> unat p" "unat p \<le> lo c + 24 + unat al" "unat al dvd unat p \<or> al = 0" by auto
qed

text \<open>A block that is cut out of the free list, with its header written.\<close>

lemma add_block_inv:
  assumes inv: "heap_inv (h, A)" and a: "chunk_ok a" "off_head (hp_head h) a" "lo a + 24 \<le> unat p" "unat p \<le> hi a"
    and cs: "free_ok (hp_head h) cs" "bytes a \<inter> cover cs = {}" "bytes a \<union> cover cs = cover (hp_free_list h)"
      "unat (ck_len a) + total cs = total (hp_free_list h)"
    and h': "hp_free_list h' = cs" "hp_head h' = hp_head h" "hp_low_watermark h' = hp_low_watermark h"
      "hp_remaining h' = hp_remaining h - ck_len a"
      "hp_headers h' = (hp_headers h)(p - sizeof_alloc_struct_begin :=
          \<lparr>as_magic = HEAP_MAGIC, as_ptr = ck_addr a, as_size = ck_len a\<rparr>)"
  shows "heap_inv (h', (p, a) # A)"
proof -
  have A: "block_ok h x" "bytes (snd x) \<inter> bytes a = {}" "bytes (snd x) \<inter> cover cs = {}" if "x \<in> set A" for x
  proof -
    have "block_ok h x" "bytes (snd x) \<inter> (bytes a \<union> cover cs) = {}"
      using inv that unfolding cs(3) by (simp_all add: heap_inv_def)
    then show "block_ok h x" "bytes (snd x) \<inter> bytes a = {}" "bytes (snd x) \<inter> cover cs = {}" by auto
  qed
  have keep: "block_ok h' x" if x: "x \<in> set A" for x
  proof -
    obtain q c where qc: "x = (q, c)" by fastforce
    have "unat (q - sizeof_alloc_struct_begin) \<in> bytes c"
      using A(1) [OF x] qc by (intro header_inside) (auto simp: block_ok_def)
    moreover have "unat (p - sizeof_alloc_struct_begin) \<in> bytes a" by (rule header_inside [OF a(1,3,4)])
    ultimately have "q - sizeof_alloc_struct_begin \<noteq> p - sizeof_alloc_struct_begin" using A(2) [OF x] qc by auto
    then show ?thesis using A(1) [OF x] qc h' by (simp add: block_ok_def)
  qed
  have r: "hp_remaining h' = of_nat (total cs)"
  proof -
    have "hp_remaining h = of_nat (unat (ck_len a) + total cs)"
      using inv unfolding cs(4) by (simp add: heap_inv_def)
    then show ?thesis using h'(4) by simp
  qed
  have new: "block_ok h' (p, a)" using a h' by (simp add: block_ok_def)
  have "sorted_wrt (\<lambda>x y. bytes (snd x) \<inter> bytes (snd y) = {}) ((p, a) # A)"
    using inv A(2) by (auto simp: heap_inv_def)
  moreover have "\<forall>x \<in> set ((p, a) # A). block_ok h' x \<and> bytes (snd x) \<inter> cover (hp_free_list h') = {}"
    using keep A(3) new cs(2) h'(1) by simp
  moreover have "free_ok (hp_head h') (hp_free_list h')" "hp_low_watermark h' = 0"
    using inv cs(1) h' by (simp_all add: heap_inv_def)
  ultimately show ?thesis using r h'(1) unfolding heap_inv_def by simp
qed

lemma free_list_apart:
  "free_ok H (ps @ c # qs) \<Longrightarrow> bytes c \<inter> cover ps = {} \<and> bytes c \<inter> cover qs = {}"
  by (fastforce simp: free_ok_def coalesced_append bytes_def cover_def)

lemma heap_take_ok:
  assumes inv: "heap_inv (h, A)" and sz: "24 + unat al \<le> unat sz" "8 dvd unat sz" "unat sz < 2 ^ 63"
    and al: "al = 0 \<or> (\<exists>k. 4 \<le> k \<and> k < 32 \<and> al = valpow2 k)"
  shows "\<exists>p h'. heap_take sz al h = Some (p, h') \<and>
    (if p = 0 then h' = h \<and> (\<forall>c \<in> set (hp_free_list h). ck_len c < sz)
     else \<exists>a. heap_inv (h', (p, a) # A) \<and> sz \<le> ck_len a \<and> unat p \<le> lo a + 24 + unat al
       \<and> (unat al dvd unat p \<or> al = 0) \<and> bytes a \<union> cover (hp_free_list h') = cover (hp_free_list h) \<and> hp_head h' = hp_head h)"
proof -
  have f: "free_ok (hp_head h) (hp_free_list h)" "hp_low_watermark h = 0" using inv by (auto simp: heap_inv_def)
  then obtain r where r: "first_fit sz (hp_free_list h) = Some r" "case r of
      None \<Rightarrow> \<forall>c \<in> set (hp_free_list h). ck_len c < sz
    | Some (ps, c, qs) \<Rightarrow> hp_free_list h = ps @ c # qs \<and> sz \<le> ck_len c \<and> (\<forall>p \<in> set ps. ck_len p < sz)"
    using first_fit_ok [of "hp_free_list h" sz] by (auto simp: free_ok_def chunk_ok_def)
  show ?thesis
  proof (cases r)
    case None
    then show ?thesis using r by (auto simp: heap_take_def)
  next
    case (Some t)
    obtain ps c qs where t: "t = (ps, c, qs)" by (cases t)
    have c: "hp_free_list h = ps @ c # qs" "sz \<le> ck_len c" using r(2) Some t by auto
    have ck: "chunk_ok c" "off_head (hp_head h) c" using f c by (auto simp: free_ok_def)
    obtain a new where s: "split_chunk sz c = Some (a, new)" "chunk_ok a" "off_head (hp_head h) a" "free_ok (hp_head h) new"
        "sz \<le> ck_len a" "bytes a \<union> cover new = bytes c" "bytes a \<inter> cover new = {}"
        "unat (ck_len a) + total new = unat (ck_len c)" "\<forall>n \<in> set new. lo c < lo n \<and> hi n \<le> hi c"
      using split_chunk_ok [OF ck, of sz] sz c(2) by auto
    have la: "24 + unat al \<le> unat (ck_len a)" using sz(1) s(5) by (simp add: word_le_nat_alt)
    define p where "p = (let ptr = ck_addr a + sizeof_alloc_struct_begin in if al > 0 then ROUNDUP ptr (ucast al) else ptr)"
    note bp = block_ptr [OF s(2) la al, folded p_def]
    have ph: "unat p \<le> hi a" using bp(2) la by (simp add: hi_def)
    have fo: "free_ok (hp_head h) (ps @ new @ qs)"
      using replace_chunk [of "hp_head h" ps c qs new] f c s(4,9) by (auto simp: less_imp_le)
    have dis: "bytes a \<inter> cover (ps @ new @ qs) = {}" "bytes a \<union> cover (ps @ new @ qs) = cover (hp_free_list h)"
      "unat (ck_len a) + total (ps @ new @ qs) = total (hp_free_list h)"
      using free_list_apart [of "hp_head h" ps c qs] f(1) c(1) s(6,7,8) by auto
    let ?h = "h\<lparr>hp_free_list := ps @ new @ qs,
                hp_headers := (hp_headers h)(p - sizeof_alloc_struct_begin := \<lparr>as_magic = HEAP_MAGIC, as_ptr = ck_addr a, as_size = ck_len a\<rparr>),
                hp_remaining := hp_remaining h - ck_len a\<rparr>"
    have "heap_take sz al h = Some (p, ?h)"
      using r(1) Some t s(1,5) f(2) by (simp add: heap_take_def Let_def p_def)
    moreover have "heap_inv (?h, (p, a) # A)"
      by (rule add_block_inv [OF inv s(2,3) bp(1) ph fo dis]) auto
    moreover have "p \<noteq> 0" using bp(1) by auto
    ultimately show ?thesis using bp(2,3) s(5) dis(2) by (intro exI [of _ p] exI [of _ ?h]) auto
  qed
qed

section \<open>Giving a chunk to the free list\<close>

lemma insert_inv:
  assumes inv: "heap_inv (h, A)" and c: "chunk_ok c" "off_head (hp_head h) c"
    and d: "bytes c \<inter> cover (hp_free_list h) = {}" "\<forall>x \<in> set A. bytes (snd x) \<inter> bytes c = {}"
  shows "\<exists>r cs. heap_insert_free_chunk c h
      = Some (r, h\<lparr>hp_remaining := hp_remaining h + ck_len c, hp_free_list := cs\<rparr>)
    \<and> adds_chunk (hp_head h) (hp_free_list h) c cs
    \<and> heap_inv (h\<lparr>hp_remaining := hp_remaining h + ck_len c, hp_free_list := cs\<rparr>, A)"
proof -
  have f: "free_ok (hp_head h) (hp_free_list h)" "hp_remaining h = of_nat (total (hp_free_list h))"
    using inv by (auto simp: heap_inv_def)
  from heap_insert_ok [OF f(1) c d(1)] obtain r cs where
    r: "heap_insert_free_chunk c h = Some (r, h\<lparr>hp_remaining := hp_remaining h + ck_len c, hp_free_list := cs\<rparr>)"
      "adds_chunk (hp_head h) (hp_free_list h) c cs" by blast
  let ?h = "h\<lparr>hp_remaining := hp_remaining h + ck_len c, hp_free_list := cs\<rparr>"
  have "block_ok ?h x \<and> bytes (snd x) \<inter> cover cs = {}" if x: "x \<in> set A" for x
  proof -
    have "block_ok h x" "bytes (snd x) \<inter> cover (hp_free_list h) = {}" using inv x by (auto simp: heap_inv_def)
    moreover have "cover cs = cover (hp_free_list h) \<union> bytes c" using r(2) by (simp add: adds_chunk_def)
    ultimately show ?thesis using d(2) x by (auto simp: block_ok_def)
  qed
  moreover have "hp_remaining ?h = of_nat (total cs)" using r(2) f(2) by (simp add: adds_chunk_def)
  ultimately have "heap_inv (?h, A)" using inv r(2) by (simp add: heap_inv_def adds_chunk_def)
  then show ?thesis using r by blast
qed

lemma sorted_wrt_pair:
  "sorted_wrt R xs \<Longrightarrow> (\<And>x y. R x y \<Longrightarrow> R y x) \<Longrightarrow> x \<in> set xs \<Longrightarrow> y \<in> set xs \<Longrightarrow> x \<noteq> y \<Longrightarrow> R x y"
  by (induction xs) auto

lemma miniheap_free_ok:
  assumes inv: "heap_inv (h, A)" and x: "(p, c) \<in> set A"
  shows "\<exists>h'. miniheap_free p h = Some h' \<and> heap_inv (h', filter (\<lambda>y. fst y \<noteq> p) A)
    \<and> cover (hp_free_list h') = cover (hp_free_list h) \<union> bytes c \<and> hp_head h' = hp_head h
    \<and> hp_headers h' = hp_headers h \<and> adds_chunk (hp_head h) (hp_free_list h) c (hp_free_list h')"
proof -
  let ?B = "filter (\<lambda>y. fst y \<noteq> p) A"
  have "\<forall>y \<in> set A. block_ok h y \<and> bytes (snd y) \<inter> cover (hp_free_list h) = {}"
    using inv by (simp add: heap_inv_def)
  from bspec [OF this x] have b: "block_ok h (p, c)" "bytes c \<inter> cover (hp_free_list h) = {}" by simp_all
  then have ck: "chunk_ok c" "off_head (hp_head h) c" "lo c + 24 \<le> unat p" "unat p \<le> hi c"
    and hd: "hp_headers h (p - sizeof_alloc_struct_begin) = \<lparr>as_magic = HEAP_MAGIC, as_ptr = ck_addr c, as_size = ck_len c\<rparr>"
    by (auto simp: block_ok_def)
  have inv': "heap_inv (h, ?B)" using inv by (auto simp: heap_inv_def sorted_wrt_filter)
  have "bytes (snd y) \<inter> bytes c = {}" if "y \<in> set ?B" for y
  proof -
    have "y \<noteq> (p, c)" "y \<in> set A" using that by auto
    moreover have s: "sorted_wrt (\<lambda>x y. bytes (snd x) \<inter> bytes (snd y) = {}) A" using inv by (simp add: heap_inv_def)
    ultimately show ?thesis
      using sorted_wrt_pair [where R = "\<lambda>x y. bytes (snd x) \<inter> bytes (snd y) = {}", OF s _ _ x, of y] by (simp add: Int_commute)
  qed
  then obtain r cs where r: "heap_insert_free_chunk c h
      = Some (r, h\<lparr>hp_remaining := hp_remaining h + ck_len c, hp_free_list := cs\<rparr>)"
    "adds_chunk (hp_head h) (hp_free_list h) c cs"
    "heap_inv (h\<lparr>hp_remaining := hp_remaining h + ck_len c, hp_free_list := cs\<rparr>, ?B)"
    using insert_inv [OF inv' ck(1,2) b(2)] by blast
  have "p \<noteq> 0" using ck(3) by auto
  moreover have "heap_create_free_chunk (ck_addr c) (ck_len c) = Some c"
    using ck(1) by (cases c) (simp add: chunk_ok_def dvd8_mod heap_create_free_chunk_def)
  ultimately have "miniheap_free p h = Some (h\<lparr>hp_remaining := hp_remaining h + ck_len c, hp_free_list := cs\<rparr>)"
    using hd r(1) by (simp add: miniheap_free_def Let_def)
  then show ?thesis using r(2,3) by (auto simp: adds_chunk_def)
qed

section \<open>Growing\<close>

text \<open>
  What the page allocator may return for a request: nothing, or fresh memory of the size
  asked for.
\<close>

definition grant_ok :: "heap_sys \<Rightarrow> (u64 \<Rightarrow> u64) \<Rightarrow> u64 \<Rightarrow> bool" where
  "grant_ok = (\<lambda>(h, A) grant sz.
     let len = ROUNDUP sz PAGE_SIZE; g = grant (len div PAGE_SIZE); c = \<lparr>ck_addr = g, ck_len = len\<rparr>
     in g \<noteq> 0 \<longrightarrow> 4096 dvd unat g \<and> hi c + 4096 \<le> 2 ^ 64 \<and> off_head (hp_head h) c \<and> bytes c \<inter> cover (hp_free_list h) = {}
          \<and> (\<forall>x \<in> set A. bytes (snd x) \<inter> bytes c = {}))"

lemma sint_small: "unat w < 2 ^ 63 \<Longrightarrow> 0 \<le> sint w" for w :: u64
proof -
  assume "unat w < 2 ^ 63"
  then have "\<not> bit w 63" using bit_imp_le_length
    by (metis (no_types, lifting) bit_unsigned_iff linorder_not_le possible_bit_nat bit_nat_iff drop_bit_nat_eq div_less drop_bit_eq_div even_zero bit_iff_odd)
  then show ?thesis by (simp add: sint_uint signed_take_bit_eq_if_positive bit_uint_iff)
qed

lemma heap_inv_cong:
  assumes "heap_inv (h, A)" "hp_free_list h' = hp_free_list h" "hp_head h' = hp_head h" "hp_headers h' = hp_headers h"
    "hp_remaining h' = hp_remaining h" "hp_low_watermark h' = hp_low_watermark h"
  shows "heap_inv (h', A)"
  using assms by (simp add: heap_inv_def block_ok_def)

lemma heap_grow_ok:
  assumes inv: "heap_inv (h, A)" and sz: "0 < unat sz" "unat sz < 2 ^ 62 + 2 ^ 33" and g: "grant_ok (h, A) grant sz"
  shows "\<exists>err h'. heap_grow grant sz h = Some (err, h') \<and> heap_inv (h', A) \<and> hp_head h' = hp_head h
    \<and> (if grant (ROUNDUP sz PAGE_SIZE div PAGE_SIZE) = 0 then err < 0 \<and> h' = h
       else 0 \<le> err \<and> (\<exists>c. chunk_ok c \<and> unat sz \<le> unat (ck_len c) \<and> bytes c \<subseteq> cover (hp_free_list h')))"
proof -
  define len where "len = ROUNDUP sz PAGE_SIZE"
  define p where "p = grant (len div PAGE_SIZE)"
  define c where "c = \<lparr>ck_addr = p, ck_len = len\<rparr>"
  have l: "unat len = round_up (unat sz) 4096"
    using unat_ROUNDUP [of 12 sz] sz by (simp add: len_def PAGE_SIZE_def PAGE_SIZE_SHIFT_def)
  have lb: "unat sz \<le> unat len" "unat len < 2 ^ 63" "4096 dvd unat len"
    using l sz round_up_ge [of 4096 "unat sz"] round_up_le [of "unat sz" 4096] round_up_dvd [of 4096 "unat sz"] by simp_all
  show ?thesis
  proof (cases "p = 0")
    case True
    then show ?thesis using inv by (simp add: heap_grow_def len_def [symmetric] p_def [symmetric] ERR_NO_MEMORY_def)
  next
    case False
    have d8: "8 dvd unat len" using lb(3) dvd_trans [of 8 4096 "unat len"] by simp
    have p8: "8 dvd unat p" using g False dvd_trans [of 8 4096 "unat p"]
      by (auto simp: grant_ok_def len_def [symmetric] p_def [symmetric] Let_def)
    have gk: "hi c + 4096 \<le> 2 ^ 64" "off_head (hp_head h) c" "bytes c \<inter> cover (hp_free_list h) = {}"
        "\<forall>x \<in> set A. bytes (snd x) \<inter> bytes c = {}"
      using g False by (auto simp: grant_ok_def len_def [symmetric] p_def [symmetric] c_def [symmetric] Let_def)
    have ck: "chunk_ok c" using gk(1) d8 p8 lb sz by (simp add: chunk_ok_def c_def)
    obtain r cs where r: "heap_insert_free_chunk c h = Some (r, h\<lparr>hp_remaining := hp_remaining h + ck_len c, hp_free_list := cs\<rparr>)"
        "adds_chunk (hp_head h) (hp_free_list h) c cs"
        "heap_inv (h\<lparr>hp_remaining := hp_remaining h + ck_len c, hp_free_list := cs\<rparr>, A)"
      using insert_inv [OF inv ck gk(2,3,4)] by blast
    let ?h = "h\<lparr>hp_remaining := hp_remaining h + ck_len c, hp_free_list := cs\<rparr>"
    obtain h' where w: "heap_grow grant sz h = Some (sint len, h')"
        "hp_free_list h' = cs" "hp_head h' = hp_head h" "hp_headers h' = hp_headers h"
        "hp_remaining h' = hp_remaining ?h" "hp_low_watermark h' = hp_low_watermark h"
      using False r(1) d8
      by (auto simp: heap_grow_def len_def [symmetric] p_def [symmetric] heap_create_free_chunk_def c_def [symmetric]
          dvd8_mod [symmetric] Let_def)
    have "heap_inv (h', A)" by (rule heap_inv_cong [OF r(3)]) (use w in auto)
    moreover have "bytes c \<subseteq> cover cs" using r(2) by (auto simp: adds_chunk_def)
    ultimately show ?thesis using w False ck lb(1) sint_small [OF lb(2)]
      by (auto simp: len_def [symmetric] p_def [symmetric] c_def intro!: exI [of _ c])
  qed
qed

section \<open>Allocation\<close>

text \<open>A run of free bytes lies in one chunk of a merged list.\<close>

lemma cover_one_chunk:
  assumes f: "free_ok H cs" and c: "chunk_ok c" "bytes c \<subseteq> cover cs"
  shows "\<exists>d \<in> set cs. unat (ck_len c) \<le> unat (ck_len d)"
proof -
  have "lo c \<in> bytes c" using chunk_ok_lo_hi [OF c(1)] by (simp add: bytes_def)
  then obtain d where d: "d \<in> set cs" "lo d \<le> lo c" "lo c < hi d" using c(2) by (auto simp: cover_def bytes_def)
  have "hi c \<le> hi d"
  proof (rule ccontr)
    assume "\<not> hi c \<le> hi d"
    then have "hi d \<in> bytes c" using d by (simp add: bytes_def)
    then obtain e where e: "e \<in> set cs" "lo e \<le> hi d" "hi d < hi e" using c(2) by (auto simp: cover_def bytes_def)
    have "d \<noteq> e" using e by auto
    have s: "sorted_wrt (\<lambda>c d. hi c < lo d \<or> hi d < lo c) cs"
      by (rule sorted_wrt_mono_rel [where P = "\<lambda>c d. hi c < lo d"]) (use f in \<open>auto simp: free_ok_def coalesced_def\<close>)
    have "hi d < lo e \<or> hi e < lo d"
      using sorted_wrt_pair [where R = "\<lambda>c d. hi c < lo d \<or> hi d < lo c", OF s _ d(1) e(1) \<open>d \<noteq> e\<close>] by blast
    then show False using d e by auto
  qed
  then show ?thesis using d by (intro bexI [of _ d]) (auto simp: hi_def)
qed

text \<open>What a successful allocation gives its caller.\<close>

definition allocated :: "heap_sys \<Rightarrow> u64 \<Rightarrow> u32 \<Rightarrow> u64 \<Rightarrow> free_heap_chunk \<Rightarrow> heap_sys \<Rightarrow> bool" where
  "allocated = (\<lambda>(h, A) sz al p a (h', A'). A' = (p, a) # A \<and> heap_inv (h', A')
     \<and> unat p + unat sz \<le> hi a \<and> (al = 0 \<or> unat al dvd unat p) \<and> hp_head h' = hp_head h)"

lemma eff_align_dvd:
  assumes "al AND (al - 1) = 0" "al \<noteq> 0"
  shows "unat al dvd unat (eff_align al)"
proof (cases "al < 16")
  case True
  obtain k where k: "k < 32" "al = valpow2 k" using pow2_u32 [OF assms] by blast
  have "(2::nat) ^ k < 2 ^ 4" using True unat_valpow2 [OF k(1)] k by (simp add: word_less_nat_alt)
  then have "k < 4" by (rule power_less_imp_less_exp [rotated]) simp
  then have "k \<le> 4" by simp
  then have "(2::nat) ^ k dvd 2 ^ 4" by (rule le_imp_power_dvd)
  then show ?thesis using True assms(2) unat_valpow2 [OF k(1)] k(2) by (simp add: eff_align_def word_gt_0)
qed (simp add: eff_align_def)

lemma taken_allocated:
  assumes "heap_inv (h', (p, a) # A)" "alloc_size sz al \<le> ck_len a" "unat p \<le> lo a + 24 + unat (eff_align al)"
    "unat (eff_align al) dvd unat p \<or> eff_align al = 0" "hp_head h' = hp_head h" "unat sz < 2 ^ 62" "al AND (al - 1) = 0"
  shows "allocated (h, A) sz al p a (h', (p, a) # A)"
proof -
  have "unat sz + 24 \<le> round_up (unat sz + 24) 8" by (rule round_up_ge) simp
  then have "unat p + unat sz \<le> hi a"
    using assms(2,3) unat_alloc_size(1) [OF assms(6), of al] by (simp add: hi_def word_le_nat_alt)
  moreover have "al = 0 \<or> unat al dvd unat p"
  proof (cases "al = 0")
    case False
    then have "eff_align al \<noteq> 0" by (simp add: eff_align_def)
    then show ?thesis using assms(4) dvd_trans [OF eff_align_dvd [OF assms(7) False]] by blast
  qed simp
  ultimately show ?thesis using assms by (simp add: allocated_def)
qed

lemma alloc_args:
  assumes sz: "unat sz < 2 ^ 62" and al: "al AND (al - 1) = 0"
  shows "24 + unat (eff_align al) \<le> unat (alloc_size sz al)" "8 dvd unat (alloc_size sz al)"
    "unat (alloc_size sz al) < 2 ^ 62 + 2 ^ 33" "unat (alloc_size sz al) < 2 ^ 63" "0 < unat (alloc_size sz al)"
    "eff_align al = 0 \<or> (\<exists>k. 4 \<le> k \<and> k < 32 \<and> eff_align al = valpow2 k)"
proof -
  have "unat sz + 24 \<le> round_up (unat sz + 24) 8" "round_up (unat sz + 24) 8 \<le> unat sz + 24 + 7"
    using round_up_ge [of 8 "unat sz + 24"] round_up_le [of "unat sz + 24" 8] by auto
  moreover have "unat (eff_align al) < 2 ^ 32" using unsigned_less [of "eff_align al", where ?'a = nat] by simp
  ultimately show "24 + unat (eff_align al) \<le> unat (alloc_size sz al)" "unat (alloc_size sz al) < 2 ^ 62 + 2 ^ 33"
    "unat (alloc_size sz al) < 2 ^ 63" "0 < unat (alloc_size sz al)"
    using unat_alloc_size(1) [OF sz, of al] sz by auto
  show "8 dvd unat (alloc_size sz al)" by (rule unat_alloc_size(2) [OF sz al])
  show "eff_align al = 0 \<or> (\<exists>k. 4 \<le> k \<and> k < 32 \<and> eff_align al = valpow2 k)"
    using eff_align_pow2 [OF al] by (cases "al = 0") (auto simp: eff_align_def)
qed

lemma miniheap_alloc_ok:
  assumes inv: "heap_inv (h, A)" and sz: "unat sz < 2 ^ 62" and g: "grant_ok (h, A) grant (alloc_size sz al)"
  shows "\<exists>p h'. miniheap_alloc grant sz al h = Some (p, h') \<and>
    (if p = 0 then h' = h \<and> (al AND (al - 1) \<noteq> 0 \<or>
        (\<forall>c \<in> set (hp_free_list h). ck_len c < alloc_size sz al) \<and> grant (ROUNDUP (alloc_size sz al) PAGE_SIZE div PAGE_SIZE) = 0)
     else al AND (al - 1) = 0 \<and> (\<exists>a. allocated (h, A) sz al p a (h', (p, a) # A))
        \<and> \<not> ((\<forall>c \<in> set (hp_free_list h). ck_len c < alloc_size sz al) \<and> grant (ROUNDUP (alloc_size sz al) PAGE_SIZE div PAGE_SIZE) = 0))"
proof (cases "al AND (al - 1) = 0")
  case False
  then show ?thesis by (simp add: miniheap_alloc_def)
next
  case al: True
  let ?sz = "alloc_size sz al" and ?al = "eff_align al"
  note sz' = alloc_args(1-5) [OF sz al] and ea = alloc_args(6) [OF sz al]
  obtain p h1 where t1: "heap_take ?sz ?al h = Some (p, h1)"
      "if p = 0 then h1 = h \<and> (\<forall>c \<in> set (hp_free_list h). ck_len c < ?sz)
       else \<exists>a. heap_inv (h1, (p, a) # A) \<and> ?sz \<le> ck_len a \<and> unat p \<le> lo a + 24 + unat ?al
         \<and> (unat ?al dvd unat p \<or> ?al = 0) \<and> bytes a \<union> cover (hp_free_list h1) = cover (hp_free_list h) \<and> hp_head h1 = hp_head h"
    using heap_take_ok [OF inv sz'(1,2,4) ea] by blast
  show ?thesis
  proof (cases "p = 0")
    case False
    then have "miniheap_alloc grant sz al h = Some (p, h1)"
      using t1(1) al by (simp add: miniheap_alloc_def Let_def eff_align_def [symmetric])
    moreover obtain a where "heap_inv (h1, (p, a) # A)" "?sz \<le> ck_len a" "unat p \<le> lo a + 24 + unat ?al"
        "unat ?al dvd unat p \<or> ?al = 0" "hp_head h1 = hp_head h" "bytes a \<subseteq> cover (hp_free_list h)"
      using t1(2) False by auto
    then have "allocated (h, A) sz al p a (h1, (p, a) # A)" by (intro taken_allocated [OF _ _ _ _ _ sz al])
    moreover have "chunk_ok a" "free_ok (hp_head h) (hp_free_list h)"
      using \<open>heap_inv (h1, (p, a) # A)\<close> inv by (auto simp: heap_inv_def block_ok_def)
    then obtain d where "d \<in> set (hp_free_list h)" "unat (ck_len a) \<le> unat (ck_len d)"
      using cover_one_chunk \<open>bytes a \<subseteq> cover (hp_free_list h)\<close> by blast
    then have "\<not> (\<forall>c \<in> set (hp_free_list h). ck_len c < ?sz)"
      using \<open>?sz \<le> ck_len a\<close> by (auto simp: word_less_nat_alt word_le_nat_alt intro!: bexI [of _ d])
    ultimately show ?thesis using False al by auto
  next
    case True
    have h1: "h1 = h" "\<forall>c \<in> set (hp_free_list h). ck_len c < ?sz" using t1(2) True by auto
    obtain err h2 where w: "heap_grow grant ?sz h = Some (err, h2)" "heap_inv (h2, A)" "hp_head h2 = hp_head h"
        "if grant (ROUNDUP ?sz PAGE_SIZE div PAGE_SIZE) = 0 then err < 0 \<and> h2 = h
         else 0 \<le> err \<and> (\<exists>c. chunk_ok c \<and> unat ?sz \<le> unat (ck_len c) \<and> bytes c \<subseteq> cover (hp_free_list h2))"
      using heap_grow_ok [OF inv sz'(5,3) g] by blast
    have run: "miniheap_alloc grant sz al h = (if err \<ge> 0 then heap_take ?sz ?al h2 else Some (0, h2))"
      using t1(1) h1 True al w(1) by (simp add: miniheap_alloc_def Let_def eff_align_def [symmetric])
    show ?thesis
    proof (cases "grant (ROUNDUP ?sz PAGE_SIZE div PAGE_SIZE) = 0")
      case True
      then show ?thesis using w(4) run h1 by auto
    next
      case False
      then obtain c where c: "0 \<le> err" "chunk_ok c" "unat ?sz \<le> unat (ck_len c)" "bytes c \<subseteq> cover (hp_free_list h2)"
        using w(4) by auto
      obtain q h3 where t2: "heap_take ?sz ?al h2 = Some (q, h3)"
          "if q = 0 then h3 = h2 \<and> (\<forall>c \<in> set (hp_free_list h2). ck_len c < ?sz)
           else \<exists>a. heap_inv (h3, (q, a) # A) \<and> ?sz \<le> ck_len a \<and> unat q \<le> lo a + 24 + unat ?al
             \<and> (unat ?al dvd unat q \<or> ?al = 0) \<and> bytes a \<union> cover (hp_free_list h3) = cover (hp_free_list h2) \<and> hp_head h3 = hp_head h2"
        using heap_take_ok [OF w(2) sz'(1,2,4) ea] by blast
      have "free_ok (hp_head h2) (hp_free_list h2)" using w(2) by (simp add: heap_inv_def)
      then obtain d where "d \<in> set (hp_free_list h2)" "unat (ck_len c) \<le> unat (ck_len d)"
        using cover_one_chunk c(2,4) by blast
      then have "q \<noteq> 0" using t2(2) c(3) by (auto simp: word_less_nat_alt split: if_splits)
      then obtain a where "heap_inv (h3, (q, a) # A)" "?sz \<le> ck_len a" "unat q \<le> lo a + 24 + unat ?al"
          "unat ?al dvd unat q \<or> ?al = 0" "hp_head h3 = hp_head h" using t2(2) w(3) by auto
      then have "allocated (h, A) sz al q a (h3, (q, a) # A)" by (rule taken_allocated [OF _ _ _ _ _ sz al])
      then show ?thesis using t2(1) run c(1) \<open>q \<noteq> 0\<close> al False by auto
    qed
  qed
qed

section \<open>Trimming\<close>

text \<open>Which pages of a chunk may go.\<close>

definition trim_ok :: "nat \<Rightarrow> nat \<Rightarrow> trim_result \<Rightarrow> bool" where
  "trim_ok l u r = (case r of
      NoTrim \<Rightarrow> True
    | TrimAll sp ep \<Rightarrow> unat sp = l \<and> unat ep = u \<and> l < u \<and> 4096 dvd l \<and> 4096 dvd u
    | TrimPart sp ep \<Rightarrow> l \<le> unat sp \<and> unat sp < unat ep \<and> unat ep \<le> u \<and> 4096 dvd unat sp \<and> 4096 dvd unat ep
        \<and> (unat sp = l \<or> l + 24 \<le> unat sp) \<and> (unat ep = u \<or> unat ep + 24 \<le> u)
        \<and> \<not> (unat sp = l \<and> unat ep = u))"

lemma dvd_step: "4096 dvd x \<Longrightarrow> 4096 dvd y \<Longrightarrow> x < y \<Longrightarrow> x + 4096 \<le> y" for x y :: nat
  by (auto elim!: dvdE)

lemma trim_range_ok:
  assumes "unat start \<le> unat sp" "unat ep \<le> unat en" "4096 dvd unat sp" "4096 dvd unat ep"
  shows "\<exists>r. trim_range start en sp ep = Some r \<and> trim_ok (unat start) (unat en) r"
  using assms
proof (induction "unat ep - unat sp" arbitrary: sp ep rule: less_induct)
  case less
  show ?case
  proof (cases "unat sp < unat ep")
    case False
    then show ?thesis by (simp add: trim_range.simps [of start en sp ep] word_less_nat_alt trim_ok_def)
  next
    case True
    have step: "unat sp + 4096 \<le> unat ep" using dvd_step less.prems True by blast
    have lt: "sp < ep" using True by (simp add: word_less_nat_alt)
    have ds: "unat (sp - start) = unat sp - unat start" using less.prems(1) by (simp add: unat_sub word_le_nat_alt)
    have de: "unat (en - ep) = unat en - unat ep" using less.prems(2) by (simp add: unat_sub word_le_nat_alt)
    consider (all) "sp = start \<and> ep = en" | (front) "sp \<noteq> start" "sp - start < 24" | (rear) "ep < en" "en - ep < 24"
        "\<not> (sp \<noteq> start \<and> sp - start < 24)"
      | (part) "\<not> (sp = start \<and> ep = en)" "\<not> (sp \<noteq> start \<and> sp - start < 24)" "\<not> (ep < en \<and> en - ep < 24)" by blast
    then show ?thesis
    proof cases
      case all
      then have "trim_range start en sp ep = Some (TrimAll sp ep)"
        using lt by (subst trim_range.simps) simp
      then show ?thesis using all less.prems True by (simp add: trim_ok_def)
    next
      case front
      have u: "unat (sp + PAGE_SIZE) = unat sp + 4096"
        using step unat_less64 [of ep] by (simp add: unat_word_ariths PAGE_SIZE_def PAGE_SIZE_SHIFT_def shl1_def)
      have "\<exists>r. trim_range start en (sp + PAGE_SIZE) ep = Some r \<and> trim_ok (unat start) (unat en) r"
        by (rule less.hyps) (use less.prems u step in auto)
      then show ?thesis using front lt by (simp add: trim_range.simps [of start en sp ep] sizeof_free_heap_chunk_def)
    next
      case rear
      have u: "unat (ep - PAGE_SIZE) = unat ep - 4096"
        using step unat_sub [of PAGE_SIZE ep] by (simp add: word_le_nat_alt PAGE_SIZE_def PAGE_SIZE_SHIFT_def shl1_def)
      have "\<exists>r. trim_range start en sp (ep - PAGE_SIZE) = Some r \<and> trim_ok (unat start) (unat en) r"
        by (rule less.hyps) (use less.prems u step in auto)
      then show ?thesis using rear lt by (auto simp: trim_range.simps [of start en sp ep] sizeof_free_heap_chunk_def)
    next
      case part
      then have "trim_range start en sp ep = Some (TrimPart sp ep)"
        using lt by (subst trim_range.simps) (auto simp: sizeof_free_heap_chunk_def)
      moreover have "unat sp = unat start \<or> unat start + 24 \<le> unat sp"
        using part(2) ds less.prems(1) by (auto simp: word_less_nat_alt)
      moreover have "unat ep = unat en \<or> unat ep + 24 \<le> unat en"
        using part(3) de less.prems(2) by (auto simp: word_less_nat_alt)
      moreover have "\<not> (unat sp = unat start \<and> unat ep = unat en)" using part(1) by (simp add: word_unat_eq_iff)
      ultimately show ?thesis using less.prems True by (simp add: trim_ok_def)
    qed
  qed
qed

text \<open>The bytes of a range that is handed to the page allocator.\<close>

definition page_bytes :: "u64 \<times> u64 \<Rightarrow> nat set" where
  "page_bytes = (\<lambda>(a, n). {unat a..<unat a + unat n})"

definition given :: "(u64 \<times> u64) list \<Rightarrow> nat set" where
  "given fs = (\<Union>f \<in> set fs. page_bytes f)"

lemma given_simps [simp]: "given [] = {}" "given (f # fs) = page_bytes f \<union> given fs" "given (fs @ gs) = given fs \<union> given gs"
  by (auto simp: given_def)

text \<open>Splitting a chunk into what stays and the pages that go.\<close>

definition trims :: "u64 \<Rightarrow> free_heap_chunk list \<Rightarrow> free_heap_chunk list \<Rightarrow> (u64 \<times> u64) list \<Rightarrow> bool" where
  "trims H cs ds fs \<longleftrightarrow> free_ok H ds \<and> cover ds \<union> given fs = cover cs \<and> cover ds \<inter> given fs = {}
     \<and> total ds + sum_list (map (\<lambda>f. unat (snd f)) fs) = total cs
     \<and> (\<forall>(a, n) \<in> set fs. 4096 dvd unat a \<and> 4096 dvd unat n \<and> 0 < unat n)
     \<and> (\<forall>d \<in> set ds. \<exists>c \<in> set cs. lo c \<le> lo d \<and> hi d \<le> hi c)"

text \<open>Cutting a chunk at two addresses.\<close>

lemma cut_front:
  assumes c: "chunk_ok c" "off_head H c" and x: "lo c < unat x" "unat x \<le> hi c" "8 dvd unat x"
    and l: "unat (ck_len d) = unat x - lo c" "ck_addr d = ck_addr c"
  shows "chunk_ok d" "off_head H d" "hi d = unat x" "lo d = lo c"
proof -
  show h: "hi d = unat x" "lo d = lo c" using l x by (simp_all add: hi_def)
  have "8 dvd unat x - lo c" using c x by (simp add: chunk_ok_def dvd_diff_nat)
  then show "chunk_ok d" using c l x h by (simp add: chunk_ok_def)
  show "off_head H d" using c(2) x h by (auto simp: off_head_def)
qed

lemma cut_rear:
  assumes c: "chunk_ok c" "off_head H c" and x: "lo c \<le> unat x" "unat x < hi c" "8 dvd unat x"
    and l: "unat (ck_len d) = hi c - unat x" "ck_addr d = x"
  shows "chunk_ok d" "off_head H d" "hi d = hi c" "lo d = unat x"
proof -
  show h: "hi d = hi c" "lo d = unat x" using l x by (simp_all add: hi_def)
  have "8 dvd hi c - unat x" using c x by (simp add: chunk_ok_def hi_def dvd_diff_nat)
  then show "chunk_ok d" using c l x h by (simp add: chunk_ok_def)
  show "off_head H d" using c(2) x h by (auto simp: off_head_def)
qed

lemma trims_one:
  assumes p: "page_bytes (a, n) = {unat a..<unat a + unat n}" "4096 dvd unat a" "4096 dvd unat n" "0 < unat n"
    and ds: "free_ok H ds" "cover ds \<union> {unat a..<unat a + unat n} = bytes c" "cover ds \<inter> {unat a..<unat a + unat n} = {}"
      "total ds + unat n = unat (ck_len c)" "\<forall>d \<in> set ds. lo c \<le> lo d \<and> hi d \<le> hi c"
  shows "trims H [c] ds [(a, n)]"
  using assms by (simp add: trims_def)

lemma trim_part_ok:
  assumes c: "chunk_ok c" "off_head H c" and r: "trim_ok (lo c) (hi c) (TrimPart sp ep)" and en: "unat en = hi c"
  shows "\<exists>ds. (do {
          (c, new, en) \<leftarrow> (if ep < en then do {
                              new \<leftarrow> heap_create_free_chunk ep (en - ep);
                              Some (c\<lparr>ck_len := ck_len c - (en - ep)\<rparr>, [new], ep)
                            } else Some (c, [], en));
          if sp = ck_addr c \<and> ep = en then Some (new, [(sp, ep - sp)])
          else Some (c\<lparr>ck_len := ck_len c - (ep - sp)\<rparr> # new, [(sp, ep - sp)])
        }) = Some (ds, [(sp, ep - sp)]) \<and> trims H [c] ds [(sp, ep - sp)]"
proof -
  have t: "lo c \<le> unat sp" "unat sp < unat ep" "unat ep \<le> hi c" "4096 dvd unat sp" "4096 dvd unat ep"
    "\<not> (unat sp = lo c \<and> unat ep = hi c)" using r by (auto simp: trim_ok_def)
  have d8: "8 dvd unat sp" "8 dvd unat ep" using t(4,5) dvd_trans [of 8 4096] by auto
  have len: "unat (ck_len c) = hi c - lo c" by (simp add: hi_def)
  have pl: "unat (ep - sp) = unat ep - unat sp" using t(2) by (simp add: unat_sub word_le_nat_alt)
  have pd: "4096 dvd unat ep - unat sp" using t by (simp add: dvd_diff_nat)
  have pb: "page_bytes (sp, ep - sp) = {unat sp..<unat ep}" using pl t by (simp add: page_bytes_def)
  have el: "unat (en - ep) = hi c - unat ep" using t(3) en by (simp add: unat_sub word_le_nat_alt)
  let ?n = "\<lparr>ck_addr = ep, ck_len = en - ep\<rparr>" and ?c1 = "c\<lparr>ck_len := ck_len c - (en - ep)\<rparr>"
  have c1: "unat (ck_len ?c1) = unat ep - lo c"
    using el len t en by (simp add: unat_sub word_le_nat_alt)
  let ?c2 = "?c1\<lparr>ck_len := ck_len ?c1 - (ep - sp)\<rparr>" and ?c3 = "c\<lparr>ck_len := ck_len c - (ep - sp)\<rparr>"
  have c2: "unat (ck_len ?c2) = unat sp - lo c"
  proof -
    have "ep - sp \<le> ck_len ?c1" using c1 pl t by (simp add: word_le_nat_alt)
    from unat_sub [OF this] show ?thesis using c1 pl t by simp
  qed
  have c3: "unat (ck_len ?c3) = unat sp - lo c" if "unat ep = hi c" using len pl t that by (simp add: unat_sub word_le_nat_alt)
  have end_lt: "ep < en \<longleftrightarrow> unat ep < hi c" using en by (simp add: word_less_nat_alt)
  have sp_eq: "sp = ck_addr c \<longleftrightarrow> unat sp = lo c" by (simp add: word_unat_eq_iff)
  have ep_eq: "ep = en \<longleftrightarrow> unat ep = hi c" using en by (simp add: word_unat_eq_iff)
  have mk: "heap_create_free_chunk ep (en - ep) = Some ?n" if "unat ep < hi c"
  proof -
    have "8 dvd unat (en - ep)" using cut_rear(1) [OF c _ that d8(2), of ?n] t el by (simp add: chunk_ok_def)
    then show ?thesis by (simp add: heap_create_free_chunk_def dvd8_mod)
  qed
  consider (rear) "unat ep < hi c" "unat sp = lo c" | (both) "unat ep < hi c" "lo c < unat sp" | (front) "unat ep = hi c" "lo c < unat sp"
    using t by linarith
  then show ?thesis
  proof cases
    case rear
    note n = cut_rear [OF c _ rear(1) d8(2), of ?n]
    have "trims H [c] [?n] [(sp, ep - sp)]"
    proof (rule trims_one)
      show "free_ok H [?n]" using n el t by (simp add: free_ok_def)
      show "cover [?n] \<union> {unat sp..<unat sp + unat (ep - sp)} = bytes c" "cover [?n] \<inter> {unat sp..<unat sp + unat (ep - sp)} = {}"
        using n el rear t unfolding pl by (auto simp: bytes_def)
      show "total [?n] + unat (ep - sp) = unat (ck_len c)" "\<forall>d \<in> set [?n]. lo c \<le> lo d \<and> hi d \<le> hi c"
        using n el rear t pl len by simp_all
    qed (use pl pd pb t in auto)
    then show ?thesis using rear mk end_lt sp_eq by (intro exI [of _ "[?n]"]) simp
  next
    case both
    note n = cut_rear [OF c _ both(1) d8(2), of ?n] and f = cut_front [OF c both(2) _ d8(1), of ?c2]
    have n': "chunk_ok ?n" "off_head H ?n" "hi ?n = hi c" "lo ?n = unat ep" using n el t by simp_all
    have f': "chunk_ok ?c2" "off_head H ?c2" "hi ?c2 = unat sp" "lo ?c2 = lo c" using f c2 t by simp_all
    have "trims H [c] [?c2, ?n] [(sp, ep - sp)]"
    proof (rule trims_one)
      show "free_ok H [?c2, ?n]" using n' f' t unfolding free_ok_def by simp
      show "cover [?c2, ?n] \<union> {unat sp..<unat sp + unat (ep - sp)} = bytes c" "cover [?c2, ?n] \<inter> {unat sp..<unat sp + unat (ep - sp)} = {}"
        using n'(3,4) f'(3,4) both t(1-3) unfolding pl cover_simps bytes_def by auto
      show "total [?c2, ?n] + unat (ep - sp) = unat (ck_len c)"
        using c2 el pl len t(1-3) unfolding total_simps by simp
      show "\<forall>d \<in> set [?c2, ?n]. lo c \<le> lo d \<and> hi d \<le> hi c" using n'(3,4) f'(3,4) t(1-3) by simp
    qed (use pl pd pb t in auto)
    then show ?thesis using both mk end_lt sp_eq by (intro exI [of _ "[?c2, ?n]"]) simp
  next
    case front
    note f = cut_front [OF c front(2) _ d8(1), of ?c3]
    have f': "chunk_ok ?c3" "off_head H ?c3" "hi ?c3 = unat sp" "lo ?c3 = lo c" using f c3 t front by simp_all
    have "trims H [c] [?c3] [(sp, ep - sp)]"
    proof (rule trims_one)
      show "free_ok H [?c3]" using f' unfolding free_ok_def by simp
      show "cover [?c3] \<union> {unat sp..<unat sp + unat (ep - sp)} = bytes c" "cover [?c3] \<inter> {unat sp..<unat sp + unat (ep - sp)} = {}"
        using f'(3,4) front t(1-3) unfolding pl cover_simps bytes_def by auto
      show "total [?c3] + unat (ep - sp) = unat (ck_len c)"
        using c3 [OF front(1)] pl len t(1-3) front unfolding total_simps by simp
      show "\<forall>d \<in> set [?c3]. lo c \<le> lo d \<and> hi d \<le> hi c" using f'(3,4) t(1-3) by simp
    qed (use pl pd pb t in auto)
    then show ?thesis using front end_lt sp_eq by (intro exI [of _ "[?c3]"]) simp
  qed
qed

lemma trim_chunk_ok:
  assumes c: "chunk_ok c" "off_head H c"
  shows "\<exists>ds fs. trim_chunk c = Some (ds, fs) \<and> trims H [c] ds fs"
proof -
  define en where "en = ck_addr c + ck_len c"
  have en: "unat en = hi c" using chunk_end [OF c(1)] by (simp add: en_def)
  have b: "lo c + 4096 \<le> 2 ^ 64" "lo c < hi c" using c(1) chunk_ok_lo_hi by (auto simp: chunk_ok_def hi_def)
  define sp ep where "sp = ROUNDUP (ck_addr c) PAGE_SIZE" and "ep = ROUNDDOWN en PAGE_SIZE"
  have sp: "unat sp = round_up (lo c) 4096"
    using unat_ROUNDUP [of 12 "ck_addr c"] b by (simp add: sp_def PAGE_SIZE_def PAGE_SIZE_SHIFT_def)
  have ep: "unat ep = hi c div 4096 * 4096"
    using unat_ROUNDDOWN [of en 12] en by (simp add: ep_def PAGE_SIZE_def PAGE_SIZE_SHIFT_def)
  have le: "lo c \<le> unat sp" "unat ep \<le> hi c" "4096 dvd unat sp" "4096 dvd unat ep"
    using sp ep round_up_ge [of 4096 "lo c"] round_up_dvd [of 4096 "lo c"] by auto
  obtain r where r: "trim_range (ck_addr c) en sp ep = Some r" "trim_ok (lo c) (hi c) r"
    using trim_range_ok [of "ck_addr c" sp ep en] le en by auto
  have as: "ck_addr c < en" "ep \<le> en" "ck_addr c \<le> sp" using b le en by (auto simp: word_less_nat_alt word_le_nat_alt)
  show ?thesis
  proof (cases r)
    case NoTrim
    then have "trim_chunk c = Some ([c], [])"
      using r(1) as by (simp add: trim_chunk_def en_def [symmetric] sp_def [symmetric] ep_def [symmetric] Let_def)
    moreover have "trims H [c] [c] []" using c by (simp add: trims_def free_ok_def)
    ultimately show ?thesis by blast
  next
    case (TrimAll s e)
    then have t: "unat s = lo c" "unat e = hi c" "4096 dvd lo c" "4096 dvd hi c" using r(2) by (auto simp: trim_ok_def)
    then have u: "unat (e - s) = hi c - lo c" using b by (simp add: unat_sub word_le_nat_alt)
    have "trim_chunk c = Some ([], [(s, e - s)])"
      using r(1) as TrimAll by (simp add: trim_chunk_def en_def [symmetric] sp_def [symmetric] ep_def [symmetric] Let_def)
    moreover have "trims H [c] [] [(s, e - s)]"
    proof -
      have "4096 dvd hi c - lo c" using t by (intro dvd_diff_nat)
      moreover have "unat (ck_len c) = hi c - lo c" by (simp add: hi_def)
      ultimately show ?thesis using t u b by (auto simp: trims_def free_ok_def page_bytes_def bytes_def)
    qed
    ultimately show ?thesis by blast
  next
    case (TrimPart s e)
    then show ?thesis
      using trim_part_ok [OF c, of s e en] r as en
      by (auto simp: trim_chunk_def en_def [symmetric] sp_def [symmetric] ep_def [symmetric] Let_def)
  qed
qed

lemma trims_append:
  assumes c: "trims H [c] ds fs" and cs: "trims H cs es gs" and f: "free_ok H (c # cs)"
  shows "trims H (c # cs) (ds @ es) (fs @ gs)"
proof -
  have dc: "lo c \<le> lo d" "hi d \<le> hi c" if "d \<in> set ds" for d using c that by (auto simp: trims_def)
  have ec: "hi c < lo e" if e: "e \<in> set es" for e
  proof -
    obtain b where "b \<in> set cs" "lo b \<le> lo e" using cs e by (auto simp: trims_def)
    then show ?thesis using f by (auto simp: free_ok_def)
  qed
  have lt: "hi d < lo e" if "d \<in> set ds" "e \<in> set es" for d e using dc(2) ec that by fastforce
  then have fo: "free_ok H (ds @ es)"
    using c cs by (auto simp: trims_def free_ok_def coalesced_def sorted_wrt_append)
  have disj: "bytes c \<inter> cover cs = {}" using free_list_apart [of H "[]" c cs] f by simp
  have cc: "cover ds \<union> given fs = bytes c" "cover es \<union> given gs = cover cs" using c cs by (auto simp: trims_def)
  have "cover (ds @ es) \<inter> given (fs @ gs) = {}"
    using c cs disj cc by (auto simp: trims_def)
  moreover have "\<exists>b \<in> set (c # cs). lo b \<le> lo d \<and> hi d \<le> hi b" if "d \<in> set (ds @ es)" for d
    using that dc cs by (auto simp: trims_def)
  ultimately show ?thesis using fo c cs cc by (auto simp: trims_def)
qed

lemma trim_walk_ok:
  assumes "free_ok H cs"
  shows "\<exists>ds fs. trim_walk cs = Some (ds, fs) \<and> trims H cs ds fs"
  using assms
proof (induction cs)
  case Nil
  then show ?case by (simp add: trims_def)
next
  case (Cons c cs)
  have c: "chunk_ok c" "off_head H c" "free_ok H cs" using Cons.prems by (auto simp: free_ok_def)
  obtain ds fs where d: "trim_chunk c = Some (ds, fs)" "trims H [c] ds fs" using trim_chunk_ok [OF c(1,2)] by blast
  obtain es gs where e: "trim_walk cs = Some (es, gs)" "trims H cs es gs" using Cons.IH c(3) by blast
  show ?case using d(1) e(1) trims_append [OF d(2) e(2) Cons.prems] by auto
qed

lemma miniheap_trim_ok:
  assumes inv: "heap_inv (h, A)"
  shows "\<exists>fs h'. miniheap_trim h = Some (fs, h') \<and> heap_inv (h', A)
    \<and> trims (hp_head h) (hp_free_list h) (hp_free_list h') fs \<and> hp_head h' = hp_head h"
proof -
  have f: "free_ok (hp_head h) (hp_free_list h)" "hp_remaining h = of_nat (total (hp_free_list h))"
    using inv by (auto simp: heap_inv_def)
  obtain ds fs where t: "trim_walk (hp_free_list h) = Some (ds, fs)" "trims (hp_head h) (hp_free_list h) ds fs"
    using trim_walk_ok [OF f(1)] by blast
  let ?h = "h\<lparr>hp_free_list := ds, hp_remaining := hp_remaining h - sum_list (map snd fs)\<rparr>"
  have "sum_list (map snd fs) = of_nat (sum_list (map (\<lambda>f. unat (snd f)) fs))"
    by (induction fs) auto
  then have r: "hp_remaining ?h = of_nat (total ds)"
    using t(2) f(2) by (simp add: trims_def flip: of_nat_add)
       (metis (no_types, lifting) add_diff_cancel_right' of_nat_add)
  have "block_ok ?h x \<and> bytes (snd x) \<inter> cover ds = {}" if x: "x \<in> set A" for x
  proof -
    have "block_ok h x" "bytes (snd x) \<inter> cover (hp_free_list h) = {}" using inv x by (auto simp: heap_inv_def)
    moreover have "cover ds \<subseteq> cover (hp_free_list h)" using t(2) by (auto simp: trims_def)
    ultimately show ?thesis by (auto simp: block_ok_def)
  qed
  then have "heap_inv (?h, A)" using inv r t(2) by (simp add: heap_inv_def trims_def)
  then show ?thesis using t by (auto simp: miniheap_trim_def)
qed

end
