(* ===== verification/Miniheap_Props.thy ===== *)
theory Miniheap_Props
  imports Miniheap_Ops
begin

text \<open>
  The heap as a system of calls together with the blocks its clients hold, and its properties.
\<close>

section \<open>The system\<close>

datatype heap_call = HAlloc u64 u32 "u64 \<Rightarrow> u64" | HFree u64 | HTrim

text \<open>The heap is set up with no memory, or with a range that has whole words.\<close>

definition heap_start :: "heap_sys \<Rightarrow> bool" where
  "heap_start = (\<lambda>(h, A). A = [] \<and> (\<exists>ptr len h0. miniheap_init ptr len h0 = Some h \<and>
     (len = 0 \<or> chunk_ok \<lparr>ck_addr = ptr, ck_len = len\<rparr> \<and> off_head (hp_head h0) \<lparr>ck_addr = ptr, ck_len = len\<rparr>)))"

text \<open>A block is freed by its owner; requests are below 2^62 bytes; the page allocator hands out fresh memory.\<close>

fun heap_allowed :: "heap_call \<Rightarrow> heap_sys \<Rightarrow> bool" where
  "heap_allowed (HAlloc sz al grant) s \<longleftrightarrow> unat sz < 2 ^ 62 \<and> grant_ok s grant (alloc_size sz al)"
| "heap_allowed (HFree p) (h, A) \<longleftrightarrow> p = 0 \<or> p \<in> fst ` set A"
| "heap_allowed HTrim s \<longleftrightarrow> True"

definition chunk_of :: "heap \<Rightarrow> u64 \<Rightarrow> free_heap_chunk" where
  "chunk_of h p = (let as = hp_headers h (p - sizeof_alloc_struct_begin)
                   in \<lparr>ck_addr = as_ptr as, ck_len = as_size as\<rparr>)"

fun heap_exec :: "heap_call \<Rightarrow> heap_sys \<Rightarrow> heap_sys option" where
  "heap_exec (HAlloc sz al grant) (h, A) = do {
     (p, h) \<leftarrow> miniheap_alloc grant sz al h;
     Some (h, if p = 0 then A else (p, chunk_of h p) # A)
   }"
| "heap_exec (HFree p) (h, A) = do {
     h \<leftarrow> miniheap_free p h;
     Some (h, filter (\<lambda>x. fst x \<noteq> p) A)
   }"
| "heap_exec HTrim (h, A) = do { (_, h) \<leftarrow> miniheap_trim h; Some (h, A) }"

lemma chunk_of_block: "block_ok h (p, a) \<Longrightarrow> chunk_of h p = a"
  by (cases a) (simp add: chunk_of_def block_ok_def Let_def)

lemma block_nonnull: "heap_inv (h, A) \<Longrightarrow> (p, a) \<in> set A \<Longrightarrow> p \<noteq> 0"
  by (fastforce simp: heap_inv_def block_ok_def)

lemma heap_call_good:
  assumes inv: "heap_inv (h, A)" and al: "heap_allowed c (h, A)"
  shows "\<exists>t. heap_exec c (h, A) = Some t \<and> heap_inv t"
proof (cases c)
  case (HAlloc sz al grant)
  then obtain p h' where r: "miniheap_alloc grant sz al h = Some (p, h')"
      "if p = 0 then h' = h \<and> (al AND (al - 1) \<noteq> 0 \<or>
        (\<forall>c \<in> set (hp_free_list h). ck_len c < alloc_size sz al) \<and> grant (ROUNDUP (alloc_size sz al) PAGE_SIZE div PAGE_SIZE) = 0)
     else al AND (al - 1) = 0 \<and> (\<exists>a. allocated (h, A) sz al p a (h', (p, a) # A))
        \<and> \<not> ((\<forall>c \<in> set (hp_free_list h). ck_len c < alloc_size sz al) \<and> grant (ROUNDUP (alloc_size sz al) PAGE_SIZE div PAGE_SIZE) = 0)"
    using miniheap_alloc_ok [OF inv, of sz grant al] al by auto
  show ?thesis
  proof (cases "p = 0")
    case True
    then show ?thesis using r inv HAlloc by auto
  next
    case False
    then obtain a where a: "heap_inv (h', (p, a) # A)" using r(2) by (auto simp: allocated_def)
    then have "chunk_of h' p = a" by (intro chunk_of_block) (simp add: heap_inv_def)
    then show ?thesis using r(1) False HAlloc a by auto
  qed
next
  case (HFree p)
  show ?thesis
  proof (cases "p = 0")
    case True
    have "filter (\<lambda>x. fst x \<noteq> 0) A = A" using block_nonnull [OF inv] by (auto simp: filter_id_conv)
    then show ?thesis using HFree True inv by (simp add: miniheap_free_def)
  next
    case False
    then obtain a where "(p, a) \<in> set A" using al HFree by auto
    then show ?thesis using miniheap_free_ok [OF inv] HFree by fastforce
  qed
next
  case HTrim
  then show ?thesis using miniheap_trim_ok [OF inv] by fastforce
qed

lemma heap_start_good: "heap_start s \<Longrightarrow> heap_inv s"
proof -
  assume s: "heap_start s"
  obtain h A where hA: "s = (h, A)" by fastforce
  obtain ptr len h0 where i: "miniheap_init ptr len h0 = Some h" "A = []"
      "len = 0 \<or> chunk_ok \<lparr>ck_addr = ptr, ck_len = len\<rparr> \<and> off_head (hp_head h0) \<lparr>ck_addr = ptr, ck_len = len\<rparr>"
    using s hA by (auto simp: heap_start_def)
  let ?h = "h0\<lparr>hp_free_list := [], hp_base := ptr, hp_len := len, hp_remaining := 0, hp_low_watermark := 0\<rparr>"
  have e: "heap_inv (?h, [])" by (simp add: heap_inv_def free_ok_def)
  show ?thesis
  proof (cases "len = 0")
    case True
    then show ?thesis using i e hA by (simp add: miniheap_init_def Let_def)
  next
    case False
    let ?c = "\<lparr>ck_addr = ptr, ck_len = len\<rparr>"
    have c: "chunk_ok ?c" "off_head (hp_head ?h) ?c" using i(3) False by auto
    then have "heap_create_free_chunk ptr len = Some ?c"
      by (simp add: heap_create_free_chunk_def chunk_ok_def dvd8_mod)
    then show ?thesis using insert_inv [OF e c] i(1,2) False hA by (auto simp: miniheap_init_def word_gt_0)
  qed
qed

interpretation hps: guarded_system heap_start heap_allowed heap_exec heap_inv
proof
  show "heap_inv s" if "heap_start s" for s using heap_start_good [OF that] .
  show "\<exists>s'. heap_exec c s = Some s' \<and> heap_inv s'" if "heap_inv s" "heap_allowed c s" for s c
    using heap_call_good that by (cases s) blast
qed

abbreviation heap_reach :: "heap_sys \<Rightarrow> bool" where
  "heap_reach \<equiv> reach heap_start heap_allowed heap_exec"

section \<open>The free list is determined by the free bytes\<close>

lemma cover_above: "free_ok H (c # cs) \<Longrightarrow> x \<in> cover cs \<Longrightarrow> hi c < x"
  by (fastforce simp: free_ok_def cover_def bytes_def)

lemma chunk_eqI: "lo c = lo d \<Longrightarrow> hi c = hi d \<Longrightarrow> c = d"
  by (cases c; cases d) (simp add: hi_def word_unat_eq_iff)

lemma free_list_unique:
  assumes "free_ok H cs" "free_ok H ds" "cover cs = cover ds"
  shows "cs = ds"
  using assms
proof (induction cs arbitrary: ds)
  case Nil
  then show ?case using chunk_ok_lo_hi by (cases ds) (auto simp: free_ok_def bytes_def)
next
  case (Cons c cs)
  have c: "lo c < hi c" using Cons.prems(1) by (auto simp: free_ok_def intro: chunk_ok_lo_hi)
  have "lo c \<in> cover ds" using c unfolding Cons.prems(3) [symmetric] by (simp add: bytes_def)
  then obtain d es where ds: "ds = d # es" by (cases ds) auto
  have d: "lo d < hi d" using Cons.prems(2) ds by (auto simp: free_ok_def intro: chunk_ok_lo_hi)
  have eq: "bytes c \<union> cover cs = bytes d \<union> cover es" using Cons.prems(3) ds by simp
  have up: "\<And>x. x \<in> cover cs \<Longrightarrow> hi c < x" "\<And>x. x \<in> cover es \<Longrightarrow> hi d < x"
    using cover_above Cons.prems(1,2) ds by blast+
  have mem: "x \<in> bytes c \<or> x \<in> cover cs \<longleftrightarrow> x \<in> bytes d \<or> x \<in> cover es" for x using eq by blast
  have lo: "lo c = lo d"
    using mem [of "lo c"] mem [of "lo d"] up(1) [of "lo d"] up(2) [of "lo c"] c d by (auto simp: bytes_def)
  have hi: "hi c = hi d"
    using mem [of "hi c"] mem [of "hi d"] up(1) [of "hi c"] up(2) [of "hi d"] up(1) [of "hi d"] up(2) [of "hi c"] c d lo
    by (auto simp: bytes_def)
  have cd: "c = d" using chunk_eqI lo hi by blast
  have "cover cs = cover es"
    using eq cd up by (auto simp: bytes_def set_eq_iff) (metis less_asym' not_less_iff_gr_or_eq)+
  moreover have "free_ok H cs" "free_ok H es" using Cons.prems ds by (auto simp: free_ok_def)
  ultimately show ?case using Cons.IH ds cd by blast
qed

text \<open>A heap of one page.\<close>

definition heap_raw :: heap where
  "heap_raw = \<lparr>hp_base = 0, hp_len = 0, hp_remaining = 0, hp_low_watermark = 0, hp_free_list = [], hp_head = 0x100,
     hp_headers = (\<lambda>_. \<lparr>as_magic = 0, as_ptr = 0, as_size = 0\<rparr>)\<rparr>"

definition heap_page :: heap where
  "heap_page = heap_raw\<lparr>hp_base := 0x10000, hp_len := 0x1000, hp_remaining := 0x1000,
     hp_free_list := [\<lparr>ck_addr = 0x10000, ck_len = 0x1000\<rparr>]\<rparr>"

lemma heap_page_reach: "heap_reach (heap_page, [])"
proof (rule reach_start)
  have "miniheap_init 0x10000 0x1000 heap_raw = Some heap_page"
    by (simp add: miniheap_init_def heap_create_free_chunk_def heap_insert_free_chunk_def merge_prev_def merge_next_def
        heap_page_def heap_raw_def)
  moreover have "chunk_ok \<lparr>ck_addr = 0x10000, ck_len = 0x1000\<rparr>" "off_head (hp_head heap_raw) \<lparr>ck_addr = 0x10000, ck_len = 0x1000\<rparr>"
    by (auto simp: chunk_ok_def hi_def off_head_def heap_raw_def)
  ultimately show "heap_start (heap_page, [])" by (auto simp: heap_start_def)
qed

lemma no_grant: "grant_ok s (\<lambda>_. 0) sz"
  by (cases s) (simp add: grant_ok_def)

section \<open>Properties\<close>

text \<open>
  C28 The heap never hands out memory twice. After any sequence of allocations (with the pages
  the heap grows by), frees by the owners and trims: the free list is sorted by address and
  fully merged (there is a gap between neighbours), no two blocks in use overlap, none overlaps
  a free chunk, \<^verbatim>\<open>theheap.remaining\<close> is the number of free bytes, no assertion is reached
  by the next allowed call, and the low watermark is still 0, its initial value.
\<close>

theorem miniheap_blocks_disjoint:
  assumes "heap_reach (h, A)"
  shows "sorted_wrt (\<lambda>c d. hi c < lo d) (hp_free_list h)
    \<and> sorted_wrt (\<lambda>x y. bytes (snd x) \<inter> bytes (snd y) = {}) A
    \<and> (\<forall>x \<in> set A. bytes (snd x) \<inter> cover (hp_free_list h) = {} \<and> lo (snd x) + 24 \<le> unat (fst x) \<and> unat (fst x) \<le> hi (snd x))
    \<and> hp_remaining h = of_nat (\<Sum>c \<leftarrow> hp_free_list h. unat (ck_len c))
    \<and> hp_low_watermark h = 0
    \<and> (\<forall>c. heap_allowed c (h, A) \<longrightarrow> heap_exec c (h, A) \<noteq> None)"
proof -
  have inv: "heap_inv (h, A)" by (rule hps.reach_good [OF assms])
  have "\<forall>x \<in> set A. bytes (snd x) \<inter> cover (hp_free_list h) = {} \<and> lo (snd x) + 24 \<le> unat (fst x) \<and> unat (fst x) \<le> hi (snd x)"
    using inv by (auto simp: heap_inv_def block_ok_def split_beta)
  then show ?thesis
    using inv heap_call_good [OF inv] by (fastforce simp: heap_inv_def free_ok_def coalesced_def total_def)
qed

theorem miniheap_blocks_disjoint_witness:
  "hp_remaining heap_page = 4096 \<and> heap_exec (HAlloc 100 64 (\<lambda>_. 0)) (heap_page, []) \<noteq> None"
proof -
  have "heap_allowed (HAlloc 100 64 (\<lambda>_. 0)) (heap_page, [])" using no_grant by simp
  then have "heap_exec (HAlloc 100 64 (\<lambda>_. 0)) (heap_page, []) \<noteq> None"
    "hp_remaining heap_page = of_nat (\<Sum>c \<leftarrow> hp_free_list heap_page. unat (ck_len c))"
    using miniheap_blocks_disjoint [OF heap_page_reach] by blast+
  then show ?thesis by (simp add: heap_page_def)
qed

text \<open>
  C29 An allocation returns memory that is large enough and aligned, and fails only for a
  reason. For a request below 2^62 bytes, \<^verbatim>\<open>miniheap_alloc\<close> returns null, with the heap
  unchanged, exactly when the alignment is not a power of two (or 0), or no free chunk is as large as the
  padded size and the page allocator has nothing; otherwise the pointer is a multiple of the
  alignment, and it and the bytes asked for lie in a chunk that overlaps no other block.
\<close>

theorem miniheap_alloc_spec:
  assumes "heap_reach (h, A)" "unat sz < 2 ^ 62" "grant_ok (h, A) grant (alloc_size sz al)"
  shows "\<exists>p h'. miniheap_alloc grant sz al h = Some (p, h') \<and>
    (if al AND (al - 1) \<noteq> 0 \<or> (\<forall>c \<in> set (hp_free_list h). ck_len c < alloc_size sz al)
          \<and> grant (ROUNDUP (alloc_size sz al) PAGE_SIZE div PAGE_SIZE) = 0
     then p = 0 \<and> h' = h
     else p \<noteq> 0 \<and> (al = 0 \<or> unat al dvd unat p)
       \<and> (\<exists>c. {unat p..<unat p + unat sz} \<subseteq> bytes c \<and> (\<forall>x \<in> set A. bytes (snd x) \<inter> bytes c = {})
            \<and> bytes c \<inter> cover (hp_free_list h') = {}))"
proof -
  have inv: "heap_inv (h, A)" by (rule hps.reach_good [OF assms(1)])
  obtain p h' where r: "miniheap_alloc grant sz al h = Some (p, h')"
      "if p = 0 then h' = h \<and> (al AND (al - 1) \<noteq> 0 \<or>
        (\<forall>c \<in> set (hp_free_list h). ck_len c < alloc_size sz al) \<and> grant (ROUNDUP (alloc_size sz al) PAGE_SIZE div PAGE_SIZE) = 0)
     else al AND (al - 1) = 0 \<and> (\<exists>a. allocated (h, A) sz al p a (h', (p, a) # A))
        \<and> \<not> ((\<forall>c \<in> set (hp_free_list h). ck_len c < alloc_size sz al) \<and> grant (ROUNDUP (alloc_size sz al) PAGE_SIZE div PAGE_SIZE) = 0)"
    using miniheap_alloc_ok [OF inv assms(2,3)] by blast
  have "\<exists>c. {unat p..<unat p + unat sz} \<subseteq> bytes c \<and> (\<forall>x \<in> set A. bytes (snd x) \<inter> bytes c = {})
      \<and> bytes c \<inter> cover (hp_free_list h') = {}" if "allocated (h, A) sz al p a (h', (p, a) # A)" for a
  proof (intro exI conjI)
    have i: "heap_inv (h', (p, a) # A)" "unat p + unat sz \<le> hi a" using that by (auto simp: allocated_def)
    then show "{unat p..<unat p + unat sz} \<subseteq> bytes a" by (auto simp: heap_inv_def block_ok_def bytes_def)
    show "\<forall>x \<in> set A. bytes (snd x) \<inter> bytes a = {}" "bytes a \<inter> cover (hp_free_list h') = {}"
      using i(1) by (auto simp: heap_inv_def)
  qed
  then show ?thesis using r by (intro exI [of _ p] exI [of _ h']) (auto simp: allocated_def split: if_splits)
qed

theorem miniheap_alloc_spec_witness:
  "\<exists>p h'. miniheap_alloc (\<lambda>_. 0) 100 64 heap_page = Some (p, h') \<and> p \<noteq> 0 \<and> 64 dvd unat p"
  using miniheap_alloc_spec [OF heap_page_reach, of 100 "\<lambda>_. 0" 64] no_grant
  by (auto simp: heap_page_def alloc_size_def sizeof_alloc_struct_begin_def sizeof_free_heap_chunk_def ROUNDUP_def split: if_splits)

text \<open>
  C30 Freeing undoes an allocation. When a block is allocated without growing the heap and freed
  again, the free list and the count of free bytes are exactly what they were: the chunk that
  was split is merged back.
\<close>

theorem miniheap_alloc_free_roundtrip:
  assumes "heap_reach (h, A)" "unat sz < 2 ^ 62" "miniheap_alloc (\<lambda>_. 0) sz al h = Some (p, h')" "p \<noteq> 0"
  shows "\<exists>h''. miniheap_free p h' = Some h'' \<and> hp_free_list h'' = hp_free_list h \<and> hp_remaining h'' = hp_remaining h"
proof -
  have inv: "heap_inv (h, A)" by (rule hps.reach_good [OF assms(1)])
  have al: "al AND (al - 1) = 0" using assms(3,4) by (auto simp: miniheap_alloc_def split: if_splits)
  let ?sz = "alloc_size sz al" and ?al = "eff_align al"
  note args = alloc_args [OF assms(2) al]
  from heap_take_ok [OF inv args(1,2,4,6)] obtain q h1 where t: "heap_take ?sz ?al h = Some (q, h1)"
    "q \<noteq> 0 \<Longrightarrow> \<exists>a. heap_inv (h1, (q, a) # A) \<and> bytes a \<union> cover (hp_free_list h1) = cover (hp_free_list h) \<and> hp_head h1 = hp_head h"
    "q = 0 \<Longrightarrow> h1 = h" by (auto split: if_splits)
  have "q = p \<and> h1 = h'"
    using assms(3,4) t(1,3) al
    by (auto simp: miniheap_alloc_def Let_def eff_align_def [symmetric] heap_grow_def ERR_NO_MEMORY_def split: if_splits)
  then obtain a where a: "heap_inv (h', (p, a) # A)" "bytes a \<union> cover (hp_free_list h') = cover (hp_free_list h)" "hp_head h' = hp_head h"
    using t(2) assms(4) by blast
  from miniheap_free_ok [OF a(1), of p a] obtain h'' where f: "miniheap_free p h' = Some h''"
      "heap_inv (h'', filter (\<lambda>y. fst y \<noteq> p) ((p, a) # A))"
      "cover (hp_free_list h'') = cover (hp_free_list h') \<union> bytes a" "hp_head h'' = hp_head h'" by auto
  have "hp_free_list h'' = hp_free_list h"
    by (rule free_list_unique [of "hp_head h"]) (use f a inv in \<open>auto simp: heap_inv_def\<close>)
  moreover have "hp_remaining h'' = hp_remaining h"
    using f(2) inv calculation by (simp add: heap_inv_def)
  ultimately show ?thesis using f(1) by blast
qed

theorem miniheap_alloc_free_roundtrip_witness:
  "\<exists>p h' h''. miniheap_alloc (\<lambda>_. 0) 100 0 heap_page = Some (p, h') \<and> hp_free_list h' \<noteq> hp_free_list heap_page
     \<and> miniheap_free p h' = Some h'' \<and> hp_free_list h'' = hp_free_list heap_page"
proof -
  have "\<exists>p h'. miniheap_alloc (\<lambda>_. 0) 100 0 heap_page = Some (p, h') \<and> p \<noteq> 0 \<and> hp_free_list h' \<noteq> hp_free_list heap_page"
    by (simp add: miniheap_alloc_def alloc_size_def sizeof_alloc_struct_begin_def sizeof_free_heap_chunk_def ROUNDUP_def
        heap_take_def heap_page_def heap_raw_def split_chunk_def heap_create_free_chunk_def Let_def)
  then obtain p h' where r: "miniheap_alloc (\<lambda>_. 0) 100 0 heap_page = Some (p, h')" "p \<noteq> 0" "hp_free_list h' \<noteq> hp_free_list heap_page"
    by blast
  show ?thesis using miniheap_alloc_free_roundtrip [OF heap_page_reach _ r(1,2)] r by fastforce
qed

text \<open>
  C31 A request near the top of the address range wraps around. For every size of at least
  2^64 - 24 bytes the padded size wraps to 24, and \<^verbatim>\<open>miniheap_alloc\<close> returns a pointer
  whenever there is a free chunk of 24 bytes, with less memory behind it than was asked for.
\<close>

theorem miniheap_alloc_wraps:
  assumes "heap_reach (h, A)" "2 ^ 64 \<le> unat sz + 24" "c \<in> set (hp_free_list h)" "24 \<le> unat (ck_len c)"
  shows "\<exists>p h' a. miniheap_alloc grant sz 0 h = Some (p, h') \<and> p \<noteq> 0 \<and> chunk_of h' p = a
     \<and> lo a \<le> unat p \<and> unat p \<le> hi a \<and> hi a - unat p < unat sz"
proof -
  have inv: "heap_inv (h, A)" by (rule hps.reach_good [OF assms(1)])
  have "unat (sz + 24) = unat sz + 24 - 2 ^ 64"
    using assms(2) unat_less64 [of sz] by (simp add: unat_word_ariths mod_if)
  then have "sz + 24 < 24" using unat_less64 [of sz] assms(2) by (simp add: word_less_nat_alt)
  then have sz: "alloc_size sz 0 = 24"
    by (simp add: alloc_size_def sizeof_alloc_struct_begin_def sizeof_free_heap_chunk_def ROUNDUP_def)
  have "24 + unat (0 :: u32) \<le> unat (24 :: u64)" "8 dvd unat (24 :: u64)" "unat (24 :: u64) < 2 ^ 63" by auto
  from heap_take_ok [OF inv this, of] obtain p h' where t: "heap_take 24 0 h = Some (p, h')"
    "if p = 0 then h' = h \<and> (\<forall>c \<in> set (hp_free_list h). ck_len c < 24)
     else \<exists>a. heap_inv (h', (p, a) # A) \<and> 24 \<le> ck_len a \<and> unat p \<le> lo a + 24 + unat (0::u32)" by (auto split: if_splits; blast)
  have p: "p \<noteq> 0" using t(2) assms(3,4) by (fastforce simp: word_less_nat_alt)
  then obtain a where a: "heap_inv (h', (p, a) # A)" using t(2) by auto
  then have b: "chunk_of h' p = a" "lo a + 24 \<le> unat p" "unat p \<le> hi a" "hi a < 2 ^ 64"
    using chunk_of_block by (auto simp: heap_inv_def block_ok_def chunk_ok_def)
  have "miniheap_alloc grant sz 0 h = Some (p, h')"
    using t(1) p sz by (simp add: miniheap_alloc_def Let_def)
  moreover have "hi a - unat p < unat sz" using b assms(2) by simp
  ultimately show ?thesis using p b by auto
qed

theorem miniheap_alloc_wraps_witness:
  "\<exists>p h'. miniheap_alloc (\<lambda>_. 0) 0xFFFFFFFFFFFFFFF0 0 heap_page = Some (p, h') \<and> p \<noteq> 0"
proof -
  have "\<lparr>ck_addr = 0x10000, ck_len = 0x1000\<rparr> \<in> set (hp_free_list heap_page)" by (simp add: heap_page_def)
  from miniheap_alloc_wraps [OF heap_page_reach _ this, of "0xFFFFFFFFFFFFFFF0" "\<lambda>_. 0"] show ?thesis by auto
qed

end
