(* ===== verification/Lib_Bio.thy ===== *)
theory Lib_Bio
  imports Lib_Align Lib_Pow2
begin

text \<open>
  The block device layer \<^verbatim>\<open>lib/bio\<close>: range checks, the default byte access over a
  driver's block access, the access in blocks of 512 bytes that the boot code uses
  (\<^verbatim>\<open>new_read\<close>, \<^verbatim>\<open>new_write\<close>, \<^verbatim>\<open>new_erase\<close>), memory devices, subdevices and
  the registry. The state of the medium is a type parameter \<open>'d\<close>; the function pointers of a
  device are fields that are functions on it. A pointer is always called with the device that
  holds it, so the functions stored in a device are already applied to it, with a reference count as it
  is once the device is registered: the functions only ask that it is positive. A buffer is the list of its
  bytes; a copy beyond the end of a buffer is \<open>None\<close>, like a failed assertion.
\<close>

section \<open>Data\<close>

type_synonym bnum_t = u32
type_synonym bytes = "u8 list"

text \<open>
  The cache line is that of the 64-byte cores; \<^verbatim>\<open>arch/arm64\<close> has 32 bytes for others. It
  only decides which of the two paths of an access is taken, and the lemmas cover both.
\<close>

definition ERR_IO :: status_t where [lk_defs]: "ERR_IO = -20"
definition ERR_NOT_SUPPORTED :: status_t where [lk_defs]: "ERR_NOT_SUPPORTED = -24"
definition CACHE_LINE :: u64 where [lk_defs]: "CACHE_LINE = 64"
definition USER_BLOCK_SIZE :: u32 where [lk_defs]: "USER_BLOCK_SIZE = 512"
definition BIO_FLAGS_NONE :: u32 where [lk_defs]: "BIO_FLAGS_NONE = 0"
definition BIO_FLAG_CACHE_ALIGNED_READS :: u32 where [lk_defs]: "BIO_FLAG_CACHE_ALIGNED_READS = 1"
definition BIO_FLAG_CACHE_ALIGNED_WRITES :: u32 where [lk_defs]: "BIO_FLAG_CACHE_ALIGNED_WRITES = 2"

record bio_erase_geometry_info =
  geo_start :: u64
  geo_size :: u64
  geo_erase_size :: u64
  geo_erase_shift :: nat

text \<open>
  The read hooks give the result and the bytes they store from the start of the buffer on;
  \<open>bd_read\<close> and \<open>bd_write\<close> also get the address of the buffer, which only its alignment depends
  on. \<open>off_t\<close> is a 64-bit word that the comparisons read as a signed number.
\<close>

record 'd bdev =
  bd_ref :: int
  bd_name :: string
  bd_total_size :: u64
  bd_block_size :: u64
  bd_block_shift :: nat
  bd_block_count :: bnum_t
  bd_max_blkcnt_per_cmd :: bnum_t
  bd_geometry :: "bio_erase_geometry_info list"
  bd_erase_byte :: u8
  bd_erase_size :: u32
  bd_flags :: u32
  bd_read :: "u64 \<Rightarrow> u64 \<Rightarrow> u64 \<Rightarrow> bytes \<Rightarrow> 'd \<Rightarrow> (int \<times> bytes) option"
  bd_read_block :: "bnum_t \<Rightarrow> u32 \<Rightarrow> 'd \<Rightarrow> (int \<times> bytes) option"
  bd_write :: "u64 \<Rightarrow> bytes \<Rightarrow> u64 \<Rightarrow> u64 \<Rightarrow> 'd \<Rightarrow> (int \<times> 'd) option"
  bd_write_block :: "bytes \<Rightarrow> bnum_t \<Rightarrow> u32 \<Rightarrow> 'd \<Rightarrow> (int \<times> 'd) option"
  bd_erase :: "u64 \<Rightarrow> u64 \<Rightarrow> 'd \<Rightarrow> (int \<times> 'd) option"
  bd_read_native :: "bnum_t \<Rightarrow> u32 \<Rightarrow> 'd \<Rightarrow> status_t \<times> bytes"
  bd_write_native :: "bytes \<Rightarrow> bnum_t \<Rightarrow> u32 \<Rightarrow> 'd \<Rightarrow> status_t \<times> 'd"
  bd_erase_native :: "bnum_t \<Rightarrow> u32 \<Rightarrow> 'd \<Rightarrow> status_t \<times> 'd"

text \<open>\<^verbatim>\<open>memcpy\<close> of \<open>bs\<close> to position \<open>pos\<close> of a buffer.\<close>

definition put :: "nat \<Rightarrow> bytes \<Rightarrow> bytes \<Rightarrow> bytes option" where
  "put pos bs buf =
     (if pos + length bs \<le> length buf then Some (take pos buf @ bs @ drop (pos + length bs) buf) else None)"

text \<open>\<open>n\<close> bytes of a buffer from position \<open>pos\<close> on.\<close>

definition get :: "nat \<Rightarrow> nat \<Rightarrow> bytes \<Rightarrow> bytes option" where
  "get pos n buf = (if pos + n \<le> length buf then Some (take n (drop pos buf)) else None)"

section \<open>Range checks and access\<close>

definition bio_trim_range :: "'d bdev \<Rightarrow> u64 \<Rightarrow> u64 \<Rightarrow> u64" where
  "bio_trim_range dev offset len =
     (if sint offset < 0 then 0
      else if sint offset \<ge> sint (bd_total_size dev) then 0
      else if len = 0 then 0
      else if sint (offset + len) > sint (bd_total_size dev) then bd_total_size dev - offset
      else len)"

definition bio_trim_block_range :: "'d bdev \<Rightarrow> bnum_t \<Rightarrow> u32 \<Rightarrow> u32" where
  "bio_trim_block_range dev block cnt =
     (if block > bd_block_count dev then 0
      else if cnt = 0 then 0
      else if block + cnt > bd_block_count dev then bd_block_count dev - block
      else cnt)"

definition bio_read_block :: "'d bdev \<Rightarrow> bnum_t \<Rightarrow> u32 \<Rightarrow> 'd \<Rightarrow> (int \<times> bytes) option" where
  "bio_read_block dev block cnt d = do {
     ASSERT (bd_ref dev > 0);
     let cnt = bio_trim_block_range dev block cnt;
     if cnt = 0 then Some (0, []) else bd_read_block dev block cnt d
   }"

definition bio_write_block :: "'d bdev \<Rightarrow> bytes \<Rightarrow> bnum_t \<Rightarrow> u32 \<Rightarrow> 'd \<Rightarrow> (int \<times> 'd) option" where
  "bio_write_block dev bs block cnt d = do {
     ASSERT (bd_ref dev > 0);
     let cnt = bio_trim_block_range dev block cnt;
     if cnt = 0 then Some (0, d) else bd_write_block dev bs block cnt d
   }"

definition bio_read :: "'d bdev \<Rightarrow> u64 \<Rightarrow> u64 \<Rightarrow> u64 \<Rightarrow> bytes \<Rightarrow> 'd \<Rightarrow> (int \<times> bytes) option" where
  "bio_read dev addr offset len buf d = do {
     ASSERT (bd_ref dev > 0);
     let len = bio_trim_range dev offset len;
     if len = 0 then Some (0, buf) else bd_read dev addr offset len buf d
   }"

definition bio_write :: "'d bdev \<Rightarrow> u64 \<Rightarrow> bytes \<Rightarrow> u64 \<Rightarrow> u64 \<Rightarrow> 'd \<Rightarrow> (int \<times> 'd) option" where
  "bio_write dev addr buf offset len d = do {
     ASSERT (bd_ref dev > 0);
     let len = bio_trim_range dev offset len;
     if len = 0 then Some (0, d) else bd_write dev addr buf offset len d
   }"

definition bio_erase :: "'d bdev \<Rightarrow> u64 \<Rightarrow> u64 \<Rightarrow> 'd \<Rightarrow> (int \<times> 'd) option" where
  "bio_erase dev offset len d = do {
     ASSERT (bd_ref dev > 0);
     let len = bio_trim_range dev offset len;
     if len = 0 then Some (0, d) else bd_erase dev offset len d
   }"

section \<open>Default access in bytes\<close>

text \<open>
  The steps of \<^verbatim>\<open>bio_default_read\<close> and \<^verbatim>\<open>bio_default_write\<close> have an error
  code and a state as result; a negative code ends the function, where the code jumps to
  \<^verbatim>\<open>err\<close>.
\<close>

definition and_then :: "(int \<times> 's) option \<Rightarrow> ('s \<Rightarrow> (int \<times> 's) option) \<Rightarrow> (int \<times> 's) option" where
  "and_then m f = do { (err, st) \<leftarrow> m; if err < 0 then Some (err, st) else f st }"

text \<open>A transfer of \<open>cnt\<close> blocks that must be complete.\<close>

definition full_size :: "'d bdev \<Rightarrow> u32 \<Rightarrow> int \<Rightarrow> int" where
  "full_size dev cnt err =
     (if err < 0 then err else if word_of_int err \<noteq> bd_block_size dev * ucast cnt then ERR_IO else err)"

definition read_full :: "'d bdev \<Rightarrow> bnum_t \<Rightarrow> u32 \<Rightarrow> 'd \<Rightarrow> (int \<times> bytes) option" where
  "read_full dev block cnt d = do {
     (err, bs) \<leftarrow> bio_read_block dev block cnt d;
     Some (full_size dev cnt err, bs)
   }"

definition write_full :: "'d bdev \<Rightarrow> bytes \<Rightarrow> bnum_t \<Rightarrow> u32 \<Rightarrow> 'd \<Rightarrow> (int \<times> 'd) option" where
  "write_full dev bs block cnt d = do {
     (err, d) \<leftarrow> bio_write_block dev bs block cnt d;
     Some (full_size dev cnt err, d)
   }"

text \<open>The state of a read: bytes read, bytes left, next block, and the buffer.\<close>

type_synonym rd_state = "nat \<times> u64 \<times> bnum_t \<times> bytes"

definition read_first :: "'d bdev \<Rightarrow> u64 \<Rightarrow> 'd \<Rightarrow> rd_state \<Rightarrow> (int \<times> rd_state) option" where
  "read_first dev offset d = (\<lambda>(pos, len, block, buf).
     if offset mod bd_block_size dev \<noteq> 0 then do {
       (err, temp) \<leftarrow> read_full dev block 1 d;
       if err < 0 then Some (err, (pos, len, block, buf))
       else do {
         let block_offset = offset mod bd_block_size dev;
         let tocopy = min (bd_block_size dev - block_offset) len;
         bs \<leftarrow> get (unat block_offset) (unat tocopy) temp;
         buf \<leftarrow> put pos bs buf;
         Some (err, (pos + unat tocopy, len - tocopy, block + 1, buf))
       }
     } else Some (0, (pos, len, block, buf)))"

text \<open>The middle of an unaligned buffer, block by block: \<open>n\<close> whole blocks are left.\<close>

primrec read_middle_aligned :: "nat \<Rightarrow> 'd bdev \<Rightarrow> 'd \<Rightarrow> rd_state \<Rightarrow> (int \<times> rd_state) option" where
  "read_middle_aligned 0 dev d st = Some (0, st)"
| "read_middle_aligned (Suc n) dev d st =
     (case st of (pos, len, block, buf) \<Rightarrow> do {
        (err, temp) \<leftarrow> read_full dev block 1 d;
        if err < 0 then Some (err, st)
        else do {
          bs \<leftarrow> get 0 (unat (bd_block_size dev)) temp;
          buf \<leftarrow> put pos bs buf;
          read_middle_aligned n dev d
            (pos + unat (bd_block_size dev), len - bd_block_size dev, block + 1, buf)
        }
      })"

definition read_middle :: "'d bdev \<Rightarrow> u64 \<Rightarrow> 'd \<Rightarrow> rd_state \<Rightarrow> (int \<times> rd_state) option" where
  "read_middle dev addr d = (\<lambda>(pos, len, block, buf).
     if bd_flags dev AND BIO_FLAG_CACHE_ALIGNED_READS \<noteq> 0 \<and> \<not> IS_ALIGNED (addr + of_nat pos) CACHE_LINE
     then read_middle_aligned (unat len div unat (bd_block_size dev)) dev d (pos, len, block, buf)
     else do {
       let num_blocks = divpow2 (ucast len) (bd_block_shift dev);
       (err, bs) \<leftarrow> read_full dev block num_blocks d;
       if err < 0 then Some (err, (pos, len, block, buf))
       else do {
         buf \<leftarrow> put pos bs buf;
         Some (err, (pos + nat err, len - word_of_int err, block + num_blocks, buf))
       }
     })"

definition read_last :: "'d bdev \<Rightarrow> 'd \<Rightarrow> rd_state \<Rightarrow> (int \<times> rd_state) option" where
  "read_last dev d = (\<lambda>(pos, len, block, buf).
     if len > 0 then do {
       (err, temp) \<leftarrow> read_full dev block 1 d;
       if err < 0 then Some (err, (pos, len, block, buf))
       else do {
         bs \<leftarrow> get 0 (unat len) temp;
         buf \<leftarrow> put pos bs buf;
         Some (err, (pos + unat len, len, block, buf))
       }
     } else Some (0, (pos, len, block, buf)))"

definition bio_default_read :: "'d bdev \<Rightarrow> u64 \<Rightarrow> u64 \<Rightarrow> u64 \<Rightarrow> bytes \<Rightarrow> 'd \<Rightarrow> (int \<times> bytes) option" where
  "bio_default_read dev addr offset len buf d = do {
     ASSERT (bd_block_size dev \<noteq> 0);
     let block = ucast (offset div bd_block_size dev);
     (err, (pos, _, _, buf)) \<leftarrow>
       and_then (and_then (read_first dev offset d (0, len, block, buf)) (read_middle dev addr d)) (read_last dev d);
     Some (if err \<ge> 0 then int pos else err, buf)
   }"

text \<open>The state of a write: bytes written, bytes left, next block, and the medium.\<close>

type_synonym 'd wr_state = "nat \<times> u64 \<times> bnum_t \<times> 'd"

text \<open>A block that is written in part: it is read, changed and written back.\<close>

definition write_partial :: "'d bdev \<Rightarrow> bnum_t \<Rightarrow> nat \<Rightarrow> bytes \<Rightarrow> 'd \<Rightarrow> (int \<times> 'd) option" where
  "write_partial dev block pos bs d = do {
     (err, temp) \<leftarrow> read_full dev block 1 d;
     if err < 0 then Some (err, d)
     else do {
       temp \<leftarrow> put pos bs temp;
       write_full dev temp block 1 d
     }
   }"

definition write_first :: "'d bdev \<Rightarrow> u64 \<Rightarrow> bytes \<Rightarrow> 'd wr_state \<Rightarrow> (int \<times> 'd wr_state) option" where
  "write_first dev offset buf = (\<lambda>(pos, len, block, d).
     if offset mod bd_block_size dev \<noteq> 0 then do {
       let block_offset = offset mod bd_block_size dev;
       let tocopy = min (bd_block_size dev - block_offset) len;
       bs \<leftarrow> get pos (unat tocopy) buf;
       (err, d) \<leftarrow> write_partial dev block (unat block_offset) bs d;
       if err < 0 then Some (err, (pos, len, block, d))
       else Some (err, (pos + unat tocopy, len - tocopy, block + 1, d))
     } else Some (0, (pos, len, block, d)))"

primrec write_middle_aligned :: "nat \<Rightarrow> 'd bdev \<Rightarrow> bytes \<Rightarrow> 'd wr_state \<Rightarrow> (int \<times> 'd wr_state) option" where
  "write_middle_aligned 0 dev buf st = Some (0, st)"
| "write_middle_aligned (Suc n) dev buf st =
     (case st of (pos, len, block, d) \<Rightarrow> do {
        bs \<leftarrow> get pos (unat (bd_block_size dev)) buf;
        (err, d) \<leftarrow> write_full dev bs block 1 d;
        if err < 0 then Some (err, (pos, len, block, d))
        else write_middle_aligned n dev buf
               (pos + unat (bd_block_size dev), len - bd_block_size dev, block + 1, d)
      })"

definition write_middle :: "'d bdev \<Rightarrow> u64 \<Rightarrow> bytes \<Rightarrow> 'd wr_state \<Rightarrow> (int \<times> 'd wr_state) option" where
  "write_middle dev addr buf = (\<lambda>(pos, len, block, d).
     if bd_flags dev AND BIO_FLAG_CACHE_ALIGNED_WRITES \<noteq> 0 \<and> \<not> IS_ALIGNED (addr + of_nat pos) CACHE_LINE
     then write_middle_aligned (unat len div unat (bd_block_size dev)) dev buf (pos, len, block, d)
     else do {
       let block_count = divpow2 (ucast len) (bd_block_shift dev);
       bs \<leftarrow> get pos (unat block_count * unat (bd_block_size dev)) buf;
       (err, d) \<leftarrow> write_full dev bs block block_count d;
       if err < 0 then Some (err, (pos, len, block, d))
       else do {
         ASSERT (word_of_int err = ucast block_count * bd_block_size dev);
         Some (err, (pos + nat err, len - word_of_int err, block + block_count, d))
       }
     })"

definition write_last :: "'d bdev \<Rightarrow> bytes \<Rightarrow> 'd wr_state \<Rightarrow> (int \<times> 'd wr_state) option" where
  "write_last dev buf = (\<lambda>(pos, len, block, d).
     if len > 0 then do {
       bs \<leftarrow> get pos (unat len) buf;
       (err, d) \<leftarrow> write_partial dev block 0 bs d;
       if err < 0 then Some (err, (pos, len, block, d))
       else Some (err, (pos + unat len, len, block, d))
     } else Some (0, (pos, len, block, d)))"

definition bio_default_write :: "'d bdev \<Rightarrow> u64 \<Rightarrow> bytes \<Rightarrow> u64 \<Rightarrow> u64 \<Rightarrow> 'd \<Rightarrow> (int \<times> 'd) option" where
  "bio_default_write dev addr buf offset len d = do {
     ASSERT (bd_block_size dev \<noteq> 0);
     let block = ucast (offset div bd_block_size dev);
     (err, (pos, _, _, d)) \<leftarrow>
       and_then (and_then (write_first dev offset buf (0, len, block, d)) (write_middle dev addr buf)) (write_last dev buf);
     Some (if err \<ge> 0 then int pos else err, d)
   }"

text \<open>
  The loop of \<^verbatim>\<open>bio_default_erase\<close>; \<open>addr\<close> is the address of the buffer on the stack, which
  the macro aligns to a cache line.
\<close>

partial_function (option) erase_loop ::
  "'d bdev \<Rightarrow> u64 \<Rightarrow> bytes \<Rightarrow> int \<Rightarrow> u64 \<Rightarrow> u64 \<Rightarrow> 'd \<Rightarrow> (int \<times> 'd) option" where
  "erase_loop dev addr erase_buf erased remaining pos d =
     (if remaining > 0 then do {
        let towrite = min remaining (bd_block_size dev);
        (written, d) \<leftarrow> bio_write dev addr erase_buf pos towrite d;
        (if written < 0 then Some (written, d)
         else if word_of_int written < towrite then Some (erased + written, d)
         else erase_loop dev addr erase_buf (erased + written) (remaining - word_of_int written) (pos + word_of_int written) d)
      } else Some (erased, d))"

definition bio_default_erase :: "'d bdev \<Rightarrow> u64 \<Rightarrow> u64 \<Rightarrow> u64 \<Rightarrow> 'd \<Rightarrow> (int \<times> 'd) option" where
  "bio_default_erase dev addr offset len d =
     erase_loop dev addr (replicate (unat (bd_block_size dev)) (bd_erase_byte dev)) 0 len offset d"

definition bio_default_read_block :: "bnum_t \<Rightarrow> u32 \<Rightarrow> 'd \<Rightarrow> (int \<times> bytes) option" where
  "bio_default_read_block block cnt d = Some (ERR_NOT_SUPPORTED, [])"

definition bio_default_write_block :: "bytes \<Rightarrow> bnum_t \<Rightarrow> u32 \<Rightarrow> 'd \<Rightarrow> (int \<times> 'd) option" where
  "bio_default_write_block bs block cnt d = Some (ERR_NOT_SUPPORTED, d)"

section \<open>Access in blocks of 512 bytes\<close>

text \<open>A step has a flag that says that the function has ended (\<^verbatim>\<open>goto end\<close>).\<close>

definition unless_end :: "(bool \<times> 's) option \<Rightarrow> ('s \<Rightarrow> (bool \<times> 's) option) \<Rightarrow> (bool \<times> 's) option" where
  "unless_end m f = do { (ended, st) \<leftarrow> m; if ended then Some (True, st) else f st }"

definition native_block_size :: "'d bdev \<Rightarrow> u32" where
  "native_block_size dev = ucast (bd_block_size dev div ucast USER_BLOCK_SIZE)"

definition max_blkcnt :: "'d bdev \<Rightarrow> u32" where
  "max_blkcnt dev = (if bd_max_blkcnt_per_cmd dev \<noteq> 0 then bd_max_blkcnt_per_cmd dev else 32)"

text \<open>Blocks read, next block, position in the buffer, and the buffer.\<close>

type_synonym nrd_state = "u32 \<times> bnum_t \<times> nat \<times> bytes"

definition new_read_first :: "'d bdev \<Rightarrow> bnum_t \<Rightarrow> u32 \<Rightarrow> 'd \<Rightarrow> nrd_state \<Rightarrow> (bool \<times> nrd_state) option" where
  "new_read_first dev blk cnt d = (\<lambda>(block_read, block, pos, buf).
     let nb = native_block_size dev in
     if block mod nb \<noteq> 0 \<or> cnt < nb then do {
       let block = block div nb * nb;
       let (err, temp) = bd_read_native dev (block div nb) 1 d;
       if err \<noteq> 0 then Some (True, (block_read, block, pos, buf))
       else do {
         let byte_offset = (blk - block) * USER_BLOCK_SIZE;
         let p_cnt = min cnt (block + nb - blk);
         let byte_size = p_cnt * USER_BLOCK_SIZE;
         bs \<leftarrow> get (unat byte_offset) (unat byte_size) temp;
         buf \<leftarrow> put pos bs buf;
         Some (False, (block_read + p_cnt, block + nb, pos + unat byte_size, buf))
       }
     } else Some (False, (block_read, block, pos, buf)))"

lemma loop_step_less: "m \<le> c - r \<Longrightarrow> m \<noteq> 0 \<Longrightarrow> unat (c - (r + m)) < unat (c - r)" for c r m :: u32
proof -
  assume m: "m \<le> c - r" "m \<noteq> 0"
  have "c - (r + m) = (c - r) - m" by simp
  moreover have "unat ((c - r) - m) = unat (c - r) - unat m" using m(1) by (simp only: unat_sub)
  moreover have "0 < unat m" "unat m \<le> unat (c - r)" using m by (simp_all add: unat_gt_0 word_le_nat_alt)
  ultimately show ?thesis by (simp only:)
qed

lemma loop_rest_less: "c \<noteq> r \<Longrightarrow> 0 < unat (c - r)" for c r :: u32
  by (simp add: unat_gt_0)

function new_read_loop :: "'d bdev \<Rightarrow> u32 \<Rightarrow> 'd \<Rightarrow> nrd_state \<Rightarrow> (bool \<times> nrd_state) option" where
  "new_read_loop dev cnt d (block_read, block, pos, buf) =
     (let nb = native_block_size dev in
      if cnt - block_read \<ge> nb then
        if cnt - block_read = 0 then Some (True, (block_read, block, pos, buf))
        else do {
          let block_per_time = (if max_blkcnt dev \<le> cnt - block_read then max_blkcnt dev else cnt - block_read);
          let (err, bs) = bd_read_native dev (block div nb) (block_per_time div nb) d;
          if err \<noteq> 0 then Some (True, (block_read, block, pos, buf))
          else do {
            buf \<leftarrow> put pos bs buf;
            new_read_loop dev cnt d
              (block_read + block_per_time, block + block_per_time, pos + unat (block_per_time * USER_BLOCK_SIZE), buf)
          }
        }
      else Some (False, (block_read, block, pos, buf)))"
  by pat_completeness auto
termination
  by (relation "measure (\<lambda>(dev, cnt, d, block_read, _). unat (cnt - block_read))")
    (auto simp: max_blkcnt_def intro: loop_step_less loop_rest_less)

definition new_read_last :: "'d bdev \<Rightarrow> u32 \<Rightarrow> 'd \<Rightarrow> nrd_state \<Rightarrow> (bool \<times> nrd_state) option" where
  "new_read_last dev cnt d = (\<lambda>(block_read, block, pos, buf).
     let nb = native_block_size dev in
     if (cnt - block_read) mod nb \<noteq> 0 then do {
       let (err, temp) = bd_read_native dev (block div nb) 1 d;
       if err \<noteq> 0 then Some (True, (block_read, block, pos, buf))
       else do {
         let byte_size = (cnt - block_read) * USER_BLOCK_SIZE;
         bs \<leftarrow> get 0 (unat byte_size) temp;
         buf \<leftarrow> put pos bs buf;
         Some (False, (block_read + (cnt - block_read), block, pos, buf))
       }
     } else Some (False, (block_read, block, pos, buf)))"

definition bio_new_read :: "'d bdev \<Rightarrow> u64 \<Rightarrow> bytes \<Rightarrow> bnum_t \<Rightarrow> u32 \<Rightarrow> 'd \<Rightarrow> (u32 \<times> bytes) option" where
  "bio_new_read dev addr buf blk cnt d =
     (if bd_flags dev AND BIO_FLAG_CACHE_ALIGNED_READS \<noteq> 0 \<and> \<not> IS_ALIGNED addr CACHE_LINE then Some (0, buf)
      else do {
        ASSERT (native_block_size dev \<noteq> 0);
        (_, (block_read, _, _, buf)) \<leftarrow>
          unless_end (unless_end (new_read_first dev blk cnt d (0, blk, 0, buf)) (new_read_loop dev cnt d)) (new_read_last dev cnt d);
        Some (block_read, buf)
      })"

text \<open>Blocks written, next block, position in the buffer, and the medium.\<close>

type_synonym 'd nwr_state = "u32 \<times> bnum_t \<times> nat \<times> 'd"

text \<open>One native block changed in part: \<open>bs\<close> at byte \<open>pos\<close> of it. The result is a status.\<close>

definition change_native :: "'d bdev \<Rightarrow> bnum_t \<Rightarrow> nat \<Rightarrow> bytes \<Rightarrow> 'd \<Rightarrow> (status_t \<times> 'd) option" where
  "change_native dev native pos bs d = do {
     let (err, temp) = bd_read_native dev native 1 d;
     if err \<noteq> 0 then Some (err, d)
     else do {
       temp \<leftarrow> put pos bs temp;
       Some (bd_write_native dev temp native 1 d)
     }
   }"

definition new_write_first :: "'d bdev \<Rightarrow> bytes \<Rightarrow> bnum_t \<Rightarrow> u32 \<Rightarrow> 'd nwr_state \<Rightarrow> (bool \<times> 'd nwr_state) option" where
  "new_write_first dev buf blk cnt = (\<lambda>(block_written, block, pos, d).
     let nb = native_block_size dev in
     if block mod nb \<noteq> 0 \<or> cnt < nb then do {
       let block = block div nb * nb;
       let byte_offset = (blk - block) * USER_BLOCK_SIZE;
       let p_cnt = min cnt (block + nb - blk);
       let byte_size = p_cnt * USER_BLOCK_SIZE;
       bs \<leftarrow> get pos (unat byte_size) buf;
       (err, d) \<leftarrow> change_native dev (block div nb) (unat byte_offset) bs d;
       if err \<noteq> 0 then Some (True, (block_written, block, pos, d))
       else Some (False, (block_written + p_cnt, block + nb, pos + unat byte_size, d))
     } else Some (False, (block_written, block, pos, d)))"

function new_write_loop :: "'d bdev \<Rightarrow> bytes \<Rightarrow> u32 \<Rightarrow> 'd nwr_state \<Rightarrow> (bool \<times> 'd nwr_state) option" where
  "new_write_loop dev buf cnt (block_written, block, pos, d) =
     (let nb = native_block_size dev in
      if cnt - block_written \<ge> nb then
        if cnt - block_written = 0 then Some (True, (block_written, block, pos, d))
        else do {
          let block_per_time = (if max_blkcnt dev \<le> cnt - block_written then max_blkcnt dev else cnt - block_written);
          bs \<leftarrow> get pos (unat (block_per_time div nb) * unat (bd_block_size dev)) buf;
          let (err, d) = bd_write_native dev bs (block div nb) (block_per_time div nb) d;
          if err \<noteq> 0 then Some (True, (block_written, block, pos, d))
          else new_write_loop dev buf cnt
                 (block_written + block_per_time, block + block_per_time, pos + unat (block_per_time * USER_BLOCK_SIZE), d)
        }
      else Some (False, (block_written, block, pos, d)))"
  by pat_completeness auto
termination
  by (relation "measure (\<lambda>(dev, buf, cnt, block_written, _). unat (cnt - block_written))")
    (auto simp: max_blkcnt_def intro: loop_step_less loop_rest_less)

definition new_write_last :: "'d bdev \<Rightarrow> bytes \<Rightarrow> u32 \<Rightarrow> 'd nwr_state \<Rightarrow> (bool \<times> 'd nwr_state) option" where
  "new_write_last dev buf cnt = (\<lambda>(block_written, block, pos, d).
     let nb = native_block_size dev in
     if (cnt - block_written) mod nb \<noteq> 0 then do {
       let byte_size = (cnt - block_written) * USER_BLOCK_SIZE;
       bs \<leftarrow> get pos (unat byte_size) buf;
       (err, d) \<leftarrow> change_native dev (block div nb) 0 bs d;
       if err \<noteq> 0 then Some (True, (block_written, block, pos, d))
       else Some (False, (block_written + (cnt - block_written), block, pos, d))
     } else Some (False, (block_written, block, pos, d)))"

definition bio_new_write :: "'d bdev \<Rightarrow> u64 \<Rightarrow> bytes \<Rightarrow> bnum_t \<Rightarrow> u32 \<Rightarrow> 'd \<Rightarrow> (u32 \<times> 'd) option" where
  "bio_new_write dev addr buf blk cnt d =
     (if bd_flags dev AND BIO_FLAG_CACHE_ALIGNED_WRITES \<noteq> 0 \<and> \<not> IS_ALIGNED addr CACHE_LINE then Some (0, d)
      else do {
        ASSERT (native_block_size dev \<noteq> 0);
        (_, (block_written, _, _, d)) \<leftarrow>
          unless_end (unless_end (new_write_first dev buf blk cnt (0, blk, 0, d)) (new_write_loop dev buf cnt)) (new_write_last dev buf cnt);
        Some (block_written, d)
      })"

text \<open>Blocks erased, next block, and the medium.\<close>

type_synonym 'd ner_state = "u32 \<times> bnum_t \<times> 'd"

definition zeros :: "nat \<Rightarrow> bytes" where
  "zeros n = replicate n 0"

definition new_erase_first :: "'d bdev \<Rightarrow> bnum_t \<Rightarrow> u32 \<Rightarrow> 'd ner_state \<Rightarrow> (bool \<times> 'd ner_state) option" where
  "new_erase_first dev blk cnt = (\<lambda>(block_erased, block, d).
     let nb = native_block_size dev in
     if block mod nb \<noteq> 0 \<or> cnt < nb then do {
       let block = block div nb * nb;
       let byte_offset = (blk - block) * USER_BLOCK_SIZE;
       let p_cnt = min cnt (block + nb - blk);
       let byte_size = p_cnt * USER_BLOCK_SIZE;
       (err, d) \<leftarrow> change_native dev (block div nb) (unat byte_offset) (zeros (unat byte_size)) d;
       if err \<noteq> 0 then Some (True, (block_erased, block, d))
       else Some (False, (block_erased + p_cnt, block + nb, d))
     } else Some (False, (block_erased, block, d)))"

text \<open>
  Writing zeros block by block while \<open>go block\<close> and a whole block is left; the result of a write
  is not looked at.
\<close>

partial_function (option) new_erase_blocks ::
  "'d bdev \<Rightarrow> (bnum_t \<Rightarrow> bool) \<Rightarrow> u32 \<Rightarrow> u32 \<Rightarrow> bnum_t \<Rightarrow> 'd \<Rightarrow> 'd ner_state option" where
  "new_erase_blocks dev go cnt block_erased block d =
     (let nb = native_block_size dev in
      if go block \<and> block_erased + nb \<le> cnt
      then new_erase_blocks dev go cnt (block_erased + nb) (block + nb)
             (snd (bd_write_native dev (zeros (unat (bd_block_size dev))) (block div nb) 1 d))
      else Some (block_erased, block, d))"

definition new_erase_size :: "'d bdev \<Rightarrow> u32" where
  "new_erase_size dev =
     (if bd_erase_size dev \<noteq> 0 \<and> bd_erase_size dev > native_block_size dev \<and> bd_erase_size dev mod native_block_size dev = 0
      then bd_erase_size dev else native_block_size dev)"

definition new_erase_middle :: "'d bdev \<Rightarrow> u32 \<Rightarrow> 'd ner_state \<Rightarrow> (bool \<times> 'd ner_state) option" where
  "new_erase_middle dev cnt = (\<lambda>(block_erased, block, d). do {
     let nb = native_block_size dev;
     let erase_size = new_erase_size dev;
     (block_erased, block, d) \<leftarrow> new_erase_blocks dev (\<lambda>b. b mod erase_size \<noteq> 0) cnt block_erased block d;
     let block_per_time = (cnt - block_erased) div erase_size * erase_size;
     if block_per_time \<noteq> 0 then do {
       let (err, d) = bd_erase_native dev (block div nb) (block_per_time div nb) d;
       if err \<noteq> 0 then Some (True, (block_erased, block, d))
       else Some (False, (block_erased + block_per_time, block + block_per_time, d))
     } else Some (False, (block_erased, block, d))
   })"

definition new_erase_last :: "'d bdev \<Rightarrow> bnum_t \<Rightarrow> u32 \<Rightarrow> 'd ner_state \<Rightarrow> (bool \<times> 'd ner_state) option" where
  "new_erase_last dev blk cnt = (\<lambda>(block_erased, block, d).
     let nb = native_block_size dev in
     if blk + cnt = block then Some (True, (block_erased, block, d))
     else do {
       (block_erased, block, d) \<leftarrow> new_erase_blocks dev (\<lambda>_. True) cnt block_erased block d;
       if (cnt - block_erased) mod nb \<noteq> 0 then do {
         let byte_size = (cnt - block_erased) * USER_BLOCK_SIZE;
         (err, d) \<leftarrow> change_native dev (block div nb) 0 (zeros (unat byte_size)) d;
         if err \<noteq> 0 then Some (True, (block_erased, block, d))
         else Some (False, (block_erased + (cnt - block_erased), block, d))
       } else Some (False, (block_erased, block, d))
     })"

definition bio_new_erase :: "'d bdev \<Rightarrow> bnum_t \<Rightarrow> u32 \<Rightarrow> 'd \<Rightarrow> (u32 \<times> 'd) option" where
  "bio_new_erase dev blk cnt d = do {
     ASSERT (native_block_size dev \<noteq> 0);
     (_, (block_erased, _, d)) \<leftarrow>
       unless_end (unless_end (new_erase_first dev blk cnt (0, blk, d)) (new_erase_middle dev cnt)) (new_erase_last dev blk cnt);
     Some (block_erased, d)
   }"

section \<open>Devices\<close>

text \<open>
  \<^verbatim>\<open>bio_initialize_bdev\<close>, for a driver that overrides the block access. The default hooks are
  applied to the device with the hooks that the driver installs, which is what they see when they
  are called. \<open>hooks\<close> is what the driver sets; \<open>addr\<close> is the address of the stack buffer of
  the default erase.
\<close>

definition default_hooks :: "u64 \<Rightarrow> 'd bdev \<Rightarrow> 'd bdev" where
  "default_hooks addr dev =
     (let dev = dev\<lparr>bd_read := bio_default_read dev, bd_write := bio_default_write dev\<rparr>
      in dev\<lparr>bd_erase := bio_default_erase dev addr\<rparr>)"

definition bio_initialize_bdev ::
  "string \<Rightarrow> u64 \<Rightarrow> bnum_t \<Rightarrow> bio_erase_geometry_info list \<Rightarrow> u32 \<Rightarrow> 'd bdev \<Rightarrow> 'd bdev option" where
  "bio_initialize_bdev name block_size block_count geometry flags dev = do {
     ASSERT (block_size \<noteq> 0 \<and> ispow2 (ucast block_size));
     let shift = log2_uint (ucast block_size);
     Some (dev\<lparr>bd_name := name, bd_block_size := block_size, bd_block_count := block_count,
               bd_block_shift := shift, bd_total_size := push_bit shift (ucast block_count),
               bd_geometry := geometry, bd_erase_byte := 0, bd_erase_size := 0, bd_ref := 0, bd_flags := flags,
               bd_read_block := bio_default_read_block, bd_write_block := bio_default_write_block\<rparr>)
   }"

subsection \<open>Memory devices\<close>

text \<open>The medium is the memory at \<^verbatim>\<open>ptr\<close>. The products of block numbers have 32 bits.\<close>

definition BLOCKSIZE :: u32 where [lk_defs]: "BLOCKSIZE = 512"

definition mem_bdev_read :: "u64 \<Rightarrow> u64 \<Rightarrow> u64 \<Rightarrow> bytes \<Rightarrow> bytes \<Rightarrow> (int \<times> bytes) option" where
  "mem_bdev_read addr offset len buf mem = do {
     bs \<leftarrow> get (unat offset) (unat len) mem;
     buf \<leftarrow> put 0 bs buf;
     Some (sint len, buf)
   }"

definition mem_bdev_read_block :: "bnum_t \<Rightarrow> u32 \<Rightarrow> bytes \<Rightarrow> (int \<times> bytes) option" where
  "mem_bdev_read_block block cnt mem = do {
     bs \<leftarrow> get (unat (block * BLOCKSIZE)) (unat (cnt * BLOCKSIZE)) mem;
     Some (int (unat (cnt * BLOCKSIZE)), bs)
   }"

definition mem_bdev_write :: "u64 \<Rightarrow> bytes \<Rightarrow> u64 \<Rightarrow> u64 \<Rightarrow> bytes \<Rightarrow> (int \<times> bytes) option" where
  "mem_bdev_write addr buf offset len mem = do {
     bs \<leftarrow> get 0 (unat len) buf;
     mem \<leftarrow> put (unat offset) bs mem;
     Some (sint len, mem)
   }"

definition mem_bdev_write_block :: "bytes \<Rightarrow> bnum_t \<Rightarrow> u32 \<Rightarrow> bytes \<Rightarrow> (int \<times> bytes) option" where
  "mem_bdev_write_block buf block cnt mem = do {
     bs \<leftarrow> get 0 (unat (cnt * BLOCKSIZE)) buf;
     mem \<leftarrow> put (unat (block * BLOCKSIZE)) bs mem;
     Some (int (unat (cnt * BLOCKSIZE)), mem)
   }"

subsection \<open>Registry\<close>

record 'd bio_state =
  bdevs :: "nat list"
  devs :: "nat \<Rightarrow> 'd bdev"

definition bdev_inc_ref :: "nat \<Rightarrow> 'd bio_state \<Rightarrow> 'd bio_state" where
  "bdev_inc_ref p s = s\<lparr>devs := (devs s)(p := (devs s p)\<lparr>bd_ref := bd_ref (devs s p) + 1\<rparr>)\<rparr>"

text \<open>
  The result says that this was the last reference, where the code calls the close hook and
  frees the name.
\<close>

definition bdev_dec_ref :: "nat \<Rightarrow> 'd bio_state \<Rightarrow> bool \<times> 'd bio_state" where
  "bdev_dec_ref p s =
     (bd_ref (devs s p) = 1, s\<lparr>devs := (devs s)(p := (devs s p)\<lparr>bd_ref := bd_ref (devs s p) - 1\<rparr>)\<rparr>)"

definition bio_register_device :: "nat \<Rightarrow> 'd bio_state \<Rightarrow> 'd bio_state" where
  "bio_register_device p s = (let s = bdev_inc_ref p s in s\<lparr>bdevs := bdevs s @ [p]\<rparr>)"

definition bio_unregister_device :: "nat \<Rightarrow> 'd bio_state \<Rightarrow> bool \<times> 'd bio_state" where
  "bio_unregister_device p s = bdev_dec_ref p (s\<lparr>bdevs := remove1 p (bdevs s)\<rparr>)"

primrec open_walk :: "string \<Rightarrow> nat list \<Rightarrow> 'd bio_state \<Rightarrow> (nat option \<times> 'd bio_state) option" where
  "open_walk name [] s = Some (None, s)"
| "open_walk name (p # ps) s = do {
     ASSERT (bd_ref (devs s p) > 0);
     if bd_name (devs s p) = name then Some (Some p, bdev_inc_ref p s) else open_walk name ps s
   }"

definition bio_open :: "string \<Rightarrow> 'd bio_state \<Rightarrow> (nat option \<times> 'd bio_state) option" where
  "bio_open name s = open_walk name (bdevs s) s"

definition bio_get_with_prefix :: "string \<Rightarrow> 'd bio_state \<Rightarrow> nat option" where
  "bio_get_with_prefix name s = find (\<lambda>p. take (length name) (bd_name (devs s p)) = name) (bdevs s)"

definition bio_close :: "nat \<Rightarrow> 'd bio_state \<Rightarrow> bool \<times> 'd bio_state" where
  "bio_close p s = bdev_dec_ref p s"

definition create_membdev :: "string \<Rightarrow> u64 \<Rightarrow> u64 \<Rightarrow> nat \<Rightarrow> bytes bio_state \<Rightarrow> (int \<times> bytes bio_state) option" where
  "create_membdev name len addr p s = do {
     dev \<leftarrow> bio_initialize_bdev name (ucast BLOCKSIZE) (ucast (len div ucast BLOCKSIZE)) [] BIO_FLAGS_NONE (devs s p);
     let dev = dev\<lparr>bd_read := mem_bdev_read, bd_read_block := mem_bdev_read_block,
                   bd_write := mem_bdev_write, bd_write_block := mem_bdev_write_block\<rparr>;
     let dev = dev\<lparr>bd_erase := bio_default_erase (dev\<lparr>bd_ref := 1\<rparr>) addr\<rparr>;
     Some (0, bio_register_device p (s\<lparr>devs := (devs s)(p := dev)\<rparr>))
   }"

subsection \<open>Subdevices\<close>

text \<open>The accesses of a subdevice that starts \<open>off\<close> blocks into its parent.\<close>

definition subdev_read :: "'d bdev \<Rightarrow> bnum_t \<Rightarrow> u64 \<Rightarrow> u64 \<Rightarrow> u64 \<Rightarrow> u64 \<Rightarrow> bytes \<Rightarrow> 'd \<Rightarrow> (int \<times> bytes) option" where
  "subdev_read parent off bs addr offset len buf d = bio_read parent addr (offset + ucast off * bs) len buf d"

definition subdev_read_block :: "'d bdev \<Rightarrow> bnum_t \<Rightarrow> bnum_t \<Rightarrow> u32 \<Rightarrow> 'd \<Rightarrow> (int \<times> bytes) option" where
  "subdev_read_block parent off block cnt d = bio_read_block parent (block + off) cnt d"

definition subdev_write :: "'d bdev \<Rightarrow> bnum_t \<Rightarrow> u64 \<Rightarrow> u64 \<Rightarrow> bytes \<Rightarrow> u64 \<Rightarrow> u64 \<Rightarrow> 'd \<Rightarrow> (int \<times> 'd) option" where
  "subdev_write parent off bs addr buf offset len d = bio_write parent addr buf (offset + ucast off * bs) len d"

definition subdev_write_block :: "'d bdev \<Rightarrow> bnum_t \<Rightarrow> bytes \<Rightarrow> bnum_t \<Rightarrow> u32 \<Rightarrow> 'd \<Rightarrow> (int \<times> 'd) option" where
  "subdev_write_block parent off buf block cnt d = bio_write_block parent buf (block + off) cnt d"

definition subdev_erase :: "'d bdev \<Rightarrow> bnum_t \<Rightarrow> u64 \<Rightarrow> u64 \<Rightarrow> u64 \<Rightarrow> 'd \<Rightarrow> (int \<times> 'd) option" where
  "subdev_erase parent off bs offset len d = bio_erase parent (offset + ucast off * bs) len d"

definition bio_contains_range :: "u64 \<Rightarrow> u64 \<Rightarrow> u64 \<Rightarrow> u64 \<Rightarrow> bool option" where
  "bio_contains_range container_start container_len contained_start contained_len = do {
     let container_end = container_start + container_len;
     let contained_end = contained_start + contained_len;
     ASSERT (container_end \<ge> container_start);
     ASSERT (contained_end \<ge> contained_start);
     Some (container_start \<le> contained_start \<and> container_end \<ge> contained_end)
   }"

text \<open>The search through the erase regions ends at the first that contains the range, or at the last one.\<close>

fun find_geometry :: "u64 \<Rightarrow> u64 \<Rightarrow> bio_erase_geometry_info \<Rightarrow> bio_erase_geometry_info list \<Rightarrow> bio_erase_geometry_info option" where
  "find_geometry byte_start byte_size geo rest = do {
     inside \<leftarrow> bio_contains_range (geo_start geo) (geo_size geo) byte_start byte_size;
     if inside then Some geo
     else (case rest of [] \<Rightarrow> Some geo | g # gs \<Rightarrow> find_geometry byte_start byte_size g gs)
   }"

text \<open>The geometry of the subdevice, or the error.\<close>

definition sub_geometry :: "'d bdev \<Rightarrow> bnum_t \<Rightarrow> bnum_t \<Rightarrow> (status_t + bio_erase_geometry_info list) option" where
  "sub_geometry parent startblock block_count =
     (case bd_geometry parent of
        g # gs \<Rightarrow> do {
          let byte_start = push_bit (bd_block_shift parent) (ucast startblock);
          let byte_size = push_bit (bd_block_shift parent) (ucast block_count);
          geo \<leftarrow> find_geometry byte_start byte_size g gs;
          let erase_mask = shl1 (geo_erase_shift geo) - 1;
          if byte_start AND erase_mask \<noteq> 0 \<or> byte_size AND erase_mask \<noteq> 0 then Some (Inl ERR_INVALID_ARGS)
          else Some (Inr [\<lparr>geo_start = 0, geo_size = byte_size, geo_erase_size = geo_erase_size geo,
                           geo_erase_shift = geo_erase_shift geo\<rparr>])
        }
      | [] \<Rightarrow>
          let endblock = startblock + block_count in
          if endblock < startblock \<or> endblock > bd_block_count parent then Some (Inl ERR_INVALID_ARGS)
          else Some (Inr []))"

text \<open>\<open>mem\<close> is the structure that \<^verbatim>\<open>malloc\<close> returns, if any.\<close>

definition bio_publish_subdevice ::
  "nat option \<Rightarrow> string \<Rightarrow> string \<Rightarrow> bnum_t \<Rightarrow> bnum_t \<Rightarrow> 'd bio_state \<Rightarrow> (status_t \<times> 'd bio_state) option" where
  "bio_publish_subdevice mem parent_dev subdev startblock block_count s = do {
     (parent, s) \<leftarrow> bio_open parent_dev s;
     (case parent of
        None \<Rightarrow> Some (ERR_NOT_FOUND, s)
      | Some pp \<Rightarrow>
          (case mem of
             None \<Rightarrow> Some (ERR_NO_MEMORY, snd (bio_close pp s))
           | Some p \<Rightarrow> do {
               let parent = devs s pp;
               g \<leftarrow> sub_geometry parent startblock block_count;
               (case g of
                  Inl err \<Rightarrow> Some (err, snd (bio_close pp s))
                | Inr geometry \<Rightarrow> do {
                    dev \<leftarrow> bio_initialize_bdev subdev (bd_block_size parent) block_count geometry BIO_FLAGS_NONE (devs s p);
                    let dev = dev\<lparr>bd_read := subdev_read parent startblock (bd_block_size parent),
                                  bd_read_block := subdev_read_block parent startblock,
                                  bd_write := subdev_write parent startblock (bd_block_size parent),
                                  bd_write_block := subdev_write_block parent startblock,
                                  bd_erase := subdev_erase parent startblock (bd_block_size parent)\<rparr>;
                    Some (NO_ERROR, bio_register_device p (s\<lparr>devs := (devs s)(p := dev)\<rparr>))
                  })
             }))
   }"

end
