(* ===== verification/Lib_Bcache.thy ===== *)
theory Lib_Bcache
  imports Lib_Bio
begin

text \<open>
  The block cache \<^verbatim>\<open>lib/bcache/bcache.c\<close> over a device of \<^verbatim>\<open>lib/bio\<close>. A block of the
  cache is named by its index in the array \<^verbatim>\<open>blocks\<close>; the two lists hold indices. Memory that
  \<^verbatim>\<open>malloc\<close> returns has any contents, which are an argument of \<open>bcache_create\<close>; the code does not check
  that there is any.
\<close>

record bcache_block =
  blocknum :: bnum_t
  ref_count :: int
  is_dirty :: bool
  blk_addr :: u64
  blk_data :: bytes

record bcache_stats =
  st_hits :: u32
  st_depth :: u32
  st_misses :: u32
  st_reads :: u32
  st_writes :: u32

record 'd bcache =
  bc_dev :: "'d bdev"
  bc_block_size :: u64
  bc_count :: nat
  bc_stats :: bcache_stats
  free_list :: "nat list"
  lru_list :: "nat list"
  bc_blocks :: "nat \<Rightarrow> bcache_block"

text \<open>Changes of one block and of the statistics.\<close>

definition upd_block :: "nat \<Rightarrow> (bcache_block \<Rightarrow> bcache_block) \<Rightarrow> 'd bcache \<Rightarrow> 'd bcache" where
  "upd_block b f c = c\<lparr>bc_blocks := (bc_blocks c)(b := f (bc_blocks c b))\<rparr>"

definition upd_bstats :: "(bcache_stats \<Rightarrow> bcache_stats) \<Rightarrow> 'd bcache \<Rightarrow> 'd bcache" where
  "upd_bstats f c = c\<lparr>bc_stats := f (bc_stats c)\<rparr>"

text \<open>
  \<open>mem\<close> is what the allocated blocks hold before they are set up. The count is an
  \<^verbatim>\<open>int\<close> in the source and a natural number here: with a negative one the loop of
  the source sets up no block, but it asks \<^verbatim>\<open>malloc\<close> for a wrapped size.
\<close>

definition bcache_create :: "(nat \<Rightarrow> bcache_block) \<Rightarrow> 'd bdev \<Rightarrow> u64 \<Rightarrow> nat \<Rightarrow> 'd bcache" where
  "bcache_create mem dev block_size block_count =
     \<lparr>bc_dev = dev, bc_block_size = block_size, bc_count = block_count,
      bc_stats = \<lparr>st_hits = 0, st_depth = 0, st_misses = 0, st_reads = 0, st_writes = 0\<rparr>,
      free_list = fold (\<lambda>i l. i # l) [0..<block_count] [], lru_list = [],
      bc_blocks = (\<lambda>i. if i < block_count then (mem i)\<lparr>ref_count := 0, is_dirty := False\<rparr> else mem i)\<rparr>"

text \<open>The result of \<^verbatim>\<open>bio_read\<close> and \<^verbatim>\<open>bio_write\<close> is kept in an \<^verbatim>\<open>int\<close>.\<close>

definition to_int :: "int \<Rightarrow> int" where
  "to_int r = sint (word_of_int r :: u32)"

definition block_pos :: "'d bcache \<Rightarrow> bnum_t \<Rightarrow> u64" where
  "block_pos c num = ucast num * bc_block_size c"

definition flush_block :: "'d bcache \<Rightarrow> nat \<Rightarrow> 'd \<Rightarrow> (int \<times> 'd bcache \<times> 'd) option" where
  "flush_block c b d = do {
     let blk = bc_blocks c b;
     (rc, d) \<leftarrow> bio_write (bc_dev c) (blk_addr blk) (blk_data blk) (block_pos c (blocknum blk)) (bc_block_size c) d;
     if to_int rc < 0 then Some (to_int rc, c, d)
     else Some (0, upd_bstats (\<lambda>st. st\<lparr>st_writes := st_writes st + 1\<rparr>) (upd_block b (\<lambda>blk. blk\<lparr>is_dirty := False\<rparr>) c), d)
   }"

text \<open>Destroying a cache whose blocks are all unreferenced releases the memory; dirty blocks are lost.\<close>

definition bcache_destroy :: "'d bcache \<Rightarrow> unit option" where
  "bcache_destroy c = ASSERT (\<forall>i \<in> set [0..<bc_count c]. ref_count (bc_blocks c i) = 0)"

definition find_block :: "'d bcache \<Rightarrow> bnum_t \<Rightarrow> nat option \<times> 'd bcache" where
  "find_block c num =
     (case find (\<lambda>b. blocknum (bc_blocks c b) = num) (lru_list c) of
        Some b \<Rightarrow>
          let depth = of_nat (length (takeWhile (\<lambda>b. blocknum (bc_blocks c b) \<noteq> num) (lru_list c)) + 1) in
          (Some b, upd_bstats (\<lambda>st. st\<lparr>st_hits := st_hits st + 1, st_depth := st_depth st + depth\<rparr>)
                     (c\<lparr>lru_list := remove1 b (lru_list c) @ [b]\<rparr>))
      | None \<Rightarrow> (None, upd_bstats (\<lambda>st. st\<lparr>st_misses := st_misses st + 1\<rparr>) c))"

definition alloc_block :: "'d bcache \<Rightarrow> 'd \<Rightarrow> (nat option \<times> 'd bcache \<times> 'd) option" where
  "alloc_block c d =
     (case free_list c of
        b # bs \<Rightarrow> Some (Some b, upd_block b (\<lambda>blk. blk\<lparr>ref_count := 0\<rparr>) (c\<lparr>free_list := bs, lru_list := lru_list c @ [b]\<rparr>), d)
      | [] \<Rightarrow>
          (case find (\<lambda>b. ref_count (bc_blocks c b) = 0) (lru_list c) of
             None \<Rightarrow> Some (None, c, d)
           | Some b \<Rightarrow> do {
               (err, c, d) \<leftarrow> (if is_dirty (bc_blocks c b) then flush_block c b d else Some (0, c, d));
               if err \<noteq> 0 then Some (None, c, d)
               else Some (Some b, c\<lparr>lru_list := remove1 b (lru_list c) @ [b]\<rparr>, d)
             }))"

text \<open>
  When the read fails, the code adds the block to the free list. Its node is still in the LRU list, so that
  neither list ends any more; from there on the code has no defined behaviour, and the model has no result.
\<close>

definition add_free :: "nat \<Rightarrow> 'd bcache \<Rightarrow> 'd bcache option" where
  "add_free b c = do {
     ASSERT (b \<notin> set (free_list c) \<and> b \<notin> set (lru_list c));
     Some (c\<lparr>free_list := free_list c @ [b]\<rparr>)
   }"

definition find_or_fill_block :: "'d bcache \<Rightarrow> bnum_t \<Rightarrow> 'd \<Rightarrow> (nat option \<times> 'd bcache \<times> 'd) option" where
  "find_or_fill_block c num d =
     (case find_block c num of
        (Some b, c) \<Rightarrow> do { ASSERT (blocknum (bc_blocks c b) = num); Some (Some b, c, d) }
      | (None, c) \<Rightarrow> do {
          (block, c, d) \<leftarrow> alloc_block c d;
          ASSERT (block \<noteq> None);
          let b = the block;
          let c = upd_block b (\<lambda>blk. blk\<lparr>blocknum := num\<rparr>) c;
          (err, bs) \<leftarrow> bio_read (bc_dev c) (blk_addr (bc_blocks c b)) (block_pos c num) (bc_block_size c) (blk_data (bc_blocks c b)) d;
          let c = upd_block b (\<lambda>blk. blk\<lparr>blk_data := bs\<rparr>) c;
          if to_int err < 0 then do { c \<leftarrow> add_free b c; Some (None, c, d) }
          else do {
            let c = upd_bstats (\<lambda>st. st\<lparr>st_reads := st_reads st + 1\<rparr>) c;
            ASSERT (blocknum (bc_blocks c b) = num);
            Some (Some b, c, d)
          }
        })"

text \<open>The bytes that are stored in the caller's buffer are part of the result.\<close>

definition bcache_read_block :: "'d bcache \<Rightarrow> bnum_t \<Rightarrow> 'd \<Rightarrow> ((int \<times> bytes) \<times> 'd bcache \<times> 'd) option" where
  "bcache_read_block c num d = do {
     (block, c, d) \<leftarrow> find_or_fill_block c num d;
     (case block of
        None \<Rightarrow> Some ((-1, []), c, d)
      | Some b \<Rightarrow> do { bs \<leftarrow> get 0 (unat (bc_block_size c)) (blk_data (bc_blocks c b)); Some ((0, bs), c, d) })
   }"

text \<open>The pointer that the caller gets is the index of the block.\<close>

definition bcache_get_block :: "'d bcache \<Rightarrow> bnum_t \<Rightarrow> 'd \<Rightarrow> ((int \<times> nat option) \<times> 'd bcache \<times> 'd) option" where
  "bcache_get_block c num d = do {
     (block, c, d) \<leftarrow> find_or_fill_block c num d;
     (case block of
        None \<Rightarrow> Some ((-1, None), c, d)
      | Some b \<Rightarrow> Some ((0, Some b), upd_block b (\<lambda>blk. blk\<lparr>ref_count := ref_count blk + 1\<rparr>) c, d))
   }"

definition bcache_put_block :: "'d bcache \<Rightarrow> bnum_t \<Rightarrow> (int \<times> 'd bcache) option" where
  "bcache_put_block c num =
     (case find_block c num of
        (None, c) \<Rightarrow> None
      | (Some b, c) \<Rightarrow> do {
          ASSERT (ref_count (bc_blocks c b) > 0);
          Some (0, upd_block b (\<lambda>blk. blk\<lparr>ref_count := ref_count blk - 1\<rparr>) c)
        })"

definition bcache_mark_block_dirty :: "'d bcache \<Rightarrow> bnum_t \<Rightarrow> int \<times> 'd bcache" where
  "bcache_mark_block_dirty c num =
     (case find_block c num of
        (None, c) \<Rightarrow> (-1, c)
      | (Some b, c) \<Rightarrow> (0, upd_block b (\<lambda>blk. blk\<lparr>is_dirty := True\<rparr>) c))"

text \<open>\<^verbatim>\<open>memset\<close> of the block's memory, and the mark.\<close>

definition zero_out :: "nat \<Rightarrow> 'd bcache \<Rightarrow> 'd bcache option" where
  "zero_out b c = do {
     bs \<leftarrow> put 0 (replicate (unat (bc_block_size c)) 0) (blk_data (bc_blocks c b));
     Some (upd_block b (\<lambda>blk. blk\<lparr>blk_data := bs, is_dirty := True\<rparr>) c)
   }"

definition bcache_zero_block :: "'d bcache \<Rightarrow> bnum_t \<Rightarrow> 'd \<Rightarrow> (int \<times> 'd bcache \<times> 'd) option" where
  "bcache_zero_block c num d =
     (case find_block c num of
        (Some b, c) \<Rightarrow> do { c \<leftarrow> zero_out b c; Some (0, c, d) }
      | (None, c) \<Rightarrow> do {
          (block, c, d) \<leftarrow> alloc_block c d;
          (case block of
             None \<Rightarrow> Some (-1, c, d)
           | Some b \<Rightarrow> do { c \<leftarrow> zero_out b (upd_block b (\<lambda>blk. blk\<lparr>blocknum := num\<rparr>) c); Some (0, c, d) })
        })"

primrec flush_walk :: "nat list \<Rightarrow> 'd bcache \<Rightarrow> 'd \<Rightarrow> (int \<times> 'd bcache \<times> 'd) option" where
  "flush_walk [] c d = Some (0, c, d)"
| "flush_walk (b # bs) c d =
     (if is_dirty (bc_blocks c b) then do {
        (err, c, d) \<leftarrow> flush_block c b d;
        if err \<noteq> 0 then Some (err, c, d) else flush_walk bs c d
      } else flush_walk bs c d)"

definition bcache_flush :: "'d bcache \<Rightarrow> 'd \<Rightarrow> (int \<times> 'd bcache \<times> 'd) option" where
  "bcache_flush c d = flush_walk (lru_list c) c d"

end
