(* ===== verification/Bio_Access.thy ===== *)
theory Bio_Access
  imports Lib_Bio
begin

text \<open>
  The contract of a driver's block access as a locale, and what the default byte access of
  \<^verbatim>\<open>lib/bio/bio.c\<close> does over any driver that keeps it.
\<close>

section \<open>Parts of a list\<close>

definition part :: "nat \<Rightarrow> nat \<Rightarrow> 'a list \<Rightarrow> 'a list" where
  "part p n xs = take n (drop p xs)"

definition overwrite :: "nat \<Rightarrow> 'a list \<Rightarrow> 'a list \<Rightarrow> 'a list" where
  "overwrite p ys xs = take p xs @ ys @ drop (p + length ys) xs"

lemma length_part [simp]: "p + n \<le> length xs \<Longrightarrow> length (part p n xs) = n"
  by (simp add: part_def)

lemma length_overwrite [simp]: "p + length ys \<le> length xs \<Longrightarrow> length (overwrite p ys xs) = length xs"
  by (simp add: overwrite_def)

lemma part_0 [simp]: "part p 0 xs = []"
  by (simp add: part_def)

lemma overwrite_Nil [simp]: "overwrite p [] xs = xs"
  by (simp add: overwrite_def)

lemma part_append: "part p m xs @ part (p + m) n xs = part p (m + n) xs"
  by (simp add: part_def take_add add.commute)

lemma part_part: "q + n \<le> m \<Longrightarrow> part q n (part p m xs) = part (p + q) n xs"
  by (simp add: part_def drop_take min_def add.commute)

lemma put_eq: "p + length ys \<le> length xs \<Longrightarrow> put p ys xs = Some (overwrite p ys xs)"
  by (simp add: put_def overwrite_def)

lemma get_eq: "p + n \<le> length xs \<Longrightarrow> get p n xs = Some (part p n xs)"
  by (simp add: get_def part_def)

lemma nth_part: "i < n \<Longrightarrow> p + n \<le> length xs \<Longrightarrow> part p n xs ! i = xs ! (p + i)"
  by (simp add: part_def)

lemma nth_overwrite:
  assumes "p + length ys \<le> length xs" "i < length xs"
  shows "overwrite p ys xs ! i = (if p \<le> i \<and> i < p + length ys then ys ! (i - p) else xs ! i)"
proof -
  have "i < p \<Longrightarrow> overwrite p ys xs ! i = xs ! i" using assms by (simp add: overwrite_def nth_append)
  moreover have "p \<le> i \<Longrightarrow> i < p + length ys \<Longrightarrow> overwrite p ys xs ! i = ys ! (i - p)"
    using assms by (auto simp: overwrite_def nth_append)
  moreover have "p + length ys \<le> i \<Longrightarrow> overwrite p ys xs ! i = xs ! i"
    using assms by (auto simp: overwrite_def nth_append min_def)
  ultimately show ?thesis by auto
qed

lemma list_eq_nth: "length xs = length ys \<Longrightarrow> (\<And>i. i < length ys \<Longrightarrow> xs ! i = ys ! i) \<Longrightarrow> xs = ys"
  by (rule nth_equalityI) auto

lemma overwrite_overwrite:
  assumes "p + length ys + length zs \<le> length xs"
  shows "overwrite (p + length ys) zs (overwrite p ys xs) = overwrite p (ys @ zs) xs"
  by (rule list_eq_nth) (use assms in \<open>auto simp: nth_overwrite nth_append\<close>)

lemma overwrite_in_part:
  assumes "q + length ys \<le> m" "p + m \<le> length xs"
  shows "overwrite p (overwrite q ys (part p m xs)) xs = overwrite (p + q) ys xs"
  by (rule list_eq_nth) (use assms in \<open>auto simp: nth_overwrite nth_part add.commute\<close>)

lemma part_overwrite_same: "p + length ys \<le> length xs \<Longrightarrow> part p (length ys) (overwrite p ys xs) = ys"
  by (simp add: part_def overwrite_def)

lemma part_overwrite_other:
  assumes "p + length ys \<le> length xs" "q + n \<le> length xs" "q + n \<le> p \<or> p + length ys \<le> q"
  shows "part q n (overwrite p ys xs) = part q n xs"
  by (rule list_eq_nth) (use assms in \<open>auto simp: nth_overwrite nth_part\<close>)

lemma put_next:
  assumes "length ys = p" "p + length zs \<le> length buf"
  shows "put p zs (ys @ drop p buf) = Some ((ys @ zs) @ drop (p + length zs) buf)"
  using assms by (simp add: put_def add.commute)

section \<open>The contract of a driver\<close>

text \<open>
  \<open>contents\<close> reads the bytes of the medium; \<open>ok\<close> says that the medium is in order. Blocks inside
  the device are transferred whole.
\<close>

locale block_driver =
  fixes dev :: "'d bdev" and contents :: "'d \<Rightarrow> bytes" and ok :: "'d \<Rightarrow> bool"
  assumes live: "0 < bd_ref dev"
    and size_pow2: "unat (bd_block_size dev) = 2 ^ bd_block_shift dev" "bd_block_shift dev < 32"
    and total_size: "unat (bd_total_size dev) = unat (bd_block_count dev) * unat (bd_block_size dev)"
      "unat (bd_block_count dev) * unat (bd_block_size dev) < 2 ^ 62"
    and contents_size: "ok d \<Longrightarrow> length (contents d) = unat (bd_block_count dev) * unat (bd_block_size dev)"
    and read_hook: "ok d \<Longrightarrow> 0 < unat cnt \<Longrightarrow> unat block + unat cnt \<le> unat (bd_block_count dev) \<Longrightarrow>
      bd_read_block dev block cnt d = Some (int (unat cnt * unat (bd_block_size dev)),
        part (unat block * unat (bd_block_size dev)) (unat cnt * unat (bd_block_size dev)) (contents d))"
    and write_hook: "ok d \<Longrightarrow> 0 < unat cnt \<Longrightarrow> unat block + unat cnt \<le> unat (bd_block_count dev) \<Longrightarrow>
      length bs = unat cnt * unat (bd_block_size dev) \<Longrightarrow>
      \<exists>d'. bd_write_block dev bs block cnt d = Some (int (unat cnt * unat (bd_block_size dev)), d') \<and> ok d'
        \<and> contents d' = overwrite (unat block * unat (bd_block_size dev)) bs (contents d)"
begin

abbreviation bsz :: nat where "bsz \<equiv> unat (bd_block_size dev)"
abbreviation nblocks :: nat where "nblocks \<equiv> unat (bd_block_count dev)"

lemma bsz_pos: "0 < bsz" "bsz < 2 ^ 32" "bd_block_size dev \<noteq> 0"
proof -
  have "(2::nat) ^ bd_block_shift dev < 2 ^ 32" using size_pow2(2) by (rule power_strict_increasing) simp
  then show "0 < bsz" "bsz < 2 ^ 32" "bd_block_size dev \<noteq> 0" using size_pow2(1) by (auto simp: unat_eq_zero [symmetric])
qed

lemma trim_blocks:
  assumes "unat block + unat cnt \<le> nblocks \<or> cnt = 0"
  shows "bio_trim_block_range dev block cnt = cnt"
proof -
  have lt: "nblocks < 2 ^ 32" using unsigned_less [of "bd_block_count dev", where ?'a = nat] by simp
  show ?thesis
  proof (cases "cnt = 0")
    case False
    then have le: "unat block + unat cnt \<le> nblocks" using assms by simp
    then have "unat (block + cnt) = unat block + unat cnt" using lt by (simp add: unat_word_ariths)
    then show ?thesis using le False by (auto simp: bio_trim_block_range_def word_less_nat_alt)
  qed (simp add: bio_trim_block_range_def)
qed

lemma full_size_ok: "full_size dev cnt (int (unat cnt * bsz)) = int (unat cnt * bsz)"
proof -
  have "word_of_int (int (unat cnt * bsz)) = bd_block_size dev * ucast cnt" by (simp add: mult.commute)
  then show ?thesis by (simp add: full_size_def)
qed

lemma read_full_ok:
  assumes "ok d" "unat block + unat cnt \<le> nblocks \<or> cnt = 0"
  shows "read_full dev block cnt d = Some (int (unat cnt * bsz), part (unat block * bsz) (unat cnt * bsz) (contents d))"
proof (cases "cnt = 0")
  case True
  then show ?thesis using live trim_blocks [OF assms(2)] full_size_ok [of 0] by (simp add: read_full_def bio_read_block_def)
next
  case False
  then show ?thesis using live trim_blocks [OF assms(2)] full_size_ok [of cnt] read_hook [OF assms(1), of cnt block] assms(2)
    by (simp add: read_full_def bio_read_block_def unat_gt_0)
qed

lemma write_full_ok:
  assumes "ok d" "unat block + unat cnt \<le> nblocks \<or> cnt = 0" "length bs = unat cnt * bsz"
  shows "\<exists>d'. write_full dev bs block cnt d = Some (int (unat cnt * bsz), d') \<and> ok d'
    \<and> contents d' = overwrite (unat block * bsz) bs (contents d)"
proof (cases "cnt = 0")
  case True
  then show ?thesis using live trim_blocks [OF assms(2)] full_size_ok [of 0] assms by (simp add: write_full_def bio_write_block_def)
next
  case False
  then obtain d' where "bd_write_block dev bs block cnt d = Some (int (unat cnt * bsz), d')" "ok d'"
      "contents d' = overwrite (unat block * bsz) bs (contents d)"
    using write_hook [OF assms(1), of cnt block bs] assms(2,3) by (auto simp: unat_gt_0)
  then show ?thesis using live trim_blocks [OF assms(2)] full_size_ok [of cnt] False
    by (simp add: write_full_def bio_write_block_def)
qed

lemma block_inside:
  assumes "ok d" "p < nblocks * bsz"
  shows "p div bsz < nblocks" "p div bsz * bsz + bsz \<le> length (contents d)"
proof -
  show "p div bsz < nblocks" using assms(2) bsz_pos(1) by (simp add: div_less_iff_less_mult)
  then have "Suc (p div bsz) * bsz \<le> nblocks * bsz" by (intro mult_le_mono1) simp
  then show "p div bsz * bsz + bsz \<le> length (contents d)" using contents_size [OF assms(1)] by simp
qed

text \<open>What a read of \<open>n\<close> bytes from byte \<open>off\<close> on has done after \<open>pos\<close> bytes.\<close>

definition rd_inv :: "nat \<Rightarrow> nat \<Rightarrow> bytes \<Rightarrow> 'd \<Rightarrow> rd_state \<Rightarrow> bool" where
  "rd_inv off n buf d = (\<lambda>(pos, len, block, b). pos + unat len = n \<and> b = part off pos (contents d) @ drop pos buf
     \<and> (len = 0 \<or> unat block * bsz = off + pos))"

lemma copy_step:
  assumes "off + n \<le> length (contents d)" "n \<le> length buf" "pos + m \<le> n"
  shows "put pos (part (off + pos) m (contents d)) (part off pos (contents d) @ drop pos buf)
    = Some (part off (pos + m) (contents d) @ drop (pos + m) buf)"
proof -
  have l: "length (part off pos (contents d)) = pos" "length (part (off + pos) m (contents d)) = m" using assms by simp_all
  then show ?thesis using put_next [OF l(1), of "part (off + pos) m (contents d)" buf] assms part_append [of off pos "contents d" m]
    by simp
qed

lemma unat_block:
  assumes "off < nblocks * bsz" "unat offset = off"
  shows "unat (ucast (offset div bd_block_size dev) :: u32) = off div bsz"
proof -
  have "off div bsz < nblocks" using assms(1) bsz_pos(1) by (simp add: div_less_iff_less_mult)
  moreover have "nblocks < 2 ^ 32" using unsigned_less [of "bd_block_count dev", where ?'a = nat] by simp
  ultimately show ?thesis using assms(2)
    by (simp add: unsigned_ucast_eq unat_div_distrib take_bit_nat_eq_self)
qed

lemma read_first_ok:
  assumes d: "ok d" and r: "unat offset = off" "off + n \<le> nblocks * bsz" "0 < n" "unat len = n" "n \<le> length buf"
  shows "\<exists>err st. read_first dev offset d (0, len, ucast (offset div bd_block_size dev), buf) = Some (err, st) \<and> 0 \<le> err \<and> rd_inv off n buf d st"
proof -
  let ?block = "ucast (offset div bd_block_size dev) :: u32"
  have off: "off < nblocks * bsz" using r by simp
  note ub = unat_block [OF off r(1)]
  note ins = block_inside [OF d off]
  have um: "unat (offset mod bd_block_size dev) = off mod bsz" using r(1) by (simp add: unat_mod_distrib)
  have split: "off div bsz * bsz + off mod bsz = off" by simp
  show ?thesis
  proof (cases "off mod bsz = 0")
    case True
    then have "offset mod bd_block_size dev = 0" using um by (simp add: unat_eq_zero)
    then show ?thesis using True r ub split by (simp add: read_first_def rd_inv_def)
  next
    case False
    define m where "m = min (bsz - off mod bsz) n"
    let ?tc = "min (bd_block_size dev - offset mod bd_block_size dev) len"
    have lt: "off mod bsz < bsz" using bsz_pos by simp
    have "unat (bd_block_size dev - offset mod bd_block_size dev) = bsz - off mod bsz"
      using lt um by (simp add: unat_sub word_le_nat_alt)
    then have tc: "unat ?tc = m" using r(4) by (auto simp: m_def min_def word_le_nat_alt)
    have nz: "offset mod bd_block_size dev \<noteq> 0" using um False by (metis unat_0)
    have rf: "read_full dev ?block 1 d = Some (int bsz, part (off div bsz * bsz) bsz (contents d))"
      using read_full_ok [OF d, of ?block 1] ub ins(1) by simp
    have g: "get (off mod bsz) m (part (off div bsz * bsz) bsz (contents d)) = Some (part off m (contents d))"
      using get_eq [of "off mod bsz" m "part (off div bsz * bsz) bsz (contents d)"] ins(2) lt part_part [of "off mod bsz" m bsz "off div bsz * bsz" "contents d"]
      by (simp add: m_def split)
    have p: "put 0 (part off m (contents d)) buf = Some (part off m (contents d) @ drop m buf)"
      using copy_step [of off n d buf 0 m] r contents_size [OF d] by (simp add: m_def)
    have "len - ?tc = 0 \<or> unat (?block + 1) * bsz = off + m"
    proof (cases "m = n")
      case True
      then have "unat ?tc = unat len" using tc r(4) by simp
      then have "?tc = len" by (simp only: word_unat_eq_iff)
      then show ?thesis by simp
    next
      case mn: False
      then have m: "m = bsz - off mod bsz" by (simp add: m_def min_def split: if_splits)
      have "nblocks < 2 ^ 32" using unsigned_less [of "bd_block_count dev", where ?'a = nat] by simp
      then have "unat (?block + 1) = off div bsz + 1" using ub ins(1) by (simp add: unat_word_ariths)
      then have "unat (?block + 1) * bsz = off div bsz * bsz + bsz" by simp
      also have "\<dots> = off + m" using m lt split by linarith
      finally show ?thesis by simp
    qed
    moreover have "unat (len - ?tc) = n - m" using tc r(4) by (simp add: unat_sub min.coboundedI2)
    moreover have "m \<le> n" by (simp add: m_def)
    ultimately have "rd_inv off n buf d (m, len - ?tc, ?block + 1, part off m (contents d) @ drop m buf)"
      by (simp add: rd_inv_def)
    then show ?thesis using nz rf g p um tc by (simp add: read_first_def)
  qed
qed

lemma rd_invE:
  assumes "rd_inv off n buf d (pos, len, block, b)" "off + n \<le> nblocks * bsz"
  shows "pos + unat len = n" "b = part off pos (contents d) @ drop pos buf"
    "0 < unat len \<Longrightarrow> unat block * bsz = off + pos"
    "k * bsz \<le> unat len \<Longrightarrow> 0 < k \<Longrightarrow> unat block + k \<le> nblocks"
proof -
  show *: "pos + unat len = n" "b = part off pos (contents d) @ drop pos buf"
    "0 < unat len \<Longrightarrow> unat block * bsz = off + pos" using assms(1) by (auto simp: rd_inv_def)
  assume k: "k * bsz \<le> unat len" "0 < k"
  then have "0 < unat len" using bsz_pos(1) by (metis less_le_trans mult_pos_pos)
  then have "(unat block + k) * bsz \<le> nblocks * bsz" using *(1,3) k(1) assms(2) by (simp add: add_mult_distrib)
  then show "unat block + k \<le> nblocks" using bsz_pos(1) by simp
qed

text \<open>A transfer of \<open>k\<close> blocks moves the state on.\<close>

lemma rd_inv_step:
  assumes "rd_inv off n buf d (pos, len, block, b)" "off + n \<le> nblocks * bsz" "k * bsz \<le> unat len"
    and "unat len' = unat len - k * bsz" "unat block' = unat block + k \<or> k * bsz = unat len"
  shows "rd_inv off n buf d (pos + k * bsz, len', block', part off (pos + k * bsz) (contents d) @ drop (pos + k * bsz) buf)"
proof -
  note e = rd_invE [OF assms(1,2)]
  have "len' = 0 \<or> unat block' * bsz = off + (pos + k * bsz)"
  proof (cases "unat len' = 0")
    case False
    then have "unat block' = unat block + k" "0 < unat len" using assms(4,5) by auto
    then show ?thesis using e(3) by (simp add: add_mult_distrib)
  qed (simp add: unat_eq_zero)
  then show ?thesis using e(1) assms(3,4) by (simp add: rd_inv_def)
qed

lemma next_block:
  fixes block :: u32
  assumes "unat block + k \<le> nblocks"
  shows "unat (block + of_nat k) = unat block + k"
proof -
  have "nblocks < 2 ^ 32" using unsigned_less [of "bd_block_count dev", where ?'a = nat] by simp
  then show ?thesis using assms by (simp add: unat_word_ariths unat_of_nat)
qed

lemma read_middle_aligned_ok:
  assumes d: "ok d" and r: "off + n \<le> nblocks * bsz" "n \<le> length buf"
  shows "rd_inv off n buf d st \<Longrightarrow> k = unat (fst (snd st)) div bsz \<Longrightarrow>
    \<exists>err st'. read_middle_aligned k dev d st = Some (err, st') \<and> 0 \<le> err \<and> rd_inv off n buf d st' \<and> unat (fst (snd st')) < bsz"
proof (induction k arbitrary: st)
  case 0
  then show ?case using bsz_pos(1) by (simp add: div_eq_0_iff)
next
  case (Suc k)
  obtain pos len block b where st: "st = (pos, len, block, b)" by (metis prod_cases4)
  note inv = Suc.prems(1) [unfolded st]
  note e = rd_invE [OF inv r(1)]
  have le: "bsz \<le> unat len" using Suc.prems(2) st bsz_pos(1) by (metis Suc_neq_Zero div_eq_0_iff fst_conv not_less snd_conv)
  have blk: "unat block + 1 \<le> nblocks" "unat block * bsz = off + pos" using e(3) e(4) [of 1] le bsz_pos(1) by auto
  have rf: "read_full dev block 1 d = Some (int bsz, part (off + pos) bsz (contents d))"
    using read_full_ok [OF d, of block 1] blk by simp
  have inr: "off + pos + bsz \<le> length (contents d)" using e(1) le r(1) contents_size [OF d] by simp
  have g: "get 0 bsz (part (off + pos) bsz (contents d)) = Some (part (off + pos) bsz (contents d))"
    using inr by (simp add: get_def)
  have p: "put pos (part (off + pos) bsz (contents d)) b = Some (part off (pos + bsz) (contents d) @ drop (pos + bsz) buf)"
    using copy_step [of off n d buf pos bsz] e(1,2) le r contents_size [OF d] by simp
  let ?st = "(pos + bsz, len - bd_block_size dev, block + 1, part off (pos + bsz) (contents d) @ drop (pos + bsz) buf)"
  have ul: "unat (len - bd_block_size dev) = unat len - bsz" using le by (simp add: unat_sub word_le_nat_alt)
  have "rd_inv off n buf d ?st"
    using rd_inv_step [OF inv r(1), of 1 "len - bd_block_size dev" "block + 1"] next_block [OF blk(1)] le ul by simp
  moreover have "k = unat (fst (snd ?st)) div bsz"
    using Suc.prems(2) st ul le bsz_pos(1) by (simp add: le_div_geq)
  ultimately show ?case using Suc.IH [of ?st] rf g p st by simp
qed

lemma num_blocks:
  assumes "unat len < 2 ^ 32"
  shows "unat (divpow2 (ucast len) (bd_block_shift dev)) = unat len div bsz"
proof -
  have "unat (ucast len :: u32) = unat len" using assms by (simp add: unsigned_ucast_eq take_bit_nat_eq_self)
  then show ?thesis by (simp add: unat_divpow2 size_pow2)
qed

lemma read_middle_ok:
  assumes d: "ok d" and r: "off + n \<le> nblocks * bsz" "n \<le> length buf" "n < 2 ^ 32" and inv: "rd_inv off n buf d st"
  shows "\<exists>err st'. read_middle dev addr d st = Some (err, st') \<and> 0 \<le> err \<and> rd_inv off n buf d st' \<and> unat (fst (snd st')) < bsz"
proof -
  obtain pos len block b where st: "st = (pos, len, block, b)" by (metis prod_cases4)
  note inv' = inv [unfolded st]
  note e = rd_invE [OF inv' r(1)]
  show ?thesis
  proof (cases "bd_flags dev AND BIO_FLAG_CACHE_ALIGNED_READS \<noteq> 0 \<and> \<not> IS_ALIGNED (addr + of_nat pos) CACHE_LINE")
    case True
    then show ?thesis using read_middle_aligned_ok [OF d r(1,2) inv' refl] st by (simp add: read_middle_def)
  next
    case False
    define k where "k = unat len div bsz"
    let ?nb = "divpow2 (ucast len) (bd_block_shift dev)"
    have nb: "unat ?nb = k" using num_blocks [of len] e(1) r(3) by (simp add: k_def)
    have kb: "k * bsz \<le> unat len" by (simp add: k_def)
    have blk: "0 < k \<Longrightarrow> unat block + k \<le> nblocks" "0 < k \<Longrightarrow> unat block * bsz = off + pos"
      using e(3) e(4) [OF kb] kb bsz_pos(1) by (auto simp: k_def div_greater_zero_iff)
    have cond: "unat block + unat ?nb \<le> nblocks \<or> ?nb = 0"
      using blk(1) nb by (cases "k = 0") (auto simp: unat_eq_zero)
    have rf: "read_full dev block ?nb d = Some (int (k * bsz), part (off + pos) (k * bsz) (contents d))"
      using read_full_ok [OF d cond] nb blk(2) by (cases "k = 0") auto
    have p: "put pos (part (off + pos) (k * bsz) (contents d)) b = Some (part off (pos + k * bsz) (contents d) @ drop (pos + k * bsz) buf)"
      using copy_step [of off n d buf pos "k * bsz"] e(1,2) kb r contents_size [OF d] by simp
    have w: "unat (word_of_int (int (k * bsz)) :: u64) = k * bsz"
      using kb unat_less64 [of len] by (simp add: unat_of_nat del: of_nat_mult)
    have ul: "unat (len - word_of_int (int (k * bsz))) = unat len - k * bsz"
      using w kb by (simp add: unat_sub word_le_nat_alt)
    have nbk: "?nb = of_nat k" by (simp add: nb [symmetric])
    have ub: "unat (block + ?nb) = unat block + k \<or> k * bsz = unat len"
      using next_block [of block k] blk(1) unfolding nbk by (cases "k = 0") auto
    let ?st = "(pos + k * bsz, len - word_of_int (int (k * bsz)), block + ?nb, part off (pos + k * bsz) (contents d) @ drop (pos + k * bsz) buf)"
    have "rd_inv off n buf d ?st" by (rule rd_inv_step [OF inv' r(1) kb ul ub])
    moreover have "unat len - k * bsz < bsz" using bsz_pos(1) by (simp add: k_def minus_div_mult_eq_mod)
    moreover define K where "K = k * bsz"
    note rf [folded K_def] p [folded K_def]
    then have "read_middle dev addr d st = Some (int K, (pos + K, len - word_of_int (int K), block + ?nb, part off (pos + K) (contents d) @ drop (pos + K) buf))"
      using False st by (auto simp: read_middle_def Let_def)
    ultimately show ?thesis using ul unfolding K_def by auto
  qed
qed

lemma read_last_ok:
  assumes d: "ok d" and r: "off + n \<le> nblocks * bsz" "n \<le> length buf" and inv: "rd_inv off n buf d st" "unat (fst (snd st)) < bsz"
  shows "\<exists>err len block. read_last dev d st = Some (err, (n, len, block, part off n (contents d) @ drop n buf)) \<and> 0 \<le> err"
proof -
  obtain pos len block b where st: "st = (pos, len, block, b)" by (metis prod_cases4)
  note inv' = inv(1) [unfolded st]
  note e = rd_invE [OF inv' r(1)]
  show ?thesis
  proof (cases "unat len = 0")
    case True
    then show ?thesis using e(1,2) st by (simp add: read_last_def unat_eq_zero)
  next
    case False
    have lt: "unat len < bsz" using inv(2) st by simp
    have blk: "unat block * bsz = off + pos" using e(3) False by simp
    have "unat block * bsz < nblocks * bsz" using blk e(1) False r(1) by simp
    then have b1: "unat block + 1 \<le> nblocks" by simp
    then have "(unat block + 1) * bsz \<le> nblocks * bsz" by (rule mult_le_mono1)
    then have inr: "off + pos + bsz \<le> length (contents d)" using blk contents_size [OF d] by simp
    have rf: "read_full dev block 1 d = Some (int bsz, part (off + pos) bsz (contents d))"
      using read_full_ok [OF d, of block 1] blk b1 by simp
    have g: "get 0 (unat len) (part (off + pos) bsz (contents d)) = Some (part (off + pos) (unat len) (contents d))"
      using get_eq [of 0 "unat len" "part (off + pos) bsz (contents d)"] lt inr part_part [of 0 "unat len" bsz "off + pos" "contents d"] by simp
    have p: "put pos (part (off + pos) (unat len) (contents d)) b = Some (part off n (contents d) @ drop n buf)"
      using copy_step [of off n d buf pos "unat len"] e(1,2) r contents_size [OF d] by simp
    have "0 < len" using False by (simp add: word_less_nat_alt)
    then show ?thesis using rf g p st e(1) by (simp add: read_last_def)
  qed
qed

lemma default_read_ok:
  assumes d: "ok d" and r: "unat offset + unat len \<le> nblocks * bsz" "0 < unat len" "unat len < 2 ^ 32" "unat len \<le> length buf"
  shows "bio_default_read dev addr offset len buf d
    = Some (int (unat len), part (unat offset) (unat len) (contents d) @ drop (unat len) buf)"
proof -
  let ?n = "unat len" and ?off = "unat offset"
  obtain e1 s1 where 1: "read_first dev offset d (0, len, ucast (offset div bd_block_size dev), buf) = Some (e1, s1)" "0 \<le> e1" "rd_inv ?off ?n buf d s1"
    using read_first_ok [OF d refl r(1,2) refl r(4)] by blast
  obtain e2 s2 where 2: "read_middle dev addr d s1 = Some (e2, s2)" "0 \<le> e2" "rd_inv ?off ?n buf d s2" "unat (fst (snd s2)) < bsz"
    using read_middle_ok [OF d r(1,4,3) 1(3)] by blast
  obtain e3 l b where 3: "read_last dev d s2 = Some (e3, (?n, l, b, part ?off ?n (contents d) @ drop ?n buf))" "0 \<le> e3"
    using read_last_ok [OF d r(1,4) 2(3,4)] by blast
  show ?thesis using 1(1,2) 2(1,2) 3 bsz_pos(3) by (simp add: bio_default_read_def and_then_def)
qed

end

end
