(* ===== verification/Bio_Write.thy ===== *)
theory Bio_Write
  imports Bio_Access
begin

text \<open>The default write of \<^verbatim>\<open>lib/bio/bio.c\<close> over any driver that keeps the contract.\<close>

lemma take_part: "take pos buf @ part pos m buf = take (pos + m) buf"
  by (simp add: part_def take_add)

lemma overwrite_step:
  assumes "off + pos + m \<le> length C" "pos + m \<le> length buf"
  shows "overwrite (off + pos) (part pos m buf) (overwrite off (take pos buf) C) = overwrite off (take (pos + m) buf) C"
proof -
  have l: "length (take pos buf) = pos" using assms(2) by simp
  show ?thesis
    using overwrite_overwrite [of off "take pos buf" "part pos m buf" C, unfolded l] assms take_part [of pos buf m] by simp
qed

context block_driver
begin

definition wr_inv :: "nat \<Rightarrow> nat \<Rightarrow> bytes \<Rightarrow> bytes \<Rightarrow> 'd wr_state \<Rightarrow> bool" where
  "wr_inv off n buf C = (\<lambda>(pos, len, block, d). pos + unat len = n \<and> ok d
     \<and> contents d = overwrite off (take pos buf) C \<and> (len = 0 \<or> unat block * bsz = off + pos))"

lemma wr_invE:
  assumes "wr_inv off n buf C (pos, len, block, d)" "off + n \<le> nblocks * bsz"
  shows "pos + unat len = n" "ok d" "contents d = overwrite off (take pos buf) C"
    "0 < unat len \<Longrightarrow> unat block * bsz = off + pos"
    "k * bsz \<le> unat len \<Longrightarrow> 0 < k \<Longrightarrow> unat block + k \<le> nblocks"
proof -
  show *: "pos + unat len = n" "ok d" "contents d = overwrite off (take pos buf) C"
    "0 < unat len \<Longrightarrow> unat block * bsz = off + pos" using assms(1) by (auto simp: wr_inv_def)
  assume k: "k * bsz \<le> unat len" "0 < k"
  then have "0 < unat len" using bsz_pos(1) by (metis less_le_trans mult_pos_pos)
  then have "(unat block + k) * bsz \<le> nblocks * bsz" using *(1,4) k(1) assms(2) by (simp add: add_mult_distrib)
  then show "unat block + k \<le> nblocks" using bsz_pos(1) by simp
qed

lemma wr_inv_step:
  assumes "wr_inv off n buf C (pos, len, block, d)" "off + n \<le> nblocks * bsz" "length C = nblocks * bsz" "n \<le> length buf"
    and "m \<le> unat len" "unat len' = unat len - m" "unat block' * bsz = off + pos + m \<or> m = unat len"
    and "ok d'" "contents d' = overwrite (off + pos) (part pos m buf) (contents d)"
  shows "wr_inv off n buf C (pos + m, len', block', d')"
proof -
  note e = wr_invE [OF assms(1,2)]
  have "contents d' = overwrite off (take (pos + m) buf) C"
    using overwrite_step [of off pos m C buf] assms(2-5,9) e(1,3) by simp
  moreover have "len' = 0 \<or> unat block' * bsz = off + (pos + m)"
    using assms(6,7) by (auto simp: unat_eq_zero add.assoc)
  ultimately show ?thesis using e(1) assms(5,6,8) by (simp add: wr_inv_def)
qed

lemma write_partial_ok:
  assumes d: "ok d" and b: "unat block + 1 \<le> nblocks" and p: "p + length bs \<le> bsz"
  shows "\<exists>d'. write_partial dev block p bs d = Some (int bsz, d') \<and> ok d' \<and> contents d' = overwrite (unat block * bsz + p) bs (contents d)"
proof -
  have "(unat block + 1) * bsz \<le> nblocks * bsz" using b by (rule mult_le_mono1)
  then have inr: "unat block * bsz + bsz \<le> length (contents d)" using contents_size [OF d] by simp
  let ?t = "part (unat block * bsz) bsz (contents d)"
  have rf: "read_full dev block 1 d = Some (int bsz, ?t)" using read_full_ok [OF d, of block 1] b by simp
  have pt: "put p bs ?t = Some (overwrite p bs ?t)" using inr p by (intro put_eq) simp
  have "length (overwrite p bs ?t) = unat (1 :: u32) * bsz" using inr p by simp
  then obtain d' where "write_full dev (overwrite p bs ?t) block 1 d = Some (int bsz, d')" "ok d'"
      "contents d' = overwrite (unat block * bsz) (overwrite p bs ?t) (contents d)"
    using write_full_ok [OF d, of block 1] b by auto
  then show ?thesis using rf pt overwrite_in_part [OF p inr] by (simp add: write_partial_def)
qed

lemma write_first_ok:
  assumes d: "ok d" and r: "unat offset = off" "off + n \<le> nblocks * bsz" "0 < n" "unat len = n" "n \<le> length buf"
  shows "\<exists>err st. write_first dev offset buf (0, len, ucast (offset div bd_block_size dev), d) = Some (err, st) \<and> 0 \<le> err
    \<and> wr_inv off n buf (contents d) st"
proof -
  let ?block = "ucast (offset div bd_block_size dev) :: u32"
  have off: "off < nblocks * bsz" using r by simp
  note ub = unat_block [OF off r(1)]
  note ins = block_inside [OF d off]
  have um: "unat (offset mod bd_block_size dev) = off mod bsz" using r(1) by (simp add: unat_mod_distrib)
  have split: "off div bsz * bsz + off mod bsz = off" by simp
  have start: "wr_inv off n buf (contents d) (0, len, ?block, d)" if "off mod bsz = 0"
    using that r ub split d by (simp add: wr_inv_def)
  show ?thesis
  proof (cases "off mod bsz = 0")
    case True
    then have "offset mod bd_block_size dev = 0" using um by (simp add: unat_eq_zero)
    then show ?thesis using start True by (simp add: write_first_def)
  next
    case False
    define m where "m = min (bsz - off mod bsz) n"
    let ?tc = "min (bd_block_size dev - offset mod bd_block_size dev) len"
    have lt: "off mod bsz < bsz" using bsz_pos by simp
    have "unat (bd_block_size dev - offset mod bd_block_size dev) = bsz - off mod bsz"
      using lt um by (simp add: unat_sub word_le_nat_alt)
    then have tc: "unat ?tc = m" using r(4) by (auto simp: m_def min_def word_le_nat_alt)
    have nz: "offset mod bd_block_size dev \<noteq> 0" using um False by (metis unat_0)
    have g: "get 0 m buf = Some (part 0 m buf)" using r(5) by (intro get_eq) (simp add: m_def)
    have ml: "m \<le> n" "off mod bsz + m \<le> bsz" using lt by (simp_all add: m_def)
    then have "off mod bsz + length (part 0 m buf) \<le> bsz" using r(5) by simp
    then obtain d' where w: "write_partial dev ?block (off mod bsz) (part 0 m buf) d = Some (int bsz, d')" "ok d'"
        "contents d' = overwrite off (part 0 m buf) (contents d)"
      using write_partial_ok [OF d, of ?block "off mod bsz" "part 0 m buf"] ub ins(1) split by auto
    have "len - ?tc = 0 \<or> unat (?block + 1) * bsz = off + m"
    proof (cases "m = n")
      case True
      then have "unat ?tc = unat len" using tc r(4) by simp
      then have "?tc = len" by (simp only: word_unat_eq_iff)
      then show ?thesis by simp
    next
      case mn: False
      then have m: "m = bsz - off mod bsz" by (simp add: m_def min_def split: if_splits)
      have "unat (?block + 1) = off div bsz + 1" using next_block [of ?block 1] ub ins(1) by simp
      then have "unat (?block + 1) * bsz = off div bsz * bsz + bsz" by simp
      also have "\<dots> = off + m" using m lt split by linarith
      finally show ?thesis by simp
    qed
    moreover have "unat (len - ?tc) = n - m" using tc r(4) by (simp add: unat_sub min.coboundedI2)
    moreover have "part 0 m buf = take m buf" by (simp add: part_def)
    ultimately have "wr_inv off n buf (contents d) (m, len - ?tc, ?block + 1, d')"
      using w(2,3) ml(1) by (simp add: wr_inv_def)
    then show ?thesis using nz w(1) g um tc by (simp add: write_first_def Let_def)
  qed
qed

lemma write_middle_aligned_ok:
  assumes r: "off + n \<le> nblocks * bsz" "n \<le> length buf" "length C = nblocks * bsz"
  shows "wr_inv off n buf C st \<Longrightarrow> k = unat (fst (snd st)) div bsz \<Longrightarrow>
    \<exists>err st'. write_middle_aligned k dev buf st = Some (err, st') \<and> 0 \<le> err \<and> wr_inv off n buf C st' \<and> unat (fst (snd st')) < bsz"
proof (induction k arbitrary: st)
  case 0
  then show ?case using bsz_pos(1) by (simp add: div_eq_0_iff)
next
  case (Suc k)
  obtain pos len block d where st: "st = (pos, len, block, d)" by (metis prod_cases4)
  note inv = Suc.prems(1) [unfolded st]
  note e = wr_invE [OF inv r(1)]
  have le: "bsz \<le> unat len" using Suc.prems(2) st bsz_pos(1) by (metis Suc_neq_Zero div_eq_0_iff fst_conv not_less snd_conv)
  have blk: "unat block + 1 \<le> nblocks" "unat block * bsz = off + pos" using e(4) e(5) [of 1] le bsz_pos(1) by auto
  have g: "get pos bsz buf = Some (part pos bsz buf)" using e(1) le r(2) by (intro get_eq) simp
  have "length (part pos bsz buf) = unat (1 :: u32) * bsz" using e(1) le r(2) by simp
  then obtain d' where w: "write_full dev (part pos bsz buf) block 1 d = Some (int bsz, d')" "ok d'"
      "contents d' = overwrite (off + pos) (part pos bsz buf) (contents d)"
    using write_full_ok [OF e(2), of block 1 "part pos bsz buf"] blk by auto
  let ?st = "(pos + bsz, len - bd_block_size dev, block + 1, d')"
  have ul: "unat (len - bd_block_size dev) = unat len - bsz" using le by (simp add: unat_sub word_le_nat_alt)
  have "unat (block + 1) * bsz = off + pos + bsz" using next_block [OF blk(1)] blk(2) by simp
  then have "wr_inv off n buf C ?st"
    using wr_inv_step [OF inv r(1,3,2) le ul] w(2,3) by blast
  moreover have "k = unat (fst (snd ?st)) div bsz"
    using Suc.prems(2) st ul le bsz_pos(1) by (simp add: le_div_geq)
  ultimately show ?case using Suc.IH [of ?st] w(1) g st by simp
qed

lemma write_middle_ok:
  assumes r: "off + n \<le> nblocks * bsz" "n \<le> length buf" "n < 2 ^ 32" "length C = nblocks * bsz" and inv: "wr_inv off n buf C st"
  shows "\<exists>err st'. write_middle dev addr buf st = Some (err, st') \<and> 0 \<le> err \<and> wr_inv off n buf C st' \<and> unat (fst (snd st')) < bsz"
proof -
  obtain pos len block d where st: "st = (pos, len, block, d)" by (metis prod_cases4)
  note inv' = inv [unfolded st]
  note e = wr_invE [OF inv' r(1)]
  show ?thesis
  proof (cases "bd_flags dev AND BIO_FLAG_CACHE_ALIGNED_WRITES \<noteq> 0 \<and> \<not> IS_ALIGNED (addr + of_nat pos) CACHE_LINE")
    case True
    then show ?thesis using write_middle_aligned_ok [OF r(1,2,4) inv' refl] st by (simp add: write_middle_def)
  next
    case False
    define k where "k = unat len div bsz"
    define K where "K = k * bsz"
    let ?nb = "divpow2 (ucast len) (bd_block_shift dev)"
    have nb: "unat ?nb = k" using num_blocks [of len] e(1) r(3) by (simp add: k_def)
    have kb: "K \<le> unat len" by (simp add: K_def k_def)
    have blk: "0 < k \<Longrightarrow> unat block + k \<le> nblocks" "0 < k \<Longrightarrow> unat block * bsz = off + pos"
      using e(4) e(5) [of k] kb bsz_pos(1) by (auto simp: K_def k_def div_greater_zero_iff)
    have cond: "unat block + unat ?nb \<le> nblocks \<or> ?nb = 0"
      using blk(1) nb by (cases "k = 0") (auto simp: unat_eq_zero)
    have g: "get pos K buf = Some (part pos K buf)" using e(1) kb r(2) by (intro get_eq) simp
    have "length (part pos K buf) = unat ?nb * bsz" using e(1) kb r(2) nb by (simp add: K_def)
    then obtain d' where w: "write_full dev (part pos K buf) block ?nb d = Some (int K, d')" "ok d'"
        "contents d' = overwrite (unat block * bsz) (part pos K buf) (contents d)"
      using write_full_ok [OF e(2) cond] nb unfolding K_def by blast
    have w3: "contents d' = overwrite (off + pos) (part pos K buf) (contents d)"
      using w(3) blk(2) by (cases "k = 0") (auto simp: K_def)
    have wi: "word_of_int (int K) = (ucast ?nb * bd_block_size dev :: u64)"
      by (simp add: K_def nb [symmetric])
    have "unat (word_of_int (int K) :: u64) = K"
      using kb unat_less64 [of len] by (simp add: unat_of_nat)
    then have ul: "unat (len - word_of_int (int K)) = unat len - K"
      using kb by (simp add: unat_sub word_le_nat_alt)
    have nbk: "?nb = of_nat k" by (simp add: nb [symmetric])
    have ub: "unat (block + ?nb) * bsz = off + pos + K \<or> K = unat len"
    proof (cases "k = 0")
      case True
      then show ?thesis using nbk e(4) by (cases "unat len = 0") (auto simp: K_def)
    next
      case False
      then show ?thesis using next_block [of block k] blk unfolding nbk K_def by (simp add: add_mult_distrib)
    qed
    have "wr_inv off n buf C (pos + K, len - word_of_int (int K), block + ?nb, d')"
      by (rule wr_inv_step [OF inv' r(1,4,2) kb ul ub w(2) w3])
    moreover have "unat len - K < bsz" using bsz_pos(1) by (simp add: K_def k_def minus_div_mult_eq_mod)
    moreover have "write_middle dev addr buf st = Some (int K, (pos + K, len - word_of_int (int K), block + ?nb, d'))"
    proof -
      have nbK: "unat ?nb * bsz = K" by (simp add: K_def nb)
      show ?thesis using False g w(1) wi st by (auto simp: write_middle_def Let_def nbK)
    qed
    ultimately show ?thesis using ul by auto
  qed
qed

lemma write_last_ok:
  assumes r: "off + n \<le> nblocks * bsz" "n \<le> length buf" "length C = nblocks * bsz" and inv: "wr_inv off n buf C st" "unat (fst (snd st)) < bsz"
  shows "\<exists>err len block d'. write_last dev buf st = Some (err, (n, len, block, d')) \<and> 0 \<le> err \<and> ok d' \<and> contents d' = overwrite off (take n buf) C"
proof -
  obtain pos len block d where st: "st = (pos, len, block, d)" by (metis prod_cases4)
  note inv' = inv(1) [unfolded st]
  note e = wr_invE [OF inv' r(1)]
  show ?thesis
  proof (cases "unat len = 0")
    case True
    then show ?thesis using e(1-3) st by (simp add: write_last_def unat_eq_zero)
  next
    case False
    have lt: "unat len < bsz" using inv(2) st by simp
    have blk: "unat block * bsz = off + pos" using e(4) False by simp
    have "unat block * bsz < nblocks * bsz" using blk e(1) False r(1) by simp
    then have b1: "unat block + 1 \<le> nblocks" by simp
    have g: "get pos (unat len) buf = Some (part pos (unat len) buf)" using e(1) r(2) by (intro get_eq) simp
    have "0 + length (part pos (unat len) buf) \<le> bsz" using e(1) r(2) lt by simp
    then obtain d' where w: "write_partial dev block 0 (part pos (unat len) buf) d = Some (int bsz, d')" "ok d'"
        "contents d' = overwrite (off + pos) (part pos (unat len) buf) (contents d)"
      using write_partial_ok [OF e(2) b1, of 0] blk by auto
    have "wr_inv off n buf C (pos + unat len, 0, block, d')"
      using wr_inv_step [OF inv' r(1,3,2), of "unat len" 0 block d'] w(2,3) by simp
    then have "contents d' = overwrite off (take n buf) C" using e(1) by (simp add: wr_inv_def)
    moreover have "0 < len" using False by (simp add: word_less_nat_alt)
    ultimately show ?thesis using g w(1,2) st e(1) by (simp add: write_last_def)
  qed
qed

lemma default_write_ok:
  assumes d: "ok d" and r: "unat offset + unat len \<le> nblocks * bsz" "0 < unat len" "unat len < 2 ^ 32" "unat len \<le> length buf"
  shows "\<exists>d'. bio_default_write dev addr buf offset len d = Some (int (unat len), d') \<and> ok d'
    \<and> contents d' = overwrite (unat offset) (take (unat len) buf) (contents d)"
proof -
  let ?n = "unat len" and ?off = "unat offset"
  note c = contents_size [OF d]
  obtain e1 s1 where 1: "write_first dev offset buf (0, len, ucast (offset div bd_block_size dev), d) = Some (e1, s1)" "0 \<le> e1"
      "wr_inv ?off ?n buf (contents d) s1"
    using write_first_ok [OF d refl r(1,2) refl r(4)] by blast
  obtain e2 s2 where 2: "write_middle dev addr buf s1 = Some (e2, s2)" "0 \<le> e2" "wr_inv ?off ?n buf (contents d) s2" "unat (fst (snd s2)) < bsz"
    using write_middle_ok [OF r(1,4,3) c 1(3)] by blast
  obtain e3 l b d' where 3: "write_last dev buf s2 = Some (e3, (?n, l, b, d'))" "0 \<le> e3" "ok d'" "contents d' = overwrite ?off (take ?n buf) (contents d)"
    using write_last_ok [OF r(1,4) c 2(3,4)] by blast
  show ?thesis using 1(1,2) 2(1,2) 3 bsz_pos(3) by (simp add: bio_default_write_def and_then_def)
qed

end

end
