(* ===== verification/Bio_Device.thy ===== *)
theory Bio_Device
  imports Bio_Write
begin

text \<open>
  The contract of a device that is accessed in bytes, what \<^verbatim>\<open>bio_read\<close>, \<^verbatim>\<open>bio_write\<close> and
  the default erase do on such a device, that the default hooks turn a driver that keeps the block contract
  into one, and that memory devices keep the block contract.
\<close>

lemma sint_unat_small: "unat w < 2 ^ 63 \<Longrightarrow> sint w = int (unat w)" for w :: u64
proof -
  assume "unat w < 2 ^ 63"
  then have "int (unat w) < int (2 ^ 63)" by (simp only: of_nat_less_iff)
  then have u: "uint w < 2 ^ 63" by simp
  have "signed_take_bit 63 (uint w) = uint w"
    by (rule signed_take_bit_int_eq_self) (use u uint_ge_0 [of w] in linarith)+
  then show ?thesis by (simp add: sint_uint)
qed

lemma uint_unat_iff: "uint a \<le> uint b \<longleftrightarrow> unat a \<le> unat b" "uint a < uint b \<longleftrightarrow> unat a < unat b" for a b :: u64
  by (simp_all flip: word_le_def word_less_def word_le_nat_alt word_less_nat_alt)

lemma part_all: "length xs = n \<Longrightarrow> part 0 n xs = xs"
  by (simp add: part_def)

section \<open>Devices accessed in bytes\<close>

locale byte_device =
  fixes dev :: "'d bdev" and contents :: "'d \<Rightarrow> bytes" and ok :: "'d \<Rightarrow> bool"
  assumes live: "0 < bd_ref dev"
    and total: "unat (bd_total_size dev) < 2 ^ 62"
    and contents_total: "ok d \<Longrightarrow> length (contents d) = unat (bd_total_size dev)"
    and read_bytes: "ok d \<Longrightarrow> unat offset + unat len \<le> unat (bd_total_size dev) \<Longrightarrow> 0 < unat len \<Longrightarrow> unat len < 2 ^ 32 \<Longrightarrow>
      unat len \<le> length buf \<Longrightarrow>
      bd_read dev addr offset len buf d = Some (int (unat len), part (unat offset) (unat len) (contents d) @ drop (unat len) buf)"
    and write_bytes: "ok d \<Longrightarrow> unat offset + unat len \<le> unat (bd_total_size dev) \<Longrightarrow> 0 < unat len \<Longrightarrow> unat len < 2 ^ 32 \<Longrightarrow>
      unat len \<le> length buf \<Longrightarrow>
      \<exists>d'. bd_write dev addr buf offset len d = Some (int (unat len), d') \<and> ok d'
        \<and> contents d' = overwrite (unat offset) (take (unat len) buf) (contents d)"
begin

abbreviation size_of :: nat where "size_of \<equiv> unat (bd_total_size dev)"

lemma trim_range:
  assumes "unat offset < 2 ^ 63" "unat len < 2 ^ 32"
  shows "unat (bio_trim_range dev offset len) = min (unat len) (size_of - unat offset)"
proof -
  have so: "sint offset = int (unat offset)" "sint (bd_total_size dev) = int size_of"
    using assms(1) total by (simp_all add: sint_unat_small)
  show ?thesis
  proof (cases "size_of \<le> unat offset \<or> len = 0")
    case True
    then show ?thesis using so by (auto simp: bio_trim_range_def uint_unat_iff)
  next
    case False
    then have lt: "unat offset + unat len < 2 ^ 63" using total assms(2) by simp
    then have s: "unat (offset + len) = unat offset + unat len" by (simp add: unat_word_ariths)
    then have "sint (offset + len) = int (unat offset + unat len)" using lt sint_unat_small [of "offset + len"] by simp
    then have "bio_trim_range dev offset len = (if size_of < unat offset + unat len then bd_total_size dev - offset else len)"
      using so False by (auto simp: bio_trim_range_def uint_unat_iff simp del: of_nat_unat)
    then show ?thesis using False by (simp add: unat_sub word_le_nat_alt min_def) linarith
  qed
qed

lemma bio_read_ok:
  assumes d: "ok d" and r: "unat offset < 2 ^ 63" "unat len < 2 ^ 32"
    and n: "n = min (unat len) (size_of - unat offset)" "n \<le> length buf"
  shows "bio_read dev addr offset len buf d = Some (int n, part (unat offset) n (contents d) @ drop n buf)"
proof -
  let ?t = "bio_trim_range dev offset len"
  have t: "unat ?t = n" using trim_range [OF r] n(1) by simp
  show ?thesis
  proof (cases "n = 0")
    case True
    then show ?thesis using t live by (simp add: bio_read_def unat_eq_zero)
  next
    case False
    then have "?t \<noteq> 0" using t by (metis unat_0)
    moreover have "unat offset + unat ?t \<le> size_of" "unat ?t < 2 ^ 32" using t n(1) False r(2) by auto
    ultimately show ?thesis using read_bytes [OF d, of offset ?t buf addr] t live n(2) False by (simp add: bio_read_def Let_def)
  qed
qed

lemma bio_write_ok:
  assumes d: "ok d" and r: "unat offset < 2 ^ 63" "unat len < 2 ^ 32"
    and n: "n = min (unat len) (size_of - unat offset)" "n \<le> length buf"
  shows "\<exists>d'. bio_write dev addr buf offset len d = Some (int n, d') \<and> ok d' \<and> contents d' = overwrite (unat offset) (take n buf) (contents d)"
proof -
  let ?t = "bio_trim_range dev offset len"
  have t: "unat ?t = n" using trim_range [OF r] n(1) by simp
  show ?thesis
  proof (cases "n = 0")
    case True
    then show ?thesis using t live d by (simp add: bio_write_def unat_eq_zero)
  next
    case False
    then have "?t \<noteq> 0" using t by (metis unat_0)
    moreover have "unat offset + unat ?t \<le> size_of" "unat ?t < 2 ^ 32" using t n(1) False r(2) by auto
    ultimately show ?thesis using write_bytes [OF d, of offset ?t buf addr] t live n(2) False by (simp add: bio_write_def Let_def)
  qed
qed

text \<open>The default erase writes the erase byte over the whole range.\<close>

lemma erase_loop_ok:
  assumes "ok d" "unat offset + unat len \<le> size_of" "unat (bd_block_size dev) = b" "0 < b" "b < 2 ^ 32" "length ebuf = b"
    and "ebuf = replicate b e"
  shows "\<exists>d'. erase_loop dev addr ebuf er len offset d = Some (er + int (unat len), d') \<and> ok d'
    \<and> contents d' = overwrite (unat offset) (replicate (unat len) e) (contents d)"
  using assms(1,2)
proof (induction "unat len" arbitrary: len offset er d rule: less_induct)
  case less
  show ?case
  proof (cases "len = 0")
    case True
    then show ?thesis using less.prems(1) by (subst erase_loop.simps) simp
  next
    case False
    define n where "n = min (unat len) b"
    let ?t = "min len (bd_block_size dev)"
    have t: "unat ?t = n" using assms(3) by (auto simp: n_def min_def word_le_nat_alt)
    have n: "0 < n" "n \<le> unat len" "n \<le> b" using False assms(4) by (auto simp: n_def unat_gt_0)
    have nm: "n = min (unat ?t) (size_of - unat offset)" "n \<le> length ebuf"
      unfolding t using n less.prems(2) assms(6) by (simp_all add: min_def)
    have "unat offset < 2 ^ 63" "unat ?t < 2 ^ 32" unfolding t using n less.prems(2) total assms(5) by simp_all
    then obtain d1 where w: "bio_write dev addr ebuf offset ?t d = Some (int n, d1)" "ok d1"
        "contents d1 = overwrite (unat offset) (take n ebuf) (contents d)"
      using bio_write_ok [OF less.prems(1) _ _ nm, of addr] by blast
    have wi: "word_of_int (int n) = ?t" unfolding t [symmetric] by simp
    have ul: "unat (len - ?t) = unat len - n" using t by (simp add: unat_sub)
    have uo: "unat (offset + ?t) = unat offset + n"
      using t n less.prems(2) total unat_less64 [of "bd_total_size dev"] by (simp add: unat_word_ariths)
    obtain d' where i: "erase_loop dev addr ebuf (er + int n) (len - ?t) (offset + ?t) d1 = Some (er + int n + int (unat len - n), d')" "ok d'"
        "contents d' = overwrite (unat offset + n) (replicate (unat len - n) e) (contents d1)"
    proof -
      have "unat (len - ?t) < unat len" "unat (offset + ?t) + unat (len - ?t) \<le> size_of"
        unfolding ul uo using n less.prems(2) by simp_all
      from less.hyps [OF this(1) w(2) this(2), of "er + int n"] show thesis
        using that unfolding ul uo by blast
    qed
    have "take n ebuf = replicate n e" using assms(6,7) n(3) by (simp add: min_def)
    then have "contents d' = overwrite (unat offset) (replicate n e @ replicate (unat len - n) e) (contents d)"
      using i(3) w(3) overwrite_overwrite [of "unat offset" "replicate n e" "replicate (unat len - n) e" "contents d"]
        contents_total [OF less.prems(1)] n less.prems(2) by simp
    then have "contents d' = overwrite (unat offset) (replicate (unat len) e) (contents d)"
      using n(2) by (simp flip: replicate_add)
    moreover have "erase_loop dev addr ebuf er len offset d = erase_loop dev addr ebuf (er + int n) (len - ?t) (offset + ?t) d1"
      using False w(1) wi by (subst erase_loop.simps) (simp add: word_neq_0_conv Let_def)
    ultimately show ?thesis using i n(2) by simp
  qed
qed

end

section \<open>The default hooks\<close>

sublocale block_driver \<subseteq> deflt: byte_device "default_hooks a dev" contents ok for a
proof
  have f: "bd_ref (default_hooks a dev) = bd_ref dev" "bd_total_size (default_hooks a dev) = bd_total_size dev"
    "bd_read (default_hooks a dev) = bio_default_read dev" "bd_write (default_hooks a dev) = bio_default_write dev"
    by (simp_all add: default_hooks_def Let_def)
  show "0 < bd_ref (default_hooks a dev)" using live f by simp
  show "unat (bd_total_size (default_hooks a dev)) < 2 ^ 62" using total_size f by simp
  show "length (contents d) = unat (bd_total_size (default_hooks a dev))" if "ok d" for d
    using contents_size [OF that] total_size f by simp
  show "bd_read (default_hooks a dev) addr offset len buf d
      = Some (int (unat len), part (unat offset) (unat len) (contents d) @ drop (unat len) buf)"
    if "ok d" "unat offset + unat len \<le> unat (bd_total_size (default_hooks a dev))" "0 < unat len" "unat len < 2 ^ 32" "unat len \<le> length buf"
    for d offset len buf addr
    using default_read_ok [of d offset len buf addr] that total_size f by simp
  show "\<exists>d'. bd_write (default_hooks a dev) addr buf offset len d = Some (int (unat len), d') \<and> ok d'
        \<and> contents d' = overwrite (unat offset) (take (unat len) buf) (contents d)"
    if "ok d" "unat offset + unat len \<le> unat (bd_total_size (default_hooks a dev))" "0 < unat len" "unat len < 2 ^ 32" "unat len \<le> length buf"
    for d offset len buf addr
    using default_write_ok [of d offset len buf addr] that total_size f by simp
qed

context block_driver
begin

lemma default_byte_device: "byte_device (default_hooks a dev) contents ok"
  by (rule deflt.byte_device_axioms)

end

section \<open>Memory devices\<close>

text \<open>The device that \<^verbatim>\<open>create_membdev\<close> registers for \<open>cnt\<close> blocks.\<close>

definition mem_dev :: "string \<Rightarrow> bnum_t \<Rightarrow> u64 \<Rightarrow> bytes bdev \<Rightarrow> bytes bdev" where
  "mem_dev name cnt addr base =
     (let dev = base\<lparr>bd_name := name, bd_block_size := 512, bd_block_count := cnt, bd_block_shift := 9,
        bd_total_size := push_bit 9 (ucast cnt), bd_geometry := [], bd_erase_byte := 0, bd_erase_size := 0,
        bd_flags := 0, bd_read := mem_bdev_read, bd_read_block := mem_bdev_read_block,
        bd_write := mem_bdev_write, bd_write_block := mem_bdev_write_block, bd_ref := 1\<rparr>
      in dev\<lparr>bd_erase := bio_default_erase dev addr\<rparr>)"

lemma log2_512: "log2_uint 512 = 9"
  using log2_uint_valpow2 [of 9] by (simp add: valpow2_def)

lemma ispow2_512: "ispow2 512"
  by (simp add: ispow2_def)

lemma create_membdev_dev:
  "\<exists>s'. create_membdev name len addr p s = Some (0, s') \<and> bdevs s' = bdevs s @ [p]
     \<and> devs s' p = mem_dev name (ucast (len div 512)) addr (devs s p)"
  by (rule exI [where x = "bio_register_device p (s\<lparr>devs := (devs s)(p := (mem_dev name (ucast (len div 512)) addr (devs s p))\<lparr>bd_ref := 0\<rparr>)\<rparr>)"])
    (simp add: create_membdev_def bio_initialize_bdev_def bio_register_device_def bdev_inc_ref_def mem_dev_def
      log2_512 ispow2_512 lk_defs Let_def)

lemma mem_products:
  fixes block cnt n :: u32
  assumes "unat block + unat cnt \<le> unat n" "unat n * 512 < 2 ^ 32"
  shows "unat (block * BLOCKSIZE) = unat block * 512" "unat (cnt * BLOCKSIZE) = unat cnt * 512"
proof -
  have "unat block * 512 < 2 ^ 32" "unat cnt * 512 < 2 ^ 32" using assms by linarith+
  then show "unat (block * BLOCKSIZE) = unat block * 512" "unat (cnt * BLOCKSIZE) = unat cnt * 512"
    by (simp_all add: unat_word_ariths lk_defs)
qed

lemma mem_total: "unat cnt * 512 < 2 ^ 32 \<Longrightarrow> unat (push_bit 9 (ucast cnt) :: u64) = unat cnt * 512" for cnt :: u32
  by (simp add: unsigned_push_bit_eq push_bit_nat_def take_bit_nat_eq_self unsigned_ucast_eq)

text \<open>A memory device of less than 4 GB keeps the block contract.\<close>

lemma mem_block_driver:
  assumes n: "unat cnt * 512 < 2 ^ 32"
  shows "block_driver (mem_dev name cnt addr base) (\<lambda>m. m) (\<lambda>m. length m = unat cnt * 512)"
proof
  let ?dev = "mem_dev name cnt addr base"
  have f: "bd_ref ?dev = 1" "bd_block_size ?dev = 512" "bd_block_shift ?dev = 9" "bd_block_count ?dev = cnt"
    "bd_total_size ?dev = push_bit 9 (ucast cnt)" "bd_read_block ?dev = mem_bdev_read_block" "bd_write_block ?dev = mem_bdev_write_block"
    by (simp_all add: mem_dev_def Let_def)
  show "0 < bd_ref ?dev" "unat (bd_block_size ?dev) = 2 ^ bd_block_shift ?dev" "bd_block_shift ?dev < 32"
    "unat (bd_block_count ?dev) * unat (bd_block_size ?dev) < 2 ^ 62" using f n by simp_all
  show "unat (bd_total_size ?dev) = unat (bd_block_count ?dev) * unat (bd_block_size ?dev)" using f mem_total [OF n] by simp
  show "length d = unat (bd_block_count ?dev) * unat (bd_block_size ?dev)" if "length d = unat cnt * 512" for d :: bytes
    using that f by simp
  show "bd_read_block ?dev block k d = Some (int (unat k * unat (bd_block_size ?dev)),
      part (unat block * unat (bd_block_size ?dev)) (unat k * unat (bd_block_size ?dev)) d)"
    if "length d = unat cnt * 512" "0 < unat k" "unat block + unat k \<le> unat (bd_block_count ?dev)" for d k block
  proof -
    have le: "unat block + unat k \<le> unat cnt" using that(3) f by simp
    then have "(unat block + unat k) * 512 \<le> length d" using that(1) by simp
    then show ?thesis using mem_products [OF le n] f get_eq [of "unat block * 512" "unat k * 512" d]
      by (simp add: mem_bdev_read_block_def add_mult_distrib)
  qed
  show "\<exists>d'. bd_write_block ?dev bs block k d = Some (int (unat k * unat (bd_block_size ?dev)), d') \<and> length d' = unat cnt * 512
      \<and> d' = overwrite (unat block * unat (bd_block_size ?dev)) bs d"
    if "length d = unat cnt * 512" "0 < unat k" "unat block + unat k \<le> unat (bd_block_count ?dev)"
      "length bs = unat k * unat (bd_block_size ?dev)" for d k block bs
  proof -
    have le: "unat block + unat k \<le> unat cnt" using that(3) f by simp
    then have "(unat block + unat k) * 512 \<le> length d" using that(1) by simp
    then have in_d: "unat block * 512 + length bs \<le> length d" using that(4) f by (simp add: add_mult_distrib)
    have "get 0 (unat k * 512) bs = Some bs" using that(4) f by (simp add: get_def)
    then show ?thesis using mem_products [OF le n] f put_eq [OF in_d] in_d that(1)
      by (simp add: mem_bdev_write_block_def)
  qed
qed

text \<open>The largest one that does, with its own byte access, and any smaller one with the default hooks.\<close>

lemma mem_byte_device:
  assumes n: "unat cnt * 512 < 2 ^ 32"
  shows "byte_device (mem_dev name cnt addr base) (\<lambda>m. m) (\<lambda>m. length m = unat cnt * 512)"
proof
  let ?dev = "mem_dev name cnt addr base"
  have f: "bd_ref ?dev = 1" "bd_total_size ?dev = push_bit 9 (ucast cnt)" "bd_read ?dev = mem_bdev_read" "bd_write ?dev = mem_bdev_write"
    by (simp_all add: mem_dev_def Let_def)
  note t = mem_total [OF n]
  show "0 < bd_ref ?dev" "unat (bd_total_size ?dev) < 2 ^ 62" using f t n by simp_all
  show "length d = unat (bd_total_size ?dev)" if "length d = unat cnt * 512" for d :: bytes using that f t by simp
  show "bd_read ?dev a offset len buf d = Some (int (unat len), part (unat offset) (unat len) d @ drop (unat len) buf)"
    if "length d = unat cnt * 512" "unat offset + unat len \<le> unat (bd_total_size ?dev)" "0 < unat len" "unat len < 2 ^ 32"
      "unat len \<le> length buf" for d offset len buf a
  proof -
    have i: "unat offset + unat len \<le> length d" using that(1,2) f t by simp
    have "put 0 (part (unat offset) (unat len) d) buf = Some (part (unat offset) (unat len) d @ drop (unat len) buf)"
      using i that(5) by (simp add: put_def)
    then show ?thesis using f get_eq [OF i] sint_unat_small [of len] that(4) by (simp add: mem_bdev_read_def)
  qed
  show "\<exists>d'. bd_write ?dev a buf offset len d = Some (int (unat len), d') \<and> length d' = unat cnt * 512
      \<and> d' = overwrite (unat offset) (take (unat len) buf) d"
    if "length d = unat cnt * 512" "unat offset + unat len \<le> unat (bd_total_size ?dev)" "0 < unat len" "unat len < 2 ^ 32"
      "unat len \<le> length buf" for d offset len buf a
  proof -
    have i: "unat offset + length (take (unat len) buf) \<le> length d" using that(1,2,5) f t by simp
    have "get 0 (unat len) buf = Some (take (unat len) buf)" using that(5) by (simp add: get_def)
    then show ?thesis using f put_eq [OF i] i sint_unat_small [of len] that(1,4) by (simp add: mem_bdev_write_def)
  qed
qed

definition base_dev :: "bytes bdev" where
  "base_dev = \<lparr>bd_ref = 0, bd_name = '''', bd_total_size = 0, bd_block_size = 0, bd_block_shift = 0, bd_block_count = 0,
     bd_max_blkcnt_per_cmd = 0, bd_geometry = [], bd_erase_byte = 0, bd_erase_size = 0, bd_flags = 0,
     bd_read = mem_bdev_read, bd_read_block = bio_default_read_block, bd_write = mem_bdev_write,
     bd_write_block = bio_default_write_block, bd_erase = (\<lambda>_ _ d. Some (0, d)),
     bd_read_native = (\<lambda>_ _ _. (0, [])), bd_write_native = (\<lambda>_ _ _ d. (0, d)), bd_erase_native = (\<lambda>_ _ d. (0, d))\<rparr>"

interpretation memb: block_driver "mem_dev ''ram'' 0x7FFFFF 0 base_dev" "\<lambda>m. m" "\<lambda>m. length m = unat (0x7FFFFF :: u32) * 512"
  by (rule mem_block_driver) simp

interpretation memd: byte_device "mem_dev ''ram'' 0x7FFFFF 0 base_dev" "\<lambda>m. m" "\<lambda>m. length m = unat (0x7FFFFF :: u32) * 512"
  by (rule mem_byte_device) simp

end
