(* ===== verification/Bcache_Inv.thy ===== *)
theory Bcache_Inv
  imports Lib_Bcache Bio_Device
begin

text \<open>
  The invariant of the block cache and the blocks that its clients see: a block is what its copy in the
  cache holds, if it has one, and what the medium holds otherwise. Finding, flushing and
  replacing blocks changes neither.
\<close>

section \<open>Blocks of the medium, and the cache as its clients see it\<close>

definition bpart :: "u64 \<Rightarrow> bytes \<Rightarrow> bnum_t \<Rightarrow> bytes" where
  "bpart n m k = part (unat k * unat n) (unat n) m"

definition fits :: "u64 \<Rightarrow> bytes \<Rightarrow> bnum_t \<Rightarrow> bool" where
  "fits n m k \<longleftrightarrow> (unat k + 1) * unat n \<le> length m"

definition lookup :: "'d bcache \<Rightarrow> bnum_t \<Rightarrow> nat option" where
  "lookup c k = find (\<lambda>b. blocknum (bc_blocks c b) = k) (lru_list c)"

text \<open>The bytes and the references of a block.\<close>

definition cache_abs :: "'d bcache \<Rightarrow> bytes \<Rightarrow> bnum_t \<Rightarrow> bytes \<times> int" where
  "cache_abs c m k =
     (case lookup c k of
        Some b \<Rightarrow> (blk_data (bc_blocks c b), ref_count (bc_blocks c b))
      | None \<Rightarrow> (bpart (bc_block_size c) m k, 0))"

text \<open>
  No block is in the lists twice and no block of the medium has two copies; every buffer has the size of
  a block; a copy of a block that is not dirty is equal to the block of the medium.
\<close>

definition cache_wf :: "'d bcache \<Rightarrow> bytes \<Rightarrow> bool" where
  "cache_wf c m \<longleftrightarrow> distinct (lru_list c @ free_list c)
     \<and> (\<forall>b \<in> set (lru_list c) \<union> set (free_list c).
          length (blk_data (bc_blocks c b)) = unat (bc_block_size c) \<and> 0 \<le> ref_count (bc_blocks c b))
     \<and> (\<forall>b \<in> set (free_list c). \<not> is_dirty (bc_blocks c b))
     \<and> inj_on (\<lambda>b. blocknum (bc_blocks c b)) (set (lru_list c))
     \<and> (\<forall>b \<in> set (lru_list c). fits (bc_block_size c) m (blocknum (bc_blocks c b))
          \<and> (is_dirty (bc_blocks c b) \<or> blk_data (bc_blocks c b) = bpart (bc_block_size c) m (blocknum (bc_blocks c b))))"

lemma cache_wfD:
  assumes "cache_wf c m"
  shows "distinct (lru_list c)" "distinct (free_list c)" "set (lru_list c) \<inter> set (free_list c) = {}"
    and "b \<in> set (lru_list c) \<union> set (free_list c) \<Longrightarrow> length (blk_data (bc_blocks c b)) = unat (bc_block_size c)"
    and "b \<in> set (lru_list c) \<union> set (free_list c) \<Longrightarrow> 0 \<le> ref_count (bc_blocks c b)"
    and "b \<in> set (free_list c) \<Longrightarrow> \<not> is_dirty (bc_blocks c b)"
    and "inj_on (\<lambda>b. blocknum (bc_blocks c b)) (set (lru_list c))"
    and "b \<in> set (lru_list c) \<Longrightarrow> fits (bc_block_size c) m (blocknum (bc_blocks c b))"
    and "b \<in> set (lru_list c) \<Longrightarrow> \<not> is_dirty (bc_blocks c b) \<Longrightarrow>
      blk_data (bc_blocks c b) = bpart (bc_block_size c) m (blocknum (bc_blocks c b))"
  using assms unfolding cache_wf_def by auto

lemma cache_wfI:
  assumes "distinct (lru_list c)" "distinct (free_list c)" "set (lru_list c) \<inter> set (free_list c) = {}"
    and "\<And>b. b \<in> set (lru_list c) \<union> set (free_list c) \<Longrightarrow> length (blk_data (bc_blocks c b)) = unat (bc_block_size c)"
    and "\<And>b. b \<in> set (lru_list c) \<union> set (free_list c) \<Longrightarrow> 0 \<le> ref_count (bc_blocks c b)"
    and "\<And>b. b \<in> set (free_list c) \<Longrightarrow> \<not> is_dirty (bc_blocks c b)"
    and "inj_on (\<lambda>b. blocknum (bc_blocks c b)) (set (lru_list c))"
    and "\<And>b. b \<in> set (lru_list c) \<Longrightarrow> fits (bc_block_size c) m (blocknum (bc_blocks c b))"
    and "\<And>b. b \<in> set (lru_list c) \<Longrightarrow> \<not> is_dirty (bc_blocks c b) \<Longrightarrow>
      blk_data (bc_blocks c b) = bpart (bc_block_size c) m (blocknum (bc_blocks c b))"
  shows "cache_wf c m"
  unfolding cache_wf_def distinct_append by (intro conjI ballI) (use assms in blast)+

lemma upd_block_fields [simp]:
  "bc_dev (upd_block b f c) = bc_dev c" "bc_block_size (upd_block b f c) = bc_block_size c"
  "bc_count (upd_block b f c) = bc_count c" "free_list (upd_block b f c) = free_list c" "lru_list (upd_block b f c) = lru_list c"
  "bc_blocks (upd_block b f c) = (bc_blocks c)(b := f (bc_blocks c b))"
  by (simp_all add: upd_block_def)

lemma upd_bstats_fields [simp]:
  "bc_dev (upd_bstats f c) = bc_dev c" "bc_block_size (upd_bstats f c) = bc_block_size c"
  "bc_count (upd_bstats f c) = bc_count c" "free_list (upd_bstats f c) = free_list c" "lru_list (upd_bstats f c) = lru_list c"
  "bc_blocks (upd_bstats f c) = bc_blocks c"
  by (simp_all add: upd_bstats_def)

lemma upd_bstats_same [simp]:
  "cache_wf (upd_bstats f c) m = cache_wf c m" "cache_abs (upd_bstats f c) m = cache_abs c m" "lookup (upd_bstats f c) = lookup c"
  by (auto simp: cache_wf_def cache_abs_def lookup_def fun_eq_iff split: option.splits)

lemma lookup_Some: "lookup c k = Some b \<Longrightarrow> b \<in> set (lru_list c) \<and> blocknum (bc_blocks c b) = k"
  unfolding lookup_def find_Some_iff by (auto simp: in_set_conv_nth)

lemma lookup_None: "lookup c k = None \<longleftrightarrow> (\<forall>b \<in> set (lru_list c). blocknum (bc_blocks c b) \<noteq> k)"
  by (auto simp: lookup_def find_None_iff)

lemma lookup_in:
  assumes "inj_on (\<lambda>b. blocknum (bc_blocks c b)) (set (lru_list c))" "b \<in> set (lru_list c)" "blocknum (bc_blocks c b) = k"
  shows "lookup c k = Some b"
proof -
  obtain b' where "lookup c k = Some b'" using assms(2,3) lookup_None [of c k] by (cases "lookup c k") auto
  then show ?thesis using lookup_Some [of c k b'] assms by (auto simp: inj_on_def)
qed

lemma abs_in: "cache_wf c m \<Longrightarrow> b \<in> set (lru_list c) \<Longrightarrow> blocknum (bc_blocks c b) = k \<Longrightarrow>
    cache_abs c m k = (blk_data (bc_blocks c b), ref_count (bc_blocks c b))"
  using lookup_in [OF cache_wfD(7), of c m b k] by (simp add: cache_abs_def)

lemma abs_out: "\<forall>b \<in> set (lru_list c). blocknum (bc_blocks c b) \<noteq> k \<Longrightarrow> cache_abs c m k = (bpart (bc_block_size c) m k, 0)"
  by (simp add: cache_abs_def lookup_None [THEN iffD2])

text \<open>When two caches show the same blocks.\<close>

lemma abs_eqI:
  assumes "cache_wf c m" "cache_wf c' m'" "set (lru_list c') = set (lru_list c)" "bc_block_size c' = bc_block_size c"
    and "\<And>b. b \<in> set (lru_list c) \<Longrightarrow> blocknum (bc_blocks c' b) = blocknum (bc_blocks c b)
      \<and> blk_data (bc_blocks c' b) = blk_data (bc_blocks c b) \<and> ref_count (bc_blocks c' b) = ref_count (bc_blocks c b)"
    and "(\<forall>b \<in> set (lru_list c). blocknum (bc_blocks c b) \<noteq> k) \<Longrightarrow> bpart (bc_block_size c) m' k = bpart (bc_block_size c) m k"
  shows "cache_abs c' m' k = cache_abs c m k"
proof (cases "\<exists>b \<in> set (lru_list c). blocknum (bc_blocks c b) = k")
  case True
  then obtain b where "b \<in> set (lru_list c)" "blocknum (bc_blocks c b) = k" by blast
  then show ?thesis using abs_in [OF assms(1), of b k] abs_in [OF assms(2), of b k] assms(3,5) by simp
next
  case False
  then have "\<forall>b \<in> set (lru_list c'). blocknum (bc_blocks c' b) \<noteq> k" using assms(3,5) by auto
  then show ?thesis using abs_out [of c k m] abs_out [of c' k m'] False assms(4,6) by auto
qed

lemma move_tail:
  assumes wf: "cache_wf c m" and b: "b \<in> set (lru_list c)"
  defines "c' \<equiv> c\<lparr>lru_list := remove1 b (lru_list c) @ [b]\<rparr>"
  shows "cache_wf c' m" "set (lru_list c') = set (lru_list c)" "length (lru_list c') = length (lru_list c)" "cache_abs c' m k = cache_abs c m k"
proof -
  have d: "distinct (lru_list c)" by (rule cache_wfD(1) [OF wf])
  show s: "set (lru_list c') = set (lru_list c)" using b d by (auto simp: c'_def set_remove1_eq)
  show "length (lru_list c') = length (lru_list c)" using b length_pos_if_in_set [OF b] by (simp add: c'_def length_remove1)
  have "distinct (lru_list c')" using d by (simp add: c'_def set_remove1_eq)
  then have "distinct (lru_list c' @ free_list c')" using cache_wfD(2,3) [OF wf] s by (auto simp: c'_def)
  then show wf': "cache_wf c' m" using wf s unfolding cache_wf_def by (simp add: c'_def)
  show "cache_abs c' m k = cache_abs c m k" by (rule abs_eqI [OF wf wf' s]) (simp_all add: c'_def)
qed

section \<open>Flushing, replacing and adopting blocks\<close>

locale block_cache = byte_device +
  fixes n :: u64
  assumes block_size: "0 < unat n" "unat n < 2 ^ 31"
begin

text \<open>\<open>N\<close> is the number of blocks in the lists.\<close>

definition good :: "nat \<Rightarrow> 'a bcache \<Rightarrow> 'a \<Rightarrow> bool" where
  "good N c d \<longleftrightarrow> bc_dev c = dev \<and> bc_block_size c = n \<and> ok d \<and> cache_wf c (contents d)
     \<and> length (lru_list c) + length (free_list c) = N"

lemma goodD:
  assumes "good N c d"
  shows "bc_dev c = dev" "bc_block_size c = n" "ok d" "cache_wf c (contents d)" "length (lru_list c) + length (free_list c) = N"
  using assms by (simp_all add: good_def)

abbreviation fit :: "bnum_t \<Rightarrow> bool" where
  "fit k \<equiv> (unat k + 1) * unat n \<le> size_of"

lemma fits_iff: "ok d \<Longrightarrow> fits n (contents d) k \<longleftrightarrow> fit k"
  by (simp add: fits_def contents_total)

lemma block_pos:
  assumes "bc_block_size c = n" "fit k"
  shows "unat (block_pos c k) = unat k * unat n" "unat (block_pos c k) < 2 ^ 63"
    "unat n = min (unat n) (size_of - unat (block_pos c k))" "unat (block_pos c k) + unat n \<le> size_of"
proof -
  have le: "unat k * unat n + unat n \<le> size_of" using assms(2) by simp
  then have "unat k * unat n < 2 ^ 64" using total by simp
  moreover have "unat (ucast k :: u64) = unat k"
    using unsigned_less [of k, where ?'a = nat] by (simp add: unsigned_ucast_eq take_bit_nat_eq_self)
  ultimately show p: "unat (block_pos c k) = unat k * unat n"
    using assms(1) by (simp add: block_pos_def unat_word_ariths)
  show "unat (block_pos c k) < 2 ^ 63" "unat n = min (unat n) (size_of - unat (block_pos c k))"
    "unat (block_pos c k) + unat n \<le> size_of" unfolding p using le total by simp_all
qed

lemma to_int_n: "to_int (int (unat n)) = int (unat n)"
proof -
  have "int (unat n) < 2 ^ 31" using block_size(2) by (metis of_nat_less_iff of_nat_numeral of_nat_power)
  then have "signed_take_bit 31 (int (unat n)) = int (unat n)" by (intro signed_take_bit_int_eq_self) linarith+
  moreover have "LENGTH(32) - 1 = (31 :: nat)" by simp
  ultimately show ?thesis by (simp only: to_int_def sint_sbintrunc')
qed

lemma other_block:
  assumes "ok d" "fit j" "fit k" "j \<noteq> k" "length bs = unat n"
  shows "bpart n (overwrite (unat j * unat n) bs (contents d)) k = bpart n (contents d) k"
proof -
  have "unat j \<noteq> unat k" using assms(4) by (simp add: word_unat_eq_iff)
  then have "unat k + 1 \<le> unat j \<or> unat j + 1 \<le> unat k" by linarith
  then have "(unat k + 1) * unat n \<le> unat j * unat n \<or> (unat j + 1) * unat n \<le> unat k * unat n" by (metis mult_le_mono1)
  then show ?thesis unfolding bpart_def using assms contents_total [OF assms(1)] by (intro part_overwrite_other) auto
qed

lemma same_block:
  assumes "ok d" "fit j" "length bs = unat n"
  shows "bpart n (overwrite (unat j * unat n) bs (contents d)) j = bs"
  using part_overwrite_same [of "unat j * unat n" bs "contents d"] assms contents_total [OF assms(1)] by (simp add: bpart_def)

text \<open>Writing a copy back to the medium.\<close>

lemma flush_block_ok:
  assumes g: "good N c d" and b: "b \<in> set (lru_list c)"
  shows "\<exists>c' d'. flush_block c b d = Some (0, c', d') \<and> good N c' d' \<and> bc_count c' = bc_count c
    \<and> lru_list c' = lru_list c \<and> free_list c' = free_list c
    \<and> bc_blocks c' = (bc_blocks c)(b := (bc_blocks c b)\<lparr>is_dirty := False\<rparr>)
    \<and> contents d' = overwrite (unat (blocknum (bc_blocks c b)) * unat n) (blk_data (bc_blocks c b)) (contents d)
    \<and> (\<forall>k. fit k \<longrightarrow> cache_abs c' (contents d') k = cache_abs c (contents d) k)"
proof -
  note G = goodD [OF g] and W = cache_wfD [OF goodD(4) [OF g]]
  let ?x = "bc_blocks c b"
  define j where "j = blocknum ?x"
  have len: "length (blk_data ?x) = unat n" using W(4) b G(2) by simp
  have j: "fit j" using W(8) [OF b] fits_iff [OF G(3)] G(2) by (simp add: j_def)
  note P = block_pos [OF G(2) j]
  have "unat n < 2 ^ 32" using block_size(2) by simp
  then obtain d' where w: "bio_write dev (blk_addr ?x) (blk_data ?x) (block_pos c j) n d = Some (int (unat n), d')" "ok d'"
      "contents d' = overwrite (unat j * unat n) (blk_data ?x) (contents d)"
    using bio_write_ok [OF G(3) P(2) _ P(3), of "blk_data ?x" "blk_addr ?x"] len P(1) by auto
  define c' where "c' = upd_bstats (\<lambda>st. st\<lparr>st_writes := st_writes st + 1\<rparr>) (upd_block b (\<lambda>blk. blk\<lparr>is_dirty := False\<rparr>) c)"
  have f: "flush_block c b d = Some (0, c', d')"
    using w(1) to_int_n G(1,2) by (simp add: flush_block_def c'_def j_def Let_def)
  have l: "length (contents d') = length (contents d)" using contents_total G(3) w(2) by simp
  have wf: "cache_wf c' (contents d')"
  proof -
    have q: "blocknum (bc_blocks c' e) = blocknum (bc_blocks c e)" "blk_data (bc_blocks c' e) = blk_data (bc_blocks c e)"
      "ref_count (bc_blocks c' e) = ref_count (bc_blocks c e)" "e \<noteq> b \<Longrightarrow> is_dirty (bc_blocks c' e) = is_dirty (bc_blocks c e)" for e
      by (simp_all add: c'_def)
    have fe: "fit (blocknum (bc_blocks c e))" if "e \<in> set (lru_list c)" for e
      using W(8) [OF that] fits_iff [OF G(3)] G(2) by simp
    have clean: "blk_data (bc_blocks c e) = bpart n (contents d') (blocknum (bc_blocks c e))"
      if e: "e \<in> set (lru_list c)" "\<not> is_dirty (bc_blocks c' e)" for e
    proof (cases "e = b")
      case True
      then show ?thesis using same_block [OF G(3) j len] w(3) by (simp add: j_def)
    next
      case False
      then have "j \<noteq> blocknum (bc_blocks c e)" using W(7) b e by (auto simp: j_def inj_on_def)
      then show ?thesis using other_block [OF G(3) j fe [OF e(1)] _ len] w(3) W(9) [OF e(1)] e(2) q(4) [OF False] G(2) by simp
    qed
    have lf: "lru_list c' = lru_list c" "free_list c' = free_list c" "bc_block_size c' = n" using G(2) by (simp_all add: c'_def)
    have nb: "e \<noteq> b" if "e \<in> set (free_list c)" for e using W(3) b that by blast
    show ?thesis
      by (rule cache_wfI; unfold lf q) (use W G(2) fits_iff [OF w(2)] fe clean q(4) nb in \<open>simp_all\<close>)
  qed
  then have "good N c' d'" using G w(2) by (simp add: good_def c'_def)
  moreover have "cache_abs c' (contents d') k = cache_abs c (contents d) k" if "fit k" for k
    by (rule abs_eqI [OF G(4) wf]) (use other_block [OF G(3) j that _ len] w(3) b G(2) in \<open>auto simp: c'_def j_def\<close>)
  ultimately show ?thesis using f w(3) by (auto simp: c'_def j_def)
qed

text \<open>Searching the LRU list moves a block that is found to the end.\<close>

lemma find_block_ok:
  assumes g: "good N c d"
  shows "\<exists>c'. find_block c k = (lookup c k, c') \<and> good N c' d \<and> set (lru_list c') = set (lru_list c) \<and> bc_blocks c' = bc_blocks c
    \<and> free_list c' = free_list c \<and> cache_abs c' (contents d) = cache_abs c (contents d)"
proof (cases "lookup c k")
  case None
  then show ?thesis using g by (auto simp: find_block_def lookup_def good_def)
next
  case (Some b)
  then have b: "b \<in> set (lru_list c)" by (blast dest: lookup_Some)
  have "find (\<lambda>b. blocknum (bc_blocks c b) = k) (lru_list c) = Some b" using Some by (simp add: lookup_def)
  then show ?thesis using Some g move_tail [OF goodD(4) [OF g] b] by (auto simp: find_block_def Let_def good_def fun_eq_iff)
qed

text \<open>
  Taking a block for new contents: the cache without that block shows what the cache did before. A block
  with references is never taken.
\<close>

lemma cache_without:
  assumes g: "good N c d" and b: "b \<in> set (lru_list c)" "ref_count (bc_blocks c b) = 0" "\<not> is_dirty (bc_blocks c b)"
  defines "c0 \<equiv> c\<lparr>lru_list := remove1 b (lru_list c)\<rparr>"
  shows "good (N - 1) c0 d" "b \<notin> set (lru_list c0) \<union> set (free_list c0)" "fit k \<Longrightarrow> cache_abs c0 (contents d) k = cache_abs c (contents d) k"
proof -
  note G = goodD [OF g] and W = cache_wfD [OF goodD(4) [OF g]]
  have s: "set (lru_list c0) = set (lru_list c) - {b}" using W(1) by (simp add: c0_def set_remove1_eq)
  have lf: "free_list c0 = free_list c" "bc_block_size c0 = n" "bc_blocks c0 = bc_blocks c" using G(2) by (simp_all add: c0_def)
  have d0: "distinct (lru_list c0)" using W(1) by (simp add: c0_def)
  have wf: "cache_wf c0 (contents d)"
  proof (rule cache_wfI; (unfold lf s)?)
    show "inj_on (\<lambda>b. blocknum (bc_blocks c b)) (set (lru_list c) - {b})" by (rule inj_on_subset [OF W(7)]) blast
    show "(set (lru_list c) - {b}) \<inter> set (free_list c) = {}" using W(3) by blast
    show "length (blk_data (bc_blocks c e)) = unat n" "0 \<le> ref_count (bc_blocks c e)"
      if "e \<in> set (lru_list c) - {b} \<union> set (free_list c)" for e using W(4,5) [of e] that G(2) by auto
  qed (use W(2,6,8,9) G(2) d0 in \<open>simp_all\<close>)
  have "length (remove1 b (lru_list c)) + length (free_list c) = N - 1"
    using length_pos_if_in_set [OF b(1)] length_remove1 [of b "lru_list c", unfolded if_P [OF b(1)]] G(5) by linarith
  then show "good (N - 1) c0 d" using G wf by (simp add: good_def c0_def)
  show "b \<notin> set (lru_list c0) \<union> set (free_list c0)" unfolding s lf using W(3) b(1) by blast
  show "cache_abs c0 (contents d) k = cache_abs c (contents d) k" if "fit k"
  proof (cases "blocknum (bc_blocks c b) = k")
    case True
    have "blocknum (bc_blocks c e) \<noteq> k" if "e \<in> set (lru_list c) - {b}" for e
      using inj_onD [OF W(7), of e b] that b(1) True by auto
    then have "cache_abs c0 (contents d) k = (bpart n (contents d) k, 0)" using abs_out [of c0 k] unfolding s lf by blast
    then show ?thesis using abs_in [OF G(4) b(1) True] W(9) [OF b(1,3)] b(2) G(2) True by simp
  next
    case False
    show ?thesis
    proof (cases "lookup c k")
      case None
      then have "cache_abs c0 (contents d) k = (bpart n (contents d) k, 0)"
        using abs_out [of c0 k] unfolding s lf lookup_None by blast
      then show ?thesis using abs_out [of c k] None G(2) unfolding lookup_None by simp
    next
      case (Some e)
      then have e: "e \<in> set (lru_list c)" "blocknum (bc_blocks c e) = k" using lookup_Some by blast+
      then have "e \<in> set (lru_list c0)" unfolding s using False by auto
      then show ?thesis using abs_in [OF G(4) e] abs_in [OF wf, of e k] e(2) by (simp add: lf)
    qed
  qed
qed

text \<open>The result of an allocation that succeeds.\<close>

definition taken :: "nat \<Rightarrow> 'a bcache \<Rightarrow> 'a \<Rightarrow> nat \<Rightarrow> 'a bcache \<Rightarrow> 'a \<Rightarrow> bool" where
  "taken N c d b c0 d' \<longleftrightarrow> good (N - 1) c0 d' \<and> b \<notin> set (lru_list c0) \<union> set (free_list c0)
     \<and> length (blk_data (bc_blocks c0 b)) = unat n \<and> ref_count (bc_blocks c0 b) = 0
     \<and> set (lru_list c0) = set (lru_list c) - {b}
     \<and> (\<forall>e \<in> set (lru_list c). blocknum (bc_blocks c0 e) = blocknum (bc_blocks c e) \<and> ref_count (bc_blocks c0 e) = ref_count (bc_blocks c e))
     \<and> (b \<in> set (lru_list c) \<longrightarrow> ref_count (bc_blocks c b) = 0)
     \<and> (\<forall>k. fit k \<longrightarrow> cache_abs c0 (contents d') k = cache_abs c (contents d) k)"

lemma alloc_free:
  assumes g: "good N c d" and f: "free_list c = b # bs"
  shows "\<exists>c0. alloc_block c d = Some (Some b, c0\<lparr>lru_list := lru_list c0 @ [b]\<rparr>, d) \<and> taken N c d b c0 d"
proof -
  note G = goodD [OF g] and W = cache_wfD [OF goodD(4) [OF g]]
  define c0 where "c0 = upd_block b (\<lambda>blk. blk\<lparr>ref_count := 0\<rparr>) (c\<lparr>free_list := bs\<rparr>)"
  have b: "b \<in> set (free_list c)" "b \<notin> set (lru_list c)" "b \<notin> set bs" using f W(2,3) by auto
  have lf: "free_list c0 = bs" "bc_block_size c0 = n" "lru_list c0 = lru_list c" using G(2) by (simp_all add: c0_def)
  have q: "blocknum (bc_blocks c0 e) = blocknum (bc_blocks c e)" "blk_data (bc_blocks c0 e) = blk_data (bc_blocks c e)"
    "is_dirty (bc_blocks c0 e) = is_dirty (bc_blocks c e)" "e \<noteq> b \<Longrightarrow> ref_count (bc_blocks c0 e) = ref_count (bc_blocks c e)" for e
    by (simp_all add: c0_def)
  have ne: "e \<noteq> b" if "e \<in> set (lru_list c) \<union> set bs" for e using that b by auto
  have wf: "cache_wf c0 (contents d)"
    by (rule cache_wfI; unfold lf q) (use W G(2) f q(4) ne in auto)
  moreover have "cache_abs c0 (contents d) k = cache_abs c (contents d) k" for k
    by (rule abs_eqI [OF G(4) wf]) (use lf q ne G(2) in auto)
  ultimately have "taken N c d b c0 d"
    using G W(4) [of b] b lf q ne f by (auto simp: taken_def good_def c0_def)
  moreover have "alloc_block c d = Some (Some b, c0\<lparr>lru_list := lru_list c0 @ [b]\<rparr>, d)"
    using f by (simp add: alloc_block_def c0_def upd_block_def)
  ultimately show ?thesis by blast
qed

lemma alloc_lru:
  assumes g: "good N c d" and f: "free_list c = []" "find (\<lambda>b. ref_count (bc_blocks c b) = 0) (lru_list c) = Some b"
  shows "\<exists>c0 d'. alloc_block c d = Some (Some b, c0\<lparr>lru_list := lru_list c0 @ [b]\<rparr>, d') \<and> taken N c d b c0 d'"
proof -
  note G = goodD [OF g] and W = cache_wfD [OF goodD(4) [OF g]]
  have b: "b \<in> set (lru_list c)" "ref_count (bc_blocks c b) = 0"
    using f(2) by (auto simp: find_Some_iff in_set_conv_nth)
  obtain c1 d1 where c1: "(if is_dirty (bc_blocks c b) then flush_block c b d else Some (0, c, d)) = Some (0, c1, d1)"
      "good N c1 d1" "lru_list c1 = lru_list c" "free_list c1 = free_list c"
      "\<not> is_dirty (bc_blocks c1 b)" "\<And>e. blocknum (bc_blocks c1 e) = blocknum (bc_blocks c e)"
      "\<And>e. ref_count (bc_blocks c1 e) = ref_count (bc_blocks c e)" "\<And>e. blk_data (bc_blocks c1 e) = blk_data (bc_blocks c e)"
      "\<And>k. fit k \<Longrightarrow> cache_abs c1 (contents d1) k = cache_abs c (contents d) k"
  proof (cases "is_dirty (bc_blocks c b)")
    case True
    then show thesis using that flush_block_ok [OF g b(1)] by auto
  next
    case False
    then show thesis using that [of c d] g by auto
  qed
  define c0 where "c0 = c1\<lparr>lru_list := remove1 b (lru_list c1)\<rparr>"
  have b1: "b \<in> set (lru_list c1)" "ref_count (bc_blocks c1 b) = 0" using b c1(3,7) by simp_all
  note C = cache_without [OF c1(2) b1 c1(5), folded c0_def]
  have "set (lru_list c0) = set (lru_list c) - {b}" using W(1) c1(3) by (simp add: c0_def set_remove1_eq)
  moreover have "bc_blocks c0 = bc_blocks c1" by (simp add: c0_def)
  ultimately have "taken N c d b c0 d1"
    using C c1(6-9) W(4) [of b] b G(2) by (simp add: taken_def)
  moreover have "alloc_block c d = Some (Some b, c0\<lparr>lru_list := lru_list c0 @ [b]\<rparr>, d1)"
    using f c1(1) by (simp add: alloc_block_def c0_def)
  ultimately show ?thesis by blast
qed

lemma alloc_block_ok:
  assumes "good N c d" "free_list c \<noteq> [] \<or> (\<exists>b \<in> set (lru_list c). ref_count (bc_blocks c b) = 0)"
  shows "\<exists>b c0 d'. alloc_block c d = Some (Some b, c0\<lparr>lru_list := lru_list c0 @ [b]\<rparr>, d') \<and> taken N c d b c0 d'"
proof (cases "free_list c")
  case Nil
  then obtain b where "find (\<lambda>b. ref_count (bc_blocks c b) = 0) (lru_list c) = Some b"
    using assms(2) by (cases "find (\<lambda>b. ref_count (bc_blocks c b) = 0) (lru_list c)") (auto simp: find_None_iff)
  then show ?thesis using alloc_lru [OF assms(1) Nil] by blast
next
  case (Cons b bs)
  then show ?thesis using alloc_free [OF assms(1)] by blast
qed

end

end
