(* ===== verification/Bcache_Ops.thy ===== *)
theory Bcache_Ops
  imports Bcache_Inv LK_Refine
begin

text \<open>
  What each operation of the block cache does to the blocks that its clients see, and that sequences of
  operations refine an array of blocks with reference counts.
\<close>

section \<open>The array of blocks\<close>

text \<open>
  What clients do: read a block, get and put a reference, write through the pointer of a block they have a
  reference of and mark it dirty, zero a block, and flush. The results are the error code and
  the bytes that the client sees.
\<close>

datatype bc_op = BRead bnum_t | BGet bnum_t | BUpdate bnum_t bytes | BZero bnum_t | BPut bnum_t | BFlush

type_synonym bc_array = "bnum_t \<Rightarrow> bytes \<times> int"

fun bc_spec :: "u64 \<Rightarrow> bc_op \<Rightarrow> bc_array \<Rightarrow> (int \<times> bytes) \<times> bc_array" where
  "bc_spec n (BRead k) x = ((0, fst (x k)), x)"
| "bc_spec n (BGet k) x = ((0, fst (x k)), x(k := (fst (x k), snd (x k) + 1)))"
| "bc_spec n (BUpdate k bs) x = ((0, []), x(k := (bs, snd (x k))))"
| "bc_spec n (BZero k) x = ((0, []), x(k := (replicate (unat n) 0, snd (x k))))"
| "bc_spec n (BPut k) x = ((0, []), x(k := (fst (x k), snd (x k) - 1)))"
| "bc_spec n BFlush x = ((0, []), x)"

text \<open>
  Blocks have to be inside the medium of \<open>sz\<close> bytes; to bring in a block, fewer than
  \<open>N\<close> blocks may be referenced.
\<close>

definition inside :: "u64 \<Rightarrow> nat \<Rightarrow> bnum_t \<Rightarrow> bool" where
  "inside n sz k \<longleftrightarrow> (unat k + 1) * unat n \<le> sz"

fun bc_pre :: "u64 \<Rightarrow> nat \<Rightarrow> nat \<Rightarrow> bc_op \<Rightarrow> bc_array \<Rightarrow> bool" where
  "bc_pre n sz N (BRead k) x \<longleftrightarrow> inside n sz k \<and> card {j. 0 < snd (x j)} < N"
| "bc_pre n sz N (BGet k) x \<longleftrightarrow> inside n sz k \<and> card {j. 0 < snd (x j)} < N"
| "bc_pre n sz N (BUpdate k bs) x \<longleftrightarrow> inside n sz k \<and> 0 < snd (x k) \<and> length bs = unat n"
| "bc_pre n sz N (BZero k) x \<longleftrightarrow> inside n sz k \<and> card {j. 0 < snd (x j)} < N"
| "bc_pre n sz N (BPut k) x \<longleftrightarrow> inside n sz k \<and> 0 < snd (x k)"
| "bc_pre n sz N BFlush x \<longleftrightarrow> True"

fun bc_step :: "bc_op \<Rightarrow> 'd bcache \<times> 'd \<Rightarrow> ((int \<times> bytes) \<times> 'd bcache \<times> 'd) option" where
  "bc_step (BRead k) (c, d) = bcache_read_block c k d"
| "bc_step (BGet k) (c, d) = do {
     ((err, p), c, d) \<leftarrow> bcache_get_block c k d;
     Some ((err, case p of Some b \<Rightarrow> blk_data (bc_blocks c b) | None \<Rightarrow> []), c, d)
   }"
| "bc_step (BUpdate k bs) (c, d) = do {
     b \<leftarrow> lookup c k;
     let (err, c) = bcache_mark_block_dirty (upd_block b (\<lambda>blk. blk\<lparr>blk_data := bs\<rparr>) c) k;
     Some ((err, []), c, d)
   }"
| "bc_step (BZero k) (c, d) = do { (err, c, d) \<leftarrow> bcache_zero_block c k d; Some ((err, []), c, d) }"
| "bc_step (BPut k) (c, d) = do { (err, c) \<leftarrow> bcache_put_block c k; Some ((err, []), c, d) }"
| "bc_step BFlush (c, d) = do { (err, c, d) \<leftarrow> bcache_flush c d; Some ((err, []), c, d) }"

text \<open>Referenced blocks stay in their place.\<close>

definition keeps :: "'d bcache \<Rightarrow> 'd bcache \<Rightarrow> bool" where
  "keeps c c' \<longleftrightarrow> (\<forall>e \<in> set (lru_list c). 0 < ref_count (bc_blocks c e) \<longrightarrow>
     e \<in> set (lru_list c') \<and> blocknum (bc_blocks c' e) = blocknum (bc_blocks c e))"

section \<open>The operations\<close>

text \<open>The search does not depend on the bytes of the blocks.\<close>

lemma find_block_data:
  "find_block (upd_block b (\<lambda>blk. blk\<lparr>blk_data := bs\<rparr>) c) k =
     (fst (find_block c k), upd_block b (\<lambda>blk. blk\<lparr>blk_data := bs\<rparr>) (snd (find_block c k)))"
proof -
  have "blocknum (bc_blocks (upd_block b (\<lambda>blk. blk\<lparr>blk_data := bs\<rparr>) c) e) = blocknum (bc_blocks c e)" for e by simp
  then show ?thesis
    unfolding find_block_def by (simp add: Let_def upd_bstats_def upd_block_def split: option.split del: fun_upd_apply upd_block_fields)
qed

context block_cache
begin

abbreviation avail :: "'a bcache \<Rightarrow> bool" where
  "avail c \<equiv> free_list c \<noteq> [] \<or> (\<exists>b \<in> set (lru_list c). ref_count (bc_blocks c b) = 0)"

text \<open>Changing the copy of a block, and making a block that was taken the copy of another one.\<close>

lemma change_block:
  assumes g: "good N c d" and b: "b \<in> set (lru_list c)" "blocknum blk = blocknum (bc_blocks c b)"
    and blk: "length (blk_data blk) = unat n" "0 \<le> ref_count blk"
      "is_dirty blk \<or> blk_data blk = bpart n (contents d) (blocknum blk)"
    and c': "bc_blocks c' = (bc_blocks c)(b := blk)" "lru_list c' = lru_list c" "free_list c' = free_list c"
      "bc_dev c' = dev" "bc_block_size c' = n"
  shows "good N c' d" "cache_abs c' (contents d) = (cache_abs c (contents d))(blocknum blk := (blk_data blk, ref_count blk))"
proof -
  note G = goodD [OF g] and W = cache_wfD [OF goodD(4) [OF g]]
  have q: "blocknum (bc_blocks c' e) = blocknum (bc_blocks c e)" for e using b(2) c'(1) by simp
  have nb: "b \<notin> set (free_list c)" using W(3) b(1) by blast
  have o: "e \<noteq> b \<Longrightarrow> bc_blocks c' e = bc_blocks c e" "bc_blocks c' b = blk" for e using c'(1) by simp_all
  have wf: "cache_wf c' (contents d)"
  proof (rule cache_wfI; (unfold c'(2,3,5) q)?)
    show "length (blk_data (bc_blocks c' e)) = unat n" "0 \<le> ref_count (bc_blocks c' e)"
      if "e \<in> set (lru_list c) \<union> set (free_list c)" for e using W(4,5) [OF that] G(2) blk o by (cases "e = b"; simp)+
    show "blk_data (bc_blocks c' e) = bpart n (contents d) (blocknum (bc_blocks c e))"
      if "e \<in> set (lru_list c)" "\<not> is_dirty (bc_blocks c' e)" for e
      using W(9) [OF that(1)] that(2) blk(3) b(2) G(2) o by (cases "e = b") auto
    show "\<not> is_dirty (bc_blocks c' e)" if "e \<in> set (free_list c)" for e using W(6) [OF that] o(1) [of e] that nb by metis
  qed (use W G(2) in simp_all)
  then show "good N c' d" using G c' by (simp add: good_def)
  show "cache_abs c' (contents d) = (cache_abs c (contents d))(blocknum blk := (blk_data blk, ref_count blk))"
  proof
    fix k
    show "cache_abs c' (contents d) k = ((cache_abs c (contents d))(blocknum blk := (blk_data blk, ref_count blk))) k"
    proof (cases "lookup c k")
      case None
      then have "\<forall>e \<in> set (lru_list c'). blocknum (bc_blocks c' e) \<noteq> k" unfolding q c'(2) lookup_None .
      then show ?thesis using abs_out [of c' k] abs_out [of c k] None b c'(5) G(2) unfolding lookup_None by auto
    next
      case (Some e)
      then have e: "e \<in> set (lru_list c)" "blocknum (bc_blocks c e) = k" using lookup_Some by blast+
      then have "cache_abs c' (contents d) k = (blk_data (bc_blocks c' e), ref_count (bc_blocks c' e))"
        using abs_in [OF wf, of e k] q c'(2) by simp
      moreover have "e = b \<longleftrightarrow> k = blocknum blk" using inj_onD [OF W(7), of e b] e b by auto
      ultimately show ?thesis using abs_in [OF G(4) e] o by auto
    qed
  qed
qed

lemma adopt_block:
  assumes t: "taken N c d b c0 d'" and k: "lookup c k = None" "fit k" "blocknum blk = k" "0 < N"
    and blk: "length (blk_data blk) = unat n" "0 \<le> ref_count blk"
      "is_dirty blk \<or> blk_data blk = bpart n (contents d') k"
    and c': "bc_blocks c' = (bc_blocks c0)(b := blk)" "lru_list c' = lru_list c0 @ [b]" "free_list c' = free_list c0"
      "bc_dev c' = dev" "bc_block_size c' = n"
  shows "good N c' d'" "fit j \<Longrightarrow> cache_abs c' (contents d') j = ((cache_abs c (contents d))(k := (blk_data blk, ref_count blk))) j" "keeps c c'"
proof -
  have g0: "good (N - 1) c0 d'" and nb: "b \<notin> set (lru_list c0)" "b \<notin> set (free_list c0)" using t by (simp_all add: taken_def)
  note G = goodD [OF g0] and W = cache_wfD [OF goodD(4) [OF g0]]
  have s: "set (lru_list c0) = set (lru_list c) - {b}"
    and t0: "\<And>e. e \<in> set (lru_list c) \<Longrightarrow> blocknum (bc_blocks c0 e) = blocknum (bc_blocks c e)"
      "b \<in> set (lru_list c) \<longrightarrow> ref_count (bc_blocks c b) = 0"
      "\<And>j. fit j \<Longrightarrow> cache_abs c0 (contents d') j = cache_abs c (contents d) j" using t unfolding taken_def by blast+
  have nk: "blocknum (bc_blocks c0 e) \<noteq> k" if "e \<in> set (lru_list c0)" for e
    using k(1) that t0(1) unfolding lookup_None s by auto
  have o: "e \<noteq> b \<Longrightarrow> bc_blocks c' e = bc_blocks c0 e" "bc_blocks c' b = blk" for e using c'(1) by simp_all
  have s': "set (lru_list c') = insert b (set (lru_list c0))" using c'(2) by simp
  have wf: "cache_wf c' (contents d')"
  proof (rule cache_wfI; (unfold c'(3,5) s')?)
    show "distinct (lru_list c')" using W(1) nb(1) c'(2) by simp
    show "insert b (set (lru_list c0)) \<inter> set (free_list c0) = {}" using W(3) nb by blast
    show "inj_on (\<lambda>b. blocknum (bc_blocks c' b)) (insert b (set (lru_list c0)))"
      using W(7) nk nb(1) k(3) o by (auto simp: inj_on_def) metis+
    show "length (blk_data (bc_blocks c' e)) = unat n" "0 \<le> ref_count (bc_blocks c' e)"
      if "e \<in> insert b (set (lru_list c0)) \<union> set (free_list c0)" for e
      using W(4,5) [of e] that G(2) blk o by (cases "e = b"; simp)+
    show "blk_data (bc_blocks c' e) = bpart n (contents d') (blocknum (bc_blocks c' e))"
      if "e \<in> insert b (set (lru_list c0))" "\<not> is_dirty (bc_blocks c' e)" for e
      using W(9) [of e] that blk(3) k(3) G(2) o by (cases "e = b") auto
    show "fits n (contents d') (blocknum (bc_blocks c' e))" if "e \<in> insert b (set (lru_list c0))" for e
      using W(8) [of e] that k(2,3) fits_iff [OF G(3)] G(2) o by (cases "e = b") auto
    show "\<not> is_dirty (bc_blocks c' e)" if "e \<in> set (free_list c0)" for e using W(6) [OF that] o(1) [of e] that nb by metis
  qed (use W(2) in simp_all)
  then show "good N c' d'" using G(3,5) c' k(4) by (simp add: good_def)
  show "keeps c c'"
    unfolding keeps_def
  proof (intro ballI impI)
    fix e
    assume e: "e \<in> set (lru_list c)" "0 < ref_count (bc_blocks c e)"
    then have "e \<noteq> b" using t0(2) by auto
    then show "e \<in> set (lru_list c') \<and> blocknum (bc_blocks c' e) = blocknum (bc_blocks c e)"
      using e t0(1) [OF e(1)] o(1) [of e] unfolding s' s by simp
  qed
  show "cache_abs c' (contents d') j = ((cache_abs c (contents d))(k := (blk_data blk, ref_count blk))) j" if "fit j"
  proof (cases "j = k")
    case True
    then show ?thesis using abs_in [OF wf, of b k] s' o(2) k(3) by simp
  next
    case False
    have "cache_abs c' (contents d') j = cache_abs c0 (contents d') j"
    proof (cases "lookup c0 j")
      case None
      then have "\<forall>e \<in> set (lru_list c'). blocknum (bc_blocks c' e) \<noteq> j" unfolding s' lookup_None using nb(1) False k(3) o by (metis insert_iff)
      then show ?thesis using abs_out [of c' j] abs_out [of c0 j] None c'(5) G(2) unfolding lookup_None by simp
    next
      case (Some e)
      then have e: "e \<in> set (lru_list c0)" "blocknum (bc_blocks c0 e) = j" using lookup_Some by blast+
      then have "e \<noteq> b" using nb by blast
      then show ?thesis using abs_in [OF wf, of e j] abs_in [OF G(4) e] e o(1) s' by simp
    qed
    then show ?thesis using t0(3) [OF that] False by simp
  qed
qed

text \<open>Bringing a block in. There is a block to take unless all are referenced.\<close>

definition same_abs :: "'a bcache \<times> 'a \<Rightarrow> bc_array \<Rightarrow> bool" where
  "same_abs = (\<lambda>(c, d) x. \<forall>k. fit k \<longrightarrow> cache_abs c (contents d) k = x k)"

lemma avail_pos: "good N c d \<Longrightarrow> avail c \<Longrightarrow> 0 < N"
  by (auto simp: good_def)

lemma find_or_fill_ok:
  assumes g: "good N c d" and k: "fit k" and a: "avail c"
  shows "\<exists>b c' d'. find_or_fill_block c k d = Some (Some b, c', d') \<and> good N c' d' \<and> b \<in> set (lru_list c')
    \<and> blocknum (bc_blocks c' b) = k \<and> same_abs (c', d') (cache_abs c (contents d)) \<and> keeps c c'"
proof -
  obtain c1 where c1: "find_block c k = (lookup c k, c1)" "good N c1 d" "set (lru_list c1) = set (lru_list c)" "bc_blocks c1 = bc_blocks c"
      "free_list c1 = free_list c" "cache_abs c1 (contents d) = cache_abs c (contents d)"
    using find_block_ok [OF g, of k] by blast
  show ?thesis
  proof (cases "lookup c k")
    case (Some b)
    then have "b \<in> set (lru_list c)" "blocknum (bc_blocks c b) = k" using lookup_Some by blast+
    then show ?thesis using Some c1 by (simp add: find_or_fill_block_def same_abs_def keeps_def)
  next
    case None
    have l1: "lookup c1 k = None" using None c1(3,4) by (simp add: lookup_None)
    have "avail c1" using a c1(3-5) by simp
    then obtain b c0 d' where al: "alloc_block c1 d = Some (Some b, c0\<lparr>lru_list := lru_list c0 @ [b]\<rparr>, d')" and t: "taken N c1 d b c0 d'"
      using alloc_block_ok [OF c1(2)] by blast
    have G: "ok d'" "bc_dev c0 = dev" "bc_block_size c0 = n" "length (blk_data (bc_blocks c0 b)) = unat n"
      "0 \<le> ref_count (bc_blocks c0 b)" using t by (simp_all add: taken_def good_def)
    define c2 where "c2 = upd_block b (\<lambda>blk. blk\<lparr>blocknum := k\<rparr>) (c0\<lparr>lru_list := lru_list c0 @ [b]\<rparr>)"
    have "bc_block_size c2 = n" using G(3) by (simp add: c2_def)
    note P = block_pos [OF this k]
    have "unat n < 2 ^ 32" using block_size(2) by simp
    then have r: "bio_read dev (blk_addr (bc_blocks c2 b)) (block_pos c2 k) n (blk_data (bc_blocks c0 b)) d' = Some (int (unat n), bpart n (contents d') k)"
      using bio_read_ok [OF G(1) P(2) _ P(3), of "blk_data (bc_blocks c0 b)"] G(4) P(1) by (simp add: bpart_def)
    define c3 where "c3 = upd_bstats (\<lambda>st. st\<lparr>st_reads := st_reads st + 1\<rparr>) (upd_block b (\<lambda>blk. blk\<lparr>blk_data := bpart n (contents d') k\<rparr>) c2)"
    have f: "find_or_fill_block c k d = Some (Some b, c3, d')"
      using None c1(1) al r G to_int_n by (simp add: find_or_fill_block_def c3_def c2_def Let_def)
    have len: "length (bpart n (contents d') k) = unat n"
      unfolding bpart_def using k contents_total [OF G(1)] by (intro length_part) simp
    let ?blk = "(bc_blocks c0 b)\<lparr>blocknum := k, blk_data := bpart n (contents d') k\<rparr>"
    have c3: "bc_blocks c3 = (bc_blocks c0)(b := ?blk)" "lru_list c3 = lru_list c0 @ [b]" "free_list c3 = free_list c0"
        "bc_dev c3 = dev" "bc_block_size c3 = n" using G by (simp_all add: c3_def c2_def)
    note A = adopt_block [OF t l1 k _ avail_pos [OF g a] _ _ _ c3, simplified, OF len G(5)]
    have "cache_abs c (contents d) k = (bpart n (contents d) k, 0)" using abs_out [of c k] None goodD(2) [OF g] by (simp add: lookup_None)
    moreover have "bpart n (contents d') k = bpart n (contents d) k \<and> ref_count (bc_blocks c0 b) = 0"
    proof -
      have "\<forall>e \<in> set (lru_list c0). blocknum (bc_blocks c0 e) \<noteq> k" using t l1 by (auto simp: taken_def lookup_None)
      then have "cache_abs c0 (contents d') k = (bpart n (contents d') k, 0)" using abs_out [of c0 k] G(3) by simp
      moreover have "cache_abs c1 (contents d) k = (bpart n (contents d) k, 0)" using abs_out [of c1 k] l1 goodD(2) [OF c1(2)] by (simp add: lookup_None)
      ultimately show ?thesis using t k by (simp add: taken_def)
    qed
    ultimately have "same_abs (c3, d') (cache_abs c (contents d))" using A(2) c1(6) by (auto simp: same_abs_def)
    moreover have "keeps c c3" using A(3) c1(3,4) by (simp add: keeps_def)
    ultimately show ?thesis using f A(1) c3 by (auto simp del: upd_block_fields)
  qed
qed

definition rep :: "nat \<Rightarrow> 'a bcache \<times> 'a \<Rightarrow> bc_array \<Rightarrow> bool" where
  "rep N = (\<lambda>(c, d) x. good N c d \<and> same_abs (c, d) x)"

lemma avail_spec:
  assumes r: "rep N (c, d) x" and card: "card {j. 0 < snd (x j)} < N"
  shows "avail c"
proof (rule ccontr)
  have g: "good N c d" and x: "\<And>k. fit k \<Longrightarrow> cache_abs c (contents d) k = x k" using r by (auto simp: rep_def same_abs_def)
  note G = goodD [OF g] and W = cache_wfD [OF goodD(4) [OF g]]
  assume "\<not> avail c"
  then have a: "free_list c = []" "\<And>b. b \<in> set (lru_list c) \<Longrightarrow> ref_count (bc_blocks c b) \<noteq> 0" by auto
  let ?nums = "(\<lambda>b. blocknum (bc_blocks c b)) ` set (lru_list c)"
  have "0 < snd (x (blocknum (bc_blocks c b)))" if b: "b \<in> set (lru_list c)" for b
  proof -
    have "fit (blocknum (bc_blocks c b))" using W(8) [OF b] fits_iff [OF G(3)] G(2) by simp
    then show ?thesis using x abs_in [OF G(4) b refl] W(5) [of b] a(2) [OF b] b by fastforce
  qed
  then have "?nums \<subseteq> {j. 0 < snd (x j)}" by auto
  then have "card ?nums \<le> card {j. 0 < snd (x j)}" by (rule card_mono [rotated]) simp
  moreover have "card ?nums = N" using card_image [OF W(7)] distinct_card [OF W(1)] G(5) a(1) by simp
  ultimately show False using card by simp
qed

text \<open>What an operation has to do in a state that stands for the array \<open>x\<close>.\<close>

definition steps_to :: "nat \<Rightarrow> bc_op \<Rightarrow> 'a bcache \<Rightarrow> 'a \<Rightarrow> bc_array \<Rightarrow> bool" where
  "steps_to N p c d x \<longleftrightarrow> (\<exists>c' d'. bc_step p (c, d) = Some (fst (bc_spec n p x), c', d')
     \<and> rep N (c', d') (snd (bc_spec n p x)) \<and> keeps c c')"

lemma read_step:
  assumes r: "rep N (c, d) x" and p: "fit k" "card {j. 0 < snd (x j)} < N"
  shows "steps_to N (BRead k) c d x"
proof -
  have g: "good N c d" and x: "same_abs (c, d) x" using r by (auto simp: rep_def)
  obtain b c' d' where f: "find_or_fill_block c k d = Some (Some b, c', d')" "good N c' d'" "b \<in> set (lru_list c')"
      "blocknum (bc_blocks c' b) = k" "same_abs (c', d') (cache_abs c (contents d))" "keeps c c'"
    using find_or_fill_ok [OF g p(1) avail_spec [OF r p(2)]] by blast
  note G = goodD [OF f(2)]
  have "same_abs (c', d') x" using f(5) x by (simp add: same_abs_def)
  moreover from this have "blk_data (bc_blocks c' b) = fst (x k)"
    using abs_in [OF G(4) f(3,4)] p(1) by (auto simp: same_abs_def)
  moreover have "length (blk_data (bc_blocks c' b)) = unat n" using cache_wfD(4) [OF G(4), of b] f(3) G(2) by simp
  ultimately show ?thesis using f G(2) by (simp add: steps_to_def bcache_read_block_def get_def rep_def)
qed

lemma same_abs_upd:
  assumes "same_abs (c, d) x" "cache_abs c' (contents d') = (cache_abs c (contents d))(k := v)"
  shows "same_abs (c', d') (x(k := v))"
  using assms by (auto simp: same_abs_def)

lemma keeps_trans: "keeps c c1 \<Longrightarrow> (\<forall>e \<in> set (lru_list c1). e \<in> set (lru_list c2) \<and> blocknum (bc_blocks c2 e) = blocknum (bc_blocks c1 e)) \<Longrightarrow> keeps c c2"
  by (simp add: keeps_def)

lemma get_step:
  assumes r: "rep N (c, d) x" and p: "fit k" "card {j. 0 < snd (x j)} < N"
  shows "steps_to N (BGet k) c d x"
proof -
  have g: "good N c d" and x: "same_abs (c, d) x" using r by (auto simp: rep_def)
  obtain b c1 d' where f: "find_or_fill_block c k d = Some (Some b, c1, d')" "good N c1 d'" "b \<in> set (lru_list c1)"
      "blocknum (bc_blocks c1 b) = k" "same_abs (c1, d') (cache_abs c (contents d))" "keeps c c1"
    using find_or_fill_ok [OF g p(1) avail_spec [OF r p(2)]] by blast
  note G = goodD [OF f(2)] and W = cache_wfD [OF goodD(4) [OF f(2)]]
  have x1: "same_abs (c1, d') x" using f(5) x by (simp add: same_abs_def)
  then have xk: "x k = (blk_data (bc_blocks c1 b), ref_count (bc_blocks c1 b))"
    using abs_in [OF G(4) f(3,4)] p(1) by (auto simp: same_abs_def)
  let ?blk = "(bc_blocks c1 b)\<lparr>ref_count := ref_count (bc_blocks c1 b) + 1\<rparr>"
  let ?c' = "upd_block b (\<lambda>blk. blk\<lparr>ref_count := ref_count blk + 1\<rparr>) c1"
  have "length (blk_data ?blk) = unat n" "0 \<le> ref_count ?blk" "is_dirty ?blk \<or> blk_data ?blk = bpart n (contents d') (blocknum ?blk)"
    using W(4,5,9) [of b] f(3) G(2) by auto
  note C = change_block [OF f(2,3) _ this, of ?c', simplified, OF G(1,2)]
  have "same_abs (?c', d') (x(k := (fst (x k), snd (x k) + 1)))"
    by (rule same_abs_upd [OF x1]) (use C(2) f(4) xk in simp)
  moreover have "keeps c ?c'" by (rule keeps_trans [OF f(6)]) simp
  ultimately show ?thesis using f(1) C(1) xk by (simp add: steps_to_def bcache_get_block_def rep_def)
qed

text \<open>A block that is in the cache: the operation works on the copy after the search.\<close>

lemma cached_block:
  assumes r: "rep N (c, d) x" and p: "fit k" and l: "lookup c k = Some b"
  shows "\<exists>c1. find_block c k = (Some b, c1) \<and> rep N (c1, d) x \<and> b \<in> set (lru_list c1) \<and> blocknum (bc_blocks c1 b) = k
    \<and> bc_blocks c1 = bc_blocks c \<and> x k = (blk_data (bc_blocks c1 b), ref_count (bc_blocks c1 b))
    \<and> length (blk_data (bc_blocks c1 b)) = unat n \<and> 0 \<le> ref_count (bc_blocks c1 b) \<and> keeps c c1"
proof -
  have g: "good N c d" and x: "same_abs (c, d) x" using r by (auto simp: rep_def)
  have b: "b \<in> set (lru_list c)" "blocknum (bc_blocks c b) = k" using lookup_Some [OF l] by blast+
  obtain c1 where c1: "find_block c k = (Some b, c1)" "good N c1 d" "set (lru_list c1) = set (lru_list c)" "bc_blocks c1 = bc_blocks c"
      "cache_abs c1 (contents d) = cache_abs c (contents d)"
    using find_block_ok [OF g, of k] l by auto
  note G = goodD [OF c1(2)] and W = cache_wfD [OF goodD(4) [OF c1(2)]]
  have b1: "b \<in> set (lru_list c1)" "blocknum (bc_blocks c1 b) = k" using b c1(3,4) by simp_all
  have "x k = (blk_data (bc_blocks c1 b), ref_count (bc_blocks c1 b))"
    using abs_in [OF G(4) b1] x c1(5) p by (simp add: same_abs_def)
  then show ?thesis using c1 b1 x W(4,5) [of b] G(2) by (simp add: rep_def same_abs_def keeps_def)
qed

lemma referenced_cached:
  assumes r: "rep N (c, d) x" and p: "fit k" "0 < snd (x k)"
  shows "\<exists>b. lookup c k = Some b"
proof (rule ccontr)
  assume "\<nexists>b. lookup c k = Some b"
  then have "cache_abs c (contents d) k = (bpart (bc_block_size c) (contents d) k, 0)" by (simp add: cache_abs_def)
  then show False using r p by (simp add: rep_def same_abs_def)
qed

lemma put_step:
  assumes r: "rep N (c, d) x" and p: "fit k" "0 < snd (x k)"
  shows "steps_to N (BPut k) c d x"
proof -
  obtain b where "lookup c k = Some b" using referenced_cached [OF assms] by blast
  then obtain c1 where c1: "find_block c k = (Some b, c1)" "rep N (c1, d) x" "b \<in> set (lru_list c1)" "blocknum (bc_blocks c1 b) = k"
      "x k = (blk_data (bc_blocks c1 b), ref_count (bc_blocks c1 b))" "length (blk_data (bc_blocks c1 b)) = unat n" "keeps c c1"
    using cached_block [OF r p(1)] by blast
  have g: "good N c1 d" and x1: "same_abs (c1, d) x" using c1(2) by (auto simp: rep_def)
  note G = goodD [OF g] and W = cache_wfD [OF goodD(4) [OF g]]
  let ?blk = "(bc_blocks c1 b)\<lparr>ref_count := ref_count (bc_blocks c1 b) - 1\<rparr>"
  let ?c' = "upd_block b (\<lambda>blk. blk\<lparr>ref_count := ref_count blk - 1\<rparr>) c1"
  have "length (blk_data ?blk) = unat n" "0 \<le> ref_count ?blk" "is_dirty ?blk \<or> blk_data ?blk = bpart n (contents d) (blocknum ?blk)"
    using W(9) [OF c1(3)] c1(5,6) p(2) G(2) by auto
  note C = change_block [OF g c1(3) _ this, of ?c', simplified, OF G(1,2)]
  have "same_abs (?c', d) (x(k := (fst (x k), snd (x k) - 1)))"
    by (rule same_abs_upd [OF x1]) (use C(2) c1(4,5) in simp)
  moreover have "keeps c ?c'" by (rule keeps_trans [OF c1(7)]) simp
  ultimately show ?thesis using c1(1,5) p(2) C(1) by (simp add: steps_to_def bcache_put_block_def rep_def)
qed

text \<open>A new value of a block that is in the cache, marked dirty.\<close>

lemma dirty_block:
  assumes r: "rep N (c1, d) x" and b: "b \<in> set (lru_list c1)" "blocknum (bc_blocks c1 b) = k"
    and xk: "x k = (blk_data (bc_blocks c1 b), ref_count (bc_blocks c1 b))" and bs: "length bs = unat n" "0 \<le> ref_count (bc_blocks c1 b)"
    and c': "bc_blocks c' = (bc_blocks c1)(b := (bc_blocks c1 b)\<lparr>blk_data := bs, is_dirty := True\<rparr>)" "lru_list c' = lru_list c1"
      "free_list c' = free_list c1" "bc_dev c' = bc_dev c1" "bc_block_size c' = bc_block_size c1"
  shows "rep N (c', d) (x(k := (bs, snd (x k))))" "keeps c c1 \<Longrightarrow> keeps c c'"
proof -
  have g: "good N c1 d" and x1: "same_abs (c1, d) x" using r by (auto simp: rep_def)
  note C = change_block [OF g b(1) _ _ _ _ c'(1-3), simplified, OF bs]
  have "same_abs (c', d) (x(k := (bs, snd (x k))))"
    by (rule same_abs_upd [OF x1]) (use C(2) c' goodD(1,2) [OF g] b(2) xk in simp)
  then show "rep N (c', d) (x(k := (bs, snd (x k))))" using C(1) c' goodD(1,2) [OF g] by (simp add: rep_def)
  show "keeps c c'" if "keeps c c1" by (rule keeps_trans [OF that]) (simp add: c')
qed

lemma update_step:
  assumes r: "rep N (c, d) x" and p: "fit k" "0 < snd (x k)" "length bs = unat n"
  shows "steps_to N (BUpdate k bs) c d x"
proof -
  obtain b where l: "lookup c k = Some b" using referenced_cached [OF r p(1,2)] by blast
  then obtain c1 where c1: "find_block c k = (Some b, c1)" "rep N (c1, d) x" "b \<in> set (lru_list c1)" "blocknum (bc_blocks c1 b) = k"
      "x k = (blk_data (bc_blocks c1 b), ref_count (bc_blocks c1 b))" "0 \<le> ref_count (bc_blocks c1 b)" "keeps c c1"
    using cached_block [OF r p(1)] by blast
  let ?c' = "upd_block b (\<lambda>blk. blk\<lparr>is_dirty := True\<rparr>) (upd_block b (\<lambda>blk. blk\<lparr>blk_data := bs\<rparr>) c1)"
  note D = dirty_block(1) [OF c1(2-5) p(3) c1(6), of ?c', simplified]
    dirty_block(2) [OF c1(2-5) p(3) c1(6), of ?c' c, simplified, OF c1(7)]
  show ?thesis using l D c1(1)
    by (simp add: steps_to_def bcache_mark_block_dirty_def find_block_data)
qed

lemma zero_step:
  assumes r: "rep N (c, d) x" and p: "fit k" "card {j. 0 < snd (x j)} < N"
  shows "steps_to N (BZero k) c d x"
proof (cases "lookup c k")
  case (Some b)
  then obtain c1 where c1: "find_block c k = (Some b, c1)" "rep N (c1, d) x" "b \<in> set (lru_list c1)" "blocknum (bc_blocks c1 b) = k"
      "x k = (blk_data (bc_blocks c1 b), ref_count (bc_blocks c1 b))" "length (blk_data (bc_blocks c1 b)) = unat n"
      "0 \<le> ref_count (bc_blocks c1 b)" "keeps c c1"
    using cached_block [OF r p(1)] by blast
  let ?z = "replicate (unat n) 0"
  let ?c' = "upd_block b (\<lambda>blk. blk\<lparr>blk_data := ?z, is_dirty := True\<rparr>) c1"
  have "bc_block_size c1 = n" using c1(2) by (simp add: rep_def good_def)
  then have "zero_out b c1 = Some ?c'" using c1(6) by (simp add: zero_out_def put_def)
  moreover note D = dirty_block(1) [OF c1(2-5) _ c1(7), of ?z ?c', simplified]
    dirty_block(2) [OF c1(2-5) _ c1(7), of ?z ?c' c, simplified, OF c1(8)]
  ultimately show ?thesis using D c1(1) by (simp add: steps_to_def bcache_zero_block_def)
next
  case None
  have g: "good N c d" and x: "same_abs (c, d) x" using r by (auto simp: rep_def)
  have a: "avail c" by (rule avail_spec [OF r p(2)])
  obtain c1 where c1: "find_block c k = (None, c1)" "good N c1 d" "set (lru_list c1) = set (lru_list c)" "bc_blocks c1 = bc_blocks c"
      "free_list c1 = free_list c" "cache_abs c1 (contents d) = cache_abs c (contents d)"
    using find_block_ok [OF g, of k] None by auto
  have l1: "lookup c1 k = None" using None c1(3,4) by (simp add: lookup_None)
  have "avail c1" using a c1(3-5) by simp
  then obtain b c0 d' where al: "alloc_block c1 d = Some (Some b, c0\<lparr>lru_list := lru_list c0 @ [b]\<rparr>, d')" and t: "taken N c1 d b c0 d'"
    using alloc_block_ok [OF c1(2)] by blast
  have G: "bc_dev c0 = dev" "bc_block_size c0 = n" "length (blk_data (bc_blocks c0 b)) = unat n" "ref_count (bc_blocks c0 b) = 0"
    using t by (simp_all add: taken_def good_def)
  let ?z = "replicate (unat n) (0 :: u8)"
  let ?blk = "(bc_blocks c0 b)\<lparr>blocknum := k, blk_data := ?z, is_dirty := True\<rparr>"
  define c2 where "c2 = upd_block b (\<lambda>blk. blk\<lparr>blocknum := k\<rparr>) (c0\<lparr>lru_list := lru_list c0 @ [b]\<rparr>)"
  define c' where "c' = upd_block b (\<lambda>blk. blk\<lparr>blk_data := ?z, is_dirty := True\<rparr>) c2"
  have z: "zero_out b c2 = Some c'" using G(2,3) by (simp add: zero_out_def put_def c'_def c2_def)
  have c': "bc_blocks c' = (bc_blocks c0)(b := ?blk)" "lru_list c' = lru_list c0 @ [b]" "free_list c' = free_list c0"
    "bc_dev c' = dev" "bc_block_size c' = n" using G by (simp_all add: c'_def c2_def)
  have "length (blk_data ?blk) = unat n" "0 \<le> ref_count ?blk" "is_dirty ?blk \<or> blk_data ?blk = bpart n (contents d') k"
    using G(4) by simp_all
  note A = adopt_block [OF t l1 p(1) _ avail_pos [OF g a] this c', simplified]
  have "cache_abs c (contents d) k = (bpart n (contents d) k, 0)" using abs_out [of c k] None goodD(2) [OF g] by (simp add: lookup_None)
  then have "snd (x k) = 0" using x p(1) by (simp add: same_abs_def)
  then have "same_abs (c', d') (x(k := (?z, snd (x k))))" using A(2) x G(4) c1(6) by (auto simp: same_abs_def)
  moreover have "keeps c c'" using A(3) c1(3,4) by (simp add: keeps_def)
  moreover have "bcache_zero_block c k d = Some (0, c', d')" using c1(1) al z by (simp add: bcache_zero_block_def c2_def)
  ultimately show ?thesis using A(1) by (simp add: steps_to_def rep_def)
qed

text \<open>Flushing leaves no dirty block.\<close>

lemma flush_walk_ok:
  assumes "good N c d" "set bs \<subseteq> set (lru_list c)"
  shows "\<exists>c' d'. flush_walk bs c d = Some (0, c', d') \<and> good N c' d' \<and> lru_list c' = lru_list c
    \<and> (\<forall>e. blocknum (bc_blocks c' e) = blocknum (bc_blocks c e))
    \<and> (\<forall>e. is_dirty (bc_blocks c' e) \<longrightarrow> is_dirty (bc_blocks c e) \<and> e \<notin> set bs)
    \<and> (\<forall>k. fit k \<longrightarrow> cache_abs c' (contents d') k = cache_abs c (contents d) k)"
  using assms
proof (induction bs arbitrary: c d)
  case (Cons b bs)
  show ?case
  proof (cases "is_dirty (bc_blocks c b)")
    case True
    have "b \<in> set (lru_list c)" using Cons.prems(2) by simp
    then obtain c1 d1 where f: "flush_block c b d = Some (0, c1, d1)" "good N c1 d1" "lru_list c1 = lru_list c"
        "bc_blocks c1 = (bc_blocks c)(b := (bc_blocks c b)\<lparr>is_dirty := False\<rparr>)"
        "\<forall>k. fit k \<longrightarrow> cache_abs c1 (contents d1) k = cache_abs c (contents d) k"
      using flush_block_ok [OF Cons.prems(1)] by blast
    obtain c' d' where i: "flush_walk bs c1 d1 = Some (0, c', d')" "good N c' d'" "lru_list c' = lru_list c1"
        "\<forall>e. blocknum (bc_blocks c' e) = blocknum (bc_blocks c1 e)"
        "\<forall>e. is_dirty (bc_blocks c' e) \<longrightarrow> is_dirty (bc_blocks c1 e) \<and> e \<notin> set bs"
        "\<forall>k. fit k \<longrightarrow> cache_abs c' (contents d') k = cache_abs c1 (contents d1) k"
      using Cons.IH [OF f(2)] Cons.prems(2) f(3) by auto
    have "flush_walk (b # bs) c d = Some (0, c', d')" using True f(1) i(1) by simp
    moreover have "\<forall>e. is_dirty (bc_blocks c' e) \<longrightarrow> is_dirty (bc_blocks c e) \<and> e \<notin> set (b # bs)"
      using i(5) f(4) by (auto split: if_splits)
    ultimately show ?thesis using i f by auto
  next
    case False
    obtain c' d' where i: "flush_walk bs c d = Some (0, c', d')" "good N c' d'" "lru_list c' = lru_list c"
        "\<forall>e. blocknum (bc_blocks c' e) = blocknum (bc_blocks c e)"
        "\<forall>e. is_dirty (bc_blocks c' e) \<longrightarrow> is_dirty (bc_blocks c e) \<and> e \<notin> set bs"
        "\<forall>k. fit k \<longrightarrow> cache_abs c' (contents d') k = cache_abs c (contents d) k"
      using Cons.IH [OF Cons.prems(1)] Cons.prems(2) by auto
    have "flush_walk (b # bs) c d = Some (0, c', d')" using False i(1) by simp
    then show ?thesis using i False by auto
  qed
qed auto

lemma flush_ok:
  assumes r: "rep N (c, d) x"
  shows "\<exists>c' d'. bcache_flush c d = Some (0, c', d') \<and> rep N (c', d') x \<and> keeps c c' \<and> (\<forall>k. fit k \<longrightarrow> bpart n (contents d') k = fst (x k))"
proof -
  have g: "good N c d" and x: "same_abs (c, d) x" using r by (auto simp: rep_def)
  obtain c' d' where f: "flush_walk (lru_list c) c d = Some (0, c', d')" "good N c' d'" "lru_list c' = lru_list c"
      "\<forall>e. blocknum (bc_blocks c' e) = blocknum (bc_blocks c e)"
      "\<forall>e. is_dirty (bc_blocks c' e) \<longrightarrow> is_dirty (bc_blocks c e) \<and> e \<notin> set (lru_list c)"
      "\<forall>k. fit k \<longrightarrow> cache_abs c' (contents d') k = cache_abs c (contents d) k"
    using flush_walk_ok [OF g order_refl] by blast
  note G = goodD [OF f(2)] and W = cache_wfD [OF goodD(4) [OF f(2)]]
  have x': "same_abs (c', d') x" using f(6) x by (simp add: same_abs_def)
  have "bpart n (contents d') k = fst (x k)" if k: "fit k" for k
  proof -
    have xk: "x k = cache_abs c' (contents d') k" using x' k by (simp add: same_abs_def)
    show ?thesis
    proof (cases "lookup c' k")
      case None
      then show ?thesis using xk G(2) by (simp add: cache_abs_def)
    next
      case (Some b)
      then have b: "b \<in> set (lru_list c')" "blocknum (bc_blocks c' b) = k" using lookup_Some by blast+
      moreover have "\<not> is_dirty (bc_blocks c' b)" using b(1) f(3,5) by auto
      ultimately show ?thesis using xk abs_in [OF G(4) b] W(9) G(2) by simp
    qed
  qed
  moreover have "keeps c c'" using f(3,4) by (simp add: keeps_def)
  ultimately show ?thesis using f(1,2) x' by (auto simp: bcache_flush_def rep_def)
qed

lemma step_ok:
  assumes "rep N (c, d) x" "bc_pre n size_of N p x"
  shows "steps_to N p c d x"
proof (cases p)
  case BFlush
  then show ?thesis using flush_ok [OF assms(1)] by (auto simp: steps_to_def)
qed (use assms read_step get_step update_step zero_step put_step in \<open>auto simp: inside_def\<close>)

end

sublocale block_cache \<subseteq> arr: data_refinement "rep N" "bc_pre n size_of N" "bc_spec n" bc_step for N
proof
  fix m x p
  assume "rep N m x" "bc_pre n size_of N p x"
  then show "\<exists>m'. bc_step p m = Some (fst (bc_spec n p x), m') \<and> rep N m' (snd (bc_spec n p x))"
    using step_ok [of N "fst m" "snd m" x p] by (cases m) (auto simp: steps_to_def)
qed

end
