(* ===== verification/Bio_Props.thy ===== *)
theory Bio_Props
  imports Bio_Device
begin

text \<open>
  The properties of \<^verbatim>\<open>lib/bio\<close>: byte access through the default hooks, on every driver that keeps the
  block contract, and what the access in blocks of 512 bytes reports when the count is not a multiple of
  the device's own block.
\<close>

section \<open>A memory device to try them on\<close>

text \<open>Two blocks of memory with the default hooks, and its contents.\<close>

definition ram :: "bytes bdev" where
  "ram = mem_dev ''ram'' 2 0 base_dev"

lemma ram_fields [simp]: "bd_total_size ram = 1024" "bd_block_size ram = 512" "bd_flags ram = 0"
  by (simp_all add: ram_def mem_dev_def Let_def push_bit_eq_mult)

lemma ram_block_driver: "block_driver ram (\<lambda>m. m) (\<lambda>m. length m = 1024)"
  using mem_block_driver [of 2 "''ram''" 0 base_dev] by (simp add: ram_def)

lemma ram_byte_device: "byte_device ram (\<lambda>m. m) (\<lambda>m. length m = 1024)"
  using mem_byte_device [of 2 "''ram''" 0 base_dev] by (simp add: ram_def)

section \<open>Byte access\<close>

lemma default_total: "bd_total_size (default_hooks a dev) = bd_total_size dev"
  by (simp add: default_hooks_def Let_def)

text \<open>
  C35 Reading bytes through the default hooks is reading the bytes of the medium. On every driver that
  keeps the block contract, \<^verbatim>\<open>bio_read\<close> of \<open>len\<close> bytes at \<open>offset\<close> gives the
  bytes of the medium from there on, as many as there are up to its end, and leaves the
  rest of the buffer alone, whatever the alignment of the offset, the length and the buffer is, and
  whether or not the driver needs aligned buffers. The length is below 4 GB: the code keeps
  lengths in 32 bits on the way.
\<close>

theorem bio_read_bytes:
  assumes "block_driver dev contents ok" "ok d" "unat offset < 2 ^ 63" "unat len < 2 ^ 32"
    and "n = min (unat len) (unat (bd_total_size dev) - unat offset)" "n \<le> length buf"
  shows "bio_read (default_hooks a dev) addr offset len buf d
    = Some (int n, take n (drop (unat offset) (contents d)) @ drop n buf)"
proof -
  have "n = min (unat len) (unat (bd_total_size (default_hooks a dev)) - unat offset)"
    using assms(5) by (simp only: default_total)
  from byte_device.bio_read_ok [OF block_driver.default_byte_device [OF assms(1)] assms(2-4) this assms(6), of addr]
  show ?thesis by (simp only: part_def)
qed

theorem bio_read_bytes_witness:
  "bio_read (default_hooks 0 ram) 1 510 4 (replicate 6 7) (replicate 511 1 @ replicate 513 2)
     = Some (4, replicate 1 1 @ replicate 3 2 @ replicate 2 7)"
proof -
  define m :: bytes where "m = replicate 511 1 @ replicate 513 2"
  have l: "length m = 1024" by (simp add: m_def)
  have "drop 510 m = replicate 1 1 @ replicate 513 2" by (simp only: m_def drop_append drop_replicate length_replicate) simp
  then have "take 4 (drop 510 m) = replicate 1 1 @ replicate 3 2" by (simp only: take_append take_replicate length_replicate) simp
  moreover have "drop 4 (replicate 6 7) = (replicate 2 7 :: bytes)" by (simp only: drop_replicate) simp
  moreover have "unat (510 :: u64) < 2 ^ 63" "unat (4 :: u64) < 2 ^ 32" "4 \<le> length (replicate 6 (7 :: u8))"
    "4 = min (unat (4 :: u64)) (unat (bd_total_size ram) - unat (510 :: u64))" "unat (510 :: u64) = 510" "int 4 = 4" by simp_all
  ultimately show ?thesis
    using bio_read_bytes [OF ram_block_driver l, of 510 4 4 "replicate 6 7" 0 1] by (simp only: m_def append_assoc)
qed

text \<open>
  C36 Bytes that are written are read back. \<^verbatim>\<open>bio_write\<close> through the default hooks, on every driver that
  keeps the block contract, stores as many bytes as there are up to the end of the medium, also
  when the range starts or ends inside a block that is read and written back; a following
  \<^verbatim>\<open>bio_read\<close> of the range gives them back, and every byte outside the range is as it was. The
  length is below 4 GB, as for the read.
\<close>

theorem bio_write_read_back:
  assumes "block_driver dev contents ok" "ok d" "unat offset < 2 ^ 63" "unat len < 2 ^ 32"
    and "n = min (unat len) (unat (bd_total_size dev) - unat offset)" "n \<le> length buf" "n \<le> length buf'"
  shows "\<exists>d'. bio_write (default_hooks a dev) addr buf offset len d = Some (int n, d') \<and> ok d'
    \<and> bio_read (default_hooks a dev) addr' offset len buf' d' = Some (int n, take n buf @ drop n buf')
    \<and> (\<forall>i < length (contents d). i < unat offset \<or> unat offset + n \<le> i \<longrightarrow> contents d' ! i = contents d ! i)"
proof -
  let ?dev = "default_hooks a dev"
  note bd = block_driver.default_byte_device [OF assms(1)]
  have n: "n = min (unat len) (unat (bd_total_size ?dev) - unat offset)" using assms(5) by (simp only: default_total)
  obtain d' where w: "bio_write ?dev addr buf offset len d = Some (int n, d')" "ok d'"
      "contents d' = overwrite (unat offset) (take n buf) (contents d)"
    using byte_device.bio_write_ok [OF bd assms(2-4) n assms(6)] by blast
  have len: "length (take n buf) = n" using assms(6) by simp
  have in_d: "n \<noteq> 0 \<Longrightarrow> unat offset + length (take n buf) \<le> length (contents d)"
    unfolding len using byte_device.contents_total [OF bd assms(2)] n by (auto simp: min_def split: if_splits)
  have "part (unat offset) n (contents d') = take n buf"
    by (cases "n = 0") (use part_overwrite_same [OF in_d] w(3) len in \<open>simp_all add: part_def\<close>)
  then have "bio_read ?dev addr' offset len buf' d' = Some (int n, take n buf @ drop n buf')"
    using byte_device.bio_read_ok [OF bd w(2) assms(3,4) n assms(7)] by simp
  moreover have "contents d' ! i = contents d ! i"
    if i: "i < length (contents d)" "i < unat offset \<or> unat offset + n \<le> i" for i
  proof (cases "n = 0")
    case True
    then show ?thesis using w(3) by simp
  next
    case False
    then show ?thesis using nth_overwrite [OF in_d [OF False] i(1)] w(3) len i(2) by auto
  qed
  ultimately show ?thesis using w(1,2) by blast
qed

theorem bio_write_read_back_witness:
  "\<exists>d'. bio_write (default_hooks 0 ram) 1 (replicate 600 9) 500 600 (replicate 1024 1) = Some (524, d') \<and> length d' = 1024
    \<and> bio_read (default_hooks 0 ram) 0 500 600 (replicate 600 7) d' = Some (524, replicate 524 9 @ replicate 76 7)
    \<and> (\<forall>i < 1024. i < 500 \<or> 1024 \<le> i \<longrightarrow> d' ! i = replicate 1024 1 ! i)"
  using bio_write_read_back [OF ram_block_driver, of "replicate 1024 1" 500 600 524 "replicate 600 9" "replicate 600 7" 0 1 0]
  by simp

section \<open>Access in blocks of 512 bytes\<close>

text \<open>
  C37 A read in blocks of 512 bytes can report blocks that it did not read. When the first block is
  the first of a native block and the count is at most the largest transfer but no multiple of the native
  block, the loop asks the driver for the whole native blocks only, but counts all the
  blocks as read: \<^verbatim>\<open>bio_new_read\<close> reports the full count, and the last blocks of the buffer are
  as they were.
\<close>

theorem bio_new_read_lost_tail:
  assumes "nb = native_block_size dev" "nb \<noteq> 0" "blk mod nb = 0" "nb \<le> cnt" "cnt mod nb \<noteq> 0" "cnt \<le> max_blkcnt dev"
    and "bd_flags dev AND BIO_FLAG_CACHE_ALIGNED_READS = 0"
    and r: "bd_read_native dev (blk div nb) (cnt div nb) d = (0, bs)" "length bs = unat (cnt div nb) * unat (bd_block_size dev)"
      "length bs \<le> length buf"
  shows "bio_new_read dev addr buf blk cnt d = Some (cnt, bs @ drop (length bs) buf)"
proof -
  have c: "cnt \<noteq> 0" using assms(5) by auto
  have m: "max_blkcnt dev \<le> cnt \<Longrightarrow> max_blkcnt dev = cnt" using assms(6) by auto
  have f: "new_read_first dev blk cnt d (0, blk, 0, buf) = Some (False, (0, blk, 0, buf))"
    using assms(1,3) leD [OF assms(4)] by (simp add: new_read_first_def Let_def)
  have p: "put 0 bs buf = Some (bs @ drop (length bs) buf)" using r(3) by (simp add: put_def)
  have e: "new_read_loop dev cnt d (cnt, b, q, buf') = Some (False, (cnt, b, q, buf'))" for b q buf'
    using assms(1,2) by (simp add: word_le_0_iff)
  have "new_read_loop dev cnt d (0, blk, 0, buf)
      = new_read_loop dev cnt d (cnt, blk + cnt, unat (cnt * USER_BLOCK_SIZE), bs @ drop (length bs) buf)"
    by (subst new_read_loop.simps, cases "max_blkcnt dev \<le> cnt")
      (use assms(1,4) c m r(1) p in \<open>simp_all add: Let_def del: new_read_loop.simps\<close>)
  then show ?thesis
    using f e assms(1,2,7) by (simp add: bio_new_read_def unless_end_def new_read_last_def del: new_read_loop.simps)
qed

text \<open>Memory with blocks of 1024 bytes that is read by its native hook: a request for three blocks of 512 bytes.\<close>

definition native_ram :: "bytes bdev" where
  "native_ram = ram\<lparr>bd_block_size := 1024,
     bd_read_native := (\<lambda>block cnt m. (0, take (unat cnt * 1024) (drop (unat block * 1024) m)))\<rparr>"

theorem bio_new_read_lost_tail_witness:
  "bio_new_read native_ram 0 (replicate 1536 7) 0 3 (replicate 2048 1) = Some (3, replicate 1024 1 @ replicate 512 7)"
proof -
  have nb: "native_block_size native_ram = 2" by (simp add: native_block_size_def native_ram_def lk_defs)
  have mx: "max_blkcnt native_ram = 32" by (simp add: max_blkcnt_def native_ram_def ram_def mem_dev_def base_dev_def Let_def)
  show ?thesis
    using bio_new_read_lost_tail [of 2 native_ram 0 3 "replicate 2048 1" "replicate 1024 1" "replicate 1536 7" 0]
    by (simp add: nb mx) (simp add: native_ram_def)
qed

end
