(* ===== verification/Bio_Subdev.thy ===== *)
theory Bio_Subdev
  imports Bio_Device
begin

text \<open>
  Subdevices (\<^verbatim>\<open>lib/bio/subdev.c\<close>): one that lies inside its parent keeps the byte contract, with the
  bytes of its window as contents; so everything that is shown for devices holds for it.
\<close>

lemma overwrite_window:
  assumes "q + length ys \<le> m" "p + m \<le> length xs"
  shows "part p m (overwrite (p + q) ys xs) = overwrite q ys (part p m xs)"
  by (rule list_eq_nth) (use assms in \<open>auto simp: nth_overwrite nth_part\<close>)

lemma subdev_byte_device:
  assumes parent: "byte_device parent contents ok"
    and window: "(unat startblock + unat block_count) * unat (bd_block_size parent) \<le> unat (bd_total_size parent)"
    and dev: "0 < bd_ref dev" "unat (bd_total_size dev) = unat block_count * unat (bd_block_size parent)"
      "bd_read dev = subdev_read parent startblock (bd_block_size parent)"
      "bd_write dev = subdev_write parent startblock (bd_block_size parent)"
  shows "byte_device dev (\<lambda>d. part (unat startblock * unat (bd_block_size parent)) (unat block_count * unat (bd_block_size parent)) (contents d)) ok"
proof -
  define s where "s = unat startblock * unat (bd_block_size parent)"
  define m where "m = unat block_count * unat (bd_block_size parent)"
  note tot = byte_device.total [OF parent] and ct = byte_device.contents_total [OF parent]
  have win: "s + m \<le> unat (bd_total_size parent)" using window by (simp add: s_def m_def add_mult_distrib)
  have sz: "unat (bd_total_size dev) = m" using dev(2) by (simp add: m_def)
  have pos: "unat (offset + ucast startblock * bd_block_size parent) = unat offset + s" if "unat offset \<le> m" for offset :: u64
  proof -
    have "unat (ucast startblock :: u64) = unat startblock"
      using unsigned_less [of startblock, where ?'a = nat] by (simp add: unsigned_ucast_eq take_bit_nat_eq_self)
    moreover have "s < 2 ^ 64" "unat offset + s < 2 ^ 64" using that win tot by simp_all
    ultimately show ?thesis by (simp add: unat_word_ariths s_def)
  qed
  have rng: "unat (offset + ucast startblock * bd_block_size parent) < 2 ^ 63"
      "unat len = min (unat len) (unat (bd_total_size parent) - unat (offset + ucast startblock * bd_block_size parent))"
    if "unat offset + unat len \<le> m" for offset len :: u64
    unfolding pos [OF add_leD1 [OF that]] using that win tot by simp_all
  show ?thesis
    unfolding s_def [symmetric] m_def [symmetric]
  proof
    show "0 < bd_ref dev" by (rule dev(1))
    show "unat (bd_total_size dev) < 2 ^ 62" using sz win tot by simp
    show "length (part s m (contents d)) = unat (bd_total_size dev)" if "ok d" for d
      using ct [OF that] win sz by simp
    show "bd_read dev addr offset len buf d = Some (int (unat len), part (unat offset) (unat len) (part s m (contents d)) @ drop (unat len) buf)"
      if "ok d" "unat offset + unat len \<le> unat (bd_total_size dev)" "0 < unat len" "unat len < 2 ^ 32" "unat len \<le> length buf"
      for d offset len buf addr
    proof -
      have le: "unat offset + unat len \<le> m" using that(2) sz by simp
      then show ?thesis
        using byte_device.bio_read_ok [OF parent that(1) rng(1) [OF le] that(4) rng(2) [OF le] that(5), of addr]
        by (simp add: dev(3) subdev_read_def pos [OF add_leD1 [OF le]] part_part add.commute)
    qed
    show "\<exists>d'. bd_write dev addr buf offset len d = Some (int (unat len), d') \<and> ok d'
        \<and> part s m (contents d') = overwrite (unat offset) (take (unat len) buf) (part s m (contents d))"
      if p: "ok d" "unat offset + unat len \<le> unat (bd_total_size dev)" "0 < unat len" "unat len < 2 ^ 32" "unat len \<le> length buf"
      for d offset len buf addr
    proof -
      have le: "unat offset + unat len \<le> m" using p(2) sz by simp
      obtain d' where "bio_write parent addr buf (offset + ucast startblock * bd_block_size parent) len d = Some (int (unat len), d')"
          "ok d'" "contents d' = overwrite (unat offset + s) (take (unat len) buf) (contents d)"
        using byte_device.bio_write_ok [OF parent p(1) rng(1) [OF le] p(4) rng(2) [OF le] p(5), of addr]
        unfolding pos [OF add_leD1 [OF le]] by blast
      moreover have "unat offset + length (take (unat len) buf) \<le> m" "s + m \<le> length (contents d)"
        using le p(5) win ct [OF p(1)] by simp_all
      ultimately show ?thesis
        using overwrite_window [of "unat offset" "take (unat len) buf" m s "contents d"]
        by (simp add: dev(4) subdev_write_def add.commute)
    qed
  qed
qed

lemma unat_pow2_64: "k < 64 \<Longrightarrow> unat (2 ^ k :: u64) = 2 ^ k"
proof -
  assume k: "k < 64"
  have e: "(2 :: u64) ^ k = push_bit k 1" by (simp add: push_bit_eq_mult)
  show ?thesis unfolding e unsigned_push_bit_eq using k by (simp add: push_bit_eq_mult take_bit_nat_eq_self_iff)
qed

lemma unat_push_bit_64:
  fixes w :: u32
  assumes "unat w * 2 ^ k < 2 ^ 64"
  shows "unat (push_bit k (ucast w) :: u64) = unat w * 2 ^ k"
proof -
  have "unat (ucast w :: u64) = unat w"
    using unsigned_less [of w, where ?'a = nat] by (simp add: unsigned_ucast_eq take_bit_nat_eq_self)
  then show ?thesis using assms by (simp add: unsigned_push_bit_eq push_bit_nat_def take_bit_nat_eq_self)
qed

text \<open>The range check of a subdevice whose parent has no erase regions.\<close>

lemma sub_geometry_plain:
  assumes "bd_geometry parent = []"
  shows "sub_geometry parent startblock block_count =
    Some (if unat startblock + unat block_count \<le> unat (bd_block_count parent) then Inr [] else Inl ERR_INVALID_ARGS)"
proof -
  note lt = unsigned_less [of startblock, where ?'a = nat] unsigned_less [of block_count, where ?'a = nat]
    unsigned_less [of "bd_block_count parent", where ?'a = nat]
  let ?e = "startblock + block_count"
  have "(?e < startblock \<or> ?e > bd_block_count parent) \<longleftrightarrow> \<not> unat startblock + unat block_count \<le> unat (bd_block_count parent)"
  proof (cases "unat startblock + unat block_count < 2 ^ 32")
    case True
    then have "unat ?e = unat startblock + unat block_count" by (simp add: unat_word_ariths)
    then show ?thesis by (auto simp: word_less_nat_alt)
  next
    case False
    then have "unat ?e < unat startblock" using lt by (simp add: unat_plus_if_size word_size)
    then show ?thesis using False lt by (simp add: word_less_nat_alt)
  qed
  then show ?thesis using assms by (simp add: sub_geometry_def Let_def)
qed

text \<open>
  Publishing a subdevice of a parent without erase regions: a range inside the parent gives a registered
  device that keeps the byte contract, and any other range is refused and gives the reference to the parent back.
\<close>

lemma publish_subdevice_window:
  assumes o: "bio_open parent_dev s = Some (Some pp, s1)" and p: "p \<noteq> pp" and g: "bd_geometry (devs s1 pp) = []"
    and parent: "byte_device (devs s1 pp) contents ok"
    and size: "bd_block_size (devs s1 pp) = 2 ^ k" "k < 32"
      "unat (bd_total_size (devs s1 pp)) = unat (bd_block_count (devs s1 pp)) * 2 ^ k"
  shows "unat startblock + unat block_count \<le> unat (bd_block_count (devs s1 pp)) \<Longrightarrow>
      \<exists>s'. bio_publish_subdevice (Some p) parent_dev subdev startblock block_count s = Some (NO_ERROR, s') \<and> bdevs s' = bdevs s1 @ [p]
        \<and> byte_device (devs s' p) (\<lambda>d. part (unat startblock * 2 ^ k) (unat block_count * 2 ^ k) (contents d)) ok"
    and "\<not> unat startblock + unat block_count \<le> unat (bd_block_count (devs s1 pp)) \<Longrightarrow>
      bio_publish_subdevice (Some p) parent_dev subdev startblock block_count s = Some (ERR_INVALID_ARGS, snd (bio_close pp s1))"
proof -
  let ?par = "devs s1 pp"
  have u: "unat (bd_block_size ?par) = 2 ^ k" using size(1,2) unat_pow2_64 [of k] by simp
  show "bio_publish_subdevice (Some p) parent_dev subdev startblock block_count s = Some (ERR_INVALID_ARGS, snd (bio_close pp s1))"
    if "\<not> unat startblock + unat block_count \<le> unat (bd_block_count ?par)"
    using o that sub_geometry_plain [OF g] by (simp add: bio_publish_subdevice_def)
  assume in_par: "unat startblock + unat block_count \<le> unat (bd_block_count ?par)"
  have c: "ucast (bd_block_size ?par) = valpow2 k" "bd_block_size ?par \<noteq> 0"
  proof -
    show "ucast (bd_block_size ?par) = valpow2 k" 
      using u unat_valpow2 [OF size(2)] size(2)
      by (simp add: word_unat_eq_iff unsigned_ucast_eq take_bit_nat_eq_self)
    show "bd_block_size ?par \<noteq> 0" using u by auto
  qed
  let ?dev = "(devs s1 p)\<lparr>bd_name := subdev, bd_block_size := bd_block_size ?par, bd_block_count := block_count,
      bd_block_shift := k, bd_total_size := push_bit k (ucast block_count), bd_geometry := [], bd_erase_byte := 0, bd_erase_size := 0,
      bd_ref := 1, bd_flags := BIO_FLAGS_NONE, bd_read := subdev_read ?par startblock (bd_block_size ?par),
      bd_read_block := subdev_read_block ?par startblock, bd_write := subdev_write ?par startblock (bd_block_size ?par),
      bd_write_block := subdev_write_block ?par startblock, bd_erase := subdev_erase ?par startblock (bd_block_size ?par)\<rparr>"
  obtain s' where s': "bio_publish_subdevice (Some p) parent_dev subdev startblock block_count s = Some (NO_ERROR, s')"
      "bdevs s' = bdevs s1 @ [p]" "devs s' p = ?dev"
  proof -
    have "\<exists>s'. bio_publish_subdevice (Some p) parent_dev subdev startblock block_count s = Some (NO_ERROR, s') \<and> bdevs s' = bdevs s1 @ [p]
      \<and> devs s' p = ?dev"
      using o in_par c sub_geometry_plain [OF g] log2_uint_valpow2 [OF size(2)] ispow2_valpow2 [of k]
      by (simp add: bio_publish_subdevice_def bio_initialize_bdev_def bio_register_device_def bdev_inc_ref_def Let_def)
    then show thesis using that by blast
  qed
  have w: "(unat startblock + unat block_count) * unat (bd_block_size ?par) \<le> unat (bd_total_size ?par)"
    unfolding u size(3) using in_par by (rule mult_le_mono1)
  have "unat block_count * 2 ^ k \<le> unat (bd_total_size ?par)" using w unfolding u by (simp add: add_mult_distrib)
  then have "unat (bd_total_size ?dev) = unat block_count * unat (bd_block_size ?par)"
    using unat_push_bit_64 [of block_count k] byte_device.total [OF parent] u by simp
  then have "byte_device ?dev (\<lambda>d. part (unat startblock * unat (bd_block_size ?par)) (unat block_count * unat (bd_block_size ?par)) (contents d)) ok"
    by (intro subdev_byte_device [OF parent w]) simp_all
  then show "\<exists>s'. bio_publish_subdevice (Some p) parent_dev subdev startblock block_count s = Some (NO_ERROR, s') \<and> bdevs s' = bdevs s1 @ [p]
        \<and> byte_device (devs s' p) (\<lambda>d. part (unat startblock * 2 ^ k) (unat block_count * 2 ^ k) (contents d)) ok"
    using s' unfolding u by (intro exI [of _ s']) simp
qed

end
