(* ===== verification/Bcache_Props.thy ===== *)
theory Bcache_Props
  imports Bcache_Ops Bio_Props Bio_Subdev
begin

text \<open>
  The properties of the block cache on every device that keeps the byte contract: it is an array of blocks
  for its clients, a flush brings the medium up to date, and the memory that a client has a
  reference of stays the memory of that block.
\<close>

section \<open>A new cache\<close>

context block_cache
begin

lemma create_rep:
  assumes "ok d" "\<forall>i < N. length (blk_data (mem i)) = unat n"
  shows "rep N (bcache_create mem dev n N, d) (\<lambda>k. (bpart n (contents d) k, 0))"
proof -
  let ?c = "bcache_create mem dev n N"
  have f: "lru_list ?c = []" "free_list ?c = rev [0..<N]" "bc_dev ?c = dev" "bc_block_size ?c = n"
    by (simp_all add: bcache_create_def rev_conv_fold)
  have "cache_wf ?c (contents d)"
    by (rule cache_wfI; (unfold f)?) (use assms(2) in \<open>auto simp: bcache_create_def\<close>)
  then have "good N ?c d" using f assms(1) by (simp add: good_def)
  moreover have "same_abs (?c, d) (\<lambda>k. (bpart n (contents d) k, 0))"
    using abs_out [of ?c] f by (simp add: same_abs_def)
  ultimately show ?thesis by (simp add: rep_def)
qed

lemma run_rep:
  assumes "ok d" "\<forall>i < N. length (blk_data (mem i)) = unat n"
    and "run_pre (bc_pre n size_of N) (bc_spec n) ps (\<lambda>k. (bpart n (contents d) k, 0))"
  shows "\<exists>c' d'. run_ops bc_step ps (bcache_create mem dev n N, d)
      = Some (fst (run_spec (bc_spec n) ps (\<lambda>k. (bpart n (contents d) k, 0))), c', d')
    \<and> rep N (c', d') (snd (run_spec (bc_spec n) ps (\<lambda>k. (bpart n (contents d) k, 0))))"
  using arr.simulates [OF create_rep [OF assms(1,2)] assms(3)] by auto

end

lemma block_cacheI: "byte_device dev contents ok \<Longrightarrow> 0 < unat n \<Longrightarrow> unat n < 2 ^ 31 \<Longrightarrow> block_cache dev contents ok n"
  by (simp add: block_cache_def block_cache_axioms_def)

interpretation memc: block_cache "mem_dev ''ram'' 0x7FFFFF 0 base_dev" "\<lambda>m. m" "\<lambda>m. length m = unat (0x7FFFFF :: u32) * 512" 512
  by (rule block_cacheI [OF mem_byte_device]) simp_all

text \<open>The array of blocks that a medium holds at first.\<close>

definition initial_blocks :: "u64 \<Rightarrow> bytes \<Rightarrow> bc_array" where
  "initial_blocks n m = (\<lambda>k. (take (unat n) (drop (unat k * unat n) m), 0))"

lemma initial_blocks_bpart: "initial_blocks n m = (\<lambda>k. (bpart n m k, 0))"
  by (simp add: initial_blocks_def bpart_def part_def)

section \<open>Properties\<close>

text \<open>
  C38 A block cache is an array of blocks. On every device that keeps the byte contract, every sequence
  of reads, references, changes of referenced blocks that are marked dirty, zeroed blocks, releases and
  flushes from \<^verbatim>\<open>bcache_create\<close> on runs through, and has the results that it has on an array of blocks
  which starts with the contents of the medium, whatever is replaced in between, as long as
  blocks are inside the medium and a block is brought in only while not all buffers are referenced.
\<close>

theorem bcache_refines_array:
  assumes "byte_device dev contents ok" "0 < unat n" "unat n < 2 ^ 31" "ok d" "\<forall>i < N. length (blk_data (mem i)) = unat n"
    and "run_pre (bc_pre n (unat (bd_total_size dev)) N) (bc_spec n) ps (initial_blocks n (contents d))"
  shows "\<exists>c' d'. run_ops bc_step ps (bcache_create mem dev n N, d)
    = Some (fst (run_spec (bc_spec n) ps (initial_blocks n (contents d))), c', d')"
  using block_cache.run_rep [OF block_cacheI [OF assms(1-3)] assms(4,5)] assms(6) unfolding initial_blocks_bpart by blast

text \<open>One buffer for both blocks of a memory device.\<close>

definition ram_ops :: "bc_op list" where
  "ram_ops = [BGet 1, BUpdate 1 (replicate 512 9), BPut 1, BRead 0, BRead 1]"

definition one_buffer :: "nat \<Rightarrow> bcache_block" where
  "one_buffer = (\<lambda>_. \<lparr>blocknum = 0, ref_count = 0, is_dirty = False, blk_addr = 0, blk_data = replicate 512 0\<rparr>)"

lemma ram_ops_allowed: "run_pre (bc_pre 512 1024 1) (bc_spec 512) ram_ops (initial_blocks 512 (replicate 1024 1))"
  by (simp add: ram_ops_def initial_blocks_def inside_def)

lemma ram_ops_results:
  "run_spec (bc_spec 512) ram_ops (initial_blocks 512 (replicate 1024 1)) =
     ([(0, replicate 512 1), (0, []), (0, []), (0, replicate 512 1), (0, replicate 512 9)],
      (initial_blocks 512 (replicate 1024 1))(1 := (replicate 512 9, 0)))"
  by (simp add: ram_ops_def initial_blocks_def)

theorem bcache_refines_array_witness:
  "\<exists>c' d'. run_ops bc_step ram_ops (bcache_create one_buffer ram 512 1, replicate 1024 1)
    = Some ([(0, replicate 512 1), (0, []), (0, []), (0, replicate 512 1), (0, replicate 512 9)], c', d')"
  using bcache_refines_array [OF ram_byte_device, of 512 "replicate 1024 1" 1 one_buffer ram_ops] ram_ops_allowed
  by (simp add: ram_ops_results one_buffer_def)

text \<open>
  C39 A flush brings the medium up to date. After any allowed sequence of operations \<^verbatim>\<open>bcache_flush\<close>
  succeeds and then every block of the medium holds what its clients last wrote or read there.
\<close>

theorem bcache_flush_writes_back:
  assumes "byte_device dev contents ok" "0 < unat n" "unat n < 2 ^ 31" "ok d" "\<forall>i < N. length (blk_data (mem i)) = unat n"
    and "run_pre (bc_pre n (unat (bd_total_size dev)) N) (bc_spec n) ps (initial_blocks n (contents d))"
  shows "\<exists>rs c1 d1 c2 d2. run_ops bc_step ps (bcache_create mem dev n N, d) = Some (rs, c1, d1)
    \<and> bcache_flush c1 d1 = Some (0, c2, d2)
    \<and> (\<forall>k. inside n (unat (bd_total_size dev)) k \<longrightarrow>
         take (unat n) (drop (unat k * unat n) (contents d2)) = fst (snd (run_spec (bc_spec n) ps (initial_blocks n (contents d))) k))"
proof -
  note bc = block_cacheI [OF assms(1-3)]
  obtain c1 d1 where r: "run_ops bc_step ps (bcache_create mem dev n N, d)
        = Some (fst (run_spec (bc_spec n) ps (initial_blocks n (contents d))), c1, d1)"
      "block_cache.rep dev contents ok n N (c1, d1) (snd (run_spec (bc_spec n) ps (initial_blocks n (contents d))))"
    using block_cache.run_rep [OF bc assms(4,5)] assms(6) unfolding initial_blocks_bpart by blast
  from block_cache.flush_ok [OF bc r(2)] show ?thesis
    using r(1) unfolding inside_def bpart_def part_def by blast
qed

theorem bcache_flush_writes_back_witness:
  "\<exists>rs c1 d1 c2 d2. run_ops bc_step ram_ops (bcache_create one_buffer ram 512 1, replicate 1024 1) = Some (rs, c1, d1)
    \<and> bcache_flush c1 d1 = Some (0, c2, d2) \<and> take 512 d2 = replicate 512 1 \<and> take 512 (drop 512 d2) = replicate 512 9"
proof -
  obtain rs c1 d1 c2 d2 where r: "run_ops bc_step ram_ops (bcache_create one_buffer ram 512 1, replicate 1024 1) = Some (rs, c1, d1)"
      "bcache_flush c1 d1 = Some (0, c2, d2)"
      "\<forall>k. inside 512 1024 k \<longrightarrow> take 512 (drop (unat k * 512) d2)
         = fst (((initial_blocks 512 (replicate 1024 1))(1 := (replicate 512 9, 0))) k)"
    using bcache_flush_writes_back [OF ram_byte_device, of 512 "replicate 1024 1" 1 one_buffer ram_ops] ram_ops_allowed
    by (auto simp: ram_ops_results one_buffer_def)
  have "inside 512 1024 0" "inside 512 1024 1" by (simp_all add: inside_def)
  then have "take 512 d2 = replicate 512 1" "take 512 (drop 512 d2) = replicate 512 9"
    using r(3) [rule_format, of 0] r(3) [rule_format, of 1] by (simp_all add: initial_blocks_def)
  then show ?thesis using r(1,2) by blast
qed

text \<open>
  C40 Referenced memory stays in place. In every state of the cache that clients reach, an operation leaves every block
  with a positive reference count in the cache, in the same memory and with the same number, whatever it
  brings in: the pointer that \<^verbatim>\<open>bcache_get_block\<close> gave out stays valid until the last reference is put.
\<close>

theorem bcache_referenced_stays:
  assumes "byte_device dev contents ok" "0 < unat n" "unat n < 2 ^ 31" "ok d" "\<forall>i < N. length (blk_data (mem i)) = unat n"
    and "run_pre (bc_pre n (unat (bd_total_size dev)) N) (bc_spec n) (ps @ [p]) (initial_blocks n (contents d))"
    and "run_ops bc_step ps (bcache_create mem dev n N, d) = Some (rs, c1, d1)"
    and "b \<in> set (lru_list c1)" "0 < ref_count (bc_blocks c1 b)"
  shows "\<exists>r c2 d2. bc_step p (c1, d1) = Some (r, c2, d2) \<and> b \<in> set (lru_list c2)
    \<and> blocknum (bc_blocks c2 b) = blocknum (bc_blocks c1 b)"
proof -
  note bc = block_cacheI [OF assms(1-3)]
  let ?x = "snd (run_spec (bc_spec n) ps (initial_blocks n (contents d)))"
  have pre: "run_pre (bc_pre n (unat (bd_total_size dev)) N) (bc_spec n) ps (initial_blocks n (contents d))"
    "bc_pre n (unat (bd_total_size dev)) N p ?x" using assms(6) by (simp_all add: run_pre_append)
  have "block_cache.rep dev contents ok n N (c1, d1) ?x"
    using block_cache.run_rep [OF bc assms(4,5)] pre(1) assms(7) unfolding initial_blocks_bpart by fastforce
  from block_cache.step_ok [OF bc this pre(2)] show ?thesis
    using assms(8,9) unfolding block_cache.steps_to_def [OF bc] keeps_def by blast
qed

theorem bcache_referenced_stays_witness:
  "\<exists>rs c1 d1 b r c2 d2. run_ops bc_step [BGet 1] (bcache_create one_buffer ram 512 2, replicate 1024 1) = Some (rs, c1, d1)
    \<and> b \<in> set (lru_list c1) \<and> 0 < ref_count (bc_blocks c1 b)
    \<and> bc_step (BRead 0) (c1, d1) = Some (r, c2, d2) \<and> b \<in> set (lru_list c2) \<and> blocknum (bc_blocks c2 b) = blocknum (bc_blocks c1 b)"
proof -
  let ?x = "initial_blocks 512 (replicate 1024 1)"
  have bc: "block_cache ram (\<lambda>m. m) (\<lambda>m. length m = 1024) 512" by (rule block_cacheI [OF ram_byte_device]) simp_all
  have "{j :: bnum_t. j = 1} = {1}" by blast
  then have pre: "run_pre (bc_pre 512 1024 2) (bc_spec 512) ([BGet 1] @ [BRead 0]) ?x" by (simp add: initial_blocks_def inside_def)
  then have "run_pre (bc_pre 512 1024 2) (bc_spec 512) [BGet 1] ?x" unfolding run_pre_append by blast
  then obtain rs c1 d1 where r: "run_ops bc_step [BGet 1] (bcache_create one_buffer ram 512 2, replicate 1024 1) = Some (rs, c1, d1)"
      "block_cache.rep ram (\<lambda>m. m) (\<lambda>m. length m = 1024) 512 2 (c1, d1) (snd (run_spec (bc_spec 512) [BGet 1] ?x))"
    using block_cache.run_rep [OF bc, of "replicate 1024 1" 2 one_buffer "[BGet 1]"] unfolding initial_blocks_bpart
    by (auto simp: one_buffer_def)
  obtain b where l: "lookup c1 1 = Some b"
    using block_cache.referenced_cached [OF bc r(2), of 1] by (auto simp: initial_blocks_def)
  have "cache_abs c1 d1 1 = snd (run_spec (bc_spec 512) [BGet 1] ?x) 1"
    using r(2) unfolding block_cache.rep_def [OF bc] block_cache.same_abs_def [OF bc] by simp
  then have "ref_count (bc_blocks c1 b) = 1" using l by (simp add: cache_abs_def initial_blocks_def)
  then have b: "b \<in> set (lru_list c1)" "0 < ref_count (bc_blocks c1 b)" using lookup_Some [OF l] by simp_all
  have "\<exists>r c2 d2. bc_step (BRead 0) (c1, d1) = Some (r, c2, d2) \<and> b \<in> set (lru_list c2) \<and> blocknum (bc_blocks c2 b) = blocknum (bc_blocks c1 b)"
    by (rule bcache_referenced_stays [OF ram_byte_device _ _ _ _ _ r(1) b]) (use pre in \<open>simp_all add: one_buffer_def\<close>)
  then show ?thesis using r(1) b by blast
qed

section \<open>A read that fails\<close>

text \<open>
  When the device fails to read a block that is not in the cache, the block that was allocated for it
  ends up in both lists: from there on the cache has no defined behaviour.
\<close>

lemma bcache_read_error_breaks_lists:
  assumes "lookup c k = None" "free_list c = b # bs" "b \<notin> set bs"
    and "\<And>addr buf. \<exists>buf'. bio_read (bc_dev c) addr (block_pos c k) (bc_block_size c) buf d = Some (err, buf')" "to_int err < 0"
  shows "bcache_read_block c k d = None"
proof -
  have f: "find (\<lambda>b. blocknum (bc_blocks c b) = k) (lru_list c) = None" using assms(1) by (simp add: lookup_def)
  obtain buf' where "bio_read (bc_dev c) (blk_addr (bc_blocks c b)) (block_pos c k) (bc_block_size c) (blk_data (bc_blocks c b)) d = Some (err, buf')"
    using assms(4) by blast
  then show ?thesis
    using f assms(2,3,5)
    by (simp add: bcache_read_block_def find_or_fill_block_def find_block_def alloc_block_def add_free_def block_pos_def Let_def)
qed

end
