(* ===== verification/Spec2Isabelle.thy ===== *)
theory Spec2Isabelle
  imports Sync_Props Cbuf_Props Port_Props Lib_Pow2 Lib_List Vmm_Props Miniheap_Props Bcache_Props
begin

text \<open>
  A verification library for the core of the LK (Little Kernel) boot loader of this repository:
  the scheduler and its threads, wait queues, timers, mutexes, semaphores, events and ports, the
  linked lists, circular buffers and power-of-two helpers they are built from, the memory
  managers below them (the physical page allocator, the regions of virtual memory and the heap), and the
  block devices with the block cache in front of them. Everything else in the
  repository (architecture and board code, drivers, file systems, the network stack, vendored
  libraries) is named at the end.

  \<^bold>\<open>How the parts work together.\<close> Threads run on several cpus under one spin lock (the thread
  lock). A thread that has to wait blocks on a wait queue, possibly with a timer that takes it off
  again; mutexes, semaphores, events and ports each own a wait queue and use nothing else of the
  scheduler. The circular buffer signals an event. The heap takes pages from the page allocator,
  which is the physical memory manager seen through the kernel's direct mapping; the physical
  memory manager takes the memory of its own tables from the boot allocator. Address spaces and their
  regions get their pages from the physical memory manager as well. File systems and the boot code read and
  write block devices, through the cache or directly. All queues in the
  code are the intrusive lists of \<^verbatim>\<open>include/list.h\<close>.

  \<^bold>\<open>Conventions.\<close> \<^verbatim>\<open>DEBUG_ASSERT\<close> and \<^verbatim>\<open>panic\<close> are the option monad: \<open>None\<close> is a kernel
  that has stopped. Machine integers whose wrap-around the code can reach (times, addresses, sizes, flags,
  bitmaps, indices of buffers) are words at their width. Integers without bound stand for the \<^verbatim>\<open>int\<close>
  counters of threads, wait queues, mutexes and semaphores, for priorities, quanta and return codes, and for status
  codes; the size of a stack and the block count of a cache are natural numbers. A routine that holds the
  thread lock or a mutex from beginning to end is one atomic step. So are those that give it up in between, and
  there the model has fewer interleavings than the code: the timer interrupt (\<^verbatim>\<open>timer_lock\<close> is released
  around each callback), \<^verbatim>\<open>miniheap_alloc\<close> while the heap grows, \<^verbatim>\<open>vmm_free_region\<close> and
  \<^verbatim>\<open>vmm_free_aspace\<close> while they give the pages back, \<^verbatim>\<open>thread_detach\<close> of a dead thread before it
  joins it. A blocking routine is split at the context switch: the part
  up to it returns \<open>Blocks\<close>, the part after it is a definition with the suffix \<open>_exit\<close>. Each
  theory starts with the data of its C file as records, then has one definition per C function, with
  the same name, and a helper definition per loop. The configuration is an SMP debug build on a
  64-bit machine with 4 KB pages and the miniheap.

  \<^bold>\<open>Foundations.\<close>
  \<^item> \<open>LK_Prelude\<close>: \<^verbatim>\<open>include/err.h\<close>, \<^verbatim>\<open>include/sys/types.h\<close>, assertions, bitmaps, and the shared lemmas.
  \<^item> \<open>LK_System\<close>: the locale \<open>call_system\<close>, calls that are allowed in a state and may fail in named
    situations; an invariant gives that a sequence of allowed calls is stopped in such a situation or not at all.
    Interpreted for the kernel. Its special case \<open>guarded_system\<close> (a \<open>sublocale\<close>), in which no allowed
    call fails, is interpreted for the mutex, the semaphore, the physical memory manager, the virtual
    memory manager and the heap.
  \<^item> \<open>LK_Refine\<close>: the locale \<open>data_refinement\<close>, an implementation that follows a specification
    operation by operation. Interpreted for the linked lists and, for every device, for the block cache.
  \<^item> \<open>Lib_Pow2\<close> (\<^verbatim>\<open>include/pow2.h\<close>), \<open>Lib_Align\<close> (the rounding macros of \<^verbatim>\<open>stdlib.h\<close>) and
    \<open>Lib_List\<close> (\<^verbatim>\<open>include/list.h\<close>, on a memory of nodes with null pointers): the pointer operations
    refine a list, which is how the other theories model a queue.

  \<^bold>\<open>The kernel.\<close>
  \<^item> \<open>Kernel_Timer\<close> (\<^verbatim>\<open>kernel/timer.c\<close>), \<open>Kernel_Thread\<close> and \<open>Kernel_Wait\<close> (\<^verbatim>\<open>kernel/thread.c\<close>,
    \<^verbatim>\<open>kernel/mp.c\<close> and their headers) hold the definitions; the state \<open>kstate\<close> is the globals of
    these files with the per-cpu current threads and the clock.
  \<^item> \<open>Kernel_Inv\<close> is the invariant (every thread is in exactly one place, queues, bitmap and counts
    agree), \<open>Kernel_Sched\<close>, \<open>Kernel_Ops\<close>, \<open>Kernel_WaitOps\<close>, \<open>Kernel_Life\<close>, \<open>Kernel_Cpu\<close> (secondary cpus,
    with the part of \<^verbatim>\<open>top/main.c\<close> that starts them) and \<open>Kernel_Tick\<close> that
    each operation keeps it and what it does, \<open>Kernel_System\<close> the interpretation of
    \<open>call_system\<close>, \<open>Kernel_Props\<close> the properties: the one panic that allowed calls can reach, placement of
    threads, priorities, FIFO wake-up, time-outs, join, and that the timer interrupt terminates. The loop of \<^verbatim>\<open>timer_tick\<close>
    takes a bound on its passes; one more than the number of timers in the queue of the cpu is enough as long as
    the callbacks keep their contract, and the bound is part of the theorem. \<open>None\<close> is both a loop that needs
    more passes and a failed assertion; the theorems tell them apart, by showing that the loop has a result or
    that each single pass (\<open>timer_tick_round\<close>) has one.
  \<^item> What the kernel does not promise, and the properties say so: the last assertion of \<^verbatim>\<open>timer_tick\<close>
    fails when the next timer is due exactly 2^31 ms from now (a thread that sleeps that long on an otherwise idle
    cpu, and a tick in the same millisecond); a period above 2^31 ms keeps the interrupt in its loop;
    \<^verbatim>\<open>thread_set_real_time\<close> of a thread that another cpu runs makes a later switch panic; the second of
    two joiners finds the thread freed. The first is an outcome of the system of calls, the other three are
    obligations of its callers (\<open>kallowed\<close>).
  \<^item> \<open>Kernel_Sync\<close> has \<^verbatim>\<open>kernel/mutex.c\<close>, \<^verbatim>\<open>kernel/semaphore.c\<close> and \<^verbatim>\<open>kernel/event.c\<close>;
    \<open>Sync_Tokens\<close> the locale \<open>token_object\<close> (an object that hands out a bounded number of tokens),
    \<open>Kernel_Mutex\<close> and \<open>Kernel_Sem\<close> its interpretations, \<open>Sync_Props\<close> mutual exclusion, the refinement
    of an abstract lock, and the races that were found.
  \<^item> \<open>Lib_Fifo\<close> has the locales \<open>bounded_fifo\<close> and \<open>greedy_fifo\<close>; \<open>Lib_Cbuf\<close> (\<^verbatim>\<open>lib/cbuf/cbuf.c\<close>) and
    \<open>Kernel_Port\<close> (\<^verbatim>\<open>kernel/port.c\<close>) provide them; \<open>Cbuf_Props\<close> and \<open>Port_Props\<close> have the properties.

  \<^bold>\<open>Memory.\<close>
  \<^item> \<open>Kernel_Pmm\<close> is \<^verbatim>\<open>kernel/vm/pmm.c\<close>, \<^verbatim>\<open>kernel/vm/bootalloc.c\<close> and the translation of
    \<^verbatim>\<open>kernel/vm/vm.c\<close> it uses; \<open>Pmm_Inv\<close>, \<open>Pmm_Ops\<close> and \<open>Pmm_Contig\<close> have the invariant, the
    operations and the search for aligned runs (a \<^verbatim>\<open>goto\<close> loop that is shown to end for
    alignments up to 2^31 and arenas below 2^31 pages); \<open>Pmm_Props\<close> that every page has one owner.
  \<^item> \<open>Lib_Miniheap\<close> is \<^verbatim>\<open>lib/heap/miniheap/miniheap.c\<close>, \<^verbatim>\<open>lib/heap/page_alloc.c\<close> and the
    functions of \<^verbatim>\<open>lib/heap/heap_wrapper.c\<close> over it; \<open>Miniheap_Inv\<close>, \<open>Miniheap_Ops\<close> and
    \<open>Miniheap_Props\<close> show that blocks never overlap, that the free list is always merged and
    accounts for every byte, and that freeing undoes an allocation.

  \<^item> \<open>Kernel_Vmm\<close> is \<^verbatim>\<open>kernel/vm/vmm.c\<close> and the start-up code of \<^verbatim>\<open>kernel/vm/vm.c\<close> over the
    model of the physical memory manager; the calls into the page tables are a log. \<open>Vmm_Inv\<close> is the invariant,
    \<open>Vmm_Spot\<close> the search for a gap, \<open>Vmm_Ops\<close> and \<open>Vmm_Boot\<close> that every operation and the start-up
    keep it, \<open>Vmm_Props\<close> the properties: regions are disjoint and inside their address space, every page
    handed out has one owner, a region goes to the lowest address where it fits, and which thread's
    address space a call can leave dangling. The field \<^verbatim>\<open>aspace\<close> of every thread is part of the state.

  \<^bold>\<open>Block devices.\<close>
  \<^item> \<open>Lib_Bio\<close> is \<^verbatim>\<open>lib/bio/bio.c\<close>, \<^verbatim>\<open>mem.c\<close> and \<^verbatim>\<open>subdev.c\<close>. A driver is a parameter: the
    locale \<open>block_driver\<close> of \<open>Bio_Access\<close> is the contract of its block access, the locale \<open>byte_device\<close> of
    \<open>Bio_Device\<close> that of a device accessed in bytes. \<open>Bio_Access\<close> and \<open>Bio_Write\<close> show what the default
    byte access does over a driver, \<open>Bio_Device\<close> that it turns the first contract into the second (a \<open>sublocale\<close>),
    that memory devices keep both, and what the default erase writes; \<open>Bio_Subdev\<close> that subdevices
    keep the contract of their parent on their window; \<open>Bio_Props\<close> has the properties.
  \<^item> \<open>Lib_Bcache\<close> is \<^verbatim>\<open>lib/bcache/bcache.c\<close> over \<open>byte_device\<close>; \<open>Bcache_Inv\<close> has the invariant and the
    blocks that clients see, \<open>Bcache_Ops\<close> the refinement of an array of blocks, \<open>Bcache_Props\<close> the properties.
  \<^item> The loops of the transfers in bytes run over the number of whole blocks; those of the access in blocks of
    512 bytes end because every pass adds to the blocks done, which is their termination proof; the
    default erase and the clearing of single blocks, which end only if the driver writes something, are partial
    functions, and that the erase returns on every device that keeps the contract is part of what is shown of it.

  \<^bold>\<open>Parameters.\<close> What the model takes from outside: the callbacks of user timers and the entry
  points of threads, the results of memory allocations inside the kernel objects, the pages the page
  allocator grants to the heap, the translation of virtual addresses by the MMU, and the drivers of block devices.

  \<^bold>\<open>Not modelled.\<close> Assembly, registers and interrupts (\<^verbatim>\<open>arch\<close>, \<^verbatim>\<open>platform\<close>, \<^verbatim>\<open>target\<close>, \<^verbatim>\<open>dev\<close>):
  they are hardware. Vendored code (\<^verbatim>\<open>external\<close>, \<^verbatim>\<open>lib/libavb\<close>). Console commands, tests and
  dumps: they only print. The preemption of a routine inside its critical section does not occur, and
  spin locks and memory ordering between cpus are not modelled below that. The contents of
  thread stacks and heap blocks are not part of the state. The close hook and the ioctl hook of a block device
  are not modelled, nor are the file systems, the network stack, the partition tables, the C library and
  the graphics library above these components: they are decoders of formats and protocols of
  their own, which share no state with what is modelled.
\<close>

end
